(* ===== verification/Rsemu_Prelude.thy ===== *)
theory Rsemu_Prelude
  imports Main "HOL-Library.Word"
begin

text \<open>
  Shared vocabulary of the development: names for Rust's machine integers, the
  result type of fallible code with its sequencing operator, the collections of
  rewrite rules the component theories fill, and generic facts on lists,
  options and words that more than one component uses.
\<close>

unbundle bit_operations_syntax

section \<open>Machine integers\<close>

type_synonym u8 = "8 word"
type_synonym u16 = "16 word"
type_synonym u32 = "32 word"
type_synonym u64 = "64 word"
type_synonym u128 = "128 word"

section \<open>Fallible code\<close>

text \<open>
  \<open>Result<T, E>\<close> is \<^typ>\<open>'e + 'a\<close>: \<^const>\<open>Inl\<close> carries the error and
  \<^const>\<open>Inr\<close> the value. \<open>rbind\<close> is the \<open>?\<close> operator: the first error is
  returned and what follows it is not evaluated.
\<close>

type_synonym ('e, 'a) result = "'e + 'a"

definition rbind :: "'e + 'a \<Rightarrow> ('a \<Rightarrow> 'e + 'b) \<Rightarrow> 'e + 'b" where
  "rbind r f = (case r of Inl e \<Rightarrow> Inl e | Inr v \<Rightarrow> f v)"

definition map_err :: "('e \<Rightarrow> 'f) \<Rightarrow> 'e + 'a \<Rightarrow> 'f + 'a" where
  "map_err g r = (case r of Inl e \<Rightarrow> Inl (g e) | Inr v \<Rightarrow> Inr v)"

definition ok_or :: "'a option \<Rightarrow> 'e \<Rightarrow> 'e + 'a" where
  "ok_or x e = (case x of None \<Rightarrow> Inl e | Some v \<Rightarrow> Inr v)"

definition require :: "bool \<Rightarrow> 'e \<Rightarrow> 'e + unit" where
  "require b e = (if b then Inr () else Inl e)"

definition is_ok :: "'e + 'a \<Rightarrow> bool" where
  "is_ok r = (case r of Inl _ \<Rightarrow> False | Inr _ \<Rightarrow> True)"

text \<open>Rewrite rules of the error layer, and one collection per kind of component fact.\<close>

named_theorems result_simps \<open>evaluation and inversion of the error layer\<close>
named_theorems wf_intros \<open>preservation of well-formedness by the operations\<close>
named_theorems codec_simps \<open>evaluation of encoders and decoders\<close>

lemma rbind_Inl [simp, result_simps]: "rbind (Inl e) f = Inl e"
  by (simp add: rbind_def)

lemma rbind_Inr [simp, result_simps]: "rbind (Inr v) f = f v"
  by (simp add: rbind_def)

lemma rbind_eq_Inr [result_simps]:
  "rbind r f = Inr w \<longleftrightarrow> (\<exists>v. r = Inr v \<and> f v = Inr w)"
  by (cases r) auto

lemma rbind_eq_Inl [result_simps]:
  "rbind r f = Inl e \<longleftrightarrow> r = Inl e \<or> (\<exists>v. r = Inr v \<and> f v = Inl e)"
  by (cases r) auto

lemma rbind_assoc: "rbind (rbind r f) g = rbind r (\<lambda>v. rbind (f v) g)"
  by (cases r) auto

lemma rbind_cong [fundef_cong]:
  "r = r' \<Longrightarrow> (\<And>v. r' = Inr v \<Longrightarrow> f v = f' v) \<Longrightarrow> rbind r f = rbind r' f'"
  by (cases r') auto

lemma map_err_simps [simp, result_simps]:
  "map_err g (Inl e) = Inl (g e)"
  "map_err g (Inr v) = Inr v"
  by (simp_all add: map_err_def)

lemma map_err_eq_Inr [result_simps]: "map_err g r = Inr v \<longleftrightarrow> r = Inr v"
  by (cases r) auto

lemma ok_or_simps [simp, result_simps]:
  "ok_or None e = Inl e"
  "ok_or (Some v) e = Inr v"
  by (simp_all add: ok_or_def)

lemma ok_or_eq_Inr [result_simps]: "ok_or x e = Inr v \<longleftrightarrow> x = Some v"
  by (cases x) auto

lemma ok_or_eq_Inl [result_simps]: "ok_or x e = Inl e' \<longleftrightarrow> x = None \<and> e' = e"
  by (cases x) auto

lemma require_simps [simp, result_simps]:
  "require True e = Inr ()"
  "require False e = Inl e"
  by (simp_all add: require_def)

lemma require_eq_Inr [result_simps]: "require b e = Inr u \<longleftrightarrow> b"
  by (cases b) auto

lemma require_eq_Inl [result_simps]: "require b e = Inl e' \<longleftrightarrow> \<not> b \<and> e' = e"
  by (cases b) auto

lemma is_ok_simps [simp]: "is_ok (Inl e) = False" "is_ok (Inr v) = True"
  by (simp_all add: is_ok_def)

section \<open>Lists read and written by index\<close>

text \<open>
  \<open>slice.get(i)\<close> and \<open>vec.get(i)\<close>: the element, or \<^const>\<open>None\<close> past the end.
\<close>

definition nth_opt :: "'a list \<Rightarrow> nat \<Rightarrow> 'a option" where
  "nth_opt xs i = (if i < length xs then Some (xs ! i) else None)"

lemma nth_opt_lt [simp]: "i < length xs \<Longrightarrow> nth_opt xs i = Some (xs ! i)"
  by (simp add: nth_opt_def)

lemma nth_opt_ge [simp]: "length xs \<le> i \<Longrightarrow> nth_opt xs i = None"
  by (simp add: nth_opt_def)

lemma nth_opt_eq_Some: "nth_opt xs i = Some x \<longleftrightarrow> i < length xs \<and> xs ! i = x"
  by (auto simp: nth_opt_def)

lemma nth_opt_eq_None: "nth_opt xs i = None \<longleftrightarrow> length xs \<le> i"
  by (auto simp: nth_opt_def)

lemma nth_opt_update:
  "nth_opt (xs[j := v]) i = (if i = j \<and> j < length xs then Some v else nth_opt xs i)"
  by (auto simp: nth_opt_def nth_list_update)

lemma nth_opt_map [simp]: "nth_opt (map f xs) i = map_option f (nth_opt xs i)"
  by (simp add: nth_opt_def)

text \<open>Number of selected positions below \<open>i\<close>, the index an element has after a filter.\<close>

definition count_below :: "(nat \<Rightarrow> bool) \<Rightarrow> nat \<Rightarrow> nat" where
  "count_below P i = length (filter P [0..<i])"

lemma count_below_0 [simp]: "count_below P 0 = 0"
  by (simp add: count_below_def)

lemma count_below_Suc [simp]:
  "count_below P (Suc i) = count_below P i + (if P i then 1 else 0)"
  by (simp add: count_below_def)

lemma count_below_mono: "i \<le> j \<Longrightarrow> count_below P i \<le> count_below P j"
  by (induction rule: dec_induct) auto

lemma count_below_strict:
  assumes "i < j" "P i" shows "count_below P i < count_below P j"
proof -
  have "count_below P (Suc i) \<le> count_below P j"
    using assms(1) by (intro count_below_mono) simp
  with assms(2) show ?thesis by simp
qed

text \<open>The element that a filter over the indices puts at position \<open>count_below P i\<close>.\<close>

lemma filter_upt_nth:
  assumes "i < n" "P i"
  shows "filter P [0..<n] ! count_below P i = i"
proof -
  have "[0..<n] = [0..<i] @ i # [Suc i..<n]"
    using assms(1) by (metis le0 less_imp_le_nat upt_add_eq_append upt_conv_Cons le_add_diff_inverse)
  then show ?thesis
    using assms(2) by (simp add: count_below_def nth_append)
qed

lemma count_below_lt_length:
  "i < n \<Longrightarrow> P i \<Longrightarrow> count_below P i < length (filter P [0..<n])"
  using count_below_strict [of i n P] by (simp add: count_below_def)

section \<open>Words as numbers\<close>

lemma unat_lt_pow: "unat (x :: 'a::len word) < 2 ^ LENGTH('a)"
  by (rule unsigned_less)

lemma take_bit_word_eq_iff:
  "take_bit n (x :: 'a::len word) = x \<longleftrightarrow> unat x < 2 ^ n"
proof
  assume "take_bit n x = x"
  then have "unat x = take_bit n (unat x)"
    by (metis unsigned_take_bit_eq)
  also have "\<dots> < 2 ^ n" by (rule take_bit_nat_less_exp)
  finally show "unat x < 2 ^ n" .
next
  assume "unat x < 2 ^ n"
  then have "take_bit n (unat x) = unat x"
    by (simp add: take_bit_nat_eq_self_iff)
  then show "take_bit n x = x"
    by (metis unsigned_take_bit_eq word_unat_eq_iff)
qed

lemma unat_add_1_less:
  assumes "v < (t :: 'a::len word)"
  shows "unat (v + 1) = unat v + 1"
proof -
  have "unat v < unat t" using assms by (simp add: word_less_nat_alt)
  moreover have "unat t < 2 ^ LENGTH('a)" by (rule unat_lt_pow)
  ultimately have lt: "unat v + 1 < 2 ^ LENGTH('a)" by linarith
  have "unat (v + 1) = (unat v + unat (1 :: 'a word)) mod 2 ^ LENGTH('a)"
    by (simp add: unat_word_ariths)
  with lt show ?thesis by simp
qed

section \<open>Machine integers as numbers\<close>

text \<open>
  Where a component counts rather than shifts, a \<open>u64\<close> is a natural number and
  the range is written out: \<open>checked_\<close> operations are \<^const>\<open>None\<close> out of range,
  \<open>wrapping_\<close> ones reduce modulo \<open>2^64\<close> and \<open>saturating_\<close> ones stop at the largest value.
\<close>

abbreviation two64 :: nat where "two64 \<equiv> 18446744073709551616"
abbreviation two128 :: nat where "two128 \<equiv> 340282366920938463463374607431768211456"

definition checked_u64 :: "nat \<Rightarrow> nat option" where
  "checked_u64 x = (if x < two64 then Some x else None)"

definition checked_u128 :: "nat \<Rightarrow> nat option" where
  "checked_u128 x = (if x < two128 then Some x else None)"

lemma checked_eq_Some [simp]:
  "checked_u64 x = Some y \<longleftrightarrow> x < two64 \<and> y = x"
  "checked_u128 x = Some y \<longleftrightarrow> x < two128 \<and> y = x"
  by (auto simp: checked_u64_def checked_u128_def)

definition wrapping_add64 :: "nat \<Rightarrow> nat \<Rightarrow> nat" where
  "wrapping_add64 a b = (a + b) mod two64"

definition wrapping_sub64 :: "nat \<Rightarrow> nat \<Rightarrow> nat" where
  "wrapping_sub64 a b = (a + (two64 - b mod two64)) mod two64"

definition div_ceil :: "nat \<Rightarrow> nat \<Rightarrow> nat" where
  "div_ceil a b = a div b + (if a mod b = 0 then 0 else 1)"

definition saturating_add64 :: "nat \<Rightarrow> nat \<Rightarrow> nat" where
  "saturating_add64 a b = min (a + b) (two64 - 1)"

lemma saturating_add64_exact [simp]: "a + b < two64 \<Longrightarrow> saturating_add64 a b = a + b"
  by (simp add: saturating_add64_def)

lemma wrapping_add64_exact [simp]: "a + b < two64 \<Longrightarrow> wrapping_add64 a b = a + b"
  by (simp add: wrapping_add64_def)

lemma wrapping_add64_less [simp]: "wrapping_add64 a b < two64"
  by (simp add: wrapping_add64_def)

lemma wrapping_add64_assoc: "wrapping_add64 (wrapping_add64 a b) c = wrapping_add64 a (b + c)"
  by (simp add: wrapping_add64_def mod_simps ac_simps)

lemma wrapping_sub64_less [simp]: "wrapping_sub64 a b < two64"
  by (simp add: wrapping_sub64_def)

lemma wrapping_sub_add: "wrapping_add64 (wrapping_sub64 a b) b = a mod two64"
proof -
  define q r where "q = b div two64" and "r = b mod two64"
  have b: "b = q * two64 + r" "r < two64"
    by (simp_all add: q_def r_def)
  have "a + (two64 - r) + b = a + (q + 1) * two64"
    unfolding b(1) using b(2) by (simp add: algebra_simps)
  then have "(a + (two64 - b mod two64) + b) mod two64 = a mod two64"
    by (metis mod_mult_self1 r_def)
  then show ?thesis
    by (simp add: wrapping_add64_def wrapping_sub64_def mod_simps)
qed

end
