(* ===== verification/Core_Value.thy ===== *)
theory Core_Value
  imports Rsemu_Prelude
begin

text \<open>
  \<open>core::error\<close> and \<open>core::value\<close>: the crate-wide error type, access widths
  and byte order. The sentence an error carries is a parameter of \<open>error\<close>:
  each component instantiates it with a datatype of its own that has one
  constructor per message. Rendering messages as text is not modelled.
\<close>

section \<open>Errors (\<open>core/error.rs\<close>)\<close>

datatype bus_error = Unassigned | BadAccess | Protected | Retry

datatype 'm error =
    Config 'm 'm
  | UnknownClass 'm
  | Property 'm
  | Bus bus_error
  | State 'm
  | Ir 'm
  | Accel 'm
  | Spin 'm
  | Unimplemented 'm

section \<open>Widths and byte order (\<open>core/value.rs\<close>)\<close>

datatype width = U8 | U16 | U32 | U64

fun width_bytes :: "width \<Rightarrow> nat" where
  "width_bytes U8 = 1"
| "width_bytes U16 = 2"
| "width_bytes U32 = 4"
| "width_bytes U64 = 8"

fun width_bits :: "width \<Rightarrow> nat" where
  "width_bits U8 = 8"
| "width_bits U16 = 16"
| "width_bits U32 = 32"
| "width_bits U64 = 64"

definition width_from_bytes :: "nat \<Rightarrow> width option" where
  "width_from_bytes n =
     (if n = 1 then Some U8 else if n = 2 then Some U16
      else if n = 4 then Some U32 else if n = 8 then Some U64 else None)"

fun width_mask :: "width \<Rightarrow> u64" where
  "width_mask U8 = 0xff"
| "width_mask U16 = 0xffff"
| "width_mask U32 = 0xffffffff"
| "width_mask U64 = 0xffffffffffffffff"

definition width_is_aligned :: "width \<Rightarrow> u64 \<Rightarrow> bool" where
  "width_is_aligned w addr \<longleftrightarrow> unat addr mod width_bytes w = 0"

datatype endian = Little | Big

text \<open>The two loops of \<open>Endian::load\<close>; \<open>i\<close> is the enumeration index.\<close>

fun load_little :: "nat \<Rightarrow> u64 \<Rightarrow> u8 list \<Rightarrow> u64" where
  "load_little i v [] = v"
| "load_little i v (b # bs) = load_little (Suc i) (v OR push_bit (8 * i) (ucast b)) bs"

fun load_big :: "u64 \<Rightarrow> u8 list \<Rightarrow> u64" where
  "load_big v [] = v"
| "load_big v (b # bs) = load_big (push_bit 8 v OR ucast b) bs"

definition endian_load :: "endian \<Rightarrow> u8 list \<Rightarrow> width \<Rightarrow> bus_error + u64" where
  "endian_load e bytes w =
     (let n = width_bytes w in
      if length bytes < n then Inl BadAccess
      else case e of
          Little \<Rightarrow> Inr (load_little 0 0 (take n bytes))
        | Big \<Rightarrow> Inr (load_big 0 (take n bytes)))"

text \<open>
  \<open>Endian::store\<close> overwrites the first \<open>n\<close> bytes of the buffer and keeps the
  rest; the model returns the new buffer.
\<close>

definition store_bytes :: "endian \<Rightarrow> nat \<Rightarrow> u64 \<Rightarrow> u8 list" where
  "store_bytes e n value =
     (case e of
        Little \<Rightarrow> map (\<lambda>i. ucast (drop_bit (8 * i) value)) [0..<n]
      | Big \<Rightarrow> map (\<lambda>i. ucast (drop_bit (8 * (n - 1 - i)) value)) [0..<n])"

definition endian_store :: "endian \<Rightarrow> u8 list \<Rightarrow> width \<Rightarrow> u64 \<Rightarrow> bus_error + u8 list" where
  "endian_store e bytes w value =
     (let n = width_bytes w in
      if length bytes < n then Inl BadAccess
      else Inr (store_bytes e n value @ drop n bytes))"

section \<open>Widths agree with each other\<close>

lemma width_bits_bytes: "width_bits w = 8 * width_bytes w"
  by (cases w) auto

lemma width_bytes_pos [simp]: "0 < width_bytes w"
  by (cases w) auto

lemma width_from_bytes_bytes [simp]: "width_from_bytes (width_bytes w) = Some w"
  by (cases w) (auto simp: width_from_bytes_def)

lemma width_from_bytes_eq_Some: "width_from_bytes n = Some w \<longleftrightarrow> n = width_bytes w"
  by (cases w) (auto simp: width_from_bytes_def)

lemma width_mask_eq_mask: "width_mask w = mask (width_bits w)"
  by (cases w) (simp_all add: mask_numeral mask_Suc_exp numeral_eq_Suc)

lemma and_width_mask: "x AND width_mask w = take_bit (width_bits w) x"
  by (simp add: width_mask_eq_mask take_bit_eq_mask)

section \<open>Byte order round trips\<close>

lemma bit_load_little:
  "bit (load_little i v bs) k \<longleftrightarrow>
     bit v k \<or> (k < 64 \<and> 8 * i \<le> k \<and> (k - 8 * i) div 8 < length bs
                 \<and> bit (bs ! ((k - 8 * i) div 8)) (k mod 8))"
proof (induction bs arbitrary: i v)
  case Nil
  then show ?case by simp
next
  case (Cons b bs)
  have *: "bit (v OR push_bit (8 * i) (ucast b :: u64)) k \<longleftrightarrow>
             bit v k \<or> (k < 64 \<and> 8 * i \<le> k \<and> k - 8 * i < 8 \<and> bit b (k - 8 * i))"
    by (auto simp: bit_simps dest: bit_imp_le_length)
  show ?case
  proof (cases "8 * i \<le> k")
    case False
    then show ?thesis by (simp add: Cons.IH *)
  next
    case True
    define d where "d = k - 8 * i"
    have k: "k = d + 8 * i" using True by (simp add: d_def)
    show ?thesis
    proof (cases "d < 8")
      case True
      then show ?thesis
        unfolding load_little.simps Cons.IH * by (auto simp: k)
    next
      case False
      then obtain d' where "d = d' + 8" by (metis le_add_diff_inverse2 not_less)
      moreover from this have "(d' + 8) div 8 = Suc (d' div 8)" by presburger
      ultimately show ?thesis
        unfolding load_little.simps Cons.IH * by (auto simp: k)
    qed
  qed
qed

lemma bit_store_little:
  assumes "k < 64" "k div 8 < n"
  shows "bit (store_bytes Little n v ! (k div 8)) (k mod 8) = bit v k"
  using assms by (simp add: store_bytes_def bit_simps)

lemma load_little_store:
  assumes "8 * n \<le> 64"
  shows "load_little 0 0 (store_bytes Little n v) = take_bit (8 * n) v"
proof (rule bit_word_eqI)
  fix k assume "k < LENGTH(64)"
  then have k: "k < 64" by simp
  have "length (store_bytes Little n v) = n" by (simp add: store_bytes_def)
  then show "bit (load_little 0 0 (store_bytes Little n v)) k = bit (take_bit (8 * n) v) k"
    using k bit_store_little [of k n v]
    by (auto simp: bit_load_little bit_take_bit_iff div_less_iff_less_mult)
qed

text \<open>Big-endian order is little-endian order on the reversed buffer.\<close>

lemma load_big_snoc: "load_big v (bs @ [b]) = push_bit 8 (load_big v bs) OR ucast b"
  by (induction bs arbitrary: v) auto

lemma load_little_shift:
  "load_little (Suc i) (push_bit 8 v) bs = push_bit 8 (load_little i v bs)"
proof (induction bs arbitrary: i v)
  case (Cons b bs)
  have "push_bit 8 v OR push_bit (8 * Suc i) (ucast b :: u64)
          = push_bit 8 (v OR push_bit (8 * i) (ucast b))"
    by (simp add: push_bit_or add.commute)
  with Cons.IH [of "Suc i" "v OR push_bit (8 * i) (ucast b)"] show ?case
    by (simp only: load_little.simps)
qed simp

lemma load_little_acc: "load_little i (v OR u) bs = v OR load_little i u bs"
  by (induction bs arbitrary: i u) (auto simp: or.assoc)

lemma load_big_rev: "load_big 0 bs = load_little 0 0 (rev bs)"
proof (induction bs rule: rev_induct)
  case (snoc b bs)
  have "load_little (Suc 0) (ucast b) (rev bs)
          = ucast b OR push_bit 8 (load_little 0 0 (rev bs))"
    using load_little_acc [of "Suc 0" "ucast b" 0] load_little_shift [of 0 0] by simp
  then show ?case by (simp add: load_big_snoc snoc or.commute)
qed simp

lemma store_big_rev: "store_bytes Big n v = rev (store_bytes Little n v)"
  by (rule nth_equalityI) (auto simp: store_bytes_def rev_nth)

lemma length_store_bytes [simp]: "length (store_bytes e n v) = n"
  by (cases e) (auto simp: store_bytes_def)

lemma endian_load_store_bytes:
  "8 * n \<le> 64 \<Longrightarrow>
   (case e of Little \<Rightarrow> load_little 0 0 | Big \<Rightarrow> load_big 0) (store_bytes e n v)
     = take_bit (8 * n) v"
  by (cases e) (simp_all add: load_little_store load_big_rev store_big_rev)

lemma store_little_load:
  assumes "8 * length bs \<le> 64"
  shows "store_bytes Little (length bs) (load_little 0 0 bs) = bs"
proof (rule nth_equalityI)
  fix i assume "i < length (store_bytes Little (length bs) (load_little 0 0 bs))"
  then have i: "i < length bs" by simp
  show "store_bytes Little (length bs) (load_little 0 0 bs) ! i = bs ! i"
  proof (rule bit_word_eqI)
    fix k assume "k < LENGTH(8)"
    then have "k < 8" by simp
    then show "bit (store_bytes Little (length bs) (load_little 0 0 bs) ! i) k = bit (bs ! i) k"
      using i assms by (simp add: store_bytes_def bit_simps bit_load_little)
  qed
qed simp

lemma store_bytes_load:
  assumes "8 * length bs \<le> 64"
  shows "store_bytes e (length bs) ((case e of Little \<Rightarrow> load_little 0 0 | Big \<Rightarrow> load_big 0) bs) = bs"
proof (cases e)
  case Little
  with store_little_load [OF assms] show ?thesis by simp
next
  case Big
  from assms store_little_load [of "rev bs"] have
    "store_bytes Little (length bs) (load_little 0 0 (rev bs)) = rev bs" by simp
  with Big show ?thesis by (simp add: store_big_rev load_big_rev)
qed

text \<open>
  For every buffer, byte order and access width: storing a value and loading it back
  returns the value masked to the width, loading a value and storing it back
  leaves the buffer as it was, and a buffer shorter than the access makes both
  fail with the bus error \<open>BadAccess\<close>.
\<close>

theorem endian_roundtrip:
  "rbind (endian_store e bytes w v) (\<lambda>out. endian_load e out w) =
     (if length bytes < width_bytes w then Inl BadAccess else Inr (v AND width_mask w))
   \<and> rbind (endian_load e bytes w) (endian_store e bytes w) =
     (if length bytes < width_bytes w then Inl BadAccess else Inr bytes)"
proof -
  have w: "8 * width_bytes w \<le> 64" by (cases w) auto
  from endian_load_store_bytes [OF w, of e v]
    and store_bytes_load [of "take (width_bytes w) bytes" e] w
  show ?thesis
    by (cases e)
      (auto simp: endian_store_def endian_load_def Let_def and_width_mask width_bits_bytes)
qed

end
