(* ===== verification/State_Codec.thy ===== *)
theory State_Codec
  imports Core_Value
begin

text \<open>
  The byte layer of \<open>core/state.rs\<close>: the \<open>Sink\<close> encoders and the \<open>Source\<close>
  decoders. A \<open>Vec<u8>\<close> sink is the bytes written so far and never fails, so
  the writers are functions from the old buffer to the new one. \<open>SliceSource\<close>
  is a record with the input and a position; a reader returns the value and the
  advanced source, or the error. The host is taken to be a 64-bit one: the
  only place that shows is \<open>usize_max\<close>.

  The locale \<open>codec\<close> is the contract an encoder and a decoder have with each
  other: decoding what was encoded gives the value back and stops right after it,
  and a successful decode consumed exactly the encoding of what it returned.
\<close>

section \<open>Errors of the snapshot reader and writer\<close>

text \<open>One constructor per message of \<open>state.rs\<close>, with what the message names.\<close>

datatype snap_msg =
    Truncated nat nat
  | LengthTooLarge u64
  | InvalidBool u8
  | InvalidUtf8
  | SeqOverflow u64
  | SeqTooLong u64 nat nat
  | DuplicatePath "u8 list" "u8 list"
  | DevicesOutOfOrder "u8 list" "u8 list"
  | RegionsOutOfOrder
  | SetOutOfOrder "u8 list" "u8 list" "u8 list"
  | DuplicateChunk "u8 list" "u8 list" u32
  | EmptyChunkPath
  | NoSuccessor "u8 list" u32
  | MigrationRegistered "u8 list" u32
  | NoDowngrade "u8 list" u32 u32
  | NoMigration "u8 list" u32 u32 u32
  | BadMagic "u8 list"
  | BadFormat u32
  | BadCodec u16
  | BadIntegrity u16
  | ChunksOutOfOrder "u8 list" "u8 list"
  | UnknownTag u8
  | TrailingBytes nat
  | ShapeMismatch nat
  | NoChunk "u8 list"
  | WrongClass "u8 list" "u8 list" "u8 list"
  | UnreadBytes nat

type_synonym 'a snap = "snap_msg error + 'a"

definition state_error :: "snap_msg \<Rightarrow> snap_msg error" where
  "state_error m = State m"

definition truncated :: "nat \<Rightarrow> nat \<Rightarrow> snap_msg error" where
  "truncated need have = state_error (Truncated need have)"

definition usize_max :: nat where
  "usize_max = 2 ^ 64 - 1"

definition wire_len :: "u64 \<Rightarrow> nat snap" where
  "wire_len len =
     (if unat len \<le> usize_max then Inr (unat len) else Inl (state_error (LengthTooLarge len)))"

section \<open>Little-endian integers\<close>

text \<open>\<open>to_le_bytes\<close> and \<open>from_le_bytes\<close> of the integer types, at any width.\<close>

definition to_le_bytes :: "'a::len word \<Rightarrow> u8 list" where
  "to_le_bytes x = map (\<lambda>i. ucast (drop_bit (8 * i) x)) [0..<LENGTH('a) div 8]"

fun from_le_bytes :: "u8 list \<Rightarrow> 'a::len word" where
  "from_le_bytes [] = 0"
| "from_le_bytes (b # bs) = ucast b OR push_bit 8 (from_le_bytes bs)"

lemma length_to_le_bytes [simp]: "length (to_le_bytes (x :: 'a::len word)) = LENGTH('a) div 8"
  by (simp add: to_le_bytes_def)

lemma bit_from_le_bytes:
  "bit (from_le_bytes bs :: 'a::len word) k \<longleftrightarrow>
     k < LENGTH('a) \<and> k div 8 < length bs \<and> bit (bs ! (k div 8)) (k mod 8)"
proof (induction bs arbitrary: k)
  case Nil
  then show ?case by simp
next
  case (Cons b bs)
  show ?case
  proof (cases "k < 8")
    case True
    then show ?thesis by (auto simp: bit_simps)
  next
    case False
    then obtain j where j: "k = j + 8" by (metis le_add_diff_inverse2 not_less)
    moreover from this have "(j + 8) div 8 = Suc (j div 8)" by presburger
    moreover have "\<not> bit b (j + 8)"
      using bit_imp_le_length [of b "j + 8"] by auto
    ultimately show ?thesis
      by (auto simp: bit_simps Cons.IH)
  qed
qed

lemma from_to_le_bytes:
  assumes "8 dvd LENGTH('a)"
  shows "from_le_bytes (to_le_bytes x) = (x :: 'a::len word)"
proof (rule bit_word_eqI)
  fix k assume k: "k < LENGTH('a)"
  with assms have "k div 8 < LENGTH('a) div 8" by (auto elim!: dvdE)
  with k show "bit (from_le_bytes (to_le_bytes x) :: 'a word) k = bit x k"
    by (simp add: bit_from_le_bytes to_le_bytes_def bit_simps)
qed

lemma to_from_le_bytes:
  assumes "length bs = LENGTH('a) div 8" "8 dvd LENGTH('a)"
  shows "to_le_bytes (from_le_bytes bs :: 'a::len word) = bs"
proof (rule nth_equalityI)
  fix i assume "i < length (to_le_bytes (from_le_bytes bs :: 'a word))"
  then have i: "i < length bs" using assms by simp
  show "to_le_bytes (from_le_bytes bs :: 'a word) ! i = bs ! i"
  proof (rule bit_word_eqI)
    fix k assume "k < LENGTH(8)"
    then have k: "k < 8" by simp
    then have "8 * i + k < LENGTH('a)" using i assms by (auto elim!: dvdE)
    then show "bit (to_le_bytes (from_le_bytes bs :: 'a word) ! i) k = bit (bs ! i) k"
      using i k assms by (simp add: to_le_bytes_def bit_simps bit_from_le_bytes)
  qed
qed (use assms in simp)

section \<open>Sink\<close>

definition write_all :: "u8 list \<Rightarrow> u8 list \<Rightarrow> u8 list" where
  "write_all sink bytes = sink @ bytes"

text \<open>The macro \<open>sink_int_methods\<close>, one writer per integer type.\<close>

definition write_int :: "u8 list \<Rightarrow> 'a::len word \<Rightarrow> u8 list" where
  "write_int sink value = write_all sink (to_le_bytes value)"

definition write_u8 :: "u8 list \<Rightarrow> u8 \<Rightarrow> u8 list" where
  "write_u8 = write_int"

definition write_u16 :: "u8 list \<Rightarrow> u16 \<Rightarrow> u8 list" where
  "write_u16 = write_int"

definition write_u32 :: "u8 list \<Rightarrow> u32 \<Rightarrow> u8 list" where
  "write_u32 = write_int"

definition write_u64 :: "u8 list \<Rightarrow> u64 \<Rightarrow> u8 list" where
  "write_u64 = write_int"

definition write_bool :: "u8 list \<Rightarrow> bool \<Rightarrow> u8 list" where
  "write_bool sink value = write_u8 sink (if value then 1 else 0)"

definition write_bytes :: "u8 list \<Rightarrow> u8 list \<Rightarrow> u8 list" where
  "write_bytes sink bytes = write_all (write_u64 sink (word_of_nat (length bytes))) bytes"

text \<open>A Rust string is its UTF-8 bytes.\<close>

definition write_str :: "u8 list \<Rightarrow> u8 list \<Rightarrow> u8 list" where
  "write_str sink value = write_bytes sink value"

definition write_seq_len :: "u8 list \<Rightarrow> u64 \<Rightarrow> u8 list" where
  "write_seq_len sink count = write_u64 sink count"

section \<open>Source\<close>

record source =
  src_data :: "u8 list"
  src_pos :: nat

definition slice_new :: "u8 list \<Rightarrow> source" where
  "slice_new bs = \<lparr>src_data = bs, src_pos = 0\<rparr>"

definition remaining :: "source \<Rightarrow> nat" where
  "remaining src = length (src_data src) - src_pos src"

definition take_bytes :: "source \<Rightarrow> nat \<Rightarrow> (u8 list \<times> source) snap" where
  "take_bytes src len =
     (if src_pos src + len > usize_max then Inl (truncated len (remaining src))
      else if src_pos src + len > length (src_data src) then Inl (truncated len (remaining src))
      else Inr (take len (drop (src_pos src) (src_data src)), src\<lparr>src_pos := src_pos src + len\<rparr>))"

text \<open>
  The macro \<open>source_int_methods\<close>: the reader takes the size of its type and
  re-checks the length it was given.
\<close>

definition read_int :: "source \<Rightarrow> ('a::len word \<times> source) snap" where
  "read_int src =
     (let n = LENGTH('a) div 8 in
      rbind (take_bytes src n) (\<lambda>(bytes, src').
        if length bytes = n then Inr (from_le_bytes bytes, src')
        else Inl (truncated n (length bytes))))"

definition read_u8 :: "source \<Rightarrow> (u8 \<times> source) snap" where
  "read_u8 = read_int"

definition read_u16 :: "source \<Rightarrow> (u16 \<times> source) snap" where
  "read_u16 = read_int"

definition read_u32 :: "source \<Rightarrow> (u32 \<times> source) snap" where
  "read_u32 = read_int"

definition read_u64 :: "source \<Rightarrow> (u64 \<times> source) snap" where
  "read_u64 = read_int"

definition read_bool :: "source \<Rightarrow> (bool \<times> source) snap" where
  "read_bool src =
     rbind (read_u8 src) (\<lambda>(b, src').
       if b = 0 then Inr (False, src')
       else if b = 1 then Inr (True, src')
       else Inl (state_error (InvalidBool b)))"

definition read_bytes :: "source \<Rightarrow> (u8 list \<times> source) snap" where
  "read_bytes src =
     rbind (read_u64 src) (\<lambda>(n, src').
     rbind (wire_len n) (\<lambda>len. take_bytes src' len))"

text \<open>
  \<open>core::str::from_utf8\<close>: the well-formed byte sequences of the UTF-8 encoding,
  with no overlong forms, no surrogates and nothing above \<open>U+10FFFF\<close>.
\<close>

definition utf8_cont :: "u8 \<Rightarrow> bool" where
  "utf8_cont b \<longleftrightarrow> 0x80 \<le> b \<and> b \<le> 0xbf"

function utf8_valid :: "u8 list \<Rightarrow> bool" where
  "utf8_valid bs =
     (case bs of
        [] \<Rightarrow> True
      | a # r \<Rightarrow>
          if a < 0x80 then utf8_valid r
          else if 0xc2 \<le> a \<and> a \<le> 0xdf then
            (case r of b # r' \<Rightarrow> utf8_cont b \<and> utf8_valid r' | _ \<Rightarrow> False)
          else if 0xe0 \<le> a \<and> a \<le> 0xef then
            (case r of b # c # r' \<Rightarrow>
               (if a = 0xe0 then 0xa0 \<le> b \<and> b \<le> 0xbf
                else if a = 0xed then 0x80 \<le> b \<and> b \<le> 0x9f
                else utf8_cont b) \<and> utf8_cont c \<and> utf8_valid r'
             | _ \<Rightarrow> False)
          else if 0xf0 \<le> a \<and> a \<le> 0xf4 then
            (case r of b # c # d # r' \<Rightarrow>
               (if a = 0xf0 then 0x90 \<le> b \<and> b \<le> 0xbf
                else if a = 0xf4 then 0x80 \<le> b \<and> b \<le> 0x8f
                else utf8_cont b) \<and> utf8_cont c \<and> utf8_cont d \<and> utf8_valid r'
             | _ \<Rightarrow> False)
          else False)"
  by pat_completeness auto
termination
  by (relation "measure length") auto

declare utf8_valid.simps [simp del]

definition read_str :: "source \<Rightarrow> (u8 list \<times> source) snap" where
  "read_str src =
     rbind (read_bytes src) (\<lambda>(bytes, src').
       if utf8_valid bytes then Inr (bytes, src') else Inl (state_error InvalidUtf8))"

definition read_seq_len :: "source \<Rightarrow> nat \<Rightarrow> (u64 \<times> source) snap" where
  "read_seq_len src min_element_bytes =
     rbind (read_u64 src) (\<lambda>(count, src').
       let m = max min_element_bytes 1; floor = unat count * m in
       if floor \<ge> 2 ^ 64 then Inl (state_error (SeqOverflow count))
       else if floor > remaining src' then
         Inl (state_error (SeqTooLong count floor (remaining src')))
       else Inr (count, src'))"

section \<open>The contract of an encoder and its decoder\<close>

definition unread :: "source \<Rightarrow> u8 list" where
  "unread src = drop (src_pos src) (src_data src)"

text \<open>
  A source is well formed when its position is inside the input and the input is
  addressable; every reader keeps the input and moves the position forward.
\<close>

definition source_wf :: "source \<Rightarrow> bool" where
  "source_wf src \<longleftrightarrow> src_pos src \<le> length (src_data src) \<and> length (src_data src) \<le> usize_max"

definition advance :: "source \<Rightarrow> nat \<Rightarrow> source" where
  "advance src n = src\<lparr>src_pos := src_pos src + n\<rparr>"

lemma src_data_advance [simp]: "src_data (advance src n) = src_data src"
  by (simp add: advance_def)

lemma unread_advance: "unread src = xs @ ys \<Longrightarrow> unread (advance src (length xs)) = ys"
  unfolding unread_def advance_def
  by (metis append_eq_conv_conj drop_drop add.commute select_convs(1,2)
      source.update_convs(2) source.surjective)

lemma source_wf_advance:
  assumes "source_wf src" "unread src = xs @ ys"
  shows "source_wf (advance src (length xs))"
proof -
  have "length (unread src) = length (src_data src) - src_pos src" by (simp add: unread_def)
  then show ?thesis using assms by (auto simp: source_wf_def advance_def)
qed

lemma remaining_unread: "remaining src = length (unread src)"
  by (simp add: remaining_def unread_def)

text \<open>The bytes a list of elements is encoded as, one after the other.\<close>

definition enc_list :: "('a \<Rightarrow> u8 list) \<Rightarrow> 'a list \<Rightarrow> u8 list" where
  "enc_list enc xs = concat (map enc xs)"

lemma enc_list_simps [simp]:
  "enc_list enc [] = []"
  "enc_list enc (x # xs) = enc x @ enc_list enc xs"
  by (simp_all add: enc_list_def)

lemma length_enc_list_ge:
  "(\<And>x. x \<in> set xs \<Longrightarrow> m \<le> length (enc x)) \<Longrightarrow> m * length xs \<le> length (enc_list enc xs)"
proof (induction xs)
  case (Cons x xs)
  then have "m * length xs \<le> length (enc_list enc xs)" "m \<le> length (enc x)" by auto
  then show ?case by simp
qed simp

text \<open>
  The loops of \<open>decode_from\<close> and \<open>read_string_set\<close>: read \<open>n\<close> elements and refuse
  one whose key is not above the key before it.
\<close>

fun read_ascending ::
  "(source \<Rightarrow> ('a \<times> source) snap) \<Rightarrow> ('a \<Rightarrow> 'k::linorder) \<Rightarrow> ('k \<Rightarrow> 'k \<Rightarrow> snap_msg) \<Rightarrow>
   nat \<Rightarrow> 'k option \<Rightarrow> source \<Rightarrow> ('a list \<times> source) snap" where
  "read_ascending dec key msg 0 prev src = Inr ([], src)"
| "read_ascending dec key msg (Suc n) prev src =
     rbind (dec src) (\<lambda>(x, src').
       if (case prev of None \<Rightarrow> False | Some p \<Rightarrow> key x \<le> p)
       then Inl (state_error (msg (key x) (the prev)))
       else rbind (read_ascending dec key msg n (Some (key x)) src') (\<lambda>(xs, src'').
              Inr (x # xs, src'')))"

text \<open>A counted sequence: the count is bounded by the input before anything is read.\<close>

definition read_counted ::
  "(source \<Rightarrow> ('a \<times> source) snap) \<Rightarrow> ('a \<Rightarrow> 'k::linorder) \<Rightarrow> ('k \<Rightarrow> 'k \<Rightarrow> snap_msg) \<Rightarrow>
   nat \<Rightarrow> source \<Rightarrow> ('a list \<times> source) snap" where
  "read_counted dec key msg min_bytes src =
     rbind (read_seq_len src min_bytes) (\<lambda>(count, s1).
       read_ascending dec key msg (unat count) None s1)"

fun ascending :: "('a \<Rightarrow> 'k::linorder) \<Rightarrow> 'k option \<Rightarrow> 'a list \<Rightarrow> bool" where
  "ascending key prev [] = True"
| "ascending key prev (x # xs) \<longleftrightarrow>
     (case prev of None \<Rightarrow> True | Some p \<Rightarrow> p < key x) \<and> ascending key (Some (key x)) xs"

lemma ascending_sorted:
  "ascending key prev xs \<longleftrightarrow>
     sorted_wrt (<) (map key xs)
     \<and> (case prev of None \<Rightarrow> True | Some p \<Rightarrow> (\<forall>x\<in>set xs. p < key x))"
  by (induction xs arbitrary: prev) (auto split: option.splits)

lemma read_ascending_ascending:
  "read_ascending dec key msg n prev src = Inr (xs, src') \<Longrightarrow> ascending key prev xs"
  by (induction n arbitrary: prev src xs)
    (auto simp: rbind_eq_Inr not_le split: if_splits option.splits)

locale codec =
  fixes enc :: "'a \<Rightarrow> u8 list"
    and dec :: "source \<Rightarrow> ('a \<times> source) snap"
    and valid :: "'a \<Rightarrow> bool"
  assumes dec_enc: "source_wf src \<Longrightarrow> valid v \<Longrightarrow> unread src = enc v @ r \<Longrightarrow>
      dec src = Inr (v, advance src (length (enc v)))"
    and enc_dec: "source_wf src \<Longrightarrow> dec src = Inr (v, src') \<Longrightarrow>
      valid v \<and> (\<exists>r. unread src = enc v @ r) \<and> src' = advance src (length (enc v))"
begin

lemma dec_wf: "source_wf src \<Longrightarrow> dec src = Inr (v, src') \<Longrightarrow> source_wf src'"
  using enc_dec source_wf_advance by blast

lemma dec_unread: "source_wf src \<Longrightarrow> dec src = Inr (v, src') \<Longrightarrow> unread src = enc v @ unread src'"
  using enc_dec unread_advance by blast

text \<open>The encoding is prefix-free: what follows it cannot change what is read.\<close>

lemma enc_prefix_free:
  assumes "valid v" "valid w" "enc v @ r = enc w @ s" "length (enc v @ r) \<le> usize_max"
  shows "v = w \<and> r = s"
proof -
  let ?src = "slice_new (enc v @ r)"
  have wf: "source_wf ?src" using assms(4) by (simp add: source_wf_def slice_new_def)
  have "unread ?src = enc v @ r" "unread ?src = enc w @ s"
    using assms(3) by (simp_all add: unread_def slice_new_def)
  then have "dec ?src = Inr (v, advance ?src (length (enc v)))"
    and "dec ?src = Inr (w, advance ?src (length (enc w)))"
    using dec_enc wf assms(1,2) by blast+
  then show ?thesis using assms(3) by simp
qed

lemma read_ascending_enc:
  assumes "source_wf src" "\<And>x. x \<in> set xs \<Longrightarrow> valid x" "ascending key prev xs"
    and "unread src = enc_list enc xs @ r"
  shows "read_ascending dec key msg (length xs) prev src
           = Inr (xs, advance src (length (enc_list enc xs)))"
  using assms
proof (induction xs arbitrary: prev src)
  case Nil
  then show ?case by (simp add: advance_def)
next
  case (Cons x xs)
  let ?s = "advance src (length (enc x))"
  have r: "unread src = enc x @ (enc_list enc xs @ r)" using Cons.prems(4) by simp
  have d: "dec src = Inr (x, ?s)" using dec_enc Cons.prems(1,2) r by simp
  have "source_wf ?s" "unread ?s = enc_list enc xs @ r"
    using source_wf_advance [OF Cons.prems(1) r] unread_advance [OF r] by auto
  from Cons.IH [OF this(1) _ _ this(2), of "Some (key x)"] Cons.prems(2,3)
  show ?case by (auto simp: d advance_def add.assoc split: option.splits)
qed

lemma read_ascending_dec:
  assumes "source_wf src" "read_ascending dec key msg n prev src = Inr (xs, src')"
  shows "length xs = n \<and> (\<forall>x\<in>set xs. valid x) \<and> ascending key prev xs
     \<and> unread src = enc_list enc xs @ unread src' \<and> source_wf src'
     \<and> src' = advance src (length (enc_list enc xs))"
  using assms
proof (induction n arbitrary: prev src xs)
  case 0
  then show ?case by (auto simp: advance_def)
next
  case (Suc n)
  from Suc.prems(2) obtain x s ys where
    d: "dec src = Inr (x, s)" and
    o: "\<not> (case prev of None \<Rightarrow> False | Some p \<Rightarrow> key x \<le> p)" and
    l: "read_ascending dec key msg n (Some (key x)) s = Inr (ys, src')" and
    xs: "xs = x # ys"
    by (auto simp: rbind_eq_Inr split: if_splits)
  note wf = dec_wf [OF Suc.prems(1) d]
  note ed = enc_dec [OF Suc.prems(1) d]
  from Suc.IH [OF wf l] ed dec_unread [OF Suc.prems(1) d] o show ?case
    by (auto simp: xs advance_def not_le split: option.splits)
qed

end

section \<open>The primitive codecs\<close>

lemma take_bytes_enc:
  assumes "source_wf src" "unread src = xs @ r"
  shows "take_bytes src (length xs) = Inr (xs, advance src (length xs))"
proof -
  have "length (unread src) = length (src_data src) - src_pos src" by (simp add: unread_def)
  with assms have "src_pos src + length xs \<le> length (src_data src)" by (auto simp: source_wf_def)
  moreover have "take (length xs) (drop (src_pos src) (src_data src)) = xs"
    using assms(2) by (simp add: unread_def)
  ultimately show ?thesis
    using assms(1) by (auto simp: take_bytes_def source_wf_def advance_def)
qed

lemma take_bytes_dec:
  assumes "take_bytes src n = Inr (xs, src')"
  shows "length xs = n \<and> unread src = xs @ unread src' \<and> src' = advance src n"
  using assms
  by (auto simp: take_bytes_def unread_def advance_def add.commute simp flip: drop_drop split: if_splits)

lemma read_int_enc:
  assumes "source_wf src" "unread src = to_le_bytes v @ r" "8 dvd LENGTH('a)"
  shows "read_int src = Inr (v :: 'a::len word, advance src (length (to_le_bytes v)))"
  using take_bytes_enc [OF assms(1,2)] assms(3)
  by (simp add: read_int_def Let_def from_to_le_bytes)

lemma read_int_dec:
  assumes "read_int src = Inr (v :: 'a::len word, src')" "8 dvd LENGTH('a)"
  shows "(\<exists>r. unread src = to_le_bytes v @ r) \<and> src' = advance src (length (to_le_bytes v))"
proof -
  from assms(1) obtain bs where t: "take_bytes src (LENGTH('a) div 8) = Inr (bs, src')"
    and v: "v = from_le_bytes bs" and l: "length bs = LENGTH('a) div 8"
    by (auto simp: read_int_def Let_def rbind_eq_Inr split: if_splits)
  from to_from_le_bytes [OF l assms(2)] v have "to_le_bytes v = bs" by simp
  with take_bytes_dec [OF t] l show ?thesis by auto
qed

interpretation u8_codec: codec "to_le_bytes :: u8 \<Rightarrow> _" read_u8 "\<lambda>_. True"
  by unfold_locales (auto simp: read_u8_def read_int_enc dest: read_int_dec)

interpretation u16_codec: codec "to_le_bytes :: u16 \<Rightarrow> _" read_u16 "\<lambda>_. True"
  by unfold_locales (auto simp: read_u16_def read_int_enc dest: read_int_dec)

interpretation u32_codec: codec "to_le_bytes :: u32 \<Rightarrow> _" read_u32 "\<lambda>_. True"
  by unfold_locales (auto simp: read_u32_def read_int_enc dest: read_int_dec)

interpretation u64_codec: codec "to_le_bytes :: u64 \<Rightarrow> _" read_u64 "\<lambda>_. True"
  by unfold_locales (auto simp: read_u64_def read_int_enc dest: read_int_dec)

definition enc_bool :: "bool \<Rightarrow> u8 list" where
  "enc_bool b = to_le_bytes (if b then 1 else 0 :: u8)"

definition enc_bytes :: "u8 list \<Rightarrow> u8 list" where
  "enc_bytes bs = to_le_bytes (word_of_nat (length bs) :: u64) @ bs"

definition valid_bytes :: "u8 list \<Rightarrow> bool" where
  "valid_bytes bs \<longleftrightarrow> length bs < 2 ^ 64"

definition valid_str :: "u8 list \<Rightarrow> bool" where
  "valid_str bs \<longleftrightarrow> valid_bytes bs \<and> utf8_valid bs"

lemma length_enc_bytes [simp]: "length (enc_bytes bs) = 8 + length bs"
  by (simp add: enc_bytes_def)

lemma wire_len_ok [simp]: "wire_len n = Inr (unat n)"
proof -
  have "unat n < 2 ^ 64" using unat_lt_pow [of n] by simp
  then show ?thesis by (simp add: wire_len_def usize_max_def)
qed

lemma unat_len_u64: "valid_bytes bs \<Longrightarrow> unat (word_of_nat (length bs) :: u64) = length bs"
  by (simp add: valid_bytes_def unsigned_of_nat take_bit_nat_eq_self)

text \<open>What each writer appends; the readers below are the inverses.\<close>

lemma write_enc [codec_simps]:
  "write_u8 sink a = sink @ to_le_bytes a"
  "write_u16 sink b = sink @ to_le_bytes b"
  "write_u32 sink c = sink @ to_le_bytes c"
  "write_u64 sink d = sink @ to_le_bytes d"
  "write_bool sink x = sink @ enc_bool x"
  "write_bytes sink bs = sink @ enc_bytes bs"
  "write_str sink bs = sink @ enc_bytes bs"
  "write_seq_len sink d = sink @ to_le_bytes d"
  "write_all sink bs = sink @ bs"
  by (simp_all add: write_u8_def write_u16_def write_u32_def write_u64_def write_int_def
      write_bool_def write_bytes_def write_str_def write_seq_len_def write_all_def
      enc_bool_def enc_bytes_def)

interpretation bool_codec: codec enc_bool read_bool "\<lambda>_. True"
proof unfold_locales
  fix src r and v :: bool
  assume "source_wf src" "unread src = enc_bool v @ r"
  then show "read_bool src = Inr (v, advance src (length (enc_bool v)))"
    using u8_codec.dec_enc [of src "if v then 1 else 0" r]
    by (simp add: read_bool_def enc_bool_def)
next
  fix src src' and v :: bool
  assume wf: "source_wf src" and d: "read_bool src = Inr (v, src')"
  then obtain b where "read_u8 src = Inr (b, src')" "b = (if v then 1 else 0)"
    by (auto simp: read_bool_def rbind_eq_Inr split: if_splits)
  with u8_codec.enc_dec [OF wf] show
    "True \<and> (\<exists>r. unread src = enc_bool v @ r) \<and> src' = advance src (length (enc_bool v))"
    by (simp add: enc_bool_def)
qed

lemma advance_advance [simp]: "advance (advance src m) n = advance src (m + n)"
  by (simp add: advance_def add.assoc)

lemma read_bytes_enc:
  assumes wf: "source_wf src" and v: "valid_bytes bs" and r: "unread src = enc_bytes bs @ r"
  shows "read_bytes src = Inr (bs, advance src (length (enc_bytes bs)))"
proof -
  let ?n = "word_of_nat (length bs) :: u64"
  from r have r1: "unread src = to_le_bytes ?n @ (bs @ r)" by (simp add: enc_bytes_def)
  note d1 = u64_codec.dec_enc [OF wf TrueI r1]
  note wf1 = source_wf_advance [OF wf r1] and r2 = unread_advance [OF r1]
  from take_bytes_enc [OF wf1 r2] d1 unat_len_u64 [OF v] show ?thesis
    by (simp add: read_bytes_def)
qed

lemma read_bytes_dec:
  assumes wf: "source_wf src" and d: "read_bytes src = Inr (bs, src')"
  shows "valid_bytes bs \<and> (\<exists>r. unread src = enc_bytes bs @ r)
     \<and> src' = advance src (length (enc_bytes bs))"
proof -
  from d obtain n s where n: "read_u64 src = Inr (n, s)"
    and t: "take_bytes s (unat n) = Inr (bs, src')"
    by (auto simp: read_bytes_def rbind_eq_Inr)
  from take_bytes_dec [OF t] have l: "length bs = unat n" by simp
  then have "valid_bytes bs" and w: "word_of_nat (length bs) = n"
    using unat_lt_pow [of n] by (simp_all add: valid_bytes_def)
  then show ?thesis
    using u64_codec.dec_unread [OF wf n] u64_codec.enc_dec [OF wf n] take_bytes_dec [OF t] l
    by (auto simp: enc_bytes_def)
qed

interpretation bytes_codec: codec enc_bytes read_bytes valid_bytes
  using read_bytes_enc read_bytes_dec by unfold_locales blast+

interpretation str_codec: codec enc_bytes read_str valid_str
proof unfold_locales
  fix src v r
  assume "source_wf src" "valid_str v" "unread src = enc_bytes v @ r"
  then show "read_str src = Inr (v, advance src (length (enc_bytes v)))"
    using bytes_codec.dec_enc [of src v r] by (simp add: read_str_def valid_str_def)
next
  fix src v src'
  assume wf: "source_wf src" and d: "read_str src = Inr (v, src')"
  then have "read_bytes src = Inr (v, src')" "utf8_valid v"
    by (auto simp: read_str_def rbind_eq_Inr split: if_splits)
  with bytes_codec.enc_dec [OF wf] show
    "valid_str v \<and> (\<exists>r. unread src = enc_bytes v @ r) \<and> src' = advance src (length (enc_bytes v))"
    by (simp add: valid_str_def)
qed

text \<open>
  A count is accepted when the elements could fit in the input; the encodings
  the writer produces always do.
\<close>

lemma read_seq_len_enc:
  assumes wf: "source_wf src" and r: "unread src = to_le_bytes n @ r"
    and fit: "unat n * max m 1 \<le> length r"
  shows "read_seq_len src m = Inr (n, advance src 8)"
proof -
  note d = u64_codec.dec_enc [OF wf TrueI r]
  note r' = unread_advance [OF r]
  have "length r \<le> length (src_data src)"
    using r by (metis append_eq_append_conv_if length_append le_add2 length_drop unread_def diff_le_self le_trans)
  then have "unat n * max m 1 < 2 ^ 64"
    using fit wf by (simp add: source_wf_def usize_max_def)
  then show ?thesis
    using d r' fit by (simp add: read_seq_len_def remaining_unread Let_def)
qed

lemma read_seq_len_dec:
  assumes "read_seq_len src m = Inr (n, src')"
  shows "read_u64 src = Inr (n, src')"
  using assms by (auto simp: read_seq_len_def rbind_eq_Inr Let_def split: if_splits)

section \<open>Combining codecs\<close>

text \<open>Reading one value after another, and rebuilding a structure from its parts.\<close>

definition read_pair ::
  "(source \<Rightarrow> ('a \<times> source) snap) \<Rightarrow> (source \<Rightarrow> ('b \<times> source) snap) \<Rightarrow> source \<Rightarrow> (('a \<times> 'b) \<times> source) snap" where
  "read_pair d1 d2 src =
     rbind (d1 src) (\<lambda>(a, s1). rbind (d2 s1) (\<lambda>(b, s2). Inr ((a, b), s2)))"

definition enc_pair :: "('a \<Rightarrow> u8 list) \<Rightarrow> ('b \<Rightarrow> u8 list) \<Rightarrow> 'a \<times> 'b \<Rightarrow> u8 list" where
  "enc_pair e1 e2 ab = e1 (fst ab) @ e2 (snd ab)"

definition read_map :: "('a \<Rightarrow> 'b) \<Rightarrow> (source \<Rightarrow> ('a \<times> source) snap) \<Rightarrow> source \<Rightarrow> ('b \<times> source) snap" where
  "read_map f d src = rbind (d src) (\<lambda>(a, s). Inr (f a, s))"

lemma codec_pair:
  assumes "codec e1 d1 v1" "codec e2 d2 v2"
  shows "codec (enc_pair e1 e2) (read_pair d1 d2) (\<lambda>ab. v1 (fst ab) \<and> v2 (snd ab))"
proof
  fix src ab r
  assume wf: "source_wf src" and v: "v1 (fst ab) \<and> v2 (snd ab)"
    and u: "unread src = enc_pair e1 e2 ab @ r"
  from u have u1: "unread src = e1 (fst ab) @ (e2 (snd ab) @ r)" by (simp add: enc_pair_def)
  note s1 = source_wf_advance [OF wf u1] and u2 = unread_advance [OF u1]
  from codec.dec_enc [OF assms(1) wf _ u1] codec.dec_enc [OF assms(2) s1 _ u2] v
  show "read_pair d1 d2 src = Inr (ab, advance src (length (enc_pair e1 e2 ab)))"
    by (simp add: read_pair_def enc_pair_def)
next
  fix src ab src'
  assume wf: "source_wf src" and d: "read_pair d1 d2 src = Inr (ab, src')"
  then obtain s1 where d1: "d1 src = Inr (fst ab, s1)" and d2: "d2 s1 = Inr (snd ab, src')"
    by (auto simp: read_pair_def rbind_eq_Inr)
  note wf1 = codec.dec_wf [OF assms(1) wf d1]
  from codec.enc_dec [OF assms(1) wf d1] codec.enc_dec [OF assms(2) wf1 d2]
    codec.dec_unread [OF assms(1) wf d1] codec.dec_unread [OF assms(2) wf1 d2]
  show "(v1 (fst ab) \<and> v2 (snd ab)) \<and> (\<exists>r. unread src = enc_pair e1 e2 ab @ r)
          \<and> src' = advance src (length (enc_pair e1 e2 ab))"
    by (auto simp: enc_pair_def)
qed

lemma codec_map:
  assumes "codec e d v" "\<And>a. g (f a) = a" "\<And>b. f (g b) = b"
  shows "codec (\<lambda>b. e (g b)) (read_map f d) (\<lambda>b. v (g b))"
proof
  fix src b r
  assume "source_wf src" "v (g b)" "unread src = e (g b) @ r"
  from codec.dec_enc [OF assms(1) this]
  show "read_map f d src = Inr (b, advance src (length (e (g b))))"
    by (simp add: read_map_def assms(3))
next
  fix src b src'
  assume wf: "source_wf src" and "read_map f d src = Inr (b, src')"
  then obtain a where a: "d src = Inr (a, src')" "b = f a"
    by (auto simp: read_map_def rbind_eq_Inr)
  from codec.enc_dec [OF assms(1) wf a(1)]
  show "v (g b) \<and> (\<exists>r. unread src = e (g b) @ r) \<and> src' = advance src (length (e (g b)))"
    by (simp add: a(2) assms(2))
qed

definition enc_counted :: "('a \<Rightarrow> u8 list) \<Rightarrow> 'a list \<Rightarrow> u8 list" where
  "enc_counted enc xs = to_le_bytes (word_of_nat (length xs) :: u64) @ enc_list enc xs"

definition valid_counted :: "('a \<Rightarrow> bool) \<Rightarrow> ('a \<Rightarrow> 'k::linorder) \<Rightarrow> 'a list \<Rightarrow> bool" where
  "valid_counted valid key xs \<longleftrightarrow>
     length xs < 2 ^ 64 \<and> ascending key None xs \<and> (\<forall>x\<in>set xs. valid x)"

context codec
begin

lemma codec_counted:
  assumes m: "\<And>x. valid x \<Longrightarrow> max m 1 \<le> length (enc x)"
  shows "codec (enc_counted enc) (read_counted dec key msg m) (valid_counted valid key)"
proof
  fix src xs r
  assume wf: "source_wf src" and v: "valid_counted valid key xs"
    and u: "unread src = enc_counted enc xs @ r"
  let ?n = "word_of_nat (length xs) :: u64"
  from u have u1: "unread src = to_le_bytes ?n @ (enc_list enc xs @ r)"
    by (simp add: enc_counted_def)
  note wf1 = source_wf_advance [OF wf u1] and u2 = unread_advance [OF u1]
  from v have n: "unat ?n = length xs"
    by (simp add: valid_counted_def unsigned_of_nat take_bit_nat_eq_self)
  have "max m 1 * length xs \<le> length (enc_list enc xs)"
    using v m by (intro length_enc_list_ge) (auto simp: valid_counted_def)
  then have "unat ?n * max m 1 \<le> length (enc_list enc xs @ r)" by (simp add: n mult.commute)
  note c = read_seq_len_enc [OF wf u1 this]
  have "read_ascending dec key msg (length xs) None (advance src 8)
          = Inr (xs, advance (advance src 8) (length (enc_list enc xs)))"
    using v wf1 u2 by (intro read_ascending_enc) (auto simp: valid_counted_def)
  then show "read_counted dec key msg m src = Inr (xs, advance src (length (enc_counted enc xs)))"
    by (simp add: read_counted_def c n enc_counted_def)
next
  fix src xs src'
  assume wf: "source_wf src" and "read_counted dec key msg m src = Inr (xs, src')"
  then obtain c s1 where c: "read_u64 src = Inr (c, s1)"
    and a: "read_ascending dec key msg (unat c) None s1 = Inr (xs, src')"
    by (auto simp: read_counted_def rbind_eq_Inr dest!: read_seq_len_dec)
  note wf1 = u64_codec.dec_wf [OF wf c]
  have "length xs < 2 ^ 64" and w: "word_of_nat (length xs) = c"
    using read_ascending_dec [OF wf1 a] unat_lt_pow [of c] by auto
  then show "valid_counted valid key xs \<and> (\<exists>r. unread src = enc_counted enc xs @ r)
          \<and> src' = advance src (length (enc_counted enc xs))"
    using read_ascending_dec [OF wf1 a] u64_codec.enc_dec [OF wf c] u64_codec.dec_unread [OF wf c]
    by (auto simp: enc_counted_def valid_counted_def)
qed

end

end
