(* ===== verification/Ordered_Map.thy ===== *)
theory Ordered_Map
  imports Rsemu_Prelude "HOL-Library.List_Lexorder"
begin

text \<open>
  \<open>BTreeMap\<close> and \<open>BTreeSet\<close> of the standard library, as far as the crate uses
  them: iteration is in ascending key order, so a map is the strictly ascending
  list of its entries. The locale \<open>ordered_map\<close> is what the snapshot code
  relies on: lookups after inserts, and an iteration order that depends on the
  contents alone.
\<close>

section \<open>Maps\<close>

type_synonym ('k, 'v) bmap = "('k \<times> 'v) list"

fun bmap_insert :: "'k::linorder \<Rightarrow> 'v \<Rightarrow> ('k, 'v) bmap \<Rightarrow> ('k, 'v) bmap" where
  "bmap_insert k v [] = [(k, v)]"
| "bmap_insert k v ((k', v') # m) =
     (if k < k' then (k, v) # (k', v') # m
      else if k = k' then (k, v) # m
      else (k', v') # bmap_insert k v m)"

definition bmap_get :: "('k, 'v) bmap \<Rightarrow> 'k \<Rightarrow> 'v option" where
  "bmap_get m k = map_of m k"

definition bmap_wf :: "('k::linorder, 'v) bmap \<Rightarrow> bool" where
  "bmap_wf m \<longleftrightarrow> sorted_wrt (<) (map fst m)"

definition bmap_of :: "('k::linorder \<times> 'v) list \<Rightarrow> ('k, 'v) bmap" where
  "bmap_of xs = foldl (\<lambda>m (k, v). bmap_insert k v m) [] xs"

lemma bmap_wf_Nil [simp]: "bmap_wf []"
  by (simp add: bmap_wf_def)

lemma bmap_wf_Cons [simp]:
  "bmap_wf ((k, v) # m) \<longleftrightarrow> (\<forall>(k', v') \<in> set m. k < k') \<and> bmap_wf m"
  by (auto simp: bmap_wf_def)

lemma set_bmap_insert:
  "set (bmap_insert k v m) \<subseteq> insert (k, v) (set m)"
  by (induction m rule: bmap_insert.induct) auto

lemma bmap_wf_insert: "bmap_wf m \<Longrightarrow> bmap_wf (bmap_insert k v m)"
proof (induction k v m rule: bmap_insert.induct)
  case (2 k v k' v' m)
  have "set (bmap_insert k v m) \<subseteq> insert (k, v) (set m)" by (rule set_bmap_insert)
  with 2 show ?case by fastforce
qed simp

lemma map_of_bmap_insert: "bmap_wf m \<Longrightarrow> map_of (bmap_insert k v m) = (map_of m)(k \<mapsto> v)"
  by (induction k v m rule: bmap_insert.induct) (auto simp: fun_eq_iff)

text \<open>A strictly ascending list of entries is determined by the map it stands for.\<close>

lemma bmap_wf_unique:
  assumes "bmap_wf m" "bmap_wf m'" "map_of m = map_of m'"
  shows "m = m'"
proof -
  have d: "distinct (map fst m)" "distinct (map fst m')"
    using assms(1,2) by (auto simp: bmap_wf_def strict_sorted_iff)
  have "set m = set m'"
    using d assms(3) by (metis map_of_inject_set map_of_eq_Some_iff subset_antisym subrelI)
  then have "map fst m = map fst m'"
    using assms(1,2) by (intro strict_sorted_equal) (auto simp: bmap_wf_def)
  moreover have "map snd n = map (\<lambda>k. the (map_of n k)) (map fst n)"
    if "distinct (map fst n)" for n :: "('a \<times> 'b) list"
    using that by (auto simp: map_of_is_SomeI)
  ultimately have "map snd m = map snd m'"
    using d assms(3) by metis
  with \<open>map fst m = map fst m'\<close> show ?thesis
    by (metis zip_map_fst_snd)
qed

lemma bmap_insert_last:
  "(\<And>k' v'. (k', v') \<in> set m \<Longrightarrow> k' < k) \<Longrightarrow> bmap_insert k v m = m @ [(k, v)]"
  by (induction m) fastforce+

lemma bmap_of_snoc: "bmap_of (xs @ [(k, v)]) = bmap_insert k v (bmap_of xs)"
  by (simp add: bmap_of_def)

text \<open>Inserting entries that are already ascending appends them.\<close>

lemma bmap_of_wf [simp]: "bmap_wf xs \<Longrightarrow> bmap_of xs = xs"
proof (induction xs rule: rev_induct)
  case (snoc x xs)
  obtain k v where x: "x = (k, v)" by (cases x)
  have "bmap_wf xs" and lt: "(k', v') \<in> set xs \<Longrightarrow> k' < k" for k' v'
    using snoc.prems by (auto simp: bmap_wf_def sorted_wrt_append x)
  with snoc.IH show ?case
    by (simp add: x bmap_of_snoc bmap_insert_last)
qed (simp add: bmap_of_def)

lemma bmap_wf_bmap_of: "bmap_wf (bmap_of xs)"
proof (induction xs rule: rev_induct)
  case (snoc x xs)
  then show ?case by (cases x) (simp add: bmap_of_snoc bmap_wf_insert)
qed (simp add: bmap_of_def)

section \<open>Sets\<close>

fun bset_insert :: "'k::linorder \<Rightarrow> 'k list \<Rightarrow> 'k list" where
  "bset_insert k [] = [k]"
| "bset_insert k (k' # s) =
     (if k < k' then k # k' # s else if k = k' then k' # s else k' # bset_insert k s)"

definition bset_wf :: "'k::linorder list \<Rightarrow> bool" where
  "bset_wf s \<longleftrightarrow> sorted_wrt (<) s"

definition bset_difference :: "'k list \<Rightarrow> 'k list \<Rightarrow> 'k list" where
  "bset_difference s t = filter (\<lambda>x. x \<notin> set t) s"

definition bset_of :: "'k::linorder list \<Rightarrow> 'k list" where
  "bset_of xs = foldl (\<lambda>s k. bset_insert k s) [] xs"

lemma set_bset_insert [simp]: "set (bset_insert k s) = insert k (set s)"
  by (induction s) auto

lemma bset_wf_insert: "bset_wf s \<Longrightarrow> bset_wf (bset_insert k s)"
  by (induction s) (auto simp: bset_wf_def)

lemma bset_wf_unique: "bset_wf s \<Longrightarrow> bset_wf t \<Longrightarrow> set s = set t \<Longrightarrow> s = t"
  by (simp add: bset_wf_def strict_sorted_equal)

lemma bset_insert_last: "(\<And>k'. k' \<in> set s \<Longrightarrow> k' < k) \<Longrightarrow> bset_insert k s = s @ [k]"
  by (induction s) fastforce+

lemma bset_of_wf [simp]: "bset_wf s \<Longrightarrow> bset_of s = s"
  by (induction s rule: rev_induct)
    (auto simp: bset_of_def bset_wf_def sorted_wrt_append bset_insert_last)

lemma bset_wf_bset_of: "bset_wf (bset_of xs)"
  by (induction xs rule: rev_induct) (simp_all add: bset_of_def bset_wf_insert, simp add: bset_wf_def)

lemma bset_difference_empty:
  "bset_difference s t = [] \<longleftrightarrow> set s \<subseteq> set t"
  by (auto simp: bset_difference_def filter_empty_conv)

section \<open>The interface\<close>

locale ordered_map =
  fixes empty :: 'm
    and insert :: "'k::linorder \<Rightarrow> 'v \<Rightarrow> 'm \<Rightarrow> 'm"
    and get :: "'m \<Rightarrow> 'k \<Rightarrow> 'v option"
    and entries :: "'m \<Rightarrow> ('k \<times> 'v) list"
    and invar :: "'m \<Rightarrow> bool"
  assumes invar_empty: "invar empty"
    and invar_insert: "invar m \<Longrightarrow> invar (insert k v m)"
    and get_empty: "get empty = Map.empty"
    and get_insert: "invar m \<Longrightarrow> get (insert k v m) = (get m)(k \<mapsto> v)"
    and entries_sorted: "invar m \<Longrightarrow> bmap_wf (entries m)"
    and entries_get: "invar m \<Longrightarrow> map_of (entries m) = get m"
begin

text \<open>Two maps with the same contents iterate the same way, however they were built.\<close>

lemma entries_unique:
  assumes "invar m" "invar m'" "get m = get m'"
  shows "entries m = entries m'"
  using assms by (intro bmap_wf_unique) (simp_all add: entries_sorted entries_get)

lemma insert_commute:
  assumes "invar m" "k \<noteq> k'"
  shows "entries (insert k v (insert k' v' m)) = entries (insert k' v' (insert k v m))"
  using assms by (intro entries_unique) (simp_all add: invar_insert get_insert fun_upd_twist)

end

interpretation bmap: ordered_map "[]" bmap_insert bmap_get "\<lambda>m. m" bmap_wf
  by unfold_locales
    (auto simp: bmap_get_def [abs_def] map_of_bmap_insert bmap_wf_insert)

end
