(* ===== verification/State_Shape.thy ===== *)
theory State_Shape
  imports State_Codec Ordered_Map "HOL-Library.Product_Lexorder"
begin

text \<open>
  The structural fingerprint of a machine, \<open>MachineShape\<close> of \<open>core/state.rs\<close>:
  its construction, its canonical encoding and strict decoding, and the diff
  between the shape a snapshot carries and the machine it is loaded into.
\<close>

section \<open>Regions, ordered as the derived \<open>Ord\<close> orders them\<close>

datatype region_shape =
  RegionShape (r_space: "u8 list") (r_base: u64) (r_size: u64) (r_name: "u8 list")

definition region_key :: "region_shape \<Rightarrow> u8 list \<times> u64 \<times> u64 \<times> u8 list" where
  "region_key r = (r_space r, r_base r, r_size r, r_name r)"

lemma region_key_inj: "region_key r = region_key s \<longleftrightarrow> r = s"
  by (cases r; cases s) (simp add: region_key_def)

instantiation region_shape :: linorder
begin

definition less_eq_region_shape :: "region_shape \<Rightarrow> region_shape \<Rightarrow> bool" where
  "less_eq_region_shape r s \<longleftrightarrow> region_key r \<le> region_key s"

definition less_region_shape :: "region_shape \<Rightarrow> region_shape \<Rightarrow> bool" where
  "less_region_shape r s \<longleftrightarrow> region_key r < region_key s"

instance
  by standard
    (auto simp: less_eq_region_shape_def less_region_shape_def region_key_inj
        simp flip: region_key_inj)

end

section \<open>Shapes\<close>

record machine_shape =
  devices :: "(u8 list, u8 list) bmap"
  regions :: "region_shape list"
  features :: "u8 list list"
  arches :: "u8 list list"

definition shape_new :: machine_shape where
  "shape_new = \<lparr>devices = [], regions = [], features = [], arches = []\<rparr>"

definition add_device :: "machine_shape \<Rightarrow> u8 list \<Rightarrow> u8 list \<Rightarrow> machine_shape snap" where
  "add_device s path class =
     (case bmap_get (devices s) path of
        Some existing \<Rightarrow> Inl (state_error (DuplicatePath path existing))
      | None \<Rightarrow> Inr (s\<lparr>devices := bmap_insert path class (devices s)\<rparr>))"

definition add_region :: "machine_shape \<Rightarrow> u8 list \<Rightarrow> u8 list \<Rightarrow> u64 \<Rightarrow> u64 \<Rightarrow> machine_shape" where
  "add_region s space name base sz =
     s\<lparr>regions := bset_insert (RegionShape space base sz name) (regions s)\<rparr>"

definition add_feature :: "machine_shape \<Rightarrow> u8 list \<Rightarrow> machine_shape" where
  "add_feature s f = s\<lparr>features := bset_insert f (features s)\<rparr>"

definition add_arch :: "machine_shape \<Rightarrow> u8 list \<Rightarrow> machine_shape" where
  "add_arch s a = s\<lparr>arches := bset_insert a (arches s)\<rparr>"

definition device_class :: "machine_shape \<Rightarrow> u8 list \<Rightarrow> u8 list option" where
  "device_class s path = bmap_get (devices s) path"

definition shape_is_empty :: "machine_shape \<Rightarrow> bool" where
  "shape_is_empty s \<longleftrightarrow> devices s = [] \<and> regions s = [] \<and> features s = [] \<and> arches s = []"

definition shape_wf :: "machine_shape \<Rightarrow> bool" where
  "shape_wf s \<longleftrightarrow> bmap_wf (devices s) \<and> bset_wf (regions s)
     \<and> bset_wf (features s) \<and> bset_wf (arches s)"

subsection \<open>Encoding\<close>

definition write_string_set :: "u8 list \<Rightarrow> u8 list list \<Rightarrow> u8 list" where
  "write_string_set sink s =
     foldl write_str (write_seq_len sink (word_of_nat (length s))) s"

definition write_device :: "u8 list \<Rightarrow> u8 list \<times> u8 list \<Rightarrow> u8 list" where
  "write_device sink d = write_str (write_str sink (fst d)) (snd d)"

definition write_region :: "u8 list \<Rightarrow> region_shape \<Rightarrow> u8 list" where
  "write_region sink r =
     write_str (write_u64 (write_u64 (write_str sink (r_space r)) (r_base r)) (r_size r)) (r_name r)"

definition encode_into :: "machine_shape \<Rightarrow> u8 list \<Rightarrow> u8 list" where
  "encode_into s sink =
     (let s1 = foldl write_device (write_seq_len sink (word_of_nat (length (devices s)))) (devices s);
          s2 = foldl write_region (write_seq_len s1 (word_of_nat (length (regions s)))) (regions s)
      in write_string_set (write_string_set s2 (features s)) (arches s))"

subsection \<open>Decoding\<close>

definition read_device :: "source \<Rightarrow> ((u8 list \<times> u8 list) \<times> source) snap" where
  "read_device src =
     rbind (read_str src) (\<lambda>(path, s1).
     rbind (read_str s1) (\<lambda>(class, s2). Inr ((path, class), s2)))"

definition read_region :: "source \<Rightarrow> (region_shape \<times> source) snap" where
  "read_region src =
     rbind (read_str src) (\<lambda>(space, s1).
     rbind (read_u64 s1) (\<lambda>(base, s2).
     rbind (read_u64 s2) (\<lambda>(sz, s3).
     rbind (read_str s3) (\<lambda>(name, s4). Inr (RegionShape space base sz name, s4)))))"

definition read_string_set :: "source \<Rightarrow> u8 list \<Rightarrow> (u8 list list \<times> source) snap" where
  "read_string_set src what =
     rbind (read_counted read_str (\<lambda>x. x) (SetOutOfOrder what) 8 src) (\<lambda>(items, s1).
       Inr (bset_of items, s1))"

definition feature_word :: "u8 list" where
  "feature_word = [0x66, 0x65, 0x61, 0x74, 0x75, 0x72, 0x65]"

definition arch_word :: "u8 list" where
  "arch_word = [0x61, 0x72, 0x63, 0x68]"

definition decode_from :: "source \<Rightarrow> (machine_shape \<times> source) snap" where
  "decode_from src =
     rbind (read_counted read_device fst DevicesOutOfOrder 16 src) (\<lambda>(ds, s1).
     rbind (read_counted read_region (\<lambda>r. r) (\<lambda>_ _. RegionsOutOfOrder) 32 s1) (\<lambda>(rs, s2).
     rbind (read_string_set s2 feature_word) (\<lambda>(fs, s3).
     rbind (read_string_set s3 arch_word) (\<lambda>(as, s4).
       Inr (\<lparr>devices = bmap_of ds, regions = bset_of rs, features = fs, arches = as\<rparr>, s4)))))"

subsection \<open>Diff\<close>

datatype shape_difference =
    DeviceMissing "u8 list" "u8 list"
  | DeviceUnexpected "u8 list" "u8 list"
  | DeviceClassChanged "u8 list" "u8 list" "u8 list"
  | RegionMissing region_shape
  | RegionUnexpected region_shape
  | RegionMoved region_shape region_shape
  | FeatureMissing "u8 list"
  | FeatureUnexpected "u8 list"
  | ArchMissing "u8 list"
  | ArchUnexpected "u8 list"

definition diff_device :: "machine_shape \<Rightarrow> u8 list \<times> u8 list \<Rightarrow> shape_difference list" where
  "diff_device machine pc =
     (case bmap_get (devices machine) (fst pc) of
        None \<Rightarrow> [DeviceMissing (fst pc) (snd pc)]
      | Some other \<Rightarrow> if other \<noteq> snd pc then [DeviceClassChanged (fst pc) (snd pc) other] else [])"

definition diff_device_back :: "machine_shape \<Rightarrow> u8 list \<times> u8 list \<Rightarrow> shape_difference list" where
  "diff_device_back snapshot pc =
     (if bmap_get (devices snapshot) (fst pc) = None then [DeviceUnexpected (fst pc) (snd pc)] else [])"

text \<open>
  Regions that moved are paired by space and name: the first one of the machine's
  that is not taken yet.
\<close>

definition find_mate :: "region_shape list \<Rightarrow> bool list \<Rightarrow> region_shape \<Rightarrow> nat option" where
  "find_mate only_machine paired snap =
     find (\<lambda>i. \<not> paired ! i \<and> r_space (only_machine ! i) = r_space snap
                 \<and> r_name (only_machine ! i) = r_name snap)
       [0..<length only_machine]"

fun diff_regions ::
  "region_shape list \<Rightarrow> bool list \<Rightarrow> region_shape list \<Rightarrow> shape_difference list \<times> bool list" where
  "diff_regions only_machine paired [] = ([], paired)"
| "diff_regions only_machine paired (snap # rest) =
     (case find_mate only_machine paired snap of
        Some i \<Rightarrow>
          let (ds, p) = diff_regions only_machine (paired[i := True]) rest
          in (RegionMoved snap (only_machine ! i) # ds, p)
      | None \<Rightarrow>
          let (ds, p) = diff_regions only_machine paired rest
          in (RegionMissing snap # ds, p))"

definition shape_diff :: "machine_shape \<Rightarrow> machine_shape \<Rightarrow> shape_difference list" where
  "shape_diff snapshot machine =
     (let only_snapshot = bset_difference (regions snapshot) (regions machine);
          only_machine = bset_difference (regions machine) (regions snapshot);
          (moved, paired) = diff_regions only_machine (replicate (length only_machine) False) only_snapshot
      in concat (map (diff_device machine) (devices snapshot))
         @ concat (map (diff_device_back snapshot) (devices machine))
         @ moved
         @ map (\<lambda>i. RegionUnexpected (only_machine ! i))
             (filter (\<lambda>i. \<not> paired ! i) [0..<length only_machine])
         @ map FeatureMissing (bset_difference (features snapshot) (features machine))
         @ map FeatureUnexpected (bset_difference (features machine) (features snapshot))
         @ map ArchMissing (bset_difference (arches snapshot) (arches machine))
         @ map ArchUnexpected (bset_difference (arches machine) (arches snapshot)))"

section \<open>Construction keeps a shape canonical\<close>

lemma shape_wf_new [wf_intros]: "shape_wf shape_new"
  by (simp add: shape_wf_def shape_new_def bset_wf_def)

lemma shape_wf_add_device [wf_intros]:
  "shape_wf s \<Longrightarrow> add_device s p c = Inr s' \<Longrightarrow> shape_wf s'"
  by (auto simp: add_device_def shape_wf_def bmap_wf_insert split: option.splits)

lemma shape_wf_add [wf_intros]:
  "shape_wf s \<Longrightarrow> shape_wf (add_region s sp n b z)"
  "shape_wf s \<Longrightarrow> shape_wf (add_feature s f)"
  "shape_wf s \<Longrightarrow> shape_wf (add_arch s f)"
  by (simp_all add: shape_wf_def add_region_def add_feature_def add_arch_def bset_wf_insert)

lemma add_device_class:
  assumes "shape_wf s" "add_device s p c = Inr s'"
  shows "device_class s' = (device_class s)(p \<mapsto> c)"
  using assms bmap.get_insert
  by (auto simp: add_device_def shape_wf_def device_class_def [abs_def] bmap_get_def [abs_def]
      map_of_bmap_insert split: option.splits)

section \<open>The encoding\<close>

definition enc_region :: "region_shape \<Rightarrow> u8 list" where
  "enc_region r = enc_bytes (r_space r) @ to_le_bytes (r_base r) @ to_le_bytes (r_size r)
     @ enc_bytes (r_name r)"

definition enc_shape :: "machine_shape \<Rightarrow> u8 list" where
  "enc_shape s =
     enc_counted (enc_pair enc_bytes enc_bytes) (devices s) @ enc_counted enc_region (regions s)
     @ enc_counted enc_bytes (features s) @ enc_counted enc_bytes (arches s)"

definition valid_region :: "region_shape \<Rightarrow> bool" where
  "valid_region r \<longleftrightarrow> valid_str (r_space r) \<and> valid_str (r_name r)"

text \<open>
  A shape that the format can carry: canonical, its strings valid UTF-8 and all
  lengths below \<open>2^64\<close>, which every Rust value satisfies.
\<close>

definition valid_shape :: "machine_shape \<Rightarrow> bool" where
  "valid_shape s \<longleftrightarrow> shape_wf s
     \<and> length (devices s) < 2 ^ 64 \<and> (\<forall>d\<in>set (devices s). valid_str (fst d) \<and> valid_str (snd d))
     \<and> length (regions s) < 2 ^ 64 \<and> (\<forall>r\<in>set (regions s). valid_region r)
     \<and> length (features s) < 2 ^ 64 \<and> (\<forall>f\<in>set (features s). valid_str f)
     \<and> length (arches s) < 2 ^ 64 \<and> (\<forall>a\<in>set (arches s). valid_str a)"

lemma foldl_append_enc:
  "(\<And>s x. w s x = s @ enc x) \<Longrightarrow> foldl w sink xs = sink @ enc_list enc xs"
  by (induction xs arbitrary: sink) simp_all

lemma write_string_set_enc [codec_simps]: "write_string_set sink s = sink @ enc_counted enc_bytes s"
  using foldl_append_enc [of write_str enc_bytes]
  by (simp add: write_string_set_def enc_counted_def codec_simps)

lemma encode_into_enc [codec_simps]: "encode_into s sink = sink @ enc_shape s"
proof -
  have d: "write_device sk d = sk @ enc_pair enc_bytes enc_bytes d" for sk d
    by (simp add: write_device_def enc_pair_def codec_simps)
  have r: "write_region sk r = sk @ enc_region r" for sk r
    by (simp add: write_region_def enc_region_def codec_simps)
  show ?thesis
    by (simp add: encode_into_def Let_def foldl_append_enc [OF d] foldl_append_enc [OF r]
        enc_shape_def enc_counted_def codec_simps)
qed

section \<open>The codecs of the shape\<close>

interpretation device_codec: codec "enc_pair enc_bytes enc_bytes" read_device
  "\<lambda>d. valid_str (fst d) \<and> valid_str (snd d)"
proof -
  have "read_device = read_pair read_str read_str"
    by (rule ext) (simp add: read_device_def read_pair_def)
  with codec_pair [OF str_codec.codec_axioms str_codec.codec_axioms]
  show "codec (enc_pair enc_bytes enc_bytes) read_device
          (\<lambda>d. valid_str (fst d) \<and> valid_str (snd d))" by simp
qed

interpretation region_codec: codec enc_region read_region valid_region
proof -
  let ?f = "\<lambda>(sp, b, z, n). RegionShape sp b z n" and ?g = region_key
  let ?d = "read_pair read_str (read_pair read_u64 (read_pair read_u64 read_str))"
  have "read_region = read_map ?f ?d"
    by (rule ext) (simp add: read_region_def read_map_def read_pair_def rbind_assoc
        case_prod_unfold)
  moreover have "codec (enc_pair enc_bytes (enc_pair to_le_bytes (enc_pair to_le_bytes enc_bytes))) ?d
      (\<lambda>ab. valid_str (fst ab) \<and> (True \<and> (True \<and> valid_str (snd (snd (snd ab))))))"
    by (intro codec_pair str_codec.codec_axioms u64_codec.codec_axioms)
  from codec_map [OF this, of ?g ?f] have
    "codec enc_region (read_map ?f ?d) valid_region"
    by (simp add: region_key_def enc_pair_def enc_region_def [abs_def] valid_region_def [abs_def]
        case_prod_unfold)
  ultimately show "codec enc_region read_region valid_region" by simp
qed

lemma ascending_bset_wf: "ascending (\<lambda>x. x) None xs \<longleftrightarrow> bset_wf xs"
  by (simp add: ascending_sorted bset_wf_def)

lemma ascending_bmap_wf: "ascending fst None xs \<longleftrightarrow> bmap_wf xs"
  by (simp add: ascending_sorted bmap_wf_def)

text \<open>
  Rebuilding the sets and the map from entries that arrived in ascending order
  changes nothing, so the readers are those of the counted sequences.
\<close>

lemma read_counted_ascending:
  "read_counted dec key msg m src = Inr (xs, src') \<Longrightarrow> ascending key None xs"
  by (auto simp: read_counted_def rbind_eq_Inr dest: read_ascending_ascending)

lemma read_string_set_eq: "read_string_set src what = read_counted read_str (\<lambda>x. x) (SetOutOfOrder what) 8 src"
proof (cases "read_counted read_str (\<lambda>x. x) (SetOutOfOrder what) 8 src")
  case (Inr p)
  obtain xs s where p: "p = (xs, s)" by (cases p)
  from read_counted_ascending [OF Inr [unfolded p]] have "bset_wf xs"
    by (simp add: ascending_bset_wf)
  then show ?thesis by (simp add: read_string_set_def Inr p)
qed (simp add: read_string_set_def)

definition shape_parts :: "machine_shape \<Rightarrow>
    (u8 list \<times> u8 list) list \<times> region_shape list \<times> u8 list list \<times> u8 list list" where
  "shape_parts s = (devices s, regions s, features s, arches s)"

definition shape_of_parts :: "(u8 list \<times> u8 list) list \<times> region_shape list \<times> u8 list list \<times> u8 list list \<Rightarrow>
    machine_shape" where
  "shape_of_parts p = \<lparr>devices = fst p, regions = fst (snd p), features = fst (snd (snd p)),
     arches = snd (snd (snd p))\<rparr>"

definition read_parts where
  "read_parts =
     read_pair (read_counted read_device fst DevicesOutOfOrder 16)
       (read_pair (read_counted read_region (\<lambda>r. r) (\<lambda>_ _. RegionsOutOfOrder) 32)
         (read_pair (read_counted read_str (\<lambda>x. x) (SetOutOfOrder feature_word) 8)
                    (read_counted read_str (\<lambda>x. x) (SetOutOfOrder arch_word) 8)))"

lemma decode_from_eq: "decode_from src = read_map shape_of_parts read_parts src"
proof -
  have d: "bmap_of ds = ds" if "read_counted read_device fst DevicesOutOfOrder 16 s = Inr (ds, s')" for s ds s'
    using read_counted_ascending [OF that] by (simp add: ascending_bmap_wf)
  have r: "bset_of rs = rs"
    if "read_counted read_region (\<lambda>r. r) (\<lambda>_ _. RegionsOutOfOrder) 32 s = Inr (rs, s')" for s rs s'
    using read_counted_ascending [OF that] by (simp add: ascending_bset_wf)
  show ?thesis
    unfolding decode_from_def read_map_def read_parts_def read_pair_def rbind_assoc
      read_string_set_eq case_prod_unfold
    by (intro rbind_cong refl) (auto simp: d r shape_of_parts_def rbind_assoc intro!: rbind_cong)
qed

interpretation shape_codec: codec enc_shape decode_from valid_shape
proof -
  have dev: "codec (enc_counted (enc_pair enc_bytes enc_bytes))
      (read_counted read_device fst DevicesOutOfOrder 16)
      (valid_counted (\<lambda>d. valid_str (fst d) \<and> valid_str (snd d)) fst)"
    by (rule device_codec.codec_counted) (simp add: enc_pair_def)
  have reg: "codec (enc_counted enc_region)
      (read_counted read_region (\<lambda>r. r) (\<lambda>_ _. RegionsOutOfOrder) 32)
      (valid_counted valid_region (\<lambda>r. r))"
    by (rule region_codec.codec_counted) (simp add: enc_region_def)
  have str: "codec (enc_counted enc_bytes)
      (read_counted read_str (\<lambda>x. x) (SetOutOfOrder w) 8) (valid_counted valid_str (\<lambda>x. x))" for w
    by (rule str_codec.codec_counted) simp
  note parts = codec_pair [OF dev codec_pair [OF reg codec_pair [OF str str]],
      of feature_word arch_word, folded read_parts_def]
  have dec: "decode_from = read_map shape_of_parts read_parts"
    by (rule ext) (rule decode_from_eq)
  have "shape_parts (shape_of_parts p) = p" "shape_of_parts (shape_parts s) = s" for p s
    by (simp_all add: shape_parts_def shape_of_parts_def)
  from codec_map [OF parts, of shape_parts shape_of_parts, OF this]
  show "codec enc_shape decode_from valid_shape"
    unfolding dec
    by (simp add: enc_shape_def [abs_def] enc_pair_def [abs_def] shape_parts_def valid_shape_def [abs_def]
        valid_counted_def ascending_bset_wf ascending_bmap_wf shape_wf_def conj_ac)
qed

section \<open>The diff\<close>

lemma diff_regions_Nil: "fst (diff_regions om p rs) = [] \<longleftrightarrow> rs = []"
  by (cases rs) (auto split: option.splits prod.splits)

lemma diff_devices_empty:
  assumes "bmap_wf (devices s)" "bmap_wf (devices m)"
  shows "(\<forall>d\<in>set (devices s). diff_device m d = []) \<and> (\<forall>d\<in>set (devices m). diff_device_back s d = [])
     \<longleftrightarrow> devices s = devices m"
proof -
  have dist: "distinct (map fst (devices s))" "distinct (map fst (devices m))"
    using assms by (auto simp: bmap_wf_def strict_sorted_iff)
  have fwd: "diff_device m d = [] \<longleftrightarrow> map_of (devices m) (fst d) = Some (snd d)" for d
    by (simp add: diff_device_def bmap_get_def split: option.split)
  have bwd: "diff_device_back s d = [] \<longleftrightarrow> fst d \<in> dom (map_of (devices s))" for d
    by (auto simp: diff_device_back_def bmap_get_def)
  show ?thesis (is "?L \<longleftrightarrow> ?R")
  proof
    assume ?R
    then show ?L using dist by (auto simp: fwd bwd dom_map_of_conv_image_fst)
  next
    assume ?L
    then have le: "map_of (devices s) k = Some v \<Longrightarrow> map_of (devices m) k = Some v"
      and dom: "map_of (devices m) k = Some v \<Longrightarrow> k \<in> dom (map_of (devices s))" for k v
      using dist by (fastforce simp: fwd bwd map_of_eq_Some_iff)+
    have "map_of (devices s) k = map_of (devices m) k" for k
    proof (cases "map_of (devices s) k")
      case None
      then have "map_of (devices m) k \<noteq> Some v" for v using dom [of k v] by auto
      then show ?thesis using None by (cases "map_of (devices m) k") auto
    qed (use le in auto)
    then have "map_of (devices s) = map_of (devices m)" by (rule ext)
    with assms show ?R by (rule bmap_wf_unique)
  qed
qed

lemma shape_diff_empty_iff:
  assumes "shape_wf s" "shape_wf m"
  shows "shape_diff s m = [] \<longleftrightarrow> s = m"
proof -
  have set_eq: "bset_wf a \<Longrightarrow> bset_wf b \<Longrightarrow>
      bset_difference a b = [] \<and> bset_difference b a = [] \<longleftrightarrow> a = b" for a b :: "'k::linorder list"
    using bset_wf_unique [of a b] by (auto simp: bset_difference_empty)
  let ?os = "bset_difference (regions s) (regions m)" and ?om = "bset_difference (regions m) (regions s)"
  obtain mv p where mp: "diff_regions ?om (replicate (length ?om) False) ?os = (mv, p)"
    by (cases "diff_regions ?om (replicate (length ?om) False) ?os")
  have mv: "mv = [] \<longleftrightarrow> ?os = []"
    using diff_regions_Nil [of ?om "replicate (length ?om) False" ?os] mp by simp
  have un: "?os = [] \<Longrightarrow> filter (\<lambda>i. \<not> p ! i) [0..<length ?om] = [] \<longleftrightarrow> ?om = []"
    using mp by (auto simp: filter_empty_conv) (metis length_greater_0_conv)
  have "shape_diff s m = [] \<longleftrightarrow> devices s = devices m \<and> regions s = regions m
      \<and> features s = features m \<and> arches s = arches m"
    using diff_devices_empty [of s m] set_eq [of "regions s" "regions m"]
      set_eq [of "features s" "features m"] set_eq [of "arches s" "arches m"] assms mv un
    unfolding shape_diff_def Let_def mp shape_wf_def by auto
  then show ?thesis by auto
qed

end
