(* ===== verification/Core_State.thy ===== *)
theory Core_State
  imports State_Shape "HOL-Library.Multiset"
begin

text \<open>
  Versioned snapshots, the rest of \<open>core/state.rs\<close>: the writer that buffers
  chunks and emits them in path order, the parser over untrusted bytes, lookup
  by instance path, and the migration table. A \<open>ChunkWriter\<close> is the path it was
  opened for: what it writes is appended to that chunk's data. A migration step
  is a parameter, the function a class registers.
\<close>

section \<open>Writing\<close>

definition MAGIC :: "u8 list" where
  "MAGIC = [0x52, 0x53, 0x45, 0x4d, 0x55, 0x53, 0x4e, 0x50]"

definition FORMAT_VERSION :: u32 where "FORMAT_VERSION = 1"
definition TAG_CHUNK :: u8 where "TAG_CHUNK = 1"
definition TAG_END :: u8 where "TAG_END = 0"
definition CODEC_STORED :: u16 where "CODEC_STORED = 0"
definition INTEGRITY_NONE :: u16 where "INTEGRITY_NONE = 0"

record pending_chunk =
  p_class :: "u8 list"
  p_version :: u32
  p_data :: "u8 list"

record state_writer =
  w_shape :: machine_shape
  w_codec :: u16
  w_integrity :: u16
  w_chunks :: "(u8 list, pending_chunk) bmap"

definition writer_new :: "machine_shape \<Rightarrow> state_writer" where
  "writer_new s = \<lparr>w_shape = s, w_codec = CODEC_STORED, w_integrity = INTEGRITY_NONE, w_chunks = []\<rparr>"

definition writer_chunk :: "state_writer \<Rightarrow> u8 list \<Rightarrow> u8 list \<Rightarrow> u32 \<Rightarrow> state_writer snap" where
  "writer_chunk w path class version =
     (case bmap_get (w_chunks w) path of
        Some existing \<Rightarrow>
          Inl (state_error (DuplicateChunk path (p_class existing) (p_version existing)))
      | None \<Rightarrow>
          if path = [] then Inl (state_error EmptyChunkPath)
          else Inr (w\<lparr>w_chunks := bmap_insert path
                 \<lparr>p_class = class, p_version = version, p_data = []\<rparr> (w_chunks w)\<rparr>))"

definition chunk_write_all :: "state_writer \<Rightarrow> u8 list \<Rightarrow> u8 list \<Rightarrow> state_writer" where
  "chunk_write_all w path bytes =
     (case bmap_get (w_chunks w) path of
        None \<Rightarrow> w
      | Some c \<Rightarrow> w\<lparr>w_chunks := bmap_insert path (c\<lparr>p_data := write_all (p_data c) bytes\<rparr>) (w_chunks w)\<rparr>)"

definition writer_raw_chunk :: "state_writer \<Rightarrow> u8 list \<Rightarrow> u8 list \<Rightarrow> u32 \<Rightarrow> u8 list \<Rightarrow> state_writer snap" where
  "writer_raw_chunk w path class version bytes =
     rbind (writer_chunk w path class version) (\<lambda>w'. Inr (chunk_write_all w' path bytes))"

definition write_chunk :: "u8 list \<Rightarrow> u8 list \<times> pending_chunk \<Rightarrow> u8 list" where
  "write_chunk sink pc =
     write_bytes (write_u32 (write_str (write_str (write_u8 sink TAG_CHUNK) (fst pc))
       (p_class (snd pc))) (p_version (snd pc))) (p_data (snd pc))"

definition write_to :: "state_writer \<Rightarrow> u8 list \<Rightarrow> u8 list" where
  "write_to w sink =
     (let s1 = write_u16 (write_u16 (write_u32 (write_all sink MAGIC) FORMAT_VERSION) (w_codec w))
                 (w_integrity w);
          s2 = encode_into (w_shape w) s1
      in write_u8 (foldl write_chunk s2 (w_chunks w)) TAG_END)"

definition to_vec :: "state_writer \<Rightarrow> u8 list" where
  "to_vec w = write_to w []"

section \<open>Reading\<close>

record raw_chunk =
  c_path :: "u8 list"
  c_class :: "u8 list"
  c_version :: u32
  c_data :: "u8 list"

record state_reader =
  r_codec :: u16
  r_integrity :: u16
  r_shape :: machine_shape
  r_chunks :: "raw_chunk list"

definition read_chunk :: "source \<Rightarrow> (raw_chunk \<times> source) snap" where
  "read_chunk src =
     rbind (read_str src) (\<lambda>(path, s1).
     rbind (read_str s1) (\<lambda>(class, s2).
     rbind (read_u32 s2) (\<lambda>(version, s3).
     rbind (read_bytes s3) (\<lambda>(bytes, s4).
       Inr (\<lparr>c_path = path, c_class = class, c_version = version, c_data = bytes\<rparr>, s4)))))"

text \<open>Every reader consumes input, which is why the chunk loop ends.\<close>

lemma take_bytes_remaining:
  "take_bytes src n = Inr (x, src') \<Longrightarrow> remaining src' + n = remaining src"
  by (auto simp: take_bytes_def remaining_def split: if_splits)

lemma read_int_remaining:
  "read_int src = Inr (x :: 'a::len word, src') \<Longrightarrow> remaining src' + LENGTH('a) div 8 = remaining src"
  by (auto simp: read_int_def Let_def rbind_eq_Inr split: if_splits dest!: take_bytes_remaining)

lemma read_remaining:
  "read_u8 src = Inr (a, src') \<Longrightarrow> remaining src' < remaining src"
  "read_u32 src = Inr (b, src') \<Longrightarrow> remaining src' \<le> remaining src"
  "read_bytes src = Inr (c, src') \<Longrightarrow> remaining src' \<le> remaining src"
  "read_str src = Inr (c, src') \<Longrightarrow> remaining src' \<le> remaining src"
  by (auto simp: read_u8_def read_u32_def read_u64_def read_bytes_def read_str_def rbind_eq_Inr
      split: if_splits dest!: read_int_remaining take_bytes_remaining)

lemma read_chunk_remaining:
  "read_chunk src = Inr (c, src') \<Longrightarrow> remaining src' \<le> remaining src"
  by (auto simp: read_chunk_def rbind_eq_Inr dest!: read_remaining)

function read_chunks :: "raw_chunk list \<Rightarrow> source \<Rightarrow> (raw_chunk list \<times> source) snap" where
  "read_chunks chunks src =
     rbind (read_u8 src) (\<lambda>(tag, s0).
       if tag = TAG_END then Inr (chunks, s0)
       else if tag = TAG_CHUNK then
         rbind (read_chunk s0) (\<lambda>(c, s1).
           if chunks \<noteq> [] \<and> c_path c \<le> c_path (last chunks)
           then Inl (state_error (ChunksOutOfOrder (c_path c) (c_path (last chunks))))
           else read_chunks (chunks @ [c]) s1)
       else Inl (state_error (UnknownTag tag)))"
  by pat_completeness auto
termination
  by (relation "measure (\<lambda>(chunks, src). remaining src)")
    (auto dest!: read_remaining(1) read_chunk_remaining)

declare read_chunks.simps [simp del]

definition from_source :: "source \<Rightarrow> state_reader snap" where
  "from_source src =
     rbind (take_bytes src (length MAGIC)) (\<lambda>(magic, s1).
     rbind (require (magic = MAGIC) (state_error (BadMagic magic))) (\<lambda>_.
     rbind (read_u32 s1) (\<lambda>(format, s2).
     rbind (require (format = FORMAT_VERSION) (state_error (BadFormat format))) (\<lambda>_.
     rbind (read_u16 s2) (\<lambda>(codec, s3).
     rbind (require (codec = CODEC_STORED) (state_error (BadCodec codec))) (\<lambda>_.
     rbind (read_u16 s3) (\<lambda>(integrity, s4).
     rbind (require (integrity = INTEGRITY_NONE) (state_error (BadIntegrity integrity))) (\<lambda>_.
     rbind (decode_from s4) (\<lambda>(shape, s5).
     rbind (read_chunks [] s5) (\<lambda>(chunks, s6).
     rbind (require (remaining s6 = 0) (state_error (TrailingBytes (remaining s6)))) (\<lambda>_.
       Inr \<lparr>r_codec = codec, r_integrity = integrity, r_shape = shape, r_chunks = chunks\<rparr>)))))))))))"

definition reader_new :: "u8 list \<Rightarrow> state_reader snap" where
  "reader_new bytes = from_source (slice_new bytes)"

definition check_shape :: "state_reader \<Rightarrow> machine_shape \<Rightarrow> unit snap" where
  "check_shape r machine =
     (let d = shape_diff (r_shape r) machine in
      if d = [] then Inr () else Inl (state_error (ShapeMismatch (length d))))"

text \<open>
  \<open>slice::binary_search_by\<close>: halve the window, keeping the half whose first
  element is not above the key.
\<close>

function bsearch_base :: "'a list \<Rightarrow> ('a \<Rightarrow> 'k::linorder) \<Rightarrow> 'k \<Rightarrow> nat \<Rightarrow> nat \<Rightarrow> nat" where
  "bsearch_base xs key k base sz =
     (if sz \<le> 1 then base
      else let half = sz div 2; mid = base + half in
        bsearch_base xs key k (if k < key (xs ! mid) then base else mid) (sz - half))"
  by pat_completeness auto
termination
  by (relation "measure (\<lambda>(xs, key, k, base, sz). sz)") auto

declare bsearch_base.simps [simp del]

definition binary_search_by :: "'a list \<Rightarrow> ('a \<Rightarrow> 'k::linorder) \<Rightarrow> 'k \<Rightarrow> nat option" where
  "binary_search_by xs key k =
     (if xs = [] then None
      else let b = bsearch_base xs key k 0 (length xs) in
        if key (xs ! b) = k then Some b else None)"

definition reader_raw :: "state_reader \<Rightarrow> u8 list \<Rightarrow> raw_chunk option" where
  "reader_raw r path =
     (case binary_search_by (r_chunks r) c_path path of
        None \<Rightarrow> None | Some i \<Rightarrow> nth_opt (r_chunks r) i)"

section \<open>Migration\<close>

type_synonym migrate_fn = "source \<Rightarrow> u8 list \<Rightarrow> u8 list snap"
type_synonym migrations = "(u8 list, (u32, migrate_fn) bmap) bmap"

definition mig_step :: "migrations \<Rightarrow> u8 list \<Rightarrow> u32 \<Rightarrow> migrate_fn option" where
  "mig_step m class v = (case bmap_get m class of None \<Rightarrow> None | Some per \<Rightarrow> bmap_get per v)"

definition mig_register :: "migrations \<Rightarrow> u8 list \<Rightarrow> u32 \<Rightarrow> migrate_fn \<Rightarrow> migrations snap" where
  "mig_register m class from_version step =
     (if from_version = - 1 then Inl (state_error (NoSuccessor class from_version))
      else
        let per_class = (case bmap_get m class of None \<Rightarrow> [] | Some per \<Rightarrow> per) in
        if bmap_get per_class from_version \<noteq> None
        then Inl (state_error (MigrationRegistered class from_version))
        else Inr (bmap_insert class (bmap_insert from_version step per_class) m))"

definition steps_for :: "migrations \<Rightarrow> u8 list \<Rightarrow> u32 list" where
  "steps_for m class = (case bmap_get m class of None \<Rightarrow> [] | Some per \<Rightarrow> map fst per)"

text \<open>The loop of \<open>upgrade\<close>; \<open>from0\<close> is only there for the message.\<close>

function upgrade_loop ::
  "migrations \<Rightarrow> u8 list \<Rightarrow> u32 \<Rightarrow> u32 \<Rightarrow> u32 \<Rightarrow> u8 list \<Rightarrow> u8 list snap" where
  "upgrade_loop m class from0 version to_version current =
     (if version < to_version then
        case mig_step m class version of
          None \<Rightarrow> Inl (state_error (NoMigration class version from0 to_version))
        | Some step \<Rightarrow>
            rbind (step (slice_new current) []) (\<lambda>migrated.
              upgrade_loop m class from0 (version + 1) to_version migrated)
      else Inr current)"
  by pat_completeness auto
termination
  by (relation "measure (\<lambda>(m, c, f, v, t, d). unat t - unat v)")
    (auto simp: unat_add_1_less word_less_nat_alt)

declare upgrade_loop.simps [simp del]

definition upgrade :: "migrations \<Rightarrow> u8 list \<Rightarrow> u32 \<Rightarrow> u32 \<Rightarrow> u8 list \<Rightarrow> u8 list snap" where
  "upgrade m class from_version to_version bytes =
     (if from_version = to_version then Inr bytes
      else if from_version > to_version then
        Inl (state_error (NoDowngrade class from_version to_version))
      else upgrade_loop m class from_version from_version to_version bytes)"

record loaded_chunk =
  l_path :: "u8 list"
  l_class :: "u8 list"
  l_stored_version :: u32
  l_version :: u32
  l_data :: "u8 list"

definition reader_load :: "state_reader \<Rightarrow> u8 list \<Rightarrow> u8 list \<Rightarrow> u32 \<Rightarrow> migrations \<Rightarrow> loaded_chunk snap" where
  "reader_load r path class version migs =
     (case reader_raw r path of
        None \<Rightarrow> Inl (state_error (NoChunk path))
      | Some c \<Rightarrow>
          if c_class c \<noteq> class then Inl (state_error (WrongClass path class (c_class c)))
          else rbind (upgrade migs class (c_version c) version (c_data c)) (\<lambda>bytes.
            Inr \<lparr>l_path = c_path c, l_class = c_class c, l_stored_version = c_version c,
                 l_version = version, l_data = bytes\<rparr>))"

definition load_raw :: "state_reader \<Rightarrow> u8 list \<Rightarrow> (u8 list \<times> u32 \<times> u8 list) snap" where
  "load_raw r path =
     (case reader_raw r path of
        None \<Rightarrow> Inl (state_error (NoChunk path))
      | Some c \<Rightarrow> Inr (c_class c, c_version c, c_data c))"

definition reader_end :: "source \<Rightarrow> unit snap" where
  "reader_end src =
     (if remaining src = 0 then Inr () else Inl (state_error (UnreadBytes (remaining src))))"

section \<open>The chunk list is a codec\<close>

definition enc_raw :: "raw_chunk \<Rightarrow> u8 list" where
  "enc_raw c = enc_bytes (c_path c) @ enc_bytes (c_class c) @ to_le_bytes (c_version c)
     @ enc_bytes (c_data c)"

definition valid_raw :: "raw_chunk \<Rightarrow> bool" where
  "valid_raw c \<longleftrightarrow> valid_str (c_path c) \<and> valid_str (c_class c) \<and> valid_bytes (c_data c)"

definition raw_of :: "u8 list \<times> pending_chunk \<Rightarrow> raw_chunk" where
  "raw_of pc = \<lparr>c_path = fst pc, c_class = p_class (snd pc), c_version = p_version (snd pc),
     c_data = p_data (snd pc)\<rparr>"

definition pending_of :: "raw_chunk \<Rightarrow> u8 list \<times> pending_chunk" where
  "pending_of c = (c_path c, \<lparr>p_class = c_class c, p_version = c_version c, p_data = c_data c\<rparr>)"

lemma raw_pending [simp]: "raw_of (pending_of c) = c" "pending_of (raw_of pc) = pc"
  by (simp_all add: raw_of_def pending_of_def prod_eq_iff)

interpretation raw_codec: codec enc_raw read_chunk valid_raw
proof -
  let ?f = "\<lambda>(p, c, v, d). \<lparr>c_path = p, c_class = c, c_version = v, c_data = d\<rparr>"
  let ?g = "\<lambda>c. (c_path c, c_class c, c_version c, c_data c)"
  let ?d = "read_pair read_str (read_pair read_str (read_pair read_u32 read_bytes))"
  have "read_chunk = read_map ?f ?d"
    by (rule ext) (simp add: read_chunk_def read_map_def read_pair_def rbind_assoc case_prod_unfold)
  moreover have "codec (enc_pair enc_bytes (enc_pair enc_bytes (enc_pair to_le_bytes enc_bytes))) ?d
      (\<lambda>ab. valid_str (fst ab) \<and> (valid_str (fst (snd ab)) \<and> (True \<and> valid_bytes (snd (snd (snd ab))))))"
    by (intro codec_pair str_codec.codec_axioms u32_codec.codec_axioms bytes_codec.codec_axioms)
  from codec_map [OF this, of ?g ?f] have "codec enc_raw (read_map ?f ?d) valid_raw"
    by (simp add: enc_pair_def enc_raw_def [abs_def] valid_raw_def [abs_def] case_prod_unfold)
  ultimately show "codec enc_raw read_chunk valid_raw" by simp
qed

definition enc_chunks :: "raw_chunk list \<Rightarrow> u8 list" where
  "enc_chunks cs = enc_list (\<lambda>c. to_le_bytes TAG_CHUNK @ enc_raw c) cs @ to_le_bytes TAG_END"

definition last_path :: "raw_chunk list \<Rightarrow> u8 list option" where
  "last_path cs = (if cs = [] then None else Some (c_path (last cs)))"

lemma last_path_snoc [simp]: "last_path (cs @ [c]) = Some (c_path c)"
  by (simp add: last_path_def)

lemma tags_distinct [simp]: "TAG_CHUNK \<noteq> TAG_END"
  by (simp add: TAG_CHUNK_def TAG_END_def)

lemma read_chunks_enc:
  assumes "source_wf src" "\<And>c. c \<in> set cs \<Longrightarrow> valid_raw c" "ascending c_path (last_path done) cs"
    and "unread src = enc_chunks cs @ r"
  shows "read_chunks done src = Inr (done @ cs, advance src (length (enc_chunks cs)))"
  using assms
proof (induction cs arbitrary: "done" src)
  case Nil
  then have "read_u8 src = Inr (TAG_END, advance src (length (to_le_bytes TAG_END)))"
    by (intro u8_codec.dec_enc) (auto simp: enc_chunks_def)
  then show ?case by (simp add: read_chunks.simps [of "done" src] enc_chunks_def)
next
  case (Cons c cs)
  let ?s0 = "advance src (length (to_le_bytes TAG_CHUNK))"
  have u0: "unread src = to_le_bytes TAG_CHUNK @ (enc_raw c @ enc_chunks cs @ r)"
    using Cons.prems(4) by (simp add: enc_chunks_def)
  note t = u8_codec.dec_enc [OF Cons.prems(1) TrueI u0]
  note wf0 = source_wf_advance [OF Cons.prems(1) u0] and u1 = unread_advance [OF u0]
  have c: "read_chunk ?s0 = Inr (c, advance ?s0 (length (enc_raw c)))"
    using raw_codec.dec_enc [OF wf0 _ u1] Cons.prems(2) by simp
  note wf1 = source_wf_advance [OF wf0 u1] and u2 = unread_advance [OF u1]
  have "read_chunks (done @ [c]) (advance ?s0 (length (enc_raw c)))
     = Inr ((done @ [c]) @ cs, advance (advance ?s0 (length (enc_raw c))) (length (enc_chunks cs)))"
    using Cons.prems by (intro Cons.IH [OF wf1 _ _ u2]) auto
  moreover have "\<not> (done \<noteq> [] \<and> c_path c \<le> c_path (last done))"
    using Cons.prems(3) by (auto simp: last_path_def)
  ultimately show ?case
    using t c by (simp add: read_chunks.simps [of "done" src] enc_chunks_def)
qed

lemma read_chunks_dec:
  assumes "source_wf src" "read_chunks done src = Inr (res, src')"
  shows "\<exists>cs. res = done @ cs \<and> (\<forall>c\<in>set cs. valid_raw c) \<and> ascending c_path (last_path done) cs
     \<and> unread src = enc_chunks cs @ unread src' \<and> source_wf src'"
  using assms
proof (induction "done" src rule: read_chunks.induct)
  case (1 "done" src)
  from "1.prems"(2) obtain tag s0 where t: "read_u8 src = Inr (tag, s0)"
    by (auto simp: read_chunks.simps [of "done" src] rbind_eq_Inr)
  note wf0 = u8_codec.dec_wf [OF "1.prems"(1) t] and u0 = u8_codec.dec_unread [OF "1.prems"(1) t]
  show ?case
  proof (cases "tag = TAG_END")
    case True
    with "1.prems"(2) t u0 wf0 show ?thesis
      by (auto simp: read_chunks.simps [of "done" src] enc_chunks_def)
  next
    case False
    with "1.prems"(2) t obtain c s1 where tag: "tag = TAG_CHUNK" and c: "read_chunk s0 = Inr (c, s1)"
      and o: "\<not> (done \<noteq> [] \<and> c_path c \<le> c_path (last done))"
      and l: "read_chunks (done @ [c]) s1 = Inr (res, src')"
      by (auto simp: read_chunks.simps [of "done" src] rbind_eq_Inr split: if_splits)
    note wf1 = raw_codec.dec_wf [OF wf0 c]
    from "1.IH" [OF t refl False tag c refl o wf1 l] obtain cs where cs:
      "res = (done @ [c]) @ cs" "\<forall>c\<in>set cs. valid_raw c" "ascending c_path (Some (c_path c)) cs"
      "unread s1 = enc_chunks cs @ unread src'" "source_wf src'" by auto
    have "ascending c_path (last_path done) (c # cs)"
      using cs(3) o by (auto simp: last_path_def not_le)
    then show ?thesis
      using cs u0 raw_codec.enc_dec [OF wf0 c] raw_codec.dec_unread [OF wf0 c] tag
      by (intro exI [of _ "c # cs"]) (auto simp: enc_chunks_def)
  qed
qed

section \<open>Whole snapshots\<close>

definition enc_header :: "u16 \<Rightarrow> u16 \<Rightarrow> u8 list" where
  "enc_header c i = MAGIC @ to_le_bytes FORMAT_VERSION @ to_le_bytes c @ to_le_bytes i"

definition enc_snapshot :: "u16 \<Rightarrow> u16 \<Rightarrow> machine_shape \<Rightarrow> raw_chunk list \<Rightarrow> u8 list" where
  "enc_snapshot c i s cs = enc_header c i @ enc_shape s @ enc_chunks cs"

lemma to_vec_enc [codec_simps]:
  "to_vec w = enc_snapshot (w_codec w) (w_integrity w) (w_shape w) (map raw_of (w_chunks w))"
proof -
  have c: "write_chunk sk pc = sk @ (to_le_bytes TAG_CHUNK @ enc_raw (raw_of pc))" for sk pc
    by (simp add: write_chunk_def enc_raw_def raw_of_def codec_simps)
  show ?thesis
    by (simp add: to_vec_def write_to_def Let_def foldl_append_enc [OF c] codec_simps
        enc_snapshot_def enc_header_def enc_chunks_def enc_list_def comp_def)
qed

text \<open>The writer's invariant: what \<open>writer_new\<close> and \<open>writer_raw_chunk\<close> establish and keep.\<close>

definition writer_wf :: "state_writer \<Rightarrow> bool" where
  "writer_wf w \<longleftrightarrow> w_codec w = CODEC_STORED \<and> w_integrity w = INTEGRITY_NONE
     \<and> shape_wf (w_shape w) \<and> bmap_wf (w_chunks w) \<and> (\<forall>pc\<in>set (w_chunks w). fst pc \<noteq> [])"

text \<open>What fits the format: valid strings and lengths below \<open>2^64\<close>.\<close>

definition writer_valid :: "state_writer \<Rightarrow> bool" where
  "writer_valid w \<longleftrightarrow> writer_wf w \<and> valid_shape (w_shape w)
     \<and> (\<forall>pc\<in>set (w_chunks w). valid_raw (raw_of pc)) \<and> length (to_vec w) \<le> usize_max"

lemma writer_wf_new [wf_intros]: "shape_wf s \<Longrightarrow> writer_wf (writer_new s)"
  by (simp add: writer_wf_def writer_new_def)

lemma writer_wf_insert:
  assumes "writer_wf w" "p \<noteq> []"
  shows "writer_wf (w\<lparr>w_chunks := bmap_insert p c (w_chunks w)\<rparr>)"
proof -
  have "\<forall>pc\<in>set (bmap_insert p c (w_chunks w)). fst pc \<noteq> []"
    using assms set_bmap_insert [of p c "w_chunks w"] by (auto simp: writer_wf_def)
  with assms(1) show ?thesis by (simp add: writer_wf_def bmap_wf_insert)
qed

lemma writer_wf_chunk [wf_intros]:
  "writer_wf w \<Longrightarrow> writer_chunk w p c v = Inr w' \<Longrightarrow> writer_wf w'"
  by (auto simp: writer_chunk_def writer_wf_insert split: option.splits if_splits)

lemma writer_wf_chunk_write [wf_intros]:
  assumes "writer_wf w" shows "writer_wf (chunk_write_all w p bs)"
proof (cases "bmap_get (w_chunks w) p")
  case (Some c)
  then have "(p, c) \<in> set (w_chunks w)" by (simp add: bmap_get_def map_of_SomeD)
  with assms have "p \<noteq> []" by (auto simp: writer_wf_def)
  then show ?thesis
    using assms Some by (simp add: chunk_write_all_def writer_wf_insert)
qed (use assms in \<open>simp add: chunk_write_all_def\<close>)

lemma writer_wf_raw_chunk [wf_intros]:
  "writer_wf w \<Longrightarrow> writer_raw_chunk w p c v bs = Inr w' \<Longrightarrow> writer_wf w'"
  by (auto simp: writer_raw_chunk_def rbind_eq_Inr intro: writer_wf_chunk writer_wf_chunk_write)

lemma from_source_enc:
  assumes wf: "source_wf src" and v: "valid_shape s" "\<And>c. c \<in> set cs \<Longrightarrow> valid_raw c"
    and asc: "ascending c_path None cs"
    and u: "unread src = enc_snapshot CODEC_STORED INTEGRITY_NONE s cs"
  shows "from_source src = Inr \<lparr>r_codec = CODEC_STORED, r_integrity = INTEGRITY_NONE,
           r_shape = s, r_chunks = cs\<rparr>"
proof -
  have u0: "unread src = MAGIC @ (to_le_bytes FORMAT_VERSION @ (to_le_bytes CODEC_STORED
      @ (to_le_bytes INTEGRITY_NONE @ (enc_shape s @ (enc_chunks cs @ [])))))"
    using u by (simp add: enc_snapshot_def enc_header_def)
  note d0 = take_bytes_enc [OF wf u0]
  note w1 = source_wf_advance [OF wf u0] and u1 = unread_advance [OF u0]
  note d1 = u32_codec.dec_enc [OF w1 TrueI u1]
  note w2 = source_wf_advance [OF w1 u1] and u2 = unread_advance [OF u1]
  note d2 = u16_codec.dec_enc [OF w2 TrueI u2]
  note w3 = source_wf_advance [OF w2 u2] and u3 = unread_advance [OF u2]
  note d3 = u16_codec.dec_enc [OF w3 TrueI u3]
  note w4 = source_wf_advance [OF w3 u3] and u4 = unread_advance [OF u3]
  note d4 = shape_codec.dec_enc [OF w4 v(1) u4]
  note w5 = source_wf_advance [OF w4 u4] and u5 = unread_advance [OF u4]
  have "ascending c_path (last_path []) cs" using asc by (simp add: last_path_def)
  note d5 = read_chunks_enc [OF w5 v(2) this u5] and u6 = unread_advance [OF u5]
  show ?thesis
    using d0 d1 d2 d3 d4 d5 u6
    by (simp add: from_source_def remaining_unread)
qed

lemma from_source_dec:
  assumes wf: "source_wf src" and d: "from_source src = Inr r"
  shows "r_codec r = CODEC_STORED \<and> r_integrity r = INTEGRITY_NONE \<and> valid_shape (r_shape r)
     \<and> (\<forall>c\<in>set (r_chunks r). valid_raw c) \<and> ascending c_path None (r_chunks r)
     \<and> unread src = enc_snapshot CODEC_STORED INTEGRITY_NONE (r_shape r) (r_chunks r)"
proof -
  from d obtain s1 s2 s3 s4 s5 s6 where
    d0: "take_bytes src (length MAGIC) = Inr (MAGIC, s1)" and
    d1: "read_u32 s1 = Inr (FORMAT_VERSION, s2)" and
    d2: "read_u16 s2 = Inr (CODEC_STORED, s3)" and
    d3: "read_u16 s3 = Inr (INTEGRITY_NONE, s4)" and
    d4: "decode_from s4 = Inr (r_shape r, s5)" and
    d5: "read_chunks [] s5 = Inr (r_chunks r, s6)" and
    e: "remaining s6 = 0" and c: "r_codec r = CODEC_STORED" "r_integrity r = INTEGRITY_NONE"
    by (auto simp: from_source_def rbind_eq_Inr require_eq_Inr)
  from take_bytes_dec [OF d0] have u0: "unread src = MAGIC @ unread s1"
    and s1: "s1 = advance src (length MAGIC)" by auto
  have w1: "source_wf s1" unfolding s1 by (rule source_wf_advance [OF wf u0])
  note w2 = u32_codec.dec_wf [OF w1 d1] and u1 = u32_codec.dec_unread [OF w1 d1]
  note w3 = u16_codec.dec_wf [OF w2 d2] and u2 = u16_codec.dec_unread [OF w2 d2]
  note w4 = u16_codec.dec_wf [OF w3 d3] and u3 = u16_codec.dec_unread [OF w3 d3]
  note w5 = shape_codec.dec_wf [OF w4 d4] and u4 = shape_codec.dec_unread [OF w4 d4]
  from read_chunks_dec [OF w5 d5] shape_codec.enc_dec [OF w4 d4] e c u0 u1 u2 u3 u4
  show ?thesis
    by (auto simp: enc_snapshot_def enc_header_def remaining_unread last_path_def)
qed

section \<open>Lookup by path\<close>

lemma bsearch_base_hit:
  assumes "sorted_wrt (<) (map key xs)" "0 < sz" "base + sz \<le> length xs"
    and "base \<le> i" "i < base + sz" "k = key (xs ! i)"
  shows "bsearch_base xs key k base sz = i"
  using assms
proof (induction xs key k base sz rule: bsearch_base.induct)
  case (1 xs key k base sz)
  let ?mid = "base + sz div 2"
  show ?case
  proof (cases "sz \<le> 1")
    case True
    with "1.prems" show ?thesis by (simp add: bsearch_base.simps)
  next
    case False
    have ord: "a < b \<Longrightarrow> b < length xs \<Longrightarrow> key (xs ! a) < key (xs ! b)" for a b
      using "1.prems"(1) by (simp add: sorted_wrt_iff_nth_less)
    have "k < key (xs ! ?mid) \<longleftrightarrow> i < ?mid"
      using ord [of i ?mid] ord [of ?mid i] "1.prems" False
      by (cases "i = ?mid"; cases "i < ?mid") auto
    then show ?thesis
      using "1.IH" [OF False refl refl] "1.prems" False
      by (subst bsearch_base.simps) (auto simp: Let_def not_less)
  qed
qed

lemma bsearch_base_lt:
  "0 < sz \<Longrightarrow> base + sz \<le> length xs \<Longrightarrow> bsearch_base xs key k base sz < length xs"
proof (induction xs key k base sz rule: bsearch_base.induct)
  case (1 xs key k base sz)
  show ?case
  proof (cases "sz \<le> 1")
    case False
    then show ?thesis
      using "1.IH" [OF False refl refl] "1.prems"
      by (subst bsearch_base.simps) (auto simp: Let_def)
  qed (use "1.prems" in \<open>simp add: bsearch_base.simps\<close>)
qed

lemma binary_search_by_correct:
  assumes "sorted_wrt (<) (map key xs)"
  shows "binary_search_by xs key k = Some i \<longleftrightarrow> i < length xs \<and> key (xs ! i) = k"
  using bsearch_base_hit [OF assms, of "length xs" 0 i k] bsearch_base_lt [of "length xs" 0 xs key k]
  by (auto simp: binary_search_by_def Let_def)

lemma reader_raw_eq:
  assumes "ascending c_path None (r_chunks r)"
  shows "reader_raw r path = Some c \<longleftrightarrow> c \<in> set (r_chunks r) \<and> c_path c = path"
proof -
  have s: "sorted_wrt (<) (map c_path (r_chunks r))"
    using assms by (simp add: ascending_sorted)
  note b = binary_search_by_correct [OF s, of path]
  show ?thesis
  proof (cases "binary_search_by (r_chunks r) c_path path")
    case None
    with b show ?thesis by (auto simp: reader_raw_def in_set_conv_nth)
  next
    case (Some i)
    with b have i: "i < length (r_chunks r)" "c_path (r_chunks r ! i) = path" by auto
    moreover have "j = i" if "j < length (r_chunks r)" "c_path (r_chunks r ! j) = path" for j
      using s i that nth_eq_iff_index_eq [of "map c_path (r_chunks r)" j i]
      by (simp add: strict_sorted_iff)
    ultimately have "c \<in> set (r_chunks r) \<and> c_path c = path \<longleftrightarrow> c = r_chunks r ! i"
      unfolding in_set_conv_nth by blast
    then show ?thesis using Some i by (auto simp: reader_raw_def)
  qed
qed

lemma raw_of_lookup:
  assumes "bmap_wf (w_chunks w)"
  shows "reader_raw \<lparr>r_codec = c, r_integrity = i, r_shape = s, r_chunks = map raw_of (w_chunks w)\<rparr> path
     = map_option (\<lambda>pc. raw_of (path, pc)) (bmap_get (w_chunks w) path)"
    (is "?l = ?r")
proof -
  have asc: "ascending c_path None (map raw_of (w_chunks w))"
    using assms by (simp add: ascending_sorted bmap_wf_def comp_def raw_of_def)
  have "distinct (map fst (w_chunks w))"
    using assms by (simp add: bmap_wf_def strict_sorted_iff)
  then have r: "?r = Some c \<longleftrightarrow> (\<exists>pc. (path, pc) \<in> set (w_chunks w) \<and> c = raw_of (path, pc))" for c
    by (auto simp: bmap_get_def)
  have "?l = Some c \<longleftrightarrow> (\<exists>pc. (path, pc) \<in> set (w_chunks w) \<and> c = raw_of (path, pc))" for c
  proof -
    have "?l = Some c \<longleftrightarrow> c \<in> raw_of ` set (w_chunks w) \<and> c_path c = path"
      using asc by (subst reader_raw_eq) simp_all
    also have "\<dots> \<longleftrightarrow> (\<exists>p\<in>set (w_chunks w). c = raw_of p \<and> fst p = path)"
      by (auto simp: raw_of_def)
    also have "\<dots> \<longleftrightarrow> (\<exists>pc. (path, pc) \<in> set (w_chunks w) \<and> c = raw_of (path, pc))"
      by force
    finally show ?thesis .
  qed
  with r have "?l = Some c \<longleftrightarrow> ?r = Some c" for c by simp
  then show ?thesis by (metis option.exhaust)
qed

section \<open>Adding many chunks\<close>

text \<open>The specification of a save: the chunks added one after another.\<close>

fun add_chunks :: "state_writer \<Rightarrow> raw_chunk list \<Rightarrow> state_writer snap" where
  "add_chunks w [] = Inr w"
| "add_chunks w (c # cs) =
     rbind (writer_raw_chunk w (c_path c) (c_class c) (c_version c) (c_data c)) (\<lambda>w'. add_chunks w' cs)"

lemma writer_raw_chunk_eq:
  assumes "bmap_wf (w_chunks w)"
  shows "writer_raw_chunk w p c v bs =
     (case bmap_get (w_chunks w) p of
        Some e \<Rightarrow> Inl (state_error (DuplicateChunk p (p_class e) (p_version e)))
      | None \<Rightarrow> if p = [] then Inl (state_error EmptyChunkPath)
          else Inr (w\<lparr>w_chunks := bmap_insert p \<lparr>p_class = c, p_version = v, p_data = bs\<rparr> (w_chunks w)\<rparr>))"
proof (cases "bmap_get (w_chunks w) p")
  case None
  have twice: "bmap_insert p y (bmap_insert p x (w_chunks w)) = bmap_insert p y (w_chunks w)" for x y
    using assms by (intro bmap_wf_unique) (simp_all add: bmap_wf_insert map_of_bmap_insert)
  show ?thesis
    using None assms
    by (simp add: writer_raw_chunk_def writer_chunk_def chunk_write_all_def bmap.get_insert twice
        write_all_def)
qed (simp add: writer_raw_chunk_def writer_chunk_def)

lemma add_chunks_eq_Inr:
  assumes "bmap_wf (w_chunks w)"
  shows "add_chunks w cs = Inr w' \<longleftrightarrow>
     distinct (map c_path cs) \<and> (\<forall>c\<in>set cs. c_path c \<noteq> [] \<and> bmap_get (w_chunks w) (c_path c) = None)
     \<and> bmap_wf (w_chunks w') \<and> bmap_get (w_chunks w') = bmap_get (w_chunks w) ++ map_of (map pending_of cs)
     \<and> w' = w\<lparr>w_chunks := w_chunks w'\<rparr>"
  using assms
proof (induction cs arbitrary: w)
  case Nil
  have "bmap_wf a \<Longrightarrow> bmap_get a = bmap_get (w_chunks w) \<Longrightarrow> a = w_chunks w" for a
    using Nil by (intro bmap_wf_unique) (simp_all add: bmap_get_def [abs_def])
  with Nil show ?case by auto (metis state_writer.surjective state_writer.update_convs(4))
next
  case (Cons c cs)
  let ?w = "w\<lparr>w_chunks := bmap_insert (c_path c)
     \<lparr>p_class = c_class c, p_version = c_version c, p_data = c_data c\<rparr> (w_chunks w)\<rparr>"
  have wf: "bmap_wf (w_chunks ?w)" using Cons.prems by (simp add: bmap_wf_insert)
  show ?case
  proof (cases "bmap_get (w_chunks w) (c_path c) = None \<and> c_path c \<noteq> []")
    case False
    then show ?thesis
      by (auto simp: writer_raw_chunk_eq [OF Cons.prems] rbind_eq_Inr split: option.splits)
  next
    case True
    then have e1: "add_chunks w (c # cs) = add_chunks ?w cs"
      by (simp add: writer_raw_chunk_eq [OF Cons.prems])
    have e2: "bmap_get (w_chunks w) ++ map_of (map pending_of (c # cs))
        = bmap_get (w_chunks ?w) ++ map_of (map pending_of cs)" if "c_path c \<notin> c_path ` set cs"
    proof -
      have "c_path c \<notin> dom (map_of (map pending_of cs))"
        using that by (auto simp: dom_map_of_conv_image_fst pending_of_def)
      then show ?thesis
        using bmap.get_insert [OF Cons.prems]
        by (simp add: pending_of_def) (simp add: map_add_upd_left)
    qed
    have e3: "(\<forall>x\<in>set cs. c_path x \<noteq> [] \<and> bmap_get (w_chunks ?w) (c_path x) = None) \<longleftrightarrow>
       c_path c \<notin> c_path ` set cs
       \<and> (\<forall>x\<in>set cs. c_path x \<noteq> [] \<and> bmap_get (w_chunks w) (c_path x) = None)"
      using bmap.get_insert [OF Cons.prems] by (auto simp: image_iff)
    have e4: "?w\<lparr>w_chunks := x\<rparr> = w\<lparr>w_chunks := x\<rparr>" for x by simp
    show ?thesis
    proof (cases "c_path c \<in> c_path ` set cs")
      case True
      then show ?thesis by (simp only: e1 Cons.IH [OF wf] e3) simp
    next
      case False
      with True show ?thesis
        by (simp only: e1 Cons.IH [OF wf] e2 [OF False] e3 e4) auto
    qed
  qed
qed

section \<open>Properties\<close>

lemma source_wf_slice: "source_wf (slice_new bytes) \<longleftrightarrow> length bytes \<le> usize_max"
  by (simp add: source_wf_def slice_new_def)

lemma unread_slice [simp]: "unread (slice_new bytes) = bytes"
  by (simp add: unread_def slice_new_def)

lemma reader_new_to_vec:
  assumes "writer_valid w"
  shows "reader_new (to_vec w) = Inr \<lparr>r_codec = w_codec w, r_integrity = w_integrity w,
     r_shape = w_shape w, r_chunks = map raw_of (w_chunks w)\<rparr>"
proof -
  have "ascending c_path None (map raw_of (w_chunks w))"
    using assms by (simp add: ascending_sorted bmap_wf_def comp_def raw_of_def writer_valid_def writer_wf_def)
  with assms show ?thesis
    unfolding reader_new_def
    by (subst from_source_enc [of _ "w_shape w" "map raw_of (w_chunks w)"])
      (auto simp: writer_valid_def writer_wf_def source_wf_slice codec_simps)
qed

lemma reader_new_dec:
  assumes "length bytes \<le> usize_max" "reader_new bytes = Inr r"
  shows "valid_shape (r_shape r)" "\<forall>c\<in>set (r_chunks r). valid_raw c"
    "ascending c_path None (r_chunks r)"
    "bytes = enc_snapshot CODEC_STORED INTEGRITY_NONE (r_shape r) (r_chunks r)"
  using from_source_dec [of "slice_new bytes" r] assms
  by (simp_all add: reader_new_def source_wf_slice)

text \<open>
  C1: A snapshot reads back as what was written: for a writer whose strings are
  valid UTF-8 and whose image fits the address space, parsing the bytes
  \<open>to_vec\<close> produces succeeds and yields the same codec and integrity fields, the
  same machine shape and the same chunks, in path order.
\<close>

theorem snapshot_roundtrip:
  assumes "writer_valid w"
  shows "reader_new (to_vec w) = Inr \<lparr>r_codec = w_codec w, r_integrity = w_integrity w,
     r_shape = w_shape w, r_chunks = map raw_of (w_chunks w)\<rparr>"
  using assms by (rule reader_new_to_vec)

definition sample_shape :: machine_shape where
  "sample_shape = add_feature (add_region shape_new [0x6d] [0x72] 0 16) [0x66]"

definition sample_chunks :: "raw_chunk list" where
  "sample_chunks = [\<lparr>c_path = [0x62], c_class = [0x78], c_version = 2, c_data = [7, 8]\<rparr>,
     \<lparr>c_path = [0x61], c_class = [0x79], c_version = 1, c_data = []\<rparr>]"

definition sample_writer :: state_writer where
  "sample_writer = \<lparr>w_shape = sample_shape, w_codec = CODEC_STORED, w_integrity = INTEGRITY_NONE,
     w_chunks = [([0x61], \<lparr>p_class = [0x79], p_version = 1, p_data = []\<rparr>),
       ([0x62], \<lparr>p_class = [0x78], p_version = 2, p_data = [7, 8]\<rparr>)]\<rparr>"

lemma sample_shape_eq: "sample_shape = \<lparr>devices = [], regions = [RegionShape [0x6d] 0 16 [0x72]],
    features = [[0x66]], arches = []\<rparr>"
  by (simp add: sample_shape_def add_feature_def add_region_def shape_new_def)

lemma sample_writer_valid: "writer_valid sample_writer"
proof -
  have len: "length (to_vec sample_writer) \<le> usize_max"
    by (simp add: codec_simps enc_snapshot_def enc_header_def MAGIC_def sample_writer_def enc_chunks_def
        enc_raw_def raw_of_def enc_shape_def sample_shape_eq enc_counted_def enc_region_def usize_max_def)
  have "utf8_valid [x]" if "x < 0x80" for x
    using that by (simp add: utf8_valid.simps [of "[x]"] utf8_valid.simps [of "[]"])
  then have str: "valid_str [x]" if "x < 0x80" for x
    using that by (simp add: valid_str_def valid_bytes_def usize_max_def)
  have "valid_shape sample_shape"
    by (simp add: valid_shape_def sample_shape_eq str valid_region_def shape_wf_def bset_wf_def usize_max_def)
  moreover have "writer_wf sample_writer"
    by (simp add: writer_wf_def sample_writer_def shape_wf_def sample_shape_eq bset_wf_def)
  moreover have "\<forall>pc\<in>set (w_chunks sample_writer). valid_raw (raw_of pc)"
    by (simp add: sample_writer_def valid_raw_def raw_of_def str valid_bytes_def usize_max_def)
  ultimately show ?thesis
    using len by (simp add: writer_valid_def sample_writer_def)
qed

lemma sample_add_chunks: "add_chunks (writer_new sample_shape) sample_chunks = Inr sample_writer"
  by (simp add: writer_new_def sample_chunks_def writer_raw_chunk_eq bmap_get_def sample_writer_def
      CODEC_STORED_def INTEGRITY_NONE_def)

theorem snapshot_roundtrip_witness:
  "writer_valid sample_writer \<and> map c_path (r_chunks (projr (reader_new (to_vec sample_writer)))) = [[0x61], [0x62]]"
  using snapshot_roundtrip [OF sample_writer_valid] sample_writer_valid
  by (simp add: sample_writer_def raw_of_def)

text \<open>
  C2: The format is canonical: whatever bytes the parser accepts, adding the
  parsed chunks to a fresh writer for the parsed shape and serialising again
  gives the very same bytes, provided no chunk has the empty path.
\<close>

theorem snapshot_canonical:
  assumes "length bytes \<le> usize_max" "reader_new bytes = Inr r"
    and "[] \<notin> c_path ` set (r_chunks r)"
  shows "\<exists>w. add_chunks (writer_new (r_shape r)) (r_chunks r) = Inr w \<and> to_vec w = bytes"
proof -
  note d = reader_new_dec [OF assms(1,2)]
  let ?w = "(writer_new (r_shape r))\<lparr>w_chunks := map pending_of (r_chunks r)\<rparr>"
  have s: "sorted_wrt (<) (map c_path (r_chunks r))" using d(3) by (simp add: ascending_sorted)
  then have "bmap_wf (map pending_of (r_chunks r))" "distinct (map c_path (r_chunks r))"
    by (simp_all add: bmap_wf_def comp_def pending_of_def strict_sorted_iff)
  then have "add_chunks (writer_new (r_shape r)) (r_chunks r) = Inr ?w"
    using assms(3) by (subst add_chunks_eq_Inr) (auto simp: writer_new_def bmap_get_def [abs_def] image_iff)
  moreover have "to_vec ?w = bytes"
    using d(4) by (simp add: codec_simps writer_new_def comp_def)
  ultimately show ?thesis by blast
qed

theorem snapshot_canonical_witness:
  "\<exists>w. add_chunks (writer_new sample_shape) (map raw_of (w_chunks sample_writer)) = Inr w
     \<and> to_vec w = to_vec sample_writer"
  using snapshot_canonical [OF _ reader_new_to_vec [OF sample_writer_valid]] sample_writer_valid
  by (simp add: sample_writer_def writer_valid_def raw_of_def)

text \<open>
  The order in which devices are saved does not show in the image: adding
  the same chunks in any other order succeeds too and leaves the same writer,
  hence the same bytes.
\<close>

theorem snapshot_order_independent:
  assumes "mset cs = mset cs'" "add_chunks (writer_new s) cs = Inr w"
  shows "add_chunks (writer_new s) cs' = Inr w \<and> to_vec w = to_vec (projr (add_chunks (writer_new s) cs'))"
proof -
  have wf: "bmap_wf (w_chunks (writer_new s))" by (simp add: writer_new_def)
  note eq = add_chunks_eq_Inr [OF wf]
  have d: "distinct (map c_path cs)" using assms(2) eq by blast
  have m: "mset (map c_path cs) = mset (map c_path cs')" using assms(1) by simp
  then have d': "distinct (map c_path cs')" using d by (metis mset_eq_imp_distinct_iff)
  have "set (map pending_of cs) = set (map pending_of cs')"
    using assms(1) by (metis mset_eq_setD mset_map)
  then have "map_of (map pending_of cs) = map_of (map pending_of cs')"
    using d d' by (intro map_of_inject_set [THEN iffD2]) (simp_all add: comp_def pending_of_def)
  moreover have "set cs = set cs'" using assms(1) by (rule mset_eq_setD)
  ultimately have "add_chunks (writer_new s) cs' = Inr w"
    using assms(2) d' unfolding eq by simp
  then show ?thesis by simp
qed

theorem snapshot_order_independent_witness:
  "add_chunks (writer_new sample_shape) (rev sample_chunks) = Inr sample_writer"
  using snapshot_order_independent [OF _ sample_add_chunks, of "rev sample_chunks"] by simp

text \<open>
  C3: A restore reads what the save wrote: after parsing the image of a writer,
  loading a path fails as an unknown path when nothing was saved there, fails
  when the saved class is another one, and otherwise runs the migrations from
  the saved version to the requested one on exactly the saved bytes.
\<close>

theorem restore_loads_saved_chunk:
  assumes "writer_valid w" "reader_new (to_vec w) = Inr r"
  shows "reader_load r path class version migs =
     (case bmap_get (w_chunks w) path of
        None \<Rightarrow> Inl (state_error (NoChunk path))
      | Some c \<Rightarrow>
          if p_class c \<noteq> class then Inl (state_error (WrongClass path class (p_class c)))
          else rbind (upgrade migs class (p_version c) version (p_data c)) (\<lambda>bytes.
            Inr \<lparr>l_path = path, l_class = class, l_stored_version = p_version c,
                 l_version = version, l_data = bytes\<rparr>))"
proof -
  have "r = \<lparr>r_codec = w_codec w, r_integrity = w_integrity w,
     r_shape = w_shape w, r_chunks = map raw_of (w_chunks w)\<rparr>"
    using assms reader_new_to_vec by simp
  moreover have "bmap_wf (w_chunks w)" using assms(1) by (simp add: writer_valid_def writer_wf_def)
  ultimately show ?thesis
    by (auto simp: reader_load_def raw_of_lookup raw_of_def split: option.split)
qed

theorem restore_loads_saved_chunk_witness:
  "reader_load (projr (reader_new (to_vec sample_writer))) [0x62] [0x78] 2 [] =
     Inr \<lparr>l_path = [0x62], l_class = [0x78], l_stored_version = 2, l_version = 2, l_data = [7, 8]\<rparr>"
  using restore_loads_saved_chunk [OF sample_writer_valid reader_new_to_vec [OF sample_writer_valid],
      of "[0x62]" "[0x78]" 2 "[]"]
  by (simp add: reader_new_to_vec [OF sample_writer_valid])
    (simp add: sample_writer_def bmap_get_def upgrade_def)

text \<open>
  C4: \<open>check_shape\<close> lets a restore proceed exactly when the machine has the very
  shape the snapshot was taken from; for an image parsed from untrusted bytes
  and a machine whose shape was built by the \<open>add\<close> operations.
\<close>

theorem check_shape_iff:
  assumes "length bytes \<le> usize_max" "reader_new bytes = Inr r" "shape_wf machine"
  shows "check_shape r machine = Inr () \<longleftrightarrow> r_shape r = machine"
  using reader_new_dec(1) [OF assms(1,2)] shape_diff_empty_iff [of "r_shape r" machine] assms(3)
  by (simp add: check_shape_def Let_def valid_shape_def)

theorem check_shape_iff_witness:
  "check_shape (projr (reader_new (to_vec sample_writer))) shape_new \<noteq> Inr ()"
  using check_shape_iff [OF _ reader_new_to_vec [OF sample_writer_valid] shape_wf_new] sample_writer_valid
  by (simp add: reader_new_to_vec [OF sample_writer_valid] writer_valid_def)
    (simp add: sample_writer_def sample_shape_eq shape_new_def)

text \<open>
  The parser accepts an image the writer refuses to produce: there are bytes
  that parse, whose only chunk has the empty path, and adding that chunk to a
  writer is an error. This is the one gap in the canonical form above.
\<close>

theorem reader_accepts_empty_path:
  "\<exists>bytes r. reader_new bytes = Inr r
     \<and> add_chunks (writer_new (r_shape r)) (r_chunks r) = Inl (state_error EmptyChunkPath)"
proof -
  let ?c = "\<lparr>c_path = [], c_class = [], c_version = 0, c_data = []\<rparr>"
  let ?bytes = "enc_snapshot CODEC_STORED INTEGRITY_NONE shape_new [?c]"
  have "length ?bytes \<le> usize_max"
    by (simp add: enc_snapshot_def enc_header_def MAGIC_def enc_chunks_def enc_raw_def enc_shape_def
        shape_new_def enc_counted_def usize_max_def)
  then have "reader_new ?bytes = Inr \<lparr>r_codec = CODEC_STORED, r_integrity = INTEGRITY_NONE,
      r_shape = shape_new, r_chunks = [?c]\<rparr>"
    unfolding reader_new_def
    by (intro from_source_enc)
      (auto simp: source_wf_slice valid_shape_def shape_wf_new valid_raw_def valid_str_def
        valid_bytes_def utf8_valid.simps [of "[]"], auto simp: shape_new_def)
  moreover have "add_chunks (writer_new shape_new) [?c] = Inl (state_error EmptyChunkPath)"
    by (simp add: writer_raw_chunk_eq writer_new_def bmap_get_def)
  ultimately show ?thesis by (metis state_reader.select_convs(3,4))
qed

section \<open>Migrations\<close>

lemma upgrade_loop_compose:
  assumes "v \<le> u" "u \<le> t"
  shows "upgrade_loop m c f v t d = Inr d'' \<longleftrightarrow>
     (\<exists>d'. upgrade_loop m c f1 v u d = Inr d' \<and> upgrade_loop m c f2 u t d' = Inr d'')"
  using assms
proof (induction m c f v t d rule: upgrade_loop.induct)
  case (1 m c f v t d)
  have free: "upgrade_loop m c f v t d = Inr x \<longleftrightarrow> upgrade_loop m c g v t d = Inr x" for f g v t d x
  proof (induction m c f v t d rule: upgrade_loop.induct)
    case (1 m c f v t d)
    show ?case
      by (subst (1 2) upgrade_loop.simps) (auto simp: rbind_eq_Inr "1.IH" split: option.split)
  qed
  show ?case
  proof (cases "v < u")
    case False
    with "1.prems" have "v = u" by simp
    then show ?thesis
      by (simp add: upgrade_loop.simps [of m c f1 u u] free [of f])
  next
    case True
    with "1.prems" have vt: "v < t" by simp
    have vu: "v + 1 \<le> u" using True by (simp add: inc_le)
    show ?thesis
      using "1.IH" [OF vt] vu "1.prems"(2) True vt
      by (subst upgrade_loop.simps, subst upgrade_loop.simps [of m c f1 v u])
        (auto simp: rbind_eq_Inr split: option.split)
  qed
qed

lemma upgrade_eq_loop:
  "f \<le> t \<Longrightarrow> upgrade m c f t d = upgrade_loop m c f f t d"
  by (auto simp: upgrade_def upgrade_loop.simps [of m c t t t])

text \<open>
  Upgrading a chunk goes version by version with nothing skipped: for every
  version between the saved and the requested one, the upgrade succeeds with a
  result exactly when it can be split there, upgrading to that version first and
  from there on the bytes this produced.
\<close>

theorem upgrade_compose:
  assumes "f \<le> v" "v \<le> t"
  shows "upgrade m c f t d = Inr d'' \<longleftrightarrow>
     (\<exists>d'. upgrade m c f v d = Inr d' \<and> upgrade m c v t d' = Inr d'')"
  using assms upgrade_loop_compose [of f v t m c f d d'' f v]
  by (simp add: upgrade_eq_loop order_trans [of f v t])

definition sample_migrations :: migrations where
  "sample_migrations = [([0x78], [(1, \<lambda>src sink. Inr [1]), (2, \<lambda>src sink. Inr (src_data src @ [2]))])]"

theorem upgrade_compose_witness:
  "upgrade sample_migrations [0x78] 1 3 [] = Inr [1, 2]"
proof -
  have "upgrade sample_migrations [0x78] 1 2 [] = Inr [1]"
    "upgrade sample_migrations [0x78] 2 3 [1] = Inr [1, 2]"
    by (simp_all add: upgrade_def upgrade_loop.simps mig_step_def sample_migrations_def bmap_get_def
        slice_new_def)
  then show ?thesis
    using upgrade_compose [of 1 2 3 sample_migrations "[0x78]" "[]" "[1, 2]"] by simp
qed

end
