(* ===== verification/Core_Rand.thy ===== *)
theory Core_Rand
  imports State_Codec
begin

text \<open>
  The deterministic random stream of \<open>core/rand.rs\<close>: SplitMix64 with a position
  that is saved in snapshots, and the seed a device instance derives from the
  board's seed and its own path.
\<close>

unbundle bit_operations_syntax

section \<open>The generator\<close>

definition GAMMA :: u64 where "GAMMA = 0x9e3779b97f4a7c15"
definition FNV_OFFSET :: u64 where "FNV_OFFSET = 0xcbf29ce484222325"
definition FNV_PRIME :: u64 where "FNV_PRIME = 0x100000001b3"

definition mix :: "u64 \<Rightarrow> u64" where
  "mix z0 =
     (let z1 = (z0 XOR drop_bit 30 z0) * 0xbf58476d1ce4e5b9;
          z2 = (z1 XOR drop_bit 27 z1) * 0x94d049bb133111eb
      in z2 XOR drop_bit 31 z2)"

definition derive_seed :: "u64 \<Rightarrow> u8 list \<Rightarrow> u64" where
  "derive_seed seed path =
     mix (seed XOR foldl (\<lambda>hash byte. (hash XOR ucast byte) * FNV_PRIME) FNV_OFFSET path)"

record stream =
  rs_seed :: u64
  rs_state :: u64

definition stream_new :: "u64 \<Rightarrow> stream" where
  "stream_new seed = \<lparr>rs_seed = seed, rs_state = seed\<rparr>"

definition stream_rewind :: "stream \<Rightarrow> stream" where
  "stream_rewind s = s\<lparr>rs_state := rs_seed s\<rparr>"

definition next_u64 :: "stream \<Rightarrow> u64 \<times> stream" where
  "next_u64 s = (let st = rs_state s + GAMMA in (mix st, s\<lparr>rs_state := st\<rparr>))"

definition next_u32 :: "stream \<Rightarrow> u32 \<times> stream" where
  "next_u32 s = (let (w, s') = next_u64 s in (ucast w, s'))"

text \<open>\<open>fill\<close>: one draw per started piece of eight bytes.\<close>

function stream_fill :: "stream \<Rightarrow> nat \<Rightarrow> u8 list \<times> stream" where
  "stream_fill s n =
     (if n = 0 then ([], s)
      else
        let (w, s') = next_u64 s; (bs, s'') = stream_fill s' (n - min 8 n)
        in (take (min 8 n) (to_le_bytes w) @ bs, s''))"
  by pat_completeness auto
termination
  by (relation "measure snd") auto

declare stream_fill.simps [simp del]

definition stream_save :: "stream \<Rightarrow> u8 list \<Rightarrow> u8 list" where
  "stream_save s w = write_u64 w (rs_state s)"

definition stream_load :: "stream \<Rightarrow> source \<Rightarrow> (stream \<times> source) snap" where
  "stream_load s r = rbind (read_u64 r) (\<lambda>(v, r'). Inr (s\<lparr>rs_state := v\<rparr>, r'))"

section \<open>The mix loses nothing\<close>

lemma xor_shift_inj:
  assumes "0 < k" "x XOR drop_bit k x = y XOR drop_bit k (y :: u64)"
  shows "x = y"
proof -
  have step: "bit x i = bit y i" if "\<And>j. i < j \<Longrightarrow> bit x j = bit y j" for i
  proof -
    have "bit (x XOR drop_bit k x) i = bit (y XOR drop_bit k y) i" using assms(2) by simp
    moreover have "bit x (k + i) = bit y (k + i)" using that [of "k + i"] assms(1) by simp
    ultimately show ?thesis by (auto simp: bit_xor_iff bit_drop_bit_eq)
  qed
  have "bit x i = bit y i" for i
  proof (induction "64 - i" arbitrary: i rule: less_induct)
    case less
    show ?case
    proof (cases "i < 64")
      case True
      have "bit x j = bit y j" if "i < j" for j using less.hyps [of j] that True by simp
      then show ?thesis by (rule step)
    next
      case False
      then show ?thesis using bit_imp_le_length [of x i] bit_imp_le_length [of y i] by auto
    qed
  qed
  then show ?thesis by (simp add: bit_eq_iff)
qed

lemma mult_unit_inj: "c * d = 1 \<Longrightarrow> x * c = y * c \<Longrightarrow> x = (y :: 'a::comm_monoid_mult)"
  by (metis mult.assoc mult_1_right)

lemma mix_inj: "mix x = mix y \<Longrightarrow> x = y"
proof -
  have 1: "(0xbf58476d1ce4e5b9 :: u64) * 0x96de1b173f119089 = 1"
    and 2: "(0x94d049bb133111eb :: u64) * 0x319642b2d24d8ec3 = 1" by simp_all
  show "mix x = mix y \<Longrightarrow> x = y"
    unfolding mix_def Let_def
    by (drule xor_shift_inj [rotated], simp, drule mult_unit_inj [OF 2], drule xor_shift_inj [rotated], simp,
        drule mult_unit_inj [OF 1], drule xor_shift_inj [rotated], simp, assumption)
qed

section \<open>Draws\<close>

text \<open>The stream after \<open>n\<close> draws and the value of the draw that follows.\<close>

fun after_draws :: "stream \<Rightarrow> nat \<Rightarrow> stream" where
  "after_draws s 0 = s"
| "after_draws s (Suc n) = snd (next_u64 (after_draws s n))"

definition draw :: "stream \<Rightarrow> nat \<Rightarrow> u64" where
  "draw s n = fst (next_u64 (after_draws s n))"

lemma after_draws_state: "rs_state (after_draws s n) = rs_state s + of_nat n * GAMMA"
  by (induction n) (simp_all add: next_u64_def Let_def algebra_simps)

lemma after_draws_add: "after_draws s (m + n) = after_draws (after_draws s m) n"
  by (induction n) simp_all

text \<open>
  A stream does not repeat: any two of its first \<open>2^64\<close> draws are different,
  so the position is the whole state and the period is maximal.
\<close>

theorem draws_distinct:
  assumes "i < 2 ^ 64" "j < 2 ^ 64" "draw s i = draw s j"
  shows "i = j"
proof -
  have "rs_state s + of_nat i * GAMMA + GAMMA = rs_state s + of_nat j * GAMMA + GAMMA"
    by (rule mix_inj) (use assms(3) in \<open>simp add: draw_def next_u64_def Let_def after_draws_state\<close>)
  then have "of_nat i * GAMMA = (of_nat j * GAMMA :: u64)" by simp
  moreover have "GAMMA * 0xf1de83e19937733d = 1" by (simp add: GAMMA_def)
  ultimately have "(of_nat i :: u64) = of_nat j" using mult_unit_inj by blast
  then show ?thesis using assms(1,2) by (simp add: of_nat_inverse word_of_nat_eq_iff take_bit_nat_eq_self)
qed

theorem draws_distinct_witness: "draw (stream_new 1) 0 \<noteq> draw (stream_new 1) 7"
  using draws_distinct [of 0 7 "stream_new 1"] by auto

text \<open>
  Two seeds never collapse: whatever the instance path, different board
  seeds give a device different seeds.
\<close>

theorem derive_seed_injective: "derive_seed a path = derive_seed b path \<longleftrightarrow> a = b"
proof
  define h where "h = foldl (\<lambda>hash byte. (hash XOR ucast byte) * FNV_PRIME) FNV_OFFSET path"
  assume "derive_seed a path = derive_seed b path"
  then have "mix (a XOR h) = mix (b XOR h)" unfolding derive_seed_def h_def .
  then have "a XOR h = b XOR h" by (rule mix_inj)
  then have "(a XOR h) XOR h = (b XOR h) XOR h" by simp
  then show "a = b" by (simp add: xor.assoc)
qed simp

section \<open>Filling and resuming\<close>

lemma stream_fill_0 [simp]: "stream_fill s 0 = ([], s)"
  by (simp add: stream_fill.simps)

lemma stream_fill_8: "stream_fill s (8 + n) =
    (to_le_bytes (fst (next_u64 s)) @ fst (stream_fill (snd (next_u64 s)) n), snd (stream_fill (snd (next_u64 s)) n))"
  by (subst stream_fill.simps) (simp add: split_beta)

text \<open>
  A guest that reads random bytes in several goes sees one stream: filling
  whole words and then more gives the same bytes, and leaves the stream at the
  same place, as filling everything at once; and a stream restored from a
  snapshot taken in between continues with exactly the bytes the original would
  have produced.
\<close>

theorem fill_resumes:
  "let (bs, s') = stream_fill s (8 * k);
       r = stream_load (stream_new (rs_seed s)) (slice_new (stream_save s' []))
   in \<exists>src. r = Inr (s', src) \<and> stream_fill s (8 * k + m) = (bs @ fst (stream_fill s' m), snd (stream_fill s' m))"
proof -
  have fill: "stream_fill s (8 * k + m) =
      (fst (stream_fill s (8 * k)) @ fst (stream_fill (snd (stream_fill s (8 * k))) m),
       snd (stream_fill (snd (stream_fill s (8 * k))) m))"
  proof (induction k arbitrary: s)
    case (Suc k)
    have "8 * Suc k + m = 8 + (8 * k + m)" "8 * Suc k = 8 + 8 * k" by simp_all
    then show ?case using Suc [of "snd (next_u64 s)"] by (simp only: stream_fill_8 fst_conv snd_conv append_assoc)
  qed simp
  have seed: "rs_seed (snd (stream_fill s n)) = rs_seed s" for s n
  proof (induction s n rule: stream_fill.induct)
    case (1 s n)
    then show ?case by (subst stream_fill.simps) (simp add: split_beta next_u64_def Let_def)
  qed
  have load: "\<exists>src. stream_load (stream_new (rs_seed s)) (slice_new (stream_save s' [])) = Inr (s', src)"
    if "rs_seed s' = rs_seed s" for s'
    using that read_int_enc [of "slice_new (to_le_bytes (rs_state s'))" "rs_state s'" "[]"]
    by (cases s') (simp add: stream_load_def stream_save_def stream_new_def write_u64_def read_u64_def write_int_def
        source_wf_def unread_def slice_new_def write_all_def usize_max_def)
  from load [OF seed [of s "8 * k"]] fill show ?thesis by (simp add: split_beta)
qed

end
