(* ===== verification/Machine_Rational.thy ===== *)
theory Machine_Rational
  imports Rsemu_Prelude Complex_Main "HOL-Library.Signed_Division"
begin

text \<open>
  Exact rational arithmetic, \<open>machine/rational.rs\<close>. An \<open>i128\<close> is an integer
  with the range written out: a checked operation is \<open>None\<close> when its result
  leaves the range. The abstract value of a \<open>Rational\<close> is a number of type
  \<open>rat\<close>.
\<close>

section \<open>Checked 128-bit integers\<close>

definition i128_min :: int where "i128_min = - (2 ^ 127)"
definition i128_max :: int where "i128_max = 2 ^ 127 - 1"

definition in_i128 :: "int \<Rightarrow> bool" where
  "in_i128 x \<longleftrightarrow> i128_min \<le> x \<and> x \<le> i128_max"

definition to_i128 :: "int \<Rightarrow> int option" where
  "to_i128 x = (if in_i128 x then Some x else None)"

section \<open>Rationals\<close>

record rational =
  q_num :: int
  q_den :: int

text \<open>\<open>gcd\<close>: Euclid's loop.\<close>

function gcd_loop :: "nat \<Rightarrow> nat \<Rightarrow> nat" where
  "gcd_loop a b = (if b \<noteq> 0 then gcd_loop b (a mod b) else a)"
  by pat_completeness auto
termination
  by (relation "measure snd") auto

declare gcd_loop.simps [simp del]

definition rational_zero :: rational where
  "rational_zero = \<lparr>q_num = 0, q_den = 1\<rparr>"

definition rational_new :: "int \<Rightarrow> int \<Rightarrow> rational option" where
  "rational_new num den =
     (if den = 0 \<or> num = i128_min \<or> den = i128_min then None
      else
        let (num, den) = (if den < 0 then (- num, - den) else (num, den));
            g = gcd_loop (nat \<bar>num\<bar>) (nat \<bar>den\<bar>)
        in Option.bind (if g = 0 then Some 1 else to_i128 (int g)) (\<lambda>g.
             Some \<lparr>q_num = num sdiv g, q_den = den sdiv g\<rparr>))"

definition rational_from_int :: "int \<Rightarrow> rational" where
  "rational_from_int n = \<lparr>q_num = n, q_den = 1\<rparr>"

definition rational_is_integer :: "rational \<Rightarrow> bool" where
  "rational_is_integer q \<longleftrightarrow> q_den q = 1"

definition rational_to_integer :: "rational \<Rightarrow> int option" where
  "rational_to_integer q = (if q_den q = 1 then Some (q_num q) else None)"

definition rational_add :: "rational \<Rightarrow> rational \<Rightarrow> rational option" where
  "rational_add a b =
     Option.bind (to_i128 (q_num a * q_den b)) (\<lambda>l.
     Option.bind (to_i128 (q_num b * q_den a)) (\<lambda>r.
     Option.bind (to_i128 (l + r)) (\<lambda>num.
     Option.bind (to_i128 (q_den a * q_den b)) (\<lambda>den. rational_new num den))))"

definition rational_sub :: "rational \<Rightarrow> rational \<Rightarrow> rational option" where
  "rational_sub a b =
     Option.bind (to_i128 (q_num a * q_den b)) (\<lambda>l.
     Option.bind (to_i128 (q_num b * q_den a)) (\<lambda>r.
     Option.bind (to_i128 (l - r)) (\<lambda>num.
     Option.bind (to_i128 (q_den a * q_den b)) (\<lambda>den. rational_new num den))))"

definition rational_mul :: "rational \<Rightarrow> rational \<Rightarrow> rational option" where
  "rational_mul a b =
     Option.bind (to_i128 (q_num a * q_num b)) (\<lambda>num.
     Option.bind (to_i128 (q_den a * q_den b)) (\<lambda>den. rational_new num den))"

definition rational_div :: "rational \<Rightarrow> rational \<Rightarrow> rational option" where
  "rational_div a b =
     (if q_num b = 0 then None
      else Option.bind (to_i128 (q_num a * q_den b)) (\<lambda>num.
           Option.bind (to_i128 (q_den a * q_num b)) (\<lambda>den. rational_new num den)))"

definition rational_neg :: "rational \<Rightarrow> rational option" where
  "rational_neg a = Option.bind (to_i128 (- q_num a)) (\<lambda>num. rational_new num (q_den a))"

section \<open>Reduction\<close>

text \<open>Lowest terms over a positive denominator, both in range.\<close>

definition rational_wf :: "rational \<Rightarrow> bool" where
  "rational_wf q \<longleftrightarrow> 0 < q_den q \<and> coprime (q_num q) (q_den q) \<and> in_i128 (q_num q) \<and> in_i128 (q_den q)"

definition rat_of :: "rational \<Rightarrow> rat" where
  "rat_of q = of_int (q_num q) / of_int (q_den q)"

lemma gcd_loop_eq: "gcd_loop a b = gcd a b"
proof (induction a b rule: gcd_loop.induct)
  case (1 a b)
  then show ?case by (subst gcd_loop.simps) (simp add: gcd_red_nat [symmetric])
qed

lemma sdiv_exact: "0 < g \<Longrightarrow> g dvd x \<Longrightarrow> x sdiv g = x div (g :: int)"
  by (cases "0 \<le> x") (auto simp: signed_divide_int_def sgn_if zero_le_mult_iff dvd_neg_div elim!: dvdE)

text \<open>
  The constructor is total on its domain: it refuses only a zero denominator and
  the most negative integer, whose sign cannot be changed, and otherwise gives
  the quotient in lowest terms.
\<close>

lemma rational_new_correct:
  assumes "in_i128 num" "in_i128 den"
  shows "rational_new num den = None \<longleftrightarrow> den = 0 \<or> num = i128_min \<or> den = i128_min"
    and "rational_new num den = Some q \<Longrightarrow> rational_wf q \<and> rat_of q = of_int num / of_int den"
proof -
  define n d where "n = (if den < 0 then - num else num)" and "d = \<bar>den\<bar>"
  define g where "g = gcd n d"
  have g: "int (gcd_loop (nat \<bar>n\<bar>) (nat \<bar>d\<bar>)) = g"
    unfolding gcd_loop_eq g_def gcd_int_def ..
  have ok: "rational_new num den = Some \<lparr>q_num = n div g, q_den = d div g\<rparr> \<and> 0 < d \<and> in_i128 n \<and> in_i128 d"
    if "\<not> (den = 0 \<or> num = i128_min \<or> den = i128_min)"
  proof -
    have d: "0 < d" using that by (simp add: d_def)
    then have pos: "0 < g" by (simp add: g_def)
    have r: "in_i128 n" "in_i128 d" using that assms by (auto simp: n_def d_def in_i128_def i128_min_def i128_max_def)
    have "g \<le> d" using d by (simp add: g_def zdvd_imp_le)
    with pos r(2) have "to_i128 g = Some g" by (simp add: to_i128_def in_i128_def i128_min_def)
    moreover have "gcd_loop (nat \<bar>n\<bar>) (nat \<bar>d\<bar>) \<noteq> 0" using g pos by auto
    moreover have "(if den < 0 then (- num, - den) else (num, den)) = (n, d)" by (simp add: n_def d_def)
    moreover have "n sdiv g = n div g" "d sdiv g = d div g" using pos by (simp_all add: sdiv_exact g_def)
    ultimately show ?thesis using that d r g by (simp add: rational_new_def Let_def)
  qed
  then show "rational_new num den = None \<longleftrightarrow> den = 0 \<or> num = i128_min \<or> den = i128_min"
    by (auto simp: rational_new_def)
  assume q: "rational_new num den = Some q"
  then have "\<not> (den = 0 \<or> num = i128_min \<or> den = i128_min)" by (auto simp: rational_new_def)
  from ok [OF this] q have q: "q = \<lparr>q_num = n div g, q_den = d div g\<rparr>" and d: "0 < d" "in_i128 n" "in_i128 d" by auto
  have pos: "0 < g" using d(1) by (simp add: g_def)
  have cop: "coprime (n div g) (d div g)" using d(1) unfolding g_def by (intro div_gcd_coprime) simp
  obtain k l where kl: "n = g * k" "d = g * l" by (metis g_def gcd_dvd1 gcd_dvd2 dvdE)
  have div: "n div g = k" "d div g = l" using kl pos by simp_all
  have l: "0 < l" using d(1) kl(2) pos by (simp add: zero_less_mult_iff)
  have "\<bar>k\<bar> \<le> \<bar>n\<bar>" "\<bar>l\<bar> \<le> \<bar>d\<bar>" using kl pos by (auto simp: abs_mult intro: mult_le_cancel_right1 [THEN iffD2])
  moreover have "n \<noteq> i128_min" using \<open>\<not> (den = 0 \<or> num = i128_min \<or> den = i128_min)\<close> assms(1)
    by (auto simp: n_def in_i128_def i128_min_def i128_max_def)
  ultimately have "in_i128 k" "in_i128 l" using d l by (auto simp: in_i128_def i128_min_def i128_max_def)
  moreover have "of_int k / of_int l = (of_int num / of_int den :: rat)"
  proof -
    have "of_int n / of_int d = (of_int num / of_int den :: rat)" by (simp add: n_def d_def)
    then show ?thesis using pos by (simp add: kl)
  qed
  ultimately show "rational_wf q \<and> rat_of q = of_int num / of_int den"
    using cop l by (simp add: q div rational_wf_def rat_of_def)
qed

lemma to_i128_eq_Some: "to_i128 x = Some y \<longleftrightarrow> y = x \<and> in_i128 x"
  by (auto simp: to_i128_def)

lemma rat_den: "rational_wf a \<Longrightarrow> (of_int (q_den a) :: rat) \<noteq> 0"
  by (auto simp: rational_wf_def)

lemma in_i128_num: "rational_wf a \<Longrightarrow> in_i128 (q_num a) \<and> in_i128 (q_den a)"
  by (simp add: rational_wf_def)

text \<open>
  The arithmetic is exact or refuses: when an operation on rationals in
  lowest terms returns a value, that value is in lowest terms with a positive
  denominator and is exactly the sum, difference, product, quotient or negation;
  no result is ever rounded or wrapped, and nothing is divided by zero.
\<close>

theorem rational_exact:
  assumes "rational_wf a" "rational_wf b"
  shows "(\<forall>c. rational_add a b = Some c \<longrightarrow> rational_wf c \<and> rat_of c = rat_of a + rat_of b)
    \<and> (\<forall>c. rational_sub a b = Some c \<longrightarrow> rational_wf c \<and> rat_of c = rat_of a - rat_of b)
    \<and> (\<forall>c. rational_mul a b = Some c \<longrightarrow> rational_wf c \<and> rat_of c = rat_of a * rat_of b)
    \<and> (\<forall>c. rational_div a b = Some c \<longrightarrow> rat_of b \<noteq> 0 \<and> rational_wf c \<and> rat_of c = rat_of a / rat_of b)
    \<and> (\<forall>c. rational_neg a = Some c \<longrightarrow> rational_wf c \<and> rat_of c = - rat_of a)"
proof (intro conjI allI impI)
  note new = rational_new_correct(2) and D = rat_den [OF assms(1)] rat_den [OF assms(2)]
  fix c
  show "rational_wf c" "rat_of c = rat_of a + rat_of b" if "rational_add a b = Some c"
    using that new D by (auto simp: rational_add_def bind_eq_Some_conv to_i128_eq_Some rat_of_def add_divide_distrib)
  show "rational_wf c" "rat_of c = rat_of a - rat_of b" if "rational_sub a b = Some c"
    using that new D by (auto simp: rational_sub_def bind_eq_Some_conv to_i128_eq_Some rat_of_def diff_divide_distrib)
  show "rational_wf c" "rat_of c = rat_of a * rat_of b" if "rational_mul a b = Some c"
    using that new D by (auto simp: rational_mul_def bind_eq_Some_conv to_i128_eq_Some rat_of_def)
  show "rat_of b \<noteq> 0" "rational_wf c" "rat_of c = rat_of a / rat_of b" if "rational_div a b = Some c"
    using that new D by (auto simp: rational_div_def bind_eq_Some_conv to_i128_eq_Some rat_of_def split: if_splits)
  show "rational_wf c" "rat_of c = - rat_of a" if "rational_neg a = Some c"
    using that new D in_i128_num [OF assms(1)]
    by (auto simp: rational_neg_def bind_eq_Some_conv to_i128_eq_Some rat_of_def)
qed

theorem rational_exact_witness:
  "rational_add \<lparr>q_num = 1, q_den = 6\<rparr> \<lparr>q_num = 1, q_den = 3\<rparr> = Some \<lparr>q_num = 1, q_den = 2\<rparr>
    \<and> rat_of \<lparr>q_num = 1, q_den = 2\<rparr> = rat_of \<lparr>q_num = 1, q_den = 6\<rparr> + rat_of \<lparr>q_num = 1, q_den = 3\<rparr>"
proof -
  have e: "rational_add \<lparr>q_num = 1, q_den = 6\<rparr> \<lparr>q_num = 1, q_den = 3\<rparr> = Some \<lparr>q_num = 1, q_den = 2\<rparr>"
    by (simp add: rational_add_def to_i128_def in_i128_def i128_min_def i128_max_def rational_new_def
        gcd_loop.simps signed_divide_int_def)
  have "rational_wf \<lparr>q_num = 1, q_den = 6\<rparr>" "rational_wf \<lparr>q_num = 1, q_den = 3\<rparr>"
    by (simp_all add: rational_wf_def in_i128_def i128_min_def i128_max_def)
  from rational_exact [OF this] e show ?thesis by blast
qed

text \<open>
  Equality of the representation is equality of numbers: two rationals in
  lowest terms are the same record exactly when they have the same value, so the
  derived comparison of the code is the numeric one.
\<close>

theorem rational_canonical:
  assumes "rational_wf a" "rational_wf b"
  shows "a = b \<longleftrightarrow> rat_of a = rat_of b"
proof
  assume "rat_of a = rat_of b"
  then have "(of_int (q_num a * q_den b) :: rat) = of_int (q_num b * q_den a)"
    using rat_den [OF assms(1)] rat_den [OF assms(2)] by (simp add: rat_of_def field_simps)
  then have "q_num a * q_den b = q_num b * q_den a" unfolding of_int_eq_iff .
  then have e: "q_den b * q_num a = q_den a * q_num b" by (simp add: mult.commute)
  have "q_den b dvd q_den a * q_num b" by (rule dvdI [OF e [symmetric]])
  moreover have "q_den a dvd q_den b * q_num a" by (rule dvdI [OF e])
  ultimately have "q_den b dvd q_den a" "q_den a dvd q_den b"
    using assms by (auto simp: rational_wf_def coprime_commute coprime_dvd_mult_left_iff)
  then have "q_den a = q_den b" using assms by (simp add: rational_wf_def zdvd_antisym_nonneg)
  moreover from this e have "q_num a = q_num b" using assms by (simp add: rational_wf_def)
  ultimately show "a = b" by (cases a; cases b) simp
qed simp

theorem rational_canonical_witness:
  "(\<lparr>q_num = 1, q_den = 2\<rparr> = \<lparr>q_num = 1, q_den = 3\<rparr>) =
    (rat_of \<lparr>q_num = 1, q_den = 2\<rparr> = rat_of \<lparr>q_num = 1, q_den = 3\<rparr>)"
  by (rule rational_canonical) (simp_all add: rational_wf_def in_i128_def i128_min_def i128_max_def)

end
