(* ===== verification/Ir_Op.thy ===== *)
theory Ir_Op
  imports Core_Value
begin

text \<open>
  The vocabulary of the intermediate representation, \<open>ir/types.rs\<close> and
  \<open>ir/op.rs\<close>: types of temporaries, immediates, opcodes with their numbering
  and classification, comparisons, and the descriptor of a memory access.

  \<open>Opcode\<close> is a newtype over \<open>u16\<close> with named constants, and so it is here: a
  number no constant names is an opcode too. \<open>u32\<close> fields that only hold
  indices and small widths are natural numbers; the casts that can lose bits
  are \<open>as_u32\<close> and \<open>as_u16\<close>.
\<close>

definition as_u32 :: "nat \<Rightarrow> nat" where "as_u32 n = n mod 2 ^ 32"
definition as_u16 :: "nat \<Rightarrow> nat" where "as_u16 n = n mod 2 ^ 16"

lemma as_u32_id [simp]: "n < 2 ^ 32 \<Longrightarrow> as_u32 n = n"
  by (simp add: as_u32_def)

section \<open>Types and immediates (\<open>ir/types.rs\<close>)\<close>

datatype ir_type = I1 | I32 | I64 | I128 | F32 | F64 | V128

fun ty_bits :: "ir_type \<Rightarrow> nat" where
  "ty_bits I1 = 1"
| "ty_bits I32 = 32"
| "ty_bits F32 = 32"
| "ty_bits I64 = 64"
| "ty_bits F64 = 64"
| "ty_bits I128 = 128"
| "ty_bits V128 = 128"

definition is_int :: "ir_type \<Rightarrow> bool" where
  "is_int t \<longleftrightarrow> t \<in> {I1, I32, I64, I128}"

definition is_float :: "ir_type \<Rightarrow> bool" where
  "is_float t \<longleftrightarrow> t \<in> {F32, F64}"

lemma ty_bits_pos [simp]: "0 < ty_bits t"
  by (cases t) auto

lemma ty_bits_le [simp]: "ty_bits t \<le> 128"
  by (cases t) auto

type_synonym temp = nat
type_synonym reg_slot = nat

datatype const = ConstInt u128 | F32Bits u32 | F64Bits u64

fun const_bits :: "const \<Rightarrow> u128" where
  "const_bits (ConstInt v) = v"
| "const_bits (F32Bits v) = ucast v"
| "const_bits (F64Bits v) = ucast v"

section \<open>Opcodes (\<open>ir/op.rs\<close>)\<close>

datatype opcode = Opcode (opcode_num: nat)

definition OP_MOV :: opcode where "OP_MOV = Opcode 0x01"
definition OP_EXT_S :: opcode where "OP_EXT_S = Opcode 0x02"
definition OP_EXT_Z :: opcode where "OP_EXT_Z = Opcode 0x03"
definition OP_TRUNC :: opcode where "OP_TRUNC = Opcode 0x04"
definition OP_BSWAP :: opcode where "OP_BSWAP = Opcode 0x05"
definition OP_DEPOSIT :: opcode where "OP_DEPOSIT = Opcode 0x06"
definition OP_EXTRACT :: opcode where "OP_EXTRACT = Opcode 0x07"
definition OP_GET_SLOT :: opcode where "OP_GET_SLOT = Opcode 0x08"
definition OP_ADD :: opcode where "OP_ADD = Opcode 0x10"
definition OP_SUB :: opcode where "OP_SUB = Opcode 0x11"
definition OP_MUL :: opcode where "OP_MUL = Opcode 0x12"
definition OP_DIV_S :: opcode where "OP_DIV_S = Opcode 0x13"
definition OP_DIV_U :: opcode where "OP_DIV_U = Opcode 0x14"
definition OP_REM_S :: opcode where "OP_REM_S = Opcode 0x15"
definition OP_REM_U :: opcode where "OP_REM_U = Opcode 0x16"
definition OP_NEG :: opcode where "OP_NEG = Opcode 0x17"
definition OP_ADDC :: opcode where "OP_ADDC = Opcode 0x18"
definition OP_SUBB :: opcode where "OP_SUBB = Opcode 0x19"
definition OP_MULU2 :: opcode where "OP_MULU2 = Opcode 0x1a"
definition OP_MULS2 :: opcode where "OP_MULS2 = Opcode 0x1b"
definition OP_MULHSU :: opcode where "OP_MULHSU = Opcode 0x1c"
definition OP_AND :: opcode where "OP_AND = Opcode 0x20"
definition OP_OR :: opcode where "OP_OR = Opcode 0x21"
definition OP_XOR :: opcode where "OP_XOR = Opcode 0x22"
definition OP_NOT :: opcode where "OP_NOT = Opcode 0x23"
definition OP_ANDC :: opcode where "OP_ANDC = Opcode 0x24"
definition OP_SHL :: opcode where "OP_SHL = Opcode 0x25"
definition OP_SHR :: opcode where "OP_SHR = Opcode 0x26"
definition OP_SAR :: opcode where "OP_SAR = Opcode 0x27"
definition OP_ROTL :: opcode where "OP_ROTL = Opcode 0x28"
definition OP_ROTR :: opcode where "OP_ROTR = Opcode 0x29"
definition OP_ROTLC :: opcode where "OP_ROTLC = Opcode 0x2a"
definition OP_ROTRC :: opcode where "OP_ROTRC = Opcode 0x2b"
definition OP_CLZ :: opcode where "OP_CLZ = Opcode 0x30"
definition OP_CTZ :: opcode where "OP_CTZ = Opcode 0x31"
definition OP_POPCOUNT :: opcode where "OP_POPCOUNT = Opcode 0x32"
definition OP_SETCOND :: opcode where "OP_SETCOND = Opcode 0x38"
definition OP_MOVCOND :: opcode where "OP_MOVCOND = Opcode 0x39"
definition OP_BRCOND :: opcode where "OP_BRCOND = Opcode 0x3a"
definition OP_LD :: opcode where "OP_LD = Opcode 0x40"
definition OP_ST :: opcode where "OP_ST = Opcode 0x41"
definition OP_CMPXCHG :: opcode where "OP_CMPXCHG = Opcode 0x48"
definition OP_XCHG :: opcode where "OP_XCHG = Opcode 0x49"
definition OP_FETCH_ADD :: opcode where "OP_FETCH_ADD = Opcode 0x4a"
definition OP_FETCH_AND :: opcode where "OP_FETCH_AND = Opcode 0x4b"
definition OP_FETCH_OR :: opcode where "OP_FETCH_OR = Opcode 0x4c"
definition OP_FETCH_XOR :: opcode where "OP_FETCH_XOR = Opcode 0x4d"
definition OP_FETCH_SMIN :: opcode where "OP_FETCH_SMIN = Opcode 0x4e"
definition OP_FETCH_SMAX :: opcode where "OP_FETCH_SMAX = Opcode 0x4f"
definition OP_FETCH_UMIN :: opcode where "OP_FETCH_UMIN = Opcode 0x50"
definition OP_FETCH_UMAX :: opcode where "OP_FETCH_UMAX = Opcode 0x51"
definition OP_FENCE :: opcode where "OP_FENCE = Opcode 0x52"
definition OP_LD_EXCL :: opcode where "OP_LD_EXCL = Opcode 0x53"
definition OP_ST_EXCL :: opcode where "OP_ST_EXCL = Opcode 0x54"
definition OP_GOTO_TB :: opcode where "OP_GOTO_TB = Opcode 0x60"
definition OP_EXIT_TB :: opcode where "OP_EXIT_TB = Opcode 0x61"
definition OP_LOOKUP_AND_GOTO :: opcode where "OP_LOOKUP_AND_GOTO = Opcode 0x62"
definition OP_CALL_HELPER :: opcode where "OP_CALL_HELPER = Opcode 0x63"
definition OP_CHARGE :: opcode where "OP_CHARGE = Opcode 0x64"
definition OP_INSN_START :: opcode where "OP_INSN_START = Opcode 0x65"
definition OP_PHI :: opcode where "OP_PHI = Opcode 0x70"

lemmas opcode_defs [simp] =
  OP_MOV_def OP_EXT_S_def OP_EXT_Z_def OP_TRUNC_def OP_BSWAP_def OP_DEPOSIT_def OP_EXTRACT_def
  OP_GET_SLOT_def OP_ADD_def OP_SUB_def OP_MUL_def OP_DIV_S_def OP_DIV_U_def OP_REM_S_def
  OP_REM_U_def OP_NEG_def OP_ADDC_def OP_SUBB_def OP_MULU2_def OP_MULS2_def OP_MULHSU_def
  OP_AND_def OP_OR_def OP_XOR_def OP_NOT_def OP_ANDC_def OP_SHL_def OP_SHR_def OP_SAR_def
  OP_ROTL_def OP_ROTR_def OP_ROTLC_def OP_ROTRC_def OP_CLZ_def OP_CTZ_def OP_POPCOUNT_def
  OP_SETCOND_def OP_MOVCOND_def OP_BRCOND_def OP_LD_def OP_ST_def OP_CMPXCHG_def OP_XCHG_def
  OP_FETCH_ADD_def OP_FETCH_AND_def OP_FETCH_OR_def OP_FETCH_XOR_def OP_FETCH_SMIN_def
  OP_FETCH_SMAX_def OP_FETCH_UMIN_def OP_FETCH_UMAX_def OP_FENCE_def OP_LD_EXCL_def
  OP_ST_EXCL_def OP_GOTO_TB_def OP_EXIT_TB_def OP_LOOKUP_AND_GOTO_def OP_CALL_HELPER_def
  OP_CHARGE_def OP_INSN_START_def OP_PHI_def

definition opcode_names :: "(opcode \<times> string) list" where
  "opcode_names = [
     (OP_MOV, ''mov''), (OP_EXT_S, ''ext_s''), (OP_EXT_Z, ''ext_z''), (OP_TRUNC, ''trunc''),
     (OP_BSWAP, ''bswap''), (OP_DEPOSIT, ''deposit''), (OP_EXTRACT, ''extract''),
     (OP_GET_SLOT, ''get_slot''), (OP_ADD, ''add''), (OP_SUB, ''sub''), (OP_MUL, ''mul''),
     (OP_DIV_S, ''div_s''), (OP_DIV_U, ''div_u''), (OP_REM_S, ''rem_s''),
     (OP_REM_U, ''rem_u''), (OP_NEG, ''neg''), (OP_ADDC, ''addc''), (OP_SUBB, ''subb''),
     (OP_MULU2, ''mulu2''), (OP_MULS2, ''muls2''), (OP_MULHSU, ''mulhsu''), (OP_AND, ''and''),
     (OP_OR, ''or''), (OP_XOR, ''xor''), (OP_NOT, ''not''), (OP_ANDC, ''andc''),
     (OP_SHL, ''shl''), (OP_SHR, ''shr''), (OP_SAR, ''sar''), (OP_ROTL, ''rotl''),
     (OP_ROTR, ''rotr''), (OP_ROTLC, ''rotlc''), (OP_ROTRC, ''rotrc''), (OP_CLZ, ''clz''),
     (OP_CTZ, ''ctz''), (OP_POPCOUNT, ''popcount''), (OP_SETCOND, ''setcond''),
     (OP_MOVCOND, ''movcond''), (OP_BRCOND, ''brcond''), (OP_LD, ''ld''), (OP_ST, ''st''),
     (OP_CMPXCHG, ''cmpxchg''), (OP_XCHG, ''xchg''), (OP_FETCH_ADD, ''fetch_add''),
     (OP_FETCH_AND, ''fetch_and''), (OP_FETCH_OR, ''fetch_or''), (OP_FETCH_XOR, ''fetch_xor''),
     (OP_FETCH_SMIN, ''fetch_smin''), (OP_FETCH_SMAX, ''fetch_smax''),
     (OP_FETCH_UMIN, ''fetch_umin''), (OP_FETCH_UMAX, ''fetch_umax''), (OP_FENCE, ''fence''),
     (OP_LD_EXCL, ''ld_excl''), (OP_ST_EXCL, ''st_excl''), (OP_GOTO_TB, ''goto_tb''),
     (OP_EXIT_TB, ''exit_tb''), (OP_LOOKUP_AND_GOTO, ''lookup_and_goto''),
     (OP_CALL_HELPER, ''call_helper''), (OP_CHARGE, ''charge''),
     (OP_INSN_START, ''insn_start''), (OP_PHI, ''phi'')]"

definition opcode_name :: "opcode \<Rightarrow> string" where
  "opcode_name p = (case map_of opcode_names p of Some n \<Rightarrow> n | None \<Rightarrow> ''unknown'')"

definition is_terminator :: "opcode \<Rightarrow> bool" where
  "is_terminator p \<longleftrightarrow> p = OP_GOTO_TB \<or> p = OP_EXIT_TB \<or> p = OP_LOOKUP_AND_GOTO"

definition in_fetch_range :: "opcode \<Rightarrow> bool" where
  "in_fetch_range p \<longleftrightarrow>
     opcode_num OP_FETCH_ADD \<le> opcode_num p \<and> opcode_num p \<le> opcode_num OP_FETCH_UMAX"

definition has_side_effect :: "opcode \<Rightarrow> bool" where
  "has_side_effect p \<longleftrightarrow>
     p \<in> {OP_ST, OP_CMPXCHG, OP_XCHG, OP_FENCE, OP_ST_EXCL, OP_LD_EXCL, OP_CALL_HELPER,
          OP_CHARGE, OP_INSN_START} \<or> in_fetch_range p"

definition bitfield_aux :: "nat \<Rightarrow> nat \<Rightarrow> nat" where
  "bitfield_aux fpos flen = (fpos AND 0xffff) OR push_bit 16 (flen AND 0xffff)"

definition bitfield_parts :: "nat \<Rightarrow> nat \<times> nat" where
  "bitfield_parts a = (a AND 0xffff, drop_bit 16 a AND 0xffff)"

section \<open>Comparisons and memory descriptors\<close>

datatype cond = CEq | CNe | CLtS | CLeS | CGtS | CGeS | CLtU | CLeU | CGtU | CGeU

fun cond_invert :: "cond \<Rightarrow> cond" where
  "cond_invert CEq = CNe"
| "cond_invert CNe = CEq"
| "cond_invert CLtS = CGeS"
| "cond_invert CGeS = CLtS"
| "cond_invert CLeS = CGtS"
| "cond_invert CGtS = CLeS"
| "cond_invert CLtU = CGeU"
| "cond_invert CGeU = CLtU"
| "cond_invert CLeU = CGtU"
| "cond_invert CGtU = CLeU"

datatype sign = Unsigned | Signed

type_synonym mem_space = u8
type_synonym seg_id = u8

definition MEM_SPACE :: mem_space where "MEM_SPACE = 0"
definition IO_SPACE :: mem_space where "IO_SPACE = 1"

datatype ir_endian = ELittle | EBig | AsRegion
datatype align = AlignNone | AlignFault | AlignSplit | AlignRotate
datatype access_kind = Fetch | Load | Store

record mem_op =
  m_size :: width
  m_sign :: sign
  m_space :: mem_space
  m_seg :: "seg_id option"
  m_endian :: ir_endian
  m_align :: align
  m_kind :: access_kind
  m_volatile :: bool

definition mem_load :: "width \<Rightarrow> mem_op" where
  "mem_load sz = \<lparr>m_size = sz, m_sign = Unsigned, m_space = MEM_SPACE, m_seg = None,
     m_endian = ELittle, m_align = AlignNone, m_kind = Load, m_volatile = False\<rparr>"

definition mem_store :: "width \<Rightarrow> mem_op" where
  "mem_store sz = (mem_load sz)\<lparr>m_kind := Store\<rparr>"

section \<open>The numbering\<close>

lemma opcode_eq_iff: "p = q \<longleftrightarrow> opcode_num p = opcode_num q"
  by (cases p; cases q) simp

lemma opcode_names_distinct: "distinct (map fst opcode_names)" "distinct (map snd opcode_names)"
  by (simp_all add: opcode_names_def)

text \<open>The range test covers the \<open>FETCH_*\<close> constants and nothing else.\<close>

lemma in_fetch_range_iff:
  "in_fetch_range p \<longleftrightarrow> p \<in> {OP_FETCH_ADD, OP_FETCH_AND, OP_FETCH_OR, OP_FETCH_XOR,
    OP_FETCH_SMIN, OP_FETCH_SMAX, OP_FETCH_UMIN, OP_FETCH_UMAX}"
proof -
  have "74 \<le> n \<and> n \<le> 81 \<longleftrightarrow> n \<in> {74, 75, 76, 77, 78, 79, 80, 81}" for n :: nat by auto
  then show ?thesis by (simp add: in_fetch_range_def opcode_eq_iff)
qed

lemma terminator_no_side_effect: "is_terminator p \<Longrightarrow> \<not> has_side_effect p"
  by (auto simp: is_terminator_def has_side_effect_def in_fetch_range_def)

lemma cond_invert_invert [simp]: "cond_invert (cond_invert c) = c"
  by (cases c) simp_all

lemma bitfield_parts_aux:
  "bitfield_parts (bitfield_aux p l) = (p mod 2 ^ 16, l mod 2 ^ 16)"
proof -
  have m: "(0xffff :: nat) = mask 16" by (simp add: mask_eq_exp_minus_1)
  have "take_bit 16 (take_bit 16 p OR push_bit 16 (take_bit 16 l)) = take_bit 16 p"
    "take_bit 16 (drop_bit 16 (take_bit 16 p OR push_bit 16 (take_bit 16 l))) = take_bit 16 l"
    by (rule bit_eqI; auto simp: bit_simps)+
  then show ?thesis
    by (simp add: bitfield_parts_def bitfield_aux_def m flip: take_bit_eq_mask)
      (simp add: take_bit_eq_mod)
qed

end
