(* ===== verification/Ir_Block.thy ===== *)
theory Ir_Block
  imports Ir_Op
begin

text \<open>
  Translation blocks, \<open>ir/block.rs\<close>: instructions whose source operands are
  windows into one flat array, guest instruction boundaries, the builder a
  frontend drives, and the two operations that rebuild a block from some of its
  instructions (\<open>retain\<close>) or from an order of them (\<open>reorder\<close>), re-packing the
  windows and repointing branches. The \<open>Display\<close> dump is not modelled.
\<close>

section \<open>Data\<close>

record insn_start =
  is_pc :: u64
  is_next_pc :: u64
  is_ticks :: u64
  is_live :: "(reg_slot \<times> temp) list"

record inst =
  i_op :: opcode
  i_ty :: ir_type
  i_dst :: "temp option"
  i_dst2 :: "temp option"
  i_imm :: "const option"
  i_mem :: "mem_op option"
  i_cond :: "cond option"
  i_aux :: nat
  i_src_start :: nat
  i_src_len :: nat

record block =
  b_entry_pc :: u64
  b_key :: u64
  b_insts :: "inst list"
  b_operands :: "temp list"
  b_marks :: "insn_start list"
  b_types :: "ir_type list"

definition srcs :: "block \<Rightarrow> nat \<Rightarrow> temp list" where
  "srcs b i = take (i_src_len (b_insts b ! i)) (drop (i_src_start (b_insts b ! i)) (b_operands b))"

definition type_of :: "block \<Rightarrow> temp \<Rightarrow> ir_type option" where
  "type_of b t = nth_opt (b_types b) t"

definition temp_count :: "block \<Rightarrow> nat" where
  "temp_count b = length (b_types b)"

text \<open>The destinations of an instruction, \<open>[dst, dst2].into_iter().flatten()\<close>.\<close>

definition dsts :: "inst \<Rightarrow> temp list" where
  "dsts x = (case i_dst x of None \<Rightarrow> [] | Some d \<Rightarrow> [d]) @ (case i_dst2 x of None \<Rightarrow> [] | Some d \<Rightarrow> [d])"

section \<open>Rebuilding a block\<close>

text \<open>
  The body both rebuilding loops share: append the operands of instruction
  \<open>old\<close> and then the instruction itself, its window moved to where they went
  and, for a branch, its target mapped by \<open>repoint\<close>.
\<close>

definition pack_inst :: "block \<Rightarrow> (nat \<Rightarrow> nat) \<Rightarrow> block \<Rightarrow> nat \<Rightarrow> block" where
  "pack_inst b repoint out old =
     (let x = b_insts b ! old in
      out\<lparr>b_operands := b_operands out @ srcs b old,
          b_insts := b_insts out @
            [x\<lparr>i_src_start := as_u32 (length (b_operands out)),
               i_aux := (if i_op x = OP_BRCOND then repoint (i_aux x) else i_aux x)\<rparr>]\<rparr>)"

definition empty_copy :: "block \<Rightarrow> block" where
  "empty_copy b = b\<lparr>b_insts := [], b_operands := []\<rparr>"

definition alive :: "bool list \<Rightarrow> nat \<Rightarrow> bool" where
  "alive keep i = (case nth_opt keep i of Some k \<Rightarrow> k | None \<Rightarrow> True)"

definition moved_table :: "(nat \<Rightarrow> bool) \<Rightarrow> nat \<Rightarrow> nat list \<times> nat" where
  "moved_table live n =
     foldl (\<lambda>(moved, kept) i. (moved @ [kept], if i < n \<and> live i then as_u32 (kept + 1) else kept))
       ([], 0) [0..<Suc n]"

definition retain :: "block \<Rightarrow> bool list \<Rightarrow> block" where
  "retain b keep =
     (let n = length (b_insts b);
          (moved, kept) = moved_table (alive keep) n;
          repoint = (\<lambda>a. case nth_opt moved a of Some m \<Rightarrow> m | None \<Rightarrow> kept)
      in foldl (\<lambda>out i. if alive keep i then pack_inst b repoint out i else out)
           (empty_copy b) [0..<n])"

definition placed_at :: "nat \<Rightarrow> nat list \<Rightarrow> nat list" where
  "placed_at n order =
     foldl (\<lambda>at (new, old). if old < n then at[old := new] else at)
       (replicate n n) (enumerate 0 order)"

definition reorder :: "block \<Rightarrow> nat list \<Rightarrow> block" where
  "reorder b order =
     (let n = length (b_insts b);
          at = placed_at n order;
          repoint = (\<lambda>a. as_u32 (case nth_opt at a of Some m \<Rightarrow> m | None \<Rightarrow> n))
      in foldl (\<lambda>out old. if old < n then pack_inst b repoint out old else out)
           (empty_copy b) order)"

section \<open>The builder\<close>

definition bb_new :: "u64 \<Rightarrow> u64 \<Rightarrow> block" where
  "bb_new entry_pc key = \<lparr>b_entry_pc = entry_pc, b_key = key, b_insts = [], b_operands = [],
     b_marks = [], b_types = []\<rparr>"

definition bb_temp :: "block \<Rightarrow> ir_type \<Rightarrow> temp \<times> block" where
  "bb_temp b ty = (as_u32 (length (b_types b)), b\<lparr>b_types := b_types b @ [ty]\<rparr>)"

definition bb_push ::
  "block \<Rightarrow> opcode \<Rightarrow> ir_type \<Rightarrow> temp option \<Rightarrow> temp option \<Rightarrow> temp list \<Rightarrow> const option \<Rightarrow>
   cond option \<Rightarrow> nat \<Rightarrow> nat \<times> block" where
  "bb_push b p ty d d2 ss im cn ax =
     (let x = \<lparr>i_op = p, i_ty = ty, i_dst = d, i_dst2 = d2, i_imm = im, i_mem = None, i_cond = cn,
               i_aux = ax, i_src_start = as_u32 (length (b_operands b)), i_src_len = as_u32 (length ss)\<rparr>;
          b' = b\<lparr>b_operands := b_operands b @ ss, b_insts := b_insts b @ [x]\<rparr>
      in (length (b_insts b') - 1, b'))"

definition bb_emit :: "block \<Rightarrow> opcode \<Rightarrow> ir_type \<Rightarrow> temp list \<Rightarrow> temp \<times> block" where
  "bb_emit b p ty ss =
     (let (d, b1) = bb_temp b ty; (_, b2) = bb_push b1 p ty (Some d) None ss None None 0 in (d, b2))"

definition bb_emit_void :: "block \<Rightarrow> opcode \<Rightarrow> ir_type \<Rightarrow> temp list \<Rightarrow> block" where
  "bb_emit_void b p ty ss = snd (bb_push b p ty None None ss None None 0)"

definition bb_imm :: "block \<Rightarrow> ir_type \<Rightarrow> const \<Rightarrow> temp \<times> block" where
  "bb_imm b ty v =
     (let (d, b1) = bb_temp b ty; (_, b2) = bb_push b1 OP_MOV ty (Some d) None [] (Some v) None 0
      in (d, b2))"

definition bb_binary :: "block \<Rightarrow> opcode \<Rightarrow> ir_type \<Rightarrow> temp \<Rightarrow> temp \<Rightarrow> temp \<times> block" where
  "bb_binary b p ty x y = bb_emit b p ty [x, y]"

definition bb_unary :: "block \<Rightarrow> opcode \<Rightarrow> ir_type \<Rightarrow> temp \<Rightarrow> temp \<times> block" where
  "bb_unary b p ty x = bb_emit b p ty [x]"

definition bb_addc :: "block \<Rightarrow> opcode \<Rightarrow> ir_type \<Rightarrow> temp \<Rightarrow> temp \<Rightarrow> temp \<Rightarrow> (temp \<times> temp) \<times> block" where
  "bb_addc b p ty x y c =
     (let (d, b1) = bb_temp b ty; (co, b2) = bb_temp b1 I1;
          (_, b3) = bb_push b2 p ty (Some d) (Some co) [x, y, c] None None 0
      in ((d, co), b3))"

definition bb_setcond :: "block \<Rightarrow> cond \<Rightarrow> ir_type \<Rightarrow> temp \<Rightarrow> temp \<Rightarrow> temp \<times> block" where
  "bb_setcond b cn ty x y =
     (let (d, b1) = bb_temp b I1;
          (_, b2) = bb_push b1 OP_SETCOND ty (Some d) None [x, y] None (Some cn) 0
      in (d, b2))"

definition bb_set_mem :: "block \<Rightarrow> nat \<Rightarrow> mem_op \<Rightarrow> block" where
  "bb_set_mem b i m = b\<lparr>b_insts := (b_insts b)[i := (b_insts b ! i)\<lparr>i_mem := Some m\<rparr>]\<rparr>"

definition bb_load :: "block \<Rightarrow> ir_type \<Rightarrow> temp \<Rightarrow> mem_op \<Rightarrow> temp \<times> block" where
  "bb_load b ty addr m =
     (let (d, b1) = bb_temp b ty; (i, b2) = bb_push b1 OP_LD ty (Some d) None [addr] None None 0
      in (d, bb_set_mem b2 i m))"

definition bb_store :: "block \<Rightarrow> ir_type \<Rightarrow> temp \<Rightarrow> temp \<Rightarrow> mem_op \<Rightarrow> block" where
  "bb_store b ty addr v m =
     (let (i, b1) = bb_push b OP_ST ty None None [addr, v] None None 0 in bb_set_mem b1 i m)"

definition bb_get_slot :: "block \<Rightarrow> ir_type \<Rightarrow> reg_slot \<Rightarrow> temp \<times> block" where
  "bb_get_slot b ty slot =
     (let (d, b1) = bb_temp b ty; (_, b2) = bb_push b1 OP_GET_SLOT ty (Some d) None [] None None slot
      in (d, b2))"

definition bb_charge :: "block \<Rightarrow> u64 \<Rightarrow> block" where
  "bb_charge b ticks =
     snd (bb_push b OP_CHARGE I64 None None [] (Some (ConstInt (ucast ticks))) None 0)"

definition bb_insn_start :: "block \<Rightarrow> insn_start \<Rightarrow> block" where
  "bb_insn_start b mark =
     (let index = as_u32 (length (b_marks b)) in
      snd (bb_push (b\<lparr>b_marks := b_marks b @ [mark]\<rparr>) OP_INSN_START I64 None None [] None None index))"

definition bb_exit_tb :: "block \<Rightarrow> block" where
  "bb_exit_tb b = snd (bb_push b OP_EXIT_TB I64 None None [] None None 0)"

definition bb_emit_raw ::
  "block \<Rightarrow> opcode \<Rightarrow> ir_type \<Rightarrow> temp option \<Rightarrow> temp option \<Rightarrow> temp list \<Rightarrow> const option \<Rightarrow>
   cond option \<Rightarrow> nat \<Rightarrow> nat \<times> block" where
  "bb_emit_raw b p ty d d2 ss im cn ax = bb_push b p ty d d2 ss im cn ax"

definition bb_patch_aux :: "block \<Rightarrow> nat \<Rightarrow> nat \<Rightarrow> block" where
  "bb_patch_aux b i ax = b\<lparr>b_insts := (b_insts b)[i := (b_insts b ! i)\<lparr>i_aux := ax\<rparr>]\<rparr>"

definition bb_next_index :: "block \<Rightarrow> nat" where
  "bb_next_index b = length (b_insts b)"

section \<open>The window invariant\<close>

text \<open>
  The windows tile the operand array in instruction order, so \<open>srcs\<close> never
  slices out of range, and the array is short enough for its indices to be
  \<open>u32\<close>.
\<close>

fun tiled :: "nat \<Rightarrow> inst list \<Rightarrow> nat \<Rightarrow> bool" where
  "tiled s [] n \<longleftrightarrow> s = n"
| "tiled s (x # xs) n \<longleftrightarrow> i_src_start x = s \<and> tiled (s + i_src_len x) xs n"

definition block_wf :: "block \<Rightarrow> bool" where
  "block_wf b \<longleftrightarrow> length (b_operands b) < 2 ^ 32 \<and> tiled 0 (b_insts b) (length (b_operands b))"

definition src_total :: "inst list \<Rightarrow> nat" where
  "src_total xs = sum_list (map i_src_len xs)"

lemma tiled_append: "tiled s (xs @ ys) n \<longleftrightarrow> tiled s xs (s + src_total xs) \<and> tiled (s + src_total xs) ys n"
  by (induction xs arbitrary: s) (simp_all add: src_total_def add.assoc)

lemma tiled_total: "tiled s xs n \<Longrightarrow> n = s + src_total xs"
  by (induction xs arbitrary: s) (fastforce simp: src_total_def)+

lemma tiled_nth:
  assumes "tiled s xs n" "i < length xs"
  shows "i_src_start (xs ! i) = s + src_total (take i xs)"
    and "i_src_start (xs ! i) + i_src_len (xs ! i) \<le> n"
proof -
  have xs: "xs = take i xs @ xs ! i # drop (Suc i) xs" using assms(2) by (simp add: id_take_nth_drop)
  then have "tiled s (take i xs @ xs ! i # drop (Suc i) xs) n" using assms(1) by metis
  then have t: "tiled (s + src_total (take i xs)) (xs ! i # drop (Suc i) xs) n"
    unfolding tiled_append by blast
  then show "i_src_start (xs ! i) = s + src_total (take i xs)" by simp
  from tiled_total [OF t] show "i_src_start (xs ! i) + i_src_len (xs ! i) \<le> n"
    using t by (simp add: src_total_def)
qed

lemma tiled_update:
  assumes "i_src_start x = i_src_start (xs ! i)" "i_src_len x = i_src_len (xs ! i)"
  shows "tiled s (xs[i := x]) n \<longleftrightarrow> tiled s xs n"
  using assms by (induction xs arbitrary: s i) (auto split: nat.split)

lemma src_window:
  assumes "block_wf b" "i < length (b_insts b)"
  shows "i_src_start (b_insts b ! i) + i_src_len (b_insts b ! i) \<le> length (b_operands b)"
  using tiled_nth(2) assms by (auto simp: block_wf_def)

lemma length_srcs: "block_wf b \<Longrightarrow> i < length (b_insts b) \<Longrightarrow> length (srcs b i) = i_src_len (b_insts b ! i)"
  using src_window [of b i] by (simp add: srcs_def)

subsection \<open>The builder keeps it\<close>

lemma block_wf_new [wf_intros]: "block_wf (bb_new e k)"
  by (simp add: block_wf_def bb_new_def)

lemma block_wf_push [wf_intros]:
  assumes "block_wf b" "length (b_operands b) + length ss < 2 ^ 32"
  shows "block_wf (snd (bb_push b p ty d d2 ss im cn ax))"
  using assms tiled_total [of 0 "b_insts b" "length (b_operands b)"]
  by (auto simp: block_wf_def bb_push_def Let_def tiled_append)

text \<open>What \<open>push\<close> appends can be read back, and nothing already there changes.\<close>

lemma srcs_push:
  assumes "block_wf b" "length (b_operands b) + length ss < 2 ^ 32"
  shows "srcs (snd (bb_push b p ty d d2 ss im cn ax)) (length (b_insts b)) = ss"
    and "i < length (b_insts b) \<Longrightarrow> srcs (snd (bb_push b p ty d d2 ss im cn ax)) i = srcs b i"
  using assms src_window [OF assms(1), of i]
  by (simp_all add: srcs_def bb_push_def Let_def nth_append)

subsection \<open>Packing instructions into a new block\<close>

text \<open>
  The rebuilding loops run \<open>pack_inst\<close> over a list of old indices. When the
  operands of those instructions fit, the result holds exactly those
  instructions, each with its own operands.
\<close>

definition packed_inst :: "block \<Rightarrow> (nat \<Rightarrow> nat) \<Rightarrow> nat list \<Rightarrow> nat \<Rightarrow> inst" where
  "packed_inst b f order k =
     (let x = b_insts b ! (order ! k) in
      x\<lparr>i_src_start := length (concat (map (srcs b) (take k order))),
        i_aux := (if i_op x = OP_BRCOND then f (i_aux x) else i_aux x)\<rparr>)"

lemma pack_foldl:
  assumes "length (concat (map (srcs b) order)) < 2 ^ 32"
  shows "foldl (pack_inst b f) (empty_copy b) order =
     b\<lparr>b_insts := map (packed_inst b f order) [0..<length order],
       b_operands := concat (map (srcs b) order)\<rparr>"
  using assms
proof (induction order rule: rev_induct)
  case Nil
  then show ?case by (simp add: empty_copy_def)
next
  case (snoc old order)
  have "map (packed_inst b f order) [0..<length order] = map (packed_inst b f (order @ [old])) [0..<length order]"
    by (simp add: packed_inst_def nth_append)
  with snoc show ?case
    by (simp add: pack_inst_def Let_def packed_inst_def)
qed

lemma srcs_pack:
  assumes "block_wf b" "length (concat (map (srcs b) order)) < 2 ^ 32"
    and "k < length order" "\<And>i. i \<in> set order \<Longrightarrow> i < length (b_insts b)"
  shows "srcs (foldl (pack_inst b f) (empty_copy b) order) k = srcs b (order ! k)"
proof -
  have "concat (map (srcs b) order) = concat (map (srcs b) (take k order))
      @ srcs b (order ! k) @ concat (map (srcs b) (drop (Suc k) order))"
    using assms(3) by (metis append.assoc concat.simps(2) concat_append id_take_nth_drop list.simps(9) map_append)
  moreover have "i_src_len (b_insts b ! (order ! k)) = length (srcs b (order ! k))"
    using assms by (simp add: length_srcs)
  ultimately show ?thesis
    using assms(3) by (simp add: pack_foldl [OF assms(2)] srcs_def [of "b\<lparr>b_insts := _, b_operands := _\<rparr>"]
        packed_inst_def Let_def)
qed

lemma concat_srcs:
  assumes "block_wf b"
  shows "concat (map (srcs b) [0..<length (b_insts b)]) = b_operands b"
proof -
  have "concat (map (srcs b) [0..<n]) = take (src_total (take n (b_insts b))) (b_operands b)"
    if "n \<le> length (b_insts b)" for n
    using that
  proof (induction n)
    case (Suc n)
    then have st: "i_src_start (b_insts b ! n) = src_total (take n (b_insts b))"
      using tiled_nth(1) [of 0 "b_insts b" "length (b_operands b)" n] assms by (simp add: block_wf_def)
    have "src_total (take (Suc n) (b_insts b)) = src_total (take n (b_insts b)) + i_src_len (b_insts b ! n)"
      using Suc.prems by (simp add: src_total_def take_Suc_conv_app_nth)
    with Suc st show ?case by (simp add: srcs_def take_add)
  qed (simp add: src_total_def)
  from this [of "length (b_insts b)"] show ?thesis
    using assms tiled_total by (fastforce simp: block_wf_def)
qed

section \<open>Retaining and reordering\<close>

lemma moved_table_eq:
  assumes "n < 2 ^ 32"
  shows "moved_table live n = (map (count_below live) [0..<Suc n], count_below live n)"
proof -
  let ?f = "\<lambda>(moved, kept) i. (moved @ [kept], if i < n \<and> live i then as_u32 (kept + 1) else kept)"
  have "foldl ?f ([], 0) [0..<k] = (map (count_below live) [0..<k], count_below live (min k n))"
    if "k \<le> Suc n" for k
    using that
  proof (induction k)
    case (Suc k)
    have "count_below live k \<le> k" by (simp add: count_below_def) (metis length_filter_le length_upt minus_nat.diff_0)
    then have "as_u32 (count_below live k + 1) = count_below live k + 1" if "k < n"
      using that assms by simp
    with Suc show ?case
      by (cases "k < n") (auto simp: min_def le_Suc_eq)
  qed simp
  from this [of "Suc n"] show ?thesis by (simp add: moved_table_def)
qed

definition kept_order :: "bool list \<Rightarrow> nat \<Rightarrow> nat list" where
  "kept_order keep n = filter (alive keep) [0..<n]"

lemma foldl_filter: "foldl (\<lambda>s x. if P x then f s x else s) s xs = foldl f s (filter P xs)"
  by (induction xs arbitrary: s) simp_all

lemma length_concat_filter_le:
  "length (concat (map f (filter P xs))) \<le> length (concat (map f xs))"
  by (induction xs) simp_all

lemma retain_eq_pack:
  assumes "length (b_insts b) < 2 ^ 32"
  shows "retain b keep = foldl (pack_inst b (\<lambda>a. if a \<le> length (b_insts b) then count_below (alive keep) a
      else count_below (alive keep) (length (b_insts b)))) (empty_copy b) (kept_order keep (length (b_insts b)))"
proof -
  have "(case nth_opt (map (count_below (alive keep)) [0..<Suc n]) a of Some m \<Rightarrow> m | None \<Rightarrow> count_below (alive keep) n)
     = (if a \<le> n then count_below (alive keep) a else count_below (alive keep) n)" for a n
    by (auto simp: nth_opt_def simp del: upt_Suc)
  then show ?thesis
    by (simp add: retain_def moved_table_eq [OF assms] kept_order_def foldl_filter Let_def del: upt_Suc)
qed

lemma retain_fits:
  assumes "block_wf b"
  shows "length (concat (map (srcs b) (kept_order keep (length (b_insts b))))) < 2 ^ 32"
  using length_concat_filter_le [of "srcs b" "alive keep" "[0..<length (b_insts b)]"] concat_srcs [OF assms] assms
  by (simp add: kept_order_def block_wf_def)

lemma pack_wf:
  assumes "block_wf b" "length (concat (map (srcs b) order)) < 2 ^ 32"
    and "\<And>i. i \<in> set order \<Longrightarrow> i < length (b_insts b)"
  shows "block_wf (foldl (pack_inst b f) (empty_copy b) order)"
  using assms(2,3)
proof (induction order rule: rev_induct)
  case Nil
  then show ?case by (simp add: empty_copy_def block_wf_def)
next
  case (snoc old order)
  let ?out = "foldl (pack_inst b f) (empty_copy b) order"
  have ops: "b_operands ?out = concat (map (srcs b) order)"
    using snoc.prems by (simp add: pack_foldl)
  have "block_wf ?out" using snoc by simp
  then have t: "tiled 0 (b_insts ?out) (length (b_operands ?out))" by (simp add: block_wf_def)
  have "i_src_len (b_insts b ! old) = length (srcs b old)"
    using length_srcs [OF assms(1)] snoc.prems by simp
  then show ?case
    using t tiled_total [OF t] snoc.prems
    by (simp add: pack_inst_def [of b f ?out old] Let_def block_wf_def tiled_append ops)
qed

text \<open>
  The shape of \<open>retain\<close>'s result: the kept instructions in order, operands and
  all, branches repointed, everything else of the block unchanged.
\<close>

lemma retain_insts:
  assumes "block_wf b" "length (b_insts b) < 2 ^ 32"
  shows "length (b_insts (retain b keep)) = count_below (alive keep) (length (b_insts b))"
    and "b_marks (retain b keep) = b_marks b" "b_types (retain b keep) = b_types b"
    and "b_entry_pc (retain b keep) = b_entry_pc b"
    and "block_wf (retain b keep)"
proof -
  show "block_wf (retain b keep)"
    using pack_wf [OF assms(1) retain_fits [OF assms(1)]]
    by (simp add: retain_eq_pack [OF assms(2)] kept_order_def)
qed (unfold retain_eq_pack [OF assms(2)] pack_foldl [OF retain_fits [OF assms(1)]],
    simp_all add: kept_order_def count_below_def)

lemma retain_nth:
  assumes "block_wf b" "length (b_insts b) < 2 ^ 32" "i < length (b_insts b)" "alive keep i"
  defines "k \<equiv> count_below (alive keep) i"
  shows "srcs (retain b keep) k = srcs b i"
    and "\<exists>st. b_insts (retain b keep) ! k = (b_insts b ! i)\<lparr>i_src_start := st,
       i_aux := (if i_op (b_insts b ! i) = OP_BRCOND
         then (if i_aux (b_insts b ! i) \<le> length (b_insts b)
               then count_below (alive keep) (i_aux (b_insts b ! i))
               else count_below (alive keep) (length (b_insts b)))
         else i_aux (b_insts b ! i))\<rparr>"
proof -
  let ?o = "kept_order keep (length (b_insts b))"
  have k: "k < length ?o" "?o ! k = i"
    using assms count_below_lt_length [of i] filter_upt_nth [of i]
    by (simp_all add: k_def kept_order_def)
  have o: "j < length (b_insts b)" if "j \<in> set ?o" for j using that by (simp add: kept_order_def)
  show "srcs (retain b keep) k = srcs b i"
    using srcs_pack [OF assms(1) retain_fits [OF assms(1)] k(1) o] k(2)
    by (simp add: retain_eq_pack [OF assms(2)])
  show "\<exists>st. b_insts (retain b keep) ! k = (b_insts b ! i)\<lparr>i_src_start := st,
       i_aux := (if i_op (b_insts b ! i) = OP_BRCOND
         then (if i_aux (b_insts b ! i) \<le> length (b_insts b)
               then count_below (alive keep) (i_aux (b_insts b ! i))
               else count_below (alive keep) (length (b_insts b)))
         else i_aux (b_insts b ! i))\<rparr>"
    using k by (auto simp: retain_eq_pack [OF assms(2)] pack_foldl [OF retain_fits [OF assms(1)]]
        packed_inst_def Let_def)
qed

end
