(* ===== verification/Ir_Verify.thy ===== *)
theory Ir_Verify
  imports Ir_Block
begin

text \<open>
  The verifier, \<open>ir/verify.rs\<close>, as the one pass over a block that it is, and
  the characterisation of what it accepts: SSA in program order, forward
  branches inside the block, boundary records that exist and whose live
  temporaries are assigned, one-bit carries, and a terminator at the end. The
  messages of \<open>Error::Ir\<close>, here and in the interpreter, are the datatypes below.
\<close>

section \<open>Messages\<close>

datatype verify_what =
    UsedBeforeAssigned temp | NeverAllocated temp | AssignedTwice temp
  | BranchBackward | BranchOutside | MissingMemOp | UnexpectedMemOp
  | NoRecord | TicksBackwards | LiveUnassigned temp
  | ChargeBeforeStart | ChargeNoTicks | SlotReadNoValue | SlotReadOperand
  | NoCondition | NoCarryIn | NoCarryOut
  | ExpectedNone ir_type | ExpectedGot temp ir_type ir_type | ExpectedUnallocated temp

datatype ir_what =
    TooFewOperands | OperandUnallocated | ResultUnallocated | SourceUnallocated
  | MovNeedsSource | LaneAbsurd | LaneWidth | BitfieldOutside | NonInteger | DivideByZero
  | CarryOutMissing | HighHalfMissing | NeedsCondition | MovcondShape | BrcondShape
  | NeedsMemOp | NeedsDestination | GotoNeedsPc | ChargeNeedsTicks | BadMark
  | TargetOutside | AtomicType

datatype ir_msg =
    VerifyAt nat opcode verify_what
  | NoTerminator u64
  | EmptyBlock u64
  | IrAt nat opcode ir_what
  | NotTerminated u64 nat
  | RanOffEnd u64
  | HostMessage string

section \<open>The verifier\<close>

fun check_srcs :: "bool list \<Rightarrow> temp list \<Rightarrow> verify_what + unit" where
  "check_srcs defined [] = Inr ()"
| "check_srcs defined (t # ts) =
     (case nth_opt defined t of
        Some True \<Rightarrow> check_srcs defined ts
      | Some False \<Rightarrow> Inl (UsedBeforeAssigned t)
      | None \<Rightarrow> Inl (NeverAllocated t))"

fun check_dsts :: "bool list \<Rightarrow> temp list \<Rightarrow> verify_what + bool list" where
  "check_dsts defined [] = Inr defined"
| "check_dsts defined (t # ts) =
     (case nth_opt defined t of
        None \<Rightarrow> Inl (NeverAllocated t)
      | Some True \<Rightarrow> Inl (AssignedTwice t)
      | Some False \<Rightarrow> check_dsts (defined[t := True]) ts)"

definition check_branch :: "block \<Rightarrow> nat \<Rightarrow> inst \<Rightarrow> verify_what + unit" where
  "check_branch b i x =
     (if i_op x = OP_BRCOND then
        if i_aux x \<le> i then Inl BranchBackward
        else if length (b_insts b) \<le> i_aux x then Inl BranchOutside
        else Inr ()
      else Inr ())"

definition check_mem :: "inst \<Rightarrow> verify_what + unit" where
  "check_mem x =
     (let is_mem = (i_op x = OP_LD \<or> i_op x = OP_ST) in
      if is_mem \<and> i_mem x = None then Inl MissingMemOp
      else if \<not> is_mem \<and> i_mem x \<noteq> None then Inl UnexpectedMemOp
      else Inr ())"

definition expect_type :: "block \<Rightarrow> temp option \<Rightarrow> ir_type \<Rightarrow> verify_what + unit" where
  "expect_type b t want =
     (case t of
        None \<Rightarrow> Inl (ExpectedNone want)
      | Some t \<Rightarrow>
          (case type_of b t of
             Some got \<Rightarrow> if got = want then Inr () else Inl (ExpectedGot t got want)
           | None \<Rightarrow> Inl (ExpectedUnallocated t)))"

fun check_live :: "bool list \<Rightarrow> (reg_slot \<times> temp) list \<Rightarrow> verify_what + unit" where
  "check_live defined [] = Inr ()"
| "check_live defined ((_, t) # ps) =
     (if (case nth_opt defined t of Some d \<Rightarrow> d | None \<Rightarrow> False) then check_live defined ps
      else Inl (LiveUnassigned t))"

definition check_start :: "block \<Rightarrow> bool list \<Rightarrow> inst \<Rightarrow> verify_what + unit" where
  "check_start b defined x =
     (case nth_opt (b_marks b) (i_aux x) of
        None \<Rightarrow> Inl NoRecord
      | Some mark \<Rightarrow>
          if (case nth_opt (b_marks b) (i_aux x - 1) of
                Some prev \<Rightarrow> 0 < i_aux x \<and> is_ticks mark < is_ticks prev | None \<Rightarrow> False)
          then Inl TicksBackwards
          else check_live defined (is_live mark))"

definition width_sensitive :: "opcode \<Rightarrow> bool" where
  "width_sensitive p \<longleftrightarrow> p \<in> {OP_CLZ, OP_CTZ, OP_POPCOUNT, OP_BSWAP, OP_ROTL, OP_ROTR, OP_MULU2, OP_MULS2}"

definition carry_op :: "opcode \<Rightarrow> bool" where
  "carry_op p \<longleftrightarrow> p \<in> {OP_ADDC, OP_SUBB, OP_ROTLC, OP_ROTRC}"

fun check_widths :: "block \<Rightarrow> ir_type \<Rightarrow> temp list \<Rightarrow> verify_what + unit" where
  "check_widths b ty [] = Inr ()"
| "check_widths b ty (t # ts) = rbind (expect_type b (Some t) ty) (\<lambda>_. check_widths b ty ts)"

text \<open>The \<open>match\<close> on the opcode; the value is the new \<open>seen_insn_start\<close>.\<close>

definition check_op :: "block \<Rightarrow> nat \<Rightarrow> bool list \<Rightarrow> bool \<Rightarrow> inst \<Rightarrow> verify_what + bool" where
  "check_op b i defined seen x =
     (if i_op x = OP_INSN_START then rbind (check_start b defined x) (\<lambda>_. Inr True)
      else if i_op x = OP_CHARGE then
        if \<not> seen then Inl ChargeBeforeStart
        else if i_imm x = None then Inl ChargeNoTicks
        else Inr seen
      else if i_op x = OP_GET_SLOT then
        if i_dst x = None then Inl SlotReadNoValue
        else if srcs b i \<noteq> [] then Inl SlotReadOperand
        else Inr seen
      else if i_op x = OP_SETCOND then
        if i_cond x = None then Inl NoCondition
        else rbind (expect_type b (i_dst x) I1) (\<lambda>_. Inr seen)
      else if width_sensitive (i_op x) then
        rbind (check_widths b (i_ty x)
            (take (if i_op x = OP_MULU2 \<or> i_op x = OP_MULS2 then 2 else 1) (srcs b i)))
          (\<lambda>_. Inr seen)
      else if carry_op (i_op x) then
        if srcs b i = [] then Inl NoCarryIn
        else rbind (expect_type b (Some (last (srcs b i))) I1) (\<lambda>_.
          if i_dst2 x = None then Inl NoCarryOut
          else rbind (expect_type b (i_dst2 x) I1) (\<lambda>_. Inr seen))
      else Inr seen)"

definition verify_inst :: "block \<Rightarrow> nat \<Rightarrow> inst \<Rightarrow> bool list \<times> bool \<Rightarrow> verify_what + bool list \<times> bool" where
  "verify_inst b i x st =
     rbind (check_srcs (fst st) (srcs b i)) (\<lambda>_.
     rbind (check_dsts (fst st) (dsts x)) (\<lambda>defined.
     rbind (check_branch b i x) (\<lambda>_.
     rbind (check_mem x) (\<lambda>_.
     rbind (check_op b i defined (snd st) x) (\<lambda>seen. Inr (defined, seen))))))"

fun verify_loop :: "block \<Rightarrow> nat \<Rightarrow> inst list \<Rightarrow> bool list \<times> bool \<Rightarrow> ir_msg error + bool list \<times> bool" where
  "verify_loop b i [] st = Inr st"
| "verify_loop b i (x # xs) st =
     rbind (map_err (\<lambda>w. Ir (VerifyAt i (i_op x) w)) (verify_inst b i x st)) (verify_loop b (Suc i) xs)"

definition verify :: "block \<Rightarrow> ir_msg error + unit" where
  "verify b =
     rbind (verify_loop b 0 (b_insts b) (replicate (temp_count b) False, False)) (\<lambda>_.
       if b_insts b = [] then Inl (Ir (EmptyBlock (b_entry_pc b)))
       else if is_terminator (i_op (last (b_insts b))) then Inr ()
       else Inl (Ir (NoTerminator (b_entry_pc b))))"

section \<open>What it accepts\<close>

text \<open>Some instruction before index \<open>i\<close> assigns \<open>t\<close>.\<close>

definition assigned_before :: "block \<Rightarrow> nat \<Rightarrow> temp \<Rightarrow> bool" where
  "assigned_before b i t \<longleftrightarrow> (\<exists>j<i. j < length (b_insts b) \<and> t \<in> set (dsts (b_insts b ! j)))"

definition started_before :: "block \<Rightarrow> nat \<Rightarrow> bool" where
  "started_before b i \<longleftrightarrow> (\<exists>j<i. j < length (b_insts b) \<and> i_op (b_insts b ! j) = OP_INSN_START)"

text \<open>The rules, one line each, for the instruction at index \<open>i\<close>.\<close>

definition start_ok :: "block \<Rightarrow> nat \<Rightarrow> inst \<Rightarrow> bool" where
  "start_ok b i x \<longleftrightarrow> i_aux x < length (b_marks b)
     \<and> (0 < i_aux x \<longrightarrow> is_ticks (b_marks b ! (i_aux x - 1)) \<le> is_ticks (b_marks b ! i_aux x))
     \<and> (\<forall>(s, t)\<in>set (is_live (b_marks b ! i_aux x)). t < temp_count b \<and> assigned_before b (Suc i) t)"

definition op_ok :: "block \<Rightarrow> nat \<Rightarrow> inst \<Rightarrow> bool" where
  "op_ok b i x \<longleftrightarrow>
     (i_op x = OP_INSN_START \<longrightarrow> start_ok b i x)
     \<and> (i_op x = OP_CHARGE \<longrightarrow> started_before b i \<and> i_imm x \<noteq> None)
     \<and> (i_op x = OP_GET_SLOT \<longrightarrow> i_dst x \<noteq> None \<and> srcs b i = [])
     \<and> (i_op x = OP_SETCOND \<longrightarrow> i_cond x \<noteq> None \<and> (\<exists>d. i_dst x = Some d \<and> type_of b d = Some I1))
     \<and> (width_sensitive (i_op x) \<longrightarrow>
          (\<forall>k < (if i_op x = OP_MULU2 \<or> i_op x = OP_MULS2 then 2 else 1).
             k < length (srcs b i) \<longrightarrow> type_of b (srcs b i ! k) = Some (i_ty x)))
     \<and> (carry_op (i_op x) \<longrightarrow> srcs b i \<noteq> [] \<and> type_of b (last (srcs b i)) = Some I1
          \<and> (\<exists>d. i_dst2 x = Some d \<and> type_of b d = Some I1))"

definition inst_ok :: "block \<Rightarrow> nat \<Rightarrow> bool" where
  "inst_ok b i \<longleftrightarrow> (let x = b_insts b ! i in
     (\<forall>t\<in>set (srcs b i). t < temp_count b \<and> assigned_before b i t)
     \<and> distinct (dsts x) \<and> (\<forall>t\<in>set (dsts x). t < temp_count b \<and> \<not> assigned_before b i t)
     \<and> (i_op x = OP_BRCOND \<longrightarrow> i < i_aux x \<and> i_aux x < length (b_insts b))
     \<and> (i_mem x \<noteq> None \<longleftrightarrow> i_op x = OP_LD \<or> i_op x = OP_ST)
     \<and> op_ok b i x)"

definition well_formed :: "block \<Rightarrow> bool" where
  "well_formed b \<longleftrightarrow> b_insts b \<noteq> [] \<and> is_terminator (i_op (last (b_insts b)))
     \<and> (\<forall>i<length (b_insts b). inst_ok b i)"

section \<open>The verifier decides it\<close>

lemma check_srcs_iff: "check_srcs D ts = Inr u \<longleftrightarrow> (\<forall>t\<in>set ts. t < length D \<and> D ! t)"
  by (induction ts) (auto simp: nth_opt_def split: bool.split)

lemma check_dsts_iff:
  "check_dsts D ts = Inr D' \<longleftrightarrow> distinct ts \<and> (\<forall>t\<in>set ts. t < length D \<and> \<not> D ! t)
     \<and> D' = map (\<lambda>t. D ! t \<or> t \<in> set ts) [0..<length D]"
proof (induction ts arbitrary: D)
  case Nil
  then show ?case by (auto simp: map_nth)
next
  case (Cons t ts)
  show ?case
  proof (cases "t < length D \<and> \<not> D ! t")
    case True
    have e1: "map (\<lambda>k. D[t := True] ! k \<or> k \<in> set ts) [0..<length D]
        = map (\<lambda>k. D ! k \<or> k \<in> set (t # ts)) [0..<length D]"
      using True by (auto simp: nth_list_update)
    have e2: "(\<forall>k\<in>set ts. k < length D \<and> \<not> D[t := True] ! k) \<longleftrightarrow>
        t \<notin> set ts \<and> (\<forall>k\<in>set ts. k < length D \<and> \<not> D ! k)"
      using True by (auto simp: nth_list_update)
    have "check_dsts D (t # ts) = check_dsts (D[t := True]) ts" using True by simp
    then have "check_dsts D (t # ts) = Inr D' \<longleftrightarrow> distinct ts
        \<and> (t \<notin> set ts \<and> (\<forall>k\<in>set ts. k < length D \<and> \<not> D ! k))
        \<and> D' = map (\<lambda>k. D ! k \<or> k \<in> set (t # ts)) [0..<length D]"
      by (simp only: Cons.IH length_list_update e1 e2)
    also have "\<dots> \<longleftrightarrow> distinct (t # ts) \<and> (\<forall>k\<in>set (t # ts). k < length D \<and> \<not> D ! k)
        \<and> D' = map (\<lambda>k. D ! k \<or> k \<in> set (t # ts)) [0..<length D]"
      using True by (simp only: distinct.simps list.set ball_simps) blast
    finally show ?thesis .
  qed (auto simp: nth_opt_def split: bool.split)
qed

lemma expect_type_iff: "expect_type b t want = Inr u \<longleftrightarrow> (\<exists>d. t = Some d \<and> type_of b d = Some want)"
  by (auto simp: expect_type_def split: option.split)

lemma check_live_iff: "check_live D ps = Inr u \<longleftrightarrow> (\<forall>(s, t)\<in>set ps. t < length D \<and> D ! t)"
  by (induction D ps rule: check_live.induct) (auto simp: nth_opt_def)

lemma check_widths_iff: "check_widths b ty ts = Inr u \<longleftrightarrow> (\<forall>t\<in>set ts. type_of b t = Some ty)"
  by (induction ts) (auto simp: rbind_eq_Inr expect_type_iff)

lemma set_take_nth: "(\<forall>t\<in>set (take n ts). P t) \<longleftrightarrow> (\<forall>k<n. k < length ts \<longrightarrow> P (ts ! k))"
  by (auto simp: set_conv_nth)

definition assigned_list :: "block \<Rightarrow> nat \<Rightarrow> bool list" where
  "assigned_list b i = map (assigned_before b i) [0..<temp_count b]"

lemma assigned_list_simps [simp]:
  "length (assigned_list b i) = temp_count b"
  "t < temp_count b \<Longrightarrow> assigned_list b i ! t = assigned_before b i t"
  by (simp_all add: assigned_list_def)

lemma assigned_before_Suc:
  "i < length (b_insts b) \<Longrightarrow>
     assigned_before b (Suc i) t \<longleftrightarrow> assigned_before b i t \<or> t \<in> set (dsts (b_insts b ! i))"
  by (auto simp: assigned_before_def less_Suc_eq)

lemma started_before_Suc:
  "i < length (b_insts b) \<Longrightarrow>
     started_before b (Suc i) \<longleftrightarrow> started_before b i \<or> i_op (b_insts b ! i) = OP_INSN_START"
  by (auto simp: started_before_def less_Suc_eq)

lemma check_dsts_assigned:
  assumes "i < length (b_insts b)"
  shows "check_dsts (assigned_list b i) (dsts (b_insts b ! i)) = Inr D \<longleftrightarrow>
     distinct (dsts (b_insts b ! i))
     \<and> (\<forall>t\<in>set (dsts (b_insts b ! i)). t < temp_count b \<and> \<not> assigned_before b i t)
     \<and> D = assigned_list b (Suc i)"
proof -
  have "map (\<lambda>t. assigned_list b i ! t \<or> t \<in> set (dsts (b_insts b ! i))) [0..<temp_count b]
      = assigned_list b (Suc i)"
    by (simp add: assigned_list_def assigned_before_Suc [OF assms])
  then show ?thesis by (auto simp: check_dsts_iff)
qed

lemma check_start_iff:
  "check_start b (assigned_list b (Suc i)) x = Inr u \<longleftrightarrow> start_ok b i x"
proof (cases "i_aux x < length (b_marks b)")
  case True
  have "check_live (assigned_list b (Suc i)) ps = Inr u \<longleftrightarrow>
      (\<forall>(s, t)\<in>set ps. t < temp_count b \<and> assigned_before b (Suc i) t)" for ps
    unfolding check_live_iff by (auto simp: split_beta)
  then show ?thesis
    using True by (auto simp: check_start_def start_ok_def not_less)
qed (simp add: check_start_def start_ok_def)

lemma check_op_iff:
  "check_op b i (assigned_list b (Suc i)) (started_before b i) x = Inr s \<longleftrightarrow>
     op_ok b i x \<and> s = (started_before b i \<or> i_op x = OP_INSN_START)"
proof -
  have w: "width_sensitive p \<Longrightarrow> p \<notin> {OP_INSN_START, OP_CHARGE, OP_GET_SLOT, OP_SETCOND} \<and> \<not> carry_op p"
    and c: "carry_op p \<Longrightarrow> p \<notin> {OP_INSN_START, OP_CHARGE, OP_GET_SLOT, OP_SETCOND} \<and> \<not> width_sensitive p" for p
    by (auto simp: width_sensitive_def carry_op_def)
  consider "i_op x = OP_INSN_START" | "i_op x = OP_CHARGE" | "i_op x = OP_GET_SLOT" | "i_op x = OP_SETCOND"
    | "width_sensitive (i_op x)" | "carry_op (i_op x)"
    | "i_op x \<notin> {OP_INSN_START, OP_CHARGE, OP_GET_SLOT, OP_SETCOND}"
      "\<not> width_sensitive (i_op x)" "\<not> carry_op (i_op x)" by blast
  then show ?thesis
  proof cases
    case 1
    then show ?thesis
      by (auto simp: check_op_def op_ok_def rbind_eq_Inr check_start_iff width_sensitive_def carry_op_def)
  next
    case 2
    then show ?thesis by (auto simp: check_op_def op_ok_def width_sensitive_def carry_op_def)
  next
    case 3
    then show ?thesis by (auto simp: check_op_def op_ok_def width_sensitive_def carry_op_def)
  next
    case 4
    then show ?thesis
      by (auto simp: check_op_def op_ok_def rbind_eq_Inr expect_type_iff width_sensitive_def carry_op_def)
  next
    case 5
    with w [OF 5] show ?thesis
      by (auto simp: check_op_def op_ok_def rbind_eq_Inr check_widths_iff set_take_nth)
  next
    case 6
    with c [OF 6] show ?thesis
      by (auto simp: check_op_def op_ok_def rbind_eq_Inr expect_type_iff)
  next
    case 7
    then show ?thesis by (auto simp: check_op_def op_ok_def)
  qed
qed

lemma check_branch_iff:
  "check_branch b i x = Inr u \<longleftrightarrow> (i_op x = OP_BRCOND \<longrightarrow> i < i_aux x \<and> i_aux x < length (b_insts b))"
  by (auto simp: check_branch_def)

lemma check_mem_iff: "check_mem x = Inr u \<longleftrightarrow> (i_mem x \<noteq> None \<longleftrightarrow> i_op x = OP_LD \<or> i_op x = OP_ST)"
  by (auto simp: check_mem_def Let_def)

lemma verify_inst_iff:
  assumes "i < length (b_insts b)"
  shows "verify_inst b i (b_insts b ! i) (assigned_list b i, started_before b i) = Inr st \<longleftrightarrow>
     inst_ok b i \<and> st = (assigned_list b (Suc i), started_before b (Suc i))"
  using assms
  by (auto simp: verify_inst_def rbind_eq_Inr check_srcs_iff check_dsts_assigned check_branch_iff
      check_mem_iff check_op_iff inst_ok_def Let_def started_before_Suc simp del: opcode_defs)

lemma verify_loop_iff:
  assumes "i \<le> length (b_insts b)"
  shows "(\<exists>st. verify_loop b i (drop i (b_insts b)) (assigned_list b i, started_before b i) = Inr st)
     \<longleftrightarrow> (\<forall>j. i \<le> j \<and> j < length (b_insts b) \<longrightarrow> inst_ok b j)"
  using assms
proof (induction "length (b_insts b) - i" arbitrary: i)
  case 0
  then show ?case by auto
next
  case (Suc n)
  then have i: "i < length (b_insts b)" by simp
  then have d: "drop i (b_insts b) = b_insts b ! i # drop (Suc i) (b_insts b)"
    by (simp add: Cons_nth_drop_Suc)
  have "(\<forall>j. i \<le> j \<and> j < length (b_insts b) \<longrightarrow> inst_ok b j) \<longleftrightarrow>
      inst_ok b i \<and> (\<forall>j. Suc i \<le> j \<and> j < length (b_insts b) \<longrightarrow> inst_ok b j)"
    using i by (metis Suc_leD Suc_leI le_neq_implies_less order_refl)
  with Suc.hyps(1) [of "Suc i"] Suc.hyps(2) i show ?case
    by (auto simp: d rbind_eq_Inr map_err_eq_Inr verify_inst_iff)
qed

lemma verify_iff: "verify b = Inr () \<longleftrightarrow> well_formed b"
proof -
  have "assigned_list b 0 = replicate (temp_count b) False" "started_before b 0 = False"
    by (auto simp: assigned_list_def assigned_before_def started_before_def intro: nth_equalityI)
  with verify_loop_iff [of 0 b] show ?thesis
    by (auto simp: verify_def rbind_eq_Inr well_formed_def simp del: opcode_defs)
qed

text \<open>
  C5: The verifier accepts exactly the well-formed blocks: every operand is
  assigned by an earlier instruction, every temporary is assigned at most once
  and was allocated, a branch goes forward and lands in the block, only memory
  operations carry a descriptor and they all do, boundaries name existing
  records with non-decreasing ticks and assigned live temporaries, charges come
  after the first boundary, carries are one bit, and the last instruction is a
  terminator.
\<close>

theorem verify_decides_well_formed: "is_ok (verify b) = well_formed b"
  using verify_iff [of b] by (cases "verify b") auto

end
