(* ===== verification/Ir_Eval.thy ===== *)
theory Ir_Eval
  imports Ir_Verify "HOL-Library.Signed_Division"
begin

text \<open>
  The arithmetic of the interpreter, \<open>ir/interp.rs\<close>: the helper functions at
  its end, and one evaluator per arm of \<open>Interp::step\<close> that computes a value
  from the operands alone. Values are held in 128-bit words, as \<open>u128\<close>; an
  \<open>i128\<close> is the same word read as a signed number. An evaluator gets the
  operands already looked up: a source's type and value, each absent when the
  temporary was never allocated.
\<close>

type_synonym i128 = "128 word"

section \<open>Helper functions\<close>

definition mask_bits :: "nat \<Rightarrow> u128" where
  "mask_bits bits = (if 128 \<le> bits then - 1 else push_bit bits 1 - 1)"

definition sext :: "u128 \<Rightarrow> nat \<Rightarrow> i128" where
  "sext v bits =
     (if 128 \<le> bits then v
      else let shift = 128 - bits in signed_drop_bit shift (push_bit shift v))"

definition field_mask :: "nat \<Rightarrow> nat \<Rightarrow> nat \<Rightarrow> u128 option" where
  "field_mask fpos flen w =
     (if flen = 0 \<or> w < fpos + flen then None else Some (push_bit fpos (mask_bits flen)))"

definition swap_lane :: "u128 \<Rightarrow> nat \<Rightarrow> u128" where
  "swap_lane piece bytes =
     foldl (\<lambda>swapped i. swapped OR push_bit (8 * (bytes - 1 - i)) (drop_bit (8 * i) piece AND 0xff))
       0 [0..<bytes]"

text \<open>The \<open>while base < width\<close> loop; the caller has checked that a lane is not empty.\<close>

function bswap_loop :: "u128 \<Rightarrow> nat \<Rightarrow> nat \<Rightarrow> nat \<Rightarrow> u128 \<Rightarrow> u128" where
  "bswap_loop v w lane base out =
     (if base < w \<and> 0 < lane then
        bswap_loop v w lane (base + lane)
          (out OR push_bit base (swap_lane (drop_bit base v AND mask_bits lane) (lane div 8)))
      else out)"
  by pat_completeness auto
termination
  by (relation "measure (\<lambda>(v, w, lane, base, out). w - base)") auto

declare bswap_loop.simps [simp del]

definition bswap :: "u128 \<Rightarrow> nat \<Rightarrow> nat \<Rightarrow> u128" where
  "bswap v w lane = bswap_loop v w lane 0 0"

definition compare :: "cond \<Rightarrow> nat \<Rightarrow> u128 \<Rightarrow> u128 \<Rightarrow> bool" where
  "compare c w x y =
     (case c of
        CEq \<Rightarrow> x = y
      | CNe \<Rightarrow> x \<noteq> y
      | CLtU \<Rightarrow> x < y
      | CLeU \<Rightarrow> x \<le> y
      | CGtU \<Rightarrow> x > y
      | CGeU \<Rightarrow> x \<ge> y
      | CLtS \<Rightarrow> sint (sext x w) < sint (sext y w)
      | CLeS \<Rightarrow> sint (sext x w) \<le> sint (sext y w)
      | CGtS \<Rightarrow> sint (sext x w) > sint (sext y w)
      | CGeS \<Rightarrow> sint (sext x w) \<ge> sint (sext y w))"

definition is_fetch :: "opcode \<Rightarrow> bool" where
  "is_fetch p \<longleftrightarrow> in_fetch_range p"

text \<open>\<open>u128::leading_zeros\<close>, \<open>trailing_zeros\<close> and \<open>count_ones\<close> of the standard library.\<close>

definition leading_zeros :: "u128 \<Rightarrow> nat" where
  "leading_zeros v = length (takeWhile (\<lambda>i. \<not> bit v i) (rev [0..<128]))"

definition trailing_zeros :: "u128 \<Rightarrow> nat" where
  "trailing_zeros v = length (takeWhile (\<lambda>i. \<not> bit v i) [0..<128])"

definition count_ones :: "u128 \<Rightarrow> nat" where
  "count_ones v = length (filter (bit v) [0..<128])"

text \<open>\<open>i128::wrapping_div\<close> and \<open>wrapping_rem\<close>: truncating, with \<open>MIN / -1 = MIN\<close>.\<close>

definition wrapping_div :: "i128 \<Rightarrow> i128 \<Rightarrow> i128" where
  "wrapping_div x y = word_of_int (sint x sdiv sint y)"

definition wrapping_rem :: "i128 \<Rightarrow> i128 \<Rightarrow> i128" where
  "wrapping_rem x y = word_of_int (sint x smod sint y)"

text \<open>\<open>u128::overflowing_add\<close>.\<close>

definition overflowing_add :: "u128 \<Rightarrow> u128 \<Rightarrow> u128 \<times> bool" where
  "overflowing_add x y = (x + y, 2 ^ 128 \<le> uint x + uint y)"

section \<open>Operands and results\<close>

type_synonym operand = "ir_type option \<times> u128 option"

definition operands :: "block \<Rightarrow> u128 list \<Rightarrow> temp list \<Rightarrow> operand list" where
  "operands b temps ts = map (\<lambda>t. (type_of b t, nth_opt temps t)) ts"

text \<open>\<open>self.get(src(i)?, at, op)?\<close>.\<close>

definition fetch :: "operand list \<Rightarrow> nat \<Rightarrow> ir_what + u128" where
  "fetch os i =
     rbind (ok_or (nth_opt os i) TooFewOperands) (\<lambda>(ty, v). ok_or v OperandUnallocated)"

text \<open>
  What an evaluator yields: one value for \<open>dst\<close>, a second one for \<open>dst2\<close> with
  the complaint when there is no \<open>dst2\<close>, or the news that this backend does not
  implement the operation.
\<close>

datatype eval = One u128 | Two u128 u128 ir_what | NoSupport

definition require_int :: "ir_type \<Rightarrow> ir_what + unit" where
  "require_int ty = require (is_int ty) NonInteger"

section \<open>Evaluators, in the order of \<open>step\<close>\<close>

definition eval_mov :: "inst \<Rightarrow> operand list \<Rightarrow> ir_what + eval" where
  "eval_mov x os =
     (case os of
        _ # _ \<Rightarrow> rbind (fetch os 0) (\<lambda>v. Inr (One v))
      | [] \<Rightarrow> (case i_imm x of Some c \<Rightarrow> Inr (One (const_bits c)) | None \<Rightarrow> Inl MovNeedsSource))"

definition eval_ext_s :: "inst \<Rightarrow> operand list \<Rightarrow> ir_what + eval" where
  "eval_ext_s x os =
     rbind (ok_or (nth_opt os 0) TooFewOperands) (\<lambda>(ty, _).
     rbind (ok_or ty SourceUnallocated) (\<lambda>from.
     rbind (fetch os 0) (\<lambda>v. Inr (One (sext v (ty_bits from))))))"

definition eval_ext_z :: "inst \<Rightarrow> operand list \<Rightarrow> ir_what + eval" where
  "eval_ext_z x os = rbind (fetch os 0) (\<lambda>v. Inr (One v))"

definition eval_bswap :: "inst \<Rightarrow> operand list \<Rightarrow> ir_what + eval" where
  "eval_bswap x os =
     (let w = ty_bits (i_ty x) in
      rbind (case i_imm x of
               Some c \<Rightarrow> if unat (const_bits c) < 2 ^ 32 then Inr (unat (const_bits c)) else Inl LaneAbsurd
             | None \<Rightarrow> Inr w) (\<lambda>lane.
        if lane < 8 \<or> lane mod 8 \<noteq> 0 \<or> w mod lane \<noteq> 0 then Inl LaneWidth
        else rbind (fetch os 0) (\<lambda>v. Inr (One (bswap v w lane)))))"

definition eval_deposit :: "inst \<Rightarrow> operand list \<Rightarrow> ir_what + eval" where
  "eval_deposit x os =
     (let (fpos, flen) = bitfield_parts (i_aux x) in
      rbind (ok_or (field_mask fpos flen (ty_bits (i_ty x))) BitfieldOutside) (\<lambda>field.
      rbind (fetch os 0) (\<lambda>into.
      rbind (fetch os 1) (\<lambda>what.
        Inr (One ((into AND NOT field) OR (push_bit fpos what AND field)))))))"

definition eval_extract :: "inst \<Rightarrow> operand list \<Rightarrow> ir_what + eval" where
  "eval_extract x os =
     (let (fpos, flen) = bitfield_parts (i_aux x) in
      rbind (ok_or (field_mask fpos flen (ty_bits (i_ty x))) BitfieldOutside) (\<lambda>field.
      rbind (fetch os 0) (\<lambda>v. Inr (One (drop_bit fpos (v AND field))))))"

definition eval_arith :: "inst \<Rightarrow> operand list \<Rightarrow> ir_what + eval" where
  "eval_arith x os =
     (let m = mask_bits (ty_bits (i_ty x)) in
      rbind (require_int (i_ty x)) (\<lambda>_.
      rbind (fetch os 0) (\<lambda>a.
        if i_op x = OP_NEG then Inr (One ((0 - a) AND m))
        else rbind (fetch os 1) (\<lambda>b.
          Inr (One ((if i_op x = OP_ADD then a + b
                     else if i_op x = OP_SUB then a - b
                     else a * b) AND m))))))"

definition eval_div :: "inst \<Rightarrow> operand list \<Rightarrow> ir_what + eval" where
  "eval_div x os =
     (let w = ty_bits (i_ty x); m = mask_bits w in
      rbind (require_int (i_ty x)) (\<lambda>_.
      rbind (fetch os 0) (\<lambda>a.
      rbind (fetch os 1) (\<lambda>b.
        if b = 0 then Inl DivideByZero
        else Inr (One ((if i_op x = OP_DIV_S then wrapping_div (sext a w) (sext b w)
                        else if i_op x = OP_REM_S then wrapping_rem (sext a w) (sext b w)
                        else if i_op x = OP_DIV_U then a div b
                        else a mod b) AND m))))))"

definition eval_carry :: "inst \<Rightarrow> operand list \<Rightarrow> ir_what + eval" where
  "eval_carry x os =
     (let w = ty_bits (i_ty x); m = mask_bits w in
      rbind (require_int (i_ty x)) (\<lambda>_.
      rbind (fetch os 0) (\<lambda>a.
      rbind (fetch os 1) (\<lambda>b.
      rbind (fetch os 2) (\<lambda>c0.
        let c = c0 AND 1 in
        if i_op x = OP_ADDC then
          let (s1, o1) = overflowing_add a b;
              (s2, o2) = overflowing_add s1 c;
              out = (if 128 \<le> w then o1 \<or> o2 else drop_bit w s2 AND 1 = 1)
          in Inr (Two (s2 AND m) (if out then 1 else 0) CarryOutMissing)
        else
          let (t, o0) = overflowing_add b c
          in Inr (Two ((a - b - c) AND m) (if o0 \<or> a < t then 1 else 0) CarryOutMissing))))))"

definition eval_widening :: "inst \<Rightarrow> operand list \<Rightarrow> ir_what + eval" where
  "eval_widening x os =
     (let w = ty_bits (i_ty x); m = mask_bits w in
      rbind (require_int (i_ty x)) (\<lambda>_.
        if 64 < w then Inr NoSupport
        else rbind (fetch os 0) (\<lambda>a.
          rbind (fetch os 1) (\<lambda>b.
            let product = (if i_op x = OP_MULU2 then a * b
                           else if i_op x = OP_MULS2 then sext a w * sext b w
                           else sext a w * b);
                high = drop_bit w product AND m
            in if i_op x = OP_MULHSU then Inr (One high)
               else Inr (Two (product AND m) high HighHalfMissing)))))"

definition eval_logic :: "inst \<Rightarrow> operand list \<Rightarrow> ir_what + eval" where
  "eval_logic x os =
     (let m = mask_bits (ty_bits (i_ty x)) in
      rbind (fetch os 0) (\<lambda>a.
        if i_op x = OP_NOT then Inr (One (NOT a AND m))
        else rbind (fetch os 1) (\<lambda>b.
          Inr (One ((if i_op x = OP_AND then a AND b
                     else if i_op x = OP_OR then a OR b
                     else if i_op x = OP_XOR then a XOR b
                     else a AND NOT b) AND m)))))"

definition eval_shift :: "inst \<Rightarrow> operand list \<Rightarrow> ir_what + eval" where
  "eval_shift x os =
     (let w = ty_bits (i_ty x); m = mask_bits w in
      rbind (require_int (i_ty x)) (\<lambda>_.
      rbind (fetch os 0) (\<lambda>a.
      rbind (fetch os 1) (\<lambda>amount.
        Inr (One ((if w \<le> unat amount then
                     (if i_op x = OP_SAR \<and> sint (sext a w) < 0 then m else 0)
                   else let n = unat amount in
                     if i_op x = OP_SHL then push_bit n a
                     else if i_op x = OP_SHR then drop_bit n a
                     else signed_drop_bit n (sext a w)) AND m))))))"

definition eval_rotate :: "inst \<Rightarrow> operand list \<Rightarrow> ir_what + eval" where
  "eval_rotate x os =
     (let w = ty_bits (i_ty x); m = mask_bits w in
      rbind (require_int (i_ty x)) (\<lambda>_.
      rbind (fetch os 0) (\<lambda>a.
      rbind (fetch os 1) (\<lambda>amount.
        let n0 = unat amount mod w;
            n = (if i_op x = OP_ROTL then n0 else (w - n0) mod w)
        in Inr (One (if n = 0 then a else (push_bit n a OR drop_bit (w - n) a) AND m))))))"

definition eval_rotate_carry :: "inst \<Rightarrow> operand list \<Rightarrow> ir_what + eval" where
  "eval_rotate_carry x os =
     (let w = ty_bits (i_ty x); m = mask_bits w in
      rbind (require_int (i_ty x)) (\<lambda>_.
      rbind (fetch os 0) (\<lambda>a.
      rbind (fetch os 1) (\<lambda>c0.
        let c = c0 AND 1 in
        if i_op x = OP_ROTLC
        then Inr (Two ((push_bit 1 a OR c) AND m) (drop_bit (w - 1) a AND 1) CarryOutMissing)
        else Inr (Two ((drop_bit 1 a OR push_bit (w - 1) c) AND m) (a AND 1) CarryOutMissing)))))"

definition eval_count :: "inst \<Rightarrow> operand list \<Rightarrow> ir_what + eval" where
  "eval_count x os =
     (let w = ty_bits (i_ty x) in
      rbind (require_int (i_ty x)) (\<lambda>_.
      rbind (fetch os 0) (\<lambda>a.
        Inr (One (word_of_nat
          (if i_op x = OP_CLZ then leading_zeros a - (128 - w)
           else if i_op x = OP_CTZ then min (trailing_zeros a) w
           else count_ones a))))))"

definition eval_setcond :: "inst \<Rightarrow> operand list \<Rightarrow> ir_what + eval" where
  "eval_setcond x os =
     rbind (ok_or (i_cond x) NeedsCondition) (\<lambda>c.
     rbind (fetch os 0) (\<lambda>a.
     rbind (fetch os 1) (\<lambda>b.
       Inr (One (if compare c (ty_bits (i_ty x)) a b then 1 else 0)))))"

definition eval_movcond :: "inst \<Rightarrow> operand list \<Rightarrow> ir_what + eval" where
  "eval_movcond x os =
     (case (i_cond x, length os) of
        (Some c, n) \<Rightarrow>
          if n = 4 then
            rbind (fetch os 0) (\<lambda>a.
            rbind (fetch os 1) (\<lambda>b.
            rbind (fetch os (if compare c (ty_bits (i_ty x)) a b then 2 else 3)) (\<lambda>v. Inr (One v))))
          else if n = 3 then
            rbind (fetch os 0) (\<lambda>s.
            rbind (fetch os (if s AND 1 = 1 then 1 else 2)) (\<lambda>v. Inr (One v)))
          else Inl MovcondShape
      | (None, n) \<Rightarrow>
          if n = 3 then
            rbind (fetch os 0) (\<lambda>s.
            rbind (fetch os (if s AND 1 = 1 then 1 else 2)) (\<lambda>v. Inr (One v)))
          else Inl MovcondShape)"

text \<open>The branch decision of \<open>BRCOND\<close>; it writes nothing.\<close>

definition eval_brcond :: "inst \<Rightarrow> operand list \<Rightarrow> ir_what + bool" where
  "eval_brcond x os =
     (case (i_cond x, length os) of
        (Some c, n) \<Rightarrow>
          if n = 2 then
            rbind (fetch os 0) (\<lambda>a. rbind (fetch os 1) (\<lambda>b. Inr (compare c (ty_bits (i_ty x)) a b)))
          else if n = 1 then rbind (fetch os 0) (\<lambda>s. Inr (s AND 1 = 1))
          else Inl BrcondShape
      | (None, n) \<Rightarrow>
          if n = 1 then rbind (fetch os 0) (\<lambda>s. Inr (s AND 1 = 1)) else Inl BrcondShape)"

text \<open>The arms that compute a value from operands alone, and their evaluator.\<close>

definition pure_eval :: "opcode \<Rightarrow> (inst \<Rightarrow> operand list \<Rightarrow> ir_what + eval) option" where
  "pure_eval p =
     (if p = OP_MOV then Some eval_mov
      else if p = OP_EXT_S then Some eval_ext_s
      else if p = OP_EXT_Z \<or> p = OP_TRUNC then Some eval_ext_z
      else if p = OP_BSWAP then Some eval_bswap
      else if p = OP_DEPOSIT then Some eval_deposit
      else if p = OP_EXTRACT then Some eval_extract
      else if p = OP_ADD \<or> p = OP_SUB \<or> p = OP_MUL \<or> p = OP_NEG then Some eval_arith
      else if p = OP_DIV_S \<or> p = OP_DIV_U \<or> p = OP_REM_S \<or> p = OP_REM_U then Some eval_div
      else if p = OP_ADDC \<or> p = OP_SUBB then Some eval_carry
      else if p = OP_MULU2 \<or> p = OP_MULS2 \<or> p = OP_MULHSU then Some eval_widening
      else if p = OP_AND \<or> p = OP_OR \<or> p = OP_XOR \<or> p = OP_ANDC \<or> p = OP_NOT then Some eval_logic
      else if p = OP_SHL \<or> p = OP_SHR \<or> p = OP_SAR then Some eval_shift
      else if p = OP_ROTL \<or> p = OP_ROTR then Some eval_rotate
      else if p = OP_ROTLC \<or> p = OP_ROTRC then Some eval_rotate_carry
      else if p = OP_CLZ \<or> p = OP_CTZ \<or> p = OP_POPCOUNT then Some eval_count
      else if p = OP_SETCOND then Some eval_setcond
      else if p = OP_MOVCOND then Some eval_movcond
      else None)"

section \<open>Facts about the helpers\<close>

lemma mask_bits_eq: "mask_bits w = mask w"
proof (cases "128 \<le> w")
  case True
  then show ?thesis by (intro bit_word_eqI) (simp add: mask_bits_def bit_simps)
next
  case False
  then show ?thesis by (simp add: mask_bits_def mask_eq_exp_minus_1 push_bit_of_1)
qed

lemma and_mask_bits [simp]: "v AND mask_bits w = take_bit w v"
  by (simp add: mask_bits_eq take_bit_eq_mask)

lemma uint_take_bit [simp]: "uint (take_bit w (v :: u128)) = uint v mod 2 ^ w"
  by (metis unsigned_take_bit_eq take_bit_eq_mod)

lemma uint_drop_bit_128: "uint (drop_bit n (v :: u128)) = uint v div 2 ^ n"
proof -
  have "uint (drop_bit n v) = drop_bit n (take_bit 128 (uint v))"
    using unsigned_drop_bit_eq [of n v, where 'a = int] by simp
  also have "take_bit 128 (uint v) = uint v"
    using unsigned_less [of v, where 'a = int] by (simp add: take_bit_int_eq_self)
  finally show ?thesis by (simp only: drop_bit_eq_div)
qed

lemma uint_push_bit_128: "uint (push_bit n (v :: u128)) = uint v * 2 ^ n mod 2 ^ 128"
proof -
  have "uint (push_bit n v) = take_bit 128 (push_bit n (uint v))"
    using unsigned_push_bit_eq [of n v, where 'a = int] by simp
  then show ?thesis by (simp only: take_bit_eq_mod push_bit_eq_mult)
qed

lemma unat_take_bit: "unat (take_bit w (v :: u128)) = unat v mod 2 ^ w"
  by (metis unsigned_take_bit_eq take_bit_eq_mod)

text \<open>The signed value of the low \<open>w\<close> bits.\<close>

definition signed_value :: "nat \<Rightarrow> u128 \<Rightarrow> int" where
  "signed_value w v = signed_take_bit (w - 1) (uint v)"

lemma sext_eq_signed_take_bit:
  assumes "0 < w" "w \<le> 128"
  shows "sext v w = signed_take_bit (w - 1) v"
proof (cases "w = 128")
  case True
  have "bit (sext v w) n = bit (signed_take_bit (w - 1) v) n" if "n < 128" for n
    using that True by (cases "n = 127") (auto simp: sext_def bit_signed_take_bit_iff min_def)
  then show ?thesis by (intro bit_word_eqI) simp
next
  case False
  have "sext v w = signed_drop_bit (128 - w) (push_bit (128 - w) v)"
    using False assms by (simp add: sext_def Let_def)
  also have "\<dots> = signed_take_bit (w - 1) v"
  proof (rule bit_word_eqI)
    fix n
    assume "n < LENGTH(128)"
    then show "bit (signed_drop_bit (128 - w) (push_bit (128 - w) v)) n = bit (signed_take_bit (w - 1) v) n"
      using assms False
      by (cases "n = w - 1"; cases "n < w")
        (auto simp: bit_signed_drop_bit_iff bit_signed_take_bit_iff bit_push_bit_iff min_def)
  qed
  finally show ?thesis .
qed

lemma sint_sext:
  assumes "0 < w" "w \<le> 128"
  shows "sint (sext v w) = signed_value w v"
  unfolding signed_value_def sext_eq_signed_take_bit [OF assms]
proof (rule bit_eqI)
  fix n
  show "bit (sint (signed_take_bit (w - 1) v)) n = bit (signed_take_bit (w - 1) (uint v)) n"
    using assms bit_imp_le_length [of v n]
    by (auto simp: bit_sint_iff bit_signed_take_bit_iff bit_uint_iff min_def)
qed

lemma signed_value_cong:
  "0 < w \<Longrightarrow> signed_value w v mod 2 ^ w = uint v mod 2 ^ w"
  by (simp add: signed_value_def flip: take_bit_eq_mod) (simp add: signed_take_bit_eq_if_positive signed_take_bit_eq_if_negative
      take_bit_signed_take_bit)

lemma fetch_simps [simp]:
  "fetch ((ty, Some v) # os) 0 = Inr v"
  "fetch ((ty, Some v) # os) (Suc n) = fetch os n"
  "fetch (o1 # os) (Suc n) = fetch os n"
  by (simp_all add: fetch_def nth_opt_def)

lemma fetch_1 [simp]: "fetch (o1 # os) 1 = fetch os 0"
  by (simp add: fetch_def nth_opt_def)

lemma fetch_2 [simp]: "fetch (o1 # o2 # os) 2 = fetch os 0"
  by (simp add: fetch_def nth_opt_def numeral_2_eq_2)

lemma canonical_take_bit: "uint (a :: u128) < 2 ^ w \<longleftrightarrow> take_bit w a = a"
proof
  assume "uint a < 2 ^ w"
  then have "uint (take_bit w a) = uint a" by simp
  then show "take_bit w a = a" by (simp add: word_uint_eq_iff)
next
  assume "take_bit w a = a"
  then have "uint a = uint a mod 2 ^ w" by (metis uint_take_bit)
  also have "\<dots> < 2 ^ w" by simp
  finally show "uint a < 2 ^ w" .
qed

lemma bit_canonical: "uint (a :: u128) < 2 ^ w \<Longrightarrow> w \<le> i \<Longrightarrow> \<not> bit a i"
  unfolding canonical_take_bit by (metis bit_take_bit_iff leD)

end
