(* ===== verification/Ir_Alu.thy ===== *)
theory Ir_Alu
  imports Ir_Eval
begin

text \<open>
  What the evaluators of \<open>Ir_Eval\<close> compute, as arithmetic: every result at the
  instruction's width, carries, double-width products, shifts and rotates for
  every amount, division, byte reversal and bitfields.
\<close>

section \<open>Arithmetic at the guest's width\<close>

text \<open>
  C39: Addition, subtraction, multiplication and negation wrap at the width of
  the instruction's type and not at the 128 bits the values are held in: the
  result is the integer result modulo \<open>2^w\<close>, for every integer type.
\<close>

theorem arith_wraps_at_width:
  assumes "is_int (i_ty x)"
  shows "\<exists>v. eval_arith x [(ta, Some a), (tb, Some b)] = Inr (One v) \<and>
     uint v = (if i_op x = OP_NEG then - uint a
               else if i_op x = OP_ADD then uint a + uint b
               else if i_op x = OP_SUB then uint a - uint b
               else uint a * uint b) mod 2 ^ ty_bits (i_ty x)"
proof -
  have w: "(2 :: int) ^ ty_bits (i_ty x) dvd 2 ^ 128" by (intro le_imp_power_dvd) simp
  have mm: "(k mod 2 ^ 128) mod 2 ^ ty_bits (i_ty x) = k mod 2 ^ ty_bits (i_ty x)" for k :: int
    by (rule mod_mod_cancel [OF w])
  show ?thesis
    using assms mm by (simp add: eval_arith_def require_int_def Let_def uint_word_ariths)
qed

definition plain_inst :: "opcode \<Rightarrow> ir_type \<Rightarrow> inst" where
  "plain_inst p ty = \<lparr>i_op = p, i_ty = ty, i_dst = Some 9, i_dst2 = None, i_imm = None, i_mem = None,
     i_cond = None, i_aux = 0, i_src_start = 0, i_src_len = 0\<rparr>"

lemma plain_inst_simps [simp]: "i_op (plain_inst p ty) = p" "i_ty (plain_inst p ty) = ty"
  by (simp_all add: plain_inst_def)

theorem arith_wraps_at_width_witness:
  "\<exists>v. eval_arith (plain_inst OP_ADD I32) [(Some I32, Some 0xffffffff), (Some I32, Some 1)] = Inr (One v)
     \<and> uint v = 0"
  using arith_wraps_at_width [of "plain_inst OP_ADD I32" "Some I32" "0xffffffff" "Some I32" 1]
  by (simp add: is_int_def)

lemma uint_add_128: "uint (x + y :: u128) = (if uint x + uint y < 2 ^ 128 then uint x + uint y
    else uint x + uint y - 2 ^ 128)"
  by (simp add: uint_plus_if')

lemma uint_sub_128: "uint (x - y :: u128) = (if uint y \<le> uint x then uint x - uint y
    else uint x - uint y + 2 ^ 128)"
  by (simp add: uint_sub_if')

lemma uint_128_lt: "uint (x :: u128) < 2 ^ 128" "0 \<le> uint x"
  using unsigned_less [of x, where 'a = int] by simp_all

lemma is_int_bits: "is_int t \<Longrightarrow> ty_bits t = 128 \<or> ty_bits t \<le> 64"
  by (cases t) (simp_all add: is_int_def)

lemma and_1_eq_1_iff: "(v :: u128) AND 1 = 1 \<longleftrightarrow> odd (uint v)"
proof -
  have "odd v \<longleftrightarrow> odd (uint v)"
    using bit_uint_iff [of v 0] by (simp add: bit_0)
  then show ?thesis by (simp add: and_one_eq mod2_eq_if)
qed

text \<open>The carry out of a \<open>w\<close>-bit sum is its quotient by \<open>2^w\<close>.\<close>

lemma sum_carry:
  fixes s :: int
  assumes "0 \<le> s" "s < 2 * 2 ^ w"
  shows "s mod 2 ^ w + (if odd (s div 2 ^ w) then 1 else 0) * 2 ^ w = s"
proof (cases "s < 2 ^ w")
  case True
  with assms(1) show ?thesis by simp
next
  case False
  define r where "r = s - 2 ^ w"
  have r: "s = r + 2 ^ w" "0 \<le> r" "r < 2 ^ w" using False assms(2) by (simp_all add: r_def)
  then have "s div 2 ^ w = 1" "s mod 2 ^ w = r" by (simp_all add: div_add_self2)
  with r(1) show ?thesis by simp
qed

lemma difference_borrow:
  fixes d :: int
  assumes "- (2 ^ w) \<le> d" "d < 2 ^ w"
  shows "d mod 2 ^ w - (if d < 0 then 1 else 0) * 2 ^ w = d"
proof (cases "d < 0")
  case True
  then have "d mod 2 ^ w = (d + 2 ^ w) mod 2 ^ w" by simp
  also have "\<dots> = d + 2 ^ w" using assms True by (intro mod_pos_pos_trivial) auto
  finally show ?thesis using True by simp
qed (use assms in simp)

lemma carry_bit: "uint (c AND 1 :: u128) = uint c mod 2" "uint (c AND 1 :: u128) \<le> 1" "0 \<le> uint (c AND 1 :: u128)"
  by (simp_all add: and_one_eq uint_mod)

lemma type_dvd_128: "(2 :: int) ^ ty_bits t dvd 2 ^ 128"
  by (intro le_imp_power_dvd) simp

text \<open>The carry flag of the addition, at the full width and below it.\<close>

lemma addc_carry_flag:
  fixes a b c1 :: u128
  assumes int: "is_int t" and sm: "sm = uint a + uint b + uint c1" "sm < 2 * 2 ^ ty_bits t" and c1: "uint c1 \<le> 1"
  shows "(if 128 \<le> ty_bits t then 2 ^ 128 \<le> uint a + uint b \<or> 2 ^ 128 \<le> uint (a + b) + uint c1
          else drop_bit (ty_bits t) (a + b + c1) AND 1 = 1) \<longleftrightarrow> odd (sm div 2 ^ ty_bits t)"
proof (cases "ty_bits t = 128")
  case True
  have "0 \<le> sm" by (simp add: sm(1))
  then have "odd (sm div 2 ^ 128) \<longleftrightarrow> 2 ^ 128 \<le> sm"
    using sum_carry [OF _ sm(2)] sm(2) True pos_mod_bound [of "2 ^ 128" sm] pos_mod_sign [of "2 ^ 128" sm]
    by (auto split: if_splits)
  moreover have "uint c1 = 0 \<or> uint c1 = 1" using c1 uint_ge_0 [of c1] by linarith
  ultimately show ?thesis
    using True uint_128_lt [of a] uint_128_lt [of b] by (auto simp: uint_add_128 sm(1))
next
  case False
  with is_int_bits [OF int] have w: "ty_bits t \<le> 64" by simp
  then have "(2 :: int) * 2 ^ ty_bits t \<le> 2 ^ 65" using power_increasing [of "ty_bits t" 64 "2 :: int"] by simp
  then have "sm < 2 ^ 128" using sm(2) by simp
  moreover have "uint (a + b + c1) = sm mod 2 ^ 128" by (simp add: sm(1) uint_word_ariths mod_simps)
  ultimately have "uint (drop_bit (ty_bits t) (a + b + c1)) = sm div 2 ^ ty_bits t"
    by (simp only: uint_drop_bit_128) (simp add: sm(1))
  then show ?thesis using w by (simp add: and_1_eq_1_iff)
qed

lemma addc_exact:
  assumes int: "is_int (i_ty x)" and a: "uint a < 2 ^ ty_bits (i_ty x)" and b: "uint b < 2 ^ ty_bits (i_ty x)"
    and op: "i_op x = OP_ADDC"
  shows "\<exists>v co. eval_carry x [(ta, Some a), (tb, Some b), (tc, Some c)] = Inr (Two v co CarryOutMissing)
     \<and> uint v < 2 ^ ty_bits (i_ty x) \<and> uint co \<le> 1
     \<and> uint v + uint co * 2 ^ ty_bits (i_ty x) = uint a + uint b + uint c mod 2"
proof -
  let ?w = "ty_bits (i_ty x)"
  define c1 where "c1 = c AND 1"
  note c1 = carry_bit [of c, folded c1_def]
  define sm where "sm = uint a + uint b + uint c1"
  have sm: "0 \<le> sm" "sm < 2 * 2 ^ ?w"
    using a b c1 uint_128_lt [of a] uint_128_lt [of b] unfolding sm_def by linarith+
  define co where "co = (if odd (sm div 2 ^ ?w) then 1 else 0 :: u128)"
  have "uint (a + b + c1) = sm mod 2 ^ 128" by (simp add: sm_def uint_word_ariths mod_simps)
  then have v: "uint (take_bit ?w (a + b + c1)) = sm mod 2 ^ ?w" using mod_mod_cancel [OF type_dvd_128] by simp
  have "eval_carry x [(ta, Some a), (tb, Some b), (tc, Some c)] = Inr (Two (take_bit ?w (a + b + c1)) co CarryOutMissing)"
    using addc_carry_flag [OF int sm_def sm(2) c1(2)] op int
    by (auto simp: eval_carry_def require_int_def Let_def overflowing_add_def co_def simp flip: c1_def split: if_splits)
  moreover have "uint (take_bit ?w (a + b + c1)) + uint co * 2 ^ ?w = sm"
    using sum_carry [OF sm] unfolding v by (simp add: co_def split: if_splits)
  ultimately show ?thesis using v c1(1) by (auto simp: sm_def co_def)
qed

lemma subb_exact:
  assumes int: "is_int (i_ty x)" and a: "uint a < 2 ^ ty_bits (i_ty x)" and b: "uint b < 2 ^ ty_bits (i_ty x)"
    and op: "i_op x \<noteq> OP_ADDC"
  shows "\<exists>v co. eval_carry x [(ta, Some a), (tb, Some b), (tc, Some c)] = Inr (Two v co CarryOutMissing)
     \<and> uint v < 2 ^ ty_bits (i_ty x) \<and> uint co \<le> 1
     \<and> uint v - uint co * 2 ^ ty_bits (i_ty x) = uint a - uint b - uint c mod 2"
proof -
  let ?w = "ty_bits (i_ty x)"
  define c1 where "c1 = c AND 1"
  note c1 = carry_bit [of c, folded c1_def] and r = uint_128_lt [of a] uint_128_lt [of b]
  define df where "df = uint a - uint b - uint c1"
  have df: "- (2 ^ ?w) \<le> df" "df < 2 ^ ?w" using a b c1 r unfolding df_def by linarith+
  define co where "co = (if df < 0 then 1 else 0 :: u128)"
  have "uint (a - b - c1) = df mod 2 ^ 128" by (simp add: df_def uint_word_ariths mod_simps)
  then have v: "uint (take_bit ?w (a - b - c1)) = df mod 2 ^ ?w" using mod_mod_cancel [OF type_dvd_128] by simp
  have "(2 ^ 128 \<le> uint b + uint c1 \<or> a < b + c1) \<longleftrightarrow> df < 0"
    using c1 r by (auto simp: word_less_def uint_add_128 df_def)
  then have "eval_carry x [(ta, Some a), (tb, Some b), (tc, Some c)] = Inr (Two (take_bit ?w (a - b - c1)) co CarryOutMissing)"
    using op int by (simp add: eval_carry_def require_int_def Let_def overflowing_add_def co_def flip: c1_def)
  moreover have "uint (take_bit ?w (a - b - c1)) - uint co * 2 ^ ?w = df"
    using difference_borrow [OF df] unfolding v by (simp add: co_def split: if_splits)
  ultimately show ?thesis using v c1(1) by (auto simp: df_def co_def)
qed

text \<open>
  Add and subtract with carry are exact: for operands that fit the width,
  the result together with the carry out is the full sum of the operands and
  the carry in, and for the subtraction the difference plus the borrow's weight.
  The result fits the width and the carry is one bit.
\<close>

theorem carry_ops_exact:
  assumes "is_int (i_ty x)" "uint a < 2 ^ ty_bits (i_ty x)" "uint b < 2 ^ ty_bits (i_ty x)"
  shows "\<exists>v co. eval_carry x [(ta, Some a), (tb, Some b), (tc, Some c)] = Inr (Two v co CarryOutMissing)
     \<and> uint v < 2 ^ ty_bits (i_ty x) \<and> uint co \<le> 1
     \<and> (if i_op x = OP_ADDC
        then uint v + uint co * 2 ^ ty_bits (i_ty x) = uint a + uint b + uint c mod 2
        else uint v - uint co * 2 ^ ty_bits (i_ty x) = uint a - uint b - uint c mod 2)"
  using addc_exact [OF assms] subb_exact [OF assms] by (cases "i_op x = OP_ADDC") simp_all

theorem carry_ops_exact_witness:
  "\<exists>v co. eval_carry (plain_inst OP_SUBB I64) [(None, Some 0), (None, Some 1), (None, Some 1)]
       = Inr (Two v co CarryOutMissing) \<and> uint v - uint co * 2 ^ 64 = - 2"
  using carry_ops_exact [of "plain_inst OP_SUBB I64" 0 1 None None None 1] by (auto simp: is_int_def)

section \<open>Widening multiplication\<close>

lemma halves:
  assumes "uint (p :: u128) = k mod 2 ^ 128" "w \<le> 64"
  shows "uint (take_bit w (drop_bit w p)) = (k div 2 ^ w) mod 2 ^ w"
    and "uint (take_bit w p) + uint (take_bit w (drop_bit w p)) * 2 ^ w = k mod 2 ^ (2 * w)"
proof -
  have d: "(2 :: int) ^ (2 * w) dvd 2 ^ 128" using assms(2) by (intro le_imp_power_dvd) simp
  have p2: "uint p mod 2 ^ (2 * w) = k mod 2 ^ (2 * w)" by (simp only: assms(1) mod_mod_cancel [OF d])
  have m2: "(j div 2 ^ w) mod 2 ^ w = (j mod 2 ^ (2 * w)) div 2 ^ w" for j :: int
    by (simp add: drop_bit_take_bit flip: drop_bit_eq_div take_bit_eq_mod)
  have hi: "uint (take_bit w (drop_bit w p)) = (uint p div 2 ^ w) mod 2 ^ w"
    by (simp only: uint_take_bit uint_drop_bit_128)
  show "uint (take_bit w (drop_bit w p)) = (k div 2 ^ w) mod 2 ^ w"
    unfolding hi by (simp only: m2 p2)
  have "j mod 2 ^ (2 * w) = j mod 2 ^ w + (j div 2 ^ w) mod 2 ^ w * 2 ^ w" for j :: int
    by (simp add: mult_2 power_add zmod_zmult2_eq)
  from this [of "uint p"] show "uint (take_bit w p) + uint (take_bit w (drop_bit w p)) * 2 ^ w = k mod 2 ^ (2 * w)"
    by (simp only: p2 [symmetric] uint_take_bit uint_drop_bit_128)
qed

lemma uint_sext_mult: "uint (sext a w * y) = (sint (sext a w) * uint y) mod 2 ^ 128"
  "uint (sext a w * sext b w) = (sint (sext a w) * sint (sext b w)) mod 2 ^ 128"
proof -
  have u: "uint x mod 2 ^ 128 = sint x mod 2 ^ 128" for x :: u128
    by (simp add: uint_sint [of x] take_bit_eq_mod)
  show "uint (sext a w * y) = (sint (sext a w) * uint y) mod 2 ^ 128"
    "uint (sext a w * sext b w) = (sint (sext a w) * sint (sext b w)) mod 2 ^ 128"
    using u [of "sext a w"] u [of "sext b w"] by (auto simp: uint_word_ariths intro: mod_mult_cong)
qed

text \<open>
  The widening multiplies yield the whole product: for operands that fit a
  width of at most 64 bits, low and high half together are the unsigned
  product, the signed product in two's complement at twice the width, and
  \<open>MULHSU\<close> yields the high half of the signed by unsigned product.
\<close>

theorem widening_multiply_exact:
  assumes "is_int (i_ty x)" "i_op x = OP_MULU2 \<or> i_op x = OP_MULS2 \<or> i_op x = OP_MULHSU"
  defines "w \<equiv> ty_bits (i_ty x)"
  assumes w: "w \<le> 64" and a: "uint a < 2 ^ w" and b: "uint b < 2 ^ w"
  shows "case eval_widening x [(ta, Some a), (tb, Some b)] of
      Inr (Two lo hi _) \<Rightarrow> i_op x \<noteq> OP_MULHSU \<and> uint lo + uint hi * 2 ^ w =
        (if i_op x = OP_MULU2 then uint a * uint b
         else (signed_value w a * signed_value w b) mod 2 ^ (2 * w))
    | Inr (One hi) \<Rightarrow> i_op x = OP_MULHSU \<and> uint hi = (signed_value w a * uint b) div 2 ^ w mod 2 ^ w
    | _ \<Rightarrow> False"
proof -
  have pos: "0 < w" "w \<le> 128" by (simp_all add: w_def)
  note sv = sint_sext [OF pos]
  have "uint a * uint b < 2 ^ w * 2 ^ w" using a b by (intro mult_strict_mono) simp_all
  then have "uint a * uint b mod 2 ^ (2 * w) = uint a * uint b"
    by (simp add: mult_2 power_add)
  moreover have "uint (a * b) = (uint a * uint b) mod 2 ^ 128" by (simp add: uint_word_ariths)
  moreover have "\<not> 64 < ty_bits (i_ty x)" using w by (simp add: w_def)
  ultimately show ?thesis
    using assms(1,2) halves [OF _ w, of "a * b"] halves(1) [OF uint_sext_mult(1) w, of a w b]
      halves(2) [OF uint_sext_mult(2) w, of a w b]
    by (elim disjE) (simp_all add: eval_widening_def require_int_def Let_def sv
        del: uint_take_bit flip: w_def)
qed

theorem widening_multiply_exact_witness:
  "case eval_widening (plain_inst OP_MULU2 I64) [(None, Some 0xffffffffffffffff), (None, Some 0xffffffffffffffff)] of
     Inr (Two lo hi _) \<Rightarrow> uint lo + uint hi * 2 ^ 64 = (2 ^ 64 - 1) * (2 ^ 64 - 1) | _ \<Rightarrow> False"
  using widening_multiply_exact [of "plain_inst OP_MULU2 I64" "0xffffffffffffffff" "0xffffffffffffffff" None None]
  by (simp add: is_int_def split: sum.splits eval.splits)

section \<open>Comparisons\<close>

text \<open>
  Inverting a condition negates the comparison, for every condition, width
  and pair of operands; this is what a side exit that jumps over the untaken
  path relies on.
\<close>

theorem compare_invert: "compare (cond_invert c) w a b = (\<not> compare c w a b)"
  by (cases c) (auto simp: compare_def)

section \<open>Shifts, division\<close>

lemma signed_value_range:
  assumes "0 < w"
  shows "- (2 ^ (w - 1)) \<le> signed_value w v" "signed_value w v < 2 ^ (w - 1)"
  by (simp_all add: signed_value_def signed_take_bit_int_greater_eq_minus_exp signed_take_bit_int_less_exp)

lemma uint_signed_drop_sext:
  assumes "0 < w" "w \<le> 128"
  shows "uint (take_bit w (signed_drop_bit n (sext a w))) = (signed_value w a div 2 ^ n) mod 2 ^ w"
proof -
  have d: "(2 :: int) ^ w dvd 2 ^ 128" using assms(2) by (intro le_imp_power_dvd) simp
  have "uint (signed_drop_bit n (sext a w)) mod 2 ^ 128 = sint (signed_drop_bit n (sext a w)) mod 2 ^ 128"
    by (simp add: uint_sint [of "signed_drop_bit n (sext a w)"] take_bit_eq_mod)
  also have "sint (signed_drop_bit n (sext a w)) = signed_value w a div 2 ^ n"
    by (simp only: sint_signed_drop_bit_eq sint_sext [OF assms] drop_bit_eq_div)
  finally have "uint (signed_drop_bit n (sext a w)) mod 2 ^ w = (signed_value w a div 2 ^ n) mod 2 ^ w"
    by (metis mod_mod_cancel [OF d])
  then show ?thesis by (simp only: uint_take_bit)
qed

lemma signed_div_large:
  assumes "0 < w" "w \<le> n"
  shows "signed_value w a div 2 ^ n = (if signed_value w a < 0 then - 1 else 0)"
proof -
  have "(2 :: int) ^ (w - 1) \<le> 2 ^ n" using assms by (intro power_increasing) simp_all
  then have r: "- (2 ^ n) \<le> signed_value w a" "signed_value w a < 2 ^ n"
    using signed_value_range [OF assms(1), of a] by linarith+
  show ?thesis
  proof (cases "signed_value w a < 0")
    case True
    define q where "q = signed_value w a + 2 ^ n"
    have "0 \<le> q" "q < 2 ^ n" using True r by (simp_all add: q_def)
    moreover have "signed_value w a = q + (- 1) * 2 ^ n" by (simp add: q_def)
    ultimately have "signed_value w a div 2 ^ n = - 1" by (simp only: div_mult_self1) simp
    with True show ?thesis by simp
  qed (use r in simp)
qed

text \<open>
  Shifts give the mathematical answer for every amount, out of range ones
  included: left is multiplication by a power of two modulo \<open>2^w\<close>, logical right
  is division, arithmetic right is flooring division of the signed value.
\<close>

theorem shift_exact:
  assumes "is_int (i_ty x)" "uint a < 2 ^ ty_bits (i_ty x)"
    and "i_op x = OP_SHL \<or> i_op x = OP_SHR \<or> i_op x = OP_SAR"
  shows "\<exists>v. eval_shift x [(ta, Some a), (tb, Some n)] = Inr (One v) \<and>
     uint v = (if i_op x = OP_SHL then (uint a * 2 ^ unat n) mod 2 ^ ty_bits (i_ty x)
               else if i_op x = OP_SHR then uint a div 2 ^ unat n
               else (signed_value (ty_bits (i_ty x)) a div 2 ^ unat n) mod 2 ^ ty_bits (i_ty x))"
proof -
  let ?w = "ty_bits (i_ty x)"
  have d: "(2 :: int) ^ ?w dvd 2 ^ 128" by (intro le_imp_power_dvd) simp
  have sl: "uint (take_bit ?w (push_bit k a)) = (uint a * 2 ^ k) mod 2 ^ ?w" for k
    by (simp only: uint_take_bit uint_push_bit_128 mod_mod_cancel [OF d])
  have sr: "uint (take_bit ?w (drop_bit k a)) = uint a div 2 ^ k" for k
  proof -
    have "uint a div 2 ^ k \<le> uint a" using zdiv_mono2 [of "uint a" 1 "2 ^ k"] by simp
    then have "uint a div 2 ^ k mod 2 ^ ?w = uint a div 2 ^ k"
      using assms(2) by (intro mod_pos_pos_trivial) (simp_all add: pos_imp_zdiv_nonneg_iff)
    then show ?thesis by (simp only: uint_take_bit uint_drop_bit_128)
  qed
  note sa = uint_signed_drop_sext [OF ty_bits_pos ty_bits_le, of "i_ty x" "unat n" a]
  show ?thesis
  proof (cases "?w \<le> unat n")
    case True
    have "(2 :: int) ^ ?w dvd uint a * 2 ^ unat n" using True by (simp add: le_imp_power_dvd)
    moreover have "uint a div 2 ^ unat n = 0"
      using less_le_trans [OF assms(2) power_increasing [OF True, of "2 :: int"]]
      by (intro div_pos_pos_trivial) simp_all
    moreover have "uint (take_bit ?w (mask_bits ?w)) = - 1 mod 2 ^ ?w"
    proof -
      have "uint (- 1 :: u128) = - 1 mod 2 ^ 128" by (simp add: unsigned_minus_1_eq_mask mask_numeral)
      then have "uint (take_bit ?w (- 1 :: u128)) = - 1 mod 2 ^ ?w"
        by (simp only: uint_take_bit mod_mod_cancel [OF d])
      then show ?thesis by (simp add: mask_bits_eq take_bit_minus_one_eq_mask del: uint_take_bit)
    qed
    ultimately show ?thesis
      using True assms(1,3)
      by (auto simp: eval_shift_def require_int_def Let_def signed_div_large sint_sext simp del: uint_take_bit)
  next
    case False
    then show ?thesis
      using assms(1,3) sl [of "unat n"] sr [of "unat n"] sa
      by (auto simp: eval_shift_def require_int_def Let_def simp del: uint_take_bit)
  qed
qed

theorem shift_exact_witness:
  "\<exists>v. eval_shift (plain_inst OP_SAR I32) [(None, Some 0x80000000), (None, Some 40)] = Inr (One v) \<and> uint v = 2 ^ 32 - 1"
  using shift_exact [of "plain_inst OP_SAR I32" "0x80000000" None None 40]
  by (auto simp: is_int_def signed_value_def)

text \<open>
  Division and remainder truncate, signed at the instruction's width, with
  the one overflowing case wrapping; a zero divisor is an error and nothing
  else is.
\<close>

theorem division_exact:
  assumes "is_int (i_ty x)"
  shows "case eval_div x [(ta, Some a), (tb, Some b)] of
      Inl e \<Rightarrow> b = 0 \<and> e = DivideByZero
    | Inr (One v) \<Rightarrow> b \<noteq> 0 \<and>
        uint v = (if i_op x = OP_DIV_S then signed_value (ty_bits (i_ty x)) a sdiv signed_value (ty_bits (i_ty x)) b
                  else if i_op x = OP_REM_S then signed_value (ty_bits (i_ty x)) a smod signed_value (ty_bits (i_ty x)) b
                  else if i_op x = OP_DIV_U then uint a div uint b
                  else uint a mod uint b) mod 2 ^ ty_bits (i_ty x)
    | Inr _ \<Rightarrow> False"
proof -
  let ?w = "ty_bits (i_ty x)"
  have d: "(2 :: int) ^ ?w dvd 2 ^ 128" by (intro le_imp_power_dvd) simp
  have u: "uint (word_of_int k :: u128) = k mod 2 ^ 128" for k
    by (simp add: uint_word_of_int)
  note sv = sint_sext [OF ty_bits_pos ty_bits_le]
  show ?thesis
    using assms mod_mod_cancel [OF d]
    by (simp add: eval_div_def require_int_def Let_def wrapping_div_def wrapping_rem_def u sv
        uint_div uint_mod)
qed

theorem division_exact_witness:
  "case eval_div (plain_inst OP_DIV_S I32) [(None, Some 0x80000000), (None, Some 0xffffffff)] of
     Inr (One v) \<Rightarrow> uint v = 0x80000000 | _ \<Rightarrow> False"
  using division_exact [where x = "plain_inst OP_DIV_S I32" and a = "0x80000000" and b = "0xffffffff"
      and ta = None and tb = None]
  by (simp add: is_int_def signed_value_def signed_divide_int_def split: sum.splits eval.splits)

section \<open>Rotates\<close>

text \<open>
  Rotates move bits around within the width for every amount: bit \<open>i\<close> of the
  operand is bit \<open>(i + n) mod w\<close> of a left rotate by \<open>n\<close>, and bit
  \<open>(i + n) mod w\<close> of the operand is bit \<open>i\<close> of a right rotate; the result fits.
\<close>

theorem rotate_exact:
  assumes "is_int (i_ty x)" "uint a < 2 ^ ty_bits (i_ty x)" "i < ty_bits (i_ty x)"
  shows "\<exists>v. eval_rotate x [(ta, Some a), (tb, Some n)] = Inr (One v)
     \<and> uint v < 2 ^ ty_bits (i_ty x)
     \<and> (if i_op x = OP_ROTL then bit v ((i + unat n) mod ty_bits (i_ty x)) = bit a i
        else bit v i = bit a ((i + unat n) mod ty_bits (i_ty x)))"
proof -
  let ?w = "ty_bits (i_ty x)"
  define k where "k = (if i_op x = OP_ROTL then unat n mod ?w else (?w - unat n mod ?w) mod ?w)"
  define v where "v = (if k = 0 then a else take_bit ?w (push_bit k a OR drop_bit (?w - k) a))"
  have k: "k < ?w" by (simp add: k_def)
  have e: "eval_rotate x [(ta, Some a), (tb, Some n)] = Inr (One v)"
    using assms(1) by (simp add: eval_rotate_def require_int_def Let_def v_def k_def)
  have fit: "uint v < 2 ^ ?w"
    using assms(2) unfolding v_def canonical_take_bit by simp
  have b: "bit v ((j + k) mod ?w) = bit a j" if "j < ?w" for j
  proof (cases "j + k < ?w")
    case True
    then have "j + k < 128" using ty_bits_le [of "i_ty x"] by linarith
    with True show ?thesis
      using k bit_canonical [OF assms(2), of "?w + j"] by (auto simp: v_def bit_simps not_le)
  next
    case False
    then have "(j + k) mod ?w = j + k - ?w" using that k by (simp add: mod_if)
    then show ?thesis
      using False that k ty_bits_le [of "i_ty x"] by (auto simp: v_def bit_simps)
  qed
  show ?thesis
  proof (cases "i_op x = OP_ROTL")
    case True
    then have "(i + k) mod ?w = (i + unat n) mod ?w" by (simp add: k_def mod_simps)
    with b [OF assms(3)] e fit True show ?thesis by auto
  next
    case False
    let ?j = "(i + unat n) mod ?w"
    have m: "unat n mod ?w < ?w" by simp
    have "(?j + k) mod ?w = (i + unat n + (?w - unat n mod ?w)) mod ?w"
      using False by (simp only: k_def if_False mod_add_eq)
    also have "\<dots> = (i + (?w - unat n mod ?w) + unat n mod ?w) mod ?w"
      using mod_add_right_eq [of "i + (?w - unat n mod ?w)" "unat n" ?w] by (simp only: ac_simps)
    also have "i + (?w - unat n mod ?w) + unat n mod ?w = i + ?w" using m by linarith
    also have "(i + ?w) mod ?w = i" using assms(3) by simp
    finally show ?thesis using b [of ?j] e fit False by auto
  qed
qed

theorem rotate_exact_witness:
  "\<exists>v. eval_rotate (plain_inst OP_ROTR I32) [(None, Some 1), (None, Some 33)] = Inr (One v) \<and> bit v 31"
  using rotate_exact [of "plain_inst OP_ROTR I32" 1 31 None None 33] by (auto simp: is_int_def)

text \<open>One step of a rotate through carry, and the step back.\<close>

definition rotl_word :: "nat \<Rightarrow> u128 \<Rightarrow> u128 \<Rightarrow> u128 \<times> u128" where
  "rotl_word w a c = (take_bit w (push_bit 1 a OR c), drop_bit (w - 1) a AND 1)"

definition rotr_word :: "nat \<Rightarrow> u128 \<Rightarrow> u128 \<Rightarrow> u128 \<times> u128" where
  "rotr_word w a c = (take_bit w (drop_bit 1 a OR push_bit (w - 1) c), a AND 1)"

lemma bit_shift_1:
  "bit (push_bit 1 z :: u128) i \<longleftrightarrow> 0 < i \<and> i < 128 \<and> bit z (i - 1)"
  "bit (drop_bit 1 z :: u128) i \<longleftrightarrow> bit z (Suc i)"
  unfolding bit_push_bit_iff bit_drop_bit_eq by (auto simp: Suc_le_eq)

lemma bit_rotl_word:
  "bit (fst (rotl_word w a c)) i \<longleftrightarrow> i < w \<and> (0 < i \<and> i < 128 \<and> bit a (i - 1) \<or> bit c i)"
  "bit (snd (rotl_word w a c)) i \<longleftrightarrow> i = 0 \<and> bit a (w - 1)"
  unfolding rotl_word_def fst_conv snd_conv bit_take_bit_iff bit_or_iff bit_shift_1 bit_and_iff bit_1_iff
    bit_drop_bit_eq by auto

lemma bit_rotr_word:
  "bit (fst (rotr_word w a c)) i \<longleftrightarrow> i < w \<and> (bit a (Suc i) \<or> w - 1 \<le> i \<and> i < 128 \<and> bit c (i - (w - 1)))"
  "bit (snd (rotr_word w a c)) i \<longleftrightarrow> i = 0 \<and> bit a 0"
  unfolding rotr_word_def fst_conv snd_conv bit_take_bit_iff bit_or_iff bit_shift_1 bit_and_iff bit_1_iff
    bit_push_bit_iff by auto

lemma rot_words_inverse:
  assumes "0 < w" "w \<le> 128" and a: "\<And>i. bit a i \<Longrightarrow> i < w" and c: "\<And>i. bit c i \<Longrightarrow> i = 0"
  shows "rotr_word w (fst (rotl_word w a c)) (snd (rotl_word w a c)) = (a, c)"
    and "rotl_word w (fst (rotr_word w a c)) (snd (rotr_word w a c)) = (a, c)"
proof -
  have e: "p = (a, c)" if "\<And>i. i < 128 \<Longrightarrow> bit (fst p) i = bit a i" "\<And>i. i < 128 \<Longrightarrow> bit (snd p) i = bit c i" for p
    using that by (cases p) (auto intro: bit_word_eqI)
  show "rotr_word w (fst (rotl_word w a c)) (snd (rotl_word w a c)) = (a, c)"
  proof (rule e; unfold bit_rotr_word bit_rotl_word)
    fix i :: nat
    assume "i < 128"
    then show "(i < w \<and> ((Suc i < w \<and> (0 < Suc i \<and> Suc i < 128 \<and> bit a (Suc i - 1) \<or> bit c (Suc i)))
        \<or> w - 1 \<le> i \<and> i < 128 \<and> i - (w - 1) = 0 \<and> bit a (w - 1))) = bit a i"
      using assms(1,2) by (cases "i = w - 1"; cases "Suc i < w") (auto dest: a c)
    show "(i = 0 \<and> 0 < w \<and> (0 < (0::nat) \<and> (0::nat) < 128 \<and> bit a (0 - 1) \<or> bit c 0)) = bit c i"
      using assms(1) by (auto dest: c)
  qed
  show "rotl_word w (fst (rotr_word w a c)) (snd (rotr_word w a c)) = (a, c)"
  proof (rule e; unfold bit_rotr_word bit_rotl_word)
    fix i :: nat
    assume "i < 128"
    then show "(i < w \<and> (0 < i \<and> i < 128 \<and> i - 1 < w
        \<and> (bit a (Suc (i - 1)) \<or> w - 1 \<le> i - 1 \<and> i - 1 < 128 \<and> bit c (i - 1 - (w - 1)))
        \<or> i = 0 \<and> bit a 0)) = bit a i"
      by (cases "i = 0") (auto dest: a)
    show "(i = 0 \<and> w - 1 < w \<and> (bit a (Suc (w - 1)) \<or> w - 1 \<le> w - 1 \<and> w - 1 < 128
        \<and> bit c (w - 1 - (w - 1)))) = bit c i"
      using assms(1,2) by (auto dest: a c)
  qed
qed

text \<open>
  The two rotates through carry are inverse to each other: rotating left and
  then right by one through the carry restores both the value and the carry,
  and so does right and then left.
\<close>

theorem rotate_carry_inverse:
  assumes "is_int (i_ty x)" "is_int (i_ty y)" "i_ty y = i_ty x" "uint a < 2 ^ ty_bits (i_ty x)" "uint c \<le> 1"
    and "(i_op x = OP_ROTLC) \<noteq> (i_op y = OP_ROTLC)"
  shows "\<exists>v co. eval_rotate_carry x [(ta, Some a), (tc, Some c)] = Inr (Two v co CarryOutMissing)
     \<and> eval_rotate_carry y [(ta, Some v), (tc, Some co)] = Inr (Two a c CarryOutMissing)"
proof -
  let ?w = "ty_bits (i_ty x)"
  have ev: "eval_rotate_carry z [(ta, Some p), (tc, Some q)] =
      (let r = (if i_op z = OP_ROTLC then rotl_word ?w p (q AND 1) else rotr_word ?w p (q AND 1))
       in Inr (Two (fst r) (snd r) CarryOutMissing))" if "i_ty z = i_ty x" for z p q
    using assms(1) that
    by (auto simp: eval_rotate_carry_def require_int_def Let_def rotl_word_def rotr_word_def simp del: One_nat_def)
  have c1: "q AND 1 = q" if "\<And>i. bit q i \<Longrightarrow> i = 0" for q :: u128
    by (rule bit_word_eqI) (use that in \<open>auto simp: bit_simps\<close>)
  have c: "i = 0" if "bit c i" for i
    using that bit_canonical [of c 1 i] assms(5) by (cases i) auto
  have a: "i < ?w" if "bit a i" for i
    using that bit_canonical [OF assms(4)] not_le by blast
  note inv = rot_words_inverse [of ?w a c, OF ty_bits_pos ty_bits_le a c]
  have l: "snd (rotl_word ?w a c) AND 1 = snd (rotl_word ?w a c)"
    "snd (rotr_word ?w a c) AND 1 = snd (rotr_word ?w a c)"
    by (rule c1; simp add: bit_rotl_word bit_rotr_word)+
  show ?thesis
    using assms(3,6) inv l c1 [OF c] by (simp add: ev Let_def prod_eq_iff split: if_splits)
qed

theorem rotate_carry_inverse_witness:
  "\<exists>v co. eval_rotate_carry (plain_inst OP_ROTLC I32) [(None, Some 0x80000001), (None, Some 0)]
       = Inr (Two v co CarryOutMissing)
     \<and> eval_rotate_carry (plain_inst OP_ROTRC I32) [(None, Some v), (None, Some co)]
       = Inr (Two 0x80000001 0 CarryOutMissing)"
  by (rule rotate_carry_inverse) (simp_all add: is_int_def)

section \<open>Bitfields\<close>

lemma bit_field_mask:
  assumes "field_mask p l w = Some m" "w \<le> 128"
  shows "bit m i \<longleftrightarrow> p \<le> i \<and> i < p + l"
  using assms by (auto simp: field_mask_def mask_bits_eq bit_simps split: if_splits)

text \<open>
  A deposit changes the field and nothing else, and an extract reads it
  back: the bits of the field are those of the deposited value, every other bit
  is the old one, and extracting the field gives the low bits of what was
  deposited.
\<close>

theorem deposit_extract:
  assumes "i_aux x = bitfield_aux p l" "0 < l" "p + l \<le> ty_bits (i_ty x)"
    and "i_aux y = i_aux x" "i_ty y = i_ty x"
  shows "\<exists>v. eval_deposit x [(ta, Some a), (tb, Some b)] = Inr (One v)
     \<and> (\<forall>i. bit v i = (if p \<le> i \<and> i < p + l then bit b (i - p) else bit a i))
     \<and> eval_extract y [(tv, Some v)] = Inr (One (take_bit l b))"
proof -
  let ?w = "ty_bits (i_ty x)"
  have l: "p + l \<le> 128" using assms(3) ty_bits_le [of "i_ty x"] by linarith
  then have parts: "bitfield_parts (i_aux x) = (p, l)" by (simp add: assms(1) bitfield_parts_aux)
  obtain m where m: "field_mask p l ?w = Some m" using assms(2,3) by (simp add: field_mask_def)
  note bm = bit_field_mask [OF m ty_bits_le]
  define v where "v = (a AND NOT m) OR (push_bit p b AND m)"
  have bv: "bit v i = (if p \<le> i \<and> i < p + l then bit b (i - p) else bit a i)" for i
    using l by (auto simp: v_def bit_simps bm dest: bit_imp_le_length)
  have "drop_bit p (v AND m) = take_bit l b"
    by (rule bit_word_eqI) (use l in \<open>auto simp: bit_simps bv bm\<close>)
  then show ?thesis
    using bv m assms(4,5) by (simp add: eval_deposit_def eval_extract_def parts flip: v_def)
qed

theorem deposit_extract_witness:
  "\<exists>v. eval_deposit ((plain_inst OP_DEPOSIT I32)\<lparr>i_aux := bitfield_aux 8 8\<rparr>)
       [(None, Some 0x12345678), (None, Some 0xab)] = Inr (One v)
     \<and> (\<forall>i. bit v i = (if 8 \<le> i \<and> i < 16 then bit (0xab :: u128) (i - 8) else bit (0x12345678 :: u128) i))
     \<and> eval_extract ((plain_inst OP_EXTRACT I32)\<lparr>i_aux := bitfield_aux 8 8\<rparr>) [(None, Some v)]
       = Inr (One (take_bit 8 0xab))"
  using deposit_extract [of "(plain_inst OP_DEPOSIT I32)\<lparr>i_aux := bitfield_aux 8 8\<rparr>" 8 8
      "(plain_inst OP_EXTRACT I32)\<lparr>i_aux := bitfield_aux 8 8\<rparr>" None "0x12345678" None "0xab" None]
  by (simp add: plain_inst_def)

section \<open>Byte reversal\<close>

text \<open>Where bit \<open>j\<close> of a reversed lane comes from.\<close>

definition mirror :: "nat \<Rightarrow> nat \<Rightarrow> nat" where
  "mirror bytes j = 8 * (bytes - 1 - j div 8) + j mod 8"

lemma mirror_mirror: "j < 8 * n \<Longrightarrow> mirror n (mirror n j) = j"
  and mirror_lt: "j < 8 * n \<Longrightarrow> mirror n j < 8 * n"
proof -
  assume j: "j < 8 * n"
  then have d: "j div 8 < n" by (simp add: div_less_iff_less_mult mult.commute)
  then show "mirror n (mirror n j) = j" by (simp add: mirror_def)
  have "n - 1 - j div 8 < n" "j mod 8 < 8" using d by simp_all
  then show "mirror n j < 8 * n" unfolding mirror_def by linarith
qed

lemma bit_foldl_or:
  "bit (foldl (\<lambda>s i. s OR g i) s xs :: u128) j \<longleftrightarrow> bit s j \<or> (\<exists>i\<in>set xs. bit (g i) j)"
  by (induction xs arbitrary: s) (auto simp: bit_or_iff)

lemma bit_swap_lane:
  assumes "8 * n \<le> 128"
  shows "bit (swap_lane piece n) j \<longleftrightarrow> j < 8 * n \<and> bit piece (mirror n j)"
proof -
  define g where "g = (\<lambda>i. push_bit (8 * (n - 1 - i)) (drop_bit (8 * i) piece AND 0xff))"
  have ff: "(0xff :: u128) = mask 8" by (simp add: mask_numeral)
  have step: "bit (g i) j \<longleftrightarrow> j < 8 * n \<and> j div 8 = n - 1 - i \<and> bit piece (8 * i + j mod 8)"
    if "i < n" for i
  proof -
    have "8 * (n - 1 - i) \<le> j \<and> j - 8 * (n - 1 - i) < 8 \<longleftrightarrow> j div 8 = n - 1 - i" by auto
    moreover have "j div 8 = n - 1 - i \<Longrightarrow> j - 8 * (n - 1 - i) = j mod 8 \<and> j < 8 * n"
      using that by (auto simp: minus_mult_div_eq_mod [symmetric])
    ultimately show ?thesis
      unfolding g_def ff bit_push_bit_iff bit_and_iff bit_drop_bit_eq bit_mask_iff using assms by auto
  qed
  have "swap_lane piece n = foldl (\<lambda>s i. s OR g i) 0 [0..<n]"
    by (simp only: swap_lane_def g_def)
  then have "bit (swap_lane piece n) j \<longleftrightarrow> (\<exists>i<n. bit (g i) j)"
    by (simp add: bit_foldl_or Bex_def)
  also have "\<dots> \<longleftrightarrow> j < 8 * n \<and> (\<exists>i<n. j div 8 = n - 1 - i \<and> bit piece (8 * i + j mod 8))"
    using step by auto
  also have "\<dots> \<longleftrightarrow> j < 8 * n \<and> bit piece (mirror n j)"
  proof (cases "j < 8 * n")
    case True
    then have d: "j div 8 < n" by (simp add: div_less_iff_less_mult mult.commute)
    have i: "i < n \<and> j div 8 = n - 1 - i \<longleftrightarrow> i = n - 1 - j div 8" for i using d by auto
    have "(\<exists>i<n. j div 8 = n - 1 - i \<and> P i) \<longleftrightarrow> P (n - 1 - j div 8)" for P
      by (simp only: conj_assoc [symmetric] i simp_thms)
    then show ?thesis using True by (simp only: mirror_def simp_thms)
  qed simp
  finally show ?thesis .
qed

lemma bit_bswap_loop:
  assumes "0 < lane" "8 dvd lane" "lane dvd w" "w \<le> 128" "lane dvd base"
  shows "bit (bswap_loop v w lane base out) j \<longleftrightarrow>
     bit out j \<or> base \<le> j \<and> j < w \<and> bit v (lane * (j div lane) + mirror (lane div 8) (j mod lane))"
  using assms
proof (induction v w lane base out rule: bswap_loop.induct)
  case (1 v w lane base out)
  let ?piece = "drop_bit base v AND mask_bits lane"
  let ?out = "out OR push_bit base (swap_lane ?piece (lane div 8))"
  have n: "8 * (lane div 8) = lane" using "1.prems" by simp
  show ?case
  proof (cases "base < w")
    case False
    then show ?thesis by (subst bswap_loop.simps) auto
  next
    case True
    have "base + lane \<le> w"
      using "1.prems" True by (metis dvd_imp_le dvd_minus_self le_diff_conv2 less_imp_le not_less zero_less_diff
          add.commute dvd_diff_nat)
    then have w: "base + lane \<le> w" "lane \<le> 128" using "1.prems"(4) by linarith+
    have m: "mirror (lane div 8) (j - base) < lane" if "j - base < lane"
      using mirror_lt [of "j - base" "lane div 8"] that n by simp
    have "bit (swap_lane ?piece (lane div 8)) (j - base) \<longleftrightarrow>
        j - base < lane \<and> bit v (base + mirror (lane div 8) (j - base))"
      using bit_swap_lane [of "lane div 8" ?piece "j - base"] n w m
      by (auto simp: bit_simps)
    then have b: "bit ?out j \<longleftrightarrow> bit out j \<or> base \<le> j \<and> j < base + lane \<and> bit v (base + mirror (lane div 8) (j - base))"
      using w "1.prems"(4) by (auto simp: bit_simps)
    have dm: "lane * (j div lane) = base \<and> j mod lane = j - base" if "base \<le> j" "j < base + lane"
    proof -
      obtain q where q: "base = lane * q" using "1.prems"(5) by auto
      define r where "r = j - base"
      have r: "j = lane * q + r" "r < lane" using that q by (simp_all add: r_def)
      then have "j div lane = q" "j mod lane = j - base" using q "1.prems"(1) by simp_all
      then show ?thesis using q by simp
    qed
    have "bswap_loop v w lane base out = bswap_loop v w lane (base + lane) ?out"
      using True "1.prems"(1) by (subst bswap_loop.simps) simp
    then show ?thesis
      using "1.IH" True "1.prems" b dm w by (cases "j < base + lane") auto
  qed
qed

text \<open>
  Byte reversal within lanes is an involution: reversing twice with the same
  lane gives back the value, and the reversed value still fits the type.
\<close>

theorem bswap_involution:
  assumes "8 \<le> lane" "lane mod 8 = 0" "w mod lane = 0" "w \<le> 128" "uint v < 2 ^ w"
  shows "bswap (bswap v w lane) w lane = v \<and> uint (bswap v w lane) < 2 ^ w"
proof -
  have d: "0 < lane" "8 dvd lane" "lane dvd w" using assms by auto
  have n: "8 * (lane div 8) = lane" using d by simp
  let ?m = "\<lambda>j. lane * (j div lane) + mirror (lane div 8) (j mod lane)"
  have b: "bit (bswap u w lane) j \<longleftrightarrow> j < w \<and> bit u (?m j)" for u j
    using bit_bswap_loop [OF d assms(4), of 0 u 0 j] by (simp add: bswap_def)
  have m: "mirror (lane div 8) (j mod lane) < lane" for j
    using mirror_lt [of "j mod lane" "lane div 8"] d(1) n by simp
  have mw: "?m j < w" if "j < w" for j
  proof -
    obtain q where q: "w = lane * q" using d(3) by auto
    then have "j div lane < q" using that d(1) by (simp add: div_less_iff_less_mult mult.commute)
    then have "lane * (j div lane) + lane \<le> w"
      using q by (metis Suc_leI mult_Suc_right add.commute mult_le_mono2)
    then show ?thesis using m [of j] by linarith
  qed
  have mm: "?m (?m j) = j" for j
    using mirror_mirror [of "j mod lane" "lane div 8"] m [of j] d(1) n by simp
  have "bit (bswap (bswap v w lane) w lane) j \<longleftrightarrow> bit v j" for j
  proof (cases "j < w")
    case True
    have "bit (bswap (bswap v w lane) w lane) j \<longleftrightarrow> bit v (?m (?m j))"
      using True mw [OF True] by (simp only: b simp_thms)
    then show ?thesis by (simp only: mm)
  qed (use bit_canonical [OF assms(5), of j] in \<open>simp add: b [of "bswap v w lane"]\<close>)
  then have "bswap (bswap v w lane) w lane = v" by (intro bit_word_eqI) simp
  moreover have "take_bit w (bswap v w lane) = bswap v w lane"
    by (rule bit_word_eqI) (simp add: bit_take_bit_iff b [of v])
  ultimately show ?thesis by (simp add: canonical_take_bit)
qed

theorem bswap_involution_witness: "bswap (bswap 0x12345678 32 16) 32 16 = 0x12345678"
  using bswap_involution [of 16 32 "0x12345678"] by simp

end
