(* ===== verification/Ir_Pass.thy ===== *)
theory Ir_Pass
  imports Ir_Verify "HOL-Library.Product_Lexorder"
begin

text \<open>
  The optimiser, \<open>ir/pass.rs\<close>: liveness and the intervals a register allocator
  takes, dead-code elimination, and hoisting of slot reads. This theory has the
  definitions, what the backward walk computes, and that eliminating dead code
  keeps a block well formed.
\<close>

section \<open>Liveness\<close>

record temp_life =
  tl_def :: "nat option"
  tl_last_use :: "nat option"
  tl_uses :: nat
  tl_at_boundary :: bool

definition temp_life_default :: temp_life where
  "temp_life_default = \<lparr>tl_def = None, tl_last_use = None, tl_uses = 0, tl_at_boundary = False\<rparr>"

definition life_is_live :: "temp_life \<Rightarrow> bool" where
  "life_is_live l \<longleftrightarrow> 0 < tl_uses l \<or> tl_at_boundary l"

definition life_interval :: "temp_life \<Rightarrow> (nat \<times> nat) option" where
  "life_interval l =
     (case tl_def l of
        None \<Rightarrow> None
      | Some d \<Rightarrow> Some (d, max (case tl_last_use l of Some u \<Rightarrow> u | None \<Rightarrow> d) d))"

type_synonym liveness = "temp_life list"

text \<open>\<open>lives.get_mut(t)\<close>: change the entry of a temporary that exists.\<close>

definition life_at :: "(temp_life \<Rightarrow> temp_life) \<Rightarrow> liveness \<Rightarrow> temp \<Rightarrow> liveness" where
  "life_at f lives t = (if t < length lives then lives[t := f (lives ! t)] else lives)"

definition note_use :: "nat \<Rightarrow> temp_life \<Rightarrow> temp_life" where
  "note_use at l = l\<lparr>tl_uses := as_u32 (tl_uses l + 1), tl_last_use := Some at\<rparr>"

definition note_def :: "nat \<Rightarrow> temp_life \<Rightarrow> temp_life" where
  "note_def at l = (if tl_def l = None then l\<lparr>tl_def := Some at\<rparr> else l)"

definition note_boundary :: "nat \<Rightarrow> temp_life \<Rightarrow> temp_life" where
  "note_boundary at l = l\<lparr>tl_at_boundary := True,
     tl_last_use := Some (case tl_last_use l of Some prev \<Rightarrow> max prev at | None \<Rightarrow> at)\<rparr>"

definition mark_temps :: "block \<Rightarrow> inst \<Rightarrow> temp list" where
  "mark_temps b x =
     (if i_op x = OP_INSN_START
      then (case nth_opt (b_marks b) (i_aux x) of Some mark \<Rightarrow> map snd (is_live mark) | None \<Rightarrow> [])
      else [])"

definition live_inst :: "block \<Rightarrow> liveness \<Rightarrow> nat \<Rightarrow> liveness" where
  "live_inst b lives i =
     (let at = as_u32 i; x = b_insts b ! i;
          l1 = foldl (life_at (note_use at)) lives (srcs b i);
          l2 = foldl (life_at (note_def at)) l1 (dsts x)
      in foldl (life_at (note_boundary at)) l2 (mark_temps b x))"

definition live_compute :: "block \<Rightarrow> liveness" where
  "live_compute b =
     foldl (live_inst b) (replicate (temp_count b) temp_life_default) [0..<length (b_insts b)]"

definition live_life :: "liveness \<Rightarrow> temp \<Rightarrow> temp_life option" where
  "live_life ls t = nth_opt ls t"

definition live_is_live :: "liveness \<Rightarrow> temp \<Rightarrow> bool" where
  "live_is_live ls t = (case live_life ls t of Some l \<Rightarrow> life_is_live l | None \<Rightarrow> False)"

definition live_iter :: "liveness \<Rightarrow> (temp \<times> temp_life) list" where
  "live_iter ls = map (\<lambda>(i, l). (as_u32 i, l)) (enumerate 0 ls)"

definition live_intervals :: "liveness \<Rightarrow> (temp \<times> nat \<times> nat) list" where
  "live_intervals ls =
     sort_key (\<lambda>(t, lo, hi). (lo, t))
       (List.map_filter (\<lambda>(t, l). map_option (\<lambda>(lo, hi). (t, lo, hi)) (life_interval l)) (live_iter ls))"

section \<open>Dead-code elimination\<close>

definition must_keep :: "opcode \<Rightarrow> mem_op option \<Rightarrow> bool \<Rightarrow> bool" where
  "must_keep p m has_result \<longleftrightarrow> \<not> has_result \<or> is_terminator p \<or> has_side_effect p
     \<or> (case m of Some m \<Rightarrow> m_volatile m | None \<Rightarrow> False)"

definition need :: "bool list \<Rightarrow> temp \<Rightarrow> bool list" where
  "need needed t = (if t < length needed then needed[t := True] else needed)"

definition seed_boundary :: "bool list \<Rightarrow> insn_start \<Rightarrow> bool list" where
  "seed_boundary needed mark = foldl need needed (map snd (is_live mark))"

definition dce_inst :: "block \<Rightarrow> nat \<Rightarrow> bool list \<times> bool list \<Rightarrow> bool list \<times> bool list" where
  "dce_inst b i st =
     (let x = b_insts b ! i; (needed, keep) = st;
          has_result = (dsts x \<noteq> []);
          result_live = list_ex (\<lambda>t. case nth_opt needed t of Some v \<Rightarrow> v | None \<Rightarrow> True) (dsts x)
      in if \<not> must_keep (i_op x) (i_mem x) has_result \<and> \<not> result_live then (needed, keep)
         else (foldl need needed (srcs b i), keep[i := True]))"

definition dce_walk :: "block \<Rightarrow> bool list \<times> bool list" where
  "dce_walk b =
     foldr (dce_inst b) [0..<length (b_insts b)]
       (foldl seed_boundary (replicate (temp_count b) False) (b_marks b), replicate (length (b_insts b)) False)"

definition eliminate_dead_code :: "block \<Rightarrow> block" where
  "eliminate_dead_code b = retain b (snd (dce_walk b))"

section \<open>Hoisting slot reads\<close>

definition branch_targets :: "block \<Rightarrow> bool list" where
  "branch_targets b =
     foldl (\<lambda>ts x. if i_op x = OP_BRCOND \<and> i_aux x < length ts then ts[i_aux x := True] else ts)
       (replicate (length (b_insts b)) False) (b_insts b)"

record hoist =
  ho_bound :: "reg_slot list"
  ho_hoists :: "(nat \<times> nat) list"
  ho_hoisted :: "bool list"
  ho_floor :: nat
  ho_moved :: bool

definition bind_slots :: "reg_slot list \<Rightarrow> insn_start \<Rightarrow> reg_slot list" where
  "bind_slots bound mark =
     foldl (\<lambda>bound slot. if slot \<in> set bound then bound else bound @ [slot]) bound (map fst (is_live mark))"

definition hoist_inst :: "block \<Rightarrow> bool list \<Rightarrow> hoist \<Rightarrow> nat \<Rightarrow> hoist" where
  "hoist_inst b targeted st i =
     (let x = b_insts b ! i;
          st = (if targeted ! i \<or> i_op x = OP_BRCOND \<or> i_op x = OP_CALL_HELPER \<or> is_terminator (i_op x)
                then st\<lparr>ho_floor := i + 1\<rparr> else st)
      in if i_op x = OP_INSN_START then
           (case nth_opt (b_marks b) (i_aux x) of
              Some mark \<Rightarrow> st\<lparr>ho_bound := bind_slots (ho_bound st) mark\<rparr>
            | None \<Rightarrow> st)
         else if i_op x \<noteq> OP_GET_SLOT then st
         else if targeted ! i \<or> as_u16 (i_aux x) \<in> set (ho_bound st) then st
         else if i \<le> ho_floor st then st\<lparr>ho_floor := i + 1\<rparr>
         else st\<lparr>ho_hoists := ho_hoists st @ [(as_u32 (ho_floor st), as_u32 i)],
                 ho_hoisted := (ho_hoisted st)[i := True], ho_moved := True\<rparr>)"

definition hoist_scan :: "block \<Rightarrow> hoist" where
  "hoist_scan b =
     (let n = length (b_insts b) in
      foldl (hoist_inst b (branch_targets b))
        \<lparr>ho_bound = [], ho_hoists = [], ho_hoisted = replicate n False, ho_floor = 0, ho_moved = False\<rparr>
        [0..<n])"

fun hoist_order :: "(nat \<times> bool) list \<Rightarrow> (nat \<times> nat) list \<Rightarrow> nat list" where
  "hoist_order [] hs = []"
| "hoist_order ((i, moved_here) # is) hs =
     map snd (takeWhile (\<lambda>h. fst h = i) hs) @ (if moved_here then [] else [i])
       @ hoist_order is (dropWhile (\<lambda>h. fst h = i) hs)"

definition hoist_slot_reads :: "block \<Rightarrow> block" where
  "hoist_slot_reads b =
     (let st = hoist_scan b in
      if \<not> ho_moved st then b
      else reorder b (hoist_order (enumerate 0 (ho_hoisted st)) (ho_hoists st)))"

section \<open>What the backward walk computes\<close>

lemma length_need [simp]: "length (foldl need nd ts) = length nd"
  by (induction ts arbitrary: nd) (simp_all add: need_def)

lemma nth_need: "t < length nd \<Longrightarrow> foldl need nd ts ! t \<longleftrightarrow> nd ! t \<or> t \<in> set ts"
  by (induction ts arbitrary: nd) (auto simp: need_def nth_list_update)

lemma length_seed [simp]: "length (foldl seed_boundary nd ms) = length nd"
  by (induction ms arbitrary: nd) (simp_all add: seed_boundary_def)

lemma nth_seed:
  "t < length nd \<Longrightarrow> foldl seed_boundary nd ms ! t \<longleftrightarrow> nd ! t \<or> (\<exists>m\<in>set ms. t \<in> snd ` set (is_live m))"
  by (induction ms arbitrary: nd) (auto simp: seed_boundary_def nth_need)

text \<open>The state of the walk once the instructions from \<open>i\<close> on are decided.\<close>

definition dce_from :: "block \<Rightarrow> nat \<Rightarrow> bool list \<times> bool list" where
  "dce_from b i = foldr (dce_inst b) [i..<length (b_insts b)]
     (foldl seed_boundary (replicate (temp_count b) False) (b_marks b), replicate (length (b_insts b)) False)"

definition kept :: "block \<Rightarrow> nat \<Rightarrow> bool" where
  "kept b i \<longleftrightarrow> i < length (b_insts b) \<and> snd (dce_walk b) ! i"

definition needed :: "block \<Rightarrow> temp \<Rightarrow> bool" where
  "needed b t \<longleftrightarrow> t < temp_count b \<and> fst (dce_walk b) ! t"

definition keeps :: "block \<Rightarrow> inst \<Rightarrow> (temp \<Rightarrow> bool) \<Rightarrow> bool" where
  "keeps b x nd \<longleftrightarrow> must_keep (i_op x) (i_mem x) (dsts x \<noteq> []) \<or> (\<exists>t\<in>set (dsts x). temp_count b \<le> t \<or> nd t)"

lemma dce_from_step: "i < length (b_insts b) \<Longrightarrow> dce_from b i = dce_inst b i (dce_from b (Suc i))"
  by (simp add: dce_from_def upt_conv_Cons)

lemma dce_from_end: "length (b_insts b) \<le> i \<Longrightarrow>
    dce_from b i = (foldl seed_boundary (replicate (temp_count b) False) (b_marks b), replicate (length (b_insts b)) False)"
  by (simp add: dce_from_def)

lemma dce_inst_eq:
  assumes "length (fst st) = temp_count b"
  shows "dce_inst b i st = (if keeps b (b_insts b ! i) (\<lambda>t. fst st ! t)
      then (foldl need (fst st) (srcs b i), (snd st)[i := True]) else st)"
  using assms by (cases st) (auto simp: dce_inst_def keeps_def Let_def list_ex_iff nth_opt_def)

lemma dce_from_length:
  "length (fst (dce_from b i)) = temp_count b \<and> length (snd (dce_from b i)) = length (b_insts b)"
proof (induction "length (b_insts b) - i" arbitrary: i)
  case 0
  then show ?case by (simp add: dce_from_end)
next
  case (Suc n)
  then have "n = length (b_insts b) - Suc i" "i < length (b_insts b)" by auto
  with Suc(1) [of "Suc i"] show ?case by (simp add: dce_from_step dce_inst_eq)
qed

definition seeded :: "block \<Rightarrow> temp \<Rightarrow> bool" where
  "seeded b t \<longleftrightarrow> (\<exists>m\<in>set (b_marks b). t \<in> snd ` set (is_live m))"

definition decided :: "block \<Rightarrow> nat \<Rightarrow> bool" where
  "decided b i \<longleftrightarrow> keeps b (b_insts b ! i) (\<lambda>t. fst (dce_from b (Suc i)) ! t)"

lemma dce_from_keep:
  "j < length (b_insts b) \<Longrightarrow> snd (dce_from b i) ! j \<longleftrightarrow> i \<le> j \<and> decided b j"
proof (induction "length (b_insts b) - i" arbitrary: i)
  case 0
  then show ?case by (simp add: dce_from_end)
next
  case (Suc n)
  then have i: "n = length (b_insts b) - Suc i" "i < length (b_insts b)" by auto
  have "dce_from b i = (if decided b i then (foldl need (fst (dce_from b (Suc i))) (srcs b i),
      (snd (dce_from b (Suc i)))[i := True]) else dce_from b (Suc i))"
    using dce_from_length [of b "Suc i"] by (simp add: dce_from_step [OF i(2)] dce_inst_eq decided_def)
  then show ?case
    using Suc(1) [OF i(1) Suc.prems] Suc.prems dce_from_length [of b "Suc i"]
    by (cases "i = j") (auto simp: nth_list_update Suc_le_eq le_less)
qed

lemma dce_from_need:
  "t < temp_count b \<Longrightarrow> fst (dce_from b i) ! t \<longleftrightarrow>
     seeded b t \<or> (\<exists>j. i \<le> j \<and> j < length (b_insts b) \<and> decided b j \<and> t \<in> set (srcs b j))"
proof (induction "length (b_insts b) - i" arbitrary: i)
  case 0
  then show ?case by (auto simp: dce_from_end nth_seed seeded_def)
next
  case (Suc n)
  then have i: "n = length (b_insts b) - Suc i" "i < length (b_insts b)" by auto
  have "(\<exists>j. i \<le> j \<and> j < length (b_insts b) \<and> decided b j \<and> t \<in> set (srcs b j)) \<longleftrightarrow>
      decided b i \<and> t \<in> set (srcs b i)
      \<or> (\<exists>j. Suc i \<le> j \<and> j < length (b_insts b) \<and> decided b j \<and> t \<in> set (srcs b j))"
    using i(2) by (metis Suc_leD Suc_leI le_neq_implies_less order_refl)
  then show ?case
    using Suc(1) [OF i(1) Suc.prems] Suc.prems dce_from_length [of b "Suc i"]
    by (auto simp: dce_from_step [OF i(2)] dce_inst_eq decided_def [of b i] nth_need)
qed

lemma kept_decided: "kept b i \<longleftrightarrow> i < length (b_insts b) \<and> decided b i"
  using dce_from_keep [of i b 0] by (auto simp: kept_def dce_walk_def dce_from_def)

lemma needed_iff:
  "needed b t \<longleftrightarrow> t < temp_count b \<and> (seeded b t \<or> (\<exists>j. kept b j \<and> t \<in> set (srcs b j)))"
  using dce_from_need [of t b 0] by (auto simp: needed_def dce_walk_def dce_from_def kept_decided)

text \<open>
  In a well-formed block a value is used after it is produced, so what the walk
  knows when it decides an instruction is already final.
\<close>

lemma kept_iff:
  assumes "well_formed b" "i < length (b_insts b)"
  shows "kept b i \<longleftrightarrow> keeps b (b_insts b ! i) (needed b)"
proof -
  have ok: "inst_ok b j" if "j < length (b_insts b)" for j using assms(1) that by (simp add: well_formed_def)
  have "fst (dce_from b (Suc i)) ! t \<longleftrightarrow> needed b t" if t: "t \<in> set (dsts (b_insts b ! i))" for t
  proof -
    have tc: "t < temp_count b" using ok [OF assms(2)] t by (auto simp: inst_ok_def Let_def)
    have "i < j" if j: "kept b j" "t \<in> set (srcs b j)" for j
    proof -
      have jn: "j < length (b_insts b)" using j(1) by (simp add: kept_def)
      then have "assigned_before b j t" using ok [OF jn] j(2) by (auto simp: inst_ok_def Let_def)
      moreover have "\<not> assigned_before b i t" using ok [OF assms(2)] t by (auto simp: inst_ok_def Let_def)
      ultimately have "\<not> j \<le> i" unfolding assigned_before_def by (meson less_le_trans)
      then show ?thesis by simp
    qed
    then show ?thesis
      unfolding dce_from_need [OF tc] needed_iff using tc by (auto simp: kept_decided Suc_le_eq)
  qed
  then show ?thesis using assms(2) by (auto simp: kept_decided decided_def keeps_def)
qed

lemma needed_def_kept:
  assumes "well_formed b" "i < length (b_insts b)" "t \<in> set (dsts (b_insts b ! i))" "needed b t"
  shows "kept b i"
  using assms by (auto simp: kept_iff keeps_def)

lemma kept_srcs_needed:
  assumes "well_formed b" "kept b i" "t \<in> set (srcs b i)"
  shows "needed b t"
  using assms by (auto simp: needed_iff well_formed_def inst_ok_def Let_def kept_def)

section \<open>The eliminated block\<close>

lemma alive_dce: "i < length (b_insts b) \<Longrightarrow> alive (snd (dce_walk b)) i \<longleftrightarrow> kept b i"
  using dce_from_length [of b 0] by (simp add: alive_def kept_def dce_walk_def dce_from_def)

text \<open>The new index of an instruction: how many kept ones precede it.\<close>

definition dce_index :: "block \<Rightarrow> nat \<Rightarrow> nat" where
  "dce_index b i = count_below (kept b) i"

lemma count_below_cong: "(\<And>j. j < i \<Longrightarrow> P j = Q j) \<Longrightarrow> count_below P i = count_below Q i"
  by (induction i) auto

lemma dce_index_alive: "i \<le> length (b_insts b) \<Longrightarrow> count_below (alive (snd (dce_walk b))) i = dce_index b i"
  unfolding dce_index_def by (rule count_below_cong) (simp add: alive_dce)

lemma dce_index_mono: "i \<le> j \<Longrightarrow> dce_index b i \<le> dce_index b j"
  by (simp add: dce_index_def count_below_mono)

lemma dce_index_less: "i < j \<Longrightarrow> kept b i \<Longrightarrow> dce_index b i < dce_index b j"
  by (simp add: dce_index_def count_below_strict)

lemma dce_index_inj: "kept b i \<Longrightarrow> kept b j \<Longrightarrow> dce_index b i = dce_index b j \<Longrightarrow> i = j"
  using dce_index_less by (metis less_irrefl linorder_neqE_nat)

lemma dce_frame:
  assumes "block_wf b" "length (b_insts b) < 2 ^ 32"
  shows "length (b_insts (eliminate_dead_code b)) = dce_index b (length (b_insts b))"
    and "b_marks (eliminate_dead_code b) = b_marks b" "b_types (eliminate_dead_code b) = b_types b"
    and "b_entry_pc (eliminate_dead_code b) = b_entry_pc b" "block_wf (eliminate_dead_code b)"
  using retain_insts [OF assms, of "snd (dce_walk b)"]
  by (simp_all add: eliminate_dead_code_def dce_index_alive)

text \<open>Every instruction of the result is a kept one of the input, and a branch follows its target.\<close>

lemma dce_nth:
  assumes "block_wf b" "length (b_insts b) < 2 ^ 32" "kept b i"
  defines "x \<equiv> b_insts b ! i" and "y \<equiv> b_insts (eliminate_dead_code b) ! dce_index b i"
  shows "srcs (eliminate_dead_code b) (dce_index b i) = srcs b i"
    and "\<exists>st. y = x\<lparr>i_src_start := st, i_aux := (if i_op x = OP_BRCOND
       then dce_index b (min (i_aux x) (length (b_insts b))) else i_aux x)\<rparr>"
proof -
  have i: "i < length (b_insts b)" using assms(3) by (simp add: kept_def)
  with assms(3) have "alive (snd (dce_walk b)) i" by (simp add: alive_dce)
  note i = i this
  note r = retain_nth [OF assms(1,2) i]
  have c: "(if a \<le> length (b_insts b) then count_below (alive (snd (dce_walk b))) a
      else count_below (alive (snd (dce_walk b))) (length (b_insts b))) = dce_index b (min a (length (b_insts b)))" for a
    by (simp add: min_def dce_index_alive)
  show "srcs (eliminate_dead_code b) (dce_index b i) = srcs b i"
    using r(1) i(1) by (simp add: eliminate_dead_code_def dce_index_alive)
  show "\<exists>st. y = x\<lparr>i_src_start := st, i_aux := (if i_op x = OP_BRCOND
       then dce_index b (min (i_aux x) (length (b_insts b))) else i_aux x)\<rparr>"
    using r(2) unfolding c dce_index_alive [OF less_imp_le [OF i(1)]] eliminate_dead_code_def x_def y_def .
qed

lemma dce_index_onto:
  "k < dce_index b n \<Longrightarrow> \<exists>i<n. kept b i \<and> dce_index b i = k"
proof (induction n)
  case (Suc n)
  show ?case
  proof (cases "k < dce_index b n")
    case True
    with Suc.IH show ?thesis using less_SucI by blast
  next
    case False
    with Suc.prems have "kept b n" "dce_index b n = k" by (auto simp: dce_index_def split: if_splits)
    then show ?thesis by blast
  qed
qed (simp add: dce_index_def)

end
