(* ===== verification/Ir_Interp.thy ===== *)
theory Ir_Interp
  imports Ir_Eval
begin

text \<open>
  The portable interpreter, \<open>ir/interp.rs\<close>: \<open>Interp\<close>, the host interface
  \<open>IrHost\<close> as a record of operations over an abstract host state, publication of
  live slots, and \<open>step\<close>, \<open>execute\<close> and \<open>run\<close>. State changes made before an
  error are kept, as in the source, since \<open>run\<close> publishes on the way out of an
  error too.
\<close>

section \<open>The host\<close>

record 'h ir_host =
  h_read_slot :: "reg_slot \<Rightarrow> 'h \<Rightarrow> u128 \<times> 'h"
  h_write_slot :: "reg_slot \<Rightarrow> u128 \<Rightarrow> 'h \<Rightarrow> 'h"
  h_load :: "mem_op \<Rightarrow> u64 \<Rightarrow> 'h \<Rightarrow> (bus_error + u64) \<times> 'h"
  h_store :: "mem_op \<Rightarrow> u64 \<Rightarrow> u64 \<Rightarrow> 'h \<Rightarrow> (bus_error + unit) \<times> 'h"
  h_charge :: "u64 \<Rightarrow> 'h \<Rightarrow> 'h"
  h_insn_start :: "insn_start \<Rightarrow> 'h \<Rightarrow> 'h"
  h_spent :: "'h \<Rightarrow> bool"
  h_rmw :: "opcode \<Rightarrow> mem_op \<Rightarrow> u64 \<Rightarrow> u64 \<Rightarrow> u64 \<Rightarrow> 'h \<Rightarrow> (bus_error + u64) \<times> 'h"
  h_fence :: "'h \<Rightarrow> 'h"
  h_call_helper :: "nat \<Rightarrow> u128 list \<Rightarrow> 'h \<Rightarrow> (ir_msg error + u128 \<times> u128) \<times> 'h"

text \<open>The default methods of the trait.\<close>

definition default_spent :: "'h \<Rightarrow> bool" where
  "default_spent h = False"

definition default_rmw :: "opcode \<Rightarrow> mem_op \<Rightarrow> u64 \<Rightarrow> u64 \<Rightarrow> u64 \<Rightarrow> 'h \<Rightarrow> (bus_error + u64) \<times> 'h" where
  "default_rmw p m addr arg cmp h = (Inl BadAccess, h)"

definition default_call_helper :: "nat \<Rightarrow> u128 list \<Rightarrow> 'h \<Rightarrow> (ir_msg error + u128 \<times> u128) \<times> 'h" where
  "default_call_helper hid args h = (Inl (Unimplemented (HostMessage ''an IR helper call'')), h)"

section \<open>Outcomes and interpreter state\<close>

record fault =
  f_error :: bus_error
  f_at :: nat
  f_mark :: "nat option"
  f_pc :: u64
  f_retired_ticks :: u64
  f_charged_ticks :: u64
  f_restartable :: bool

datatype outcome =
    Exit
  | Goto u64
  | Lookup u64
  | Spent u64
  | Fault fault
  | Unsupported opcode nat

datatype step = Next | Jump nat | Done outcome

record interp =
  s_temps :: "u128 list"
  s_args :: "u128 list"
  s_ticks :: u64
  s_mark :: "nat option"
  s_published :: bool
  s_boundaries :: u64
  s_boundary_pc :: u64
  s_retired :: u64
  s_committed :: bool

definition interp_new :: interp where
  "interp_new = \<lparr>s_temps = [], s_args = [], s_ticks = 0, s_mark = None, s_published = False,
     s_boundaries = 0, s_boundary_pc = 0, s_retired = 0, s_committed = False\<rparr>"

type_synonym 'h step_result = "(ir_msg error + step) \<times> interp \<times> 'h"

definition ir_err :: "nat \<Rightarrow> opcode \<Rightarrow> ir_what \<Rightarrow> ir_msg error" where
  "ir_err at p w = Ir (IrAt at p w)"

section \<open>Temporaries\<close>

definition set_temp :: "block \<Rightarrow> temp \<Rightarrow> u128 \<Rightarrow> u128 list \<Rightarrow> ir_what + u128 list" where
  "set_temp b t v temps =
     (case type_of b t of
        None \<Rightarrow> Inl ResultUnallocated
      | Some ty \<Rightarrow>
          if t < length temps then Inr (temps[t := v AND mask_bits (ty_bits ty)])
          else Inl ResultUnallocated)"

definition write_dst :: "block \<Rightarrow> inst \<Rightarrow> u128 \<Rightarrow> u128 list \<Rightarrow> ir_what + u128 list" where
  "write_dst b x v temps =
     (case i_dst x of Some d \<Rightarrow> set_temp b d v temps | None \<Rightarrow> Inl NeedsDestination)"

text \<open>
  Writing what an evaluator produced: \<open>write\<close> for the first value, then, where
  the operation has one, \<open>set\<close> for the second, whose destination must exist.
\<close>

definition commit_eval :: "block \<Rightarrow> inst \<Rightarrow> nat \<Rightarrow> eval \<Rightarrow> u128 list \<Rightarrow> (ir_what + step) \<times> u128 list" where
  "commit_eval b x at ev temps =
     (case ev of
        NoSupport \<Rightarrow> (Inr (Done (Unsupported (i_op x) at)), temps)
      | One v \<Rightarrow>
          (case write_dst b x v temps of
             Inl w \<Rightarrow> (Inl w, temps)
           | Inr temps' \<Rightarrow> (Inr Next, temps'))
      | Two v v2 missing \<Rightarrow>
          (case write_dst b x v temps of
             Inl w \<Rightarrow> (Inl w, temps)
           | Inr temps' \<Rightarrow>
               (case i_dst2 x of
                  None \<Rightarrow> (Inl missing, temps')
                | Some d2 \<Rightarrow>
                    (case set_temp b d2 v2 temps' of
                       Inl w \<Rightarrow> (Inl w, temps')
                     | Inr temps'' \<Rightarrow> (Inr Next, temps'')))))"

section \<open>Publication\<close>

definition current_mark :: "block \<Rightarrow> interp \<Rightarrow> insn_start option" where
  "current_mark b s = (case s_mark s of None \<Rightarrow> None | Some m \<Rightarrow> nth_opt (b_marks b) m)"

definition publish_live :: "'h ir_host \<Rightarrow> u128 list \<Rightarrow> (reg_slot \<times> temp) list \<Rightarrow> 'h \<Rightarrow> 'h" where
  "publish_live H temps live h =
     foldl (\<lambda>h (slot, t). case nth_opt temps t of Some v \<Rightarrow> h_write_slot H slot v h | None \<Rightarrow> h) h live"

definition publish :: "'h ir_host \<Rightarrow> block \<Rightarrow> interp \<Rightarrow> 'h \<Rightarrow> interp \<times> 'h" where
  "publish H b s h =
     (if s_published s then (s, h)
      else
        (s\<lparr>s_published := True\<rparr>,
         case current_mark b s of
           None \<Rightarrow> h
         | Some mark \<Rightarrow> publish_live H (s_temps s) (is_live mark) h))"

definition shadowed :: "block \<Rightarrow> interp \<Rightarrow> reg_slot \<Rightarrow> bool" where
  "shadowed b s slot \<longleftrightarrow> \<not> s_published s \<and>
     (case current_mark b s of None \<Rightarrow> False | Some mark \<Rightarrow> slot \<in> fst ` set (is_live mark))"

section \<open>Steps\<close>

definition raise :: "nat \<Rightarrow> inst \<Rightarrow> ir_what \<Rightarrow> interp \<Rightarrow> 'h \<Rightarrow> 'h step_result" where
  "raise at x w s h = (Inl (ir_err at (i_op x) w), s, h)"

definition take_fault :: "interp \<Rightarrow> nat \<Rightarrow> bus_error \<Rightarrow> ir_msg error + step" where
  "take_fault s at e =
     (if e = Retry \<and> s_committed s then Inl (Bus Retry)
      else Inr (Done (Fault
        \<lparr>f_error = e, f_at = at, f_mark = s_mark s, f_pc = s_boundary_pc s,
         f_retired_ticks = s_retired s, f_charged_ticks = s_ticks s,
         f_restartable = \<not> s_committed s\<rparr>)))"

definition finish :: "block \<Rightarrow> inst \<Rightarrow> nat \<Rightarrow> eval \<Rightarrow> interp \<Rightarrow> 'h \<Rightarrow> 'h step_result" where
  "finish b x at ev s h =
     (let (r, temps) = commit_eval b x at ev (s_temps s) in
      (map_err (ir_err at (i_op x)) r, s\<lparr>s_temps := temps\<rparr>, h))"

definition step_pure ::
  "(inst \<Rightarrow> operand list \<Rightarrow> ir_what + eval) \<Rightarrow> block \<Rightarrow> inst \<Rightarrow> nat \<Rightarrow> operand list \<Rightarrow> interp \<Rightarrow> 'h \<Rightarrow> 'h step_result" where
  "step_pure f b x at os s h =
     (case f x os of Inl w \<Rightarrow> raise at x w s h | Inr ev \<Rightarrow> finish b x at ev s h)"

definition step_get_slot :: "'h ir_host \<Rightarrow> block \<Rightarrow> inst \<Rightarrow> nat \<Rightarrow> interp \<Rightarrow> 'h \<Rightarrow> 'h step_result" where
  "step_get_slot H b x at s h =
     (let slot = as_u16 (i_aux x);
          (s1, h1) = (if shadowed b s slot then publish H b s h else (s, h));
          (v, h2) = h_read_slot H slot h1
      in finish b x at (One v) s1 h2)"

definition step_brcond :: "inst \<Rightarrow> nat \<Rightarrow> operand list \<Rightarrow> interp \<Rightarrow> 'h \<Rightarrow> 'h step_result" where
  "step_brcond x at os s h =
     (case eval_brcond x os of
        Inl w \<Rightarrow> raise at x w s h
      | Inr taken \<Rightarrow> (Inr (if taken then Jump (i_aux x) else Next), s, h))"

definition load_value :: "mem_op \<Rightarrow> u64 \<Rightarrow> u128" where
  "load_value m raw =
     (let v = ucast raw AND mask_bits (width_bits (m_size m)) in
      case m_sign m of Unsigned \<Rightarrow> v | Signed \<Rightarrow> sext v (width_bits (m_size m)))"

definition step_ld :: "'h ir_host \<Rightarrow> block \<Rightarrow> inst \<Rightarrow> nat \<Rightarrow> operand list \<Rightarrow> interp \<Rightarrow> 'h \<Rightarrow> 'h step_result" where
  "step_ld H b x at os s h =
     (case i_mem x of
        None \<Rightarrow> raise at x NeedsMemOp s h
      | Some m \<Rightarrow>
          (case fetch os 0 of
             Inl w \<Rightarrow> raise at x w s h
           | Inr addr \<Rightarrow>
               let s1 = (if m_volatile m then s\<lparr>s_committed := True\<rparr> else s);
                   (r, h1) = h_load H m (ucast addr) h
               in case r of
                    Inl e \<Rightarrow> (take_fault s1 at e, s1, h1)
                  | Inr raw \<Rightarrow> finish b x at (One (load_value m raw)) s1 h1))"

definition step_st :: "'h ir_host \<Rightarrow> inst \<Rightarrow> nat \<Rightarrow> operand list \<Rightarrow> interp \<Rightarrow> 'h \<Rightarrow> 'h step_result" where
  "step_st H x at os s h =
     (case i_mem x of
        None \<Rightarrow> raise at x NeedsMemOp s h
      | Some m \<Rightarrow>
          (case rbind (fetch os 0) (\<lambda>addr. rbind (fetch os 1) (\<lambda>v. Inr (addr, v))) of
             Inl w \<Rightarrow> raise at x w s h
           | Inr (addr, v) \<Rightarrow>
               let s1 = s\<lparr>s_committed := True\<rparr>;
                   (r, h1) = h_store H m (ucast addr) (ucast v AND width_mask (m_size m)) h
               in case r of
                    Inl e \<Rightarrow> (take_fault s1 at e, s1, h1)
                  | Inr _ \<Rightarrow> (Inr Next, s1, h1)))"

text \<open>An optional result: \<open>if let Some(dst) = ... \<close>.\<close>

definition set_opt :: "block \<Rightarrow> temp option \<Rightarrow> u128 \<Rightarrow> u128 list \<Rightarrow> ir_what + u128 list" where
  "set_opt b d v temps = (case d of None \<Rightarrow> Inr temps | Some t \<Rightarrow> set_temp b t v temps)"

definition set_both :: "block \<Rightarrow> inst \<Rightarrow> nat \<Rightarrow> u128 \<Rightarrow> temp option \<Rightarrow> u128 \<Rightarrow> interp \<Rightarrow> 'h \<Rightarrow> 'h step_result" where
  "set_both b x at v d2 v2 s h =
     (case set_opt b (i_dst x) v (s_temps s) of
        Inl w \<Rightarrow> raise at x w s h
      | Inr t1 \<Rightarrow>
          let s1 = s\<lparr>s_temps := t1\<rparr> in
          case set_opt b d2 v2 t1 of
            Inl w \<Rightarrow> raise at x w s1 h
          | Inr t2 \<Rightarrow> (Inr Next, s\<lparr>s_temps := t2\<rparr>, h))"

definition atomic :: "'h ir_host \<Rightarrow> block \<Rightarrow> inst \<Rightarrow> nat \<Rightarrow> operand list \<Rightarrow> interp \<Rightarrow> 'h \<Rightarrow> 'h step_result" where
  "atomic H b x at os s h =
     (let p = i_op x in
      case (if i_ty x = I32 then Some U32 else if i_ty x = I64 then Some U64 else None) of
        None \<Rightarrow> raise at x AtomicType s h
      | Some w \<Rightarrow>
          let m = (mem_load w)\<lparr>m_kind := (if p = OP_LD_EXCL then Load else Store), m_volatile := True\<rparr> in
          case rbind (fetch os 0) (\<lambda>addr.
                 if p = OP_LD_EXCL then Inr (addr, 0, 0)
                 else if p = OP_CMPXCHG then
                   rbind (fetch os 2) (\<lambda>arg. rbind (fetch os 1) (\<lambda>cmp. Inr (addr, arg, cmp)))
                 else rbind (fetch os 1) (\<lambda>arg. Inr (addr, arg, 0))) of
            Inl wh \<Rightarrow> raise at x wh s h
          | Inr (addr, arg, cmp) \<Rightarrow>
              let s1 = s\<lparr>s_committed := True\<rparr>;
                  (r, h1) = h_rmw H p m (ucast addr) (ucast arg) (ucast cmp) h
              in case r of
                   Inl e \<Rightarrow> (take_fault s1 at e, s1, h1)
                 | Inr previous \<Rightarrow>
                     set_both b x at (ucast previous)
                       (if p = OP_CMPXCHG then i_dst2 x else None)
                       (if previous = ucast cmp then 1 else 0) s1 h1)"

fun gather :: "operand list \<Rightarrow> u128 list \<Rightarrow> (ir_what + unit) \<times> u128 list" where
  "gather [] acc = (Inr (), acc)"
| "gather ((ty, v) # os) acc =
     (case v of None \<Rightarrow> (Inl OperandUnallocated, acc) | Some v \<Rightarrow> gather os (acc @ [v]))"

definition step_call_helper :: "'h ir_host \<Rightarrow> block \<Rightarrow> inst \<Rightarrow> nat \<Rightarrow> operand list \<Rightarrow> interp \<Rightarrow> 'h \<Rightarrow> 'h step_result" where
  "step_call_helper H b x at os s h =
     (case gather os [] of
        (Inl w, acc) \<Rightarrow> raise at x w (s\<lparr>s_args := acc\<rparr>) h
      | (Inr _, acc) \<Rightarrow>
          let (s1, h1) = publish H b (s\<lparr>s_args := acc, s_committed := True\<rparr>) h;
              (r, h2) = h_call_helper H (i_aux x) acc h1
          in case r of
               Inl e \<Rightarrow> (Inl e, s1, h2)
             | Inr (v1, v2) \<Rightarrow> set_both b x at v1 (i_dst2 x) v2 s1 h2)"

definition step_charge :: "'h ir_host \<Rightarrow> inst \<Rightarrow> nat \<Rightarrow> interp \<Rightarrow> 'h \<Rightarrow> 'h step_result" where
  "step_charge H x at s h =
     (case i_imm x of
        None \<Rightarrow> raise at x ChargeNeedsTicks s h
      | Some c \<Rightarrow>
          let t = ucast (const_bits c) :: u64 in
          (Inr Next, s\<lparr>s_ticks := s_ticks s + t, s_committed := True\<rparr>, h_charge H t h))"

definition next_is_terminator :: "block \<Rightarrow> nat \<Rightarrow> bool" where
  "next_is_terminator b at =
     (case nth_opt (b_insts b) (at + 1) of None \<Rightarrow> False | Some y \<Rightarrow> is_terminator (i_op y))"

definition step_insn_start :: "'h ir_host \<Rightarrow> block \<Rightarrow> inst \<Rightarrow> nat \<Rightarrow> interp \<Rightarrow> 'h \<Rightarrow> 'h step_result" where
  "step_insn_start H b x at s h =
     (case nth_opt (b_marks b) (i_aux x) of
        None \<Rightarrow> raise at x BadMark s h
      | Some mark \<Rightarrow>
          let s1 = s\<lparr>s_mark := Some (i_aux x), s_published := False, s_boundaries := s_boundaries s + 1,
                     s_boundary_pc := is_pc mark, s_retired := s_ticks s, s_committed := False\<rparr>;
              h1 = h_insn_start H mark h
          in if 1 < s_boundaries s1 \<and> h_spent H h1 \<and> \<not> next_is_terminator b at
             then (Inr (Done (Spent (is_pc mark))), s1, h1)
             else (Inr Next, s1, h1))"

definition step_goto :: "inst \<Rightarrow> nat \<Rightarrow> interp \<Rightarrow> 'h \<Rightarrow> 'h step_result" where
  "step_goto x at s h =
     (case i_imm x of
        None \<Rightarrow> raise at x GotoNeedsPc s h
      | Some c \<Rightarrow> (Inr (Done (Goto (ucast (const_bits c)))), s, h))"

definition step_lookup :: "inst \<Rightarrow> nat \<Rightarrow> operand list \<Rightarrow> interp \<Rightarrow> 'h \<Rightarrow> 'h step_result" where
  "step_lookup x at os s h =
     (case fetch os 0 of
        Inl w \<Rightarrow> raise at x w s h
      | Inr v \<Rightarrow> (Inr (Done (Lookup (ucast v))), s, h))"

text \<open>\<open>Interp::step\<close>: the \<open>match\<close> on the opcode.\<close>

definition step_op :: "'h ir_host \<Rightarrow> block \<Rightarrow> inst \<Rightarrow> nat \<Rightarrow> operand list \<Rightarrow> interp \<Rightarrow> 'h \<Rightarrow> 'h step_result" where
  "step_op H b x at os s h =
     (let p = i_op x in
      case pure_eval p of
        Some f \<Rightarrow> step_pure f b x at os s h
      | None \<Rightarrow>
          if p = OP_GET_SLOT then step_get_slot H b x at s h
          else if p = OP_BRCOND then step_brcond x at os s h
          else if p = OP_LD then step_ld H b x at os s h
          else if p = OP_ST then step_st H x at os s h
          else if p = OP_FENCE then (Inr Next, s\<lparr>s_committed := True\<rparr>, h_fence H h)
          else if p = OP_CMPXCHG \<or> p = OP_XCHG \<or> p = OP_LD_EXCL \<or> p = OP_ST_EXCL \<or> is_fetch p
            then atomic H b x at os s h
          else if p = OP_GOTO_TB then step_goto x at s h
          else if p = OP_EXIT_TB then (Inr (Done Exit), s, h)
          else if p = OP_LOOKUP_AND_GOTO then step_lookup x at os s h
          else if p = OP_CALL_HELPER then step_call_helper H b x at os s h
          else if p = OP_CHARGE then step_charge H x at s h
          else if p = OP_INSN_START then step_insn_start H b x at s h
          else (Inr (Done (Unsupported p at)), s, h))"

definition step_at :: "'h ir_host \<Rightarrow> block \<Rightarrow> nat \<Rightarrow> interp \<Rightarrow> 'h \<Rightarrow> 'h step_result" where
  "step_at H b at s h =
     step_op H b (b_insts b ! at) at (operands b (s_temps s) (srcs b at)) s h"

section \<open>Running a block\<close>

definition STEP_LIMIT :: nat where "STEP_LIMIT = 2 ^ 24"

function execute :: "'h ir_host \<Rightarrow> block \<Rightarrow> nat \<Rightarrow> nat \<Rightarrow> interp \<Rightarrow> 'h \<Rightarrow> (ir_msg error + outcome) \<times> interp \<times> 'h" where
  "execute H b at steps s h =
     (if length (b_insts b) \<le> at then (Inl (Ir (RanOffEnd (b_entry_pc b))), s, h)
      else if STEP_LIMIT < steps + 1 then (Inl (Ir (NotTerminated (b_entry_pc b) STEP_LIMIT)), s, h)
      else
        let (r, s', h') = step_at H b at s h in
        case r of
          Inl e \<Rightarrow> (Inl e, s', h')
        | Inr Next \<Rightarrow> execute H b (at + 1) (steps + 1) s' h'
        | Inr (Jump target) \<Rightarrow>
            if length (b_insts b) \<le> target
            then (Inl (ir_err at (i_op (b_insts b ! at)) TargetOutside), s', h')
            else execute H b target (steps + 1) s' h'
        | Inr (Done o') \<Rightarrow> (Inr o', s', h'))"
  by pat_completeness auto
termination
  by (relation "measure (\<lambda>(H, b, at, steps, s, h). STEP_LIMIT - steps)") auto

declare execute.simps [simp del]

definition run_start :: "block \<Rightarrow> interp \<Rightarrow> interp" where
  "run_start b s = s\<lparr>s_temps := replicate (temp_count b) 0, s_args := [], s_ticks := 0, s_mark := None,
     s_published := True, s_boundaries := 0, s_boundary_pc := b_entry_pc b, s_retired := 0,
     s_committed := False\<rparr>"

definition run :: "'h ir_host \<Rightarrow> block \<Rightarrow> interp \<Rightarrow> 'h \<Rightarrow> (ir_msg error + outcome) \<times> interp \<times> 'h" where
  "run H b s h =
     (let (r, s1, h1) = execute H b 0 0 (run_start b s) h;
          (s2, h2) = publish H b s1 h1
      in (r, s2, h2))"

end
