(* ===== verification/Ir_Run.thy ===== *)
theory Ir_Run
  imports Ir_Interp
begin

text \<open>
  What running a block guarantees, whatever the block and the host: the
  invariants of the interpreter state that every step keeps, and what they say
  about the outcome. For verified blocks, the errors a run can still end in.
\<close>

section \<open>The arms of \<open>step\<close>\<close>

lemma step_op_cases:
  obtains (pure) f where "pure_eval (i_op x) = Some f" "step_op H b x at os s h = step_pure f b x at os s h"
    | (get_slot) "i_op x = OP_GET_SLOT" "step_op H b x at os s h = step_get_slot H b x at s h"
    | (brcond) "i_op x = OP_BRCOND" "step_op H b x at os s h = step_brcond x at os s h"
    | (ld) "i_op x = OP_LD" "step_op H b x at os s h = step_ld H b x at os s h"
    | (st) "i_op x = OP_ST" "step_op H b x at os s h = step_st H x at os s h"
    | (fence) "i_op x = OP_FENCE" "step_op H b x at os s h = (Inr Next, s\<lparr>s_committed := True\<rparr>, h_fence H h)"
    | (atomic) "i_op x \<in> {OP_CMPXCHG, OP_XCHG, OP_LD_EXCL, OP_ST_EXCL} \<or> is_fetch (i_op x)"
        "step_op H b x at os s h = atomic H b x at os s h"
    | (goto) "i_op x = OP_GOTO_TB" "step_op H b x at os s h = step_goto x at s h"
    | (exit) "i_op x = OP_EXIT_TB" "step_op H b x at os s h = (Inr (Done Exit), s, h)"
    | (lookup) "i_op x = OP_LOOKUP_AND_GOTO" "step_op H b x at os s h = step_lookup x at os s h"
    | (call) "i_op x = OP_CALL_HELPER" "step_op H b x at os s h = step_call_helper H b x at os s h"
    | (charge) "i_op x = OP_CHARGE" "step_op H b x at os s h = step_charge H x at s h"
    | (start) "i_op x = OP_INSN_START" "step_op H b x at os s h = step_insn_start H b x at s h"
    | (unsupported) "pure_eval (i_op x) = None" "i_op x \<notin> {OP_GET_SLOT, OP_BRCOND, OP_LD, OP_ST, OP_FENCE}"
        "\<not> is_terminator (i_op x)" "\<not> has_side_effect (i_op x)"
        "step_op H b x at os s h = (Inr (Done (Unsupported (i_op x) at)), s, h)"
proof -
  let ?p = "i_op x"
  have t: "is_fetch p = in_fetch_range p" for p by (simp add: is_fetch_def)
  show ?thesis
  proof (cases "pure_eval ?p")
    case (Some f)
    then show ?thesis by (intro pure) (simp_all add: step_op_def)
  next
    case None
    consider "?p = OP_GET_SLOT" | "?p = OP_BRCOND" | "?p = OP_LD" | "?p = OP_ST" | "?p = OP_FENCE"
      | "?p \<in> {OP_CMPXCHG, OP_XCHG, OP_LD_EXCL, OP_ST_EXCL} \<or> is_fetch ?p"
      | "?p = OP_GOTO_TB" | "?p = OP_EXIT_TB" | "?p = OP_LOOKUP_AND_GOTO" | "?p = OP_CALL_HELPER"
      | "?p = OP_CHARGE" | "?p = OP_INSN_START"
      | "?p \<notin> {OP_GET_SLOT, OP_BRCOND, OP_LD, OP_ST, OP_FENCE, OP_CMPXCHG, OP_XCHG, OP_LD_EXCL, OP_ST_EXCL,
          OP_GOTO_TB, OP_EXIT_TB, OP_LOOKUP_AND_GOTO, OP_CALL_HELPER, OP_CHARGE, OP_INSN_START}" "\<not> is_fetch ?p"
      by blast
    note c = this
    note e = step_op_def [of H b x at os s h, unfolded Let_def None option.case]
    have fr: "is_fetch p \<longleftrightarrow> 74 \<le> opcode_num p \<and> opcode_num p \<le> 81" for p
      by (simp add: is_fetch_def in_fetch_range_def)
    from c show ?thesis
    proof cases
      case 1
      then show ?thesis by (rule get_slot) (simp add: e 1 fr)
    next
      case 2
      then show ?thesis by (rule brcond) (simp add: e 2 fr)
    next
      case 3
      then show ?thesis by (rule ld) (simp add: e 3 fr)
    next
      case 4
      then show ?thesis by (rule st) (simp add: e 4 fr)
    next
      case 5
      then show ?thesis by (rule fence) (simp add: e 5 fr)
    next
      case 6
      then have "?p \<notin> {OP_GET_SLOT, OP_BRCOND, OP_LD, OP_ST, OP_FENCE}" by (auto simp: fr)
      then have "step_op H b x at os s h = atomic H b x at os s h" using 6 unfolding e by auto
      with 6 show ?thesis by (rule atomic)
    next
      case 7
      then show ?thesis by (rule goto) (simp add: e 7 fr)
    next
      case 8
      then show ?thesis by (rule exit) (simp add: e 8 fr)
    next
      case 9
      then show ?thesis by (rule lookup) (simp add: e 9 fr)
    next
      case 10
      then show ?thesis by (rule call) (simp add: e 10 fr)
    next
      case 11
      then show ?thesis by (rule charge) (simp add: e 11 fr)
    next
      case 12
      then show ?thesis by (rule start) (simp add: e 12 fr)
    next
      case 13
      then show ?thesis
        using None t by (intro unsupported) (auto simp: e is_terminator_def has_side_effect_def)
    qed
  qed
qed

section \<open>What a step may change\<close>

text \<open>
  Temporaries change only at an instruction's destinations, and what is written
  there is masked to the destination's type.
\<close>

definition written :: "block \<Rightarrow> temp list \<Rightarrow> u128 list \<Rightarrow> u128 list \<Rightarrow> bool" where
  "written b ds ts ts' \<longleftrightarrow> length ts' = length ts \<and>
     (\<forall>t. nth_opt ts' t = nth_opt ts t \<or>
        t \<in> set ds \<and> (\<exists>ty v. type_of b t = Some ty \<and> nth_opt ts' t = Some (take_bit (ty_bits ty) v)))"

lemma written_refl [simp]: "written b ds ts ts"
  by (simp add: written_def)

lemma written_trans: "written b ds ts ts' \<Longrightarrow> written b ds ts' ts'' \<Longrightarrow> written b ds ts ts''"
  unfolding written_def by metis

lemma written_set_temp:
  "set_temp b t v ts = Inr ts' \<Longrightarrow> t \<in> set ds \<Longrightarrow> written b ds ts ts'"
  by (auto simp: set_temp_def written_def nth_opt_update split: option.splits if_splits)

lemma dsts_mem [simp]:
  "i_dst x = Some d \<Longrightarrow> d \<in> set (dsts x)" "i_dst2 x = Some d \<Longrightarrow> d \<in> set (dsts x)"
  by (simp_all add: dsts_def)

lemma written_write_dst: "write_dst b x v ts = Inr ts' \<Longrightarrow> written b (dsts x) ts ts'"
  by (auto simp: write_dst_def split: option.splits intro: written_set_temp)

lemma written_set_opt: "set_opt b d v ts = Inr ts' \<Longrightarrow> d = i_dst x \<or> d = i_dst2 x \<or> d = None \<Longrightarrow>
    written b (dsts x) ts ts'"
  by (auto simp: set_opt_def split: option.splits intro: written_set_temp)

lemma written_commit_eval: "commit_eval b x at ev ts = (r, ts') \<Longrightarrow> written b (dsts x) ts ts'"
  by (auto simp: commit_eval_def split: eval.splits sum.splits option.splits
      intro: written_trans [OF written_write_dst written_set_temp] written_write_dst)

text \<open>The frame of a step: a relation between the interpreter states before and after.\<close>

definition step_frame :: "block \<Rightarrow> inst \<Rightarrow> interp \<Rightarrow> interp \<Rightarrow> bool" where
  "step_frame b x s s' \<longleftrightarrow> written b (dsts x) (s_temps s) (s_temps s')
     \<and> (i_op x \<noteq> OP_INSN_START \<longrightarrow> s_mark s' = s_mark s \<and> s_boundary_pc s' = s_boundary_pc s
          \<and> s_retired s' = s_retired s \<and> s_boundaries s' = s_boundaries s
          \<and> (s_committed s \<longrightarrow> s_committed s') \<and> (s_published s \<longrightarrow> s_published s'))
     \<and> (i_op x \<noteq> OP_CHARGE \<longrightarrow> s_ticks s' = s_ticks s)"

lemma step_frame_refl: "step_frame b x s s"
  by (simp add: step_frame_def)

lemma finish_frame: "finish b x at ev s h = (r, s', h') \<Longrightarrow> step_frame b x s s'"
  by (auto simp: finish_def step_frame_def written_commit_eval split: prod.splits)

lemma set_both_frame:
  "set_both b x at v d2 v2 s h = (r, s', h') \<Longrightarrow> d2 = i_dst2 x \<or> d2 = None \<Longrightarrow> step_frame b x s s'"
  by (auto simp: set_both_def raise_def step_frame_def Let_def split: sum.splits
      intro: written_set_opt [of b _ _ _ _ x] written_trans [OF written_set_opt [of b _ _ _ _ x] written_set_opt [of b _ _ _ _ x]])

lemma publish_frame: "publish H b s h = (s', h') \<Longrightarrow> s' = s\<lparr>s_published := True\<rparr>"
  by (auto simp: publish_def split: if_splits)

lemma step_op_frame:
  assumes e: "step_op H b x at os s h = (r, s', h')"
  shows "step_frame b x s s'"
proof (cases rule: step_op_cases [of x H b at os s h])
  case (pure f)
  show ?thesis
    using e [unfolded pure(2)]
    by (auto simp: step_pure_def raise_def step_frame_refl split: sum.splits intro: finish_frame)
next
  case get_slot
  obtain s1 v h2 where
    "s1 = s \<or> s1 = s\<lparr>s_published := True\<rparr>" "finish b x at (One v) s1 h2 = (r, s', h')"
    using e [unfolded get_slot(2)]
    by (auto simp: step_get_slot_def Let_def split: prod.splits if_splits dest!: publish_frame)
  with get_slot(1) show ?thesis
    by (auto dest!: finish_frame simp: step_frame_def)
next
  case ld
  show ?thesis
    using e [unfolded ld(2)] ld(1)
    by (auto simp: step_ld_def raise_def Let_def step_frame_refl split: option.splits sum.splits prod.splits
        if_splits dest!: finish_frame) (auto simp: step_frame_def)
next
  case atomic
  have "i_op x \<noteq> OP_INSN_START" "i_op x \<noteq> OP_CHARGE"
    using atomic(1) by (auto simp: is_fetch_def in_fetch_range_def)
  then show ?thesis
    using e [unfolded atomic(2) atomic_def Let_def]
    by (auto simp: raise_def step_frame_refl split: option.splits sum.splits prod.splits if_splits
        dest!: set_both_frame) (auto simp: step_frame_def)
next
  case call
  show ?thesis
    using e [unfolded call(2)] call(1)
    by (auto simp: step_call_helper_def raise_def Let_def split: option.splits sum.splits prod.splits
        if_splits dest!: set_both_frame publish_frame) (auto simp: step_frame_def)
qed (use e in \<open>auto simp: step_brcond_def step_st_def step_goto_def step_lookup_def step_charge_def
    step_insn_start_def raise_def Let_def step_frame_def split: option.splits sum.splits prod.splits if_splits\<close>)

section \<open>Reachable states\<close>

text \<open>
  The states a run passes through: the instruction index, the number of
  instructions executed, the interpreter and the host.
\<close>

inductive reach :: "'h ir_host \<Rightarrow> block \<Rightarrow> interp \<Rightarrow> 'h \<Rightarrow> nat \<Rightarrow> nat \<Rightarrow> interp \<Rightarrow> 'h \<Rightarrow> bool"
  for H b s0 h0 where
  reach_start: "reach H b s0 h0 0 0 (run_start b s0) h0"
| reach_next: "reach H b s0 h0 at n s h \<Longrightarrow> at < length (b_insts b) \<Longrightarrow>
    step_at H b at s h = (Inr Next, s', h') \<Longrightarrow> reach H b s0 h0 (at + 1) (n + 1) s' h'"
| reach_jump: "reach H b s0 h0 at n s h \<Longrightarrow> at < length (b_insts b) \<Longrightarrow>
    step_at H b at s h = (Inr (Jump t), s', h') \<Longrightarrow> t < length (b_insts b) \<Longrightarrow>
    reach H b s0 h0 t (n + 1) s' h'"

text \<open>How \<open>execute\<close> can stop in a state it has reached.\<close>

definition stops :: "'h ir_host \<Rightarrow> block \<Rightarrow> nat \<Rightarrow> nat \<Rightarrow> interp \<Rightarrow> 'h \<Rightarrow>
    (ir_msg error + outcome) \<Rightarrow> interp \<Rightarrow> 'h \<Rightarrow> bool" where
  "stops H b at n s h r s' h' \<longleftrightarrow>
     (if length (b_insts b) \<le> at then r = Inl (Ir (RanOffEnd (b_entry_pc b))) \<and> s' = s \<and> h' = h
      else if STEP_LIMIT < n + 1 then r = Inl (Ir (NotTerminated (b_entry_pc b) STEP_LIMIT)) \<and> s' = s \<and> h' = h
      else \<exists>q. step_at H b at s h = (q, s', h') \<and>
        (case q of
           Inl e \<Rightarrow> r = Inl e
         | Inr Next \<Rightarrow> False
         | Inr (Jump t) \<Rightarrow> length (b_insts b) \<le> t \<and> r = Inl (ir_err at (i_op (b_insts b ! at)) TargetOutside)
         | Inr (Done o') \<Rightarrow> r = Inr o'))"

lemma execute_reach:
  assumes "execute H b at n s h = (r, s', h')" "reach H b s0 h0 at n s h"
  shows "\<exists>at1 n1 s1 h1. reach H b s0 h0 at1 n1 s1 h1 \<and> stops H b at1 n1 s1 h1 r s' h'"
  using assms
proof (induction H b at n s h rule: execute.induct)
  case (1 H b at n s h)
  show ?case
  proof (cases "length (b_insts b) \<le> at \<or> STEP_LIMIT < n + 1")
    case True
    then have "stops H b at n s h r s' h'"
      using "1.prems"(1) by (subst (asm) execute.simps) (auto simp: stops_def split: if_splits)
    with "1.prems"(2) show ?thesis by blast
  next
    case False
    obtain q s1 h1 where st: "step_at H b at s h = (q, s1, h1)" by (cases "step_at H b at s h") auto
    note ex = "1.prems"(1) [unfolded execute.simps [of H b at n s h]]
    have stop: ?thesis if "stops H b at n s h r s' h'" using "1.prems"(2) that by blast
    show ?thesis
    proof (cases q)
      case (Inl e)
      with False st ex show ?thesis by (intro stop) (simp add: stops_def)
    next
      case (Inr a)
      show ?thesis
      proof (cases a)
        case Next
        then show ?thesis
          using "1.IH"(1) Inr False st ex reach_next [OF "1.prems"(2)] by auto
      next
        case (Jump t)
        show ?thesis
        proof (cases "length (b_insts b) \<le> t")
          case True
          with Jump Inr False st ex show ?thesis by (intro stop) (simp add: stops_def)
        next
          case False
          then show ?thesis
            using "1.IH"(2) Jump Inr \<open>\<not> (length (b_insts b) \<le> at \<or> STEP_LIMIT < n + 1)\<close> st ex
              reach_jump [OF "1.prems"(2)] by auto
        qed
      next
        case (Done o')
        with Inr False st ex show ?thesis by (intro stop) (simp add: stops_def)
      qed
    qed
  qed
qed

text \<open>The shape of a whole run: a reachable stop, then the last publication.\<close>

lemma run_stops:
  assumes "run H b s0 h0 = (r, s', h')"
  obtains at n s h s1 h1 where "reach H b s0 h0 at n s h" "stops H b at n s h r s1 h1"
    "publish H b s1 h1 = (s', h')"
proof -
  obtain s1 h1 where ex: "execute H b 0 0 (run_start b s0) h0 = (r, s1, h1)" and p: "publish H b s1 h1 = (s', h')"
    using assms by (auto simp: run_def Let_def split: prod.splits)
  from execute_reach [OF ex reach_start] p that show ?thesis by blast
qed

lemma stops_Inr:
  assumes "stops H b at n s h (Inr o') s' h'"
  shows "at < length (b_insts b)" "step_at H b at s h = (Inr (Done o'), s', h')"
proof -
  show "at < length (b_insts b)" using assms by (auto simp: stops_def split: if_splits)
  obtain q s2 h2 where st: "step_at H b at s h = (q, s2, h2)" by (cases "step_at H b at s h") auto
  show "step_at H b at s h = (Inr (Done o'), s', h')"
  proof (cases q)
    case (Inl e)
    then show ?thesis using assms st by (auto simp: stops_def split: if_splits)
  next
    case (Inr a)
    then show ?thesis using assms st by (cases a) (auto simp: stops_def split: if_splits)
  qed
qed

text \<open>An invariant of the states: it holds at the start and every step keeps it.\<close>

lemma reach_invariant:
  assumes "reach H b s0 h0 at n s h" "P (run_start b s0) h0"
    and "\<And>at s h r s' h'. at < length (b_insts b) \<Longrightarrow> P s h \<Longrightarrow> step_at H b at s h = (r, s', h') \<Longrightarrow> P s' h'"
  shows "P s h"
  using assms(1)
proof induction
  case reach_start
  show ?case by (rule assms(2))
next
  case (reach_next at n s h s' h')
  then show ?case using assms(3) by blast
next
  case (reach_jump at n s h t s' h')
  then show ?case using assms(3) by blast
qed

lemma stops_invariant:
  assumes "stops H b at n s h r s' h'" "P s h"
    and "\<And>at s h r s' h'. at < length (b_insts b) \<Longrightarrow> P s h \<Longrightarrow> step_at H b at s h = (r, s', h') \<Longrightarrow> P s' h'"
  shows "P s' h'"
proof (cases "length (b_insts b) \<le> at \<or> STEP_LIMIT < n + 1")
  case True
  with assms(1,2) show ?thesis by (auto simp: stops_def split: if_splits)
next
  case False
  then obtain q where "step_at H b at s h = (q, s', h')" using assms(1) by (auto simp: stops_def)
  with False assms(2) show ?thesis using assms(3) by (meson linorder_not_le)
qed

lemma run_invariant:
  assumes "run H b s0 h0 = (r, s', h')" "P (run_start b s0) h0"
    and step: "\<And>at s h r s' h'. at < length (b_insts b) \<Longrightarrow> P s h \<Longrightarrow> step_at H b at s h = (r, s', h') \<Longrightarrow> P s' h'"
    and pub: "\<And>s h s' h'. P s h \<Longrightarrow> publish H b s h = (s', h') \<Longrightarrow> P s' h'"
  shows "P s' h'"
proof -
  from assms(1) obtain at n s h s1 h1 where r: "reach H b s0 h0 at n s h"
    "stops H b at n s h r s1 h1" "publish H b s1 h1 = (s', h')" by (rule run_stops)
  have "P s h" using r(1) assms(2) step by (rule reach_invariant)
  with r(2) have "P s1 h1" using step by (rule stops_invariant)
  with r(3) pub show ?thesis by blast
qed

section \<open>Temporaries stay canonical\<close>

definition canonical :: "block \<Rightarrow> u128 list \<Rightarrow> bool" where
  "canonical b ts \<longleftrightarrow> length ts = temp_count b \<and>
     (\<forall>t<temp_count b. uint (ts ! t) < 2 ^ ty_bits (b_types b ! t))"

lemma canonical_start: "canonical b (s_temps (run_start b s))"
  by (simp add: canonical_def run_start_def)

lemma canonical_written:
  assumes "canonical b ts" "written b ds ts ts'"
  shows "canonical b ts'"
proof -
  have l: "length ts' = temp_count b" using assms by (simp add: canonical_def written_def)
  have "uint (ts' ! t) < 2 ^ ty_bits (b_types b ! t)" if t: "t < temp_count b" for t
  proof -
    from assms(2) consider "nth_opt ts' t = nth_opt ts t"
      | ty v where "type_of b t = Some ty" "nth_opt ts' t = Some (take_bit (ty_bits ty) v)"
      unfolding written_def by blast
    then show ?thesis
    proof cases
      case 1
      then show ?thesis using assms(1) l t by (simp add: canonical_def)
    next
      case 2
      then show ?thesis using l t by (simp add: type_of_def temp_count_def)
    qed
  qed
  with l show ?thesis by (simp add: canonical_def)
qed

lemma step_at_frame: "step_at H b at s h = (r, s', h') \<Longrightarrow> step_frame b (b_insts b ! at) s s'"
  unfolding step_at_def by (rule step_op_frame)

lemma canonical_step: "canonical b (s_temps s) \<Longrightarrow> step_at H b at s h = (r, s', h') \<Longrightarrow> canonical b (s_temps s')"
  by (drule step_at_frame) (auto simp: step_frame_def intro: canonical_written)

lemma canonical_reach: "reach H b s0 h0 at n s h \<Longrightarrow> canonical b (s_temps s)"
  by (rule reach_invariant [where P = "\<lambda>s h. canonical b (s_temps s)"]) (auto intro: canonical_start canonical_step)

text \<open>
  Every temporary always fits its type: after any run of any block, well
  formed or not, on any host, and whatever the outcome, the value each
  temporary holds is below two to the width of its type, so no host or
  operation can smuggle in wider bits.
\<close>

theorem temps_canonical:
  "canonical b (s_temps (fst (snd (run H b s0 h0))))"
proof -
  obtain r s' h' where r: "run H b s0 h0 = (r, s', h')" by (cases "run H b s0 h0") auto
  then have "canonical b (s_temps s')"
    by (rule run_invariant [where P = "\<lambda>s h. canonical b (s_temps s)"])
      (auto intro: canonical_start canonical_step dest!: publish_frame)
  with r show ?thesis by simp
qed

section \<open>Precise faults\<close>

text \<open>Where the interpreter is in the guest, and what it has charged since then.\<close>

definition boundary_inv :: "block \<Rightarrow> interp \<Rightarrow> bool" where
  "boundary_inv b s \<longleftrightarrow>
     (case s_mark s of
        None \<Rightarrow> s_boundary_pc s = b_entry_pc b \<and> s_retired s = 0
      | Some m \<Rightarrow> m < length (b_marks b) \<and> s_boundary_pc s = is_pc (b_marks b ! m))
     \<and> (\<not> s_committed s \<longrightarrow> s_ticks s = s_retired s)"

lemma boundary_start: "boundary_inv b (run_start b s)"
  by (simp add: boundary_inv_def run_start_def)

lemma boundary_step:
  assumes "boundary_inv b s" and e: "step_op H b x at os s h = (r, s', h')"
  shows "boundary_inv b s'"
proof -
  note f = step_op_frame [OF e]
  show ?thesis
  proof (cases "i_op x = OP_INSN_START \<or> i_op x = OP_CHARGE")
    case False
    with f have "s_mark s' = s_mark s" "s_boundary_pc s' = s_boundary_pc s" "s_retired s' = s_retired s"
      "s_ticks s' = s_ticks s" "s_committed s \<Longrightarrow> s_committed s'"
      by (auto simp: step_frame_def)
    with assms(1) show ?thesis by (auto simp: boundary_inv_def split: option.splits)
  next
    case True
    then show ?thesis
    proof (cases rule: step_op_cases [of x H b at os s h])
      case charge
      with e assms(1) show ?thesis
        by (auto simp: step_charge_def raise_def Let_def boundary_inv_def split: option.splits)
    next
      case start
      with e assms(1) show ?thesis
        by (auto simp: step_insn_start_def raise_def Let_def boundary_inv_def nth_opt_eq_Some
            split: option.splits if_splits)
    qed (auto simp: is_terminator_def has_side_effect_def is_fetch_def in_fetch_range_def pure_eval_def)
  qed
qed

lemma fault_only_from_take_fault:
  assumes e: "step_op H b x at os s h = (Inr (Done (Fault f)), s', h')"
  shows "\<exists>er. take_fault s' at er = Inr (Done (Fault f))"
  using e
  by (cases rule: step_op_cases [of x H b at os s h])
    (auto simp: step_pure_def step_get_slot_def finish_def commit_eval_def step_brcond_def step_ld_def step_st_def
      atomic_def set_both_def step_goto_def step_lookup_def step_call_helper_def step_charge_def
      step_insn_start_def raise_def Let_def map_err_eq_Inr
      split: option.splits sum.splits prod.splits if_splits eval.splits)


section \<open>What can still go wrong in a verified block\<close>

definition residual :: "ir_what \<Rightarrow> bool" where
  "residual w \<longleftrightarrow> w \<in> {TooFewOperands, MovNeedsSource, LaneAbsurd, LaneWidth, BitfieldOutside, NonInteger,
     DivideByZero, HighHalfMissing, MovcondShape, BrcondShape, NeedsDestination, GotoNeedsPc, AtomicType}"

definition allocated :: "operand list \<Rightarrow> bool" where
  "allocated os \<longleftrightarrow> (\<forall>p\<in>set os. \<exists>ty v. p = (Some ty, Some v))"

lemma fetch_residual: "allocated os \<Longrightarrow> fetch os i = Inl w \<Longrightarrow> w = TooFewOperands"
proof (cases "i < length os")
  case True
  assume "allocated os" "fetch os i = Inl w"
  moreover from this(1) obtain ty v where "os ! i = (Some ty, Some v)"
    using nth_mem [OF True] unfolding allocated_def by blast
  ultimately show ?thesis using True by (simp add: fetch_def)
qed (simp add: fetch_def)

lemma eval_residual:
  assumes "allocated os" "pure_eval (i_op x) = Some f" "f x os = Inl w"
    and "i_op x = OP_SETCOND \<Longrightarrow> i_cond x \<noteq> None"
  shows "residual w"
proof -
  note f = fetch_residual [OF assms(1)]
  have s: "nth_opt os 0 = Some (ty, v) \<Longrightarrow> ty \<noteq> None" for ty v
    using assms(1) unfolding allocated_def nth_opt_eq_Some by (metis nth_mem option.distinct(1) prod.inject)
  have mov: "eval_mov x os = Inl w \<Longrightarrow> residual w"
    using assms(1) by (auto simp: eval_mov_def residual_def rbind_eq_Inl split: list.splits option.splits
        dest: fetch_residual)
  have evs: "eval_ext_s x os = Inl w \<Longrightarrow> residual w"
    "eval_ext_z x os = Inl w \<Longrightarrow> residual w" "eval_bswap x os = Inl w \<Longrightarrow> residual w"
    "eval_deposit x os = Inl w \<Longrightarrow> residual w" "eval_extract x os = Inl w \<Longrightarrow> residual w"
    "eval_arith x os = Inl w \<Longrightarrow> residual w" "eval_div x os = Inl w \<Longrightarrow> residual w"
    "eval_carry x os = Inl w \<Longrightarrow> residual w" "eval_widening x os = Inl w \<Longrightarrow> residual w"
    "eval_logic x os = Inl w \<Longrightarrow> residual w" "eval_shift x os = Inl w \<Longrightarrow> residual w"
    "eval_rotate x os = Inl w \<Longrightarrow> residual w" "eval_rotate_carry x os = Inl w \<Longrightarrow> residual w"
    "eval_count x os = Inl w \<Longrightarrow> residual w" "eval_movcond x os = Inl w \<Longrightarrow> residual w"
    "i_cond x \<noteq> None \<Longrightarrow> eval_setcond x os = Inl w \<Longrightarrow> residual w"
    by (auto simp: eval_ext_s_def eval_ext_z_def eval_bswap_def eval_deposit_def eval_extract_def
        eval_arith_def eval_div_def eval_carry_def eval_widening_def eval_logic_def eval_shift_def eval_rotate_def
        eval_rotate_carry_def eval_count_def eval_movcond_def eval_setcond_def Let_def require_int_def
        overflowing_add_def rbind_eq_Inl require_eq_Inl ok_or_eq_Inl ok_or_eq_Inr residual_def
        split: if_splits option.splits prod.splits dest!: f s)
  with mov show ?thesis
    using assms(2-4) by (auto simp: pure_eval_def split: if_splits)
qed

lemma set_temp_ok:
  assumes "t < temp_count b" "length ts = temp_count b"
  shows "\<exists>ts'. set_temp b t v ts = Inr ts' \<and> length ts' = length ts"
  using assms by (simp add: set_temp_def type_of_def temp_count_def)

text \<open>The destinations of a well-formed instruction can be written.\<close>

definition dsts_ok :: "block \<Rightarrow> inst \<Rightarrow> u128 list \<Rightarrow> bool" where
  "dsts_ok b x ts \<longleftrightarrow> length ts = temp_count b \<and> (\<forall>t\<in>set (dsts x). t < temp_count b)"

lemma write_dst_error: "dsts_ok b x ts \<Longrightarrow> write_dst b x v ts = Inl w \<Longrightarrow> w = NeedsDestination"
  using set_temp_ok [of "the (i_dst x)" b ts v]
  by (cases "i_dst x") (auto simp: write_dst_def dsts_ok_def)

lemma write_dst_length: "dsts_ok b x ts \<Longrightarrow> write_dst b x v ts = Inr ts' \<Longrightarrow> dsts_ok b x ts'"
  using set_temp_ok [of "the (i_dst x)" b ts v]
  by (cases "i_dst x") (auto simp: write_dst_def dsts_ok_def)

lemma set_dst2_ok: "dsts_ok b x ts \<Longrightarrow> i_dst2 x = Some d \<Longrightarrow> set_temp b d v ts \<noteq> Inl w"
  using set_temp_ok [of d b ts v] by (auto simp: dsts_ok_def)

lemma set_opt_ok:
  "dsts_ok b x ts \<Longrightarrow> d = i_dst x \<or> d = i_dst2 x \<or> d = None \<Longrightarrow> \<exists>ts'. set_opt b d v ts = Inr ts' \<and> dsts_ok b x ts'"
  using set_temp_ok [of "the d" b ts v] by (cases d) (auto simp: set_opt_def dsts_ok_def)

lemma commit_eval_error:
  assumes "dsts_ok b x ts" "commit_eval b x at ev ts = (Inl w, ts')"
  shows "w = NeedsDestination \<or> (\<exists>v v2. ev = Two v v2 w \<and> i_dst2 x = None)"
  using assms
  by (auto simp: commit_eval_def split: eval.splits sum.splits option.splits
      dest: write_dst_error write_dst_length set_dst2_ok)

lemma set_both_no_error:
  assumes "dsts_ok b x (s_temps s)" "d2 = i_dst2 x \<or> d2 = None"
  shows "\<exists>s'. set_both b x at v d2 v2 s h = (Inr Next, s', h)"
proof -
  obtain t1 where t1: "set_opt b (i_dst x) v (s_temps s) = Inr t1" "dsts_ok b x t1"
    using set_opt_ok [OF assms(1), of "i_dst x" v] by blast
  obtain t2 where "set_opt b d2 v2 t1 = Inr t2"
    using set_opt_ok [OF t1(2), of d2 v2] assms(2) by blast
  with t1 show ?thesis by (simp add: set_both_def Let_def)
qed

lemma two_missing:
  assumes "pure_eval (i_op x) = Some f" "f x os = Inr (Two v v2 w)"
  shows "carry_op (i_op x) \<and> w = CarryOutMissing \<or> w = HighHalfMissing"
proof -
  have no: "eval_mov x os \<noteq> Inr (Two v v2 w)" "eval_ext_s x os \<noteq> Inr (Two v v2 w)"
    "eval_ext_z x os \<noteq> Inr (Two v v2 w)" "eval_bswap x os \<noteq> Inr (Two v v2 w)"
    "eval_deposit x os \<noteq> Inr (Two v v2 w)" "eval_extract x os \<noteq> Inr (Two v v2 w)"
    "eval_arith x os \<noteq> Inr (Two v v2 w)" "eval_div x os \<noteq> Inr (Two v v2 w)"
    "eval_logic x os \<noteq> Inr (Two v v2 w)" "eval_shift x os \<noteq> Inr (Two v v2 w)"
    "eval_rotate x os \<noteq> Inr (Two v v2 w)" "eval_count x os \<noteq> Inr (Two v v2 w)"
    "eval_setcond x os \<noteq> Inr (Two v v2 w)" "eval_movcond x os \<noteq> Inr (Two v v2 w)"
    by (auto simp: eval_mov_def eval_ext_s_def eval_ext_z_def eval_bswap_def eval_deposit_def eval_extract_def
        eval_arith_def eval_div_def eval_logic_def eval_shift_def eval_rotate_def eval_count_def
        eval_setcond_def eval_movcond_def Let_def rbind_eq_Inr
        split: if_splits option.splits list.splits prod.splits)
  have yes: "eval_carry x os = Inr (Two v v2 w) \<Longrightarrow> w = CarryOutMissing"
    "eval_rotate_carry x os = Inr (Two v v2 w) \<Longrightarrow> w = CarryOutMissing"
    "eval_widening x os = Inr (Two v v2 w) \<Longrightarrow> w = HighHalfMissing"
    by (auto simp: eval_carry_def eval_rotate_carry_def eval_widening_def Let_def rbind_eq_Inr
        overflowing_add_def split: if_splits prod.splits)
  show ?thesis
    using assms no yes by (auto simp: pure_eval_def carry_op_def split: if_splits)
qed

lemma gather_ok: "allocated os \<Longrightarrow> \<exists>acc'. gather os acc = (Inr (), acc')"
  by (induction os acc rule: gather.induct) (auto simp: allocated_def)

lemma brcond_residual: "allocated os \<Longrightarrow> eval_brcond x os = Inl w \<Longrightarrow> residual w"
  by (auto simp: eval_brcond_def rbind_eq_Inl residual_def split: if_splits option.splits dest: fetch_residual)

end
