(* ===== verification/Ir_Safety.thy ===== *)
theory Ir_Safety
  imports Ir_Run
begin

text \<open>
  What verification buys: in a block the verifier accepts, control only moves
  forward, every operand and destination a step touches is allocated, and the
  run ends with an outcome or one of the few errors the verifier leaves to the
  frontend.
\<close>

section \<open>Errors of a step in a well-formed block\<close>

lemma operands_allocated:
  assumes "\<forall>t\<in>set ts. t < temp_count b" "length temps = temp_count b"
  shows "allocated (operands b temps ts)"
  using assms by (auto simp: allocated_def operands_def type_of_def temp_count_def)

definition step_error :: "'h ir_host \<Rightarrow> ir_msg error \<Rightarrow> bool" where
  "step_error H e \<longleftrightarrow> (\<exists>at p w. e = ir_err at p w \<and> residual w) \<or> e = Bus Retry
     \<or> (\<exists>hid args h. fst (h_call_helper H hid args h) = Inl e)"

lemma take_fault_error: "take_fault s at er = Inl e \<Longrightarrow> e = Bus Retry"
  by (auto simp: take_fault_def split: if_splits)

lemma map_err_eq_Inl: "map_err g r = Inl e \<longleftrightarrow> (\<exists>w. r = Inl w \<and> e = g w)"
  by (cases r) auto

lemma finish_error:
  assumes "dsts_ok b x (s_temps s)" "finish b x at ev s h = (Inl e, s', h')"
    and "\<And>v v2 w. ev = Two v v2 w \<Longrightarrow> i_dst2 x = None \<Longrightarrow> residual w"
  shows "step_error H e"
proof -
  obtain w ts where "commit_eval b x at ev (s_temps s) = (Inl w, ts)" "e = ir_err at (i_op x) w"
    using assms(2) by (auto simp: finish_def map_err_eq_Inl split: prod.splits)
  moreover from commit_eval_error [OF assms(1) this(1)] assms(3) have "residual w"
    by (auto simp: residual_def)
  ultimately show ?thesis by (auto simp: step_error_def)
qed

lemma raise_error: "raise at x w s h = (Inl e, s', h') \<Longrightarrow> residual w \<Longrightarrow> step_error H e"
  by (auto simp: raise_def step_error_def)

lemma residual_few [simp]: "residual TooFewOperands" "residual AtomicType" "residual GotoNeedsPc"
  by (simp_all add: residual_def)

lemma step_errors:
  assumes ok: "inst_ok b at" and len: "length (s_temps s) = temp_count b"
    and e: "step_at H b at s h = (Inl e, s', h')"
  shows "step_error H e"
proof -
  let ?x = "b_insts b ! at" and ?os = "operands b (s_temps s) (srcs b at)"
  have a: "allocated ?os" using ok len by (intro operands_allocated) (auto simp: inst_ok_def Let_def)
  have d: "dsts_ok b ?x (s_temps s)" using ok len by (auto simp: dsts_ok_def inst_ok_def Let_def)
  have op: "op_ok b at ?x" using ok by (simp add: inst_ok_def Let_def)
  note f = fetch_residual [OF a]
  show ?thesis
  proof (cases rule: step_op_cases [of ?x H b at ?os s h])
    case (pure f)
    have "residual w" if "f ?x ?os = Inl w" for w
      using eval_residual [OF a pure(1) that] op by (simp add: op_ok_def)
    moreover have "residual w" if "f ?x ?os = Inr (Two v v2 w)" "i_dst2 ?x = None" for v v2 w
      using two_missing [OF pure(1) that(1)] that(2) op by (auto simp: op_ok_def residual_def)
    ultimately show ?thesis
      using e pure(2) d by (auto simp: step_at_def step_pure_def split: sum.splits
          intro: raise_error finish_error)
  next
    case get_slot
    obtain s1 v h2 where "s1 = s \<or> s1 = s\<lparr>s_published := True\<rparr>"
      and fin: "finish b ?x at (One v) s1 h2 = (Inl e, s', h')"
      using e [unfolded step_at_def get_slot(2)]
      by (auto simp: step_get_slot_def Let_def split: prod.splits if_splits dest!: publish_frame)
    then have "dsts_ok b ?x (s_temps s1)" using d by auto
    then show ?thesis using fin by (rule finish_error) simp
  next
    case brcond
    then show ?thesis
      using e brcond_residual [OF a] by (auto simp: step_at_def step_brcond_def split: sum.splits intro: raise_error)
  next
    case ld
    moreover obtain m where "i_mem ?x = Some m" using ok ld(1) by (auto simp: inst_ok_def Let_def)
    moreover have "step_error H e" if "finish b ?x at (One v) s1 h1 = (Inl e, s', h')" "s_temps s1 = s_temps s" for v s1 h1
      using finish_error [of b ?x s1 at "One v" h1 e s' h' H] d that by simp
    ultimately show ?thesis
      using e [unfolded step_at_def ld(2) step_ld_def Let_def]
      by (auto split: sum.splits prod.splits if_splits dest!: f take_fault_error intro: raise_error)
        (simp_all add: step_error_def)
  next
    case st
    moreover obtain m where "i_mem ?x = Some m" using ok st(1) by (auto simp: inst_ok_def Let_def)
    ultimately show ?thesis
      using e by (auto simp: step_at_def step_st_def Let_def rbind_eq_Inl split: sum.splits prod.splits if_splits
          dest!: f take_fault_error intro: raise_error) (auto simp: step_error_def)
  next
    case atomic
    have no: "set_both b ?x at v (if c then i_dst2 ?x else None) v2 (s\<lparr>s_committed := True\<rparr>) h1 \<noteq> (Inl e, s', h')"
      for v c v2 h1
      using set_both_no_error [of b ?x "s\<lparr>s_committed := True\<rparr>" "if c then i_dst2 ?x else None" at v v2 h1] d by auto
    show ?thesis
      using e [unfolded step_at_def atomic(2) atomic_def Let_def] no
      by (auto simp: rbind_eq_Inl split: option.splits sum.splits prod.splits if_splits
          dest!: f take_fault_error intro: raise_error) (auto simp: step_error_def)
  next
    case call
    obtain acc where g: "gather ?os [] = (Inr (), acc)" using gather_ok [OF a] by blast
    obtain s1 h1 where p: "publish H b (s\<lparr>s_args := acc, s_committed := True\<rparr>) h = (s1, h1)"
      by (cases "publish H b (s\<lparr>s_args := acc, s_committed := True\<rparr>) h")
    have "dsts_ok b ?x (s_temps s1)" using d publish_frame [OF p] by simp
    then have "set_both b ?x at v (i_dst2 ?x) v2 s1 h2 \<noteq> (Inl e, s', h')" for v v2 h2
      using set_both_no_error [of b ?x s1 "i_dst2 ?x" at v v2 h2] by auto
    then show ?thesis
      using e [unfolded step_at_def call(2) step_call_helper_def] g p
      by (auto simp: Let_def step_error_def split: sum.splits prod.splits) (metis fst_conv)
  qed (use e op f in \<open>auto simp: step_at_def step_goto_def step_lookup_def step_charge_def step_insn_start_def
      op_ok_def start_ok_def Let_def split: option.splits sum.splits if_splits dest!: f intro: raise_error\<close>)
qed

section \<open>Control moves forward\<close>

lemma commit_eval_no_jump: "commit_eval b x at ev ts \<noteq> (Inr (Jump t), ts')"
  by (auto simp: commit_eval_def split: eval.splits sum.splits option.splits)

lemma finish_no_jump: "finish b x at ev s h \<noteq> (Inr (Jump t), s', h')"
  using commit_eval_no_jump by (auto simp: finish_def map_err_eq_Inr split: prod.splits)

lemma set_both_no_jump: "set_both b x at v d2 v2 s h \<noteq> (Inr (Jump t), s', h')"
  by (auto simp: set_both_def raise_def Let_def split: sum.splits)

lemma jump_from_brcond:
  assumes "step_op H b x at os s h = (Inr (Jump t), s', h')"
  shows "i_op x = OP_BRCOND \<and> t = i_aux x"
  using assms
  by (cases rule: step_op_cases [of x H b at os s h])
    (auto simp: step_pure_def step_get_slot_def finish_no_jump step_brcond_def step_ld_def step_st_def
      atomic_def set_both_no_jump step_goto_def step_lookup_def step_call_helper_def step_charge_def
      step_insn_start_def raise_def Let_def take_fault_def
      split: option.splits sum.splits prod.splits if_splits)

lemma terminator_stops:
  assumes "is_terminator (i_op x)"
  shows "step_op H b x at os s h \<noteq> (Inr Next, s', h')"
  using assms
  by (cases rule: step_op_cases [of x H b at os s h])
    (auto simp: is_terminator_def is_fetch_def in_fetch_range_def pure_eval_def step_goto_def step_lookup_def
      raise_def split: option.splits sum.splits)

lemma reach_forward:
  assumes "reach H b s0 h0 at n s h" "well_formed b"
  shows "n \<le> at \<and> at < length (b_insts b)"
  using assms
proof induction
  case reach_start
  then show ?case by (simp add: well_formed_def)
next
  case (reach_next at n s h s' h')
  from reach_next.hyps(3) have "\<not> is_terminator (i_op (b_insts b ! at))"
    unfolding step_at_def by (metis terminator_stops)
  moreover have "is_terminator (i_op (b_insts b ! (length (b_insts b) - 1)))"
    using reach_next.prems last_conv_nth [of "b_insts b"] by (auto simp: well_formed_def)
  ultimately have "at \<noteq> length (b_insts b) - 1" by auto
  with reach_next show ?case by auto
next
  case (reach_jump at n s h t s' h')
  from jump_from_brcond [OF reach_jump.hyps(3) [unfolded step_at_def]]
  have "i_op (b_insts b ! at) = OP_BRCOND" "t = i_aux (b_insts b ! at)" by auto
  moreover have "inst_ok b at" using reach_jump by (simp add: well_formed_def)
  ultimately have "at < t" by (simp add: inst_ok_def Let_def)
  with reach_jump show ?case by auto
qed

lemma reach_temps: "reach H b s0 h0 at n s h \<Longrightarrow> length (s_temps s) = temp_count b"
  by (drule canonical_reach) (simp add: canonical_def)

text \<open>The boundary a state is at was opened by an earlier instruction.\<close>

lemma step_mark:
  assumes "step_at H b at s h = (r, s', h')"
  shows "s_mark s' = s_mark s \<or> i_op (b_insts b ! at) = OP_INSN_START \<and> s_mark s' = Some (i_aux (b_insts b ! at))"
proof (cases "i_op (b_insts b ! at) = OP_INSN_START")
  case True
  then have "pure_eval (i_op (b_insts b ! at)) = None" by (simp add: pure_eval_def)
  with True assms show ?thesis
    by (auto simp: step_at_def step_op_def step_insn_start_def raise_def is_fetch_def in_fetch_range_def Let_def
        split: option.splits if_splits)
qed (use step_at_frame [OF assms] in \<open>simp add: step_frame_def\<close>)

lemma reach_mark:
  assumes "reach H b s0 h0 at n s h" "well_formed b" "s_mark s = Some m"
  shows "\<exists>j<at. i_op (b_insts b ! j) = OP_INSN_START \<and> i_aux (b_insts b ! j) = m"
  using assms
proof (induction arbitrary: m)
  case reach_start
  then show ?case by (simp add: run_start_def)
next
  case (reach_next at n s h s' h')
  then show ?case using step_mark [OF reach_next.hyps(3)] by (metis less_Suc_eq option.inject Suc_eq_plus1)
next
  case (reach_jump at n s h t s' h')
  have "at < t"
    using reach_forward [OF reach_jump.hyps(1) reach_jump.prems(1)]
      jump_from_brcond [OF reach_jump.hyps(3) [unfolded step_at_def]] reach_jump.prems(1)
    by (auto simp: well_formed_def inst_ok_def Let_def)
  then show ?case
    using step_mark [OF reach_jump.hyps(3)] reach_jump.IH reach_jump.prems by (metis less_trans option.inject)
qed


end
