(* ===== verification/Ir_Contract.thy ===== *)
theory Ir_Contract
  imports Ir_Safety
begin

text \<open>
  What the interpreter relies on in a host, as locales over the \<open>IrHost\<close> record,
  and what it promises in return: the guest state a run leaves in the slots, and
  the time it charged. \<open>quiet_host\<close> is the part of the contract both share: an
  observation of the host that reads, accesses and boundaries leave alone.
\<close>

section \<open>Observations of the host\<close>

locale quiet_host =
  fixes H :: "'h ir_host" and obs :: "'h \<Rightarrow> 'a"
  assumes read_quiet: "obs (snd (h_read_slot H r h)) = obs h"
    and load_quiet: "obs (snd (h_load H m a h)) = obs h"
    and store_quiet: "obs (snd (h_store H m a v h)) = obs h"
    and rmw_quiet: "obs (snd (h_rmw H p m a v c h)) = obs h"
    and fence_quiet: "obs (h_fence H h) = obs h"
    and start_quiet: "obs (h_insn_start H mark h) = obs h"
begin

lemma finish_quiet: "finish b x at ev s h = (r, s', h') \<Longrightarrow> h' = h \<and> s_published s' = s_published s"
  by (auto simp: finish_def split: prod.splits)

lemma set_both_quiet: "set_both b x at v d2 v2 s h = (r, s', h') \<Longrightarrow> h' = h \<and> s_published s' = s_published s"
  by (auto simp: set_both_def raise_def Let_def split: sum.splits)

lemma step_st_host:
  assumes "step_st H x at os s h = (r, s', h')"
  shows "obs h' = obs h \<and> s_published s' = s_published s"
proof -
  have store: "obs h1 = obs h" if "h_store H m a v h = (q, h1)" for m a v q h1
    using store_quiet [of m a v h] that by simp
  show ?thesis
    using assms unfolding step_st_def raise_def Let_def
    by (auto split: option.splits sum.splits prod.splits dest: store)
qed

lemma atomic_host:
  assumes "atomic H b x at os s h = (r, s', h')"
  shows "obs h' = obs h \<and> s_published s' = s_published s"
proof -
  have rmw: "obs h1 = obs h" if "h_rmw H p m a v c h = (q, h1)" for p m a v c q h1
    using rmw_quiet [of p m a v c h] that by simp
  show ?thesis
    using assms unfolding atomic_def raise_def Let_def
    by (auto split: option.splits sum.splits prod.splits if_splits dest!: set_both_quiet dest: rmw)
qed

text \<open>
  A step that neither charges nor calls a helper either leaves the observation
  alone or does to it exactly what publishing does.
\<close>

lemma step_quiet:
  assumes "step_op H b x at os s h = (r, s', h')" "i_op x \<noteq> OP_CALL_HELPER" "i_op x \<noteq> OP_CHARGE"
  shows "obs h' = obs h \<and> (i_op x \<noteq> OP_INSN_START \<longrightarrow> s_published s' = s_published s)
    \<or> obs h' = obs (snd (publish H b s h)) \<and> i_op x = OP_GET_SLOT \<and> s_published s'"
proof (cases rule: step_op_cases [of x H b at os s h])
  case (pure f)
  show ?thesis
    using assms(1) [unfolded pure(2) step_pure_def raise_def] by (auto split: sum.splits dest: finish_quiet)
next
  case get_slot
  let ?sl = "as_u16 (i_aux x)"
  show ?thesis
  proof (cases "shadowed b s ?sl")
    case True
    obtain s1 h1 where p: "publish H b s h = (s1, h1)" by (cases "publish H b s h")
    obtain v h2 where rd: "h_read_slot H ?sl h1 = (v, h2)" by (cases "h_read_slot H ?sl h1")
    have "finish b x at (One v) s1 h2 = (r, s', h')"
      using assms(1) [unfolded get_slot(2) step_get_slot_def Let_def] True p rd by simp
    from finish_quiet [OF this] have "h' = h2" "s_published s'" using publish_frame [OF p] by auto
    moreover have "obs h2 = obs h1" using read_quiet [of ?sl h1] rd by simp
    ultimately show ?thesis using p get_slot(1) by simp
  next
    case False
    obtain v h2 where rd: "h_read_slot H ?sl h = (v, h2)" by (cases "h_read_slot H ?sl h")
    have "finish b x at (One v) s h2 = (r, s', h')"
      using assms(1) [unfolded get_slot(2) step_get_slot_def Let_def] False rd by simp
    with finish_quiet [OF this] show ?thesis using read_quiet [of ?sl h] rd by simp
  qed
next
  case ld
  consider m addr where "i_mem x = Some m" "fetch os 0 = Inr addr"
    | "h' = h" "s_published s' = s_published s"
    using assms(1) [unfolded ld(2) step_ld_def raise_def] by (auto split: option.splits sum.splits)
  then show ?thesis
  proof cases
    case 1
    obtain q h1 where l: "h_load H m (ucast addr) h = (q, h1)" by (cases "h_load H m (ucast addr) h")
    have "h' = h1 \<and> s_published s' = s_published s"
      using assms(1) [unfolded ld(2) step_ld_def Let_def] 1 l
      by (auto split: sum.splits if_splits dest!: finish_quiet)
    then show ?thesis using load_quiet [of m "ucast addr" h] l by simp
  qed simp
next
  case st
  show ?thesis using step_st_host [OF assms(1) [unfolded st(2)]] by simp
next
  case atomic
  show ?thesis using atomic_host [OF assms(1) [unfolded atomic(2)]] by simp
qed (use assms in \<open>auto simp: step_brcond_def step_goto_def step_lookup_def step_insn_start_def raise_def Let_def
    fence_quiet start_quiet split: option.splits sum.splits prod.splits if_splits\<close>)

end

section \<open>Time\<close>

text \<open>A host that meters time: only charging changes what it has been charged.\<close>

locale metered_host = quiet_host H charged
  for H :: "'h ir_host" and charged :: "'h \<Rightarrow> u64" +
  assumes charge: "charged (h_charge H t h) = charged h + t"
    and write_unmetered: "charged (h_write_slot H r v h) = charged h"
    and helper_unmetered: "charged (snd (h_call_helper H k args h)) = charged h"
begin

lemma publish_unmetered: "publish H b s h = (s', h') \<Longrightarrow> charged h' = charged h"
proof -
  have "charged (publish_live H temps live h) = charged h" for temps live h
    unfolding publish_live_def
    by (induction live arbitrary: h) (auto simp: write_unmetered split: option.splits)
  then show "publish H b s h = (s', h') \<Longrightarrow> charged h' = charged h"
    by (auto simp: publish_def split: if_splits option.splits)
qed

lemma step_charges:
  assumes "step_op H b x at os s h = (r, s', h')" "charged h = c + s_ticks s"
  shows "charged h' = c + s_ticks s'"
proof -
  consider "i_op x = OP_CALL_HELPER" | "i_op x = OP_CHARGE" | "i_op x \<noteq> OP_CALL_HELPER" "i_op x \<noteq> OP_CHARGE"
    by blast
  then show ?thesis
  proof cases
    case 1
    then have e: "step_op H b x at os s h = step_call_helper H b x at os s h"
      by (simp add: step_op_def pure_eval_def is_fetch_def in_fetch_range_def)
    have "charged h' = charged h"
      using assms(1) [unfolded e step_call_helper_def raise_def Let_def] helper_unmetered publish_unmetered
      by (auto split: sum.splits prod.splits dest!: set_both_quiet) (metis snd_conv)+
    moreover have "s_ticks s' = s_ticks s" using step_op_frame [OF assms(1)] 1 by (simp add: step_frame_def)
    ultimately show ?thesis using assms(2) by simp
  next
    case 2
    then have e: "step_op H b x at os s h = step_charge H x at s h"
      by (simp add: step_op_def pure_eval_def is_fetch_def in_fetch_range_def)
    show ?thesis
      using assms(1) [unfolded e step_charge_def raise_def Let_def] assms(2)
      by (auto simp: charge split: option.splits)
  next
    case 3
    from step_quiet [OF assms(1) 3] have "charged h' = charged h \<or> charged h' = charged (snd (publish H b s h))"
      by blast
    then have "charged h' = charged h" by (metis publish_unmetered prod.collapse)
    moreover have "s_ticks s' = s_ticks s" using step_op_frame [OF assms(1)] 3 by (simp add: step_frame_def)
    ultimately show ?thesis using assms(2) by simp
  qed
qed

lemma run_charges:
  assumes "run H b s0 h0 = (r, s', h')"
  shows "charged h' = charged h0 + s_ticks s'"
proof (rule run_invariant [OF assms, where P = "\<lambda>s h. charged h = charged h0 + s_ticks s"])
  show "charged h' = charged h0 + s_ticks s'"
    if "charged h = charged h0 + s_ticks s" "publish H b s h = (s', h')" for s h s' h'
    using that publish_unmetered [OF that(2)] publish_frame [OF that(2)] by simp
qed (auto simp: run_start_def step_at_def dest: step_charges)

end

section \<open>Guest state\<close>

text \<open>Single assignment: what a boundary names is not written after it.\<close>

lemma live_kept:
  assumes "well_formed b" "reach H b s0 h0 at n s h" "at < length (b_insts b)"
    and "current_mark b s = Some mark" "(r, t) \<in> set (is_live mark)"
  shows "t \<notin> set (dsts (b_insts b ! at))"
proof -
  obtain m where m: "s_mark s = Some m" "nth_opt (b_marks b) m = Some mark"
    using assms(4) by (auto simp: current_mark_def split: option.splits)
  obtain j where j: "j < at" "i_op (b_insts b ! j) = OP_INSN_START" "i_aux (b_insts b ! j) = m"
    using reach_mark [OF assms(2,1) m(1)] by blast
  have "inst_ok b j" "inst_ok b at" using assms(1,3) j(1) by (auto simp: well_formed_def)
  from \<open>inst_ok b j\<close> have "start_ok b j (b_insts b ! j)"
    using j(2) unfolding inst_ok_def Let_def op_ok_def by blast
  then have "assigned_before b (Suc j) t"
    using j(3) m(2) assms(5) unfolding start_ok_def nth_opt_eq_Some by blast
  then have "assigned_before b at t" using j(1) unfolding assigned_before_def by (meson less_le_trans Suc_leI)
  with \<open>inst_ok b at\<close> show ?thesis unfolding inst_ok_def Let_def by blast
qed

text \<open>The temporaries the current boundary names are allocated.\<close>

lemma run_mark_live:
  assumes wf: "well_formed b" and "run H b s0 h0 = (r, s', h')" "current_mark b s' = Some mark"
    and "(g, t) \<in> set (is_live mark)"
  shows "t < length (s_temps s')"
proof -
  let ?P = "\<lambda>s (h :: 'a). length (s_temps s) = temp_count b \<and> (\<forall>mark g t. current_mark b s = Some mark \<longrightarrow>
    (g, t) \<in> set (is_live mark) \<longrightarrow> t < temp_count b)"
  have "?P s' h'" using assms(2)
  proof (rule run_invariant [where P = ?P])
    fix at s h r s' h'
    assume at: "at < length (b_insts b)" and P: "?P s h" and e: "step_at H b at s h = (r, s', h')"
    have ok: "inst_ok b at" using wf at by (simp add: well_formed_def)
    have len: "length (s_temps s') = length (s_temps s)"
      using step_at_frame [OF e] by (simp add: step_frame_def written_def)
    show "?P s' h'"
    proof (cases "s_mark s' = s_mark s")
      case True
      with P len show ?thesis by (simp add: current_mark_def)
    next
      case False
      then have "i_op (b_insts b ! at) = OP_INSN_START" "s_mark s' = Some (i_aux (b_insts b ! at))"
        using step_mark [OF e] by auto
      moreover from this(1) ok have "start_ok b at (b_insts b ! at)"
        unfolding inst_ok_def Let_def op_ok_def by blast
      ultimately show ?thesis using P len unfolding start_ok_def by (auto simp: current_mark_def)
    qed
  qed (auto simp: run_start_def current_mark_def dest!: publish_frame)
  with assms(3,4) show ?thesis by auto
qed

definition no_helpers :: "block \<Rightarrow> bool" where
  "no_helpers b = list_all (\<lambda>x. i_op x \<noteq> OP_CALL_HELPER) (b_insts b)"

lemma no_helpers_nth: "no_helpers b \<Longrightarrow> at < length (b_insts b) \<Longrightarrow> i_op (b_insts b ! at) \<noteq> OP_CALL_HELPER"
  unfolding no_helpers_def list_all_length by blast

text \<open>
  A host with a slot file: a read returns what the slot holds and changes nothing,
  a write changes one slot, and nothing else but a helper touches the file.
\<close>

locale slot_host = quiet_host H slot
  for H :: "'h ir_host" and slot :: "'h \<Rightarrow> reg_slot \<Rightarrow> u128" +
  assumes read_slot: "fst (h_read_slot H r h) = slot h r"
    and write_slot: "slot (h_write_slot H r v h) = (slot h)(r := v)"
    and charge_slots: "slot (h_charge H t h) = slot h"
begin

lemma publish_live_Cons [simp]:
  "publish_live H temps ((r, t) # live) h =
     publish_live H temps live (case nth_opt temps t of Some v \<Rightarrow> h_write_slot H r v h | None \<Rightarrow> h)"
  by (simp add: publish_live_def)

lemma publish_live_other: "r \<notin> fst ` set live \<Longrightarrow> slot (publish_live H temps live h) r = slot h r"
  by (induction live arbitrary: h) (auto simp: write_slot publish_live_def split: option.splits)

lemma publish_live_slot:
  "distinct (map fst live) \<Longrightarrow> (r, t) \<in> set live \<Longrightarrow> nth_opt temps t = Some v \<Longrightarrow>
     slot (publish_live H temps live h) r = v"
proof (induction live arbitrary: h)
  case (Cons p live)
  then show ?case
    by (cases p) (auto simp: publish_live_other write_slot split: option.splits)
qed simp

text \<open>Once a boundary has been published, the slots it names hold its temporaries.\<close>

definition bound :: "block \<Rightarrow> interp \<Rightarrow> 'h \<Rightarrow> bool" where
  "bound b s h \<longleftrightarrow> (\<forall>mark r t v. s_published s \<longrightarrow> current_mark b s = Some mark \<longrightarrow> distinct (map fst (is_live mark)) \<longrightarrow>
     (r, t) \<in> set (is_live mark) \<longrightarrow> nth_opt (s_temps s) t = Some v \<longrightarrow> slot h r = v)"

lemma publish_bound:
  assumes "publish H b s h = (s', h')" "bound b s h"
  shows "bound b s' h'"
proof (cases "s_published s")
  case False
  with assms(1) have "s' = s\<lparr>s_published := True\<rparr>"
    "h' = (case current_mark b s of None \<Rightarrow> h | Some mark \<Rightarrow> publish_live H (s_temps s) (is_live mark) h)"
    by (auto simp: publish_def)
  then show ?thesis
    by (auto simp: bound_def current_mark_def publish_live_slot split: option.splits)
qed (use assms in \<open>simp add: publish_def\<close>)

lemma bound_cong:
  assumes "bound b s h" "slot h' = slot h" "s_published s' = s_published s" "s_mark s' = s_mark s"
    and "\<And>mark r t. current_mark b s = Some mark \<Longrightarrow> (r, t) \<in> set (is_live mark) \<Longrightarrow>
      nth_opt (s_temps s') t = nth_opt (s_temps s) t"
  shows "bound b s' h'"
proof -
  have "current_mark b s' = current_mark b s" using assms(4) by (simp add: current_mark_def)
  with assms show ?thesis unfolding bound_def by metis
qed

lemma step_bound:
  assumes wf: "well_formed b" and r: "reach H b s0 h0 at n s h" and at: "at < length (b_insts b)"
    and no: "i_op (b_insts b ! at) \<noteq> OP_CALL_HELPER"
    and e: "step_at H b at s h = (r, s', h')" and b: "bound b s h"
  shows "bound b s' h'"
proof -
  let ?x = "b_insts b ! at"
  note e = e [unfolded step_at_def]
  have same: "nth_opt (s_temps s') t = nth_opt (s_temps s) t"
    if "current_mark b s = Some mark" "(r, t) \<in> set (is_live mark)" for mark r t
    using step_op_frame [OF e] live_kept [OF wf r at that] by (auto simp: step_frame_def written_def)
  note frame = step_op_frame [OF e, unfolded step_frame_def]
  consider "i_op ?x = OP_INSN_START" | "i_op ?x = OP_CHARGE" | "i_op ?x \<noteq> OP_INSN_START" "i_op ?x \<noteq> OP_CHARGE"
    by blast
  then show ?thesis
  proof cases
    case 1
    then have "s' = s \<and> h' = h \<or> \<not> s_published s'"
      using e by (auto simp: step_op_def pure_eval_def is_fetch_def in_fetch_range_def step_insn_start_def
          raise_def Let_def split: option.splits if_splits)
    then show ?thesis using b by (auto simp: bound_def)
  next
    case 2
    then have "slot h' = slot h \<and> s_published s' = s_published s"
      using e by (auto simp: step_op_def pure_eval_def is_fetch_def in_fetch_range_def step_charge_def
          raise_def charge_slots Let_def split: option.splits)
    then show ?thesis using bound_cong [OF b] same frame 2 by simp
  next
    case 3
    obtain s1 h1 where p: "publish H b s h = (s1, h1)" by (cases "publish H b s h")
    then have s1: "s1 = s\<lparr>s_published := True\<rparr>" by (rule publish_frame)
    then have "current_mark b s1 = current_mark b s" by (simp add: current_mark_def)
    with same have same1: "nth_opt (s_temps s') t = nth_opt (s_temps s1) t"
      if "current_mark b s1 = Some mark" "(r, t) \<in> set (is_live mark)" for mark r t
      using that s1 by simp
    have mark: "s_mark s' = s_mark s" using frame 3(1) by blast
    from step_quiet [OF e no 3(2)] 3(1) p
    consider "slot h' = slot h" "s_published s' = s_published s" | "slot h' = slot h1" "s_published s'" by auto
    then show ?thesis
    proof cases
      case 1
      with mark same show ?thesis by (intro bound_cong [OF b]) blast+
    next
      case 2
      have "s_published s' = s_published s1" "s_mark s' = s_mark s1" using 2 mark s1 by simp_all
      with 2 show ?thesis using same1 by (intro bound_cong [OF publish_bound [OF p b]]) blast+
    qed
  qed
qed

lemma reach_bound:
  assumes "reach H b s0 h0 at n s h" "well_formed b" "no_helpers b"
  shows "bound b s h"
  using assms
proof induction
  case reach_start
  then show ?case by (simp add: bound_def run_start_def current_mark_def)
next
  case (reach_next at n s h s' h')
  from step_bound [OF reach_next.prems(1) reach_next.hyps(1,2) _ reach_next.hyps(3)] reach_next
  show ?case by (metis no_helpers_nth)
next
  case (reach_jump at n s h t s' h')
  from step_bound [OF reach_jump.prems(1) reach_jump.hyps(1,2) _ reach_jump.hyps(3)] reach_jump
  show ?case by (metis no_helpers_nth)
qed

lemma run_bound:
  assumes "run H b s0 h0 = (r, s', h')" "well_formed b" "no_helpers b"
  shows "bound b s' h' \<and> s_published s'"
proof -
  obtain at n s h s1 h1 where r: "reach H b s0 h0 at n s h" "stops H b at n s h r s1 h1"
    "publish H b s1 h1 = (s', h')" using assms(1) by (rule run_stops)
  have b: "bound b s h" using r(1) assms(2,3) by (rule reach_bound)
  have at: "at < length (b_insts b)" using reach_forward [OF r(1) assms(2)] by simp
  have no: "i_op (b_insts b ! at) \<noteq> OP_CALL_HELPER" using assms(3) at by (rule no_helpers_nth)
  have "s1 = s \<and> h1 = h \<or> (\<exists>q. step_at H b at s h = (q, s1, h1))"
    using r(2) by (auto simp: stops_def split: if_splits)
  then have "bound b s1 h1" using b step_bound [OF assms(2) r(1) at no _ b] by blast
  with r(3) show ?thesis using publish_bound publish_frame [OF r(3)] by auto
qed

end

end
