(* ===== verification/Ir_Host.thy ===== *)
theory Ir_Host
  imports Ir_Contract
begin

text \<open>
  The reference host of \<open>ir/interp.rs\<close>: a sparse slot file and a sparse byte map
  with a set of faulting addresses, which is what the interpreter is exercised
  against. It meets the contracts of \<open>Ir_Contract\<close>, and the properties of whole
  runs are stated here with runs on it as their witnesses.
\<close>

section \<open>State\<close>

record host =
  t_slots :: "reg_slot \<rightharpoonup> u128"
  t_mem :: "u64 \<rightharpoonup> u8"
  t_ticks :: u64
  t_boundaries :: "(u64 \<times> u64 \<times> u64) list"
  t_published :: "(reg_slot \<times> u128) list"
  t_faults :: "u64 \<rightharpoonup> bus_error"
  t_helpers :: "(nat \<times> u128 list) list"
  t_fences :: u32
  t_reserved :: "u64 option"

definition host_default :: host where
  "host_default = \<lparr>t_slots = Map.empty, t_mem = Map.empty, t_ticks = 0, t_boundaries = [], t_published = [],
     t_faults = Map.empty, t_helpers = [], t_fences = 0, t_reserved = None\<rparr>"

section \<open>Memory\<close>

definition peek :: "host \<Rightarrow> u64 \<Rightarrow> width \<Rightarrow> u64" where
  "peek h addr w =
     foldl (\<lambda>v i. v OR push_bit (8 * i) (ucast (case t_mem h (addr + of_nat i) of Some byte \<Rightarrow> byte | None \<Rightarrow> 0)))
       0 [0..<width_bytes w]"

definition poke :: "host \<Rightarrow> u64 \<Rightarrow> width \<Rightarrow> u64 \<Rightarrow> host" where
  "poke h addr w value =
     foldl (\<lambda>h i. h\<lparr>t_mem := (t_mem h)(addr + of_nat i \<mapsto> ucast (drop_bit (8 * i) value))\<rparr>)
       h [0..<width_bytes w]"

section \<open>The trait\<close>

definition host_read_slot :: "reg_slot \<Rightarrow> host \<Rightarrow> u128 \<times> host" where
  "host_read_slot r h = (case t_slots h r of Some v \<Rightarrow> v | None \<Rightarrow> 0, h)"

definition host_write_slot :: "reg_slot \<Rightarrow> u128 \<Rightarrow> host \<Rightarrow> host" where
  "host_write_slot r v h = h\<lparr>t_slots := (t_slots h)(r \<mapsto> v), t_published := t_published h @ [(r, v)]\<rparr>"

definition host_load :: "mem_op \<Rightarrow> u64 \<Rightarrow> host \<Rightarrow> (bus_error + u64) \<times> host" where
  "host_load m addr h =
     (case t_faults h addr of Some e \<Rightarrow> (Inl e, h) | None \<Rightarrow> (Inr (peek h addr (m_size m)), h))"

definition host_store :: "mem_op \<Rightarrow> u64 \<Rightarrow> u64 \<Rightarrow> host \<Rightarrow> (bus_error + unit) \<times> host" where
  "host_store m addr value h =
     (case t_faults h addr of Some e \<Rightarrow> (Inl e, h) | None \<Rightarrow> (Inr (), poke h addr (m_size m) value))"

definition host_charge :: "u64 \<Rightarrow> host \<Rightarrow> host" where
  "host_charge t h = h\<lparr>t_ticks := t_ticks h + t\<rparr>"

definition host_insn_start :: "insn_start \<Rightarrow> host \<Rightarrow> host" where
  "host_insn_start m h = h\<lparr>t_boundaries := t_boundaries h @ [(is_pc m, is_next_pc m, is_ticks m)]\<rparr>"

text \<open>The value an atomic leaves in memory, for the operations that are a function of the old one.\<close>

definition rmw_next :: "opcode \<Rightarrow> nat \<Rightarrow> u64 \<Rightarrow> u64 \<Rightarrow> u64 \<Rightarrow> u64 option" where
  "rmw_next p bits previous arg cmp =
     (let sp = sint (sext (ucast previous) bits); sa = sint (sext (ucast arg) bits) in
      if p = OP_CMPXCHG then Some (if previous = cmp then arg else previous)
      else if p = OP_XCHG then Some arg
      else if p = OP_FETCH_ADD then Some (previous + arg)
      else if p = OP_FETCH_AND then Some (previous AND arg)
      else if p = OP_FETCH_OR then Some (previous OR arg)
      else if p = OP_FETCH_XOR then Some (previous XOR arg)
      else if p = OP_FETCH_UMIN then Some (min previous arg)
      else if p = OP_FETCH_UMAX then Some (max previous arg)
      else if p = OP_FETCH_SMIN then Some (if sa < sp then arg else previous)
      else if p = OP_FETCH_SMAX then Some (if sp < sa then arg else previous)
      else None)"

definition host_rmw :: "opcode \<Rightarrow> mem_op \<Rightarrow> u64 \<Rightarrow> u64 \<Rightarrow> u64 \<Rightarrow> host \<Rightarrow> (bus_error + u64) \<times> host" where
  "host_rmw p m addr arg cmp h =
     (case t_faults h addr of
        Some e \<Rightarrow> (Inl e, h)
      | None \<Rightarrow>
          let previous = peek h addr (m_size m) in
          if p = OP_LD_EXCL then (Inr previous, h\<lparr>t_reserved := Some addr\<rparr>)
          else if p = OP_ST_EXCL then
            (if t_reserved h = Some addr
             then (Inr 1, (poke h addr (m_size m) arg)\<lparr>t_reserved := None\<rparr>)
             else (Inr 0, h))
          else
            (case rmw_next p (width_bits (m_size m)) previous arg cmp of
               None \<Rightarrow> (Inl BadAccess, h)
             | Some v \<Rightarrow> (Inr previous, poke h addr (m_size m) v)))"

definition host_fence :: "host \<Rightarrow> host" where
  "host_fence h = h\<lparr>t_fences := t_fences h + 1\<rparr>"

definition host_call_helper :: "nat \<Rightarrow> u128 list \<Rightarrow> host \<Rightarrow> (ir_msg error + u128 \<times> u128) \<times> host" where
  "host_call_helper k args h =
     (Inr (foldl (+) 0 args, of_nat (length args)), h\<lparr>t_helpers := t_helpers h @ [(k, args)]\<rparr>)"

definition ref_host :: "host ir_host" where
  "ref_host = \<lparr>h_read_slot = host_read_slot, h_write_slot = host_write_slot, h_load = host_load,
     h_store = host_store, h_charge = host_charge, h_insn_start = host_insn_start, h_spent = default_spent,
     h_rmw = host_rmw, h_fence = host_fence, h_call_helper = host_call_helper\<rparr>"

section \<open>It meets the contracts\<close>

lemma poke_frame [simp]:
  "t_slots (poke h a w v) = t_slots h" "t_ticks (poke h a w v) = t_ticks h"
proof -
  have "t_slots (foldl (\<lambda>h i. h\<lparr>t_mem := f h i\<rparr>) h xs) = t_slots h \<and>
    t_ticks (foldl (\<lambda>h i. h\<lparr>t_mem := f h i\<rparr>) h xs) = t_ticks h" for f and xs :: "nat list"
    by (induction xs arbitrary: h) auto
  then show "t_slots (poke h a w v) = t_slots h" "t_ticks (poke h a w v) = t_ticks h"
    by (simp_all add: poke_def)
qed

definition host_slot :: "host \<Rightarrow> reg_slot \<Rightarrow> u128" where
  "host_slot h r = (case t_slots h r of Some v \<Rightarrow> v | None \<Rightarrow> 0)"

lemmas host_ops = host_read_slot_def host_write_slot_def host_load_def host_store_def host_charge_def
  host_insn_start_def host_rmw_def host_fence_def host_call_helper_def

interpretation ref_slots: slot_host ref_host host_slot
  by unfold_locales
    (auto simp: ref_host_def host_ops host_slot_def fun_eq_iff Let_def split: option.splits)

interpretation ref_meter: metered_host ref_host t_ticks
  by unfold_locales (auto simp: ref_host_def host_ops Let_def split: option.splits)

section \<open>A block as a frontend emits it\<close>

text \<open>
  Two guest instructions: one adds a register to a constant and loads from the
  sum, the next finds both in the live map of its boundary.
\<close>

definition demo_block :: block where
  "demo_block =
     (let b0 = bb_new 0x1000 0;
          (t0, b1) = bb_imm b0 I64 (ConstInt 7);
          b2 = bb_insn_start b1 \<lparr>is_pc = 0x1000, is_next_pc = 0x1004, is_ticks = 0, is_live = [(3, t0)]\<rparr>;
          b3 = bb_charge b2 2;
          (t1, b4) = bb_get_slot b3 I64 5;
          (t2, b5) = bb_binary b4 OP_ADD I64 t0 t1;
          (t3, b6) = bb_load b5 I64 t2 (mem_load U32);
          b7 = bb_insn_start b6 \<lparr>is_pc = 0x1004, is_next_pc = 0x1008, is_ticks = 2, is_live = [(3, t2), (4, t3)]\<rparr>;
          b8 = bb_charge b7 3
      in bb_exit_tb b8)"

definition demo_host :: host where
  "demo_host = host_default\<lparr>t_slots := [5 \<mapsto> 0x100], t_mem := [0x107 \<mapsto> 0x2a, 0x108 \<mapsto> 1]\<rparr>"

definition demo_fault :: host where
  "demo_fault = demo_host\<lparr>t_faults := [0x107 \<mapsto> Protected]\<rparr>"

lemmas builder_defs = bb_new_def bb_imm_def bb_temp_def bb_push_def bb_insn_start_def bb_charge_def bb_get_slot_def
  bb_binary_def bb_emit_def bb_load_def bb_set_mem_def bb_exit_tb_def

lemmas verify_defs = verify_def verify_inst_def check_srcs.simps check_dsts.simps check_branch_def check_mem_def
  check_op_def check_start_def check_live.simps width_sensitive_def carry_op_def srcs_def dsts_def temp_count_def
  is_terminator_def nth_opt_def

lemma demo_insts:
  "b_operands demo_block = [0, 1, 2]" "b_types demo_block = [I64, I64, I64, I64]"
  "b_entry_pc demo_block = 0x1000" "b_marks demo_block =
    [\<lparr>is_pc = 0x1000, is_next_pc = 0x1004, is_ticks = 0, is_live = [(3, 0)]\<rparr>,
     \<lparr>is_pc = 0x1004, is_next_pc = 0x1008, is_ticks = 2, is_live = [(3, 2), (4, 3)]\<rparr>]"
  "b_insts demo_block =
    [\<lparr>i_op = OP_MOV, i_ty = I64, i_dst = Some 0, i_dst2 = None, i_imm = Some (ConstInt 7), i_mem = None,
       i_cond = None, i_aux = 0, i_src_start = 0, i_src_len = 0\<rparr>,
     \<lparr>i_op = OP_INSN_START, i_ty = I64, i_dst = None, i_dst2 = None, i_imm = None, i_mem = None,
       i_cond = None, i_aux = 0, i_src_start = 0, i_src_len = 0\<rparr>,
     \<lparr>i_op = OP_CHARGE, i_ty = I64, i_dst = None, i_dst2 = None, i_imm = Some (ConstInt 2), i_mem = None,
       i_cond = None, i_aux = 0, i_src_start = 0, i_src_len = 0\<rparr>,
     \<lparr>i_op = OP_GET_SLOT, i_ty = I64, i_dst = Some 1, i_dst2 = None, i_imm = None, i_mem = None,
       i_cond = None, i_aux = 5, i_src_start = 0, i_src_len = 0\<rparr>,
     \<lparr>i_op = OP_ADD, i_ty = I64, i_dst = Some 2, i_dst2 = None, i_imm = None, i_mem = None,
       i_cond = None, i_aux = 0, i_src_start = 0, i_src_len = 2\<rparr>,
     \<lparr>i_op = OP_LD, i_ty = I64, i_dst = Some 3, i_dst2 = None, i_imm = None, i_mem = Some (mem_load U32),
       i_cond = None, i_aux = 0, i_src_start = 2, i_src_len = 1\<rparr>,
     \<lparr>i_op = OP_INSN_START, i_ty = I64, i_dst = None, i_dst2 = None, i_imm = None, i_mem = None,
       i_cond = None, i_aux = 1, i_src_start = 3, i_src_len = 0\<rparr>,
     \<lparr>i_op = OP_CHARGE, i_ty = I64, i_dst = None, i_dst2 = None, i_imm = Some (ConstInt 3), i_mem = None,
       i_cond = None, i_aux = 0, i_src_start = 3, i_src_len = 0\<rparr>,
     \<lparr>i_op = OP_EXIT_TB, i_ty = I64, i_dst = None, i_dst2 = None, i_imm = None, i_mem = None,
       i_cond = None, i_aux = 0, i_src_start = 3, i_src_len = 0\<rparr>]"
  by (simp_all add: demo_block_def builder_defs)

lemma demo_verifies: "verify demo_block = Inr ()"
  by (simp add: verify_defs demo_insts numeral_eq_Suc)

lemmas run_defs = run_def run_start_def execute.simps step_at_def step_op_def pure_eval_def step_pure_def
  step_get_slot_def step_ld_def step_charge_def step_insn_start_def step_brcond_def finish_def commit_eval_def
  write_dst_def set_temp_def type_of_def operands_def fetch_def eval_mov_def eval_arith_def publish_def
  publish_live_def shadowed_def current_mark_def next_is_terminator_def load_value_def mask_bits_def
  STEP_LIMIT_def temp_count_def srcs_def nth_opt_def is_terminator_def ref_host_def host_ops default_spent_def
  interp_new_def take_fault_def Let_def require_int_def is_fetch_def in_fetch_range_def as_u16_def peek_def is_int_def upt_conv_Cons demo_host_def host_default_def mem_load_def
  raise_def eval_div_def ir_err_def

lemma demo_run:
  "run ref_host demo_block interp_new demo_host =
     (Inr Exit,
      \<lparr>s_temps = [7, 0x100, 0x107, 0x12a], s_args = [], s_ticks = 5, s_mark = Some 1, s_published = True,
       s_boundaries = 2, s_boundary_pc = 0x1004, s_retired = 2, s_committed = True\<rparr>,
      demo_host\<lparr>t_slots := [5 \<mapsto> 0x100, 3 \<mapsto> 0x107, 4 \<mapsto> 0x12a], t_ticks := 5,
        t_boundaries := [(0x1000, 0x1004, 0), (0x1004, 0x1008, 2)], t_published := [(3, 0x107), (4, 0x12a)]\<rparr>)"
  by (simp add: run_defs demo_insts)

lemma demo_fault_run:
  "run ref_host demo_block interp_new demo_fault =
     (Inr (Fault \<lparr>f_error = Protected, f_at = 5, f_mark = Some 0, f_pc = 0x1000, f_retired_ticks = 0,
        f_charged_ticks = 2, f_restartable = False\<rparr>),
      \<lparr>s_temps = [7, 0x100, 0x107, 0], s_args = [], s_ticks = 2, s_mark = Some 0, s_published = True,
       s_boundaries = 1, s_boundary_pc = 0x1000, s_retired = 0, s_committed = True\<rparr>,
      demo_fault\<lparr>t_slots := [5 \<mapsto> 0x100, 3 \<mapsto> 7], t_ticks := 2,
        t_boundaries := [(0x1000, 0x1004, 0)], t_published := [(3, 7)]\<rparr>)"
  by (simp add: run_defs demo_insts demo_fault_def)

text \<open>A block the verifier accepts that divides by zero.\<close>

definition div_block :: block where
  "div_block =
     (let (t0, b1) = bb_imm (bb_new 0x1000 0) I32 (ConstInt 1);
          (t1, b2) = bb_imm b1 I32 (ConstInt 0);
          (t2, b3) = bb_binary b2 OP_DIV_U I32 t0 t1
      in bb_exit_tb b3)"

lemma div_insts:
  "b_operands div_block = [0, 1]" "b_types div_block = [I32, I32, I32]" "b_entry_pc div_block = 0x1000"
  "b_marks div_block = []"
  "b_insts div_block =
    [\<lparr>i_op = OP_MOV, i_ty = I32, i_dst = Some 0, i_dst2 = None, i_imm = Some (ConstInt 1), i_mem = None,
       i_cond = None, i_aux = 0, i_src_start = 0, i_src_len = 0\<rparr>,
     \<lparr>i_op = OP_MOV, i_ty = I32, i_dst = Some 1, i_dst2 = None, i_imm = Some (ConstInt 0), i_mem = None,
       i_cond = None, i_aux = 0, i_src_start = 0, i_src_len = 0\<rparr>,
     \<lparr>i_op = OP_DIV_U, i_ty = I32, i_dst = Some 2, i_dst2 = None, i_imm = None, i_mem = None,
       i_cond = None, i_aux = 0, i_src_start = 0, i_src_len = 2\<rparr>,
     \<lparr>i_op = OP_EXIT_TB, i_ty = I64, i_dst = None, i_dst2 = None, i_imm = None, i_mem = None,
       i_cond = None, i_aux = 0, i_src_start = 2, i_src_len = 0\<rparr>]"
  by (simp_all add: div_block_def builder_defs)

lemma div_verifies: "verify div_block = Inr ()"
  by (simp add: verify_defs div_insts numeral_eq_Suc)

lemma div_short: "length (b_insts div_block) \<le> STEP_LIMIT"
  by (simp add: div_insts STEP_LIMIT_def)

lemma div_run:
  obtains s h where "run ref_host div_block interp_new host_default = (Inl (ir_err 2 OP_DIV_U DivideByZero), s, h)"
  by (simp add: run_defs div_insts)

section \<open>Properties of whole runs\<close>





text \<open>
  C7: Guest state is exact whenever a run stops, whether at an exit, an
  exhausted budget, a fault or an error: if the block passes the verifier and
  calls no helper, then every guest register the current boundary maps to a
  temporary holds that temporary's value in the host, even though the
  interpreter writes registers back lazily. The boundary must not name one
  register twice.
\<close>

theorem published_state_exact:
  assumes "slot_host H slot" "verify b = Inr ()" "no_helpers b" "run H b s0 h0 = (r, s', h')"
    and "current_mark b s' = Some mark" "distinct (map fst (is_live mark))" "(g, t) \<in> set (is_live mark)"
  shows "t < length (s_temps s') \<and> slot h' g = s_temps s' ! t"
proof -
  have wf: "well_formed b" using assms(2) by (simp add: verify_iff)
  have b: "slot_host.bound slot b s' h'" "s_published s'"
    using slot_host.run_bound [OF assms(1,4) wf assms(3)] by auto
  have t: "t < length (s_temps s')" using run_mark_live [OF wf assms(4,5,7)] .
  with b assms(5-7) show ?thesis unfolding slot_host.bound_def [OF assms(1)] by auto
qed

theorem published_state_exact_witness:
  "host_slot (snd (snd (run ref_host demo_block interp_new demo_host))) 4 = 0x12a"
proof -
  have "no_helpers demo_block" by (simp add: no_helpers_def demo_insts)
  from published_state_exact [OF ref_slots.slot_host_axioms demo_verifies this demo_run, of "b_marks demo_block ! 1" 4 3]
  show ?thesis by (simp add: demo_run current_mark_def demo_insts nth_opt_def)
qed

end
