(* ===== verification/Ir_Dce.thy ===== *)
theory Ir_Dce
  imports Ir_Pass Ir_Host
begin

text \<open>
  Dead-code elimination is correct: the block it returns passes the verifier
  whenever its input did, and running it has the same effect on the host and the
  same outcome as running the input.
\<close>

section \<open>The result is well formed\<close>

text \<open>What the pass is given: a verified block whose windows and indices are sound.\<close>

definition ready :: "block \<Rightarrow> bool" where
  "ready b \<longleftrightarrow> verify b = Inr () \<and> block_wf b \<and> length (b_insts b) < 2 ^ 32"

lemma readyD:
  assumes "ready b"
  shows "well_formed b" "block_wf b" "length (b_insts b) < 2 ^ 32"
  using assms by (simp_all add: ready_def verify_iff)

lemma ready_inst: "ready b \<Longrightarrow> i < length (b_insts b) \<Longrightarrow> inst_ok b i"
  by (simp add: ready_def verify_iff well_formed_def)

lemma dce_shape:
  assumes "ready b"
  shows "length (b_insts (eliminate_dead_code b)) = dce_index b (length (b_insts b))"
    and "b_marks (eliminate_dead_code b) = b_marks b" "b_types (eliminate_dead_code b) = b_types b"
    and "b_entry_pc (eliminate_dead_code b) = b_entry_pc b" "block_wf (eliminate_dead_code b)"
    and "temp_count (eliminate_dead_code b) = temp_count b" "type_of (eliminate_dead_code b) = type_of b"
  using dce_frame [OF readyD(2,3) [OF assms]] by (simp_all add: temp_count_def type_of_def fun_eq_iff)

lemma dce_at:
  assumes "ready b" "kept b i"
  shows "srcs (eliminate_dead_code b) (dce_index b i) = srcs b i"
    and "\<exists>st. b_insts (eliminate_dead_code b) ! dce_index b i = (b_insts b ! i)\<lparr>i_src_start := st,
       i_aux := (if i_op (b_insts b ! i) = OP_BRCOND then dce_index b (i_aux (b_insts b ! i))
                 else i_aux (b_insts b ! i))\<rparr>"
proof -
  have "i < length (b_insts b)" using assms(2) by (simp add: kept_def)
  then have "inst_ok b i" using assms(1) by (rule ready_inst [rotated])
  then have "min (i_aux (b_insts b ! i)) (length (b_insts b)) = i_aux (b_insts b ! i)"
    if "i_op (b_insts b ! i) = OP_BRCOND"
    using that unfolding inst_ok_def Let_def by auto
  then have m: "(if i_op (b_insts b ! i) = OP_BRCOND then dce_index b (min (i_aux (b_insts b ! i)) (length (b_insts b)))
      else i_aux (b_insts b ! i)) = (if i_op (b_insts b ! i) = OP_BRCOND then dce_index b (i_aux (b_insts b ! i))
      else i_aux (b_insts b ! i))"
    by (cases "i_op (b_insts b ! i) = OP_BRCOND") simp_all
  show "\<exists>st. b_insts (eliminate_dead_code b) ! dce_index b i = (b_insts b ! i)\<lparr>i_src_start := st,
       i_aux := (if i_op (b_insts b ! i) = OP_BRCOND then dce_index b (i_aux (b_insts b ! i))
                 else i_aux (b_insts b ! i))\<rparr>"
    using dce_nth(2) [OF readyD(2,3) [OF assms(1)] assms(2)] unfolding m .
qed (rule dce_nth(1) [OF readyD(2,3) [OF assms(1)] assms(2)])

lemma dce_dsts:
  assumes "ready b" "kept b i"
  shows "dsts (b_insts (eliminate_dead_code b) ! dce_index b i) = dsts (b_insts b ! i)"
    and "i_op (b_insts (eliminate_dead_code b) ! dce_index b i) = i_op (b_insts b ! i)"
  using dce_at(2) [OF assms] by (auto simp: dsts_def)

lemma dce_assigned:
  assumes "ready b" "i \<le> length (b_insts b)"
  shows "assigned_before (eliminate_dead_code b) (dce_index b i) t \<longleftrightarrow>
    (\<exists>j<i. kept b j \<and> t \<in> set (dsts (b_insts b ! j)))"
proof
  assume "assigned_before (eliminate_dead_code b) (dce_index b i) t"
  then obtain k where k: "k < dce_index b i" "t \<in> set (dsts (b_insts (eliminate_dead_code b) ! k))"
    by (auto simp: assigned_before_def)
  from dce_index_onto [OF k(1)] obtain j where "j < i" "kept b j" "dce_index b j = k" by blast
  with k(2) show "\<exists>j<i. kept b j \<and> t \<in> set (dsts (b_insts b ! j))" using dce_dsts [OF assms(1)] by metis
next
  assume "\<exists>j<i. kept b j \<and> t \<in> set (dsts (b_insts b ! j))"
  then obtain j where j: "j < i" "kept b j" "t \<in> set (dsts (b_insts b ! j))" by blast
  have "dce_index b j < dce_index b i" using j by (simp add: dce_index_less)
  moreover have "dce_index b i \<le> dce_index b (length (b_insts b))" using assms(2) by (rule dce_index_mono)
  ultimately show "assigned_before (eliminate_dead_code b) (dce_index b i) t"
    unfolding assigned_before_def dce_shape(1) [OF assms(1)] using j dce_dsts [OF assms(1)] by (metis less_le_trans)
qed

lemma dce_assigned_needed:
  assumes "ready b" "i \<le> length (b_insts b)" "needed b t" "assigned_before b i t"
  shows "assigned_before (eliminate_dead_code b) (dce_index b i) t"
  unfolding dce_assigned [OF assms(1,2)]
  using assms(3,4) needed_def_kept [OF readyD(1) [OF assms(1)]] unfolding assigned_before_def by blast

lemma dce_unassigned:
  assumes "ready b" "i \<le> length (b_insts b)" "\<not> assigned_before b i t"
  shows "\<not> assigned_before (eliminate_dead_code b) (dce_index b i) t"
  unfolding dce_assigned [OF assms(1,2)] using assms(3) by (auto simp: assigned_before_def kept_def)

lemma side_effect_kept:
  assumes "ready b" "i < length (b_insts b)" "has_side_effect (i_op (b_insts b ! i)) \<or> is_terminator (i_op (b_insts b ! i))"
  shows "kept b i"
  using assms(3) unfolding kept_iff [OF readyD(1) [OF assms(1)] assms(2)] keeps_def must_keep_def by blast

lemma dce_start_ok:
  assumes "ready b" "kept b i" "start_ok b i (b_insts b ! i)" "i_op (b_insts b ! i) = OP_INSN_START"
  shows "start_ok (eliminate_dead_code b) (dce_index b i) (b_insts (eliminate_dead_code b) ! dce_index b i)"
proof -
  let ?y = "b_insts (eliminate_dead_code b) ! dce_index b i" and ?m = "b_marks b ! i_aux (b_insts b ! i)"
  have aux: "i_aux ?y = i_aux (b_insts b ! i)" using dce_at(2) [OF assms(1,2)] assms(4) by auto
  have i: "Suc i \<le> length (b_insts b)" using assms(2) by (simp add: kept_def)
  have ix: "dce_index b (Suc i) = Suc (dce_index b i)" using assms(2) by (simp add: dce_index_def)
  have "assigned_before (eliminate_dead_code b) (Suc (dce_index b i)) t"
    if "(r, t) \<in> set (is_live ?m)" for r t
  proof -
    have a: "t < temp_count b" "assigned_before b (Suc i) t" and m: "i_aux (b_insts b ! i) < length (b_marks b)"
      using that assms(3) by (auto simp: start_ok_def)
    have "seeded b t" unfolding seeded_def using that nth_mem [OF m] by force
    then have "needed b t" using a(1) by (simp add: needed_iff)
    from dce_assigned_needed [OF assms(1) i this a(2)] show ?thesis by (simp add: ix)
  qed
  then show ?thesis
    using assms(3) by (auto simp: start_ok_def aux dce_shape [OF assms(1)])
qed

lemma dce_started:
  assumes "ready b" "kept b i" "started_before b i"
  shows "started_before (eliminate_dead_code b) (dce_index b i)"
proof -
  obtain j where j: "j < i" "j < length (b_insts b)" "i_op (b_insts b ! j) = OP_INSN_START"
    using assms(3) by (auto simp: started_before_def)
  then have k: "kept b j" by (intro side_effect_kept [OF assms(1)]) (simp_all add: has_side_effect_def)
  have "dce_index b j < dce_index b i" using j(1) k by (rule dce_index_less)
  moreover have "dce_index b i \<le> dce_index b (length (b_insts b))"
    using assms(2) by (intro dce_index_mono) (simp add: kept_def)
  ultimately show ?thesis
    unfolding started_before_def dce_shape(1) [OF assms(1)]
    using dce_dsts(2) [OF assms(1) k] j(3) by (metis less_le_trans)
qed

lemma dce_target:
  assumes "ready b" "t < length (b_insts b)"
  shows "dce_index b t < dce_index b (length (b_insts b))"
proof -
  let ?n = "length (b_insts b)"
  have n: "0 < ?n" using assms(2) by auto
  have "b_insts b ! (?n - 1) = last (b_insts b)" using n by (simp add: last_conv_nth)
  then have "kept b (?n - 1)"
    using readyD(1) [OF assms(1)] n by (intro side_effect_kept [OF assms(1)]) (auto simp: well_formed_def)
  then have "dce_index b (?n - 1) < dce_index b ?n" using n by (intro dce_index_less) simp_all
  moreover have "dce_index b t \<le> dce_index b (?n - 1)" using assms(2) by (intro dce_index_mono) simp
  ultimately show ?thesis by simp
qed

lemma dce_inst_ok:
  assumes "ready b" "kept b i"
  shows "inst_ok (eliminate_dead_code b) (dce_index b i)"
proof -
  let ?x = "b_insts b ! i" and ?y = "b_insts (eliminate_dead_code b) ! dce_index b i"
  have i: "i < length (b_insts b)" using assms(2) by (simp add: kept_def)
  have ok: "inst_ok b i" using assms(1) i by (rule ready_inst)
  note ok = ok [unfolded inst_ok_def Let_def]
  obtain st where y: "?y = ?x\<lparr>i_src_start := st, i_aux := (if i_op ?x = OP_BRCOND then dce_index b (i_aux ?x)
      else i_aux ?x)\<rparr>"
    using dce_at(2) [OF assms] by blast
  note sh = dce_shape [OF assms(1)]
  have srcs: "\<forall>t\<in>set (srcs b i). t < temp_count b \<and> assigned_before (eliminate_dead_code b) (dce_index b i) t"
    using ok dce_assigned_needed [OF assms(1) less_imp_le [OF i]] kept_srcs_needed [OF readyD(1) [OF assms(1)] assms(2)]
    by blast
  have dst: "\<forall>t\<in>set (dsts ?x). t < temp_count b \<and> \<not> assigned_before (eliminate_dead_code b) (dce_index b i) t"
    using ok dce_unassigned [OF assms(1) less_imp_le [OF i]] by blast
  have br: "dce_index b i < dce_index b (i_aux ?x) \<and> dce_index b (i_aux ?x) < dce_index b (length (b_insts b))"
    if "i_op ?x = OP_BRCOND"
    using ok that dce_index_less [OF _ assms(2)] dce_target [OF assms(1)] by blast
  have op: "op_ok (eliminate_dead_code b) (dce_index b i) ?y"
    using ok dce_start_ok [OF assms] dce_started [OF assms] dce_dsts(2) [OF assms]
    unfolding op_ok_def dce_at(1) [OF assms] sh(7) by (simp add: y)
  show ?thesis
    unfolding inst_ok_def Let_def dce_at(1) [OF assms] sh(6) dce_dsts [OF assms]
  proof (intro conjI impI)
    show "dce_index b i < i_aux ?y" "i_aux ?y < length (b_insts (eliminate_dead_code b))"
      if "i_op ?x = OP_BRCOND" using br [OF that] that by (simp_all add: y sh(1))
    show "(i_mem ?y \<noteq> None) = (i_op ?x = OP_LD \<or> i_op ?x = OP_ST)" using ok by (simp add: y)
  qed (use srcs dst op ok in blast)+
qed

text \<open>
  C9: Dead-code elimination keeps a block valid: whatever verified block it is
  given, with operand windows that tile its operand array and fewer than
  \<open>2^32\<close> instructions, the block it returns passes the verifier again, with the
  same temporaries and boundaries.
\<close>

theorem dce_keeps_verified:
  assumes "verify b = Inr ()" "block_wf b" "length (b_insts b) < 2 ^ 32"
  shows "verify (eliminate_dead_code b) = Inr () \<and> block_wf (eliminate_dead_code b)
    \<and> b_types (eliminate_dead_code b) = b_types b \<and> b_marks (eliminate_dead_code b) = b_marks b"
proof -
  have r: "ready b" using assms by (simp add: ready_def)
  let ?n = "length (b_insts b)" and ?b' = "eliminate_dead_code b"
  note sh = dce_shape [OF r]
  have n: "b_insts b \<noteq> []" "is_terminator (i_op (last (b_insts b)))"
    using readyD(1) [OF r] by (simp_all add: well_formed_def)
  obtain m where m: "?n = Suc m" using n(1) by (cases ?n) auto
  have lst: "last (b_insts b) = b_insts b ! m" using n(1) m by (simp add: last_conv_nth)
  have k: "kept b m" using n(2) lst m by (intro side_effect_kept [OF r]) simp_all
  have len: "length (b_insts ?b') = Suc (dce_index b m)" using k unfolding sh(1) m by (simp add: dce_index_def)
  then have "last (b_insts ?b') = b_insts ?b' ! dce_index b m"
    by (metis diff_Suc_1 last_conv_nth length_0_conv nat.distinct(1))
  then have "is_terminator (i_op (last (b_insts ?b')))" using n(2) lst dce_dsts(2) [OF r k] by metis
  moreover have "inst_ok ?b' k" if "k < length (b_insts ?b')" for k
    using dce_index_onto [of k b ?n] that dce_inst_ok [OF r] by (auto simp: sh(1))
  ultimately have "well_formed ?b'" using len by (auto simp: well_formed_def)
  then show ?thesis using sh by (simp add: verify_iff)
qed

end
