(* ===== verification/Ir_Dce_Sim.thy ===== *)
theory Ir_Dce_Sim
  imports Ir_Dce
begin

text \<open>
  The simulation behind dead-code elimination: the input and the result run in
  lockstep on the instructions that are kept, a removed instruction changes
  nothing the result needs, and instruction indices in outcomes move with the
  instructions.
\<close>

section \<open>Agreement on the needed temporaries\<close>

definition agree :: "(temp \<Rightarrow> bool) \<Rightarrow> u128 list \<Rightarrow> u128 list \<Rightarrow> bool" where
  "agree N ts us \<longleftrightarrow> length us = length ts \<and> (\<forall>t. N t \<longrightarrow> nth_opt us t = nth_opt ts t)"

lemma agree_refl [simp]: "agree N ts ts"
  by (simp add: agree_def)

definition relabel_outcome :: "(nat \<Rightarrow> nat) \<Rightarrow> outcome \<Rightarrow> outcome" where
  "relabel_outcome f out =
     (case out of
        Fault x \<Rightarrow> Fault (x\<lparr>f_at := f (f_at x)\<rparr>)
      | Unsupported p at \<Rightarrow> Unsupported p (f at)
      | _ \<Rightarrow> out)"

definition relabel_step :: "(nat \<Rightarrow> nat) \<Rightarrow> step \<Rightarrow> step" where
  "relabel_step f st =
     (case st of Next \<Rightarrow> Next | Jump t \<Rightarrow> Jump (f t) | Done out \<Rightarrow> Done (relabel_outcome f out))"

lemma relabel_simps [simp]:
  "relabel_step f Next = Next" "relabel_step f (Jump t) = Jump (f t)"
  "relabel_step f (Done out) = Done (relabel_outcome f out)"
  "relabel_outcome f Exit = Exit" "relabel_outcome f (Goto p) = Goto p" "relabel_outcome f (Lookup p) = Lookup p"
  "relabel_outcome f (Spent p) = Spent p" "relabel_outcome f (Unsupported q at) = Unsupported q (f at)"
  by (simp_all add: relabel_step_def relabel_outcome_def)

text \<open>Two blocks with the same types and boundaries, and an instruction moved from one to the other.\<close>

definition same_env :: "block \<Rightarrow> block \<Rightarrow> (temp \<Rightarrow> bool) \<Rightarrow> bool" where
  "same_env b b' N \<longleftrightarrow> b_types b' = b_types b \<and> b_marks b' = b_marks b
     \<and> (\<forall>m\<in>set (b_marks b). \<forall>p\<in>set (is_live m). N (snd p))"

lemma same_type_of: "same_env b b' N \<Longrightarrow> type_of b' t = type_of b t"
  by (simp add: same_env_def type_of_def)

lemma set_temp_agree:
  assumes "same_env b b' N" "agree N ts ts'" "set_temp b t v ts = Inr us"
  shows "\<exists>us'. set_temp b' t v ts' = Inr us' \<and> agree N us us'"
  using assms by (auto simp: set_temp_def same_type_of agree_def nth_opt_update split: option.splits if_splits)

lemma write_dst_agree:
  assumes "same_env b b' N" "agree N ts ts'" "write_dst b x v ts = Inr us" "i_dst y = i_dst x"
  shows "\<exists>us'. write_dst b' y v ts' = Inr us' \<and> agree N us us'"
  using assms(3,4) set_temp_agree [OF assms(1,2)] by (auto simp: write_dst_def split: option.splits)

lemma set_opt_agree:
  assumes "same_env b b' N" "agree N ts ts'" "set_opt b d v ts = Inr us"
  shows "\<exists>us'. set_opt b' d v ts' = Inr us' \<and> agree N us us'"
  using assms set_temp_agree [OF assms(1,2)] by (auto simp: set_opt_def split: option.splits)

lemma commit_eval_agree:
  assumes "same_env b b' N" "agree N ts ts'" "commit_eval b x at ev ts = (Inr r, us)"
    and "i_dst y = i_dst x" "i_dst2 y = i_dst2 x" "i_op y = i_op x"
  shows "\<exists>us'. commit_eval b' y (f at) ev ts' = (Inr (relabel_step f r), us') \<and> agree N us us'"
proof (cases ev)
  case (One v)
  then have w: "write_dst b x v ts = Inr us" "r = Next"
    using assms(3) by (auto simp: commit_eval_def split: sum.splits)
  from write_dst_agree [OF assms(1,2) w(1) assms(4)] One w(2) show ?thesis by (auto simp: commit_eval_def)
next
  case (Two v v2 w)
  then obtain u d where u: "write_dst b x v ts = Inr u" "i_dst2 x = Some d" "set_temp b d v2 u = Inr us" "r = Next"
    using assms(3) by (auto simp: commit_eval_def split: sum.splits option.splits)
  from write_dst_agree [OF assms(1,2) u(1) assms(4)] obtain u' where u': "write_dst b' y v ts' = Inr u'" "agree N u u'" by blast
  from set_temp_agree [OF assms(1) u'(2) u(3)] obtain us' where "set_temp b' d v2 u' = Inr us'" "agree N us us'" by blast
  with u u' Two assms(5) show ?thesis by (auto simp: commit_eval_def)
next
  case NoSupport
  then show ?thesis using assms by (auto simp: commit_eval_def)
qed

lemma finish_agree:
  assumes "same_env b b' N" "agree N (s_temps s) ts'" "finish b x at ev s h = (Inr r, s1, h1)"
    and "i_dst y = i_dst x" "i_dst2 y = i_dst2 x" "i_op y = i_op x"
  shows "\<exists>us. finish b' y (f at) ev (s\<lparr>s_temps := ts'\<rparr>) h = (Inr (relabel_step f r), s1\<lparr>s_temps := us\<rparr>, h1)
    \<and> agree N (s_temps s1) us"
proof -
  obtain us where c: "commit_eval b x at ev (s_temps s) = (Inr r, us)" "s1 = s\<lparr>s_temps := us\<rparr>" "h1 = h"
    using assms(3) by (auto simp: finish_def map_err_eq_Inr split: prod.splits)
  from commit_eval_agree [OF assms(1,2) c(1) assms(4-6), of f] obtain us' where
    "commit_eval b' y (f at) ev ts' = (Inr (relabel_step f r), us')" "agree N us us'" by blast
  with c show ?thesis by (auto simp: finish_def)
qed

lemma set_both_agree:
  assumes "same_env b b' N" "agree N (s_temps s) ts'" "set_both b x at v d2 v2 s h = (Inr r, s1, h1)"
    and "i_dst y = i_dst x"
  shows "\<exists>us. set_both b' y at' v d2 v2 (s\<lparr>s_temps := ts'\<rparr>) h = (Inr (relabel_step f r), s1\<lparr>s_temps := us\<rparr>, h1)
    \<and> agree N (s_temps s1) us"
proof -
  obtain t1 t2 where t: "set_opt b (i_dst x) v (s_temps s) = Inr t1" "set_opt b d2 v2 t1 = Inr t2"
    "r = Next" "s1 = s\<lparr>s_temps := t2\<rparr>" "h1 = h"
    using assms(3) by (auto simp: set_both_def raise_def Let_def split: sum.splits)
  from set_opt_agree [OF assms(1,2) t(1)] obtain t1' where t1: "set_opt b' (i_dst x) v ts' = Inr t1'" "agree N t1 t1'" by blast
  from set_opt_agree [OF assms(1) t1(2) t(2)] obtain t2' where "set_opt b' d2 v2 t1' = Inr t2'" "agree N t2 t2'" by blast
  with t t1 assms(4) show ?thesis by (auto simp: set_both_def Let_def)
qed

lemma publish_live_agree:
  "\<forall>p\<in>set live. N (snd p) \<Longrightarrow> agree N ts us \<Longrightarrow> publish_live H us live h = publish_live H ts live h"
  unfolding publish_live_def
  by (induction live arbitrary: h) (auto simp: agree_def split: option.splits)

lemma current_mark_same: "same_env b b' N \<Longrightarrow> current_mark b' (s\<lparr>s_temps := us\<rparr>) = current_mark b s"
  by (auto simp: current_mark_def same_env_def split: option.splits)

lemma publish_agree:
  assumes "same_env b b' N" "agree N (s_temps s) us" "publish H b s h = (s1, h1)"
  shows "publish H b' (s\<lparr>s_temps := us\<rparr>) h = (s1\<lparr>s_temps := us\<rparr>, h1)"
proof -
  have "\<forall>p\<in>set (is_live mark). N (snd p)" if "current_mark b s = Some mark" for mark
    using that assms(1) nth_mem by (fastforce simp: current_mark_def same_env_def nth_opt_eq_Some split: option.splits)
  then show ?thesis
    using assms(2,3) by (auto simp: publish_def current_mark_same [OF assms(1)] publish_live_agree split: if_splits option.splits)
qed

section \<open>A kept instruction\<close>

lemma pure_moved:
  assumes "pure_eval (i_op x) = Some g"
  shows "g (x\<lparr>i_src_start := st\<rparr>) os = g x os"
proof -
  have "eval_mov (x\<lparr>i_src_start := st\<rparr>) os = eval_mov x os" "eval_ext_s (x\<lparr>i_src_start := st\<rparr>) os = eval_ext_s x os"
    "eval_ext_z (x\<lparr>i_src_start := st\<rparr>) os = eval_ext_z x os" "eval_bswap (x\<lparr>i_src_start := st\<rparr>) os = eval_bswap x os"
    "eval_deposit (x\<lparr>i_src_start := st\<rparr>) os = eval_deposit x os"
    "eval_extract (x\<lparr>i_src_start := st\<rparr>) os = eval_extract x os"
    "eval_arith (x\<lparr>i_src_start := st\<rparr>) os = eval_arith x os" "eval_div (x\<lparr>i_src_start := st\<rparr>) os = eval_div x os"
    "eval_carry (x\<lparr>i_src_start := st\<rparr>) os = eval_carry x os"
    "eval_widening (x\<lparr>i_src_start := st\<rparr>) os = eval_widening x os"
    "eval_logic (x\<lparr>i_src_start := st\<rparr>) os = eval_logic x os" "eval_shift (x\<lparr>i_src_start := st\<rparr>) os = eval_shift x os"
    "eval_rotate (x\<lparr>i_src_start := st\<rparr>) os = eval_rotate x os"
    "eval_rotate_carry (x\<lparr>i_src_start := st\<rparr>) os = eval_rotate_carry x os"
    "eval_count (x\<lparr>i_src_start := st\<rparr>) os = eval_count x os"
    "eval_setcond (x\<lparr>i_src_start := st\<rparr>) os = eval_setcond x os"
    "eval_movcond (x\<lparr>i_src_start := st\<rparr>) os = eval_movcond x os"
    by (simp_all add: eval_mov_def eval_ext_s_def eval_ext_z_def eval_bswap_def eval_deposit_def eval_extract_def
        eval_arith_def eval_div_def eval_carry_def eval_widening_def eval_logic_def eval_shift_def eval_rotate_def
        eval_rotate_carry_def eval_count_def eval_setcond_def eval_movcond_def Let_def cong: if_cong option.case_cong list.case_cong)
  then show ?thesis using assms by (auto simp: pure_eval_def split: if_splits)
qed

text \<open>The instruction as it stands in the rebuilt block.\<close>

definition moved_inst :: "(nat \<Rightarrow> nat) \<Rightarrow> nat \<Rightarrow> inst \<Rightarrow> inst" where
  "moved_inst f st x = x\<lparr>i_src_start := st, i_aux := (if i_op x = OP_BRCOND then f (i_aux x) else i_aux x)\<rparr>"

lemma moved_inst_simps [simp]:
  "i_op (moved_inst f st x) = i_op x" "i_ty (moved_inst f st x) = i_ty x" "i_dst (moved_inst f st x) = i_dst x"
  "i_dst2 (moved_inst f st x) = i_dst2 x" "i_imm (moved_inst f st x) = i_imm x" "i_mem (moved_inst f st x) = i_mem x"
  "i_cond (moved_inst f st x) = i_cond x"
  by (simp_all add: moved_inst_def)

lemma moved_inst_aux: "i_op x \<noteq> OP_BRCOND \<Longrightarrow> moved_inst f st x = x\<lparr>i_src_start := st\<rparr>"
  by (simp add: moved_inst_def)

lemma step_op_arms:
  "i_op x = OP_GET_SLOT \<Longrightarrow> step_op H b x at os s h = step_get_slot H b x at s h"
  "i_op x = OP_BRCOND \<Longrightarrow> step_op H b x at os s h = step_brcond x at os s h"
  "i_op x = OP_LD \<Longrightarrow> step_op H b x at os s h = step_ld H b x at os s h"
  "i_op x = OP_ST \<Longrightarrow> step_op H b x at os s h = step_st H x at os s h"
  "i_op x = OP_FENCE \<Longrightarrow> step_op H b x at os s h = (Inr Next, s\<lparr>s_committed := True\<rparr>, h_fence H h)"
  "i_op x = OP_GOTO_TB \<Longrightarrow> step_op H b x at os s h = step_goto x at s h"
  "i_op x = OP_EXIT_TB \<Longrightarrow> step_op H b x at os s h = (Inr (Done Exit), s, h)"
  "i_op x = OP_LOOKUP_AND_GOTO \<Longrightarrow> step_op H b x at os s h = step_lookup x at os s h"
  "i_op x = OP_CALL_HELPER \<Longrightarrow> step_op H b x at os s h = step_call_helper H b x at os s h"
  "i_op x = OP_CHARGE \<Longrightarrow> step_op H b x at os s h = step_charge H x at s h"
  "i_op x = OP_INSN_START \<Longrightarrow> step_op H b x at os s h = step_insn_start H b x at s h"
  by (simp_all add: step_op_def pure_eval_def is_fetch_def in_fetch_range_def)

lemma step_op_atomic:
  assumes "i_op x \<in> {OP_CMPXCHG, OP_XCHG, OP_LD_EXCL, OP_ST_EXCL} \<or> is_fetch (i_op x)"
  shows "step_op H b x at os s h = atomic H b x at os s h"
proof -
  have "pure_eval (i_op x) = None"
    using assms by (auto simp: is_fetch_def in_fetch_range_def pure_eval_def)
  then show ?thesis
  proof (cases rule: step_op_cases [of x H b at os s h])
    case unsupported
    then show ?thesis using assms by (auto simp: has_side_effect_def is_fetch_def)
  qed (use assms in \<open>auto simp: is_fetch_def in_fetch_range_def\<close>)
qed

lemma step_op_unsupported:
  assumes "pure_eval (i_op x) = None" "i_op x \<notin> {OP_GET_SLOT, OP_BRCOND, OP_LD, OP_ST, OP_FENCE}"
    and "\<not> is_terminator (i_op x)" "\<not> has_side_effect (i_op x)"
  shows "step_op H b x at os s h = (Inr (Done (Unsupported (i_op x) at)), s, h)"
proof (cases rule: step_op_cases [of x H b at os s h])
  case atomic
  then show ?thesis using assms by (auto simp: has_side_effect_def is_fetch_def)
qed (use assms in \<open>auto simp: is_terminator_def has_side_effect_def\<close>)

text \<open>One lemma per arm that the two blocks can execute differently.\<close>

lemma temps_last:
  "s\<lparr>s_temps := ts, s_committed := c\<rparr> = s\<lparr>s_committed := c, s_temps := ts\<rparr>"
  "s\<lparr>s_temps := ts, s_args := a, s_committed := c\<rparr> = s\<lparr>s_args := a, s_committed := c, s_temps := ts\<rparr>"
  by simp_all

lemma take_fault_moved:
  "take_fault s at er = Inr r \<Longrightarrow> take_fault (s\<lparr>s_temps := ts'\<rparr>) (f at) er = Inr (relabel_step f r)"
  by (auto simp: take_fault_def relabel_outcome_def split: if_splits)

lemma get_slot_kept:
  assumes env: "same_env b b' N" and ag: "agree N (s_temps s) ts'"
    and e: "step_get_slot H b x at s h = (Inr r, s1, h1)" and op: "i_op x \<noteq> OP_BRCOND"
  shows "\<exists>us. step_get_slot H b' (moved_inst f st x) (f at) (s\<lparr>s_temps := ts'\<rparr>) h
      = (Inr (relabel_step f r), s1\<lparr>s_temps := us\<rparr>, h1) \<and> agree N (s_temps s1) us"
proof -
  let ?sl = "as_u16 (i_aux x)" and ?y = "moved_inst f st x"
  have aux: "i_aux ?y = i_aux x" using op by (simp add: moved_inst_aux)
  obtain s2 h2 where p: "(if shadowed b s ?sl then publish H b s h else (s, h)) = (s2, h2)"
    by (cases "if shadowed b s ?sl then publish H b s h else (s, h)")
  have ag2: "agree N (s_temps s2) ts'" using p ag publish_frame by (fastforce split: if_splits)
  have "shadowed b' (s\<lparr>s_temps := ts'\<rparr>) ?sl = shadowed b s ?sl"
    by (simp add: shadowed_def current_mark_same [OF env])
  then have p': "(if shadowed b' (s\<lparr>s_temps := ts'\<rparr>) ?sl then publish H b' (s\<lparr>s_temps := ts'\<rparr>) h
      else (s\<lparr>s_temps := ts'\<rparr>, h)) = (s2\<lparr>s_temps := ts'\<rparr>, h2)"
    using p publish_agree [OF env ag] by (auto split: if_splits)
  obtain v h3 where rd: "h_read_slot H ?sl h2 = (v, h3)" by (cases "h_read_slot H ?sl h2")
  have "finish b x at (One v) s2 h3 = (Inr r, s1, h1)"
    using e [unfolded step_get_slot_def Let_def p] by (simp add: rd)
  from finish_agree [OF env ag2 this, of ?y f] show ?thesis
    by (simp add: step_get_slot_def Let_def aux p' rd)
qed

lemma ld_kept:
  assumes env: "same_env b b' N" and ag: "agree N (s_temps s) ts'"
    and e: "step_ld H b x at os s h = (Inr r, s1, h1)"
  shows "\<exists>us. step_ld H b' (moved_inst f st x) (f at) os (s\<lparr>s_temps := ts'\<rparr>) h
      = (Inr (relabel_step f r), s1\<lparr>s_temps := us\<rparr>, h1) \<and> agree N (s_temps s1) us"
proof -
  obtain m addr where m: "i_mem x = Some m" "fetch os 0 = Inr addr"
    using e by (auto simp: step_ld_def raise_def split: option.splits sum.splits)
  let ?s2 = "if m_volatile m then s\<lparr>s_committed := True\<rparr> else s"
  have s2: "(if m_volatile m then s\<lparr>s_temps := ts'\<rparr>\<lparr>s_committed := True\<rparr> else s\<lparr>s_temps := ts'\<rparr>)
      = ?s2\<lparr>s_temps := ts'\<rparr>" by simp
  have ag2: "agree N (s_temps ?s2) ts'" using ag by simp
  obtain q h2 where l: "h_load H m (ucast addr) h = (q, h2)" by (cases "h_load H m (ucast addr) h")
  show ?thesis
  proof (cases q)
    case (Inl er)
    then have "take_fault ?s2 at er = Inr r" "s1 = ?s2" "h1 = h2"
      using e m l by (auto simp: step_ld_def Let_def)
    with take_fault_moved [OF this(1), of ts' f] ag2 show ?thesis
      unfolding step_ld_def Let_def moved_inst_simps m(1) option.case m(2) sum.case l prod.case Inl s2 by auto
  next
    case (Inr raw)
    then have "finish b x at (One (load_value m raw)) ?s2 h2 = (Inr r, s1, h1)"
      using e m l by (simp add: step_ld_def Let_def)
    from finish_agree [OF env ag2 this, of "moved_inst f st x" f] show ?thesis
      unfolding step_ld_def Let_def moved_inst_simps m(1) option.case m(2) sum.case l prod.case Inr s2 by simp
  qed
qed

lemma atomic_kept:
  assumes env: "same_env b b' N" and ag: "agree N (s_temps s) ts'"
    and e: "atomic H b x at os s h = (Inr r, s1, h1)"
  shows "\<exists>us. atomic H b' (moved_inst f st x) (f at) os (s\<lparr>s_temps := ts'\<rparr>) h
      = (Inr (relabel_step f r), s1\<lparr>s_temps := us\<rparr>, h1) \<and> agree N (s_temps s1) us"
proof -
  let ?w = "if i_ty x = I32 then Some U32 else if i_ty x = I64 then Some U64 else None"
  let ?ops = "rbind (fetch os 0) (\<lambda>addr.
      if i_op x = OP_LD_EXCL then Inr (addr, 0, 0)
      else if i_op x = OP_CMPXCHG then rbind (fetch os 2) (\<lambda>arg. rbind (fetch os 1) (\<lambda>cmp. Inr (addr, arg, cmp)))
      else rbind (fetch os 1) (\<lambda>arg. Inr (addr, arg, 0)))"
  note def = atomic_def [unfolded Let_def raise_def]
  obtain w where w: "?w = Some w" using e unfolding def by (cases ?w) simp_all
  obtain addr arg cmp where ops: "?ops = Inr (addr, arg, cmp)"
    using e unfolding def w option.case by (cases ?ops) auto
  define m where "m = (mem_load w)\<lparr>m_kind := (if i_op x = OP_LD_EXCL then Load else Store), m_volatile := True\<rparr>"
  let ?s2 = "s\<lparr>s_committed := True\<rparr>"
  have s2: "s\<lparr>s_temps := ts'\<rparr>\<lparr>s_committed := True\<rparr> = ?s2\<lparr>s_temps := ts'\<rparr>" and ag2: "agree N (s_temps ?s2) ts'"
    using ag by simp_all
  obtain q h2 where q: "h_rmw H (i_op x) m (ucast addr) (ucast arg) (ucast cmp) h = (q, h2)" by fastforce
  show ?thesis
  proof (cases q)
    case (Inl er)
    then have "take_fault ?s2 at er = Inr r" "s1 = ?s2" "h1 = h2"
      using e unfolding def w option.case ops sum.case prod.case m_def [symmetric] q by auto
    with take_fault_moved [OF this(1), of ts' f] ag2 show ?thesis
      unfolding def moved_inst_simps w option.case ops sum.case prod.case m_def [symmetric] q Inl s2 by auto
  next
    case (Inr v)
    then have "set_both b x at (ucast v) (if i_op x = OP_CMPXCHG then i_dst2 x else None)
        (if v = ucast cmp then 1 else 0) ?s2 h2 = (Inr r, s1, h1)"
      using e unfolding def w option.case ops sum.case prod.case m_def [symmetric] q by simp
    from set_both_agree [OF env ag2 this, of "moved_inst f st x" "f at" f] show ?thesis
      unfolding def moved_inst_simps w option.case ops sum.case prod.case m_def [symmetric] q Inr s2 by simp
  qed
qed

lemma call_kept:
  assumes env: "same_env b b' N" and ag: "agree N (s_temps s) ts'"
    and e: "step_call_helper H b x at os s h = (Inr r, s1, h1)" and op: "i_op x \<noteq> OP_BRCOND"
  shows "\<exists>us. step_call_helper H b' (moved_inst f st x) (f at) os (s\<lparr>s_temps := ts'\<rparr>) h
      = (Inr (relabel_step f r), s1\<lparr>s_temps := us\<rparr>, h1) \<and> agree N (s_temps s1) us"
proof -
  obtain u acc where g: "gather os [] = (Inr u, acc)"
    using e by (auto simp: step_call_helper_def raise_def split: prod.splits sum.splits)
  let ?s2 = "s\<lparr>s_args := acc, s_committed := True\<rparr>"
  obtain s3 h3 where p: "publish H b ?s2 h = (s3, h3)" by fastforce
  have ag2: "agree N (s_temps ?s2) ts'" "agree N (s_temps s3) ts'"
    using ag publish_frame [OF p] by simp_all
  have p': "publish H b' (s\<lparr>s_temps := ts'\<rparr>\<lparr>s_args := acc, s_committed := True\<rparr>) h = (s3\<lparr>s_temps := ts'\<rparr>, h3)"
    using publish_agree [OF env ag2(1) p] unfolding temps_last .
  obtain v1 v2 h4 where c: "h_call_helper H (i_aux x) acc h3 = (Inr (v1, v2), h4)"
    "set_both b x at v1 (i_dst2 x) v2 s3 h4 = (Inr r, s1, h1)"
    using e g p by (auto simp: step_call_helper_def Let_def split: prod.splits sum.splits)
  have aux: "i_aux (moved_inst f st x) = i_aux x" using op by (simp add: moved_inst_aux)
  from set_both_agree [OF env ag2(2) c(2), of "moved_inst f st x" "f at" f] show ?thesis
    using g p' c(1) by (simp add: step_call_helper_def Let_def aux)
qed

lemma start_kept:
  assumes env: "same_env b b' N" and ag: "agree N (s_temps s) ts'"
    and e: "step_insn_start H b x at s h = (Inr r, s1, h1)" and op: "i_op x \<noteq> OP_BRCOND"
    and ns: "\<And>pc. r \<noteq> Done (Spent pc)" and nt: "next_is_terminator b at \<Longrightarrow> next_is_terminator b' (f at)"
  shows "\<exists>us. step_insn_start H b' (moved_inst f st x) (f at) (s\<lparr>s_temps := ts'\<rparr>) h
      = (Inr (relabel_step f r), s1\<lparr>s_temps := us\<rparr>, h1) \<and> agree N (s_temps s1) us"
proof -
  have aux: "i_aux (moved_inst f st x) = i_aux x" using op by (simp add: moved_inst_aux)
  have marks: "b_marks b' = b_marks b" using env by (simp add: same_env_def)
  obtain mark where m: "nth_opt (b_marks b) (i_aux x) = Some mark"
    using e by (auto simp: step_insn_start_def raise_def split: option.splits)
  have "r = Next" "\<not> (1 < s_boundaries s + 1 \<and> h_spent H (h_insn_start H mark h) \<and> \<not> next_is_terminator b at)"
    using e ns m by (auto simp: step_insn_start_def Let_def split: if_splits)
  with e m ag nt show ?thesis
    by (auto simp: step_insn_start_def Let_def aux marks intro!: exI [of _ ts'])
qed

lemma step_kept:
  assumes env: "same_env b b' N" and ag: "agree N (s_temps s) ts'"
    and e: "step_op H b x at os s h = (Inr r, s1, h1)" and ns: "\<And>pc. r \<noteq> Done (Spent pc)"
    and nt: "next_is_terminator b at \<Longrightarrow> next_is_terminator b' (f at)"
  shows "\<exists>us. step_op H b' (moved_inst f st x) (f at) os (s\<lparr>s_temps := ts'\<rparr>) h
      = (Inr (relabel_step f r), s1\<lparr>s_temps := us\<rparr>, h1) \<and> agree N (s_temps s1) us"
proof -
  let ?y = "moved_inst f st x" and ?s = "s\<lparr>s_temps := ts'\<rparr>"
  show ?thesis
  proof (cases rule: step_op_cases [of x H b at os s h])
    case (pure g)
    then have "i_op x \<noteq> OP_BRCOND" by (auto simp: pure_eval_def)
    then have g: "g ?y os = g x os" using pure_moved [OF pure(1)] by (simp add: moved_inst_aux)
    obtain ev where "g x os = Inr ev" "finish b x at ev s h = (Inr r, s1, h1)"
      using e pure(2) by (auto simp: step_pure_def raise_def split: sum.splits)
    with finish_agree [OF env ag this(2), of ?y f] pure(1) g show ?thesis by (simp add: step_op_def step_pure_def)
  next
    case get_slot
    then show ?thesis using get_slot_kept [OF env ag, of H x at h r s1 h1 f st] e by (simp add: step_op_arms)
  next
    case brcond
    have "eval_brcond ?y os = eval_brcond x os"
      by (simp add: eval_brcond_def moved_inst_def cong: if_cong option.case_cong)
    moreover have "i_aux ?y = f (i_aux x)" using brcond(1) by (simp add: moved_inst_def)
    ultimately show ?thesis
      using e ag brcond by (auto simp: step_op_arms step_brcond_def raise_def split: sum.splits intro!: exI [of _ ts'])
  next
    case ld
    then show ?thesis using ld_kept [OF env ag, of H x at os h r s1 h1 f st] e by (simp add: step_op_arms)
  next
    case st
    then show ?thesis
      using e ag by (auto simp: step_op_arms step_st_def raise_def Let_def split: option.splits sum.splits prod.splits
          simp: temps_last intro!: exI [of _ ts'] take_fault_moved)
  next
    case atomic
    then show ?thesis using atomic_kept [OF env ag, of H x at os h r s1 h1 f st] e by (simp add: step_op_atomic)
  next
    case call
    then show ?thesis using call_kept [OF env ag, of H x at os h r s1 h1 f st] e by (simp add: step_op_arms)
  next
    case start
    then show ?thesis using start_kept [OF env ag, of H x at h r s1 h1 f st] e ns nt by (simp add: step_op_arms)
  next
    case unsupported
    then show ?thesis using e ag step_op_unsupported [of ?y] by (auto intro!: exI [of _ ts'])
  qed (use e ag in \<open>auto simp: step_op_arms step_goto_def step_lookup_def step_charge_def raise_def Let_def
      split: option.splits sum.splits intro!: exI [of _ ts']\<close>)
qed

section \<open>A removed instruction\<close>

text \<open>
  What the pass relies on in a host: reading a slot and an ordinary load have no
  effect of their own.
\<close>

locale pure_host =
  fixes H :: "'h ir_host"
  assumes read_pure: "snd (h_read_slot H r h) = h"
    and load_pure: "\<not> m_volatile m \<Longrightarrow> snd (h_load H m a h) = h"

interpretation ref_pure: pure_host ref_host
  by unfold_locales (simp_all add: ref_host_def host_ops split: option.splits)

text \<open>What it relies on in a block, beyond the verifier: a slot read never reads a slot an
  earlier boundary binds, and a branch has no result.\<close>

definition slots_unbound :: "block \<Rightarrow> bool" where
  "slots_unbound b \<longleftrightarrow> (\<forall>i<length (b_insts b). i_op (b_insts b ! i) = OP_GET_SLOT \<longrightarrow>
     (\<forall>j<i. i_op (b_insts b ! j) = OP_INSN_START \<longrightarrow>
        (case nth_opt (b_marks b) (i_aux (b_insts b ! j)) of None \<Rightarrow> True
         | Some mark \<Rightarrow> as_u16 (i_aux (b_insts b ! i)) \<notin> fst ` set (is_live mark))))"

definition branches_void :: "block \<Rightarrow> bool" where
  "branches_void b \<longleftrightarrow> list_all (\<lambda>x. i_op x = OP_BRCOND \<longrightarrow> dsts x = []) (b_insts b)"

lemma unshadowed:
  assumes "slots_unbound b" "well_formed b" "reach H b s0 h0 at n s h" "at < length (b_insts b)"
    and "i_op (b_insts b ! at) = OP_GET_SLOT"
  shows "\<not> shadowed b s (as_u16 (i_aux (b_insts b ! at)))"
proof (cases "s_mark s")
  case (Some m)
  obtain j where j: "j < at" "i_op (b_insts b ! j) = OP_INSN_START" "i_aux (b_insts b ! j) = m"
    using reach_mark [OF assms(3,2) Some] by blast
  have "case nth_opt (b_marks b) m of None \<Rightarrow> True
      | Some mark \<Rightarrow> as_u16 (i_aux (b_insts b ! at)) \<notin> fst ` set (is_live mark)"
    using assms(1,4,5) j unfolding slots_unbound_def by blast
  then show ?thesis unfolding shadowed_def current_mark_def Some by (auto split: option.splits)
qed (simp add: shadowed_def current_mark_def)

text \<open>The temporaries the result depends on; a number that was never allocated holds nothing in either block.\<close>

definition wanted :: "block \<Rightarrow> temp \<Rightarrow> bool" where
  "wanted b t \<longleftrightarrow> needed b t \<or> temp_count b \<le> t"

lemma removed_class:
  assumes "ready b" "at < length (b_insts b)" "\<not> kept b at"
  defines "x \<equiv> b_insts b ! at"
  shows "\<not> is_terminator (i_op x)" "\<not> has_side_effect (i_op x)" "dsts x \<noteq> []"
    "i_mem x = Some m \<Longrightarrow> \<not> m_volatile m" "\<And>t. t \<in> set (dsts x) \<Longrightarrow> \<not> wanted b t"
  using assms(3) unfolding kept_iff [OF readyD(1) [OF assms(1)] assms(2)] keeps_def must_keep_def x_def wanted_def
  by (auto split: option.splits)

lemma finish_only_temps: "finish b x at ev s h = (r, s1, h1) \<Longrightarrow> s1 = s\<lparr>s_temps := s_temps s1\<rparr> \<and> h1 = h"
  by (auto simp: finish_def split: prod.splits)

lemma finish_result:
  "finish b x at ev s h = (Inr r, s1, h1) \<Longrightarrow> r = Next \<or> (\<exists>p. r = Done (Unsupported p at))"
  by (auto simp: finish_def commit_eval_def map_err_eq_Inr split: prod.splits eval.splits sum.splits option.splits)

text \<open>It goes on to the next instruction with nothing but dead temporaries changed, or stops the run.\<close>

lemma step_removed:
  assumes "pure_host H" "ready b" "slots_unbound b" "branches_void b" "reach H b s0 h0 at n s h"
    and at: "at < length (b_insts b)" and "\<not> kept b at" and e: "step_at H b at s h = (Inr r, s1, h1)"
  shows "r = Next \<and> h1 = h \<and> s1 = s\<lparr>s_temps := s_temps s1\<rparr> \<and> agree (wanted b) (s_temps s1) (s_temps s)
    \<or> (\<exists>p. r = Done (Unsupported p at)) \<or> (\<exists>f. r = Done (Fault f) \<and> f_at f = at)"
proof -
  let ?x = "b_insts b ! at"
  note cl = removed_class [OF assms(2) at assms(7)]
  have "written b (dsts ?x) (s_temps s) (s_temps s1)" using step_at_frame [OF e] unfolding step_frame_def by blast
  then have frame: "agree (wanted b) (s_temps s1) (s_temps s)" unfolding written_def agree_def using cl(5) by metis
  note e = e [unfolded step_at_def]
  have by_finish: ?thesis if "finish b ?x at ev s h = (Inr r, s1, h1)" for ev
    using finish_only_temps [OF that] finish_result [OF that] frame by blast
  show ?thesis
  proof (cases rule: step_op_cases [of ?x H b at "operands b (s_temps s) (srcs b at)" s h])
    case (pure g)
    then obtain ev where "finish b ?x at ev s h = (Inr r, s1, h1)"
      using e by (auto simp: step_pure_def raise_def split: sum.splits)
    then show ?thesis by (rule by_finish)
  next
    case get_slot
    have ns: "\<not> shadowed b s (as_u16 (i_aux ?x))"
      using unshadowed [OF assms(3) readyD(1) [OF assms(2)] assms(5) at get_slot(1)] .
    obtain v h2 where rd: "h_read_slot H (as_u16 (i_aux ?x)) h = (v, h2)" by fastforce
    then have "h2 = h" using pure_host.read_pure [OF assms(1), of "as_u16 (i_aux ?x)" h] by simp
    with e get_slot(2) ns rd have "finish b ?x at (One v) s h = (Inr r, s1, h1)" by (simp add: step_get_slot_def)
    then show ?thesis by (rule by_finish)
  next
    case brcond
    then have "dsts ?x = []" using assms(4) at by (simp add: branches_void_def list_all_length)
    with cl(3) show ?thesis by simp
  next
    case ld
    obtain m addr where m: "i_mem ?x = Some m" "fetch (operands b (s_temps s) (srcs b at)) 0 = Inr addr"
      using e ld(2) by (auto simp: step_ld_def raise_def split: option.splits sum.splits)
    have nv: "\<not> m_volatile m" using cl(4) [OF m(1)] .
    obtain q h2 where l: "h_load H m (ucast addr) h = (q, h2)" by fastforce
    then have "h2 = h" using pure_host.load_pure [OF assms(1) nv, of "ucast addr" h] by simp
    with e ld(2) m nv l have "finish b ?x at (One (load_value m raw)) s h = (Inr r, s1, h1)" if "q = Inr raw" for raw
      using that by (simp add: step_ld_def)
    moreover have "\<exists>f. r = Done (Fault f) \<and> f_at f = at" if "q = Inl er" for er
      using that e ld(2) m nv l by (auto simp: step_ld_def take_fault_def split: if_splits)
    ultimately show ?thesis using by_finish by (cases q) blast+
  next
    case unsupported
    then show ?thesis using e by simp
  qed (use cl in \<open>auto simp: has_side_effect_def is_terminator_def is_fetch_def\<close>)
qed

section \<open>The simulation\<close>

lemma agree_trans: "agree N ts us \<Longrightarrow> agree N us vs \<Longrightarrow> agree N ts vs"
  by (simp add: agree_def)

lemma dce_env:
  assumes "ready b"
  shows "same_env b (eliminate_dead_code b) (wanted b)"
proof -
  have "wanted b t" if "m \<in> set (b_marks b)" "(r, t) \<in> set (is_live m)" for m r t
    using that unfolding wanted_def needed_iff seeded_def by force
  then show ?thesis using dce_shape [OF assms] by (auto simp: same_env_def)
qed

lemma dce_moved:
  assumes "ready b" "kept b i"
  obtains st where "b_insts (eliminate_dead_code b) ! dce_index b i = moved_inst (dce_index b) st (b_insts b ! i)"
  using dce_at(2) [OF assms] by (auto simp: moved_inst_def)

lemma operands_agree:
  assumes "ready b" "kept b i" "agree (wanted b) ts us"
  shows "operands (eliminate_dead_code b) us (srcs (eliminate_dead_code b) (dce_index b i)) = operands b ts (srcs b i)"
proof -
  have "nth_opt us t = nth_opt ts t" if "t \<in> set (srcs b i)" for t
    using kept_srcs_needed [OF readyD(1) [OF assms(1)] assms(2) that] assms(3) by (simp add: agree_def wanted_def)
  then show ?thesis by (simp add: operands_def dce_at(1) [OF assms(1,2)] dce_shape(7) [OF assms(1)])
qed

lemma dce_next_terminator:
  assumes "ready b" "kept b at" "next_is_terminator b at"
  shows "next_is_terminator (eliminate_dead_code b) (dce_index b at)"
proof -
  from assms(3) have n: "at + 1 < length (b_insts b)" "is_terminator (i_op (b_insts b ! (at + 1)))"
    by (auto simp: next_is_terminator_def nth_opt_def split: if_splits)
  then have k: "kept b (at + 1)" by (intro side_effect_kept [OF assms(1)]) simp_all
  have i: "dce_index b (at + 1) = dce_index b at + 1" using assms(2) by (simp add: dce_index_def)
  have "dce_index b (at + 1) < length (b_insts (eliminate_dead_code b))"
    using dce_target [OF assms(1) n(1)] dce_shape(1) [OF assms(1)] by simp
  with dce_dsts(2) [OF assms(1) k] n(2) show ?thesis unfolding next_is_terminator_def i [symmetric] by simp
qed

lemma step_at_kept:
  assumes "ready b" "kept b at" "agree (wanted b) (s_temps s) us"
    and "step_at H b at s h = (Inr r, s1, h1)" "\<And>pc. r \<noteq> Done (Spent pc)"
  shows "\<exists>vs. step_at H (eliminate_dead_code b) (dce_index b at) (s\<lparr>s_temps := us\<rparr>) h
      = (Inr (relabel_step (dce_index b) r), s1\<lparr>s_temps := vs\<rparr>, h1) \<and> agree (wanted b) (s_temps s1) vs"
proof -
  obtain st where "b_insts (eliminate_dead_code b) ! dce_index b at = moved_inst (dce_index b) st (b_insts b ! at)"
    using assms(1,2) by (rule dce_moved)
  moreover have "\<exists>vs. step_op H (eliminate_dead_code b) (moved_inst (dce_index b) st (b_insts b ! at)) (dce_index b at)
      (operands b (s_temps s) (srcs b at)) (s\<lparr>s_temps := us\<rparr>) h
      = (Inr (relabel_step (dce_index b) r), s1\<lparr>s_temps := vs\<rparr>, h1) \<and> agree (wanted b) (s_temps s1) vs"
    using dce_env [OF assms(1)] assms(3) assms(4) [unfolded step_at_def] assms(5) dce_next_terminator [OF assms(1,2)]
    by (rule step_kept)
  ultimately show ?thesis by (simp add: step_at_def operands_agree [OF assms(1-3)])
qed

text \<open>A run that stopped at an instruction the pass keeps, and not because a budget ran out.\<close>

definition comparable :: "block \<Rightarrow> outcome \<Rightarrow> bool" where
  "comparable b out =
     (case out of
        Spent _ \<Rightarrow> False
      | Fault f \<Rightarrow> kept b (f_at f)
      | Unsupported _ at \<Rightarrow> kept b at
      | _ \<Rightarrow> True)"

lemma execute_unfold:
  assumes "at < length (b_insts b)" "n < STEP_LIMIT" "step_at H b at s h = (Inr r, s1, h1)"
  shows "execute H b at n s h =
    (case r of Next \<Rightarrow> execute H b (at + 1) (n + 1) s1 h1
     | Jump t \<Rightarrow> if length (b_insts b) \<le> t then (Inl (ir_err at (i_op (b_insts b ! at)) TargetOutside), s1, h1)
         else execute H b t (n + 1) s1 h1
     | Done out \<Rightarrow> (Inr out, s1, h1))"
  using assms by (subst execute.simps) simp

lemma dce_simulates:
  assumes "pure_host H" "ready b" "slots_unbound b" "branches_void b"
    and "reach H b s0 h0 at n s h" "execute H b at n s h = (Inr out, s1, h1)" "comparable b out"
    and "m \<le> n" "agree (wanted b) (s_temps s) us"
  shows "\<exists>vs. execute H (eliminate_dead_code b) (dce_index b at) m (s\<lparr>s_temps := us\<rparr>) h
      = (Inr (relabel_outcome (dce_index b) out), s1\<lparr>s_temps := vs\<rparr>, h1) \<and> agree (wanted b) (s_temps s1) vs"
  using assms(5-9)
proof (induction "STEP_LIMIT - n" arbitrary: at n s h m us rule: less_induct)
  case less
  let ?b' = "eliminate_dead_code b"
  have lim: "at < length (b_insts b)" "n < STEP_LIMIT"
    using less.prems(2) by (subst (asm) execute.simps; force split: if_splits)+
  obtain q s2 h2 where q: "step_at H b at s h = (q, s2, h2)" by (cases "step_at H b at s h") auto
  obtain r where st: "step_at H b at s h = (Inr r, s2, h2)"
    using less.prems(2) lim q by (subst (asm) execute.simps) (cases q; simp)
  note ex = less.prems(2) [unfolded execute_unfold [OF lim st]]
  have lim': "dce_index b at < length (b_insts ?b')" "m < STEP_LIMIT"
    using dce_target [OF assms(2) lim(1)] dce_shape(1) [OF assms(2)] less.prems(4) lim(2) by simp_all
  have dec: "STEP_LIMIT - (n + 1) < STEP_LIMIT - n" using lim(2) by simp
  have ns: "r \<noteq> Done (Spent pc)" for pc using ex less.prems(3) by (auto simp: comparable_def)
  show ?case
  proof (cases "kept b at")
    case True
    obtain vs where vs: "step_at H ?b' (dce_index b at) (s\<lparr>s_temps := us\<rparr>) h
        = (Inr (relabel_step (dce_index b) r), s2\<lparr>s_temps := vs\<rparr>, h2)" "agree (wanted b) (s_temps s2) vs"
      using step_at_kept [OF assms(2) True less.prems(5) st ns] by blast
    note ex' = execute_unfold [OF lim' vs(1)]
    show ?thesis
    proof (cases r)
      case Next
      have i: "dce_index b (at + 1) = dce_index b at + 1" using True by (simp add: dce_index_def)
      have "reach H b s0 h0 (at + 1) (n + 1) s2 h2" using reach_next [OF less.prems(1) lim(1)] st Next by simp
      from less.hyps [OF dec this _ less.prems(3) _ vs(2), of "m + 1"] ex ex' Next less.prems(4) i show ?thesis by simp
    next
      case (Jump t)
      have t: "t < length (b_insts b)" using ex Jump by (auto split: if_splits)
      then have "reach H b s0 h0 t (n + 1) s2 h2" using reach_jump [OF less.prems(1) lim(1) _ t] st Jump by simp
      from less.hyps [OF dec this _ less.prems(3) _ vs(2), of "m + 1"] ex ex' Jump less.prems(4) t
        dce_target [OF assms(2) t] dce_shape(1) [OF assms(2)]
      show ?thesis by simp
    next
      case (Done o')
      then show ?thesis using ex ex' vs(2) by auto
    qed
  next
    case False
    from step_removed [OF assms(1-4) less.prems(1) lim(1) False st]
    have r: "r = Next" "h2 = h" "s2 = s\<lparr>s_temps := s_temps s2\<rparr>" "agree (wanted b) (s_temps s2) (s_temps s)"
      using ex less.prems(3) False by (auto simp: comparable_def)
    have i: "dce_index b (at + 1) = dce_index b at" using False by (simp add: dce_index_def)
    have "reach H b s0 h0 (at + 1) (n + 1) s2 h2" using reach_next [OF less.prems(1) lim(1)] st r(1) by simp
    moreover have "s2\<lparr>s_temps := us\<rparr> = s\<lparr>s_temps := us\<rparr>" by (subst r(3)) simp
    ultimately show ?thesis
      using less.hyps [OF dec, of "at + 1" s2 h2 m us] ex r less.prems(3,4,5) i agree_trans [OF r(4) less.prems(5)] by simp
  qed
qed

section \<open>A whole run\<close>

text \<open>A block as a flag-computing frontend emits it: a parity nothing reads, and a slot read nothing reads.\<close>

definition parity_block :: block where
  "parity_block =
     (let (t0, b1) = bb_imm (bb_new 0x1000 0) I32 (ConstInt 0x5a);
          (t1, b2) = bb_unary b1 OP_POPCOUNT I32 t0;
          (t2, b3) = bb_get_slot b2 I64 9;
          b4 = bb_insn_start b3 \<lparr>is_pc = 0x1000, is_next_pc = 0x1002, is_ticks = 0, is_live = [(3, t0)]\<rparr>;
          b5 = bb_charge b4 4
      in bb_exit_tb b5)"

lemma parity_insts:
  "b_operands parity_block = [0]" "b_types parity_block = [I32, I32, I64]" "b_entry_pc parity_block = 0x1000"
  "b_marks parity_block = [\<lparr>is_pc = 0x1000, is_next_pc = 0x1002, is_ticks = 0, is_live = [(3, 0)]\<rparr>]"
  "b_insts parity_block =
    [\<lparr>i_op = OP_MOV, i_ty = I32, i_dst = Some 0, i_dst2 = None, i_imm = Some (ConstInt 0x5a), i_mem = None,
       i_cond = None, i_aux = 0, i_src_start = 0, i_src_len = 0\<rparr>,
     \<lparr>i_op = OP_POPCOUNT, i_ty = I32, i_dst = Some 1, i_dst2 = None, i_imm = None, i_mem = None,
       i_cond = None, i_aux = 0, i_src_start = 0, i_src_len = 1\<rparr>,
     \<lparr>i_op = OP_GET_SLOT, i_ty = I64, i_dst = Some 2, i_dst2 = None, i_imm = None, i_mem = None,
       i_cond = None, i_aux = 9, i_src_start = 1, i_src_len = 0\<rparr>,
     \<lparr>i_op = OP_INSN_START, i_ty = I64, i_dst = None, i_dst2 = None, i_imm = None, i_mem = None,
       i_cond = None, i_aux = 0, i_src_start = 1, i_src_len = 0\<rparr>,
     \<lparr>i_op = OP_CHARGE, i_ty = I64, i_dst = None, i_dst2 = None, i_imm = Some (ConstInt 4), i_mem = None,
       i_cond = None, i_aux = 0, i_src_start = 1, i_src_len = 0\<rparr>,
     \<lparr>i_op = OP_EXIT_TB, i_ty = I64, i_dst = None, i_dst2 = None, i_imm = None, i_mem = None,
       i_cond = None, i_aux = 0, i_src_start = 1, i_src_len = 0\<rparr>]"
  by (simp_all add: parity_block_def builder_defs bb_unary_def)

lemma parity_verifies: "verify parity_block = Inr ()"
  by (simp add: verify_defs parity_insts numeral_eq_Suc expect_type_def type_of_def)

lemma parity_shape: "block_wf parity_block" "length (b_insts parity_block) < 2 ^ 32"
  by (simp_all add: block_wf_def parity_insts)

lemma parity_frontend: "slots_unbound parity_block" "branches_void parity_block"
  by (simp_all add: slots_unbound_def branches_void_def parity_insts less_Suc_eq numeral_eq_Suc all_conj_distrib)

lemma parity_runs: "fst (run ref_host parity_block interp_new host_default) = Inr Exit"
  by (simp add: run_defs parity_insts eval_count_def)

lemma parity_kept: "snd (dce_walk parity_block) = [True, False, False, True, True, True]"
  by (simp add: dce_walk_def dce_inst_def parity_insts seed_boundary_def need_def must_keep_def temp_count_def
      srcs_def dsts_def has_side_effect_def is_terminator_def in_fetch_range_def upt_conv_Cons numeral_eq_Suc nth_opt_def)

lemma parity_shrinks: "length (b_insts (eliminate_dead_code parity_block)) = 4"
  using dce_frame(1) [OF parity_shape]
  by (simp add: dce_index_def kept_def parity_kept parity_insts numeral_eq_Suc)



theorem dce_keeps_verified_witness: "verify (eliminate_dead_code parity_block) = Inr ()"
  using dce_keeps_verified [OF parity_verifies parity_shape] by simp

end
