(* ===== verification/Ir_Regalloc.thy ===== *)
theory Ir_Regalloc
  imports Ir_Pass
begin

text \<open>
  Linear-scan register allocation, \<open>ir/regalloc.rs\<close>: one home per temporary for
  the whole block, from the intervals of \<open>Ir_Pass\<close>, two banks of registers and
  the places where generated code calls into the host. Register numbers and
  instruction indices are naturals, the set of free registers is the \<open>u16\<close> of
  the source.
\<close>

unbundle bit_operations_syntax

section \<open>Data\<close>

definition MAX_REGS :: nat where "MAX_REGS = 16"

datatype home = Frame | Reg nat

record reg_banks =
  rb_saved :: "nat list"
  rb_volatile :: "nat list"

record call_sites =
  cs_inside :: "bool list"
  cs_before :: "bool list"

record allocation =
  al_homes :: "home list"
  al_boundary :: "bool list"

record live_reg =
  lv_start :: nat
  lv_end :: nat
  lv_temp :: temp
  lv_reg :: nat

definition alloc_home :: "allocation \<Rightarrow> temp \<Rightarrow> home" where
  "alloc_home al t = (case nth_opt (al_homes al) t of Some h \<Rightarrow> h | None \<Rightarrow> Frame)"

definition frame_backed :: "allocation \<Rightarrow> temp \<Rightarrow> bool" where
  "frame_backed al t \<longleftrightarrow> alloc_home al t = Frame
     \<or> (case nth_opt (al_boundary al) t of Some v \<Rightarrow> v | None \<Rightarrow> False)"

definition in_registers :: "allocation \<Rightarrow> nat" where
  "in_registers al = length (filter (\<lambda>h. h \<noteq> Frame) (al_homes al))"

definition in_frame :: "allocation \<Rightarrow> nat" where
  "in_frame al = length (al_homes al) - in_registers al"

definition alloc_none :: "block \<Rightarrow> allocation" where
  "alloc_none b = \<lparr>al_homes = replicate (temp_count b) Frame, al_boundary = replicate (temp_count b) True\<rparr>"

section \<open>Helpers\<close>

definition mask_of :: "nat list \<Rightarrow> u16" where
  "mask_of regs = foldl (\<lambda>m r. m OR push_bit r 1) 0 (filter (\<lambda>r. r < MAX_REGS) regs)"

definition take_reg :: "u16 \<Rightarrow> u16 \<Rightarrow> (nat \<times> u16) option" where
  "take_reg free want =
     (let avail = free AND want in
      if avail = 0 then None
      else let reg = length (takeWhile (\<lambda>i. \<not> bit avail i) [0..<16])
           in Some (reg, free AND NOT (push_bit reg 1)))"

definition call_prefix :: "bool list \<Rightarrow> nat \<Rightarrow> nat list" where
  "call_prefix calls len =
     foldl (\<lambda>out i. out @ [last out + (case nth_opt calls i of Some True \<Rightarrow> 1 | _ \<Rightarrow> 0)]) [0] [0..<len]"

definition any_call :: "nat list \<Rightarrow> nat \<Rightarrow> nat \<Rightarrow> bool" where
  "any_call counts lo hi =
     (if counts = [] \<or> hi \<le> lo then False
      else let top = length counts - 1; hi = min hi top; lo = min lo hi in counts ! lo < counts ! hi)"

definition crosses :: "nat list \<Rightarrow> nat list \<Rightarrow> nat \<Rightarrow> nat \<Rightarrow> bool" where
  "crosses inside gaps s e \<longleftrightarrow> any_call inside (s + 1) e \<or> any_call gaps (s + 1) (e + 1)"

text \<open>Temporaries read before they are assigned, then those a forward branch can jump over.\<close>

definition pin_early :: "block \<Rightarrow> bool list \<times> bool list \<Rightarrow> nat \<Rightarrow> bool list \<times> bool list" where
  "pin_early b st i =
     (let (pinned, defined) = st;
          pinned = foldl (\<lambda>p t. if nth_opt defined t = Some False then need p t else p) pinned (srcs b i)
      in (pinned, foldl need defined (dsts (b_insts b ! i))))"

definition jumped_over :: "liveness \<Rightarrow> nat \<Rightarrow> nat \<Rightarrow> temp \<Rightarrow> bool" where
  "jumped_over ls i target t =
     (case live_life ls t of
        None \<Rightarrow> False
      | Some l \<Rightarrow>
          (case tl_def l of
             None \<Rightarrow> False
           | Some d \<Rightarrow> i < d \<and> d < target \<and> target \<le> (case tl_last_use l of Some u \<Rightarrow> u | None \<Rightarrow> d)))"

definition pin_branch :: "block \<Rightarrow> liveness \<Rightarrow> bool list \<Rightarrow> nat \<Rightarrow> bool list" where
  "pin_branch b ls pinned i =
     (let x = b_insts b ! i in
      if i_op x \<noteq> OP_BRCOND \<or> i_aux x \<le> i then pinned
      else map (\<lambda>(t, p). p \<or> jumped_over ls i (i_aux x) (as_u32 t)) (enumerate 0 pinned))"

definition pinned_temps :: "block \<Rightarrow> liveness \<Rightarrow> nat \<Rightarrow> bool list" where
  "pinned_temps b ls n =
     (let (pinned, defined) = foldl (pin_early b) (replicate n False, replicate n False) [0..<length (b_insts b)]
      in foldl (pin_branch b ls) pinned [0..<length (b_insts b)])"

section \<open>The scan\<close>

record scan =
  sc_homes :: "home list"
  sc_free :: u16
  sc_active :: "live_reg list"

text \<open>Intervals that ended give their register back, unless they also start here.\<close>

definition expired :: "nat \<Rightarrow> live_reg \<Rightarrow> bool" where
  "expired s a \<longleftrightarrow> lv_end a \<le> s \<and> lv_start a < s"

definition expire :: "nat \<Rightarrow> scan \<Rightarrow> scan" where
  "expire s sc = sc\<lparr>sc_free := foldl (\<lambda>f a. if expired s a then f OR push_bit (lv_reg a) 1 else f) (sc_free sc) (sc_active sc),
     sc_active := filter (\<lambda>a. \<not> expired s a) (sc_active sc)\<rparr>"

text \<open>\<open>max_by_key\<close>: the last of the greatest, by end and then by the lower temporary.\<close>

definition outlives :: "live_reg \<Rightarrow> live_reg \<Rightarrow> bool" where
  "outlives a best \<longleftrightarrow> lv_end best < lv_end a \<or> lv_end best = lv_end a \<and> lv_temp a \<le> lv_temp best"

definition victim_of :: "u16 \<Rightarrow> live_reg list \<Rightarrow> nat option" where
  "victim_of bank active =
     foldl (\<lambda>best (i, a).
         if bank AND push_bit (lv_reg a) 1 = 0 then best
         else case best of None \<Rightarrow> Some i
              | Some j \<Rightarrow> if outlives a (active ! j) then Some i else Some j)
       None (enumerate 0 active)"

definition take_first :: "u16 \<Rightarrow> u16 list \<Rightarrow> (nat \<times> u16) option" where
  "take_first free order =
     foldl (\<lambda>got want. case got of Some g \<Rightarrow> Some g | None \<Rightarrow> if want \<noteq> 0 then take_reg free want else None) None order"

definition scan_interval ::
  "bool list \<Rightarrow> nat list \<Rightarrow> nat list \<Rightarrow> u16 \<Rightarrow> u16 \<Rightarrow> nat \<Rightarrow> scan \<Rightarrow> temp \<times> nat \<times> nat \<Rightarrow> scan" where
  "scan_interval pinned inside gaps saved vol n sc iv =
     (let (t, s, e) = iv in
      if n \<le> t then sc
      else
        let sc = expire s sc in
        if pinned ! t then sc
        else
          let cr = crosses inside gaps s e;
              bank = (if cr then saved else saved OR vol);
              order = (if cr then [saved, 0] else [vol, saved])
          in case take_first (sc_free sc) order of
               Some (reg, free) \<Rightarrow>
                 sc\<lparr>sc_free := free, sc_homes := (sc_homes sc)[t := Reg reg],
                    sc_active := sc_active sc @ [\<lparr>lv_start = s, lv_end = e, lv_temp = t, lv_reg = reg\<rparr>]\<rparr>
             | None \<Rightarrow>
                 (case victim_of bank (sc_active sc) of
                    None \<Rightarrow> sc
                  | Some at \<Rightarrow>
                      let v = sc_active sc ! at in
                      if e < lv_end v
                      then sc\<lparr>sc_homes := (sc_homes sc)[lv_temp v := Frame, t := Reg (lv_reg v)],
                              sc_active := (sc_active sc)[at := \<lparr>lv_start = s, lv_end = e, lv_temp = t, lv_reg = lv_reg v\<rparr>]\<rparr>
                      else sc))"

definition linear_scan :: "block \<Rightarrow> liveness \<Rightarrow> reg_banks \<Rightarrow> call_sites \<Rightarrow> allocation" where
  "linear_scan b ls banks sites =
     (let n = temp_count b;
          boundary = foldl (\<lambda>bs (t, l). if t < length bs then bs[t := tl_at_boundary l] else bs)
            (replicate n False) (live_iter ls);
          pinned = pinned_temps b ls n;
          inside = call_prefix (cs_inside sites) (length (b_insts b));
          gaps = call_prefix (cs_before sites) (length (b_insts b));
          saved = mask_of (rb_saved banks);
          vol = mask_of (rb_volatile banks);
          sc = foldl (scan_interval pinned inside gaps saved vol n)
            \<lparr>sc_homes = replicate n Frame, sc_free = saved OR vol, sc_active = []\<rparr> (live_intervals ls)
      in \<lparr>al_homes = sc_homes sc, al_boundary = boundary\<rparr>)"

section \<open>What the helpers compute\<close>

lemma bit_one_shift: "bit (2 ^ r :: u16) i \<longleftrightarrow> i = r \<and> r < 16"
  by (auto simp: bit_exp_iff)

lemma bit_mask_of: "bit (mask_of regs) r \<longleftrightarrow> r < 16 \<and> r \<in> set regs"
proof -
  have "bit (foldl (\<lambda>m r. m OR push_bit r (1 :: u16)) m rs) r \<longleftrightarrow> bit m r \<or> r < 16 \<and> r \<in> set rs" for m rs
    by (induction rs arbitrary: m) (auto simp: bit_or_iff bit_one_shift)
  then show ?thesis by (auto simp: mask_of_def MAX_REGS_def)
qed

lemma bit_lt_16: "bit (w :: u16) i \<Longrightarrow> i < 16"
  using bit_imp_le_length [of w i] by simp

lemma lowest_bit:
  assumes "(w :: u16) \<noteq> 0"
  defines "r \<equiv> length (takeWhile (\<lambda>i. \<not> bit w i) [0..<16])"
  shows "bit w r \<and> r < 16"
proof -
  obtain i where i: "bit w i" using assms(1) bit_eq_iff [of w 0] by auto
  then have "i < 16" by (rule bit_lt_16)
  then have "\<exists>j\<in>set [0..<16]. bit w j" using i by auto
  then have "r \<noteq> 16"
    unfolding r_def using takeWhile_eq_all_conv [of "\<lambda>i. \<not> bit w i" "[0..<16]"]
    by (metis diff_zero length_upt takeWhile_eq_take take_all order_refl)
  moreover have "r \<le> 16" unfolding r_def using length_takeWhile_le [of "\<lambda>i. \<not> bit w i" "[0..<16]"] by simp
  ultimately have "r < 16" by simp
  moreover have "\<not> \<not> bit w ([0..<16] ! r)"
    using nth_length_takeWhile [of "\<lambda>i. \<not> bit w i" "[0..<16]"] \<open>r < 16\<close> unfolding r_def by simp
  ultimately show ?thesis by simp
qed

lemma take_reg_Some:
  assumes "take_reg free want = Some (r, free')"
  shows "bit free r" "bit want r" "\<And>i. bit free' i \<longleftrightarrow> bit free i \<and> i \<noteq> r"
proof -
  have a: "free AND want \<noteq> 0" and r: "r = length (takeWhile (\<lambda>i. \<not> bit (free AND want) i) [0..<16])"
    and f: "free' = free AND NOT (push_bit r 1)"
    using assms by (auto simp: take_reg_def Let_def split: if_splits)
  from lowest_bit [OF a] show "bit free r" "bit want r" unfolding r by (auto simp: bit_and_iff)
  show "bit free' i \<longleftrightarrow> bit free i \<and> i \<noteq> r" for i
    using \<open>bit free r\<close> bit_lt_16 by (auto simp: f bit_and_iff bit_not_iff bit_one_shift)
qed

lemma take_first_Some:
  assumes "take_first free order = Some (r, free')"
  shows "bit free r" "\<exists>want\<in>set order. bit want r" "\<And>i. bit free' i \<longleftrightarrow> bit free i \<and> i \<noteq> r"
proof -
  let ?f = "\<lambda>got want. case got of Some g \<Rightarrow> Some g | None \<Rightarrow> if want \<noteq> 0 then take_reg free want else None"
  have "\<exists>want\<in>set order. take_reg free want = Some (r, free')"
    if "foldl ?f None order = Some (r, free')" using that
  proof (induction order rule: rev_induct)
    case (snoc w ws)
    then show ?case by (auto split: option.splits if_splits)
  qed simp
  with assms obtain want where w: "want \<in> set order" "take_reg free want = Some (r, free')"
    unfolding take_first_def by blast
  with take_reg_Some [OF w(2)] show "bit free r" "\<exists>want\<in>set order. bit want r"
    "\<And>i. bit free' i \<longleftrightarrow> bit free i \<and> i \<noteq> r" by auto
qed

lemma victim_of_Some:
  assumes "victim_of bank active = Some at"
  shows "at < length active" "bit bank (lv_reg (active ! at))"
proof -
  let ?f = "\<lambda>best (i, a). if bank AND push_bit (lv_reg a) 1 = 0 then best
      else case best of None \<Rightarrow> Some i | Some j \<Rightarrow> if outlives a (active ! j) then Some i else Some j"
  have b: "bit bank r" if "bank AND push_bit r 1 \<noteq> 0" for r
  proof (rule ccontr)
    assume "\<not> bit bank r"
    then have "bank AND push_bit r 1 = 0" by (intro bit_eqI) (auto simp: bit_and_iff bit_one_shift)
    with that show False by simp
  qed
  have "foldl ?f None (enumerate 0 (take k active)) = Some j \<Longrightarrow> j < k \<and> bit bank (lv_reg (active ! j))"
    if "k \<le> length active" for k j
    using that
  proof (induction k arbitrary: j)
    case (Suc k)
    have "take (Suc k) active = take k active @ [active ! k]" using Suc.prems(2) by (simp add: take_Suc_conv_app_nth)
    then have e: "enumerate 0 (take (Suc k) active) = enumerate 0 (take k active) @ [(k, active ! k)]"
      using Suc.prems(2) by (simp add: enumerate_append_eq)
    show ?case
      using Suc.prems(1) Suc.IH [OF _ Suc_leD [OF Suc.prems(2)]] b unfolding e
      by (auto split: option.splits if_splits simp: less_Suc_eq)
  qed simp
  from this [of "length active" at] assms show "at < length active" "bit bank (lv_reg (active ! at))"
    by (simp_all add: victim_of_def)
qed

lemma count_below_less_iff:
  "lo \<le> hi \<Longrightarrow> count_below P lo < count_below P hi \<longleftrightarrow> (\<exists>j. lo \<le> j \<and> j < hi \<and> P j)"
proof (induction rule: dec_induct)
  case (step m)
  have "count_below P lo \<le> count_below P m" using step(1) by (rule count_below_mono)
  with step show ?case by (auto simp: less_Suc_eq)
qed auto

lemma call_prefix_eq:
  "call_prefix calls len = map (count_below (\<lambda>j. nth_opt calls j = Some True)) [0..<Suc len]"
proof (induction len)
  case (Suc len)
  have "last (call_prefix calls len) = count_below (\<lambda>j. nth_opt calls j = Some True) len" by (simp add: Suc)
  with Suc show ?case by (auto simp: call_prefix_def split: option.splits bool.splits)
qed (simp add: call_prefix_def)

lemma any_call_iff:
  "any_call (call_prefix calls len) lo hi \<longleftrightarrow> (\<exists>j. lo \<le> j \<and> j < hi \<and> j < len \<and> nth_opt calls j = Some True)"
proof -
  let ?P = "\<lambda>j. nth_opt calls j = Some True"
  have "any_call (call_prefix calls len) lo hi \<longleftrightarrow> lo < hi \<and>
      count_below ?P (min lo (min hi len)) < count_below ?P (min hi len)"
    by (auto simp: any_call_def call_prefix_eq Let_def min_def simp del: upt_Suc)
  also have "\<dots> \<longleftrightarrow> lo < hi \<and> (\<exists>j. min lo (min hi len) \<le> j \<and> j < min hi len \<and> ?P j)"
    by (subst count_below_less_iff) (auto simp: min_def)
  also have "\<dots> \<longleftrightarrow> (\<exists>j. lo \<le> j \<and> j < hi \<and> j < len \<and> ?P j)"
    by (auto simp: min_def split: if_splits)
  finally show ?thesis .
qed

section \<open>The invariant of the scan\<close>

text \<open>Two intervals that can share a register: one is over when the other starts.\<close>

definition apart :: "nat \<times> nat \<Rightarrow> nat \<times> nat \<Rightarrow> bool" where
  "apart i j \<longleftrightarrow> snd i \<le> fst j \<and> fst i < fst j \<or> snd j \<le> fst i \<and> fst j < fst i"

text \<open>
  The allocation so far, after the intervals \<open>D\<close> of which the last starts at
  \<open>c\<close>: an active interval holds its register alone, a home that is no longer
  active has ended, every home was allowed, and homes that share a register are
  apart.
\<close>

definition scan_inv ::
  "(temp \<Rightarrow> nat \<Rightarrow> nat \<Rightarrow> nat \<Rightarrow> bool) \<Rightarrow> nat \<Rightarrow> (temp \<times> nat \<times> nat) set \<Rightarrow> nat \<Rightarrow> scan \<Rightarrow> bool" where
  "scan_inv ok n D c sc \<longleftrightarrow> length (sc_homes sc) = n
     \<and> (\<forall>a\<in>set (sc_active sc). lv_temp a < n \<and> sc_homes sc ! lv_temp a = Reg (lv_reg a)
          \<and> (lv_temp a, lv_start a, lv_end a) \<in> D \<and> \<not> bit (sc_free sc) (lv_reg a))
     \<and> distinct (map lv_reg (sc_active sc))
     \<and> (\<forall>t<n. \<forall>r. sc_homes sc ! t = Reg r \<longrightarrow> (\<exists>s e. (t, s, e) \<in> D \<and> ok t s e r
          \<and> (t \<in> lv_temp ` set (sc_active sc) \<or> e \<le> c \<and> s < c)))
     \<and> (\<forall>t<n. \<forall>u<n. \<forall>r i j. t \<noteq> u \<longrightarrow> sc_homes sc ! t = Reg r \<longrightarrow> sc_homes sc ! u = Reg r \<longrightarrow>
          (t, i) \<in> D \<longrightarrow> (u, j) \<in> D \<longrightarrow> apart i j)"

lemma scan_invD:
  assumes "scan_inv ok n D c sc"
  shows "length (sc_homes sc) = n"
    and "a \<in> set (sc_active sc) \<Longrightarrow> lv_temp a < n \<and> sc_homes sc ! lv_temp a = Reg (lv_reg a)
      \<and> (lv_temp a, lv_start a, lv_end a) \<in> D \<and> \<not> bit (sc_free sc) (lv_reg a)"
    and "distinct (map lv_reg (sc_active sc))"
    and "t < n \<Longrightarrow> sc_homes sc ! t = Reg r \<Longrightarrow> \<exists>s e. (t, s, e) \<in> D \<and> ok t s e r
          \<and> (t \<in> lv_temp ` set (sc_active sc) \<or> e \<le> c \<and> s < c)"
    and "t < n \<Longrightarrow> u < n \<Longrightarrow> t \<noteq> u \<Longrightarrow> sc_homes sc ! t = Reg r \<Longrightarrow> sc_homes sc ! u = Reg r \<Longrightarrow>
          (t, i) \<in> D \<Longrightarrow> (u, j) \<in> D \<Longrightarrow> apart i j"
  using assms unfolding scan_inv_def by blast+

lemma scan_inv_start: "scan_inv ok n {} 0 \<lparr>sc_homes = replicate n Frame, sc_free = f, sc_active = []\<rparr>"
  by (simp add: scan_inv_def)

lemma expire_free:
  "bit (sc_free (expire s sc)) r \<Longrightarrow> bit (sc_free sc) r \<or> (\<exists>a\<in>set (sc_active sc). expired s a \<and> lv_reg a = r)"
proof -
  have "bit (foldl (\<lambda>f a. if expired s a then f OR push_bit (lv_reg a) 1 else f) f as) r \<Longrightarrow>
      bit (f :: u16) r \<or> (\<exists>a\<in>set as. expired s a \<and> lv_reg a = r)" for f as
  proof (induction as arbitrary: f)
    case (Cons a as)
    then show ?case by (fastforce simp: bit_or_iff bit_one_shift split: if_splits)
  qed simp
  then show "bit (sc_free (expire s sc)) r \<Longrightarrow> ?thesis" by (simp add: expire_def)
qed

lemma distinct_map_inj: "distinct (map f xs) \<Longrightarrow> x \<in> set xs \<Longrightarrow> y \<in> set xs \<Longrightarrow> f x = f y \<Longrightarrow> x = y"
  by (simp add: distinct_map inj_on_def)

lemma scan_inv_expire:
  assumes inv: "scan_inv ok n D c sc" and "c \<le> s"
    and uniq: "single_valued D"
  shows "scan_inv ok n D s (expire s sc)"
proof -
  note I = scan_invD [OF inv]
  have homes: "sc_homes (expire s sc) = sc_homes sc"
    and act: "sc_active (expire s sc) = filter (\<lambda>a. \<not> expired s a) (sc_active sc)" by (simp_all add: expire_def)
  have "\<not> bit (sc_free (expire s sc)) (lv_reg a)" if a: "a \<in> set (sc_active sc)" "\<not> expired s a" for a
  proof
    assume "bit (sc_free (expire s sc)) (lv_reg a)"
    from expire_free [OF this] show False
    proof
      assume "\<exists>a'\<in>set (sc_active sc). expired s a' \<and> lv_reg a' = lv_reg a"
      then show False using a distinct_map_inj [OF I(3)] by blast
    qed (use I(2) a(1) in blast)
  qed
  moreover have "\<exists>s' e'. (t, s', e') \<in> D \<and> ok t s' e' r
      \<and> (t \<in> lv_temp ` {a \<in> set (sc_active sc). \<not> expired s a} \<or> e' \<le> s \<and> s' < s)"
    if t: "t < n" "sc_homes sc ! t = Reg r" for t r
  proof -
    obtain s' e' where se: "(t, s', e') \<in> D" "ok t s' e' r" "t \<in> lv_temp ` set (sc_active sc) \<or> e' \<le> c \<and> s' < c"
      using I(4) [OF t] by blast
    from se(3) show ?thesis
    proof
      assume "t \<in> lv_temp ` set (sc_active sc)"
      then obtain a where a: "a \<in> set (sc_active sc)" "lv_temp a = t" by blast
      then have "(lv_start a, lv_end a) = (s', e')" using single_valuedD [OF uniq _ se(1)] I(2) by blast
      then show ?thesis using se(1,2) a by (cases "expired s a") (auto simp: expired_def)
    qed (use se assms(2) in force)
  qed
  moreover have "distinct (map lv_reg (filter (\<lambda>a. \<not> expired s a) (sc_active sc)))"
    using I(3) by (rule distinct_map_filter)
  ultimately show ?thesis
    using I(1,2,5) unfolding scan_inv_def homes act set_filter by blast
qed

lemma scan_inv_skip:
  assumes inv: "scan_inv ok n D s sc" and "t \<notin> fst ` D"
  shows "scan_inv ok n (insert (t, i) D) s sc"
proof -
  note I = scan_invD [OF inv]
  have no: "sc_homes sc ! t \<noteq> Reg r" if "t < n" for r using I(4) [OF that] assms(2) by force
  have "apart k j" if "u < n" "w < n" "u \<noteq> w" "sc_homes sc ! u = Reg r" "sc_homes sc ! w = Reg r"
    "(u, k) \<in> insert (t, i) D" "(w, j) \<in> insert (t, i) D" for u w r k j
  proof -
    have "u \<noteq> t" "w \<noteq> t" using no that(1,2,4,5) by blast+
    then show ?thesis using I(5) [OF that(1-5)] that(6,7) by blast
  qed
  with I(1-4) show ?thesis unfolding scan_inv_def by blast
qed

text \<open>A home whose register is not held by an active interval has ended.\<close>

lemma scan_inv_ended:
  assumes "scan_inv ok n D s sc" "u < n" "sc_homes sc ! u = Reg r" "(u, j) \<in> D"
    and uniq: "single_valued D"
    and "\<And>a. a \<in> set (sc_active sc) \<Longrightarrow> lv_reg a = r \<Longrightarrow> lv_temp a \<noteq> u"
  shows "snd j \<le> s \<and> fst j < s"
proof -
  note I = scan_invD [OF assms(1)]
  obtain s' e' where se: "(u, s', e') \<in> D" "u \<in> lv_temp ` set (sc_active sc) \<or> e' \<le> s \<and> s' < s"
    using I(4) [OF assms(2,3)] by blast
  have "j = (s', e')" using single_valuedD [OF uniq assms(4) se(1)] .
  moreover have "u \<notin> lv_temp ` set (sc_active sc)"
  proof
    assume "u \<in> lv_temp ` set (sc_active sc)"
    then obtain a where a: "a \<in> set (sc_active sc)" "lv_temp a = u" by blast
    then have "lv_reg a = r" using I(2) [OF a(1)] assms(3) by simp
    with a assms(6) show False by blast
  qed
  ultimately show ?thesis using se(2) by simp
qed

text \<open>
  Giving a register to a new interval: homes and active intervals other than the
  new one's are old ones, and nothing active still holds the register.
\<close>

lemma scan_inv_assign:
  assumes inv: "scan_inv ok n D s sc" and t: "t \<notin> fst ` D" "t < n" and ok: "ok t s e r"
    and uniq: "single_valued D"
    and len: "length (sc_homes sc') = n"
    and homes: "\<And>u. u < n \<Longrightarrow> sc_homes sc' ! u = (if u = t then Reg r else if u \<in> X then Frame else sc_homes sc ! u)"
    and act: "set (sc_active sc') = insert \<lparr>lv_start = s, lv_end = e, lv_temp = t, lv_reg = r\<rparr>
        {a \<in> set (sc_active sc). lv_temp a \<notin> X}"
    and dist: "distinct (map lv_reg (sc_active sc'))"
    and free: "\<And>i. bit (sc_free sc') i \<Longrightarrow> bit (sc_free sc) i \<and> i \<noteq> r"
    and held: "\<And>a. a \<in> set (sc_active sc) \<Longrightarrow> lv_reg a = r \<Longrightarrow> lv_temp a \<in> X"
  shows "scan_inv ok n (insert (t, s, e) D) s sc'"
proof -
  note I = scan_invD [OF inv]
  have tD: "lv_temp a \<noteq> t" if "a \<in> set (sc_active sc)" for a using I(2) [OF that] t(1) by force
  have A: "lv_temp a < n \<and> sc_homes sc' ! lv_temp a = Reg (lv_reg a)
      \<and> (lv_temp a, lv_start a, lv_end a) \<in> insert (t, s, e) D \<and> \<not> bit (sc_free sc') (lv_reg a)"
    if "a \<in> set (sc_active sc')" for a
    using that I(2) tD t(2) free [of r] free [of "lv_reg a"] homes unfolding act by auto
  have B: "\<exists>s' e'. (u, s', e') \<in> insert (t, s, e) D \<and> ok u s' e' q
      \<and> (u \<in> lv_temp ` set (sc_active sc') \<or> e' \<le> s \<and> s' < s)"
    if u: "u < n" "sc_homes sc' ! u = Reg q" for u q
  proof (cases "u = t")
    case True
    then have "q = r" using u homes by simp
    then show ?thesis using True ok unfolding act by force
  next
    case False
    then have "sc_homes sc ! u = Reg q" "u \<notin> X" using u homes by (auto split: if_splits)
    with I(4) [OF u(1) this(1)] show ?thesis unfolding act by force
  qed
  have C: "apart (s, e) j" if "u < n" "u \<noteq> t" "sc_homes sc' ! u = Reg r" "(u, j) \<in> D" for u j
  proof -
    have u: "sc_homes sc ! u = Reg r" "u \<notin> X" using that homes by (auto split: if_splits)
    then have "snd j \<le> s \<and> fst j < s"
      using scan_inv_ended [OF inv that(1) u(1) that(4) uniq] held by blast
    then show ?thesis by (simp add: apart_def)
  qed
  have "apart i j" if "u < n" "w < n" "u \<noteq> w" "sc_homes sc' ! u = Reg q" "sc_homes sc' ! w = Reg q"
    "(u, i) \<in> insert (t, s, e) D" "(w, j) \<in> insert (t, s, e) D" for u w q i j
  proof -
    consider "u = t" | "w = t" | "u \<noteq> t" "w \<noteq> t" using that(3) by blast
    then show ?thesis
    proof cases
      case 1
      then have "q = r" "i = (s, e)" "(w, j) \<in> D" using that homes t by force+
      then show ?thesis using C [of w j] that 1 by simp
    next
      case 2
      then have "q = r" "j = (s, e)" "(u, i) \<in> D" using that homes t by force+
      then show ?thesis using C [of u i] that 2 by (auto simp: apart_def)
    next
      case 3
      then have "sc_homes sc ! u = Reg q" "sc_homes sc ! w = Reg q" using that homes by (auto split: if_splits)
      then show ?thesis using I(5) that 3 by blast
    qed
  qed
  with A B len dist show ?thesis unfolding scan_inv_def by blast
qed

lemma scan_inv_take:
  assumes inv: "scan_inv ok n D s sc" and t: "t \<notin> fst ` D" "t < n" and ok: "ok t s e r"
    and uniq: "single_valued D" and r: "bit (sc_free sc) r" and free: "\<And>i. bit f i \<longleftrightarrow> bit (sc_free sc) i \<and> i \<noteq> r"
  shows "scan_inv ok n (insert (t, s, e) D) s (sc\<lparr>sc_free := f, sc_homes := (sc_homes sc)[t := Reg r],
      sc_active := sc_active sc @ [\<lparr>lv_start = s, lv_end = e, lv_temp = t, lv_reg = r\<rparr>]\<rparr>)"
proof -
  note I = scan_invD [OF inv]
  have no: "lv_reg a \<noteq> r" if "a \<in> set (sc_active sc)" for a using I(2) [OF that] r by auto
  show ?thesis
    by (rule scan_inv_assign [OF inv t ok uniq, where X = "{}"]) (use I(1,3) no free in \<open>auto simp: nth_list_update\<close>)
qed

lemma scan_inv_steal:
  assumes inv: "scan_inv ok n D s sc" and t: "t \<notin> fst ` D" "t < n" and at: "at < length (sc_active sc)"
    and ok: "ok t s e (lv_reg (sc_active sc ! at))" and uniq: "single_valued D"
  defines "v \<equiv> sc_active sc ! at"
  shows "scan_inv ok n (insert (t, s, e) D) s (sc\<lparr>sc_homes := (sc_homes sc)[lv_temp v := Frame, t := Reg (lv_reg v)],
      sc_active := (sc_active sc)[at := \<lparr>lv_start = s, lv_end = e, lv_temp = t, lv_reg = lv_reg v\<rparr>]\<rparr>)"
proof -
  note I = scan_invD [OF inv]
  let ?new = "\<lparr>lv_start = s, lv_end = e, lv_temp = t, lv_reg = lv_reg v\<rparr>"
  have v: "v \<in> set (sc_active sc)" using at by (simp add: v_def)
  have same: "a = v" if "a \<in> set (sc_active sc)" "lv_temp a = lv_temp v \<or> lv_reg a = lv_reg v" for a
    using that I(2) [OF that(1)] I(2) [OF v] distinct_map_inj [OF I(3) that(1) v] by auto
  have d: "distinct (sc_active sc)" using I(3) by (simp add: distinct_map)
  have act: "set ((sc_active sc)[at := ?new]) = insert ?new {a \<in> set (sc_active sc). lv_temp a \<notin> {lv_temp v}}"
    using set_update_distinct [OF d at, of ?new] same unfolding v_def [symmetric] by auto
  have dist: "distinct (map lv_reg ((sc_active sc)[at := ?new]))"
    using I(3) at list_update_id [of "map lv_reg (sc_active sc)" at] by (simp add: map_update v_def)
  show ?thesis
  proof (rule scan_inv_assign [OF inv t ok [folded v_def] uniq, where X = "{lv_temp v}"])
    show "bit (sc_free (sc\<lparr>sc_homes := (sc_homes sc)[lv_temp v := Frame, t := Reg (lv_reg v)],
        sc_active := (sc_active sc)[at := ?new]\<rparr>)) i \<Longrightarrow> bit (sc_free sc) i \<and> i \<noteq> lv_reg v" for i
      using I(2) [OF v] by auto
  qed (use I(1) act dist same in \<open>auto simp: nth_list_update\<close>)
qed

text \<open>One interval: it is pinned, or gets a register of a bank it may use, or stays in the frame.\<close>

definition reg_ok :: "bool list \<Rightarrow> nat list \<Rightarrow> nat list \<Rightarrow> u16 \<Rightarrow> u16 \<Rightarrow> temp \<Rightarrow> nat \<Rightarrow> nat \<Rightarrow> nat \<Rightarrow> bool" where
  "reg_ok pinned inside gaps saved vol t s e r \<longleftrightarrow> \<not> pinned ! t
     \<and> (bit saved r \<or> bit vol r \<and> \<not> crosses inside gaps s e)"

lemma scan_interval_inv:
  assumes inv: "scan_inv (reg_ok pinned inside gaps saved vol) n D c sc" and "c \<le> s"
    and t: "t \<notin> fst ` D" and uniq: "single_valued D"
  shows "scan_inv (reg_ok pinned inside gaps saved vol) n (insert (t, s, e) D) s
      (scan_interval pinned inside gaps saved vol n sc (t, s, e))"
proof -
  let ?ok = "reg_ok pinned inside gaps saved vol"
  let ?cr = "crosses inside gaps s e"
  have x: "scan_inv ?ok n D s (expire s sc)" using inv assms(2) uniq by (rule scan_inv_expire)
  have y: "scan_inv ?ok n D s sc"
    using scan_invD [OF inv] assms(2) unfolding scan_inv_def by (meson le_trans less_le_trans)
  note skip = scan_inv_skip [OF x t, of "(s, e)"] scan_inv_skip [OF y t, of "(s, e)"]
  consider "n \<le> t" | "t < n" "pinned ! t" | "t < n" "\<not> pinned ! t" by linarith
  then show ?thesis
  proof cases
    case 3
    let ?order = "if ?cr then [saved, 0] else [vol, saved]" and ?bank = "if ?cr then saved else saved OR vol"
    note def = scan_interval_def [of pinned inside gaps saved vol n sc "(t, s, e)", unfolded Let_def prod.case]
    show ?thesis
    proof (cases "take_first (sc_free (expire s sc)) ?order")
      case (Some p)
      obtain r f where p: "p = (r, f)" by (cases p)
      note tf = take_first_Some [OF Some [unfolded p]]
      have "?ok t s e r" using tf(2) 3 by (auto simp: reg_ok_def split: if_splits)
      from scan_inv_take [where ok = ?ok, OF x t 3(1) this uniq tf(1,3)] show ?thesis
        using 3 Some by (simp add: def p)
    next
      case None
      show ?thesis
      proof (cases "victim_of ?bank (sc_active (expire s sc))")
        case None': None
        then show ?thesis using 3 None skip by (simp add: def)
      next
        case (Some at)
        note vo = victim_of_Some [OF Some]
        have "?ok t s e (lv_reg (sc_active (expire s sc) ! at))"
          using vo(2) 3 by (auto simp: reg_ok_def bit_or_iff split: if_splits)
        from scan_inv_steal [where ok = ?ok, OF x t 3(1) vo(1) this uniq] show ?thesis
          using 3 None Some skip by (simp add: def)
      qed
    qed
  qed (use skip in \<open>simp_all add: scan_interval_def\<close>)
qed

section \<open>The whole scan\<close>

lemma scan_fold:
  assumes "sorted (map (\<lambda>(t, s, e). s) ivs)" "distinct (map fst ivs)"
  shows "scan_inv (reg_ok pinned inside gaps saved vol) n (set ivs) (case rev ivs of [] \<Rightarrow> 0 | (t, s, e) # _ \<Rightarrow> s)
    (foldl (scan_interval pinned inside gaps saved vol n) \<lparr>sc_homes = replicate n Frame, sc_free = f, sc_active = []\<rparr> ivs)"
  using assms
proof (induction ivs rule: rev_induct)
  case Nil
  then show ?case using scan_inv_start by simp
next
  case (snoc iv ivs)
  obtain t s e where iv: "iv = (t, s, e)" by (cases iv)
  have sv: "single_valued (set ivs)"
    using snoc.prems(2) distinct_map_inj [of fst ivs] by (fastforce simp: single_valued_def)
  have "(case rev ivs of [] \<Rightarrow> 0 | (t, s, e) # _ \<Rightarrow> s) \<le> s"
    using snoc.prems(1) by (cases ivs rule: rev_cases) (auto simp: sorted_append iv)
  moreover have "t \<notin> fst ` set ivs" using snoc.prems(2) by (simp add: iv)
  ultimately show ?case
    using scan_interval_inv [OF snoc.IH] snoc.prems sv by (simp add: iv sorted_append)
qed

lemma live_iter_eq: "length ls < 2 ^ 32 \<Longrightarrow> live_iter ls = map (\<lambda>i. (i, ls ! i)) [0..<length ls]"
  by (auto simp: live_iter_def enumerate_eq_zip intro!: nth_equalityI)

lemma live_intervals_set:
  assumes "length ls < 2 ^ 32"
  shows "(t, i) \<in> set (live_intervals ls) \<longleftrightarrow> t < length ls \<and> life_interval (ls ! t) = Some i"
  by (cases i) (force simp: live_intervals_def live_iter_eq [OF assms] map_filter_def)

lemma live_intervals_distinct:
  assumes "length ls < 2 ^ 32"
  shows "distinct (map fst (live_intervals ls))"
proof -
  let ?f = "\<lambda>(t, l). map_option (\<lambda>(lo, hi). (t, lo, hi)) (life_interval l)"
  have m: "map fst (List.map_filter ?f xs) = map fst (filter (\<lambda>x. ?f x \<noteq> None) xs)" for xs
    by (induction xs) (auto simp: map_filter_def)
  have "distinct (map fst (live_iter ls))" by (simp add: live_iter_eq [OF assms] o_def)
  then have "distinct (map fst (List.map_filter ?f (live_iter ls)))" unfolding m by (rule distinct_map_filter)
  then show ?thesis
    by (metis (no_types, lifting) live_intervals_def distinct_map distinct_sort set_sort)
qed

lemma live_intervals_sorted: "sorted (map (\<lambda>(t, s, e). s) (live_intervals ls))"
proof -
  have "sorted (map (\<lambda>(t, lo, hi). (lo, t)) (live_intervals ls))"
    unfolding live_intervals_def by (rule sorted_sort_key)
  then show ?thesis unfolding sorted_map
    by (rule sorted_wrt_mono_rel [rotated]) (auto simp: less_eq_prod_def split: prod.splits)
qed

lemma linear_scan_inv:
  assumes "length ls < 2 ^ 32"
  obtains c sc where "al_homes (linear_scan b ls banks sites) = sc_homes sc"
    "scan_inv (reg_ok (pinned_temps b ls (temp_count b)) (call_prefix (cs_inside sites) (length (b_insts b)))
      (call_prefix (cs_before sites) (length (b_insts b))) (mask_of (rb_saved banks)) (mask_of (rb_volatile banks)))
      (temp_count b) (set (live_intervals ls)) c sc"
proof -
  note f = scan_fold [OF live_intervals_sorted live_intervals_distinct [OF assms], of
    "pinned_temps b ls (temp_count b)" "call_prefix (cs_inside sites) (length (b_insts b))"
    "call_prefix (cs_before sites) (length (b_insts b))" "mask_of (rb_saved banks)" "mask_of (rb_volatile banks)"
    "temp_count b" "mask_of (rb_saved banks) OR mask_of (rb_volatile banks)"]
  show ?thesis by (rule that [OF _ f]) (simp add: linear_scan_def Let_def)
qed

lemma home_Reg:
  assumes "al_homes al = sc_homes sc" "length (sc_homes sc) = n" "alloc_home al t = Reg r"
  shows "t < n" "sc_homes sc ! t = Reg r"
  using assms by (auto simp: alloc_home_def nth_opt_def split: if_splits)

text \<open>What a register in the result means for its temporary.\<close>

lemma home_interval:
  assumes "length ls < 2 ^ 32" "alloc_home (linear_scan b ls banks sites) t = Reg r"
  obtains s e where "t < temp_count b" "life_interval (ls ! t) = Some (s, e)"
    "reg_ok (pinned_temps b ls (temp_count b)) (call_prefix (cs_inside sites) (length (b_insts b)))
      (call_prefix (cs_before sites) (length (b_insts b))) (mask_of (rb_saved banks)) (mask_of (rb_volatile banks)) t s e r"
proof -
  obtain c sc where h: "al_homes (linear_scan b ls banks sites) = sc_homes sc"
    and inv: "scan_inv (reg_ok (pinned_temps b ls (temp_count b)) (call_prefix (cs_inside sites) (length (b_insts b)))
      (call_prefix (cs_before sites) (length (b_insts b))) (mask_of (rb_saved banks)) (mask_of (rb_volatile banks)))
      (temp_count b) (set (live_intervals ls)) c sc"
    using assms(1) by (rule linear_scan_inv)
  note T = home_Reg [OF h scan_invD(1) [OF inv] assms(2)]
  from scan_invD(4) [OF inv T] T(1) that show ?thesis by (auto simp: live_intervals_set [OF assms(1)])
qed

text \<open>The temporaries a branch can jump over are pinned.\<close>

lemma pin_early_length:
  "length (fst (foldl (pin_early b) st is)) = length (fst st)"
proof (induction "is" arbitrary: st)
  case (Cons i "is")
  have "length (foldl (\<lambda>p t. if nth_opt d t = Some False then need p t else p) p ts) = length p" for d p ts
    by (induction ts arbitrary: p) (auto simp: need_def)
  with Cons show ?case by (cases st) (simp add: pin_early_def)
qed simp

lemma pin_branch_mono:
  "t < length p \<Longrightarrow> p ! t \<Longrightarrow> foldl (pin_branch b ls) p is ! t"
  "length (foldl (pin_branch b ls) p is) = length p"
proof -
  have one: "length (pin_branch b ls p i) = length p" "t < length p \<Longrightarrow> p ! t \<Longrightarrow> pin_branch b ls p i ! t" for p i
    by (auto simp: pin_branch_def Let_def nth_enumerate_eq)
  show "length (foldl (pin_branch b ls) p is) = length p" by (induction "is" arbitrary: p) (simp_all add: one)
  show "t < length p \<Longrightarrow> p ! t \<Longrightarrow> foldl (pin_branch b ls) p is ! t"
    by (induction "is" arbitrary: p) (simp_all add: one)
qed

lemma pinned_jumped:
  assumes "t < n" "n < 2 ^ 32" "i < length (b_insts b)" "i_op (b_insts b ! i) = OP_BRCOND" "i < i_aux (b_insts b ! i)"
    and "jumped_over ls i (i_aux (b_insts b ! i)) t"
  shows "pinned_temps b ls n ! t"
proof -
  define p where "p = fst (foldl (pin_early b) (replicate n False, replicate n False) [0..<length (b_insts b)])"
  have p: "length p = n" by (simp add: p_def pin_early_length)
  have "[0..<length (b_insts b)] = [0..<i] @ i # [Suc i..<length (b_insts b)]"
    using assms(3) by (metis le0 less_imp_le_nat upt_add_eq_append upt_conv_Cons le_add_diff_inverse)
  moreover have "pin_branch b ls q i ! t" if "length q = n" for q
    using that assms by (simp add: pin_branch_def Let_def nth_enumerate_eq)
  moreover have "length (pin_branch b ls q i) = length q" for q using pin_branch_mono(2) [of b ls q "[i]"] by simp
  ultimately have "foldl (pin_branch b ls) p [0..<length (b_insts b)] ! t"
    using assms(1) p by (simp add: pin_branch_mono)
  then show ?thesis by (simp add: pinned_temps_def split_beta p_def)
qed

section \<open>Properties of the allocation\<close>

text \<open>
  C10: Two temporaries never hold the same register at once: if the allocator
  gives two different temporaries one register, then the live range of one is
  over by the instruction at which the other's starts, and they do not start
  together.
\<close>

theorem registers_not_shared:
  assumes "length ls < 2 ^ 32" "t \<noteq> u" "alloc_home (linear_scan b ls banks sites) t = Reg r"
    and "alloc_home (linear_scan b ls banks sites) u = Reg r"
  shows "\<exists>i j. life_interval (ls ! t) = Some i \<and> life_interval (ls ! u) = Some j \<and> apart i j"
proof -
  obtain c sc where e: "al_homes (linear_scan b ls banks sites) = sc_homes sc"
    and inv: "scan_inv (reg_ok (pinned_temps b ls (temp_count b)) (call_prefix (cs_inside sites) (length (b_insts b)))
      (call_prefix (cs_before sites) (length (b_insts b))) (mask_of (rb_saved banks)) (mask_of (rb_volatile banks)))
      (temp_count b) (set (live_intervals ls)) c sc"
    using assms(1) by (rule linear_scan_inv)
  note I = scan_invD [OF inv]
  note T = home_Reg [OF e I(1) assms(3)] and U = home_Reg [OF e I(1) assms(4)]
  obtain i where i: "(t, i) \<in> set (live_intervals ls)" using I(4) [OF T] by blast
  obtain j where j: "(u, j) \<in> set (live_intervals ls)" using I(4) [OF U] by blast
  from I(5) [OF T(1) U(1) assms(2) T(2) U(2) i j] i j show ?thesis
    by (auto simp: live_intervals_set [OF assms(1)])
qed

text \<open>
  C11: A value that must survive a call into the host is never in a register the
  call may destroy: whatever register a temporary gets is one of the sixteen and
  in one of the backend's banks, and if it is not in the call-saved bank then no
  instruction strictly inside its live range makes a call, and no call is made
  in the gap before an instruction after its definition up to its last use.
\<close>

theorem registers_survive_calls:
  assumes "length ls < 2 ^ 32" "alloc_home (linear_scan b ls banks sites) t = Reg r"
  shows "r < 16 \<and> (r \<in> set (rb_saved banks) \<or> r \<in> set (rb_volatile banks)
      \<and> (\<exists>s e. life_interval (ls ! t) = Some (s, e)
        \<and> (\<forall>i<length (b_insts b). s < i \<and> i < e \<longrightarrow> nth_opt (cs_inside sites) i \<noteq> Some True)
        \<and> (\<forall>i<length (b_insts b). s < i \<and> i \<le> e \<longrightarrow> nth_opt (cs_before sites) i \<noteq> Some True)))"
proof -
  obtain s e where "life_interval (ls ! t) = Some (s, e)"
    "reg_ok (pinned_temps b ls (temp_count b)) (call_prefix (cs_inside sites) (length (b_insts b)))
      (call_prefix (cs_before sites) (length (b_insts b))) (mask_of (rb_saved banks)) (mask_of (rb_volatile banks)) t s e r"
    using assms by (rule home_interval)
  then show ?thesis by (auto simp: reg_ok_def bit_mask_of crosses_def any_call_iff Suc_le_eq less_Suc_eq_le)
qed

text \<open>
  A temporary a branch can jump over never gets a register: if a temporary
  has one, then no forward branch skips its definition while landing at or
  before its last use, so a taken branch cannot expose what the register held
  before.
\<close>

theorem registers_always_defined:
  assumes "length ls < 2 ^ 32" "temp_count b < 2 ^ 32" "alloc_home (linear_scan b ls banks sites) t = Reg r"
    and "i < length (b_insts b)" "i_op (b_insts b ! i) = OP_BRCOND" "i < i_aux (b_insts b ! i)"
  shows "\<not> jumped_over ls i (i_aux (b_insts b ! i)) t"
proof -
  have "t < temp_count b" "\<not> pinned_temps b ls (temp_count b) ! t"
    using home_interval [OF assms(1,3)] by (auto simp: reg_ok_def)
  then show ?thesis using pinned_jumped [OF _ assms(2,4-6), of t ls] by blast
qed

section \<open>A small allocation\<close>

text \<open>
  Three temporaries of a block with a branch over the second one's definition,
  one register of each bank and a call inside instruction 1.
\<close>

definition sample_inst :: "opcode \<Rightarrow> nat \<Rightarrow> inst" where
  "sample_inst p aux = \<lparr>i_op = p, i_ty = I64, i_dst = None, i_dst2 = None, i_imm = None, i_mem = None,
     i_cond = None, i_aux = aux, i_src_start = 0, i_src_len = 0\<rparr>"

definition sample_block :: block where
  "sample_block = (bb_new 0 0)\<lparr>b_types := [I64, I64, I64], b_insts := [sample_inst OP_MOV 0, sample_inst OP_BRCOND 3,
     sample_inst OP_MOV 0, sample_inst OP_MOV 0, sample_inst OP_EXIT_TB 0]\<rparr>"

definition sample_live :: liveness where
  "sample_live = [\<lparr>tl_def = Some 0, tl_last_use = Some 3, tl_uses = 1, tl_at_boundary = False\<rparr>,
     \<lparr>tl_def = Some 2, tl_last_use = Some 3, tl_uses = 1, tl_at_boundary = False\<rparr>,
     \<lparr>tl_def = Some 3, tl_last_use = Some 4, tl_uses = 1, tl_at_boundary = False\<rparr>]"

definition sample_banks :: reg_banks where
  "sample_banks = \<lparr>rb_saved = [3], rb_volatile = []\<rparr>"

definition sample_sites :: call_sites where
  "sample_sites = \<lparr>cs_inside = [False, True], cs_before = []\<rparr>"

lemma sample_intervals: "live_intervals sample_live = [(0, 0, 3), (1, 2, 3), (2, 3, 4)]"
  by (simp add: live_intervals_def live_iter_def sample_live_def life_interval_def map_filter_def)

lemma sample_pinned: "pinned_temps sample_block sample_live 3 = [False, True, False]"
  by (simp add: pinned_temps_def sample_block_def sample_live_def sample_inst_def bb_new_def pin_early_def
      pin_branch_def jumped_over_def live_life_def srcs_def dsts_def upt_conv_Cons numeral_3_eq_3 nth_opt_def)

lemma sample_prefix: "call_prefix [False, True] 5 = [0, 0, 1, 1, 1, 1]" "call_prefix [] 5 = [0, 0, 0, 0, 0, 0]"
  by (simp_all add: call_prefix_def upt_conv_Cons nth_opt_def)

lemma sample_size: "temp_count sample_block = 3" "length (b_insts sample_block) = 5"
  by (simp_all add: temp_count_def sample_block_def)

lemma sample_masks: "mask_of [3] = 8" "mask_of [] = 0"
  by (simp_all add: mask_of_def MAX_REGS_def)

lemma sample_replicate: "replicate 3 x = [x, x, x]"
  by (simp add: numeral_3_eq_3)

lemma sample_alloc:
  "al_homes (linear_scan sample_block sample_live sample_banks sample_sites) = [Reg 3, Frame, Reg 3]"
  by (simp add: linear_scan_def sample_size sample_intervals sample_pinned sample_banks_def sample_sites_def
      sample_prefix sample_masks scan_interval_def expire_def expired_def crosses_def any_call_def take_first_def
      take_reg_def sample_replicate Let_def upt_conv_Cons)

lemma sample_homes:
  "alloc_home (linear_scan sample_block sample_live sample_banks sample_sites) 0 = Reg 3"
  "alloc_home (linear_scan sample_block sample_live sample_banks sample_sites) 2 = Reg 3"
  by (simp_all add: alloc_home_def sample_alloc nth_opt_def)

lemma sample_short: "length sample_live < 2 ^ 32"
  by (simp add: sample_live_def)

theorem registers_not_shared_witness:
  "\<exists>i j. life_interval (sample_live ! 0) = Some i \<and> life_interval (sample_live ! 2) = Some j \<and> apart i j"
  by (rule registers_not_shared [OF sample_short _ sample_homes]) simp

theorem registers_survive_calls_witness:
  "(3 :: nat) < 16 \<and> (3 \<in> set (rb_saved sample_banks) \<or> 3 \<in> set (rb_volatile sample_banks))"
  using registers_survive_calls [OF sample_short sample_homes(1)] by blast

theorem registers_always_defined_witness: "\<not> jumped_over sample_live 1 3 2"
  using registers_always_defined [OF sample_short _ sample_homes(2), of 1]
  by (simp add: sample_block_def sample_inst_def temp_count_def bb_new_def)

end
