(* ===== verification/Clock_Time.thy ===== *)
theory Clock_Time
  imports Rsemu_Prelude Complex_Main
begin

text \<open>
  Virtual time, the arithmetic of \<open>core/clock.rs\<close>: exact rational rates, the
  192-bit product of the cross-tree conversion, instants of the machine-wide
  timeline and the oscillator with its residual accumulator. Machine integers
  are natural numbers with the range written out: a checked operation is
  \<open>None\<close> when its result does not fit.
\<close>

section \<open>Greatest common divisors\<close>

text \<open>\<open>gcd\<close>, \<open>checked_lcm\<close>\<close>

function gcd_u64 :: "nat \<Rightarrow> nat \<Rightarrow> nat" where
  "gcd_u64 a b = (if b \<noteq> 0 then gcd_u64 b (a mod b) else a)"
  by pat_completeness auto
termination
  by (relation "measure snd") auto

declare gcd_u64.simps [simp del]

lemma gcd_u64_eq [simp]: "gcd_u64 a b = gcd a b"
proof (induction a b rule: gcd_u64.induct)
  case (1 a b)
  then show ?case by (subst gcd_u64.simps) (simp add: gcd_red_nat [symmetric])
qed

definition checked_lcm :: "nat \<Rightarrow> nat \<Rightarrow> nat option" where
  "checked_lcm a b = (if a = 0 \<or> b = 0 then Some 0 else checked_u64 (a div gcd_u64 a b * b))"

section \<open>Errors\<close>

type_synonym domain_id = nat
type_synonym oscillator_id = nat

datatype clock_error =
    ZeroDenominator
  | ZeroRate string
  | UnknownDomain domain_id
  | UnknownOscillator oscillator_id
  | LcmUnavailable "string list"
  | Overflow string "string list"
  | Cycle string
  | NotApplicable string
  | CrossTree domain_id domain_id
  | Gated string

text \<open>
  A clock operation returns a value, refuses with a \<open>ClockError\<close>, or panics; the
  only panic the code can reach is the \<open>expect\<close> of \<open>recompute_tree\<close>.
\<close>

datatype clock_stop = Refused clock_error | Panicked string

type_synonym 'a clock_result = "clock_stop + 'a"

section \<open>Rational rates\<close>

record rate =
  r_num :: nat
  r_den :: nat

definition rate_one :: rate where "rate_one = \<lparr>r_num = 1, r_den = 1\<rparr>"

definition rate_new :: "nat \<Rightarrow> nat \<Rightarrow> clock_error + rate" where
  "rate_new num den =
     (if den = 0 then Inl ZeroDenominator
      else if num = 0 then Inr \<lparr>r_num = 0, r_den = 1\<rparr>
      else let g = gcd_u64 num den in Inr \<lparr>r_num = num div g, r_den = den div g\<rparr>)"

definition rate_integer :: "nat \<Rightarrow> rate" where
  "rate_integer n = \<lparr>r_num = n, r_den = 1\<rparr>"

definition rate_is_zero :: "rate \<Rightarrow> bool" where
  "rate_is_zero r \<longleftrightarrow> r_num r = 0"

definition rate_mul :: "rate \<Rightarrow> rate \<Rightarrow> rate option" where
  "rate_mul a b =
     (if rate_is_zero a \<or> rate_is_zero b then Some \<lparr>r_num = 0, r_den = 1\<rparr>
      else
        let g1 = gcd_u64 (r_num a) (r_den b);
            g2 = gcd_u64 (r_num b) (r_den a)
        in Option.bind (checked_u64 (r_num a div g1 * (r_num b div g2))) (\<lambda>num.
           Option.bind (checked_u64 (r_den a div g2 * (r_den b div g1))) (\<lambda>den.
             Some \<lparr>r_num = num, r_den = den\<rparr>)))"

definition rate_scale :: "rate \<Rightarrow> nat \<Rightarrow> nat \<Rightarrow> rate option" where
  "rate_scale r mul dv = (case rate_new mul dv of Inl _ \<Rightarrow> None | Inr q \<Rightarrow> rate_mul r q)"

definition rate_div :: "rate \<Rightarrow> rate \<Rightarrow> rate option" where
  "rate_div a b = (if rate_is_zero b then None else rate_mul a \<lparr>r_num = r_den b, r_den = r_num b\<rparr>)"

text \<open>\<open>Ord::cmp\<close>: minus one, zero or one for less, equal and greater.\<close>

definition rate_cmp :: "rate \<Rightarrow> rate \<Rightarrow> int" where
  "rate_cmp a b = sgn (int (r_num a * r_den b) - int (r_num b * r_den a))"

section \<open>The 192-bit product\<close>

text \<open>Three limbs of 64 bits, the most significant first.\<close>

type_synonym u192 = "nat \<times> nat \<times> nat"

definition mul_u128_u64 :: "nat \<Rightarrow> nat \<Rightarrow> u192" where
  "mul_u128_u64 a b =
     (let ah = a div two64; al = a mod two64;
          lo = al * b;
          hi = ah * b + lo div two64
      in (hi div two64, hi mod two64, lo mod two64))"

definition div_u64 :: "u192 \<Rightarrow> nat \<Rightarrow> u192 \<times> nat" where
  "div_u64 v d =
     (case v of (l2, l1, l0) \<Rightarrow>
        let c2 = l2; q2 = c2 div d mod two64; r2 = c2 mod d;
            c1 = r2 * two64 + l1; q1 = c1 div d mod two64; r1 = c1 mod d;
            c0 = r1 * two64 + l0; q0 = c0 div d mod two64; r0 = c0 mod d
        in ((q2, q1, q0), r0))"

definition to_u128 :: "u192 \<Rightarrow> nat option" where
  "to_u128 v = (case v of (l2, l1, l0) \<Rightarrow> if l2 \<noteq> 0 then None else Some (l1 * two64 + l0))"

definition shr64 :: "u192 \<Rightarrow> u192" where
  "shr64 v = (case v of (l2, l1, l0) \<Rightarrow> (0, l2, l1))"

definition dec :: "u192 \<Rightarrow> u192" where
  "dec v = (case v of (l2, l1, l0) \<Rightarrow>
     if 0 < l0 then (l2, l1, l0 - 1)
     else if 0 < l1 then (l2, l1 - 1, two64 - 1)
     else if 0 < l2 then (l2 - 1, two64 - 1, two64 - 1)
     else (two64 - 1, two64 - 1, two64 - 1))"

section \<open>Instants\<close>

definition GLOBAL_TIME_FRAC_BITS :: nat where "GLOBAL_TIME_FRAC_BITS = 64"

text \<open>A \<open>GlobalTime\<close> is its raw count of \<open>2^-64\<close> second units.\<close>

type_synonym gtime = nat

definition from_nanos :: "nat \<Rightarrow> gtime" where
  "from_nanos nanos = nanos * 2 ^ GLOBAL_TIME_FRAC_BITS div 1000000000"

definition as_nanos :: "gtime \<Rightarrow> nat" where
  "as_nanos t =
     (let whole = t div 2 ^ GLOBAL_TIME_FRAC_BITS; frac = t mod 2 ^ GLOBAL_TIME_FRAC_BITS in
      case checked_u128 (whole * 1000000000) of
        None \<Rightarrow> two64 - 1
      | Some secs_ns \<Rightarrow>
          let total = secs_ns + frac * 1000000000 div 2 ^ GLOBAL_TIME_FRAC_BITS in
          if two64 - 1 < total then two64 - 1 else total)"

definition time_saturating_add :: "gtime \<Rightarrow> gtime \<Rightarrow> gtime" where
  "time_saturating_add a b = min (a + b) (two128 - 1)"

definition time_saturating_sub :: "gtime \<Rightarrow> gtime \<Rightarrow> gtime" where
  "time_saturating_sub a b = a - b"

section \<open>Oscillators\<close>

record oscillator =
  o_name :: string
  o_freq :: rate
  o_root :: domain_id
  o_unit_mul :: nat
  o_unit_rate :: rate
  o_units :: nat
  o_base_units :: nat
  o_base_time :: nat
  o_step :: nat
  o_rem :: nat
  o_time :: nat
  o_residual :: nat
  o_active :: bool

definition recompute_conversion :: "oscillator \<Rightarrow> oscillator" where
  "recompute_conversion x =
     (let num = r_num (o_unit_rate x); den = r_den (o_unit_rate x);
          scaled = den * 2 ^ GLOBAL_TIME_FRAC_BITS
      in x\<lparr>o_step := scaled div num, o_rem := scaled mod num\<rparr>)"

definition osc_overflow :: "oscillator \<Rightarrow> string \<Rightarrow> clock_error" where
  "osc_overflow x what = Overflow what [o_name x]"

definition accumulate :: "oscillator \<Rightarrow> nat \<Rightarrow> clock_error + oscillator" where
  "accumulate x n =
     ok_or (
       Option.bind (checked_u128 (n * o_step x)) (\<lambda>add.
       Option.bind (checked_u128 (n * o_rem x)) (\<lambda>carry_in.
       Option.bind (checked_u128 (o_time x + add)) (\<lambda>time.
       Option.bind (checked_u128 (o_residual x + carry_in)) (\<lambda>residual.
         let num = r_num (o_unit_rate x) in
         if num \<le> residual then
           Option.bind (checked_u128 (time + residual div num)) (\<lambda>time.
             Some (x\<lparr>o_time := time, o_residual := residual mod num\<rparr>))
         else Some (x\<lparr>o_time := time, o_residual := residual\<rparr>))))))
       (osc_overflow x ''global timeline'')"

definition time_for_units :: "oscillator \<Rightarrow> nat \<Rightarrow> clock_error + nat" where
  "time_for_units x units =
     (if units \<le> o_base_units x then Inr (o_base_time x)
      else
        let n = units - o_base_units x; num = r_num (o_unit_rate x) in
        ok_or (
          Option.bind (checked_u128 (n * o_step x)) (\<lambda>whole.
          Option.bind (checked_u128 (n * o_rem x)) (\<lambda>frac.
          Option.bind (checked_u128 (o_base_time x + whole)) (\<lambda>t.
            checked_u128 (t + frac div num)))))
          (osc_overflow x ''global timeline''))"

definition units_at :: "oscillator \<Rightarrow> nat \<Rightarrow> clock_error + nat" where
  "units_at x t =
     (if t \<le> o_base_time x then Inr (o_base_units x)
      else
        let dt = t - o_base_time x;
            numerator = dec (mul_u128_u64 (time_saturating_add dt 1) (r_num (o_unit_rate x)));
            (q, _) = div_u64 numerator (r_den (o_unit_rate x))
        in ok_or (
             Option.bind (to_u128 (shr64 q)) (\<lambda>v.
             Option.bind (checked_u64 v) (\<lambda>units.
               checked_u64 (o_base_units x + units))))
             (osc_overflow x ''unit position''))"

section \<open>Rates are exact\<close>

definition rate_reduced :: "rate \<Rightarrow> bool" where
  "rate_reduced r \<longleftrightarrow> 0 < r_den r \<and> coprime (r_num r) (r_den r)"

definition rate_wf :: "rate \<Rightarrow> bool" where
  "rate_wf r \<longleftrightarrow> rate_reduced r \<and> r_num r < two64 \<and> r_den r < two64"

definition rate_of :: "rate \<Rightarrow> rat" where
  "rate_of r = of_nat (r_num r) / of_nat (r_den r)"

lemma rate_wf_den: "rate_wf r \<Longrightarrow> 0 < r_den r"
  by (simp add: rate_wf_def rate_reduced_def)

lemma rate_of_eq_0 [simp]: "rate_wf r \<Longrightarrow> rate_of r = 0 \<longleftrightarrow> r_num r = 0"
  by (auto simp: rate_of_def rate_wf_def rate_reduced_def)

lemma rate_one_wf [simp]: "rate_wf rate_one" "rate_of rate_one = 1"
  by (simp_all add: rate_wf_def rate_reduced_def rate_one_def rate_of_def)

text \<open>Two rates in lowest terms are equal exactly when their values are.\<close>

lemma rate_of_inj:
  assumes "rate_reduced a" "rate_reduced b" "rate_of a = rate_of b"
  shows "a = b"
proof -
  have d0: "0 < r_den a" "0 < r_den b" using assms(1,2) by (simp_all add: rate_reduced_def)
  have "(of_nat (r_num a * r_den b) :: rat) = of_nat (r_num b * r_den a)"
    using assms d0 by (simp add: rate_of_def field_simps)
  then have e: "r_den b * r_num a = r_den a * r_num b" unfolding of_nat_eq_iff by (simp add: mult.commute)
  have "r_den b dvd r_den a * r_num b" by (rule dvdI [OF e [symmetric]])
  moreover have "r_den a dvd r_den b * r_num a" by (rule dvdI [OF e])
  ultimately have "r_den b dvd r_den a" "r_den a dvd r_den b"
    using assms by (auto simp: rate_reduced_def coprime_commute coprime_dvd_mult_left_iff)
  then have d: "r_den a = r_den b" by (simp add: dvd_antisym)
  with e have "r_num a = r_num b" using d0 by simp
  with d show ?thesis by (cases a; cases b) simp
qed

lemma reduced_fraction:
  assumes "g dvd n" "g dvd d" "0 < d"
  shows "(of_nat (n div g) / of_nat (d div g) :: rat) = of_nat n / of_nat d"
proof -
  obtain a b where "n = g * a" "d = g * b" using assms(1,2) by (auto elim!: dvdE)
  with assms(3) show ?thesis by simp
qed

lemma rate_new_correct:
  assumes "num < two64" "den < two64" "rate_new num den = Inr r"
  shows "den \<noteq> 0" "rate_wf r" "rate_of r = of_nat num / of_nat den"
proof -
  show den: "den \<noteq> 0" using assms(3) by (auto simp: rate_new_def split: if_splits)
  have "rate_wf r \<and> rate_of r = of_nat num / of_nat den"
  proof (cases "num = 0")
    case False
    let ?g = "gcd num den"
    have r: "r = \<lparr>r_num = num div ?g, r_den = den div ?g\<rparr>"
      using assms(3) False den by (simp add: rate_new_def Let_def)
    have "(of_nat (num div ?g) / of_nat (den div ?g) :: rat) = of_nat num / of_nat den"
      using den by (intro reduced_fraction) simp_all
    moreover have "num div ?g < two64" "den div ?g < two64"
      using assms(1,2) by (meson div_le_dividend le_less_trans)+
    moreover have "0 < den div ?g" using den by (simp add: div_greater_zero_iff gcd_le2_nat)
    ultimately show ?thesis using den False unfolding r by (simp add: rate_wf_def rate_reduced_def rate_of_def div_gcd_coprime)
  qed (use assms(3) den in \<open>auto simp: rate_new_def rate_wf_def rate_reduced_def rate_of_def\<close>)
  then show "rate_wf r" "rate_of r = of_nat num / of_nat den" by simp_all
qed

text \<open>
  Cross-reduction gives the product in lowest terms, so the multiplication
  refuses exactly when that product does not fit.
\<close>

lemma cross_reduced:
  assumes "coprime a (b :: nat)" "coprime c d" "0 < a" "0 < c" "0 < b" "0 < d"
  shows "coprime (a div gcd a d * (c div gcd c b)) (b div gcd c b * (d div gcd a d))"
    and "(of_nat (a div gcd a d * (c div gcd c b)) / of_nat (b div gcd c b * (d div gcd a d)) :: rat)
      = (of_nat a / of_nat b) * (of_nat c / of_nat d)"
proof -
  have "coprime (a div gcd a d) (d div gcd a d)" "coprime (c div gcd c b) (b div gcd c b)"
    using assms by (auto intro!: div_gcd_coprime)
  moreover have "coprime (a div gcd a d) (b div gcd c b)" "coprime (c div gcd c b) (d div gcd a d)"
    by (rule coprime_divisors [OF _ _ assms(1)] coprime_divisors [OF _ _ assms(2)]; simp add: div_dvd_iff_mult assms)+
  ultimately show "coprime (a div gcd a d * (c div gcd c b)) (b div gcd c b * (d div gcd a d))"
    by (simp add: coprime_mult_left_iff coprime_mult_right_iff)
  have "(of_nat (a div gcd a d) / of_nat (d div gcd a d) :: rat) = of_nat a / of_nat d"
    "(of_nat (c div gcd c b) / of_nat (b div gcd c b) :: rat) = of_nat c / of_nat b"
    using assms by (intro reduced_fraction; simp)+
  then have "(of_nat (a div gcd a d) / of_nat (d div gcd a d)) * (of_nat (c div gcd c b) / of_nat (b div gcd c b) :: rat)
      = of_nat a / of_nat d * (of_nat c / of_nat b)" by simp
  then show "(of_nat (a div gcd a d * (c div gcd c b)) / of_nat (b div gcd c b * (d div gcd a d)) :: rat)
      = (of_nat a / of_nat b) * (of_nat c / of_nat d)"
    by (simp add: mult.commute)
qed

lemma rate_mul_correct:
  assumes "rate_wf a" "rate_wf b"
  shows "rate_mul a b = Some c \<longleftrightarrow> rate_wf c \<and> rate_of c = rate_of a * rate_of b"
proof -
  define p where "p = (if r_num a = 0 \<or> r_num b = 0 then \<lparr>r_num = 0, r_den = 1\<rparr> else
    \<lparr>r_num = r_num a div gcd (r_num a) (r_den b) * (r_num b div gcd (r_num b) (r_den a)),
     r_den = r_den a div gcd (r_num b) (r_den a) * (r_den b div gcd (r_num a) (r_den b))\<rparr>)"
  have w: "coprime (r_num a) (r_den a)" "coprime (r_num b) (r_den b)" "0 < r_den a" "0 < r_den b"
    using assms by (simp_all add: rate_wf_def rate_reduced_def)
  note cr = cross_reduced [OF w(1,2) _ _ w(3,4)]
  have "0 < r_den p" using w(3,4) by (simp add: p_def div_greater_zero_iff gcd_le2_nat)
  with cr have red: "rate_reduced p" by (auto simp: rate_reduced_def p_def)
  have val: "rate_of p = rate_of a * rate_of b" using cr by (auto simp: p_def rate_of_def)
  have "rate_mul a b = (if rate_wf p then Some p else None)"
    using red by (auto simp: rate_mul_def rate_is_zero_def p_def Let_def checked_u64_def rate_wf_def)
  moreover have "rate_wf c \<Longrightarrow> rate_of c = rate_of p \<Longrightarrow> c = p"
    using rate_of_inj [OF _ red, of c] by (simp add: rate_wf_def)
  ultimately show ?thesis using val by auto
qed

lemma rate_scale_correct:
  assumes "rate_wf r" "mul < two64" "dv < two64"
  shows "rate_scale r mul dv = Some c \<longleftrightarrow> dv \<noteq> 0 \<and> rate_wf c \<and> rate_of c = rate_of r * of_nat mul / of_nat dv"
proof (cases "rate_new mul dv")
  case (Inl e)
  then have "dv = 0" by (simp add: rate_new_def Let_def split: if_splits)
  then show ?thesis using Inl by (simp add: rate_scale_def)
next
  case (Inr q)
  from rate_new_correct [OF assms(2,3) Inr] rate_mul_correct [OF assms(1)] Inr
  show ?thesis by (simp add: rate_scale_def)
qed

lemma rate_div_correct:
  assumes "rate_wf a" "rate_wf b"
  shows "rate_div a b = Some c \<longleftrightarrow> rate_of b \<noteq> 0 \<and> rate_wf c \<and> rate_of c = rate_of a / rate_of b"
proof (cases "r_num b = 0")
  case False
  then have "rate_wf \<lparr>r_num = r_den b, r_den = r_num b\<rparr>" "rate_of \<lparr>r_num = r_den b, r_den = r_num b\<rparr> = 1 / rate_of b"
    using assms(2) by (auto simp: rate_wf_def rate_reduced_def rate_of_def coprime_commute)
  from rate_mul_correct [OF assms(1) this(1)] this(2) False assms(2) show ?thesis
    by (simp add: rate_div_def rate_is_zero_def)
qed (use assms(2) in \<open>simp add: rate_div_def rate_is_zero_def\<close>)

lemma rate_cmp_correct:
  assumes "rate_wf a" "rate_wf b"
  shows "rate_cmp a b = (if rate_of a < rate_of b then - 1 else if rate_of b < rate_of a then 1 else 0)"
proof -
  have "rate_of a < rate_of b \<longleftrightarrow> r_num a * r_den b < r_num b * r_den a"
    "rate_of b < rate_of a \<longleftrightarrow> r_num b * r_den a < r_num a * r_den b"
    using rate_wf_den [OF assms(1)] rate_wf_den [OF assms(2)]
    by (simp_all add: rate_of_def divide_less_eq less_divide_eq flip: of_nat_mult)
  then show ?thesis by (simp add: rate_cmp_def sgn_if flip: of_nat_mult)
qed

section \<open>The 192-bit product is exact\<close>

definition u192_val :: "u192 \<Rightarrow> nat" where
  "u192_val v = (case v of (l2, l1, l0) \<Rightarrow> (l2 * two64 + l1) * two64 + l0)"

definition u192_wf :: "u192 \<Rightarrow> bool" where
  "u192_wf v = (case v of (l2, l1, l0) \<Rightarrow> l2 < two64 \<and> l1 < two64 \<and> l0 < two64)"

lemma mul_u128_u64_exact:
  assumes "a < two128" "b < two64"
  shows "u192_wf (mul_u128_u64 a b)" "u192_val (mul_u128_u64 a b) = a * b"
proof -
  define ah al lo hi where d: "ah = a div two64" "al = a mod two64" "lo = al * b" "hi = ah * b + lo div two64"
  have a: "a = ah * two64 + al" "ah < two64" using assms(1) by (simp_all add: d less_mult_imp_div_less)
  have "al < two64" by (simp add: d)
  then have "lo \<le> (two64 - 1) * (two64 - 1)" unfolding d(3) using assms(2) by (intro mult_le_mono) auto
  moreover have "ah * b \<le> (two64 - 1) * (two64 - 1)" using a(2) assms(2) by (intro mult_le_mono) auto
  ultimately have "hi < two128" unfolding d(4) by simp
  have m: "mul_u128_u64 a b = (hi div two64, hi mod two64, lo mod two64)"
    by (simp add: mul_u128_u64_def Let_def d)
  show "u192_wf (mul_u128_u64 a b)" using \<open>hi < two128\<close> by (simp add: m u192_wf_def less_mult_imp_div_less)
  have "u192_val (mul_u128_u64 a b) = hi * two64 + lo mod two64"
    by (simp only: m u192_val_def prod.case div_mult_mod_eq)
  also have "\<dots> = ah * b * two64 + lo" by (simp only: d(4) add_mult_distrib add.assoc div_mult_mod_eq)
  also have "\<dots> = a * b" by (simp add: a(1) d(3) algebra_simps)
  finally show "u192_val (mul_u128_u64 a b) = a * b" .
qed

lemma dec_exact:
  assumes "u192_wf v" "0 < u192_val v"
  shows "u192_wf (dec v)" "u192_val (dec v) = u192_val v - 1"
  using assms by (auto simp: dec_def u192_wf_def u192_val_def split: prod.splits)

lemma limb_div:
  assumes "r < (d :: nat)" "l < two64"
  shows "(r * two64 + l) div d < two64"
proof -
  have "r * two64 + l < (r + 1) * two64" using assms(2) by simp
  also have "\<dots> \<le> d * two64" using assms(1) by (intro mult_le_mono) auto
  finally show ?thesis using assms(1) by (simp add: less_mult_imp_div_less mult.commute)
qed

lemma div_u64_exact:
  assumes "u192_wf v" "0 < d"
  shows "u192_wf (fst (div_u64 v d))" "u192_val (fst (div_u64 v d)) = u192_val v div d" "snd (div_u64 v d) = u192_val v mod d"
proof -
  obtain l2 l1 l0 where v: "v = (l2, l1, l0)" by (cases v)
  define q2 r2 q1 r1 q0 r0 where q: "q2 = l2 div d" "r2 = l2 mod d"
    "q1 = (r2 * two64 + l1) div d" "r1 = (r2 * two64 + l1) mod d"
    "q0 = (r1 * two64 + l0) div d" "r0 = (r1 * two64 + l0) mod d"
  have l: "l2 < two64" "l1 < two64" "l0 < two64" using assms(1) by (simp_all add: v u192_wf_def)
  have r: "r2 < d" "r1 < d" "r0 < d" using assms(2) by (simp_all add: q)
  have b: "q2 < two64" "q1 < two64" "q0 < two64"
    using l(1) limb_div [OF r(1) l(2)] limb_div [OF r(2) l(3)] by (auto simp: q intro: le_less_trans [OF div_le_dividend])
  have dv: "div_u64 v d = ((q2, q1, q0), r0)" using b by (simp add: div_u64_def v Let_def q)
  have e: "l2 = q2 * d + r2" "r2 * two64 + l1 = q1 * d + r1" "r1 * two64 + l0 = q0 * d + r0" by (simp_all add: q)
  have "u192_val v = (q2 * d * two64 + (r2 * two64 + l1)) * two64 + l0"
    by (simp add: v u192_val_def e(1) algebra_simps)
  also have "\<dots> = (q2 * d * two64 + q1 * d) * two64 + (r1 * two64 + l0)" unfolding e(2) by (simp add: algebra_simps)
  also have "\<dots> = ((q2 * two64 + q1) * two64 + q0) * d + r0" unfolding e(3) by (simp add: algebra_simps)
  finally have val: "u192_val v = u192_val (fst (div_u64 v d)) * d + r0" by (simp add: dv u192_val_def)
  show "u192_wf (fst (div_u64 v d))" using b by (simp add: dv u192_wf_def)
  show "u192_val (fst (div_u64 v d)) = u192_val v div d" "snd (div_u64 v d) = u192_val v mod d"
    unfolding val using r(3) by (simp_all add: dv)
qed

lemma shr64_exact:
  assumes "u192_wf v"
  shows "to_u128 (shr64 v) = Some (u192_val v div two64)"
  using assms by (auto simp: to_u128_def shr64_def u192_val_def u192_wf_def split: prod.splits)

section \<open>The residual accumulator\<close>

text \<open>
  Seconds per unit tick are \<open>den / num\<close>, so in the timeline's units the exact
  instant of a position is the floor of a multiple of \<open>den * 2^64 / num\<close>.
\<close>

definition unit_span :: "oscillator \<Rightarrow> nat" where
  "unit_span x = r_den (o_unit_rate x) * two64"

definition exact_time :: "oscillator \<Rightarrow> nat \<Rightarrow> nat" where
  "exact_time x u = o_base_time x + (u - o_base_units x) * unit_span x div r_num (o_unit_rate x)"

definition conversion_wf :: "oscillator \<Rightarrow> bool" where
  "conversion_wf x \<longleftrightarrow> rate_wf (o_unit_rate x) \<and> 0 < r_num (o_unit_rate x)
     \<and> o_step x = unit_span x div r_num (o_unit_rate x) \<and> o_rem x = unit_span x mod r_num (o_unit_rate x)
     \<and> o_base_time x < two128"

definition timeline_wf :: "oscillator \<Rightarrow> bool" where
  "timeline_wf x \<longleftrightarrow> conversion_wf x \<and> o_base_units x \<le> o_units x \<and> o_units x < two64
     \<and> o_time x = exact_time x (o_units x) \<and> o_time x < two128
     \<and> o_residual x = (o_units x - o_base_units x) * unit_span x mod r_num (o_unit_rate x)"

lemma recompute_conversion_wf:
  assumes "rate_wf (o_unit_rate x)" "0 < r_num (o_unit_rate x)" "o_base_time x < two128"
  shows "conversion_wf (recompute_conversion x)"
  using assms by (simp add: conversion_wf_def recompute_conversion_def Let_def unit_span_def GLOBAL_TIME_FRAC_BITS_def)

lemma span_split:
  assumes "conversion_wf x"
  shows "n * unit_span x = n * o_step x * r_num (o_unit_rate x) + n * o_rem x"
    and "n * unit_span x div r_num (o_unit_rate x) = n * o_step x + n * o_rem x div r_num (o_unit_rate x)"
proof -
  let ?m = "r_num (o_unit_rate x)"
  have c: "unit_span x = o_step x * ?m + o_rem x" "0 < ?m" using assms by (simp_all add: conversion_wf_def)
  show s: "n * unit_span x = n * o_step x * ?m + n * o_rem x" by (simp add: c(1) algebra_simps)
  show "n * unit_span x div ?m = n * o_step x + n * o_rem x div ?m" unfolding s using c(2) by simp
qed

lemma carry_fits:
  assumes "conversion_wf x" "n < two64" "r < r_num (o_unit_rate x)"
  shows "r + n * o_rem x < two128"
proof -
  have m: "r_num (o_unit_rate x) < two64" "o_rem x < r_num (o_unit_rate x)"
    using assms(1) by (auto simp: conversion_wf_def rate_wf_def)
  then have "n * o_rem x \<le> (two64 - 1) * (two64 - 2)" using assms(2) by (intro mult_le_mono) auto
  then show ?thesis using m(1) assms(3) by simp
qed

text \<open>The closed form: it answers the exact floor, and refuses exactly when that does not fit.\<close>

lemma time_for_units_exact:
  assumes "conversion_wf x" "u < two64"
  shows "time_for_units x u = ok_or (checked_u128 (exact_time x u)) (osc_overflow x ''global timeline'')"
proof (cases "u \<le> o_base_units x")
  case True
  then show ?thesis using assms(1) by (simp add: time_for_units_def exact_time_def conversion_wf_def checked_u128_def)
next
  case False
  let ?n = "u - o_base_units x"
  have "?n < two64" using assms(2) by simp
  from carry_fits [OF assms(1) this, of 0] assms(1) have "?n * o_rem x < two128" by (simp add: conversion_wf_def)
  then show ?thesis
    using False by (simp add: time_for_units_def exact_time_def span_split(2) [OF assms(1)] Let_def checked_u128_def)
qed

text \<open>The accumulator: one addition at a time it stays on the closed form.\<close>

lemma accumulate_exact:
  assumes "timeline_wf x" "o_units x + n < two64"
  shows "accumulate x n = ok_or (map_option (\<lambda>t. x\<lparr>o_time := t,
       o_residual := (o_units x + n - o_base_units x) * unit_span x mod r_num (o_unit_rate x)\<rparr>)
     (checked_u128 (exact_time x (o_units x + n)))) (osc_overflow x ''global timeline'')"
proof -
  let ?m = "r_num (o_unit_rate x)" and ?e = "(o_units x - o_base_units x) * unit_span x"
  have w: "conversion_wf x" "o_base_units x \<le> o_units x" "o_time x = o_base_time x + ?e div ?m" "o_residual x = ?e mod ?m"
    using assms(1) by (simp_all add: timeline_wf_def exact_time_def)
  then have m: "0 < ?m" by (simp add: conversion_wf_def)
  let ?r = "o_residual x + n * o_rem x"
  have r: "?r < two128" using carry_fits [OF w(1), of n "o_residual x"] assms(2) m w(4) by simp
  have e: "(o_units x + n - o_base_units x) * unit_span x = ?e + n * unit_span x"
    using w(2) by (simp flip: add_mult_distrib)
  have s: "?e + n * unit_span x = (?e div ?m + n * o_step x) * ?m + ?r"
    unfolding w(4) span_split(1) [OF w(1)] by (simp add: algebra_simps)
  have d: "exact_time x (o_units x + n) = o_time x + n * o_step x + ?r div ?m"
    "(o_units x + n - o_base_units x) * unit_span x mod ?m = ?r mod ?m"
    unfolding exact_time_def e s w(3) using m by simp_all
  have "?r div ?m = 0 \<and> ?r mod ?m = ?r" if "\<not> ?m \<le> ?r" using that by simp
  then show ?thesis unfolding accumulate_def d using r by (auto simp: Let_def checked_u128_def)
qed

section \<open>The inverse of the timeline\<close>

lemma floor_galois: "0 < (m :: nat) \<Longrightarrow> 0 < s \<Longrightarrow> n * s div m \<le> dt \<longleftrightarrow> n \<le> ((dt + 1) * m - 1) div s"
proof -
  assume m: "0 < m" "0 < s"
  have "n * s div m \<le> dt \<longleftrightarrow> n * s < (dt + 1) * m"
    using m(1) by (metis Suc_eq_plus1 div_less_iff_less_mult less_Suc_eq_le)
  also have "\<dots> \<longleftrightarrow> n * s \<le> (dt + 1) * m - 1" using m(1) by auto
  also have "\<dots> \<longleftrightarrow> n \<le> ((dt + 1) * m - 1) div s" using m(2) by (simp add: less_eq_div_iff_mult_less_eq)
  finally show ?thesis .
qed

lemma units_at_eq:
  assumes "conversion_wf x" "o_base_time x < t" "t - o_base_time x + 1 < two128"
  shows "units_at x t = ok_or (checked_u64 (o_base_units x
      + ((t - o_base_time x + 1) * r_num (o_unit_rate x) - 1) div unit_span x)) (osc_overflow x ''unit position'')"
proof -
  let ?m = "r_num (o_unit_rate x)" and ?d = "r_den (o_unit_rate x)" and ?dt = "t - o_base_time x"
  let ?p = "mul_u128_u64 (?dt + 1) ?m"
  have m: "0 < ?m" "?m < two64" "0 < ?d" using assms(1) by (auto simp: conversion_wf_def rate_wf_def rate_reduced_def)
  note p = mul_u128_u64_exact [OF assms(3) m(2)]
  then have "0 < u192_val ?p" using m(1) by simp
  note n = dec_exact [OF p(1) this] and q = div_u64_exact [OF dec_exact(1) [OF p(1) this] m(3)]
  have "to_u128 (shr64 (fst (div_u64 (dec ?p) ?d))) = Some (((?dt + 1) * ?m - 1) div unit_span x)"
    unfolding shr64_exact [OF q(1)] q(2) n(2) p(2) unit_span_def div_mult2_eq ..
  moreover have "time_saturating_add ?dt 1 = ?dt + 1" using assms(3) by (simp add: time_saturating_add_def)
  ultimately show ?thesis using assms(2) by (simp add: units_at_def Let_def case_prod_beta checked_u64_def)
qed

text \<open>A unit tick is at least one unit of the timeline, so the timeline is strictly increasing.\<close>

lemma span_large: "conversion_wf x \<Longrightarrow> r_num (o_unit_rate x) < unit_span x"
  by (auto simp: conversion_wf_def rate_wf_def rate_reduced_def unit_span_def intro: less_le_trans [of _ two64])

lemma exact_time_base:
  assumes "conversion_wf x"
  shows "exact_time x v \<le> o_base_time x \<longleftrightarrow> v \<le> o_base_units x"
proof -
  have "(v - o_base_units x) * unit_span x div r_num (o_unit_rate x) = 0 \<longleftrightarrow> v \<le> o_base_units x"
  proof (cases "v \<le> o_base_units x")
    case False
    then have "1 * unit_span x \<le> (v - o_base_units x) * unit_span x" by (intro mult_le_mono1) simp
    with span_large [OF assms] have "\<not> (v - o_base_units x) * unit_span x < r_num (o_unit_rate x)" by linarith
    with assms False show ?thesis by (simp add: conversion_wf_def div_eq_0_iff)
  qed simp
  then show ?thesis by (auto simp: exact_time_def)
qed

lemma exact_time_galois:
  assumes "conversion_wf x" "o_base_time x \<le> t"
  shows "exact_time x v \<le> t \<longleftrightarrow>
    v \<le> o_base_units x + ((t - o_base_time x + 1) * r_num (o_unit_rate x) - 1) div unit_span x"
proof -
  have "0 < r_num (o_unit_rate x)" "0 < unit_span x"
    using assms(1) span_large [OF assms(1)] by (simp_all add: conversion_wf_def)
  from floor_galois [OF this, of "v - o_base_units x" "t - o_base_time x"] assms(2) show ?thesis
    by (auto simp: exact_time_def)
qed

text \<open>
  The cross-tree conversion is a true inverse of the timeline: the unit
  position it answers for an instant is the greatest one whose own instant is at
  or before it, so a tree can always reach its own reported time and never
  overshoots the time it was asked for. It refuses only when that position does
  not fit the counter.
\<close>

theorem units_at_inverse:
  assumes "conversion_wf x" "o_base_units x < two64" "o_base_time x \<le> t" "t + 1 < two128"
  shows "case units_at x t of
      Inr u \<Rightarrow> u < two64 \<and> (\<forall>v. exact_time x v \<le> t \<longleftrightarrow> v \<le> u)
    | Inl e \<Rightarrow> e = osc_overflow x ''unit position'' \<and> (\<forall>v<two64. exact_time x v \<le> t)"
proof (cases "o_base_time x = t")
  case True
  then show ?thesis using exact_time_base [OF assms(1)] assms(2) by (simp add: units_at_def)
next
  case False
  then show ?thesis
    using units_at_eq [OF assms(1), of t] exact_time_galois [OF assms(1,3)] assms(3,4)
    by (auto simp: checked_u64_def)
qed

text \<open>The master crystal of the NES, \<open>236250000/11\<close> Hz, one second after the origin.\<close>

definition nes_oscillator :: oscillator where
  "nes_oscillator = recompute_conversion
     \<lparr>o_name = ''master'', o_freq = \<lparr>r_num = 236250000, r_den = 11\<rparr>, o_root = 0, o_unit_mul = 1,
      o_unit_rate = \<lparr>r_num = 236250000, r_den = 11\<rparr>, o_units = 0, o_base_units = 0, o_base_time = 0,
      o_step = 0, o_rem = 0, o_time = 0, o_residual = 0, o_active = True\<rparr>"

lemma nes_conversion_wf: "conversion_wf nes_oscillator"
  unfolding nes_oscillator_def
  by (rule recompute_conversion_wf) (simp_all add: rate_wf_def rate_reduced_def coprime_iff_gcd_eq_1 gcd_u64.simps flip: gcd_u64_eq)

lemma nes_base [simp]:
  "o_base_units nes_oscillator = 0" "o_base_time nes_oscillator = 0"
  "o_unit_rate nes_oscillator = \<lparr>r_num = 236250000, r_den = 11\<rparr>"
  by (simp_all add: nes_oscillator_def recompute_conversion_def Let_def)

theorem units_at_inverse_witness:
  "units_at nes_oscillator two64 = Inr 21477272 \<and> exact_time nes_oscillator 21477272 \<le> two64
    \<and> \<not> exact_time nes_oscillator 21477273 \<le> two64"
proof -
  have e: "units_at nes_oscillator two64 = Inr 21477272"
    by (subst units_at_eq [OF nes_conversion_wf]) (simp_all add: unit_span_def checked_u64_def)
  have "o_base_units nes_oscillator < two64" "o_base_time nes_oscillator \<le> two64" "two64 + 1 < two128" by simp_all
  from units_at_inverse [OF nes_conversion_wf this] e show ?thesis by auto
qed

end
