(* ===== verification/Clock_Forest.thy ===== *)
theory Clock_Forest
  imports Clock_Time
begin

text \<open>
  The oscillator forest of \<open>core/clock.rs\<close>: clock domains, their trees and every
  operation of \<open>ClockForest\<close>. A handle is its index. An operation on
  \<open>&mut self\<close> returns the forest it leaves behind together with its result, so
  a refusal that rolls back and one that does not are told apart. Unchecked
  \<open>u64\<close> arithmetic wraps.
\<close>

section \<open>Domains\<close>

record clock_domain =
  d_name :: string
  d_parent :: "domain_id option"
  d_mul :: nat
  d_div :: nat
  d_children :: "domain_id list"
  d_root :: oscillator_id
  d_ratio :: rate
  d_units_per_tick :: nat
  d_base_unit :: nat
  d_base_ticks :: nat
  d_gated :: bool
  d_own :: nat

definition domain_position :: "clock_domain \<Rightarrow> nat \<Rightarrow> nat" where
  "domain_position d tree = max tree (d_own d)"

definition ticks_at :: "clock_domain \<Rightarrow> nat \<Rightarrow> nat" where
  "ticks_at d units =
     (if d_gated d then d_base_ticks d
      else wrapping_add64 (d_base_ticks d) (wrapping_sub64 units (d_base_unit d) div d_units_per_tick d))"

section \<open>The forest\<close>

record clock_forest =
  f_domains :: "clock_domain list"
  f_oscs :: "oscillator list"

definition forest_new :: clock_forest where
  "forest_new = \<lparr>f_domains = [], f_oscs = []\<rparr>"

abbreviation dom_at :: "clock_forest \<Rightarrow> domain_id \<Rightarrow> clock_domain" where
  "dom_at f i \<equiv> f_domains f ! i"

abbreviation osc_at :: "clock_forest \<Rightarrow> oscillator_id \<Rightarrow> oscillator" where
  "osc_at f i \<equiv> f_oscs f ! i"

definition upd_dom :: "domain_id \<Rightarrow> (clock_domain \<Rightarrow> clock_domain) \<Rightarrow> clock_forest \<Rightarrow> clock_forest" where
  "upd_dom i g f = f\<lparr>f_domains := (f_domains f)[i := g (dom_at f i)]\<rparr>"

definition upd_osc :: "oscillator_id \<Rightarrow> (oscillator \<Rightarrow> oscillator) \<Rightarrow> clock_forest \<Rightarrow> clock_forest" where
  "upd_osc i g f = f\<lparr>f_oscs := (f_oscs f)[i := g (osc_at f i)]\<rparr>"

definition osc :: "clock_forest \<Rightarrow> oscillator_id \<Rightarrow> clock_error + oscillator" where
  "osc f i = ok_or (nth_opt (f_oscs f) i) (UnknownOscillator i)"

definition domain :: "clock_forest \<Rightarrow> domain_id \<Rightarrow> clock_error + clock_domain" where
  "domain f i = ok_or (nth_opt (f_domains f) i) (UnknownDomain i)"

definition check_domain :: "clock_forest \<Rightarrow> domain_id \<Rightarrow> clock_error + unit" where
  "check_domain f i = (if length (f_domains f) \<le> i then Inl (UnknownDomain i) else Inr ())"

definition oscillators :: "clock_forest \<Rightarrow> oscillator_id list" where
  "oscillators f = [0..<length (f_oscs f)]"

definition domains :: "clock_forest \<Rightarrow> domain_id list" where
  "domains f = [0..<length (f_domains f)]"

subsection \<open>Walking the trees\<close>

text \<open>
  \<open>subtree\<close>: the breadth-first loop over a growing list. A list without
  repetitions that names only domains of the forest is no longer than the forest,
  so as many rounds as there are domains reach the loop's own exit.
\<close>

fun subtree_loop :: "nat \<Rightarrow> clock_domain list \<Rightarrow> domain_id list \<Rightarrow> nat \<Rightarrow> domain_id list" where
  "subtree_loop fuel ds out i =
     (if i < length out then
        case fuel of
          0 \<Rightarrow> out
        | Suc fuel \<Rightarrow> subtree_loop fuel ds (out @ d_children (ds ! (out ! i))) (i + 1)
      else out)"

declare subtree_loop.simps [simp del]

definition subtree :: "clock_forest \<Rightarrow> domain_id \<Rightarrow> domain_id list" where
  "subtree f i = subtree_loop (length (f_domains f)) (f_domains f) [i] 0"

fun ancestor_loop :: "nat \<Rightarrow> clock_domain list \<Rightarrow> domain_id \<Rightarrow> domain_id option \<Rightarrow> bool" where
  "ancestor_loop fuel ds a None = False"
| "ancestor_loop fuel ds a (Some c) =
     (if c = a then True
      else case fuel of 0 \<Rightarrow> False | Suc fuel \<Rightarrow> ancestor_loop fuel ds a (d_parent (ds ! c)))"

definition is_ancestor :: "clock_forest \<Rightarrow> domain_id \<Rightarrow> domain_id \<Rightarrow> bool" where
  "is_ancestor f maybe_ancestor i = ancestor_loop (length (f_domains f)) (f_domains f) maybe_ancestor (Some i)"

definition rebase :: "nat \<Rightarrow> clock_domain \<Rightarrow> clock_domain" where
  "rebase units d =
     (let here = domain_position d units in d\<lparr>d_base_ticks := ticks_at d here, d_base_unit := here\<rparr>)"

definition rebase_subtree :: "clock_forest \<Rightarrow> domain_id \<Rightarrow> clock_forest" where
  "rebase_subtree f i =
     (let units = o_units (osc_at f (d_root (dom_at f i)))
      in foldl (\<lambda>f m. upd_dom m (rebase units) f) f (subtree f i))"

subsection \<open>Recomputing a tree\<close>

fun traverse :: "('a \<Rightarrow> 'e + 'b) \<Rightarrow> 'a list \<Rightarrow> 'e + 'b list" where
  "traverse g [] = Inr []"
| "traverse g (x # xs) = rbind (g x) (\<lambda>y. rbind (traverse g xs) (\<lambda>ys. Inr (y # ys)))"

fun index_of :: "'a \<Rightarrow> 'a list \<Rightarrow> nat option" where
  "index_of x [] = None"
| "index_of x (y # ys) = (if y = x then Some 0 else map_option Suc (index_of x ys))"

text \<open>The ratio of each domain to the root; the parent's is found by its place in the order.\<close>

fun tree_ratios :: "clock_domain list \<Rightarrow> string list \<Rightarrow> domain_id list \<Rightarrow> rate list \<Rightarrow> domain_id list \<Rightarrow> rate list clock_result" where
  "tree_ratios ds names order ratios [] = Inr ratios"
| "tree_ratios ds names order ratios (i # ids) =
     rbind (case d_parent (ds ! i) of
              None \<Rightarrow> Inr rate_one
            | Some p \<Rightarrow>
                (case index_of p order of
                   None \<Rightarrow> Inl (Panicked ''BFS order lists a parent before its children'')
                 | Some k \<Rightarrow>
                     (case nth_opt ratios k of
                        None \<Rightarrow> Inl (Panicked ''index out of bounds'')
                      | Some r \<Rightarrow>
                          ok_or (rate_scale r (d_mul (ds ! i)) (d_div (ds ! i))) (Refused (LcmUnavailable names)))))
       (\<lambda>r. tree_ratios ds names order (ratios @ [r]) ids)"

fun tree_unit :: "string list \<Rightarrow> nat \<Rightarrow> rate list \<Rightarrow> nat clock_result" where
  "tree_unit names a [] = Inr a"
| "tree_unit names a (r # rs) =
     rbind (ok_or (checked_lcm a (r_num r)) (Refused (LcmUnavailable names))) (\<lambda>a. tree_unit names a rs)"

definition tree_tick :: "string list \<Rightarrow> nat \<Rightarrow> rate \<Rightarrow> nat clock_result" where
  "tree_tick names a r = ok_or (checked_u64 (a div r_num r * r_den r)) (Refused (LcmUnavailable names))"

definition rescale :: "string list \<Rightarrow> nat \<Rightarrow> nat \<Rightarrow> nat clock_result" where
  "rescale names fa v = ok_or (checked_u64 (v * fa)) (Refused (Overflow ''unit position rescale'' names))"

definition rescale_domain :: "clock_domain list \<Rightarrow> string list \<Rightarrow> nat \<Rightarrow> domain_id \<Rightarrow> (nat \<times> nat) clock_result" where
  "rescale_domain ds names fa i =
     rbind (rescale names fa (d_base_unit (ds ! i))) (\<lambda>b.
     rbind (rescale names fa (d_own (ds ! i))) (\<lambda>w. Inr (b, w)))"

definition set_derived :: "rate \<Rightarrow> nat \<Rightarrow> nat \<times> nat \<Rightarrow> clock_domain \<Rightarrow> clock_domain" where
  "set_derived r k b d = d\<lparr>d_ratio := r, d_units_per_tick := k, d_base_unit := fst b, d_own := snd b\<rparr>"

definition commit_domains ::
  "clock_domain list \<Rightarrow> (domain_id \<times> rate \<times> nat \<times> nat \<times> nat) list \<Rightarrow> clock_domain list" where
  "commit_domains = foldl (\<lambda>ds (i, r, k, b). ds[i := set_derived r k b (ds ! i)])"

definition commit_osc :: "nat \<Rightarrow> nat \<Rightarrow> rate \<Rightarrow> oscillator \<Rightarrow> oscillator" where
  "commit_osc new_units a unit_rate x =
     recompute_conversion (x\<lparr>o_units := new_units, o_unit_mul := a, o_unit_rate := unit_rate,
       o_base_units := new_units, o_base_time := o_time x, o_residual := 0\<rparr>)"

definition recompute_tree :: "clock_forest \<Rightarrow> oscillator_id \<Rightarrow> clock_forest clock_result" where
  "recompute_tree f i =
     (let x = osc_at f i;
          ds = f_domains f;
          order = subtree f (o_root x);
          names = map (\<lambda>d. d_name (ds ! d)) order
      in rbind (tree_ratios ds names order [] order) (\<lambda>ratios.
         rbind (tree_unit names (o_unit_mul x) ratios) (\<lambda>a.
         rbind (traverse (tree_tick names a) ratios) (\<lambda>ks.
           let fa = a div o_unit_mul x in
         rbind (rescale names fa (o_units x)) (\<lambda>new_units.
         rbind (traverse (rescale_domain ds names fa) order) (\<lambda>new_bases.
         rbind (ok_or (rate_mul (o_freq x) (rate_integer a)) (Refused (LcmUnavailable names))) (\<lambda>unit_rate.
           Inr (upd_osc i (commit_osc new_units a unit_rate)
                 (f\<lparr>f_domains := commit_domains ds (zip order (zip ratios (zip ks new_bases)))\<rparr>)))))))))"

text \<open>
  A change that fails puts the cloned forest back, \<open>*self = backup\<close>; a panic
  leaves the caller nothing to look at.
\<close>

definition or_restore :: "clock_forest \<Rightarrow> clock_forest clock_result \<Rightarrow> 'a \<Rightarrow> clock_forest \<times> 'a clock_result" where
  "or_restore backup r v = (case r of Inl e \<Rightarrow> (backup, Inl e) | Inr f \<Rightarrow> (f, Inr v))"

section \<open>Construction\<close>

definition add_oscillator :: "clock_forest \<Rightarrow> string \<Rightarrow> rate \<Rightarrow> clock_forest \<times> domain_id clock_result" where
  "add_oscillator f name freq =
     (if rate_is_zero freq then (f, Inl (Refused (ZeroRate name)))
      else
        let oi = length (f_oscs f) mod 2 ^ 32; root = length (f_domains f) mod 2 ^ 32 in
        (\<lparr>f_domains = f_domains f @
            [\<lparr>d_name = name, d_parent = None, d_mul = 1, d_div = 1, d_children = [], d_root = oi,
              d_ratio = rate_one, d_units_per_tick = 1, d_base_unit = 0, d_base_ticks = 0,
              d_gated = False, d_own = 0\<rparr>],
          f_oscs = f_oscs f @
            [recompute_conversion
               \<lparr>o_name = name, o_freq = freq, o_root = root, o_unit_mul = 1, o_unit_rate = freq,
                o_units = 0, o_base_units = 0, o_base_time = 0, o_step = 0, o_rem = 0, o_time = 0,
                o_residual = 0, o_active = True\<rparr>]\<rparr>,
         Inr root))"

definition add_domain :: "clock_forest \<Rightarrow> string \<Rightarrow> domain_id \<Rightarrow> nat \<Rightarrow> nat \<Rightarrow> clock_forest \<times> domain_id clock_result" where
  "add_domain f name parent mul dv =
     (case check_domain f parent of
        Inl e \<Rightarrow> (f, Inl (Refused e))
      | Inr _ \<Rightarrow>
          if mul = 0 \<or> dv = 0 then (f, Inl (Refused (ZeroRate name)))
          else
            let oi = d_root (dom_at f parent);
                i = length (f_domains f) mod 2 ^ 32;
                units_now = o_units (osc_at f oi);
                f1 = f\<lparr>f_domains := f_domains f @
                   [\<lparr>d_name = name, d_parent = Some parent, d_mul = mul, d_div = dv, d_children = [], d_root = oi,
                     d_ratio = rate_one, d_units_per_tick = 1, d_base_unit = units_now, d_base_ticks = 0,
                     d_gated = False, d_own = 0\<rparr>]\<rparr>;
                f2 = upd_dom parent (\<lambda>d. d\<lparr>d_children := d_children d @ [i]\<rparr>) f1
            in or_restore f (recompute_tree f2 oi) i)"

section \<open>Inspection\<close>

definition is_active :: "clock_forest \<Rightarrow> oscillator_id \<Rightarrow> clock_error + bool" where
  "is_active f i = rbind (osc f i) (\<lambda>x. Inr (o_active x))"

definition frequency :: "clock_forest \<Rightarrow> oscillator_id \<Rightarrow> clock_error + rate" where
  "frequency f i = rbind (osc f i) (\<lambda>x. Inr (o_freq x))"

definition domain_frequency :: "clock_forest \<Rightarrow> domain_id \<Rightarrow> clock_error + rate" where
  "domain_frequency f i =
     rbind (domain f i) (\<lambda>d.
       ok_or (rate_mul (o_freq (osc_at f (d_root d))) (d_ratio d)) (Overflow ''domain frequency'' [d_name d]))"

definition root_of :: "clock_forest \<Rightarrow> domain_id \<Rightarrow> clock_error + oscillator_id" where
  "root_of f i = rbind (domain f i) (\<lambda>d. Inr (d_root d))"

definition is_gated :: "clock_forest \<Rightarrow> domain_id \<Rightarrow> clock_error + bool" where
  "is_gated f i = rbind (domain f i) (\<lambda>d. Inr (d_gated d))"

definition ticks :: "clock_forest \<Rightarrow> domain_id \<Rightarrow> clock_error + nat" where
  "ticks f i = rbind (domain f i) (\<lambda>d. Inr (ticks_at d (domain_position d (o_units (osc_at f (d_root d))))))"

definition position :: "clock_forest \<Rightarrow> domain_id \<Rightarrow> clock_error + nat" where
  "position f i = rbind (domain f i) (\<lambda>d. Inr (domain_position d (o_units (osc_at f (d_root d)))))"

definition lead :: "clock_forest \<Rightarrow> domain_id \<Rightarrow> clock_error + nat" where
  "lead f i = rbind (domain f i) (\<lambda>d.
     let tree = o_units (osc_at f (d_root d)) in Inr (domain_position d tree - tree))"

definition ticks_at_units :: "clock_forest \<Rightarrow> domain_id \<Rightarrow> nat \<Rightarrow> clock_error + nat" where
  "ticks_at_units f i units = rbind (domain f i) (\<lambda>d.
     let tree = o_units (osc_at f (d_root d)) in Inr (ticks_at d (domain_position d (max units tree))))"

definition tick_line :: "clock_forest \<Rightarrow> domain_id \<Rightarrow> nat \<Rightarrow> clock_error + nat \<times> nat \<times> nat" where
  "tick_line f i units = rbind (domain f i) (\<lambda>d.
     let tree = o_units (osc_at f (d_root d)); here = domain_position d (max units tree) in
     if d_gated d \<or> here \<noteq> units then Inr (ticks_at d here, 0, 0)
     else
       let from = here - d_base_unit d in
       Inr (wrapping_add64 (d_base_ticks d) (from div d_units_per_tick d), from mod d_units_per_tick d, d_units_per_tick d))"

definition unit_position :: "clock_forest \<Rightarrow> oscillator_id \<Rightarrow> clock_error + nat" where
  "unit_position f i = rbind (osc f i) (\<lambda>x. Inr (o_units x))"

definition unit_rate :: "clock_forest \<Rightarrow> oscillator_id \<Rightarrow> clock_error + rate" where
  "unit_rate f i = rbind (osc f i) (\<lambda>x. Inr (o_unit_rate x))"

definition convert_ticks :: "clock_forest \<Rightarrow> domain_id \<Rightarrow> domain_id \<Rightarrow> nat \<Rightarrow> clock_error + nat" where
  "convert_ticks f from to n =
     rbind (domain f from) (\<lambda>a.
     rbind (domain f to) (\<lambda>b.
       if d_root a \<noteq> d_root b then Inl (CrossTree from to)
       else rbind (ok_or (checked_u64 (n * d_units_per_tick a)) (Overflow ''tick conversion'' [d_name a, d_name b]))
         (\<lambda>units. Inr (units div d_units_per_tick b))))"

section \<open>Advancing\<close>

definition advance_units :: "clock_forest \<Rightarrow> oscillator_id \<Rightarrow> nat \<Rightarrow> clock_forest \<times> unit clock_result" where
  "advance_units f i units =
     (if length (f_oscs f) \<le> i then (f, Inl (Refused (UnknownOscillator i)))
      else
        let x = osc_at f i in
        case checked_u64 (o_units x + units) of
          None \<Rightarrow> (f, Inl (Refused (osc_overflow x ''unit position'')))
        | Some new_units \<Rightarrow>
            (case accumulate x units of
               Inl e \<Rightarrow> (f, Inl (Refused e))
             | Inr x \<Rightarrow> (upd_osc i (\<lambda>_. x\<lparr>o_units := new_units\<rparr>) f, Inr ())))"

definition advance_domain :: "clock_forest \<Rightarrow> domain_id \<Rightarrow> nat \<Rightarrow> clock_forest \<times> unit clock_result" where
  "advance_domain f i n =
     (case domain f i of
        Inl e \<Rightarrow> (f, Inl (Refused e))
      | Inr d \<Rightarrow>
          if d_gated d then (f, Inl (Refused (Gated (d_name d))))
          else case checked_u64 (n * d_units_per_tick d) of
            None \<Rightarrow> (f, Inl (Refused (Overflow ''unit position'' [d_name d])))
          | Some delta \<Rightarrow> advance_units f (d_root d) delta)"

definition advance_alone :: "clock_forest \<Rightarrow> domain_id \<Rightarrow> nat \<Rightarrow> clock_forest \<times> unit clock_result" where
  "advance_alone f i n =
     (case domain f i of
        Inl e \<Rightarrow> (f, Inl (Refused e))
      | Inr d \<Rightarrow>
          if d_gated d then (f, Inl (Refused (Gated (d_name d))))
          else
            let here = domain_position d (o_units (osc_at f (d_root d))) in
            case Option.bind (checked_u64 (n * d_units_per_tick d)) (\<lambda>delta. checked_u64 (here + delta)) of
              None \<Rightarrow> (f, Inl (Refused (Overflow ''unit position'' [d_name d])))
            | Some own \<Rightarrow> (upd_dom i (\<lambda>d. d\<lparr>d_own := own\<rparr>) f, Inr ()))"

definition advance_tree_to :: "clock_forest \<Rightarrow> oscillator_id \<Rightarrow> nat \<Rightarrow> clock_forest \<times> unit clock_result" where
  "advance_tree_to f i units =
     (case osc f i of
        Inl e \<Rightarrow> (f, Inl (Refused e))
      | Inr x \<Rightarrow> if o_units x < units then advance_units f i (units - o_units x) else (f, Inr ()))"

definition global_time :: "clock_forest \<Rightarrow> oscillator_id \<Rightarrow> clock_error + gtime" where
  "global_time f i = rbind (osc f i) (\<lambda>x. Inr (o_time x))"

definition global_time_of_units :: "clock_forest \<Rightarrow> oscillator_id \<Rightarrow> nat \<Rightarrow> clock_error + gtime" where
  "global_time_of_units f i units = rbind (osc f i) (\<lambda>x. time_for_units x units)"

definition global_time_of_tick :: "clock_forest \<Rightarrow> domain_id \<Rightarrow> nat \<Rightarrow> clock_error + gtime" where
  "global_time_of_tick f i tick =
     rbind (domain f i) (\<lambda>d.
       let x = osc_at f (d_root d) in
       if tick \<le> d_base_ticks d then time_for_units x (d_base_unit d)
       else rbind (ok_or (Option.bind (checked_u64 ((tick - d_base_ticks d) * d_units_per_tick d))
                            (\<lambda>u. checked_u64 (u + d_base_unit d)))
                    (Overflow ''unit position'' [d_name d]))
              (\<lambda>units. time_for_units x units))"

definition units_at_global :: "clock_forest \<Rightarrow> oscillator_id \<Rightarrow> gtime \<Rightarrow> clock_error + nat" where
  "units_at_global f i t = rbind (osc f i) (\<lambda>x. units_at x t)"

definition advance_to_global :: "clock_forest \<Rightarrow> oscillator_id \<Rightarrow> gtime \<Rightarrow> clock_forest \<times> nat clock_result" where
  "advance_to_global f i t =
     (case units_at_global f i t of
        Inl e \<Rightarrow> (f, Inl (Refused e))
      | Inr target \<Rightarrow>
          let cur = o_units (osc_at f i) in
          if target \<le> cur then (f, Inr 0)
          else case advance_units f i (target - cur) of
            (f', Inl e) \<Rightarrow> (f', Inl e)
          | (f', Inr _) \<Rightarrow> (f', Inr (target - cur)))"

section \<open>Runtime changes\<close>

record rate_request =
  q_domain :: domain_id
  q_mul :: nat
  q_div :: nat

definition not_applicable :: "string \<Rightarrow> clock_error" where
  "not_applicable name = NotApplicable (''`'' @ name @ ''` is an oscillator root; set its frequency instead'')"

fun check_requests :: "clock_forest \<Rightarrow> rate_request list \<Rightarrow> clock_error + unit" where
  "check_requests f [] = Inr ()"
| "check_requests f (r # rs) =
     rbind (check_domain f (q_domain r)) (\<lambda>_.
       let d = dom_at f (q_domain r) in
       if d_parent d = None then Inl (not_applicable (d_name d))
       else if q_mul r = 0 \<or> q_div r = 0 then Inl (ZeroRate (d_name d))
       else check_requests f rs)"

definition assign_rating :: "clock_forest \<times> oscillator_id list \<Rightarrow> rate_request \<Rightarrow> clock_forest \<times> oscillator_id list" where
  "assign_rating st r =
     (let (f, trees) = st;
          f = upd_dom (q_domain r) (\<lambda>d. d\<lparr>d_mul := q_mul r, d_div := q_div r\<rparr>) f;
          oi = d_root (dom_at f (q_domain r))
      in (f, if oi \<in> set trees then trees else trees @ [oi]))"

fun recompute_trees :: "clock_forest \<Rightarrow> oscillator_id list \<Rightarrow> clock_forest clock_result" where
  "recompute_trees f [] = Inr f"
| "recompute_trees f (i # is) = rbind (recompute_tree f i) (\<lambda>f. recompute_trees f is)"

definition set_ratings :: "clock_forest \<Rightarrow> rate_request list \<Rightarrow> clock_forest \<times> unit clock_result" where
  "set_ratings f changes =
     (if changes = [] then (f, Inr ())
      else case check_requests f changes of
        Inl e \<Rightarrow> (f, Inl (Refused e))
      | Inr _ \<Rightarrow>
          let f1 = foldl (\<lambda>f r. rebase_subtree f (q_domain r)) f changes;
              (f2, trees) = foldl assign_rating (f1, []) changes
          in or_restore f (recompute_trees f2 trees) ())"

definition set_rating :: "clock_forest \<Rightarrow> domain_id \<Rightarrow> nat \<Rightarrow> nat \<Rightarrow> clock_forest \<times> unit clock_result" where
  "set_rating f i mul dv =
     (case check_domain f i of
        Inl e \<Rightarrow> (f, Inl (Refused e))
      | Inr _ \<Rightarrow>
          let d = dom_at f i in
          if d_parent d = None then (f, Inl (Refused (not_applicable (d_name d))))
          else if mul = 0 \<or> dv = 0 then (f, Inl (Refused (ZeroRate (d_name d))))
          else set_ratings f [\<lparr>q_domain = i, q_mul = mul, q_div = dv\<rparr>])"

definition set_frequency :: "clock_forest \<Rightarrow> oscillator_id \<Rightarrow> rate \<Rightarrow> clock_forest \<times> unit clock_result" where
  "set_frequency f i freq =
     (if length (f_oscs f) \<le> i then (f, Inl (Refused (UnknownOscillator i)))
      else if rate_is_zero freq then (f, Inl (Refused (ZeroRate (o_name (osc_at f i)))))
      else or_restore f (recompute_tree (upd_osc i (\<lambda>x. x\<lparr>o_freq := freq\<rparr>) f) i) ())"

definition move_domain :: "nat \<Rightarrow> oscillator_id \<Rightarrow> clock_domain \<Rightarrow> clock_domain" where
  "move_domain dest_units new_osc d = d\<lparr>d_root := new_osc, d_base_unit := dest_units, d_own := 0\<rparr>"

text \<open>\<open>reparent\<close> up to the recomputation: detach, attach, move across trees.\<close>

definition relink :: "clock_forest \<Rightarrow> domain_id \<Rightarrow> domain_id \<Rightarrow> nat \<Rightarrow> nat \<Rightarrow> clock_forest" where
  "relink f i new_parent mul dv =
     (let old_osc = d_root (dom_at f i);
          new_osc = d_root (dom_at f new_parent);
          f1 = rebase_subtree f i;
          f2 = (case d_parent (dom_at f1 i) of
                  Some p \<Rightarrow> upd_dom p (\<lambda>d. d\<lparr>d_children := filter (\<lambda>c. c \<noteq> i) (d_children d)\<rparr>) f1
                | None \<Rightarrow> upd_osc old_osc (\<lambda>x. x\<lparr>o_active := False\<rparr>) f1);
          f3 = upd_dom i (\<lambda>d. d\<lparr>d_parent := Some new_parent, d_mul := mul, d_div := dv\<rparr>) f2;
          f4 = upd_dom new_parent (\<lambda>d. d\<lparr>d_children := d_children d @ [i]\<rparr>) f3
      in if old_osc \<noteq> new_osc
         then foldl (\<lambda>f m. upd_dom m (move_domain (o_units (osc_at f4 new_osc)) new_osc) f) f4 (subtree f4 i)
         else f4)"

definition reparent :: "clock_forest \<Rightarrow> domain_id \<Rightarrow> domain_id \<Rightarrow> nat \<Rightarrow> nat \<Rightarrow> clock_forest \<times> unit clock_result" where
  "reparent f i new_parent mul dv =
     (case rbind (check_domain f i) (\<lambda>_. check_domain f new_parent) of
        Inl e \<Rightarrow> (f, Inl (Refused e))
      | Inr _ \<Rightarrow>
          if mul = 0 \<or> dv = 0 then (f, Inl (Refused (ZeroRate (d_name (dom_at f i)))))
          else if i = new_parent \<or> is_ancestor f i new_parent then (f, Inl (Refused (Cycle (d_name (dom_at f i)))))
          else
            let old_osc = d_root (dom_at f i);
                new_osc = d_root (dom_at f new_parent);
                g = relink f i new_parent mul dv;
                old_root = o_root (osc_at g old_osc);
                survives = (old_osc \<noteq> new_osc \<and> d_root (dom_at g old_root) = old_osc)
            in or_restore f (rbind (recompute_tree g new_osc)
                 (\<lambda>g. if survives then recompute_tree g old_osc else Inr g)) ())"

definition lock_oscillator :: "clock_forest \<Rightarrow> oscillator_id \<Rightarrow> domain_id \<Rightarrow> nat \<Rightarrow> nat \<Rightarrow> clock_forest \<times> unit clock_result" where
  "lock_oscillator f i parent mul dv =
     (case osc f i of
        Inl e \<Rightarrow> (f, Inl (Refused e))
      | Inr x \<Rightarrow> reparent f (o_root x) parent mul dv)"

definition set_gated :: "clock_forest \<Rightarrow> domain_id \<Rightarrow> bool \<Rightarrow> clock_forest \<times> unit clock_result" where
  "set_gated f i gated =
     (case check_domain f i of
        Inl e \<Rightarrow> (f, Inl (Refused e))
      | Inr _ \<Rightarrow>
          let units = o_units (osc_at f (d_root (dom_at f i))) in
          if d_gated (dom_at f i) = gated then (f, Inr ())
          else (upd_dom i (\<lambda>d. d\<lparr>d_base_ticks := ticks_at d (domain_position d units),
                  d_base_unit := units, d_own := 0, d_gated := gated\<rparr>) f, Inr ()))"

section \<open>Restoring from a snapshot\<close>

definition restore_unit_position :: "clock_forest \<Rightarrow> oscillator_id \<Rightarrow> nat \<Rightarrow> clock_forest \<times> unit clock_result" where
  "restore_unit_position f i units =
     (if length (f_oscs f) \<le> i then (f, Inl (Refused (UnknownOscillator i)))
      else
        let f1 = f\<lparr>f_domains := map (\<lambda>d. if d_root d = i then d\<lparr>d_own := 0\<rparr> else d) (f_domains f)\<rparr>;
            x = (osc_at f i)\<lparr>o_base_units := 0, o_base_time := 0, o_units := units\<rparr>
        in case time_for_units x units of
             Inl e \<Rightarrow> (upd_osc i (\<lambda>_. x) f1, Inl (Refused e))
           | Inr t \<Rightarrow>
               (case checked_u128 (units * o_rem x) of
                  None \<Rightarrow> (upd_osc i (\<lambda>_. x\<lparr>o_time := t\<rparr>) f1, Inl (Refused (osc_overflow x ''global timeline'')))
                | Some r \<Rightarrow> (upd_osc i (\<lambda>_. x\<lparr>o_time := t, o_residual := r mod r_num (o_unit_rate x)\<rparr>) f1, Inr ())))"

definition restore_ticks :: "clock_forest \<Rightarrow> domain_id \<Rightarrow> nat \<Rightarrow> clock_forest \<times> unit clock_result" where
  "restore_ticks f i n =
     (case check_domain f i of
        Inl e \<Rightarrow> (f, Inl (Refused e))
      | Inr _ \<Rightarrow>
          let units = o_units (osc_at f (d_root (dom_at f i))) in
          (upd_dom i (\<lambda>d. d\<lparr>d_base_ticks := n, d_base_unit := units - units mod d_units_per_tick d, d_own := 0\<rparr>) f, Inr ()))"

definition restore_lead :: "clock_forest \<Rightarrow> domain_id \<Rightarrow> nat \<Rightarrow> clock_forest \<times> unit clock_result" where
  "restore_lead f i ld =
     (case check_domain f i of
        Inl e \<Rightarrow> (f, Inl (Refused e))
      | Inr _ \<Rightarrow>
          let units = o_units (osc_at f (d_root (dom_at f i))) in
          case checked_u64 (units + ld) of
            None \<Rightarrow> (f, Inl (Refused (Overflow ''unit position'' [d_name (dom_at f i)])))
          | Some own \<Rightarrow>
              (upd_dom i (\<lambda>d. d\<lparr>d_base_unit := own - own mod d_units_per_tick d, d_own := own\<rparr>) f, Inr ()))"

end
