(* ===== verification/Clock_Tree.thy ===== *)
theory Clock_Tree
  imports Clock_Forest
begin

text \<open>
  The shape of the clock forest: parents and children agree and no domain is its
  own ancestor. Under this invariant the breadth-first walk of a subtree ends,
  lists every domain below its start exactly once and lists a parent before its
  children; the rates computed along it are the products of the ratings on the
  path to the root.
\<close>

section \<open>Parents and children\<close>

definition child_of :: "clock_domain list \<Rightarrow> (domain_id \<times> domain_id) set" where
  "child_of ds = {(p, c). c < length ds \<and> d_parent (ds ! c) = Some p}"

definition tree_wf :: "clock_domain list \<Rightarrow> bool" where
  "tree_wf ds \<longleftrightarrow>
     (\<forall>p c. (p, c) \<in> child_of ds \<longrightarrow> p < length ds)
   \<and> (\<forall>i<length ds. distinct (d_children (ds ! i)) \<and> (\<forall>c. c \<in> set (d_children (ds ! i)) \<longleftrightarrow> (i, c) \<in> child_of ds))
   \<and> (\<exists>rank :: nat \<Rightarrow> nat. \<forall>p c. (p, c) \<in> child_of ds \<longrightarrow> rank p < rank c)"

definition below :: "clock_domain list \<Rightarrow> domain_id \<Rightarrow> domain_id set" where
  "below ds i = {j. (i, j) \<in> (child_of ds)\<^sup>*}"

lemma below_refl [simp, intro]: "i \<in> below ds i"
  by (simp add: below_def)

lemma below_child: "j \<in> below ds i \<Longrightarrow> (j, k) \<in> child_of ds \<Longrightarrow> k \<in> below ds i"
  by (simp add: below_def)

lemma below_trans: "j \<in> below ds i \<Longrightarrow> k \<in> below ds j \<Longrightarrow> k \<in> below ds i"
  by (simp add: below_def)

lemma below_cases: "j \<in> below ds i \<Longrightarrow> j = i \<or> (\<exists>p. p \<in> below ds i \<and> (p, j) \<in> child_of ds)"
  unfolding below_def by (auto elim: rtranclE)

lemma child_of_unique: "(p, c) \<in> child_of ds \<Longrightarrow> (q, c) \<in> child_of ds \<Longrightarrow> p = q"
  by (simp add: child_of_def)

lemma below_lt: "i < length ds \<Longrightarrow> j \<in> below ds i \<Longrightarrow> j < length ds"
  using below_cases [of j ds i] by (auto simp: child_of_def)

lemma tree_wf_parent: "tree_wf ds \<Longrightarrow> (p, c) \<in> child_of ds \<Longrightarrow> p < length ds"
  unfolding tree_wf_def by blast

lemma tree_wf_children:
  assumes "tree_wf ds" "i < length ds"
  shows "distinct (d_children (ds ! i))" "c \<in> set (d_children (ds ! i)) \<longleftrightarrow> (i, c) \<in> child_of ds"
  using assms by (auto simp: tree_wf_def)

lemma tree_wf_rank:
  assumes "tree_wf ds"
  obtains rank :: "nat \<Rightarrow> nat" where "\<And>p c. (p, c) \<in> child_of ds \<Longrightarrow> rank p < rank c"
    "\<And>i j. j \<in> below ds i \<Longrightarrow> rank i \<le> rank j"
proof -
  obtain rank :: "nat \<Rightarrow> nat" where r: "\<And>p c. (p, c) \<in> child_of ds \<Longrightarrow> rank p < rank c"
    using assms unfolding tree_wf_def by blast
  moreover have "rank i \<le> rank j" if "j \<in> below ds i" for i j
    using that unfolding below_def mem_Collect_eq by induction (auto dest: r)
  ultimately show ?thesis using that by blast
qed

lemma not_own_child: "tree_wf ds \<Longrightarrow> j \<in> below ds i \<Longrightarrow> (j, i) \<notin> child_of ds"
  by (metis tree_wf_rank leD)

text \<open>Only the links matter: data that agrees on them has the same shape.\<close>

definition same_links :: "clock_domain list \<Rightarrow> clock_domain list \<Rightarrow> bool" where
  "same_links ds ds' \<longleftrightarrow> length ds = length ds' \<and>
     (\<forall>i<length ds. d_parent (ds' ! i) = d_parent (ds ! i) \<and> d_children (ds' ! i) = d_children (ds ! i))"

lemma same_links_shape:
  assumes "same_links ds ds'"
  shows "child_of ds' = child_of ds" "below ds' = below ds" "tree_wf ds' \<longleftrightarrow> tree_wf ds"
proof -
  show c: "child_of ds' = child_of ds" using assms by (auto simp: child_of_def same_links_def)
  then show "below ds' = below ds" by (simp add: below_def fun_eq_iff)
  show "tree_wf ds' \<longleftrightarrow> tree_wf ds" using assms by (simp add: tree_wf_def c same_links_def)
qed

section \<open>The breadth-first walk\<close>

definition bfs_inv :: "clock_domain list \<Rightarrow> domain_id \<Rightarrow> domain_id list \<Rightarrow> nat \<Rightarrow> bool" where
  "bfs_inv ds i out k \<longleftrightarrow> k \<le> length out \<and> out \<noteq> [] \<and> hd out = i \<and> distinct out \<and> set out \<subseteq> below ds i
     \<and> (\<forall>q<k. set (d_children (ds ! (out ! q))) \<subseteq> set out)
     \<and> (\<forall>q<length out. q = 0 \<or> (\<exists>p<k. p < q \<and> (out ! p, out ! q) \<in> child_of ds))"

lemma bfs_fresh:
  assumes "tree_wf ds" "i < length ds" "bfs_inv ds i out k" "k < length out"
  shows "set (d_children (ds ! (out ! k))) \<inter> set out = {}"
proof -
  have "out ! k \<in> below ds i" using assms(3,4) nth_mem [of k out] unfolding bfs_inv_def by blast
  then have lt: "out ! k < length ds" by (rule below_lt [OF assms(2)])
  have False if c: "(out ! k, out ! q) \<in> child_of ds" "q < length out" for q
  proof (cases "q = 0")
    case True
    then have "out ! q = i" using assms(3) by (auto simp: bfs_inv_def hd_conv_nth)
    then show False using c(1) not_own_child [OF assms(1) \<open>out ! k \<in> below ds i\<close>] by simp
  next
    case False
    then obtain p where "p < k" "(out ! p, out ! q) \<in> child_of ds" using assms(3) c(2) unfolding bfs_inv_def by blast
    then have "out ! p = out ! k" using child_of_unique c(1) by blast
    then show False using \<open>p < k\<close> assms(3,4) by (auto simp: bfs_inv_def nth_eq_iff_index_eq)
  qed
  then show ?thesis using tree_wf_children(2) [OF assms(1) lt] by (auto simp: in_set_conv_nth)
qed

lemma bfs_step:
  assumes "tree_wf ds" "i < length ds" "bfs_inv ds i out k" "k < length out"
  shows "bfs_inv ds i (out @ d_children (ds ! (out ! k))) (Suc k)"
proof -
  let ?cs = "d_children (ds ! (out ! k))"
  have k: "out ! k \<in> below ds i" using assms(3,4) nth_mem [of k out] unfolding bfs_inv_def by blast
  note ch = tree_wf_children [OF assms(1) below_lt [OF assms(2) k]]
  have n: "(out ! k, ?cs ! q) \<in> child_of ds" if "q < length ?cs" for q using that ch(2) nth_mem by blast
  have "q = 0 \<or> (\<exists>p<Suc k. p < q \<and> ((out @ ?cs) ! p, (out @ ?cs) ! q) \<in> child_of ds)"
    if q: "q < length (out @ ?cs)" for q
  proof (cases "q < length out")
    case True
    then have "q = 0 \<or> (\<exists>p<k. p < q \<and> (out ! p, out ! q) \<in> child_of ds)" using assms(3) unfolding bfs_inv_def by blast
    then show ?thesis using True assms(4) by (fastforce simp: nth_append)
  next
    case False
    then have "(out ! k, (out @ ?cs) ! q) \<in> child_of ds" using q n by (simp add: nth_append)
    then show ?thesis using assms(4) False by (auto simp: nth_append intro!: exI [of _ k])
  qed
  moreover have "set ?cs \<subseteq> below ds i" using below_child [OF k] ch(2) by blast
  ultimately show ?thesis
    using assms(3,4) bfs_fresh [OF assms] ch(1) unfolding bfs_inv_def
    by (auto simp: nth_append less_Suc_eq)
qed

lemma bfs_length:
  assumes "i < length ds" "bfs_inv ds i out k"
  shows "length out \<le> length ds"
proof -
  have "set out \<subseteq> {..<length ds}" using assms below_lt unfolding bfs_inv_def by blast
  then have "card (set out) \<le> length ds" by (metis card_lessThan card_mono finite_lessThan)
  then show ?thesis using assms(2) by (simp add: bfs_inv_def distinct_card)
qed

lemma subtree_loop_inv:
  assumes "tree_wf ds" "i < length ds" "bfs_inv ds i out k" "length ds \<le> fuel + k"
  shows "bfs_inv ds i (subtree_loop fuel ds out k) (length (subtree_loop fuel ds out k))"
  using assms(3,4)
proof (induction fuel arbitrary: out k)
  case 0
  then have "k = length out" using bfs_length [OF assms(2) 0(1)] by (simp add: bfs_inv_def)
  then show ?case using 0 by (simp add: subtree_loop.simps)
next
  case (Suc fuel)
  show ?case
  proof (cases "k < length out")
    case True
    from Suc.IH [OF bfs_step [OF assms(1,2) Suc.prems(1) True]] Suc.prems(2) True show ?thesis
      by (simp add: subtree_loop.simps [of "Suc fuel"])
  next
    case False
    then have "k = length out" using Suc.prems(1) by (simp add: bfs_inv_def)
    then show ?thesis using Suc.prems by (simp add: subtree_loop.simps)
  qed
qed

lemma subtree_loop_fuel:
  assumes "tree_wf ds" "i < length ds" "bfs_inv ds i out k" "length ds \<le> fuel + k"
  shows "subtree_loop (fuel + m) ds out k = subtree_loop fuel ds out k"
  using assms(3,4)
proof (induction fuel arbitrary: out k)
  case 0
  then have "k = length out" using bfs_length [OF assms(2) 0(1)] by (simp add: bfs_inv_def)
  then show ?case by (simp add: subtree_loop.simps)
next
  case (Suc fuel)
  show ?case
  proof (cases "k < length out")
    case True
    from Suc.IH [OF bfs_step [OF assms(1,2) Suc.prems(1) True]] Suc.prems(2) True show ?thesis
      by (simp add: subtree_loop.simps [of "Suc (fuel + m)"] subtree_loop.simps [of "Suc fuel"])
  qed (simp add: subtree_loop.simps)
qed

text \<open>
  The walk ends by its own guard, and what it returns is the subtree: each domain
  once, a parent before its children.
\<close>

lemma subtree_correct:
  assumes "tree_wf (f_domains f)" "i < length (f_domains f)"
  shows "distinct (subtree f i)" "set (subtree f i) = below (f_domains f) i" "subtree f i \<noteq> []" "subtree f i ! 0 = i"
    and "0 < q \<Longrightarrow> q < length (subtree f i) \<Longrightarrow> \<exists>p<q. (subtree f i ! p, subtree f i ! q) \<in> child_of (f_domains f)"
proof -
  let ?ds = "f_domains f" and ?out = "subtree f i"
  have "bfs_inv ?ds i [i] 0" by (simp add: bfs_inv_def)
  from subtree_loop_inv [OF assms this] have inv: "bfs_inv ?ds i ?out (length ?out)" by (simp add: subtree_def)
  then show "distinct ?out" "?out \<noteq> []" "?out ! 0 = i" by (auto simp: bfs_inv_def hd_conv_nth)
  have i: "i \<in> set ?out" using inv hd_in_set [of ?out] by (simp add: bfs_inv_def)
  have "j \<in> set ?out" if "(i, j) \<in> (child_of ?ds)\<^sup>*" for j
    using that
  proof (induction rule: rtrancl_induct)
    case (step p c)
    then obtain q where q: "q < length ?out" "?out ! q = p" by (auto simp: in_set_conv_nth)
    have "c \<in> set (d_children (?ds ! p))"
      using step(2) tree_wf_children(2) [OF assms(1) tree_wf_parent [OF assms(1) step(2)]] by blast
    with q inv show ?case unfolding bfs_inv_def by blast
  qed (rule i)
  then show "set ?out = below ?ds i" using inv by (auto simp: bfs_inv_def below_def)
  show "\<exists>p<q. (?out ! p, ?out ! q) \<in> child_of ?ds" if "0 < q" "q < length ?out"
    using that inv unfolding bfs_inv_def by blast
qed

section \<open>Ancestors\<close>

lemma ancestor_loop_below: "ancestor_loop fuel ds a (Some c) \<Longrightarrow> tree_wf ds \<Longrightarrow> c < length ds \<Longrightarrow> c \<in> below ds a"
proof (induction fuel arbitrary: c)
  case (Suc fuel)
  show ?case
  proof (cases "c = a")
    case False
    then have l: "ancestor_loop fuel ds a (d_parent (ds ! c))" using Suc.prems(1) by simp
    then obtain p where p: "d_parent (ds ! c) = Some p" by (cases "d_parent (ds ! c)") auto
    then have pc: "(p, c) \<in> child_of ds" using Suc.prems(3) by (simp add: child_of_def)
    have "p \<in> below ds a" using Suc.IH l p Suc.prems(2) tree_wf_parent [OF Suc.prems(2) pc] by simp
    then show ?thesis using pc by (rule below_child)
  qed simp
qed (simp split: if_splits)

text \<open>The chain of parents is finite: a domain has more ancestors than its parent.\<close>

definition ancestors :: "clock_domain list \<Rightarrow> domain_id \<Rightarrow> domain_id set" where
  "ancestors ds c = {a. c \<in> below ds a}"

lemma above_lt:
  assumes "tree_wf ds" "c < length ds"
  shows "ancestors ds c \<subseteq> {..<length ds}"
proof -
  have "a < length ds" if "(a, c) \<in> (child_of ds)\<^sup>*" for a
    using that assms(2) by (induction rule: converse_rtrancl_induct) (use assms(1) in \<open>auto dest: tree_wf_parent\<close>)
  then show ?thesis by (auto simp: ancestors_def below_def)
qed

lemma above_parent:
  assumes "tree_wf ds" "(p, c) \<in> child_of ds"
  shows "ancestors ds p \<subset> ancestors ds c" "finite (ancestors ds c)"
proof -
  have c: "c < length ds" using assms(2) by (simp add: child_of_def)
  have "ancestors ds p \<subseteq> ancestors ds c" using below_child [OF _ assms(2)] by (auto simp: ancestors_def)
  moreover have "c \<notin> ancestors ds p" using not_own_child [OF assms(1)] assms(2) by (auto simp: ancestors_def)
  ultimately show "ancestors ds p \<subset> ancestors ds c" by (auto simp: ancestors_def)
  show "finite (ancestors ds c)" using above_lt [OF assms(1) c] finite_subset by blast
qed

lemma ancestor_loop_complete:
  assumes "tree_wf ds" "c < length ds" "c \<in> below ds a" "card (ancestors ds c) \<le> Suc fuel"
  shows "ancestor_loop fuel ds a (Some c)"
  using assms(2-)
proof (induction fuel arbitrary: c)
  case (0 c)
  then obtain p where "c = a \<or> p \<in> below ds a \<and> (p, c) \<in> child_of ds" using below_cases by blast
  moreover have "\<not> (p, c) \<in> child_of ds" if "p \<in> below ds a"
  proof
    assume pc: "(p, c) \<in> child_of ds"
    have "p \<in> ancestors ds p" by (simp add: ancestors_def)
    moreover have "finite (ancestors ds p)" using above_parent [OF assms(1) pc] by (auto intro: finite_subset)
    ultimately have "0 < card (ancestors ds p)" by (auto simp: card_gt_0_iff)
    then show False using psubset_card_mono [OF above_parent(2,1) [OF assms(1) pc]] 0(3) by simp
  qed
  ultimately show ?case by auto
next
  case (Suc fuel)
  show ?case
  proof (cases "c = a")
    case False
    then obtain p where p: "p \<in> below ds a" "(p, c) \<in> child_of ds" using below_cases Suc.prems(2) by blast
    have "card (ancestors ds p) \<le> Suc fuel" using psubset_card_mono [OF above_parent(2,1) [OF assms(1) p(2)]] Suc.prems(3) by simp
    from Suc.IH [OF tree_wf_parent [OF assms(1) p(2)] p(1) this] p(2) False show ?thesis by (simp add: child_of_def)
  qed simp
qed

lemma ancestor_fuel:
  assumes "tree_wf ds" "c < length ds" "length ds \<le> fuel"
  shows "ancestor_loop fuel ds a (Some c) \<longleftrightarrow> c \<in> below ds a"
proof -
  have "card (ancestors ds c) \<le> card {..<length ds}" by (intro card_mono above_lt assms) simp
  then have "card (ancestors ds c) \<le> Suc fuel" using assms(3) by simp
  then show ?thesis using ancestor_loop_complete [OF assms(1,2)] ancestor_loop_below [OF _ assms(1,2)] by blast
qed

lemma is_ancestor_iff:
  assumes "tree_wf (f_domains f)" "c < length (f_domains f)"
  shows "is_ancestor f a c \<longleftrightarrow> c \<in> below (f_domains f) a"
  using ancestor_fuel [OF assms le_refl] by (simp add: is_ancestor_def)

section \<open>Rates along the walk\<close>

lemma index_of_Some: "index_of x xs = Some k \<Longrightarrow> k < length xs \<and> xs ! k = x"
  by (induction xs arbitrary: k) (auto split: if_splits)

lemma index_of_nth: "distinct xs \<Longrightarrow> k < length xs \<Longrightarrow> index_of (xs ! k) xs = Some k"
  by (induction xs arbitrary: k) (auto simp: nth_Cons split: nat.splits)

lemma index_of_None: "index_of x xs = None \<longleftrightarrow> x \<notin> set xs"
  by (induction xs) auto

definition ratio_rule :: "clock_domain list \<Rightarrow> domain_id list \<Rightarrow> rate list \<Rightarrow> nat \<Rightarrow> domain_id \<Rightarrow> bool" where
  "ratio_rule ds order ratios q i = (case d_parent (ds ! i) of
        None \<Rightarrow> ratios ! q = rate_one
      | Some p \<Rightarrow> \<exists>k<q. index_of p order = Some k \<and>
          rate_scale (ratios ! k) (d_mul (ds ! i)) (d_div (ds ! i)) = Some (ratios ! q))"

lemma tree_ratios_rule:
  assumes "tree_ratios ds names order rs ids = Inr ratios"
  shows "length ratios = length rs + length ids \<and> take (length rs) ratios = rs
    \<and> (\<forall>q<length ids. ratio_rule ds order ratios (length rs + q) (ids ! q))"
  using assms
proof (induction ids arbitrary: rs)
  case (Cons i ids)
  then obtain r where r: "(case d_parent (ds ! i) of None \<Rightarrow> Inr rate_one | Some p \<Rightarrow>
       (case index_of p order of None \<Rightarrow> Inl (Panicked ''BFS order lists a parent before its children'')
        | Some k \<Rightarrow> (case nth_opt rs k of None \<Rightarrow> Inl (Panicked ''index out of bounds'')
           | Some r \<Rightarrow> ok_or (rate_scale r (d_mul (ds ! i)) (d_div (ds ! i))) (Refused (LcmUnavailable names))))) = Inr r"
    "tree_ratios ds names order (rs @ [r]) ids = Inr ratios"
    by (auto simp: rbind_eq_Inr)
  note IH = Cons.IH [OF r(2)]
  then have "take (length rs) (take (length (rs @ [r])) ratios) = take (length rs) (rs @ [r])"
    "take (length (rs @ [r])) ratios ! length rs = (rs @ [r]) ! length rs" by metis+
  then have l: "take (length rs) ratios = rs" "ratios ! length rs = r" by simp_all
  then have "k < length rs \<Longrightarrow> ratios ! k = rs ! k" for k by (metis nth_take)
  then have "ratio_rule ds order ratios (length rs) i"
    using r(1) l(2) by (auto simp: ratio_rule_def nth_opt_eq_Some ok_or_eq_Inr split: option.splits)
  moreover have "ratio_rule ds order ratios (length rs + Suc q) (ids ! q)" if "q < length ids" for q
    using IH that by auto
  ultimately show ?case using l(1) IH by (auto simp: nth_Cons split: nat.splits)
qed simp

lemma tree_ratios_no_panic:
  assumes "length rs + length ids = length order" "drop (length rs) order = ids"
    and "\<And>q p. q < length order \<Longrightarrow> d_parent (ds ! (order ! q)) = Some p \<Longrightarrow> \<exists>k<q. index_of p order = Some k"
  shows "tree_ratios ds names order rs ids \<noteq> Inl (Panicked m)"
  using assms(1,2)
proof (induction ids arbitrary: rs)
  case (Cons i ids)
  have i: "order ! length rs = i" using Cons.prems hd_drop_conv_nth [of "length rs" order] by simp
  have "drop (length (rs @ [r])) order = ids" for r
    using Cons.prems(2) by (simp add: drop_Suc flip: tl_drop)
  then have IH: "tree_ratios ds names order (rs @ [r]) ids \<noteq> Inl (Panicked m)" for r
    using Cons.IH [of "rs @ [r]"] Cons.prems(1) by simp
  show ?case
  proof (cases "d_parent (ds ! i)")
    case (Some p)
    then obtain k where "k < length rs" "index_of p order = Some k" using assms(3) [of "length rs" p] i Cons.prems(1) by auto
    with Some IH show ?thesis
      by (cases "rate_scale (rs ! k) (d_mul (ds ! i)) (d_div (ds ! i))") (simp_all add: nth_opt_def)
  qed (simp add: IH)
qed simp

lemma traverse_Inr: "traverse g xs = Inr ys \<Longrightarrow> length ys = length xs \<and> (\<forall>q<length xs. g (xs ! q) = Inr (ys ! q))"
proof (induction xs arbitrary: ys)
  case (Cons x xs)
  then obtain y zs where z: "g x = Inr y" "traverse g xs = Inr zs" "ys = y # zs" by (auto simp: rbind_eq_Inr)
  from Cons.IH [OF z(2)] z(1,3) show ?case by (auto simp: nth_Cons split: nat.splits)
qed simp

lemma traverse_Inl: "traverse g xs = Inl e \<Longrightarrow> \<exists>x\<in>set xs. g x = Inl e"
  by (induction xs) (auto simp: rbind_eq_Inl)

lemma checked_lcm_Some:
  assumes "0 < a" "0 < b" "checked_lcm a b = Some c"
  shows "c = lcm a b" "c < two64" "0 < c"
proof -
  show c: "c = lcm a b" using assms by (auto simp: checked_lcm_def lcm_nat_def dvd_div_mult)
  show "c < two64" using assms by (auto simp: checked_lcm_def)
  show "0 < c" using assms(1,2) unfolding c by (simp add: lcm_pos_nat)
qed

lemma tree_unit_Inr:
  assumes "tree_unit names a rs = Inr a'" "0 < a" "a < two64" "\<And>r. r \<in> set rs \<Longrightarrow> 0 < r_num r"
  shows "a dvd a' \<and> 0 < a' \<and> a' < two64 \<and> (\<forall>r\<in>set rs. r_num r dvd a')"
  using assms
proof (induction rs arbitrary: a)
  case (Cons r rs)
  then obtain b where b: "checked_lcm a (r_num r) = Some b" "tree_unit names b rs = Inr a'"
    by (auto simp: rbind_eq_Inr ok_or_eq_Inr)
  note l = checked_lcm_Some [OF Cons.prems(2) _ b(1)]
  have "b = lcm a (r_num r)" "b < two64" "0 < b" using l Cons.prems(4) by simp_all
  moreover from this Cons.IH [OF b(2)] Cons.prems(4) have "b dvd a' \<and> 0 < a' \<and> a' < two64 \<and> (\<forall>r\<in>set rs. r_num r dvd a')"
    by simp
  ultimately show ?case by (auto intro: dvd_trans)
qed simp

lemma tree_unit_no_panic: "tree_unit names a rs \<noteq> Inl (Panicked m)"
  by (induction rs arbitrary: a) (auto simp: rbind_eq_Inl ok_or_eq_Inl)

lemma commit_domains_nth:
  assumes "distinct order" "length us = length order" "set order \<subseteq> {..<length ds}"
  shows "length (commit_domains ds (zip order us)) = length ds"
    and "\<And>j. j \<notin> set order \<Longrightarrow> commit_domains ds (zip order us) ! j = ds ! j"
    and "\<And>q. q < length order \<Longrightarrow>
       commit_domains ds (zip order us) ! (order ! q) = (case us ! q of (r, k, b) \<Rightarrow> set_derived r k b (ds ! (order ! q)))"
proof -
  have "length (commit_domains ds (zip order us)) = length ds
    \<and> (\<forall>j. j \<notin> set order \<longrightarrow> commit_domains ds (zip order us) ! j = ds ! j)
    \<and> (\<forall>q<length order. commit_domains ds (zip order us) ! (order ! q)
         = (case us ! q of (r, k, b) \<Rightarrow> set_derived r k b (ds ! (order ! q))))"
    using assms
  proof (induction order arbitrary: us ds)
    case (Cons i order)
    then obtain r k b us' where us: "us = (r, k, b) # us'" by (cases us) auto
    let ?ds = "ds[i := set_derived r k b (ds ! i)]"
    have c: "commit_domains ds (zip (i # order) us) = commit_domains ?ds (zip order us')" by (simp add: us commit_domains_def)
    have p: "distinct order" "length us' = length order" "set order \<subseteq> {..<length ?ds}" "i \<notin> set order" "i < length ds"
      using Cons.prems us by auto
    have "?ds ! (order ! q) = ds ! (order ! q)" if "q < length order" for q
      using p(4) nth_mem [OF that] by (metis nth_list_update_neq)
    with Cons.IH [OF p(1-3)] p(4,5) show ?case unfolding c by (auto simp: us nth_Cons split: nat.splits)
  qed (simp add: commit_domains_def)
  then show "length (commit_domains ds (zip order us)) = length ds"
    "\<And>j. j \<notin> set order \<Longrightarrow> commit_domains ds (zip order us) ! j = ds ! j"
    "\<And>q. q < length order \<Longrightarrow>
       commit_domains ds (zip order us) ! (order ! q) = (case us ! q of (r, k, b) \<Rightarrow> set_derived r k b (ds ! (order ! q)))"
    by blast+
qed

end
