(* ===== verification/Clock_Retune.thy ===== *)
theory Clock_Retune
  imports Clock_Tree
begin

text \<open>
  What recomputing a tree does: the rate of every domain, the common unit tick,
  the rescaling of all positions and the new conversion segment, as one relation
  between the forest before and after; and the invariant of the forest that the
  operations keep.
\<close>

section \<open>The effect of a recomputation\<close>

text \<open>
  \<open>rating_ok\<close>: a domain's multiplier and divisor. \<open>retuned\<close>: the rates \<open>rt\<close> and the
  unit multiplier \<open>a\<close> that a recomputation of tree \<open>oi\<close> settles on.
\<close>

definition rating_ok :: "clock_domain \<Rightarrow> bool" where
  "rating_ok d \<longleftrightarrow> 0 < d_mul d \<and> d_mul d < two64 \<and> 0 < d_div d \<and> d_div d < two64"

definition tick_units :: "nat \<Rightarrow> rate \<Rightarrow> nat" where
  "tick_units a r = a div r_num r * r_den r"

definition ratio_from :: "(domain_id \<Rightarrow> rate) \<Rightarrow> clock_domain \<Rightarrow> rate \<Rightarrow> bool" where
  "ratio_from rt d r = (case d_parent d of None \<Rightarrow> r = rate_one | Some p \<Rightarrow> rate_scale (rt p) (d_mul d) (d_div d) = Some r)"

definition retuned :: "clock_forest \<Rightarrow> oscillator_id \<Rightarrow> (domain_id \<Rightarrow> rate) \<Rightarrow> nat \<Rightarrow> rate \<Rightarrow> clock_forest \<Rightarrow> bool" where
  "retuned f oi rt a ur f' \<longleftrightarrow>
     (let x = osc_at f oi; T = below (f_domains f) (o_root x); fa = a div o_unit_mul x in
        (\<forall>i\<in>T. rate_wf (rt i) \<and> 0 < r_num (rt i) \<and> r_num (rt i) dvd a \<and> tick_units a (rt i) < two64
            \<and> d_base_unit (dom_at f i) * fa < two64 \<and> d_own (dom_at f i) * fa < two64
            \<and> ratio_from rt (dom_at f i) (rt i))
      \<and> o_unit_mul x dvd a \<and> 0 < a \<and> a < two64 \<and> o_units x * fa < two64
      \<and> rate_mul (o_freq x) (rate_integer a) = Some ur
      \<and> f_oscs f' = (f_oscs f)[oi := commit_osc (o_units x * fa) a ur x]
      \<and> length (f_domains f') = length (f_domains f)
      \<and> (\<forall>i. dom_at f' i = (if i \<in> T
            then set_derived (rt i) (tick_units a (rt i)) (d_base_unit (dom_at f i) * fa, d_own (dom_at f i) * fa) (dom_at f i)
            else dom_at f i)))"

lemma rate_scale_pos:
  assumes "rate_wf r" "0 < r_num r" "rating_ok d" "rate_scale r (d_mul d) (d_div d) = Some s"
  shows "rate_wf s" "0 < r_num s"
proof -
  have "rate_wf s \<and> rate_of s = rate_of r * of_nat (d_mul d) / of_nat (d_div d)"
    using assms rate_scale_correct [OF assms(1), of "d_mul d" "d_div d" s] by (simp add: rating_ok_def)
  moreover have "rate_of r * of_nat (d_mul d) / of_nat (d_div d) \<noteq> 0" using assms(1-3) by (simp add: rating_ok_def)
  ultimately show "rate_wf s" "0 < r_num s" using rate_of_eq_0 [of s] by auto
qed

lemma ratios_positive:
  assumes "\<And>q. q < length order \<Longrightarrow> ratio_rule ds order ratios q (order ! q)" "\<And>i. i \<in> set order \<Longrightarrow> rating_ok (ds ! i)"
  shows "q < length order \<Longrightarrow> rate_wf (ratios ! q) \<and> 0 < r_num (ratios ! q)"
proof (induction q rule: less_induct)
  case (less q)
  show ?case
  proof (cases "d_parent (ds ! (order ! q))")
    case None
    then show ?thesis using assms(1) [OF less.prems] by (simp add: ratio_rule_def) (simp add: rate_one_def rate_wf_def rate_reduced_def)
  next
    case (Some p)
    then obtain k where k: "k < q" "rate_scale (ratios ! k) (d_mul (ds ! (order ! q))) (d_div (ds ! (order ! q))) = Some (ratios ! q)"
      using assms(1) [OF less.prems] by (auto simp: ratio_rule_def)
    have "rating_ok (ds ! (order ! q))" using assms(2) less.prems by simp
    from rate_scale_pos [OF _ _ this k(2)] less.IH [OF k(1)] k(1) less.prems show ?thesis by simp
  qed
qed

text \<open>The parent of every domain but the start of the walk is found earlier in it.\<close>

lemma walk_parent:
  assumes "tree_wf (f_domains f)" "i < length (f_domains f)" "q < length (subtree f i)" "d_parent (dom_at f i) = None"
    and p: "d_parent (dom_at f (subtree f i ! q)) = Some p"
  shows "\<exists>k<q. index_of p (subtree f i) = Some k"
proof -
  note w = subtree_correct [OF assms(1,2)]
  have "q \<noteq> 0" using assms(4) p w(4) by (metis option.distinct(1))
  then obtain k where k: "k < q" "(subtree f i ! k, subtree f i ! q) \<in> child_of (f_domains f)" using w(5) [OF _ assms(3)] by auto
  then have "subtree f i ! k = p" using p by (simp add: child_of_def)
  then show ?thesis using index_of_nth [OF w(1), of k] k(1) assms(3) by auto
qed

lemma recompute_retuned:
  assumes "tree_wf (f_domains f)" "oi < length (f_oscs f)" "o_root (osc_at f oi) < length (f_domains f)"
    and "\<And>i. i < length (f_domains f) \<Longrightarrow> rating_ok (dom_at f i)"
    and "0 < o_unit_mul (osc_at f oi)" "o_unit_mul (osc_at f oi) < two64"
    and "recompute_tree f oi = Inr f'"
  obtains rt a ur where "retuned f oi rt a ur f'"
proof -
  let ?x = "osc_at f oi" and ?ds = "f_domains f"
  let ?order = "subtree f (o_root ?x)"
  let ?names = "map (\<lambda>d. d_name (?ds ! d)) ?order"
  note w = subtree_correct [OF assms(1,3)]
  obtain ratios a ks nu nb ur where r:
    "tree_ratios ?ds ?names ?order [] ?order = Inr ratios" "tree_unit ?names (o_unit_mul ?x) ratios = Inr a"
    "traverse (tree_tick ?names a) ratios = Inr ks" "rescale ?names (a div o_unit_mul ?x) (o_units ?x) = Inr nu"
    "traverse (rescale_domain ?ds ?names (a div o_unit_mul ?x)) ?order = Inr nb" "rate_mul (o_freq ?x) (rate_integer a) = Some ur"
    and f': "f' = upd_osc oi (commit_osc nu a ur) (f\<lparr>f_domains := commit_domains ?ds (zip ?order (zip ratios (zip ks nb)))\<rparr>)"
    using assms(7) by (auto simp: recompute_tree_def Let_def rbind_eq_Inr ok_or_eq_Inr)
  define rt where "rt i = ratios ! the (index_of i ?order)" for i
  have rt: "rt (?order ! q) = ratios ! q" if "q < length ?order" for q
    using index_of_nth [OF w(1) that] by (simp add: rt_def)
  have len: "length ratios = length ?order" using tree_ratios_rule [OF r(1)] by simp
  have rule: "ratio_rule ?ds ?order ratios q (?order ! q)" if "q < length ?order" for q
    using tree_ratios_rule [OF r(1)] that by auto
  have lt: "i < length ?ds" if "i \<in> set ?order" for i using that below_lt [OF assms(3)] w(2) by blast
  have pos: "rate_wf (ratios ! q) \<and> 0 < r_num (ratios ! q)" if "q < length ?order" for q
    using ratios_positive [OF rule] assms(4) lt that by blast
  have num: "0 < r_num s" if "s \<in> set ratios" for s using that pos len by (auto simp: in_set_conv_nth)
  have unit: "o_unit_mul ?x dvd a" "0 < a" "a < two64" "\<And>q. q < length ?order \<Longrightarrow> r_num (ratios ! q) dvd a"
    using tree_unit_Inr [OF r(2) assms(5,6) num] len by auto
  let ?fa = "a div o_unit_mul ?x"
  have ks: "length ks = length ?order" "\<And>q. q < length ?order \<Longrightarrow> ks ! q = tick_units a (ratios ! q) \<and> ks ! q < two64"
    using traverse_Inr [OF r(3)] len by (auto simp: tree_tick_def ok_or_eq_Inr tick_units_def)
  have nb: "length nb = length ?order" "\<And>q. q < length ?order \<Longrightarrow>
      nb ! q = (d_base_unit (dom_at f (?order ! q)) * ?fa, d_own (dom_at f (?order ! q)) * ?fa)
      \<and> d_base_unit (dom_at f (?order ! q)) * ?fa < two64 \<and> d_own (dom_at f (?order ! q)) * ?fa < two64"
    using traverse_Inr [OF r(5)] by (auto simp: rescale_domain_def rescale_def rbind_eq_Inr ok_or_eq_Inr)
  have from_rt: "ratio_from rt (dom_at f (?order ! q)) (ratios ! q)" if "q < length ?order" for q
    using rule [OF that] by (auto simp: ratio_rule_def ratio_from_def rt_def split: option.splits)
  have sub: "set ?order \<subseteq> {..<length ?ds}" using lt by blast
  have zl: "length (zip ratios (zip ks nb)) = length ?order" using len ks(1) nb(1) by simp
  note cd = commit_domains_nth [OF w(1) zl sub]
  have at: "\<exists>q<length ?order. i = ?order ! q" if "i \<in> below ?ds (o_root ?x)" for i
    using that w(2) by (metis in_set_conv_nth)
  have dom: "dom_at f' i = (if i \<in> below ?ds (o_root ?x)
      then set_derived (rt i) (tick_units a (rt i)) (d_base_unit (dom_at f i) * ?fa, d_own (dom_at f i) * ?fa) (dom_at f i)
      else dom_at f i)" for i
    using cd(2) [of i] w(2) at [of i] cd(3) rt ks nb len by (auto simp: f' upd_osc_def)
  have "\<forall>i\<in>below ?ds (o_root ?x). rate_wf (rt i) \<and> 0 < r_num (rt i) \<and> r_num (rt i) dvd a \<and> tick_units a (rt i) < two64
     \<and> d_base_unit (dom_at f i) * ?fa < two64 \<and> d_own (dom_at f i) * ?fa < two64 \<and> ratio_from rt (dom_at f i) (rt i)"
    using at rt pos unit(4) ks(2) nb(2) from_rt by fastforce
  moreover have "nu = o_units ?x * ?fa" "nu < two64" using r(4) by (auto simp: rescale_def ok_or_eq_Inr)
  ultimately have "retuned f oi rt a ur f'"
    unfolding retuned_def Let_def using unit(1-3) r(6) cd(1) dom by (simp add: f' upd_osc_def)
  then show ?thesis by (rule that)
qed

lemma recompute_no_panic:
  assumes "tree_wf (f_domains f)" "o_root (osc_at f oi) < length (f_domains f)" "d_parent (dom_at f (o_root (osc_at f oi))) = None"
  shows "recompute_tree f oi \<noteq> Inl (Panicked m)"
proof -
  let ?order = "subtree f (o_root (osc_at f oi))"
  have "tree_ratios (f_domains f) names ?order [] ?order \<noteq> Inl (Panicked m)" for names
    using walk_parent [OF assms(1,2) _ assms(3)] by (intro tree_ratios_no_panic) auto
  moreover have "traverse (tree_tick names a) rs \<noteq> Inl (Panicked m)" for names a rs
    using traverse_Inl [of "tree_tick names a" rs] by (auto simp: tree_tick_def ok_or_eq_Inl)
  moreover have "traverse (rescale_domain ds names fa) is \<noteq> Inl (Panicked m)" for ds names fa "is"
    using traverse_Inl [of "rescale_domain ds names fa" "is"] by (auto simp: rescale_domain_def rescale_def rbind_eq_Inl ok_or_eq_Inl)
  ultimately show ?thesis
    by (auto simp: recompute_tree_def Let_def rbind_eq_Inl ok_or_eq_Inl tree_unit_no_panic rescale_def)
qed

end
