(* ===== verification/Clock_Wf.thy ===== *)
theory Clock_Wf
  imports Clock_Retune
begin

text \<open>
  The invariant of the clock forest and what a recomputation does to it. The
  part a topology change may leave stale, the derived rates, is separated from the
  part that holds at every moment.
\<close>

section \<open>The invariant\<close>

definition here :: "clock_forest \<Rightarrow> domain_id \<Rightarrow> nat" where
  "here f i = domain_position (dom_at f i) (o_units (osc_at f (d_root (dom_at f i))))"

definition tick_count :: "clock_forest \<Rightarrow> domain_id \<Rightarrow> nat" where
  "tick_count f i = ticks_at (dom_at f i) (here f i)"

definition link_ok :: "clock_forest \<Rightarrow> domain_id \<Rightarrow> bool" where
  "link_ok f i \<longleftrightarrow>
     (let d = dom_at f i in d_root d < length (f_oscs f) \<and> o_active (osc_at f (d_root d))
        \<and> (d_parent d = None \<longrightarrow> o_root (osc_at f (d_root d)) = i)
        \<and> (\<forall>p. d_parent d = Some p \<longrightarrow> d_root (dom_at f p) = d_root d)
        \<and> rating_ok d)"

definition phase_ok :: "clock_forest \<Rightarrow> domain_id \<Rightarrow> bool" where
  "phase_ok f i \<longleftrightarrow> d_base_unit (dom_at f i) \<le> here f i \<and> d_own (dom_at f i) < two64 \<and> d_base_ticks (dom_at f i) < two64"

definition rate_ok :: "clock_forest \<Rightarrow> domain_id \<Rightarrow> bool" where
  "rate_ok f i \<longleftrightarrow>
     (let d = dom_at f i; a = o_unit_mul (osc_at f (d_root d)) in
        ratio_from (\<lambda>p. d_ratio (dom_at f p)) d (d_ratio d) \<and> rate_wf (d_ratio d) \<and> 0 < r_num (d_ratio d)
        \<and> r_num (d_ratio d) dvd a \<and> d_units_per_tick d = tick_units a (d_ratio d) \<and> d_units_per_tick d < two64)"

definition osc_ok :: "clock_forest \<Rightarrow> oscillator_id \<Rightarrow> bool" where
  "osc_ok f oi \<longleftrightarrow>
     (let x = osc_at f oi in timeline_wf x \<and> rate_wf (o_freq x) \<and> 0 < r_num (o_freq x)
        \<and> 0 < o_unit_mul x \<and> o_unit_mul x < two64 \<and> o_root x < length (f_domains f)
        \<and> (o_active x \<longrightarrow> d_parent (dom_at f (o_root x)) = None \<and> d_root (dom_at f (o_root x)) = oi))"

definition links_wf :: "clock_forest \<Rightarrow> bool" where
  "links_wf f \<longleftrightarrow> tree_wf (f_domains f) \<and> (\<forall>i<length (f_domains f). link_ok f i \<and> phase_ok f i)
     \<and> (\<forall>oi<length (f_oscs f). osc_ok f oi)"

definition rate_set :: "oscillator \<Rightarrow> bool" where
  "rate_set x \<longleftrightarrow> rate_mul (o_freq x) (rate_integer (o_unit_mul x)) = Some (o_unit_rate x)"

definition forest_wf :: "clock_forest \<Rightarrow> bool" where
  "forest_wf f \<longleftrightarrow> links_wf f \<and> (\<forall>i<length (f_domains f). rate_ok f i) \<and> (\<forall>oi<length (f_oscs f). rate_set (osc_at f oi))"

lemma links_wfD:
  assumes "links_wf f"
  shows "tree_wf (f_domains f)" "i < length (f_domains f) \<Longrightarrow> link_ok f i" "i < length (f_domains f) \<Longrightarrow> phase_ok f i"
    "oi < length (f_oscs f) \<Longrightarrow> osc_ok f oi"
  using assms by (auto simp: links_wf_def)

lemma link_okD:
  assumes "link_ok f i"
  shows "d_root (dom_at f i) < length (f_oscs f)" "o_active (osc_at f (d_root (dom_at f i)))" "rating_ok (dom_at f i)"
    "d_parent (dom_at f i) = None \<Longrightarrow> o_root (osc_at f (d_root (dom_at f i))) = i"
    "d_parent (dom_at f i) = Some p \<Longrightarrow> d_root (dom_at f p) = d_root (dom_at f i)"
  using assms by (auto simp: link_ok_def Let_def)

lemma osc_okD:
  assumes "osc_ok f oi"
  shows "timeline_wf (osc_at f oi)" "rate_wf (o_freq (osc_at f oi))" "0 < r_num (o_freq (osc_at f oi))"
    "0 < o_unit_mul (osc_at f oi)" "o_unit_mul (osc_at f oi) < two64" "o_root (osc_at f oi) < length (f_domains f)"
    "o_active (osc_at f oi) \<Longrightarrow> d_parent (dom_at f (o_root (osc_at f oi))) = None"
    "o_active (osc_at f oi) \<Longrightarrow> d_root (dom_at f (o_root (osc_at f oi))) = oi"
  using assms by (auto simp: osc_ok_def Let_def)

text \<open>The tree of an oscillator is the set of the domains it drives.\<close>

lemma below_same_root:
  assumes "links_wf f" "i < length (f_domains f)" "j \<in> below (f_domains f) i"
  shows "d_root (dom_at f j) = d_root (dom_at f i)"
  using assms(3) unfolding below_def mem_Collect_eq
proof (induction rule: rtrancl_induct)
  case (step p c)
  then show ?case using link_okD(5) [OF links_wfD(2) [OF assms(1)], of c p] by (simp add: child_of_def)
qed simp

lemma tree_members:
  assumes "links_wf f" "oi < length (f_oscs f)" "o_active (osc_at f oi)"
  shows "below (f_domains f) (o_root (osc_at f oi)) = {i. i < length (f_domains f) \<and> d_root (dom_at f i) = oi}"
proof -
  note x = osc_okD [OF links_wfD(4) [OF assms(1,2)]]
  obtain rank :: "nat \<Rightarrow> nat" where rank: "\<And>p c. (p, c) \<in> child_of (f_domains f) \<Longrightarrow> rank p < rank c"
    using links_wfD(1) [OF assms(1)] unfolding tree_wf_def by blast
  have "i < length (f_domains f) \<Longrightarrow> d_root (dom_at f i) = oi \<Longrightarrow> i \<in> below (f_domains f) (o_root (osc_at f oi))" for i
  proof (induction "rank i" arbitrary: i rule: less_induct)
    case less
    note l = link_okD [OF links_wfD(2) [OF assms(1) less.prems(1)]]
    show ?case
    proof (cases "d_parent (dom_at f i)")
      case None
      have "o_root (osc_at f oi) = i" using l(4) [OF None] unfolding less.prems(2) .
      then show ?thesis by blast
    next
      case (Some p)
      then have c: "(p, i) \<in> child_of (f_domains f)" using less.prems(1) by (simp add: child_of_def)
      have "p \<in> below (f_domains f) (o_root (osc_at f oi))"
        using less.hyps [OF rank [OF c]] tree_wf_parent [OF links_wfD(1) [OF assms(1)] c] l(5) [OF Some] less.prems(2) by simp
      then show ?thesis using c by (rule below_child)
    qed
  qed
  then show ?thesis
    using below_same_root [OF assms(1) x(6)] below_lt [OF x(6)] x(8) [OF assms(3)] by auto
qed

section \<open>A recomputation keeps the invariant\<close>

lemma rate_integer_wf: "a < two64 \<Longrightarrow> rate_wf (rate_integer a) \<and> rate_of (rate_integer a) = of_nat a"
  by (simp add: rate_integer_def rate_wf_def rate_reduced_def rate_of_def)

lemma commit_osc_ok:
  assumes "timeline_wf x" "rate_wf (o_freq x)" "0 < r_num (o_freq x)" "0 < a" "a < two64" "u < two64"
    and "rate_mul (o_freq x) (rate_integer a) = Some ur"
  shows "timeline_wf (commit_osc u a ur x)" "rate_set (commit_osc u a ur x)"
    and "o_time (commit_osc u a ur x) = o_time x"
proof -
  have r: "rate_wf ur" "rate_of ur = rate_of (o_freq x) * of_nat a"
    using rate_mul_correct [OF assms(2), of "rate_integer a" ur] rate_integer_wf [OF assms(5)] assms(7) by simp_all
  then have "0 < r_num ur" using rate_of_eq_0 [OF r(1)] assms(2-4) by simp
  moreover have "o_time x < two128" using assms(1) by (simp add: timeline_wf_def)
  ultimately have "conversion_wf (commit_osc u a ur x)"
    unfolding commit_osc_def using r(1) by (intro recompute_conversion_wf) simp_all
  then show "timeline_wf (commit_osc u a ur x)"
    using assms(6) \<open>o_time x < two128\<close>
    by (simp add: timeline_wf_def exact_time_def commit_osc_def recompute_conversion_def Let_def)
  show "rate_set (commit_osc u a ur x)" "o_time (commit_osc u a ur x) = o_time x"
    using assms(7) by (simp_all add: rate_set_def commit_osc_def recompute_conversion_def Let_def)
qed

lemma commit_osc_simps [simp]:
  "o_root (commit_osc u a ur x) = o_root x" "o_active (commit_osc u a ur x) = o_active x" "o_freq (commit_osc u a ur x) = o_freq x"
  "o_unit_mul (commit_osc u a ur x) = a" "o_units (commit_osc u a ur x) = u" "o_name (commit_osc u a ur x) = o_name x"
  by (simp_all add: commit_osc_def recompute_conversion_def Let_def)

lemma set_derived_simps [simp]:
  "d_parent (set_derived r k b d) = d_parent d" "d_children (set_derived r k b d) = d_children d" "d_root (set_derived r k b d) = d_root d"
  "d_mul (set_derived r k b d) = d_mul d" "d_div (set_derived r k b d) = d_div d" "d_ratio (set_derived r k b d) = r"
  "d_units_per_tick (set_derived r k b d) = k" "d_base_unit (set_derived r k b d) = fst b" "d_own (set_derived r k b d) = snd b"
  "d_base_ticks (set_derived r k b d) = d_base_ticks d" "d_gated (set_derived r k b d) = d_gated d" "d_name (set_derived r k b d) = d_name d"
  by (simp_all add: set_derived_def)

text \<open>The facts of one recomputation, spelled out for the tree and for the rest.\<close>

lemma retunedD:
  assumes "links_wf f" "oi < length (f_oscs f)" "o_active (osc_at f oi)" "retuned f oi rt a ur f'"
  shows "length (f_domains f') = length (f_domains f)"
    "i < length (f_domains f) \<Longrightarrow> d_root (dom_at f i) = oi \<Longrightarrow> dom_at f' i = set_derived (rt i) (tick_units a (rt i))
       (d_base_unit (dom_at f i) * (a div o_unit_mul (osc_at f oi)), d_own (dom_at f i) * (a div o_unit_mul (osc_at f oi))) (dom_at f i)"
    "i < length (f_domains f) \<Longrightarrow> d_root (dom_at f i) \<noteq> oi \<Longrightarrow> dom_at f' i = dom_at f i"
    "f_oscs f' = (f_oscs f)[oi := commit_osc (o_units (osc_at f oi) * (a div o_unit_mul (osc_at f oi))) a ur (osc_at f oi)]"
    "o_unit_mul (osc_at f oi) dvd a" "0 < a" "a < two64" "o_units (osc_at f oi) * (a div o_unit_mul (osc_at f oi)) < two64"
    "rate_mul (o_freq (osc_at f oi)) (rate_integer a) = Some ur"
    "i < length (f_domains f) \<Longrightarrow> d_root (dom_at f i) = oi \<Longrightarrow> rate_wf (rt i) \<and> 0 < r_num (rt i) \<and> r_num (rt i) dvd a
       \<and> tick_units a (rt i) < two64 \<and> d_own (dom_at f i) * (a div o_unit_mul (osc_at f oi)) < two64
       \<and> ratio_from rt (dom_at f i) (rt i)"
  using assms(4) unfolding retuned_def Let_def tree_members [OF assms(1-3)] by auto

lemma retuned_osc:
  assumes "links_wf f" "oi < length (f_oscs f)" "o_active (osc_at f oi)" "retuned f oi rt a ur f'"
  shows "length (f_oscs f') = length (f_oscs f)" "oj \<noteq> oi \<Longrightarrow> osc_at f' oj = osc_at f oj"
    "osc_at f' oi = commit_osc (o_units (osc_at f oi) * (a div o_unit_mul (osc_at f oi))) a ur (osc_at f oi)"
    "o_root (osc_at f' oj) = o_root (osc_at f oj)" "o_active (osc_at f' oj) = o_active (osc_at f oj)"
proof -
  note d = retunedD [OF assms]
  show "length (f_oscs f') = length (f_oscs f)" "oj \<noteq> oi \<Longrightarrow> osc_at f' oj = osc_at f oj"
    and e: "osc_at f' oi = commit_osc (o_units (osc_at f oi) * (a div o_unit_mul (osc_at f oi))) a ur (osc_at f oi)"
    using assms(2) by (simp_all add: d(4))
  show "o_root (osc_at f' oj) = o_root (osc_at f oj)" "o_active (osc_at f' oj) = o_active (osc_at f oj)"
    by (cases "oj = oi"; simp add: d(4) assms(2))+
qed

lemma retuned_frame:
  assumes "links_wf f" "oi < length (f_oscs f)" "o_active (osc_at f oi)" "retuned f oi rt a ur f'" "i < length (f_domains f)"
  shows "d_parent (dom_at f' i) = d_parent (dom_at f i)" "d_children (dom_at f' i) = d_children (dom_at f i)"
    "d_root (dom_at f' i) = d_root (dom_at f i)" "d_mul (dom_at f' i) = d_mul (dom_at f i)" "d_div (dom_at f' i) = d_div (dom_at f i)"
    "d_base_ticks (dom_at f' i) = d_base_ticks (dom_at f i)" "d_gated (dom_at f' i) = d_gated (dom_at f i)"
    "d_name (dom_at f' i) = d_name (dom_at f i)"
proof -
  have "\<exists>r k b. dom_at f' i = dom_at f i \<or> dom_at f' i = set_derived r k b (dom_at f i)"
    using retunedD(2,3) [OF assms(1-4,5)] by blast
  then obtain r k b where "dom_at f' i = dom_at f i \<or> dom_at f' i = set_derived r k b (dom_at f i)" by blast
  then show "d_parent (dom_at f' i) = d_parent (dom_at f i)" "d_children (dom_at f' i) = d_children (dom_at f i)"
    "d_root (dom_at f' i) = d_root (dom_at f i)" "d_mul (dom_at f' i) = d_mul (dom_at f i)" "d_div (dom_at f' i) = d_div (dom_at f i)"
    "d_base_ticks (dom_at f' i) = d_base_ticks (dom_at f i)" "d_gated (dom_at f' i) = d_gated (dom_at f i)"
    "d_name (dom_at f' i) = d_name (dom_at f i)"
    by (elim disjE; simp)+
qed

text \<open>Positions of the tree are all multiplied by one factor, the others stay.\<close>

definition scale_of :: "clock_forest \<Rightarrow> oscillator_id \<Rightarrow> nat \<Rightarrow> domain_id \<Rightarrow> nat" where
  "scale_of f oi a i = (if d_root (dom_at f i) = oi then a div o_unit_mul (osc_at f oi) else 1)"

lemma retuned_positions:
  assumes "links_wf f" "oi < length (f_oscs f)" "o_active (osc_at f oi)" "retuned f oi rt a ur f'" "i < length (f_domains f)"
  shows "d_base_unit (dom_at f' i) = d_base_unit (dom_at f i) * scale_of f oi a i"
    "d_own (dom_at f' i) = d_own (dom_at f i) * scale_of f oi a i"
    "here f' i = here f i * scale_of f oi a i" "0 < scale_of f oi a i"
    "phase_ok f i \<Longrightarrow> phase_ok f' i" "here f' i < two64"
proof -
  note d = retunedD [OF assms(1-4)] and o = retuned_osc [OF assms(1-4)] and fr = retuned_frame [OF assms]
  note l = links_wfD(3) [OF assms(1,5)] and x = osc_okD [OF links_wfD(4) [OF assms(1,2)]]
  show b: "d_base_unit (dom_at f' i) = d_base_unit (dom_at f i) * scale_of f oi a i"
    and w: "d_own (dom_at f' i) = d_own (dom_at f i) * scale_of f oi a i"
    using d(2,3) [OF assms(5)] by (cases "d_root (dom_at f i) = oi"; simp add: scale_of_def)+
  have u: "o_units (osc_at f' (d_root (dom_at f i))) = o_units (osc_at f (d_root (dom_at f i))) * scale_of f oi a i"
    using o(2,3) by (cases "d_root (dom_at f i) = oi"; simp add: scale_of_def)
  show h: "here f' i = here f i * scale_of f oi a i"
    unfolding here_def domain_position_def fr(3) u w by (rule nat_mult_max_left [symmetric])
  show "0 < scale_of f oi a i"
    using d(5,6) x(4) by (auto simp: scale_of_def dvd_imp_le div_greater_zero_iff)
  have "d_own (dom_at f i) * scale_of f oi a i < two64" 
    using d(10) [OF assms(5)] l by (cases "d_root (dom_at f i) = oi"; simp add: scale_of_def phase_ok_def)
  moreover have "o_units (osc_at f (d_root (dom_at f i))) * scale_of f oi a i < two64"
    using d(8) osc_okD(1) [OF links_wfD(4) [OF assms(1) link_okD(1) [OF links_wfD(2) [OF assms(1,5)]]]]
    by (cases "d_root (dom_at f i) = oi"; simp add: scale_of_def timeline_wf_def)
  ultimately show "here f' i < two64" unfolding here_def domain_position_def fr(3) u w by simp
  show "phase_ok f' i" if "phase_ok f i"
    using that \<open>d_own (dom_at f i) * scale_of f oi a i < two64\<close> by (simp add: phase_ok_def b w h fr(6))
qed

lemma retuned_links:
  assumes "links_wf f" "oi < length (f_oscs f)" "o_active (osc_at f oi)" "retuned f oi rt a ur f'"
  shows "same_links (f_domains f) (f_domains f')" "links_wf f'" "rate_set (osc_at f' oi)"
proof -
  note d = retunedD [OF assms] and o = retuned_osc [OF assms] and fr = retuned_frame [OF assms]
  show sl: "same_links (f_domains f) (f_domains f')" using fr d(1) by (simp add: same_links_def)
  note x = osc_okD [OF links_wfD(4) [OF assms(1,2)]]
  note c = commit_osc_ok [OF x(1-3) d(6-9)]
  show "rate_set (osc_at f' oi)" unfolding o(3) by (rule c(2))
  have "link_ok f' i" if "i < length (f_domains f)" for i
  proof -
    note li = links_wfD(2) [OF assms(1) that]
    have "p < length (f_domains f)" if "d_parent (dom_at f i) = Some p" for p
      using that tree_wf_parent [OF links_wfD(1) [OF assms(1)], of p i] \<open>i < _\<close> by (simp add: child_of_def)
    then show ?thesis using li fr [OF that] fr(3) o by (auto simp: link_ok_def Let_def rating_ok_def)
  qed
  moreover have "osc_ok f' oj" if "oj < length (f_oscs f)" for oj
  proof -
    note y = osc_okD [OF links_wfD(4) [OF assms(1) that]]
    have "timeline_wf (osc_at f' oj) \<and> o_freq (osc_at f' oj) = o_freq (osc_at f oj)
      \<and> 0 < o_unit_mul (osc_at f' oj) \<and> o_unit_mul (osc_at f' oj) < two64"
      using c(1) y d(6,7) o(2,3) by (cases "oj = oi") simp_all
    then show ?thesis using y fr [OF y(6)] d(1) o(4,5) by (simp add: osc_ok_def Let_def)
  qed
  ultimately show "links_wf f'"
    unfolding links_wf_def using d(1) o(1) same_links_shape(3) [OF sl] links_wfD(1,3) [OF assms(1)] retuned_positions(5) [OF assms]
    by auto
qed

lemma retuned_rate:
  assumes "links_wf f" "oi < length (f_oscs f)" "o_active (osc_at f oi)" "retuned f oi rt a ur f'" "i < length (f_domains f)"
  shows "d_root (dom_at f i) = oi \<Longrightarrow> rate_ok f' i" "d_root (dom_at f i) \<noteq> oi \<Longrightarrow> rate_ok f i \<Longrightarrow> rate_ok f' i"
proof -
  note d = retunedD [OF assms(1-4)] and o = retuned_osc [OF assms(1-4)] and fr = retuned_frame [OF assms]
  have p: "p < length (f_domains f) \<and> d_root (dom_at f p) = d_root (dom_at f i)" if "d_parent (dom_at f i) = Some p" for p
    using that tree_wf_parent [OF links_wfD(1) [OF assms(1)], of p i] assms(5) link_okD(5) [OF links_wfD(2) [OF assms(1,5)] that]
    by (simp add: child_of_def)
  show "rate_ok f' i" if r: "d_root (dom_at f i) = oi"
  proof -
    note t = d(10) [OF assms(5) r]
    have "d_ratio (dom_at f' p) = rt p" if "d_parent (dom_at f i) = Some p" for p using d(2) [of p] p [OF that] r by simp
    then have "ratio_from (\<lambda>p. d_ratio (dom_at f' p)) (dom_at f i) (rt i)"
      using t by (simp add: ratio_from_def split: option.splits)
    then have "ratio_from (\<lambda>p. d_ratio (dom_at f' p)) (dom_at f' i) (rt i)" unfolding ratio_from_def fr(1,4,5) .
    then show ?thesis using t d(2) [OF assms(5) r] o(3) r by (simp add: rate_ok_def Let_def)
  qed
  show "rate_ok f' i" if r: "d_root (dom_at f i) \<noteq> oi" "rate_ok f i"
  proof -
    have e: "dom_at f' i = dom_at f i" "osc_at f' (d_root (dom_at f i)) = osc_at f (d_root (dom_at f i))"
      using d(3) [OF assms(5)] o(2) r(1) by simp_all
    have "d_ratio (dom_at f' p) = d_ratio (dom_at f p)" if "d_parent (dom_at f i) = Some p" for p
      using d(3) [of p] p [OF that] r(1) by simp
    then have "ratio_from (\<lambda>p. d_ratio (dom_at f' p)) (dom_at f i) q = ratio_from (\<lambda>p. d_ratio (dom_at f p)) (dom_at f i) q" for q
      by (simp add: ratio_from_def split: option.splits)
    then show ?thesis using r(2) by (simp add: rate_ok_def Let_def e)
  qed
qed

section \<open>A recomputation keeps the tick counters\<close>

text \<open>
  A domain is settled when its counter has been materialised where it stands, or
  when its rate and those of all its ancestors are up to date.
\<close>

definition settled :: "clock_forest \<Rightarrow> domain_id \<Rightarrow> bool" where
  "settled f i \<longleftrightarrow> d_base_unit (dom_at f i) = here f i \<or> (\<forall>j. i \<in> below (f_domains f) j \<longrightarrow> rate_ok f j)"

lemma retuned_same_ratio:
  assumes "links_wf f" "oi < length (f_oscs f)" "o_active (osc_at f oi)" "retuned f oi rt a ur f'"
  shows "i < length (f_domains f) \<Longrightarrow> d_root (dom_at f i) = oi \<Longrightarrow> (\<And>j. i \<in> below (f_domains f) j \<Longrightarrow> rate_ok f j)
    \<Longrightarrow> rt i = d_ratio (dom_at f i)"
proof -
  obtain rank :: "nat \<Rightarrow> nat" where rank: "\<And>p c. (p, c) \<in> child_of (f_domains f) \<Longrightarrow> rank p < rank c"
    using links_wfD(1) [OF assms(1)] unfolding tree_wf_def by blast
  show "i < length (f_domains f) \<Longrightarrow> d_root (dom_at f i) = oi \<Longrightarrow> (\<And>j. i \<in> below (f_domains f) j \<Longrightarrow> rate_ok f j)
    \<Longrightarrow> rt i = d_ratio (dom_at f i)"
  proof (induction "rank i" arbitrary: i rule: less_induct)
    case less
    have new: "ratio_from rt (dom_at f i) (rt i)" using retunedD(10) [OF assms less.prems(1,2)] by simp
    have old: "ratio_from (\<lambda>p. d_ratio (dom_at f p)) (dom_at f i) (d_ratio (dom_at f i))"
      using less.prems(3) [OF below_refl] by (simp add: rate_ok_def Let_def)
    show ?case
    proof (cases "d_parent (dom_at f i)")
      case (Some p)
      then have c: "(p, i) \<in> child_of (f_domains f)" using less.prems(1) by (simp add: child_of_def)
      have "rate_ok f j" if "p \<in> below (f_domains f) j" for j using less.prems(3) [OF below_child [OF that c]] .
      then have "rt p = d_ratio (dom_at f p)"
        using less.hyps [OF rank [OF c] tree_wf_parent [OF links_wfD(1) [OF assms(1)] c]]
          link_okD(5) [OF links_wfD(2) [OF assms(1) less.prems(1)] Some] less.prems(2) by simp
      then show ?thesis using new old Some by (simp add: ratio_from_def)
    qed (use new old in \<open>simp add: ratio_from_def\<close>)
  qed
qed

lemma wrapping_sub64_eq: "b \<le> a \<Longrightarrow> a < two64 \<Longrightarrow> wrapping_sub64 a b = a - b"
proof -
  assume "b \<le> a" "a < two64"
  then have "a + (two64 - b mod two64) = a - b + two64" by simp
  then show ?thesis using \<open>a < two64\<close> by (simp add: wrapping_sub64_def)
qed

lemma ticks_at_base [simp]:
  assumes "d_base_ticks d < two64" "d_base_unit d < two64"
  shows "ticks_at d (d_base_unit d) = d_base_ticks d"
  using assms wrapping_sub64_eq [of "d_base_unit d" "d_base_unit d"] by (simp add: ticks_at_def wrapping_add64_def)

lemma ticks_at_scaled:
  assumes "d_base_ticks d' = d_base_ticks d" "d_gated d' = d_gated d" "d_base_unit d' = d_base_unit d * c"
    "d_units_per_tick d' = d_units_per_tick d * c" "0 < c" "d_base_unit d \<le> h" "h * c < two64"
  shows "ticks_at d' (h * c) = ticks_at d h"
proof -
  have "h \<le> h * c" using assms(5) by simp
  then have h: "h < two64" using assms(7) by (rule le_less_trans)
  have b: "d_base_unit d * c \<le> h * c" using assms(6) by simp
  have "h * c - d_base_unit d * c = (h - d_base_unit d) * c" by (rule diff_mult_distrib [symmetric])
  then have "wrapping_sub64 (h * c) (d_base_unit d * c) div (d_units_per_tick d * c) = wrapping_sub64 h (d_base_unit d) div d_units_per_tick d"
    using assms(5) by (simp add: wrapping_sub64_eq [OF b assms(7)] wrapping_sub64_eq [OF assms(6) h])
  then show ?thesis by (simp add: ticks_at_def assms(1-4))
qed

lemma tick_units_scaled:
  assumes "r_num r dvd b" "b dvd a"
  shows "tick_units a r = tick_units b r * (a div b)"
proof (cases "b = 0")
  case False
  with assms show ?thesis by (auto simp: tick_units_def elim!: dvdE)
qed (use assms in \<open>simp add: tick_units_def\<close>)

lemma retuned_ticks:
  assumes "links_wf f" "oi < length (f_oscs f)" "o_active (osc_at f oi)" "retuned f oi rt a ur f'" "i < length (f_domains f)"
    and st: "settled f i"
  shows "tick_count f' i = tick_count f i" "settled f' i"
proof -
  note d = retunedD [OF assms(1-4)] and fr = retuned_frame [OF assms(1-5)] and ps = retuned_positions [OF assms(1-5)]
  note ph = links_wfD(3) [OF assms(1,5)] and rr = retuned_rate [OF assms(1-4)]
  note sl = same_links_shape [OF retuned_links(1) [OF assms(1-4)]]
  have lt: "here f i < two64" using ps(4,6) unfolding ps(3) by (auto intro: le_less_trans [of _ "here f i * scale_of f oi a i"])
  show "settled f' i"
  proof (cases "d_base_unit (dom_at f i) = here f i")
    case False
    have "rate_ok f' j" if "i \<in> below (f_domains f) j" for j
    proof -
      have "j < length (f_domains f)" using that above_lt [OF links_wfD(1) [OF assms(1)] assms(5)] by (auto simp: ancestors_def)
      then show ?thesis using rr [of j] st False that by (auto simp: settled_def)
    qed
    then show ?thesis unfolding settled_def sl(2) by blast
  qed (simp add: settled_def ps)
  show "tick_count f' i = tick_count f i"
  proof (cases "d_base_unit (dom_at f i) = here f i")
    case True
    then have "d_base_unit (dom_at f' i) = here f' i" by (simp add: ps)
    then show ?thesis
      using ticks_at_base [of "dom_at f i"] ticks_at_base [of "dom_at f' i"] True lt ps(6) ph fr(6)
      by (simp add: tick_count_def phase_ok_def)
  next
    case False
    then have ok: "\<And>j. i \<in> below (f_domains f) j \<Longrightarrow> rate_ok f j" using st by (simp add: settled_def)
    have "d_units_per_tick (dom_at f' i) = d_units_per_tick (dom_at f i) * scale_of f oi a i"
    proof (cases "d_root (dom_at f i) = oi")
      case True
      have "rt i = d_ratio (dom_at f i)" using retuned_same_ratio [OF assms(1-4) assms(5) True ok] by simp
      moreover have "d_units_per_tick (dom_at f i) = tick_units (o_unit_mul (osc_at f oi)) (d_ratio (dom_at f i))"
        "r_num (d_ratio (dom_at f i)) dvd o_unit_mul (osc_at f oi)"
        using ok [OF below_refl] True by (simp_all add: rate_ok_def Let_def)
      ultimately show ?thesis using d(2) [OF assms(5) True] tick_units_scaled [OF _ d(5)] True by (simp add: scale_of_def)
    qed (use d(3) [OF assms(5)] in \<open>simp add: scale_of_def\<close>)
    from ticks_at_scaled [OF fr(6,7) ps(1) this ps(4), of "here f i"] ph ps(6) show ?thesis
      by (simp add: tick_count_def phase_ok_def ps(3))
  qed
qed

end
