(* ===== verification/Clock_Ops.thy ===== *)
theory Clock_Ops
  imports Clock_Wf
begin

text \<open>
  The operations of the clock forest keep its invariant, and every change of the
  topology keeps every tick counter.
\<close>

section \<open>Recomputing a list of trees\<close>

definition steady :: "clock_forest \<Rightarrow> clock_forest \<Rightarrow> bool" where
  "steady f f' \<longleftrightarrow> length (f_domains f') = length (f_domains f) \<and> length (f_oscs f') = length (f_oscs f)
     \<and> (\<forall>i<length (f_domains f). tick_count f' i = tick_count f i)
     \<and> (\<forall>oi<length (f_oscs f). o_time (osc_at f' oi) = o_time (osc_at f oi))"

lemma steady_refl [simp]: "steady f f"
  by (simp add: steady_def)

lemma steady_trans: "steady f g \<Longrightarrow> steady g h \<Longrightarrow> steady f h"
  by (simp add: steady_def)

lemma recompute_keeps:
  assumes "links_wf f" "oi < length (f_oscs f)" "o_active (osc_at f oi)" "recompute_tree f oi = Inr f'"
    and st: "\<forall>i<length (f_domains f). settled f i"
  shows "links_wf f'" "steady f f'" "rate_set (osc_at f' oi)" "oj \<noteq> oi \<Longrightarrow> osc_at f' oj = osc_at f oj"
    "o_active (osc_at f' oj) = o_active (osc_at f oj)"
    "i < length (f_domains f) \<Longrightarrow> settled f' i" "i < length (f_domains f) \<Longrightarrow> d_root (dom_at f' i) = d_root (dom_at f i)"
    "i < length (f_domains f) \<Longrightarrow> d_root (dom_at f i) = oi \<or> rate_ok f i \<Longrightarrow> rate_ok f' i"
proof -
  note x = osc_okD [OF links_wfD(4) [OF assms(1,2)]]
  have "rating_ok (dom_at f i)" if "i < length (f_domains f)" for i by (rule link_okD(3) [OF links_wfD(2) [OF assms(1) that]])
  with recompute_retuned [OF links_wfD(1) [OF assms(1)] assms(2) x(6) _ x(4,5) assms(4)]
  obtain rt a ur where r: "retuned f oi rt a ur f'" by metis
  note rs = assms(1-3) r
  note o = retuned_osc [OF rs] and d = retunedD [OF rs]
  have "o_time (osc_at f' oj) = o_time (osc_at f oj)" for oj
    using o(2,3) commit_osc_ok(3) [OF x(1-3) d(6-9)] by (cases "oj = oi") simp_all
  then show "steady f f'" using retuned_ticks(1) [OF rs] st d(1) o(1) by (simp add: steady_def)
  show "links_wf f'" "rate_set (osc_at f' oi)" using retuned_links [OF rs] by simp_all
  show "oj \<noteq> oi \<Longrightarrow> osc_at f' oj = osc_at f oj" "o_active (osc_at f' oj) = o_active (osc_at f oj)" using o by simp_all
  show "settled f' i" "d_root (dom_at f' i) = d_root (dom_at f i)" if "i < length (f_domains f)"
    using that retuned_ticks(2) [OF rs that] st retuned_frame(3) [OF rs that] by simp_all
  show "rate_ok f' i" if "i < length (f_domains f)" "d_root (dom_at f i) = oi \<or> rate_ok f i"
    using that retuned_rate [OF rs that(1)] by blast
qed

lemma recompute_trees_keeps:
  assumes "recompute_trees f trees = Inr f'" "links_wf f" "\<forall>oi\<in>set trees. oi < length (f_oscs f) \<and> o_active (osc_at f oi)"
    and "\<forall>i<length (f_domains f). settled f i \<and> (d_root (dom_at f i) \<in> set trees \<or> rate_ok f i)"
    and "\<forall>oi<length (f_oscs f). oi \<in> set trees \<or> rate_set (osc_at f oi)"
  shows "forest_wf f' \<and> steady f f'"
  using assms
proof (induction trees arbitrary: f)
  case Nil
  then show ?case by (simp add: forest_wf_def)
next
  case (Cons oi trees)
  then obtain g where g: "recompute_tree f oi = Inr g" "recompute_trees g trees = Inr f'" by (auto simp: rbind_eq_Inr)
  have oi: "oi < length (f_oscs f)" "o_active (osc_at f oi)" using Cons.prems(3) by simp_all
  have st: "\<forall>i<length (f_domains f). settled f i" using Cons.prems(4) by simp
  note k = recompute_keeps [OF Cons.prems(2) oi g(1) st]
  have len: "length (f_domains g) = length (f_domains f)" "length (f_oscs g) = length (f_oscs f)" using k(2) by (simp_all add: steady_def)
  have "\<forall>i<length (f_domains g). settled g i \<and> (d_root (dom_at g i) \<in> set trees \<or> rate_ok g i)"
    using k(6-8) Cons.prems(4) len by auto
  moreover have "oj \<in> set trees \<or> rate_set (osc_at g oj)" if "oj < length (f_oscs g)" for oj
    using that Cons.prems(5) k(3) k(4) [of oj] len by (cases "oj = oi") auto
  moreover have "\<forall>oj\<in>set trees. oj < length (f_oscs g) \<and> o_active (osc_at g oj)"
    using Cons.prems(3) k(5) len by auto
  ultimately have "forest_wf f' \<and> steady g f'" using Cons.IH [OF g(2) k(1)] by blast
  then show ?case using steady_trans [OF k(2)] by blast
qed

lemma recompute_trees_no_panic:
  assumes "links_wf f" "\<forall>oi\<in>set trees. oi < length (f_oscs f) \<and> o_active (osc_at f oi)"
    and "\<forall>i<length (f_domains f). settled f i"
  shows "recompute_trees f trees \<noteq> Inl (Panicked m)"
  using assms
proof (induction trees arbitrary: f)
  case (Cons oi trees)
  have oi: "oi < length (f_oscs f)" "o_active (osc_at f oi)" using Cons.prems(2) by simp_all
  note x = osc_okD [OF links_wfD(4) [OF Cons.prems(1) oi(1)]]
  have "recompute_trees g trees \<noteq> Inl (Panicked m)" if g: "recompute_tree f oi = Inr g" for g
  proof -
    note k = recompute_keeps [OF Cons.prems(1) oi g Cons.prems(3)]
    have "length (f_domains g) = length (f_domains f)" "length (f_oscs g) = length (f_oscs f)" using k(2) by (simp_all add: steady_def)
    then show ?thesis using Cons.IH [OF k(1)] Cons.prems(2) k(5,6) by auto
  qed
  then show ?case using recompute_no_panic [OF links_wfD(1) [OF Cons.prems(1)] x(6) x(7) [OF oi(2)]] by (auto simp: rbind_eq_Inl)
qed simp

section \<open>Updates that leave the tuning alone\<close>

definition same_tuning :: "clock_domain \<Rightarrow> clock_domain \<Rightarrow> bool" where
  "same_tuning d d' \<longleftrightarrow> d_parent d' = d_parent d \<and> d_children d' = d_children d \<and> d_root d' = d_root d \<and> d_ratio d' = d_ratio d
     \<and> d_mul d' = d_mul d \<and> d_div d' = d_div d \<and> d_units_per_tick d' = d_units_per_tick d"

lemma same_tuning_keeps:
  assumes "f_oscs f' = f_oscs f" "length (f_domains f') = length (f_domains f)"
    and "\<And>i. i < length (f_domains f) \<Longrightarrow> same_tuning (dom_at f i) (dom_at f' i)"
    and "links_wf f" "\<And>i. i < length (f_domains f) \<Longrightarrow> phase_ok f' i"
  shows "links_wf f'" "i < length (f_domains f) \<Longrightarrow> rate_ok f' i \<longleftrightarrow> rate_ok f i" "below (f_domains f') = below (f_domains f)"
    "forest_wf f \<Longrightarrow> forest_wf f'"
proof -
  have sl: "same_links (f_domains f) (f_domains f')" using assms(2,3) by (simp add: same_links_def same_tuning_def)
  show "below (f_domains f') = below (f_domains f)" by (rule same_links_shape(2) [OF sl])
  have p: "p < length (f_domains f)" if "d_parent (dom_at f i) = Some p" "i < length (f_domains f)" for i p
    using that tree_wf_parent [OF links_wfD(1) [OF assms(4)], of p i] by (simp add: child_of_def)
  have "link_ok f' i" if "i < length (f_domains f)" for i
    using links_wfD(2) [OF assms(4) that] assms(3) [OF that] assms(3) p [OF _ that] assms(1)
    by (auto simp: link_ok_def Let_def same_tuning_def rating_ok_def)
  moreover have "osc_ok f' oi" if "oi < length (f_oscs f)" for oi
    using links_wfD(4) [OF assms(4) that] assms(1,2) assms(3) [of "o_root (osc_at f oi)"]
    by (simp add: osc_ok_def Let_def same_tuning_def)
  ultimately show l: "links_wf f'"
    using assms(1,2,5) links_wfD(1) [OF assms(4)] same_links_shape(3) [OF sl] by (simp add: links_wf_def)
  show r: "rate_ok f' i \<longleftrightarrow> rate_ok f i" if "i < length (f_domains f)" for i
  proof -
    have "d_ratio (dom_at f' p) = d_ratio (dom_at f p)" if "d_parent (dom_at f i) = Some p" for p
      using assms(3) [OF p [OF that \<open>i < _\<close>]] by (simp add: same_tuning_def)
    then have "ratio_from (\<lambda>p. d_ratio (dom_at f' p)) (dom_at f' i) q = ratio_from (\<lambda>p. d_ratio (dom_at f p)) (dom_at f i) q" for q
      using assms(3) [OF that] by (auto simp: ratio_from_def same_tuning_def split: option.splits)
    then show ?thesis using assms(1) assms(3) [OF that] by (simp add: rate_ok_def Let_def same_tuning_def)
  qed
  show "forest_wf f \<Longrightarrow> forest_wf f'" using l r assms(1,2) by (simp add: forest_wf_def)
qed

lemma upd_dom_simps [simp]:
  "f_oscs (upd_dom i g f) = f_oscs f" "length (f_domains (upd_dom i g f)) = length (f_domains f)"
  "j \<noteq> i \<Longrightarrow> dom_at (upd_dom i g f) j = dom_at f j"
  "i < length (f_domains f) \<Longrightarrow> dom_at (upd_dom i g f) i = g (dom_at f i)"
  by (simp_all add: upd_dom_def)

lemma upd_osc_simps [simp]:
  "f_domains (upd_osc i g f) = f_domains f" "length (f_oscs (upd_osc i g f)) = length (f_oscs f)"
  "j \<noteq> i \<Longrightarrow> osc_at (upd_osc i g f) j = osc_at f j"
  "i < length (f_oscs f) \<Longrightarrow> osc_at (upd_osc i g f) i = g (osc_at f i)"
  by (simp_all add: upd_osc_def)

lemma foldl_upd_dom:
  assumes "distinct ms" "\<And>m. m \<in> set ms \<Longrightarrow> m < length (f_domains f)"
  shows "f_oscs (foldl (\<lambda>f m. upd_dom m g f) f ms) = f_oscs f
    \<and> length (f_domains (foldl (\<lambda>f m. upd_dom m g f) f ms)) = length (f_domains f)
    \<and> (\<forall>j. dom_at (foldl (\<lambda>f m. upd_dom m g f) f ms) j = (if j \<in> set ms then g (dom_at f j) else dom_at f j))"
  using assms
proof (induction ms arbitrary: f)
  case (Cons m ms)
  have m: "m < length (f_domains f)" "m \<notin> set ms" using Cons.prems by simp_all
  then have dj: "dom_at (upd_dom m g f) j = (if j = m then g (dom_at f m) else dom_at f j)" for j by simp
  from Cons.IH [of "upd_dom m g f"] Cons.prems m(2) show ?case by (auto simp: dj simp del: upd_dom_simps(3,4))
qed simp

section \<open>Materialising counters\<close>

lemma ticks_at_lt: "d_base_ticks d < two64 \<Longrightarrow> ticks_at d u < two64"
  by (simp add: ticks_at_def wrapping_add64_def)

lemma rebase_subtree_keeps:
  assumes "forest_wf f" "i < length (f_domains f)"
  defines "f' \<equiv> rebase_subtree f i"
  shows "forest_wf f'" "steady f f'" "f_oscs f' = f_oscs f"
    "j < length (f_domains f) \<Longrightarrow> same_tuning (dom_at f j) (dom_at f' j)"
    "j < length (f_domains f) \<Longrightarrow> here f' j = here f j"
    "j < length (f_domains f) \<Longrightarrow> j \<in> below (f_domains f) i \<or> d_base_unit (dom_at f j) = here f j \<Longrightarrow> d_base_unit (dom_at f' j) = here f' j"
    "below (f_domains f') = below (f_domains f)"
    "j < length (f_domains f) \<Longrightarrow> d_own (dom_at f' j) = d_own (dom_at f j)"
proof -
  have l: "links_wf f" using assms(1) by (simp add: forest_wf_def)
  note w = subtree_correct [OF links_wfD(1) [OF l] assms(2)]
  let ?u = "o_units (osc_at f (d_root (dom_at f i)))"
  have lt: "m < length (f_domains f)" if "m \<in> set (subtree f i)" for m using that w(2) below_lt [OF assms(2)] by blast
  note fo = foldl_upd_dom [OF w(1) lt, of "rebase ?u"]
  have f': "f' = foldl (\<lambda>f m. upd_dom m (rebase ?u) f) f (subtree f i)" by (simp add: f'_def rebase_subtree_def Let_def)
  have len: "length (f_domains f') = length (f_domains f)" using fo by (simp add: f')
  show o: "f_oscs f' = f_oscs f" using fo by (simp add: f')
  have dom: "dom_at f' j = (if j \<in> below (f_domains f) i then rebase ?u (dom_at f j) else dom_at f j)" for j
    using fo w(2) by (simp add: f')
  have u: "o_units (osc_at f (d_root (dom_at f j))) = ?u" if "j \<in> below (f_domains f) i" for j
    using below_same_root [OF l assms(2) that] by simp
  have reb: "rebase ?u (dom_at f j) = (dom_at f j)\<lparr>d_base_ticks := tick_count f j, d_base_unit := here f j\<rparr>"
    if "j \<in> below (f_domains f) i" for j
    using u [OF that] by (simp add: rebase_def Let_def tick_count_def here_def)
  show tu: "same_tuning (dom_at f j) (dom_at f' j)" for j using dom by (simp add: same_tuning_def rebase_def Let_def)
  show own: "d_own (dom_at f' j) = d_own (dom_at f j)" for j using dom by (simp add: rebase_def Let_def)
  show h: "here f' j = here f j" for j using tu [of j] own [of j] by (simp add: here_def o domain_position_def same_tuning_def)
  have ph: "phase_ok f j" if "j < length (f_domains f)" for j by (rule links_wfD(3) [OF l that])
  have "here f j < two64" if "j < length (f_domains f)" for j
    using ph [OF that] osc_okD(1) [OF links_wfD(4) [OF l link_okD(1) [OF links_wfD(2) [OF l that]]]]
    by (simp add: here_def domain_position_def phase_ok_def timeline_wf_def)
  note h64 = this
  show base: "d_base_unit (dom_at f' j) = here f' j" if "j \<in> below (f_domains f) i \<or> d_base_unit (dom_at f j) = here f j" for j
    using that h dom reb by (cases "j \<in> below (f_domains f) i") auto
  have bt: "d_base_ticks (dom_at f' j) = (if j \<in> below (f_domains f) i then tick_count f j else d_base_ticks (dom_at f j))" for j
    using dom reb by simp
  have p': "phase_ok f' j" if "j < length (f_domains f)" for j
    using ph [OF that] bt [of j] h [of j] own [of j] base [of j] dom [of j] ticks_at_lt [of "dom_at f j"]
    by (auto simp: phase_ok_def tick_count_def)
  have "tick_count f' j = tick_count f j" if "j < length (f_domains f)" for j
  proof (cases "j \<in> below (f_domains f) i")
    case True
    then show ?thesis
      using ticks_at_base [of "dom_at f' j"] base [of j] bt [of j] p' [OF that] h [of j] h64 [OF that]
      by (simp add: tick_count_def phase_ok_def)
  next
    case False
    then show ?thesis using h [of j] dom by (simp add: tick_count_def)
  qed
  then show "steady f f'" using len o by (simp add: steady_def)
  show "forest_wf f'" "below (f_domains f') = below (f_domains f)"
    using same_tuning_keeps(3,4) [OF o len tu l p'] assms(1) by simp_all
qed

section \<open>Re-rating\<close>

definition request_ok :: "rate_request \<Rightarrow> bool" where
  "request_ok r \<longleftrightarrow> q_mul r < two64 \<and> q_div r < two64"

lemma check_requests_Inr:
  assumes "check_requests f rs = Inr u" "r \<in> set rs"
  shows "q_domain r < length (f_domains f)" "d_parent (dom_at f (q_domain r)) \<noteq> None" "0 < q_mul r" "0 < q_div r"
proof -
  have "\<forall>r\<in>set rs. q_domain r < length (f_domains f) \<and> d_parent (dom_at f (q_domain r)) \<noteq> None \<and> 0 < q_mul r \<and> 0 < q_div r"
    using assms(1) by (induction rs) (auto simp: rbind_eq_Inr check_domain_def Let_def split: if_splits)
  then show "q_domain r < length (f_domains f)" "d_parent (dom_at f (q_domain r)) \<noteq> None" "0 < q_mul r" "0 < q_div r"
    using assms(2) by auto
qed

text \<open>Materialising the subtrees of a batch.\<close>

lemma rebase_all_keeps:
  assumes "forest_wf f" "\<forall>r\<in>set rs. q_domain r < length (f_domains f)"
  defines "f' \<equiv> foldl (\<lambda>f r. rebase_subtree f (q_domain r)) f rs"
  shows "forest_wf f'" "steady f f'" "f_oscs f' = f_oscs f" "below (f_domains f') = below (f_domains f)"
    "j < length (f_domains f) \<Longrightarrow> same_tuning (dom_at f j) (dom_at f' j)"
    "j < length (f_domains f) \<Longrightarrow> d_base_unit (dom_at f j) = here f j \<or> (\<exists>r\<in>set rs. j \<in> below (f_domains f) (q_domain r))
       \<Longrightarrow> d_base_unit (dom_at f' j) = here f' j"
proof -
  have "forest_wf f' \<and> steady f f' \<and> f_oscs f' = f_oscs f \<and> below (f_domains f') = below (f_domains f)
    \<and> (\<forall>j<length (f_domains f). same_tuning (dom_at f j) (dom_at f' j)
        \<and> (d_base_unit (dom_at f j) = here f j \<or> (\<exists>r\<in>set rs. j \<in> below (f_domains f) (q_domain r))
             \<longrightarrow> d_base_unit (dom_at f' j) = here f' j))"
    using assms(1,2) unfolding f'_def
  proof (induction rs arbitrary: f)
    case (Cons r rs)
    let ?g = "rebase_subtree f (q_domain r)"
    note k = rebase_subtree_keeps [OF Cons.prems(1), of "q_domain r"]
    have q: "q_domain r < length (f_domains f)" using Cons.prems(2) by simp
    have len: "length (f_domains ?g) = length (f_domains f)" using k(2) [OF q] by (simp add: steady_def)
    have "\<forall>r\<in>set rs. q_domain r < length (f_domains ?g)" using Cons.prems(2) len by simp
    note IH = Cons.IH [OF k(1) [OF q] this]
    have "same_tuning (dom_at f j) (dom_at (foldl (\<lambda>f r. rebase_subtree f (q_domain r)) ?g rs) j)" if "j < length (f_domains f)" for j
      using IH k(4) [OF q that] len that by (auto simp: same_tuning_def)
    then show ?case using IH k [OF q] len steady_trans [OF k(2) [OF q]] by (simp; blast)
  qed (simp add: same_tuning_def)
  then show "forest_wf f'" "steady f f'" "f_oscs f' = f_oscs f" "below (f_domains f') = below (f_domains f)"
    "j < length (f_domains f) \<Longrightarrow> same_tuning (dom_at f j) (dom_at f' j)"
    "j < length (f_domains f) \<Longrightarrow> d_base_unit (dom_at f j) = here f j \<or> (\<exists>r\<in>set rs. j \<in> below (f_domains f) (q_domain r))
       \<Longrightarrow> d_base_unit (dom_at f' j) = here f' j"
    by blast+
qed

text \<open>Writing the new multipliers and divisors, and collecting the trees.\<close>

definition rerated :: "rate_request list \<Rightarrow> clock_forest \<Rightarrow> clock_forest \<Rightarrow> bool" where
  "rerated rs f g \<longleftrightarrow> f_oscs g = f_oscs f \<and> length (f_domains g) = length (f_domains f)
     \<and> (\<forall>j<length (f_domains f). \<exists>m v. dom_at g j = (dom_at f j)\<lparr>d_mul := m, d_div := v\<rparr>
         \<and> (if j \<in> q_domain ` set rs then \<exists>r\<in>set rs. m = q_mul r \<and> v = q_div r else m = d_mul (dom_at f j) \<and> v = d_div (dom_at f j)))"

lemma assign_ratings:
  assumes "\<And>r. r \<in> set rs \<Longrightarrow> q_domain r < length (f_domains f)" "foldl assign_rating (f, []) rs = (g, ts)"
  shows "rerated rs f g \<and> set ts = (\<lambda>r. d_root (dom_at f (q_domain r))) ` set rs"
  using assms
proof (induction rs arbitrary: g ts rule: rev_induct)
  case (snoc r rs)
  obtain h us where h: "foldl assign_rating (f, []) rs = (h, us)" by (cases "foldl assign_rating (f, []) rs")
  have IH: "rerated rs f h" "set us = (\<lambda>r. d_root (dom_at f (q_domain r))) ` set rs" using snoc.IH [OF _ h] snoc.prems(1) by auto
  have q: "q_domain r < length (f_domains f)" using snoc.prems(1) by simp
  have g: "g = upd_dom (q_domain r) (\<lambda>d. d\<lparr>d_mul := q_mul r, d_div := q_div r\<rparr>) h"
    "ts = (if d_root (dom_at g (q_domain r)) \<in> set us then us else us @ [d_root (dom_at g (q_domain r))])"
    using snoc.prems(2) h by (auto simp: assign_rating_def [of "(h, us)" r] Let_def)
  have len: "length (f_domains h) = length (f_domains f)" using IH(1) by (simp add: rerated_def)
  have "d_root (dom_at g (q_domain r)) = d_root (dom_at f (q_domain r))"
    using IH(1) q len unfolding rerated_def g(1) by fastforce
  then have "set ts = (\<lambda>r. d_root (dom_at f (q_domain r))) ` set (rs @ [r])" using g(2) IH(2) by auto
  moreover have "\<exists>m v. dom_at g j = (dom_at f j)\<lparr>d_mul := m, d_div := v\<rparr>
         \<and> (if j \<in> q_domain ` set (rs @ [r]) then \<exists>r\<in>set (rs @ [r]). m = q_mul r \<and> v = q_div r
            else m = d_mul (dom_at f j) \<and> v = d_div (dom_at f j))" if j: "j < length (f_domains f)" for j
  proof -
    obtain m v where m: "dom_at h j = (dom_at f j)\<lparr>d_mul := m, d_div := v\<rparr>"
      "if j \<in> q_domain ` set rs then \<exists>r\<in>set rs. m = q_mul r \<and> v = q_div r else m = d_mul (dom_at f j) \<and> v = d_div (dom_at f j)"
      using IH(1) j unfolding rerated_def by blast
    show ?thesis
    proof (cases "j = q_domain r")
      case True
      then have "dom_at g j = (dom_at f j)\<lparr>d_mul := q_mul r, d_div := q_div r\<rparr>" using m(1) q len by (simp add: g(1))
      then have "dom_at g j = (dom_at f j)\<lparr>d_mul := q_mul r, d_div := q_div r\<rparr>
         \<and> (if j \<in> q_domain ` set (rs @ [r]) then \<exists>r'\<in>set (rs @ [r]). q_mul r = q_mul r' \<and> q_div r = q_div r'
            else q_mul r = d_mul (dom_at f j) \<and> q_div r = d_div (dom_at f j))" using True by auto
      then show ?thesis by (intro exI)
    next
      case False
      then have "dom_at g j = (dom_at f j)\<lparr>d_mul := m, d_div := v\<rparr>" using m(1) by (simp add: g(1))
      then have "dom_at g j = (dom_at f j)\<lparr>d_mul := m, d_div := v\<rparr>
         \<and> (if j \<in> q_domain ` set (rs @ [r]) then \<exists>r'\<in>set (rs @ [r]). m = q_mul r' \<and> v = q_div r'
            else m = d_mul (dom_at f j) \<and> v = d_div (dom_at f j))" using False m(2) by auto
      then show ?thesis by (intro exI)
    qed
  qed
  ultimately show ?case using IH(1) by (simp add: rerated_def g(1))
qed (simp add: rerated_def)

lemma rerated_keeps:
  assumes "rerated rs f g" "forest_wf f" "\<forall>r\<in>set rs. request_ok r \<and> 0 < q_mul r \<and> 0 < q_div r"
    and "\<forall>j<length (f_domains f). \<forall>r\<in>set rs. j \<in> below (f_domains f) (q_domain r) \<longrightarrow> d_base_unit (dom_at f j) = here f j"
  shows "links_wf g" "j < length (f_domains f) \<Longrightarrow> settled g j" "steady f g"
    "j < length (f_domains f) \<Longrightarrow> j \<notin> q_domain ` set rs \<Longrightarrow> rate_ok g j"
    "j < length (f_domains f) \<Longrightarrow> d_root (dom_at g j) = d_root (dom_at f j)"
proof -
  have l: "links_wf f" using assms(2) by (simp add: forest_wf_def)
  have o: "f_oscs g = f_oscs f" "length (f_domains g) = length (f_domains f)" using assms(1) by (simp_all add: rerated_def)
  have dom: "\<exists>m v. dom_at g j = (dom_at f j)\<lparr>d_mul := m, d_div := v\<rparr>" if "j < length (f_domains f)" for j
    using assms(1) that unfolding rerated_def by blast
  have fld: "d_parent (dom_at g j) = d_parent (dom_at f j)" "d_children (dom_at g j) = d_children (dom_at f j)"
    "d_root (dom_at g j) = d_root (dom_at f j)" "d_ratio (dom_at g j) = d_ratio (dom_at f j)"
    "d_units_per_tick (dom_at g j) = d_units_per_tick (dom_at f j)" "d_base_unit (dom_at g j) = d_base_unit (dom_at f j)"
    "d_base_ticks (dom_at g j) = d_base_ticks (dom_at f j)" "d_own (dom_at g j) = d_own (dom_at f j)"
    "ticks_at (dom_at g j) u = ticks_at (dom_at f j) u" "here g j = here f j" if "j < length (f_domains f)" for j u
    using dom [OF that] o(1) by (auto simp: ticks_at_def here_def domain_position_def)
  have rat: "rating_ok (dom_at g j)" if "j < length (f_domains f)" for j
    using assms(1) that assms(3) link_okD(3) [OF links_wfD(2) [OF l that]]
    unfolding rerated_def by (fastforce simp: rating_ok_def request_ok_def split: if_splits)
  have unch: "dom_at g j = dom_at f j" if "j < length (f_domains f)" "j \<notin> q_domain ` set rs" for j
    using assms(1) that unfolding rerated_def by fastforce
  have sl: "same_links (f_domains f) (f_domains g)" using fld o by (simp add: same_links_def)
  have par: "p < length (f_domains f)" if "d_parent (dom_at f j) = Some p" "j < length (f_domains f)" for j p
    using that tree_wf_parent [OF links_wfD(1) [OF l], of p j] by (simp add: child_of_def)
  have "link_ok g j" if "j < length (f_domains f)" for j
    using links_wfD(2) [OF l that] fld [OF that] fld(3) [OF par [OF _ that]] rat [OF that] o(1) by (auto simp: link_ok_def Let_def)
  moreover have "phase_ok g j" if "j < length (f_domains f)" for j
    using links_wfD(3) [OF l that] fld [OF that] by (simp add: phase_ok_def)
  moreover have "osc_ok g oi" if "oi < length (f_oscs f)" for oi
    using links_wfD(4) [OF l that] o fld [of "o_root (osc_at f oi)"] by (simp add: osc_ok_def Let_def)
  ultimately show "links_wf g" using o same_links_shape(3) [OF sl] links_wfD(1) [OF l] by (simp add: links_wf_def)
  show ok: "rate_ok g j" if "j < length (f_domains f)" "j \<notin> q_domain ` set rs" for j
  proof -
    have eq: "ratio_from (\<lambda>p. d_ratio (dom_at g p)) (dom_at f j) q = ratio_from (\<lambda>p. d_ratio (dom_at f p)) (dom_at f j) q" for q
      using fld(4) [OF par [OF _ that(1)]] by (auto simp: ratio_from_def split: option.splits)
    have "rate_ok f j" using assms(2) that(1) by (simp add: forest_wf_def)
    then show ?thesis unfolding rate_ok_def Let_def unch [OF that] o(1) eq .
  qed
  show "d_root (dom_at g j) = d_root (dom_at f j)" if "j < length (f_domains f)" using fld(3) [OF that] .
  show "steady f g" using o fld(9,10) by (simp add: steady_def tick_count_def)
  show "settled g j" if j: "j < length (f_domains f)"
  proof (cases "\<exists>r\<in>set rs. j \<in> below (f_domains f) (q_domain r)")
    case True
    then show ?thesis using assms(4) j fld [OF j] by (auto simp: settled_def)
  next
    case False
    have "rate_ok g a" if "j \<in> below (f_domains f) a" for a
      using ok [of a] False that above_lt [OF links_wfD(1) [OF l] j] by (auto simp: ancestors_def)
    then show ?thesis by (simp add: settled_def same_links_shape(2) [OF sl])
  qed
qed

lemma set_ratings_keeps:
  assumes "forest_wf f" "\<And>r. r \<in> set rs \<Longrightarrow> request_ok r" "set_ratings f rs = (f', res)"
  shows "forest_wf f'" "steady f f'" "res \<noteq> Inl (Panicked m)" "res = Inl e \<Longrightarrow> f' = f"
proof -
  have "forest_wf f' \<and> steady f f' \<and> res \<noteq> Inl (Panicked m) \<and> (res = Inl e \<longrightarrow> f' = f)"
  proof (cases "rs = [] \<or> (\<exists>e. check_requests f rs = Inl e)")
    case True
    then have "f' = f \<and> (res = Inr () \<or> (\<exists>e. res = Inl (Refused e)))"
      using assms(3) by (cases "rs = []") (auto simp: set_ratings_def)
    then show ?thesis using assms(1) by auto
  next
    case False
    then obtain u where "check_requests f rs = Inr u" by (cases "check_requests f rs") auto
    note c = check_requests_Inr [OF this]
    let ?f1 = "foldl (\<lambda>f r. rebase_subtree f (q_domain r)) f rs"
    obtain g ts where g: "foldl assign_rating (?f1, []) rs = (g, ts)" by (cases "foldl assign_rating (?f1, []) rs")
    have "\<forall>r\<in>set rs. q_domain r < length (f_domains f)" using c(1) by blast
    note r = rebase_all_keeps [OF assms(1) this]
    have len: "length (f_domains ?f1) = length (f_domains f)" using r(2) by (simp add: steady_def)
    have as: "rerated rs ?f1 g \<and> set ts = (\<lambda>r. d_root (dom_at ?f1 (q_domain r))) ` set rs"
      using assign_ratings [OF _ g] c(1) len by simp
    have req: "\<forall>q\<in>set rs. request_ok q \<and> 0 < q_mul q \<and> 0 < q_div q" using assms(2) c(3,4) by simp
    have base: "\<forall>j<length (f_domains ?f1). \<forall>q\<in>set rs. j \<in> below (f_domains ?f1) (q_domain q) \<longrightarrow> d_base_unit (dom_at ?f1 j) = here ?f1 j"
      using r(6) r(4) len by auto
    note k = rerated_keeps [OF conjunct1 [OF as] r(1) req base]
    have og: "f_oscs g = f_oscs ?f1" "length (f_domains g) = length (f_domains ?f1)" using as by (simp_all add: rerated_def)
    have l1: "links_wf ?f1" using r(1) by (simp add: forest_wf_def)
    have tr: "\<forall>oi\<in>set ts. oi < length (f_oscs g) \<and> o_active (osc_at g oi)"
      using as og c(1) len link_okD(1,2) [OF links_wfD(2) [OF l1]] by auto
    have all: "\<forall>j<length (f_domains g). settled g j \<and> (d_root (dom_at g j) \<in> set ts \<or> rate_ok g j)"
      using k(2,4,5) as og by auto
    have os: "\<forall>oi<length (f_oscs g). oi \<in> set ts \<or> rate_set (osc_at g oi)" using og r(1) by (simp add: forest_wf_def)
    have s: "set_ratings f rs = or_restore f (recompute_trees g ts) ()"
      using False g \<open>check_requests f rs = Inr u\<close> by (simp add: set_ratings_def)
    show ?thesis
    proof (cases "recompute_trees g ts")
      case (Inl e')
      then show ?thesis using s assms(1,3) recompute_trees_no_panic [OF k(1) tr, of m] all by (auto simp: or_restore_def)
    next
      case (Inr h)
      from recompute_trees_keeps [OF Inr k(1) tr all os] steady_trans [OF r(2) k(3)] show ?thesis
        using s Inr assms(3) by (auto simp: or_restore_def intro: steady_trans)
    qed
  qed
  then show "forest_wf f'" "steady f f'" "res \<noteq> Inl (Panicked m)" "res = Inl e \<Longrightarrow> f' = f" by blast+
qed

end
