(* ===== verification/Clock_Change.thy ===== *)
theory Clock_Change
  imports Clock_Ops
begin

text \<open>
  The remaining operations of the clock forest keep the invariant: new
  oscillators and domains, changed frequencies, advancing, gating and moving a
  subtree under another parent.
\<close>

section \<open>One tree\<close>

lemma recompute_trees_single: "recompute_trees f [oi] = recompute_tree f oi"
  by (cases "recompute_tree f oi") simp_all

lemma recompute_tree_keeps:
  assumes "links_wf f" "oi < length (f_oscs f)" "o_active (osc_at f oi)"
    and "\<forall>i<length (f_domains f). settled f i \<and> (d_root (dom_at f i) = oi \<or> rate_ok f i)"
    and "\<forall>oj<length (f_oscs f). oj \<noteq> oi \<longrightarrow> rate_set (osc_at f oj)"
  shows "recompute_tree f oi \<noteq> Inl (Panicked m)" "recompute_tree f oi = Inr f' \<Longrightarrow> forest_wf f' \<and> steady f f'"
  using recompute_trees_no_panic [OF assms(1), of "[oi]"] recompute_trees_keeps [of f "[oi]" f', OF _ assms(1)] assms(2-)
  unfolding recompute_trees_single by auto

lemma or_restore_cases:
  assumes "or_restore f r v = (f', res)"
  shows "(\<exists>e. r = Inl e \<and> f' = f \<and> res = Inl e) \<or> (r = Inr f' \<and> res = Inr v)"
  using assms by (cases r) (auto simp: or_restore_def)

lemma settled_wf: "forest_wf f \<Longrightarrow> i < length (f_domains f) \<Longrightarrow> settled f i"
  using above_lt [of "f_domains f" i] by (auto simp: settled_def forest_wf_def links_wf_def ancestors_def)

lemma forest_links: "forest_wf f \<Longrightarrow> links_wf f"
  by (simp add: forest_wf_def)

section \<open>Frequency\<close>

text \<open>Changing the frequency changes no link, rate or counter until the tree is recomputed.\<close>

lemma refrequency:
  assumes "forest_wf f" "rate_wf freq" "0 < r_num freq" "oi < length (f_oscs f)"
  defines "g \<equiv> upd_osc oi (\<lambda>x. x\<lparr>o_freq := freq\<rparr>) f"
  shows "links_wf g" "\<forall>i<length (f_domains g). settled g i \<and> rate_ok g i" "steady f g"
    "\<forall>oj<length (f_oscs g). oj \<noteq> oi \<longrightarrow> rate_set (osc_at g oj)"
proof -
  have o: "osc_at g oj = (if oj = oi then (osc_at f oi)\<lparr>o_freq := freq\<rparr> else osc_at f oj)" for oj
    using assms(4) by (simp add: g_def)
  have fld: "o_units (osc_at g oj) = o_units (osc_at f oj)" "o_unit_mul (osc_at g oj) = o_unit_mul (osc_at f oj)"
    "o_time (osc_at g oj) = o_time (osc_at f oj)" "o_active (osc_at g oj) = o_active (osc_at f oj)" "o_root (osc_at g oj) = o_root (osc_at f oj)"
    "timeline_wf (osc_at g oj) = timeline_wf (osc_at f oj)" for oj
    by (simp_all add: o timeline_wf_def conversion_wf_def exact_time_def unit_span_def)
  have d: "f_domains g = f_domains f" "length (f_oscs g) = length (f_oscs f)" by (simp_all add: g_def)
  have h: "here g i = here f i" "rate_ok g i = rate_ok f i" "link_ok g i = link_ok f i" for i
    by (simp_all add: here_def rate_ok_def Let_def link_ok_def d fld)
  have "osc_ok g oj" if "oj < length (f_oscs f)" for oj
    using links_wfD(4) [OF forest_links [OF assms(1)] that] assms(2,3) d fld by (auto simp: osc_ok_def Let_def o)
  then show "links_wf g"
    using assms(1) d h(1,3) by (simp add: forest_wf_def links_wf_def phase_ok_def)
  show "\<forall>i<length (f_domains g). settled g i \<and> rate_ok g i"
    using settled_wf [OF assms(1)] assms(1) d h(1,2) by (simp add: settled_def forest_wf_def)
  show "steady f g" using d fld h by (simp add: steady_def tick_count_def)
  show "\<forall>oj<length (f_oscs g). oj \<noteq> oi \<longrightarrow> rate_set (osc_at g oj)" using assms(1) d o by (simp add: forest_wf_def)
qed

lemma set_frequency_keeps:
  assumes "forest_wf f" "rate_wf freq" "set_frequency f oi freq = (f', res)" "oi < length (f_oscs f) \<Longrightarrow> o_active (osc_at f oi)"
  shows "forest_wf f' \<and> steady f f' \<and> res \<noteq> Inl (Panicked m) \<and> (res = Inl e \<longrightarrow> f' = f)"
proof (cases "length (f_oscs f) \<le> oi \<or> rate_is_zero freq")
  case True
  then have "f' = f \<and> (\<exists>e. res = Inl (Refused e))" using assms(3) by (auto simp: set_frequency_def split: if_splits)
  then show ?thesis using assms(1) by auto
next
  case False
  then have oi: "oi < length (f_oscs f)" "0 < r_num freq" by (simp_all add: rate_is_zero_def)
  let ?g = "upd_osc oi (\<lambda>x. x\<lparr>o_freq := freq\<rparr>) f"
  note r = refrequency [OF assms(1,2) oi(2,1)]
  have "oi < length (f_oscs ?g)" "o_active (osc_at ?g oi)" using oi assms(4) by simp_all
  note k = recompute_tree_keeps [OF r(1) this _ r(4)]
  have "or_restore f (recompute_tree ?g oi) () = (f', res)" using assms(3) False by (simp add: set_frequency_def)
  from or_restore_cases [OF this] k r(2) show ?thesis using assms(1) steady_trans [OF r(3)] by auto
qed

section \<open>Advancing\<close>

text \<open>Moving the counter of one oscillator forward.\<close>

lemma advance_units_cases:
  assumes "advance_units f oi n = (f', res)"
  shows "(\<exists>e. res = Inl (Refused e) \<and> f' = f) \<or> (res = Inr () \<and> oi < length (f_oscs f) \<and> o_units (osc_at f oi) + n < two64 \<and>
      (\<exists>x. accumulate (osc_at f oi) n = Inr x \<and> f' = upd_osc oi (\<lambda>_. x\<lparr>o_units := o_units (osc_at f oi) + n\<rparr>) f))"
  using assms by (auto simp: advance_units_def Let_def checked_u64_def split: if_splits sum.splits option.splits)

lemma accumulate_timeline:
  assumes "timeline_wf x" "o_units x + n < two64" "accumulate x n = Inr y"
  shows "timeline_wf (y\<lparr>o_units := o_units x + n\<rparr>)" "y = x\<lparr>o_time := o_time y, o_residual := o_residual y\<rparr>" "o_time x \<le> o_time y"
    "o_time y = exact_time x (o_units x + n)"
proof -
  have w: "o_base_units x \<le> o_units x" "o_time x = exact_time x (o_units x)" "conversion_wf x" using assms(1) by (simp_all add: timeline_wf_def)
  have y: "exact_time x (o_units x + n) < two128" "y = x\<lparr>o_time := exact_time x (o_units x + n),
      o_residual := (o_units x + n - o_base_units x) * unit_span x mod r_num (o_unit_rate x)\<rparr>"
    using assms(3) unfolding accumulate_exact [OF assms(1,2)] by (auto simp: ok_or_eq_Inr checked_u128_def split: if_splits)
  then show "timeline_wf (y\<lparr>o_units := o_units x + n\<rparr>)"
    using w assms(2) by (simp add: timeline_wf_def conversion_wf_def exact_time_def unit_span_def)
  show "y = x\<lparr>o_time := o_time y, o_residual := o_residual y\<rparr>" "o_time y = exact_time x (o_units x + n)" using y(2) by simp_all
  show "o_time x \<le> o_time y" unfolding y(2) w(2) by (simp add: exact_time_def div_le_mono mult_le_mono diff_le_mono)
qed

lemma advance_units_keeps:
  assumes "forest_wf f" "advance_units f oi n = (f', res)"
  shows "forest_wf f' \<and> res \<noteq> Inl (Panicked m) \<and> (res = Inl e \<longrightarrow> f' = f)"
  using advance_units_cases [OF assms(2)]
proof (elim disjE conjE exE)
  fix x assume oi: "oi < length (f_oscs f)" "o_units (osc_at f oi) + n < two64" and acc: "accumulate (osc_at f oi) n = Inr x"
    and f': "f' = upd_osc oi (\<lambda>_. x\<lparr>o_units := o_units (osc_at f oi) + n\<rparr>) f" and res: "res = Inr ()"
  have l: "links_wf f" by (rule forest_links [OF assms(1)])
  note t = accumulate_timeline [OF osc_okD(1) [OF links_wfD(4) [OF l oi(1)]] oi(2) acc]
  have d: "f_domains f' = f_domains f" "length (f_oscs f') = length (f_oscs f)" by (simp_all add: f')
  have o: "osc_at f' oj = (if oj = oi then x\<lparr>o_units := o_units (osc_at f oi) + n\<rparr> else osc_at f oj)" for oj using oi(1) by (simp add: f')
  have fld: "o_unit_mul (osc_at f' oj) = o_unit_mul (osc_at f oj)" "o_active (osc_at f' oj) = o_active (osc_at f oj)"
    "o_root (osc_at f' oj) = o_root (osc_at f oj)" "o_freq (osc_at f' oj) = o_freq (osc_at f oj)"
    "o_unit_rate (osc_at f' oj) = o_unit_rate (osc_at f oj)" "o_units (osc_at f oj) \<le> o_units (osc_at f' oj)" for oj
    unfolding o by (subst t(2); simp)+
  have "here f i \<le> here f' i" for i
    using fld(6) [of "d_root (dom_at f i)"] by (auto simp: here_def domain_position_def d max_def)
  then have "phase_ok f' i" if "phase_ok f i" for i using that d by (auto simp: phase_ok_def intro: le_trans)
  moreover have "osc_ok f' oj" if "oj < length (f_oscs f)" for oj
    using links_wfD(4) [OF l that] t(1) d fld by (auto simp: osc_ok_def Let_def o split: if_splits)
  moreover have "rate_ok f' i = rate_ok f i" "link_ok f' i = link_ok f i" for i
    by (simp_all add: rate_ok_def Let_def link_ok_def d fld)
  ultimately show ?thesis using assms(1) d fld res by (simp add: forest_wf_def links_wf_def rate_set_def)
qed (use assms(1) in auto)

lemma advance_domain_keeps:
  assumes "forest_wf f" "advance_domain f i n = (f', res)"
  shows "forest_wf f' \<and> res \<noteq> Inl (Panicked m) \<and> (res = Inl e \<longrightarrow> f' = f)"
proof (cases "(\<exists>e. res = Inl (Refused e)) \<and> f' = f")
  case False
  have "\<exists>oi delta. advance_units f oi delta = (f', res)"
    using assms(2) False by (auto simp: advance_domain_def split: sum.splits if_splits option.splits)
  then show ?thesis by (elim exE) (rule advance_units_keeps [OF assms(1)])
qed (use assms(1) in auto)

lemma advance_tree_to_keeps:
  assumes "forest_wf f" "advance_tree_to f oi n = (f', res)"
  shows "forest_wf f' \<and> res \<noteq> Inl (Panicked m) \<and> (res = Inl e \<longrightarrow> f' = f)"
proof (cases "((\<exists>e. res = Inl (Refused e)) \<or> res = Inr ()) \<and> f' = f")
  case False
  then obtain k where "advance_units f oi k = (f', res)"
    using assms(2) by (auto simp: advance_tree_to_def split: sum.splits if_splits)
  then show ?thesis by (rule advance_units_keeps [OF assms(1)])
qed (use assms(1) in auto)

lemma advance_to_global_keeps:
  assumes "forest_wf f" "advance_to_global f oi t = (f', res)"
  shows "forest_wf f' \<and> res \<noteq> Inl (Panicked m) \<and> (res = Inl e \<longrightarrow> f' = f)"
proof (cases "((\<exists>e. res = Inl (Refused e)) \<or> res = Inr 0) \<and> f' = f")
  case False
  then obtain k r where k: "advance_units f oi k = (f', r)" "case r of Inl e \<Rightarrow> res = Inl e | Inr _ \<Rightarrow> res = Inr k"
    using assms(2) by (auto simp: advance_to_global_def Let_def split: sum.splits if_splits prod.splits)
  then show ?thesis using advance_units_keeps [OF assms(1) k(1)] by (auto split: sum.splits)
qed (use assms(1) in auto)

section \<open>One domain\<close>

lemma phase_update_keeps:
  assumes "forest_wf f" "i < length (f_domains f)" "\<And>d. same_tuning d (g d)" "phase_ok (upd_dom i g f) i"
  shows "forest_wf (upd_dom i g f)" "j \<noteq> i \<Longrightarrow> tick_count (upd_dom i g f) j = tick_count f j"
proof -
  let ?f = "upd_dom i g f"
  have h: "here ?f j = here f j" if "j \<noteq> i" for j using that by (simp add: here_def)
  then show "j \<noteq> i \<Longrightarrow> tick_count ?f j = tick_count f j" by (simp add: tick_count_def)
  have "phase_ok ?f j" if "j < length (f_domains f)" for j
    using links_wfD(3) [OF forest_links [OF assms(1)] that] h [of j] assms(4) by (cases "j = i") (simp_all add: phase_ok_def)
  moreover have "same_tuning (dom_at f j) (dom_at ?f j)" if "j < length (f_domains f)" for j
    using assms(2,3) by (cases "j = i") (simp_all add: same_tuning_def)
  ultimately show "forest_wf ?f" using same_tuning_keeps(4) [of ?f f, OF _ _ _ forest_links [OF assms(1)] _ assms(1)] by simp
qed

lemma units_lt: "forest_wf f \<Longrightarrow> i < length (f_domains f) \<Longrightarrow> o_units (osc_at f (d_root (dom_at f i))) < two64"
  using osc_okD(1) [OF links_wfD(4) [OF forest_links link_okD(1) [OF links_wfD(2) [OF forest_links]]]] by (simp add: timeline_wf_def)

lemma advance_alone_keeps:
  assumes "forest_wf f" "advance_alone f i n = (f', res)"
  shows "forest_wf f' \<and> res \<noteq> Inl (Panicked m) \<and> (res = Inl e \<longrightarrow> f' = f)"
proof (cases "(\<exists>e. res = Inl (Refused e)) \<and> f' = f")
  case False
  then obtain d where d: "domain f i = Inr d" using assms(2) by (cases "domain f i") (auto simp: advance_alone_def)
  then have i: "i < length (f_domains f)" "domain f i = Inr (dom_at f i)" by (auto simp: domain_def ok_or_eq_Inr nth_opt_eq_Some)
  let ?own = "Option.bind (checked_u64 (n * d_units_per_tick (dom_at f i))) (\<lambda>delta. checked_u64 (here f i + delta))"
  have "advance_alone f i n = (if d_gated (dom_at f i) then (f, Inl (Refused (Gated (d_name (dom_at f i)))))
     else case ?own of None \<Rightarrow> (f, Inl (Refused (Overflow ''unit position'' [d_name (dom_at f i)])))
       | Some own \<Rightarrow> (upd_dom i (\<lambda>d. d\<lparr>d_own := own\<rparr>) f, Inr ()))"
    by (simp add: advance_alone_def i(2) Let_def here_def)
  with assms(2) False obtain own where own: "?own = Some own" "f' = upd_dom i (\<lambda>d. d\<lparr>d_own := own\<rparr>) f" "res = Inr ()"
    by (cases ?own; cases "d_gated (dom_at f i)") auto
  then have own: "i < length (f_domains f)" "own < two64" "here f i \<le> own" "f' = upd_dom i (\<lambda>d. d\<lparr>d_own := own\<rparr>) f" "res = Inr ()"
    using i(1) by (auto simp: bind_eq_Some_conv)
  have "here f i \<le> here f' i" using own(1,3) by (simp add: own(4) here_def domain_position_def)
  then have "phase_ok f' i"
    using links_wfD(3) [OF forest_links [OF assms(1)] own(1)] own by (auto simp: phase_ok_def own(4) intro: le_trans)
  then show ?thesis using phase_update_keeps(1) [OF assms(1) own(1)] own(4,5) by (simp add: same_tuning_def)
qed (use assms(1) in auto)

lemma set_gated_keeps:
  assumes "forest_wf f" "set_gated f i gated = (f', res)"
  shows "forest_wf f' \<and> steady f f' \<and> res \<noteq> Inl (Panicked m) \<and> (res = Inl e \<longrightarrow> f' = f)"
proof (cases "((\<exists>e. res = Inl (Refused e)) \<or> res = Inr ()) \<and> f' = f")
  case False
  let ?u = "o_units (osc_at f (d_root (dom_at f i)))"
  let ?g = "\<lambda>d. d\<lparr>d_base_ticks := ticks_at d (domain_position d ?u), d_base_unit := ?u, d_own := 0, d_gated := gated\<rparr>"
  have f': "i < length (f_domains f)" "f' = upd_dom i ?g f" "res = Inr ()"
    using False assms(2) by (auto simp: set_gated_def check_domain_def Let_def split: if_splits)
  have h: "here f' i = ?u" using f'(1) by (simp add: f'(2) here_def domain_position_def)
  have "d_base_ticks (dom_at f i) < two64" using links_wfD(3) [OF forest_links [OF assms(1)] f'(1)] by (simp add: phase_ok_def)
  then have bt: "tick_count f i < two64" "d_base_ticks (dom_at f' i) = tick_count f i"
    using f'(1) by (simp_all add: ticks_at_lt tick_count_def here_def f'(2))
  have "phase_ok f' i" using f'(1) bt h by (simp add: phase_ok_def f'(2))
  then have k: "forest_wf f'" "\<And>j. j \<noteq> i \<Longrightarrow> tick_count f' j = tick_count f j"
    using phase_update_keeps [OF assms(1) f'(1), of ?g] by (simp_all add: same_tuning_def f'(2))
  have "d_base_unit (dom_at f' i) = here f' i" using f'(1) h by (simp add: f'(2))
  then have "tick_count f' i = tick_count f i"
    using ticks_at_base [of "dom_at f' i"] bt h units_lt [OF assms(1) f'(1)] by (simp add: tick_count_def [of f'])
  then have "steady f f'" using k(2) f'(2) by (auto simp: steady_def) metis
  then show ?thesis using k(1) f'(3) by simp
qed (use assms(1) in auto)

section \<open>Growing the forest\<close>

definition undisturbed :: "clock_forest \<Rightarrow> clock_forest \<Rightarrow> bool" where
  "undisturbed f f' \<longleftrightarrow> length (f_domains f) \<le> length (f_domains f') \<and> length (f_oscs f) \<le> length (f_oscs f')
     \<and> (\<forall>i<length (f_domains f). tick_count f' i = tick_count f i)
     \<and> (\<forall>oi<length (f_oscs f). o_time (osc_at f' oi) = o_time (osc_at f oi))"

lemma steady_undisturbed: "steady f f' \<Longrightarrow> undisturbed f f'"
  by (simp add: steady_def undisturbed_def)

lemma undisturbed_steady: "undisturbed f g \<Longrightarrow> steady g h \<Longrightarrow> undisturbed f h"
  by (auto simp: steady_def undisturbed_def)

text \<open>One more domain, with its link to the parent it may have.\<close>

lemma grow_tree_wf:
  assumes "tree_wf ds" "length ds' = Suc (length ds)" "d_children (ds' ! length ds) = []"
    and "\<forall>i<length ds. d_parent (ds' ! i) = d_parent (ds ! i) \<and>
       d_children (ds' ! i) = d_children (ds ! i) @ (if d_parent (ds' ! length ds) = Some i then [length ds] else [])"
    and "\<forall>p. d_parent (ds' ! length ds) = Some p \<longrightarrow> p < length ds"
  shows "tree_wf ds'" "child_of ds' = child_of ds \<union> {(p, c). c = length ds \<and> d_parent (ds' ! length ds) = Some p}"
proof -
  let ?n = "length ds"
  show c: "child_of ds' = child_of ds \<union> {(p, c). c = ?n \<and> d_parent (ds' ! ?n) = Some p}"
    using assms(2,4) by (auto simp: child_of_def less_Suc_eq)
  have lt: "p < ?n" "ch < ?n" if "(p, ch) \<in> child_of ds" for p ch
    using that tree_wf_parent [OF assms(1) that] by (simp_all add: child_of_def)
  obtain rank :: "nat \<Rightarrow> nat" where rank: "\<And>p c. (p, c) \<in> child_of ds \<Longrightarrow> rank p < rank c"
    using assms(1) unfolding tree_wf_def by blast
  define top where "top = Suc (Max (insert 0 (rank ` {..<?n})))"
  have top: "rank i < top" if "i < ?n" for i using that by (simp add: top_def less_Suc_eq_le)
  have "(rank(?n := top)) p < (rank(?n := top)) ch" if "(p, ch) \<in> child_of ds'" for p ch
    using that assms(5) rank [of p ch] lt [of p ch] top [of p] unfolding c by auto
  then have "\<exists>rank :: nat \<Rightarrow> nat. \<forall>p c. (p, c) \<in> child_of ds' \<longrightarrow> rank p < rank c" by blast
  moreover have "distinct (d_children (ds' ! i)) \<and> (\<forall>ch. ch \<in> set (d_children (ds' ! i)) \<longleftrightarrow> (i, ch) \<in> child_of ds')"
    if i: "i < length ds'" for i
  proof (cases "i = ?n")
    case True
    then show ?thesis using assms(3,5) lt [of i] unfolding c by auto
  next
    case False
    then have i: "i < ?n" using i assms(2) by simp
    note ch = tree_wf_children [OF assms(1) i]
    have "?n \<notin> set (d_children (ds ! i))" unfolding ch(2) using lt(2) by blast
    then show ?thesis using ch assms(4) i unfolding c by auto
  qed
  moreover have "p < length ds'" if "(p, ch) \<in> child_of ds'" for p ch
    using that assms(2,5) lt(1) unfolding c by fastforce
  ultimately show "tree_wf ds'" unfolding tree_wf_def by blast
qed

lemma add_oscillator_keeps:
  assumes "forest_wf f" "rate_wf freq" "length (f_domains f) < 2 ^ 32" "length (f_oscs f) < 2 ^ 32"
    and "add_oscillator f name freq = (f', res)"
  shows "forest_wf f' \<and> undisturbed f f' \<and> res \<noteq> Inl (Panicked m) \<and> (res = Inl e \<longrightarrow> f' = f)"
proof (cases "rate_is_zero freq")
  case True
  then show ?thesis using assms(1,5) by (auto simp: add_oscillator_def undisturbed_def)
next
  case False
  let ?n = "length (f_domains f)" and ?m = "length (f_oscs f)"
  have l: "links_wf f" by (rule forest_links [OF assms(1)])
  define d where "d = \<lparr>d_name = name, d_parent = None, d_mul = 1, d_div = 1, d_children = [], d_root = ?m,
      d_ratio = rate_one, d_units_per_tick = 1, d_base_unit = 0, d_base_ticks = 0, d_gated = False, d_own = 0\<rparr>"
  define x where "x = recompute_conversion \<lparr>o_name = name, o_freq = freq, o_root = ?n, o_unit_mul = 1, o_unit_rate = freq,
      o_units = 0, o_base_units = 0, o_base_time = 0, o_step = 0, o_rem = 0, o_time = 0, o_residual = 0, o_active = True\<rparr>"
  have f': "f' = \<lparr>f_domains = f_domains f @ [d], f_oscs = f_oscs f @ [x]\<rparr>" "res = Inr ?n"
    using assms(3-5) False by (auto simp: add_oscillator_def Let_def d_def x_def)
  have dom: "dom_at f' i = dom_at f i" if "i < ?n" for i using that by (simp add: f'(1) nth_append)
  have osc: "osc_at f' oi = osc_at f oi" if "oi < ?m" for oi using that by (simp add: f'(1) nth_append)
  have new: "dom_at f' ?n = d" "osc_at f' ?m = x" by (simp_all add: f'(1))
  have root: "d_root (dom_at f i) < ?m" if "i < ?n" for i using link_okD(1) [OF links_wfD(2) [OF l that]] .
  have par: "p < ?n" if "i < ?n" "d_parent (dom_at f i) = Some p" for i p
    using that tree_wf_parent [OF links_wfD(1) [OF l], of p i] by (simp add: child_of_def)
  have xs: "o_root x = ?n" "o_active x" "o_unit_mul x = 1" "o_freq x = freq" "o_units x = 0" "o_unit_rate x = freq" "o_time x = 0"
    by (simp_all add: x_def recompute_conversion_def Let_def)
  have tree: "tree_wf (f_domains f')"
    using grow_tree_wf(1) [OF links_wfD(1) [OF l], of "f_domains f'"] dom by (simp add: f'(1) d_def)
  have h: "here f' i = here f i" if "i < ?n" for i using dom [OF that] osc [OF root [OF that]] by (simp add: here_def)
  have old: "link_ok f' i \<and> phase_ok f' i \<and> rate_ok f' i" if "i < ?n" for i
  proof -
    have "ratio_from (\<lambda>p. d_ratio (dom_at f' p)) (dom_at f i) q = ratio_from (\<lambda>p. d_ratio (dom_at f p)) (dom_at f i) q" for q
      using dom par [OF that] by (auto simp: ratio_from_def split: option.splits)
    then have "rate_ok f' i = rate_ok f i" unfolding rate_ok_def Let_def dom [OF that] osc [OF root [OF that]] by simp
    moreover have "link_ok f' i"
      using links_wfD(2) [OF l that] par [OF that] dom osc [OF root [OF that]] that unfolding link_ok_def Let_def
      by (auto simp: f'(1) nth_append)
    ultimately show ?thesis using assms(1) links_wfD(3) [OF l that] that h [OF that] dom [OF that]
      by (simp add: forest_wf_def phase_ok_def)
  qed
  have "conversion_wf x" unfolding x_def by (rule recompute_conversion_wf) (use assms(2) False in \<open>simp_all add: rate_is_zero_def\<close>)
  then have t: "timeline_wf x" by (simp add: timeline_wf_def exact_time_def x_def recompute_conversion_def Let_def)
  have rs: "rate_set x"
    using rate_mul_correct [OF assms(2), of "rate_integer 1" freq] rate_integer_wf [of 1] assms(2) by (simp add: rate_set_def xs)
  have "link_ok f' ?n \<and> phase_ok f' ?n \<and> rate_ok f' ?n"
    using new xs rate_one_wf by (simp add: link_ok_def phase_ok_def rate_ok_def Let_def here_def f'(1) d_def rating_ok_def ratio_from_def
        tick_units_def rate_one_def domain_position_def)
  moreover have "osc_ok f' ?m" using new xs t assms(2) False by (simp add: osc_ok_def Let_def f'(1) d_def rate_is_zero_def)
  moreover have "osc_ok f' oi" if "oi < ?m" for oi
    using links_wfD(4) [OF l that] osc [OF that] dom [of "o_root (osc_at f oi)"] by (simp add: osc_ok_def Let_def f'(1))
  ultimately have "forest_wf f'"
    using tree old rs assms(1) new osc unfolding forest_wf_def links_wf_def by (simp add: f'(1) less_Suc_eq nth_append)
  moreover have "undisturbed f f'" using h dom osc by (simp add: undisturbed_def tick_count_def f'(1) nth_append)
  ultimately show ?thesis using f'(2) by simp
qed

text \<open>A new leaf under \<open>p\<close>, before its tree is recomputed.\<close>

lemma leaf_links:
  assumes "forest_wf f" "p < length (f_domains f)" "f_oscs g = f_oscs f" "length (f_domains g) = Suc (length (f_domains f))"
    and d: "dom_at g (length (f_domains f)) = d" "d_parent d = Some p" "d_children d = []" "d_root d = d_root (dom_at f p)" "rating_ok d"
    "d_base_unit d = o_units (osc_at f (d_root (dom_at f p)))" "d_base_ticks d = 0" "d_own d = 0"
    and old: "\<And>i. i < length (f_domains f) \<Longrightarrow> dom_at g i = (dom_at f i)\<lparr>d_children := d_children (dom_at f i) @ (if i = p then [length (f_domains f)] else [])\<rparr>"
  shows "links_wf g" "\<forall>i<length (f_domains g). settled g i \<and> (d_root (dom_at g i) = d_root (dom_at f p) \<or> rate_ok g i)"
    "undisturbed f g"
proof -
  let ?n = "length (f_domains f)"
  have l: "links_wf f" by (rule forest_links [OF assms(1)])
  have tr: "tree_wf (f_domains g)" "child_of (f_domains g) = child_of (f_domains f) \<union> {(p, ?n)}"
    using grow_tree_wf [OF links_wfD(1) [OF l], of "f_domains g"] assms(2,4) d old by auto
  have par: "q < ?n" if "i < ?n" "d_parent (dom_at f i) = Some q" for i q
    using that tree_wf_parent [OF links_wfD(1) [OF l], of q i] by (simp add: child_of_def)
  have fld: "d_parent (dom_at g i) = d_parent (dom_at f i)" "d_root (dom_at g i) = d_root (dom_at f i)" "d_ratio (dom_at g i) = d_ratio (dom_at f i)"
    "d_mul (dom_at g i) = d_mul (dom_at f i)" "d_div (dom_at g i) = d_div (dom_at f i)" "d_units_per_tick (dom_at g i) = d_units_per_tick (dom_at f i)"
    "ticks_at (dom_at g i) u = ticks_at (dom_at f i) u" "here g i = here f i" "phase_ok g i = phase_ok f i" if "i < ?n" for i u
    using old [OF that] assms(3) by (simp_all add: ticks_at_def here_def phase_ok_def domain_position_def)
  have rate: "rate_ok g i" if "i < ?n" for i
  proof -
    have "ratio_from (\<lambda>p. d_ratio (dom_at g p)) (dom_at g i) q = ratio_from (\<lambda>p. d_ratio (dom_at f p)) (dom_at f i) q" for q
      using fld [OF that] fld(3) par [OF that] by (auto simp: ratio_from_def split: option.splits)
    moreover have "rate_ok f i" using assms(1) that by (simp add: forest_wf_def)
    ultimately show ?thesis using assms(3) fld(2,3,6) [OF that] by (simp add: rate_ok_def Let_def)
  qed
  have "link_ok g i" if "i < ?n" for i
    using links_wfD(2) [OF l that] fld [OF that] fld(2) par [OF that] assms(3) by (auto simp: link_ok_def Let_def rating_ok_def)
  moreover have hn: "here g ?n = d_base_unit d" using d assms(3) by (simp add: here_def domain_position_def)
  moreover have "link_ok g ?n" "phase_ok g ?n"
    using d hn fld(2) [OF assms(2)] link_okD(1,2) [OF links_wfD(2) [OF l assms(2)]] assms(3) by (simp_all add: link_ok_def phase_ok_def Let_def)
  moreover have "osc_ok g oi" if "oi < length (f_oscs f)" for oi
    using links_wfD(4) [OF l that] fld [of "o_root (osc_at f oi)"] assms(3,4) by (simp add: osc_ok_def Let_def)
  ultimately show "links_wf g"
    using tr(1) fld(9) links_wfD(3) [OF l] assms(3,4) by (auto simp: links_wf_def less_Suc_eq)
  have "settled g i" if "i < ?n" for i
  proof -
    have "a < ?n" if "i \<in> below (f_domains g) a" "i < ?n" for a
      using that(1) unfolding below_def mem_Collect_eq
      by (induction rule: converse_rtrancl_induct) (use that(2) tr(2) tree_wf_parent [OF links_wfD(1) [OF l]] assms(2) in auto)
    then show ?thesis using that rate by (simp add: settled_def)
  qed
  moreover have "settled g ?n" using hn d(1) by (simp add: settled_def)
  ultimately show "\<forall>i<length (f_domains g). settled g i \<and> (d_root (dom_at g i) = d_root (dom_at f p) \<or> rate_ok g i)"
    using rate d(1,4) assms(4) by (auto simp: less_Suc_eq)
  show "undisturbed f g" using assms(3,4) fld(7,8) by (simp add: undisturbed_def tick_count_def)
qed

lemma add_domain_keeps:
  assumes "forest_wf f" "length (f_domains f) < 2 ^ 32" "mul < two64" "dv < two64" "add_domain f name p mul dv = (f', res)"
  shows "forest_wf f' \<and> undisturbed f f' \<and> res \<noteq> Inl (Panicked m) \<and> (res = Inl e \<longrightarrow> f' = f)"
proof (cases "length (f_domains f) \<le> p \<or> mul = 0 \<or> dv = 0")
  case True
  then have "f' = f \<and> (\<exists>e. res = Inl (Refused e))" using assms(5) by (auto simp: add_domain_def check_domain_def split: if_splits)
  then show ?thesis using assms(1) by (auto simp: undisturbed_def)
next
  case False
  let ?n = "length (f_domains f)" and ?oi = "d_root (dom_at f p)"
  define d where "d = \<lparr>d_name = name, d_parent = Some p, d_mul = mul, d_div = dv, d_children = [], d_root = ?oi, d_ratio = rate_one,
     d_units_per_tick = 1, d_base_unit = o_units (osc_at f ?oi), d_base_ticks = 0, d_gated = False, d_own = 0\<rparr>"
  define g where "g = upd_dom p (\<lambda>d. d\<lparr>d_children := d_children d @ [?n]\<rparr>) (f\<lparr>f_domains := f_domains f @ [d]\<rparr>)"
  have p: "p < ?n" using False by simp
  have g: "f_oscs g = f_oscs f" "length (f_domains g) = Suc ?n" "dom_at g ?n = d" using p by (simp_all add: g_def)
  have old: "dom_at g i = (dom_at f i)\<lparr>d_children := d_children (dom_at f i) @ (if i = p then [?n] else [])\<rparr>" if "i < ?n" for i
    using that p by (cases "i = p") (simp_all add: g_def nth_append)
  have rt: "rating_ok d" using False assms(3,4) by (simp add: d_def rating_ok_def)
  note k = leaf_links [OF assms(1) p g(1,2,3) _ _ _ rt _ _ _ old]
  have dd: "d_parent d = Some p" "d_children d = []" "d_root d = ?oi" "d_base_unit d = o_units (osc_at f ?oi)" "d_base_ticks d = 0" "d_own d = 0"
    by (simp_all add: d_def)
  note k = k [OF dd]
  have oi: "?oi < length (f_oscs g)" "o_active (osc_at g ?oi)"
    using link_okD(1,2) [OF links_wfD(2) [OF forest_links [OF assms(1)] p]] g(1) by simp_all
  have "\<forall>oj<length (f_oscs g). oj \<noteq> ?oi \<longrightarrow> rate_set (osc_at g oj)" using assms(1) g(1) by (simp add: forest_wf_def)
  note r = recompute_tree_keeps [OF k(1) oi k(2) this]
  have "or_restore f (recompute_tree g ?oi) ?n = (f', res)"
    using assms(2,5) False by (simp add: add_domain_def check_domain_def Let_def g_def d_def)
  from or_restore_cases [OF this] r show ?thesis
    using assms(1) undisturbed_steady [OF k(3)] by (auto simp: undisturbed_def)
qed

end
