(* ===== verification/Clock_Reparent.thy ===== *)
theory Clock_Reparent
  imports Clock_Change
begin

text \<open>
  Moving a subtree under another parent, within a tree or across trees, keeps the
  invariant and every tick counter.
\<close>

section \<open>The moved tree\<close>

lemma move_tree:
  assumes "tree_wf ds" "i < length ds" "np < length ds" "np \<notin> below ds i" "length ds' = length ds"
    and par: "\<And>j. j < length ds \<Longrightarrow> d_parent (ds' ! j) = (if j = i then Some np else d_parent (ds ! j))"
    and ch: "\<And>j. j < length ds \<Longrightarrow> d_children (ds' ! j) = filter (\<lambda>c. c \<noteq> i) (d_children (ds ! j)) @ (if j = np then [i] else [])"
  shows "tree_wf ds'" "below ds' i = below ds i" "child_of ds' = {(q, c). (q, c) \<in> child_of ds \<and> c \<noteq> i} \<union> {(np, i)}"
proof -
  show c: "child_of ds' = {(q, c). (q, c) \<in> child_of ds \<and> c \<noteq> i} \<union> {(np, i)}"
    using assms(2,5) par by (auto simp: child_of_def split: if_splits)
  have stay: "(q, j) \<in> child_of ds \<longleftrightarrow> (q, j) \<in> child_of ds'" if "q \<in> below ds i" for q j
    using that not_own_child [OF assms(1) that] assms(4) unfolding c by auto
  show b: "below ds' i = below ds i"
  proof (intro set_eqI iffI)
    fix j assume "j \<in> below ds' i"
    then show "j \<in> below ds i" unfolding below_def [of ds'] mem_Collect_eq
      by (induction rule: rtrancl_induct) (use stay below_child in \<open>auto\<close>)
  next
    fix j assume "j \<in> below ds i"
    then have "j \<in> below ds' i \<and> j \<in> below ds i" unfolding below_def [of ds] mem_Collect_eq
    proof (induction rule: rtrancl_induct)
      case (step q j)
      then show ?case using stay [of q j] below_child by (auto simp: below_def intro: rtrancl_into_rtrancl)
    qed auto
    then show "j \<in> below ds' i" ..
  qed
  obtain rank :: "nat \<Rightarrow> nat" where rank: "\<And>p c. (p, c) \<in> child_of ds \<Longrightarrow> rank p < rank c"
    using assms(1) unfolding tree_wf_def by blast
  let ?r = "\<lambda>j. if j \<in> below ds i then rank j + rank np + 1 else rank j"
  have "?r p < ?r j" if "(p, j) \<in> child_of ds'" for p j
    using that rank [of p j] below_child [of p ds i j] below_cases [of j ds i] child_of_unique [of p j ds] assms(4) unfolding c
    by auto
  then have "\<exists>rank :: nat \<Rightarrow> nat. \<forall>p c. (p, c) \<in> child_of ds' \<longrightarrow> rank p < rank c" by (intro exI [of _ ?r]) blast
  moreover have "distinct (d_children (ds' ! j)) \<and> (\<forall>k. k \<in> set (d_children (ds' ! j)) \<longleftrightarrow> (j, k) \<in> child_of ds')"
    if "j < length ds'" for j
    using tree_wf_children [OF assms(1), of j] ch [of j] that assms(5) unfolding c by auto
  moreover have "p < length ds'" if "(p, j) \<in> child_of ds'" for p j
    using that tree_wf_parent [OF assms(1), of p j] assms(3,5) unfolding c by auto
  ultimately show "tree_wf ds'" unfolding tree_wf_def by blast
qed

section \<open>The effect of relinking\<close>

lemma relink_effect:
  fixes mul dv :: nat
  assumes "forest_wf f" "i < length (f_domains f)" "np < length (f_domains f)" "np \<notin> below (f_domains f) i"
  defines "g \<equiv> relink f i np mul dv" and "B \<equiv> below (f_domains f) i"
    and "old \<equiv> d_root (dom_at f i)" and "new \<equiv> d_root (dom_at f np)" and "f1 \<equiv> rebase_subtree f i"
  shows "f_oscs g = (if d_parent (dom_at f i) = None then (f_oscs f)[old := (osc_at f old)\<lparr>o_active := False\<rparr>] else f_oscs f)"
    and "length (f_domains g) = length (f_domains f)" "tree_wf (f_domains g)" "below (f_domains g) i = B"
    and "j < length (f_domains f) \<Longrightarrow> d_parent (dom_at g j) = (if j = i then Some np else d_parent (dom_at f j))"
    and "j < length (f_domains f) \<Longrightarrow> \<exists>c. dom_at g j = (let d = (dom_at f1 j)\<lparr>d_children := c\<rparr>;
         d = (if j = i then d\<lparr>d_parent := Some np, d_mul := mul, d_div := dv\<rparr> else d)
       in if old \<noteq> new \<and> j \<in> B then move_domain (o_units (osc_at f new)) new d else d)"
proof -
  note k = rebase_subtree_keeps [OF assms(1,2), folded f1_def]
  have l: "links_wf f" by (rule forest_links [OF assms(1)])
  have len: "length (f_domains f1) = length (f_domains f)" using k(2) by (simp add: steady_def)
  have tu: "d_parent (dom_at f1 j) = d_parent (dom_at f j)" "d_children (dom_at f1 j) = d_children (dom_at f j)" if "j < length (f_domains f)" for j
    using k(4) [OF that] by (simp_all add: same_tuning_def)
  have ch: "c \<in> set (d_children (dom_at f j)) \<longleftrightarrow> d_parent (dom_at f c) = Some j \<and> c < length (f_domains f)" if "j < length (f_domains f)" for c j
    using tree_wf_children(2) [OF links_wfD(1) [OF l] that] by (auto simp: child_of_def)
  have plt: "p < length (f_domains f)" if "d_parent (dom_at f i) = Some p" for p
    using that assms(2) tree_wf_parent [OF links_wfD(1) [OF l], of p i] by (simp add: child_of_def)
  define f2 where "f2 = (case d_parent (dom_at f1 i) of
      Some p \<Rightarrow> upd_dom p (\<lambda>d. d\<lparr>d_children := filter (\<lambda>c. c \<noteq> i) (d_children d)\<rparr>) f1
    | None \<Rightarrow> upd_osc old (\<lambda>x. x\<lparr>o_active := False\<rparr>) f1)"
  define f4 where "f4 = upd_dom np (\<lambda>d. d\<lparr>d_children := d_children d @ [i]\<rparr>)
    (upd_dom i (\<lambda>d. d\<lparr>d_parent := Some np, d_mul := mul, d_div := dv\<rparr>) f2)"
  have o2: "f_oscs f2 = (if d_parent (dom_at f i) = None then (f_oscs f)[old := (osc_at f old)\<lparr>o_active := False\<rparr>] else f_oscs f)"
    using k(3) tu(1) [OF assms(2)] by (auto simp: f2_def upd_osc_def split: option.splits)
  have len2: "length (f_domains f2) = length (f_domains f)" using len by (simp add: f2_def split: option.splits)
  have d2: "dom_at f2 j = (dom_at f1 j)\<lparr>d_children := filter (\<lambda>c. c \<noteq> i) (d_children (dom_at f j))\<rparr>" if j: "j < length (f_domains f)" for j
  proof (cases "d_parent (dom_at f i) = Some j")
    case True
    then show ?thesis using tu [OF assms(2)] tu [OF j] len j by (simp add: f2_def)
  next
    case False
    then have "filter (\<lambda>c. c \<noteq> i) (d_children (dom_at f j)) = d_children (dom_at f1 j)"
      using ch [OF j, of i] tu(2) [OF j] by (simp add: filter_id_conv) metis
    moreover have "dom_at f2 j = dom_at f1 j" using False tu(1) [OF assms(2)] by (auto simp: f2_def split: option.splits)
    ultimately show ?thesis by simp
  qed
  have d4: "dom_at f4 j = (let d = (dom_at f1 j)\<lparr>d_children := filter (\<lambda>c. c \<noteq> i) (d_children (dom_at f j)) @ (if j = np then [i] else [])\<rparr>
       in if j = i then d\<lparr>d_parent := Some np, d_mul := mul, d_div := dv\<rparr> else d)" if j: "j < length (f_domains f)" for j
  proof -
    have "i \<noteq> np" using assms(4) by auto
    then show ?thesis using d2 [OF j] d2 [OF assms(2)] d2 [OF assms(3)] len2 assms(2,3)
      by (cases "j = i"; cases "j = np") (simp_all add: f4_def Let_def)
  qed
  have len4: "length (f_domains f4) = length (f_domains f)" and o4: "f_oscs f4 = f_oscs f2" using len2 by (simp_all add: f4_def)
  have mt: "tree_wf (f_domains f4)" "below (f_domains f4) i = B"
    unfolding B_def by (rule move_tree [OF links_wfD(1) [OF l] assms(2-4) len4]; simp add: d4 Let_def tu)+
  have g: "g = (if old \<noteq> new then foldl (\<lambda>f m. upd_dom m (move_domain (o_units (osc_at f4 new)) new) f) f4 (subtree f4 i) else f4)"
    unfolding g_def relink_def Let_def f4_def f2_def f1_def [symmetric] old_def new_def by simp
  have i4: "i < length (f_domains f4)" using assms(2) len4 by simp
  note w = subtree_correct [OF mt(1) i4]
  have "m < length (f_domains f4)" if "m \<in> set (subtree f4 i)" for m using that below_lt [OF i4] w(2) by blast
  note fo = foldl_upd_dom [OF w(1) this, of "move_domain (o_units (osc_at f4 new)) new"]
  have u: "o_units (osc_at f4 new) = o_units (osc_at f new)"
    unfolding o4 o2 using link_okD(1) [OF links_wfD(2) [OF l assms(2)]] by (cases "new = old") (auto simp: old_def)
  have dg: "dom_at g j = (if old \<noteq> new \<and> j \<in> B then move_domain (o_units (osc_at f new)) new (dom_at f4 j) else dom_at f4 j)" for j
    using fo w(2) mt(2) u by (simp add: g)
  show og: "f_oscs g = (if d_parent (dom_at f i) = None then (f_oscs f)[old := (osc_at f old)\<lparr>o_active := False\<rparr>] else f_oscs f)"
    using fo unfolding o2 [symmetric] o4 [symmetric] by (simp add: g)
  show lg: "length (f_domains g) = length (f_domains f)" using fo len4 by (simp add: g)
  have sl: "same_links (f_domains f4) (f_domains g)" using lg len4 dg by (simp add: same_links_def move_domain_def)
  show "tree_wf (f_domains g)" "below (f_domains g) i = B" using same_links_shape(2,3) [OF sl] mt by simp_all
  show "d_parent (dom_at g j) = (if j = i then Some np else d_parent (dom_at f j))" if "j < length (f_domains f)"
    using dg [of j] d4 [OF that] tu(1) [OF that] by (cases "j = i") (simp_all add: move_domain_def Let_def)
  show "\<exists>c. dom_at g j = (let d = (dom_at f1 j)\<lparr>d_children := c\<rparr>;
         d = (if j = i then d\<lparr>d_parent := Some np, d_mul := mul, d_div := dv\<rparr> else d)
       in if old \<noteq> new \<and> j \<in> B then move_domain (o_units (osc_at f new)) new d else d)" if "j < length (f_domains f)"
    using dg [of j] d4 [OF that] by (auto simp: Let_def)
qed

section \<open>Relinking keeps the invariant\<close>

lemma relink_keeps:
  assumes "forest_wf f" "i < length (f_domains f)" "np < length (f_domains f)" "np \<notin> below (f_domains f) i"
    and rt: "0 < mul" "mul < two64" "0 < dv" "dv < two64"
  defines "g \<equiv> relink f i np mul dv"
  shows "links_wf g" "steady f g"
    "\<forall>j<length (f_domains g). settled g j \<and> (d_root (dom_at g j) = d_root (dom_at f np) \<or> rate_ok g j)"
    "\<forall>oi<length (f_oscs g). rate_set (osc_at g oi)" "o_active (osc_at g (d_root (dom_at f np)))"
proof -
  let ?n = "length (f_domains f)" and ?B = "below (f_domains f) i" and ?f1 = "rebase_subtree f i"
  let ?old = "d_root (dom_at f i)" and ?new = "d_root (dom_at f np)"
  note e = relink_effect [OF assms(1-4), where mul = mul and dv = dv, folded g_def]
  note k = rebase_subtree_keeps [OF assms(1,2)]
  have l: "links_wf f" by (rule forest_links [OF assms(1)])
  have len1: "length (f_domains ?f1) = ?n" using k(2) by (simp add: steady_def)
  have tu: "same_tuning (dom_at f j) (dom_at ?f1 j)" if "j < ?n" for j by (rule k(4) [OF that])
  have lnk: "link_ok f j" "d_root (dom_at f j) < length (f_oscs f)" if "j < ?n" for j
    using links_wfD(2) [OF l that] link_okD(1) by blast+
  have i: "i \<in> ?B" "i \<noteq> np" using assms(4) by auto
  have in_B: "j \<in> ?B" if "d_parent (dom_at f i) = None" "j < ?n" "d_root (dom_at f j) = ?old" for j
    using that tree_members [OF l lnk(2) [OF assms(2)] link_okD(2) [OF lnk(1) [OF assms(2)]]] link_okD(4) [OF lnk(1) [OF assms(2)] that(1)] by auto
  have fld: "d_root (dom_at g j) = (if j \<in> ?B then ?new else d_root (dom_at f j))"
    "d_ratio (dom_at g j) = d_ratio (dom_at f j)" "d_units_per_tick (dom_at g j) = d_units_per_tick (dom_at f j)"
    "rating_ok (dom_at g j)" "j \<noteq> i \<Longrightarrow> d_mul (dom_at g j) = d_mul (dom_at f j) \<and> d_div (dom_at g j) = d_div (dom_at f j)"
    "d_base_ticks (dom_at g j) = d_base_ticks (dom_at ?f1 j)" "d_gated (dom_at g j) = d_gated (dom_at ?f1 j)"
    "d_base_unit (dom_at g j) = (if ?old \<noteq> ?new \<and> j \<in> ?B then o_units (osc_at f ?new) else d_base_unit (dom_at ?f1 j))"
    "d_own (dom_at g j) = (if ?old \<noteq> ?new \<and> j \<in> ?B then 0 else d_own (dom_at ?f1 j))" if "j < ?n" for j
  proof -
    obtain c where c: "dom_at g j = (let d = (dom_at ?f1 j)\<lparr>d_children := c\<rparr>;
         d = (if j = i then d\<lparr>d_parent := Some np, d_mul := mul, d_div := dv\<rparr> else d)
       in if ?old \<noteq> ?new \<and> j \<in> ?B then move_domain (o_units (osc_at f ?new)) ?new d else d)" using e(6) [OF \<open>j < ?n\<close>] by blast
    have r: "j \<in> ?B \<Longrightarrow> d_root (dom_at ?f1 j) = ?old" "d_root (dom_at ?f1 j) = d_root (dom_at f j)"
      using tu [OF \<open>j < ?n\<close>] below_same_root [OF l assms(2), of j] by (simp_all add: same_tuning_def)
    show "d_root (dom_at g j) = (if j \<in> ?B then ?new else d_root (dom_at f j))"
      using r unfolding c by (cases "j = i") (auto simp: Let_def move_domain_def)
    show "d_ratio (dom_at g j) = d_ratio (dom_at f j)" "d_units_per_tick (dom_at g j) = d_units_per_tick (dom_at f j)"
      "j \<noteq> i \<Longrightarrow> d_mul (dom_at g j) = d_mul (dom_at f j) \<and> d_div (dom_at g j) = d_div (dom_at f j)"
      using tu [OF \<open>j < ?n\<close>] unfolding c by (cases "j = i"; simp add: Let_def move_domain_def same_tuning_def)+
    show "rating_ok (dom_at g j)"
      using tu [OF \<open>j < ?n\<close>] link_okD(3) [OF lnk(1) [OF \<open>j < ?n\<close>]] rt unfolding c
      by (cases "j = i") (simp_all add: Let_def move_domain_def same_tuning_def rating_ok_def)
    show "d_base_ticks (dom_at g j) = d_base_ticks (dom_at ?f1 j)" "d_gated (dom_at g j) = d_gated (dom_at ?f1 j)"
      "d_base_unit (dom_at g j) = (if ?old \<noteq> ?new \<and> j \<in> ?B then o_units (osc_at f ?new) else d_base_unit (dom_at ?f1 j))"
      "d_own (dom_at g j) = (if ?old \<noteq> ?new \<and> j \<in> ?B then 0 else d_own (dom_at ?f1 j))"
      unfolding c by (simp_all add: Let_def move_domain_def)
  qed
  have og: "osc_at g oi = (if d_parent (dom_at f i) = None \<and> oi = ?old then (osc_at f oi)\<lparr>o_active := False\<rparr> else osc_at f oi)"
    if "oi < length (f_oscs f)" for oi unfolding e(1) using that by (cases "oi = ?old") simp_all
  have osc: "o_units (osc_at g oi) = o_units (osc_at f oi)" "o_unit_mul (osc_at g oi) = o_unit_mul (osc_at f oi)"
    "o_time (osc_at g oi) = o_time (osc_at f oi)" "o_root (osc_at g oi) = o_root (osc_at f oi)"
    "timeline_wf (osc_at g oi) = timeline_wf (osc_at f oi)" "o_freq (osc_at g oi) = o_freq (osc_at f oi)" "rate_set (osc_at g oi) = rate_set (osc_at f oi)"
    "o_active (osc_at g oi) \<longleftrightarrow> o_active (osc_at f oi) \<and> \<not> (d_parent (dom_at f i) = None \<and> oi = ?old)" if "oi < length (f_oscs f)" for oi
    using og [OF that] by (auto simp: timeline_wf_def conversion_wf_def exact_time_def unit_span_def rate_set_def)
  have m: "length (f_oscs g) = length (f_oscs f)" using e(1) by simp
  have par: "p < ?n" if "d_parent (dom_at f j) = Some p" "j < ?n" for j p
    using that tree_wf_parent [OF links_wfD(1) [OF l], of p j] by (simp add: child_of_def)
  show act: "o_active (osc_at g ?new)"
    using osc(8) [OF lnk(2) [OF assms(3)]] link_okD(2) [OF lnk(1) [OF assms(3)]] in_B [OF _ assms(3)] assms(4) by auto
  have ph1: "phase_ok ?f1 j" "d_base_unit (dom_at ?f1 j) = here ?f1 j \<or> j \<notin> ?B" if "j < ?n" for j
    using links_wfD(3) [OF forest_links [OF k(1)], of j] k(6) [OF that] len1 that by auto
  have hB: "d_base_unit (dom_at g j) = here g j" if "j \<in> ?B" "j < ?n" for j
    using that ph1(2) [OF that(2)] fld(1,8,9) [OF that(2)] osc(1) lnk(2) [OF assms(3)] tu [OF that(2)] below_same_root [OF l assms(2) that(1)] k(3)
    by (cases "?old = ?new") (auto simp: here_def domain_position_def same_tuning_def)
  have hN: "here g j = here f j" if "j \<notin> ?B" "j < ?n" for j
    using that fld(1,9) [OF that(2)] osc(1) [OF lnk(2) [OF that(2)]] k(8) [OF that(2)] by (simp add: here_def domain_position_def)
  have units: "o_units (osc_at f oi) < two64" if "oi < length (f_oscs f)" for oi
    using osc_okD(1) [OF links_wfD(4) [OF l that]] by (simp add: timeline_wf_def)
  have hlt: "here g j < two64" if "j < ?n" for j
    using fld(1,9) [OF that] ph1(1) [OF that] osc(1) units lnk(2) [OF that] lnk(2) [OF assms(3)]
    by (auto simp: here_def domain_position_def phase_ok_def)
  have phase: "phase_ok g j" if "j < ?n" for j
  proof (cases "j \<in> ?B")
    case True
    then show ?thesis using hB [OF True that] ph1(1) [OF that] fld(6,9) [OF that] by (simp add: phase_ok_def)
  next
    case False
    then show ?thesis using hN [OF False that] ph1(1) [OF that] fld(6,8,9) [OF that] k(5) [OF that] by (simp add: phase_ok_def)
  qed
  have "tick_count g j = tick_count f j" if "j < ?n" for j
  proof -
    have "tick_count ?f1 j = tick_count f j" using k(2) that by (simp add: steady_def)
    moreover have "tick_count g j = tick_count ?f1 j"
    proof (cases "j \<in> ?B")
      case True
      have "d_base_unit (dom_at ?f1 j) = here ?f1 j" "here ?f1 j < two64"
        using ph1 [OF that] True units_lt [OF k(1), of j] that len1 by (auto simp: here_def domain_position_def phase_ok_def)
      then show ?thesis
        using hB [OF True that] hlt [OF that] ph1(1) [OF that] fld(6) [OF that] ticks_at_base [of "dom_at g j"] ticks_at_base [of "dom_at ?f1 j"]
        by (simp add: tick_count_def phase_ok_def)
    next
      case False
      have "d_units_per_tick (dom_at g j) = d_units_per_tick (dom_at ?f1 j)" using fld(3) [OF that] tu [OF that] by (simp add: same_tuning_def)
      then show ?thesis using False hN [OF False that] k(5) [OF that] fld(6-8) [OF that] by (simp add: tick_count_def ticks_at_def)
    qed
    ultimately show ?thesis by simp
  qed
  then show "steady f g" using e(2) m osc(3) by (simp add: steady_def)
  show "\<forall>oi<length (f_oscs g). rate_set (osc_at g oi)" using m osc(7) assms(1) by (simp add: forest_wf_def)
  have rate: "rate_ok g j" if "j \<notin> ?B" "j < ?n" for j
  proof -
    have "j \<noteq> i" using that i by auto
    then have pj: "d_parent (dom_at g j) = d_parent (dom_at f j)" using e(5) [OF that(2)] by simp
    have "ratio_from (\<lambda>p. d_ratio (dom_at g p)) (dom_at g j) q = ratio_from (\<lambda>p. d_ratio (dom_at f p)) (dom_at f j) q" for q
      using pj fld(2) par [OF _ that(2)] fld(5) [OF that(2) \<open>j \<noteq> i\<close>] by (auto simp: ratio_from_def split: option.splits)
    moreover have "rate_ok f j" using assms(1) that(2) by (simp add: forest_wf_def)
    ultimately show ?thesis using fld(1-3) [OF that(2)] osc(2) [OF lnk(2) [OF that(2)]] that(1) by (simp add: rate_ok_def Let_def)
  qed
  have "settled g j" if "j < ?n" for j
  proof (cases "j \<in> ?B")
    case False
    have "rate_ok g a" if a: "j \<in> below (f_domains g) a" for a
    proof -
      have "a < ?n" using a above_lt [OF e(3), of j] \<open>j < ?n\<close> e(2) by (auto simp: ancestors_def)
      moreover have "a \<notin> ?B" using below_trans [of a "f_domains g" i j] a False e(4) by auto
      ultimately show ?thesis by (intro rate)
    qed
    then show ?thesis by (simp add: settled_def)
  qed (use hB that in \<open>simp add: settled_def\<close>)
  then show "\<forall>j<length (f_domains g). settled g j \<and> (d_root (dom_at g j) = ?new \<or> rate_ok g j)"
    using rate fld(1) e(2) by auto
  have "link_ok g j" if j: "j < ?n" for j
  proof -
    have root: "d_root (dom_at g j) < length (f_oscs g)" using fld(1) [OF j] lnk(2) [OF j] lnk(2) [OF assms(3)] m by simp
    have "o_active (osc_at g (d_root (dom_at g j)))"
      using act fld(1) [OF j] osc(8) [OF lnk(2) [OF j]] link_okD(2) [OF lnk(1) [OF j]] in_B [OF _ j] by auto
    moreover have "o_root (osc_at g (d_root (dom_at g j))) = j" if "d_parent (dom_at g j) = None"
    proof -
      have "j \<noteq> i" "d_parent (dom_at f j) = None" using that e(5) [OF j] by (auto split: if_splits)
      moreover from this have "j \<notin> ?B" using below_cases [of j "f_domains f" i] by (auto simp: child_of_def)
      ultimately show ?thesis using link_okD(4) [OF lnk(1) [OF j]] fld(1) [OF j] osc(4) [OF lnk(2) [OF j]] by simp
    qed
    moreover have "d_root (dom_at g p) = d_root (dom_at g j)" if p: "d_parent (dom_at g j) = Some p" for p
    proof (cases "j = i")
      case True
      then show ?thesis using p e(5) [OF j] fld(1) [OF assms(3)] fld(1) [OF j] assms(4) i by simp
    next
      case False
      then have pj: "d_parent (dom_at f j) = Some p" using p e(5) [OF j] by simp
      then have "(p, j) \<in> child_of (f_domains f)" using j by (simp add: child_of_def)
      then have "p \<in> ?B \<longleftrightarrow> j \<in> ?B"
        using below_child [of p "f_domains f" i j] below_cases [of j "f_domains f" i] False child_of_unique by blast
      then show ?thesis using fld(1) [OF j] fld(1) [OF par [OF pj j]] link_okD(5) [OF lnk(1) [OF j] pj] by simp
    qed
    ultimately show ?thesis using root fld(4) [OF j] by (simp add: link_ok_def Let_def)
  qed
  moreover have "osc_ok g oi" if oi: "oi < length (f_oscs f)" for oi
  proof -
    note x = osc_okD [OF links_wfD(4) [OF l oi]]
    let ?r = "o_root (osc_at f oi)"
    have "d_parent (dom_at g ?r) = None \<and> d_root (dom_at g ?r) = oi" if "o_active (osc_at g oi)"
    proof -
      have a: "o_active (osc_at f oi)" "\<not> (d_parent (dom_at f i) = None \<and> oi = ?old)" using that osc(8) [OF oi] by auto
      have "?r \<noteq> i" using a x(7,8) by auto
      moreover from this have "?r \<notin> ?B" using below_cases [of ?r "f_domains f" i] x(7) [OF a(1)] by (auto simp: child_of_def)
      ultimately show ?thesis using e(5) [OF x(6)] fld(1) [OF x(6)] x(7,8) [OF a(1)] by simp
    qed
    then show ?thesis using x osc [OF oi] e(2) by (simp add: osc_ok_def Let_def)
  qed
  ultimately show "links_wf g" using e(2,3) m phase by (simp add: links_wf_def)
qed

lemma reparent_keeps:
  assumes "forest_wf f" "mul < two64" "dv < two64" "reparent f i np mul dv = (f', res)"
  shows "forest_wf f' \<and> steady f f' \<and> res \<noteq> Inl (Panicked m) \<and> (res = Inl e \<longrightarrow> f' = f)"
proof -
  let ?n = "length (f_domains f)"
  have l: "links_wf f" by (rule forest_links [OF assms(1)])
  show ?thesis
  proof (cases "?n \<le> i \<or> ?n \<le> np \<or> mul = 0 \<or> dv = 0 \<or> i = np \<or> is_ancestor f i np")
    case True
    then have "f' = f \<and> (\<exists>e. res = Inl (Refused e))"
      using assms(4) by (auto simp: reparent_def check_domain_def split: if_splits)
    then show ?thesis using assms(1) by auto
  next
    case False
    let ?g = "relink f i np mul dv" and ?new = "d_root (dom_at f np)" and ?old = "d_root (dom_at f i)"
    let ?ts = "if ?old \<noteq> ?new \<and> d_root (dom_at ?g (o_root (osc_at ?g ?old))) = ?old then [?new, ?old] else [?new]"
    have lt: "i < ?n" "np < ?n" "0 < mul" "0 < dv" using False by simp_all
    have "np \<notin> below (f_domains f) i" using False is_ancestor_iff [OF links_wfD(1) [OF l] lt(2)] by simp
    note k = relink_keeps [OF assms(1) lt(1,2) this lt(3) assms(2) lt(4) assms(3)]
      and e = relink_effect [OF assms(1) lt(1,2) this, where mul = mul and dv = dv]
    have len: "length (f_domains ?g) = ?n" "length (f_oscs ?g) = length (f_oscs f)" using k(2) by (simp_all add: steady_def)
    have old_ok: "?old < length (f_oscs f)" "?new < length (f_oscs f)"
      using link_okD(1) [OF links_wfD(2) [OF l]] lt(1,2) by simp_all
    have "o_active (osc_at ?g ?old)" if "d_root (dom_at ?g (o_root (osc_at ?g ?old))) = ?old"
      using link_okD(2) [OF links_wfD(2) [OF k(1) osc_okD(6) [OF links_wfD(4) [OF k(1)]]], of ?old] that old_ok(1) len(2) by simp
    then have ts: "\<forall>oi\<in>set ?ts. oi < length (f_oscs ?g) \<and> o_active (osc_at ?g oi)" using old_ok len(2) k(5) by auto
    have "recompute_trees ?g ?ts = rbind (recompute_tree ?g ?new)
        (\<lambda>h. if ?old \<noteq> ?new \<and> d_root (dom_at ?g (o_root (osc_at ?g ?old))) = ?old then recompute_tree h ?old else Inr h)"
      by (cases "recompute_tree ?g ?new") (simp_all del: recompute_trees.simps(2) add: recompute_trees.simps(2) [of _ ?new] recompute_trees_single)
    then have "or_restore f (recompute_trees ?g ?ts) () = (f', res)"
      using assms(4) False by (simp add: reparent_def check_domain_def Let_def)
    moreover have "recompute_trees ?g ?ts \<noteq> Inl (Panicked m)" using recompute_trees_no_panic [OF k(1) ts] k(3) by blast
    moreover have "forest_wf h \<and> steady f h" if "recompute_trees ?g ?ts = Inr h" for h
    proof -
      have "?new \<in> set ?ts" by simp
      then have "\<forall>j<length (f_domains ?g). settled ?g j \<and> (d_root (dom_at ?g j) \<in> set ?ts \<or> rate_ok ?g j)" using k(3) by metis
      from recompute_trees_keeps [OF that k(1) ts this] k(4) steady_trans [OF k(2)] show ?thesis by blast
    qed
    ultimately show ?thesis using or_restore_cases [of f "recompute_trees ?g ?ts" "()" f' res] assms(1) by auto
  qed
qed

lemma lock_oscillator_keeps:
  assumes "forest_wf f" "mul < two64" "dv < two64" "lock_oscillator f oi p mul dv = (f', res)"
  shows "forest_wf f' \<and> steady f f' \<and> res \<noteq> Inl (Panicked m) \<and> (res = Inl e \<longrightarrow> f' = f)"
proof (cases "osc f oi")
  case (Inr x)
  then have "reparent f (o_root x) p mul dv = (f', res)" using assms(4) by (simp add: lock_oscillator_def)
  then show ?thesis by (rule reparent_keeps [OF assms(1-3)])
qed (use assms in \<open>auto simp: lock_oscillator_def\<close>)

end
