(* ===== verification/Clock_Run.thy ===== *)
theory Clock_Run
  imports Clock_Reparent
begin

text \<open>
  The clock forest as a state machine: every operation satisfies one contract, a
  forest is reachable when the operations can build it, and what the code promises
  about counters, ratios and the global timeline holds in every reachable forest.
\<close>

section \<open>The contract of an operation\<close>

text \<open>The result of an operation without its value.\<close>

definition void :: "clock_forest \<times> 'a clock_result \<Rightarrow> clock_forest \<times> unit clock_result" where
  "void st = (fst st, map_sum (\<lambda>e. e) (\<lambda>_. ()) (snd st))"

lemma void_simps [simp]:
  "fst (void st) = fst st" "snd (void st) = Inl e \<longleftrightarrow> snd st = Inl e"
  by (simp add: void_def) (cases "snd st"; simp add: void_def)

text \<open>
  An operation on a well-formed forest leaves a well-formed forest, does not panic
  and changes nothing when it refuses. A change of the topology moreover keeps
  every tick counter and every position on the global timeline.
\<close>

locale clock_operation =
  fixes ok :: "clock_forest \<Rightarrow> bool" and op :: "clock_forest \<Rightarrow> clock_forest \<times> 'a clock_result"
  assumes keeps_wf: "forest_wf f \<Longrightarrow> ok f \<Longrightarrow> op f = (f', res) \<Longrightarrow> forest_wf f'"
    and no_panic: "forest_wf f \<Longrightarrow> ok f \<Longrightarrow> op f = (f', res) \<Longrightarrow> res \<noteq> Inl (Panicked m)"
    and refusal: "forest_wf f \<Longrightarrow> ok f \<Longrightarrow> op f = (f', Inl e) \<Longrightarrow> f' = f"
begin

lemma contract:
  assumes "forest_wf f" "ok f"
  shows "forest_wf (fst (void (op f)))" "snd (void (op f)) \<noteq> Inl (Panicked m)"
    "snd (void (op f)) = Inl e \<Longrightarrow> fst (void (op f)) = f"
  using keeps_wf [OF assms] no_panic [OF assms] refusal [OF assms] by (cases "op f"; simp)+

end

locale clock_change = clock_operation +
  assumes keeps_counts: "forest_wf f \<Longrightarrow> ok f \<Longrightarrow> op f = (f', res) \<Longrightarrow> undisturbed f f'"
begin

lemma ticks_kept:
  assumes "forest_wf f" "ok f" "i < length (f_domains f)"
  shows "ticks (fst (void (op f))) i = ticks f i"
proof -
  let ?f = "fst (void (op f))"
  have "i < length (f_domains ?f)" "tick_count ?f i = tick_count f i"
    using keeps_counts [OF assms(1,2)] assms(3) by (cases "op f"; simp add: undisturbed_def)+
  then show ?thesis using assms(3) by (simp add: ticks_def domain_def nth_opt_def tick_count_def here_def)
qed

lemma time_kept:
  assumes "forest_wf f" "ok f" "oi < length (f_oscs f)"
  shows "global_time (fst (void (op f))) oi = global_time f oi"
proof -
  let ?f = "fst (void (op f))"
  have "oi < length (f_oscs ?f)" "o_time (osc_at ?f oi) = o_time (osc_at f oi)"
    using keeps_counts [OF assms(1,2)] assms(3) by (cases "op f"; simp add: undisturbed_def)+
  then show ?thesis using assms(3) by (simp add: global_time_def osc_def nth_opt_def)
qed

end

interpretation osc_added: clock_change
    "\<lambda>f. rate_wf freq \<and> length (f_domains f) < 2 ^ 32 \<and> length (f_oscs f) < 2 ^ 32" "\<lambda>f. add_oscillator f name freq" for name freq
  by unfold_locales (use add_oscillator_keeps in blast)+

interpretation domain_added: clock_change
    "\<lambda>f. mul < two64 \<and> dv < two64 \<and> length (f_domains f) < 2 ^ 32" "\<lambda>f. add_domain f name p mul dv" for name p mul dv
  by unfold_locales (use add_domain_keeps in blast)+

lemma set_ratings_contract:
  assumes "forest_wf f" "\<forall>r\<in>set rs. request_ok r" "set_ratings f rs = (f', res)"
  shows "forest_wf f' \<and> steady f f' \<and> res \<noteq> Inl (Panicked m) \<and> (res = Inl e \<longrightarrow> f' = f)"
  using set_ratings_keeps [OF assms(1) _ assms(3)] assms(2) by blast

lemma set_rating_contract:
  assumes "forest_wf f" "mul < two64 \<and> dv < two64" "set_rating f i mul dv = (f', res)"
  shows "forest_wf f' \<and> steady f f' \<and> res \<noteq> Inl (Panicked m) \<and> (res = Inl e \<longrightarrow> f' = f)"
proof (cases "(\<exists>e. res = Inl (Refused e)) \<and> f' = f")
  case False
  then have "set_ratings f [\<lparr>q_domain = i, q_mul = mul, q_div = dv\<rparr>] = (f', res)"
    using assms(3) by (auto simp: set_rating_def Let_def split: sum.splits if_splits)
  moreover have "\<forall>r\<in>set [\<lparr>q_domain = i, q_mul = mul, q_div = dv\<rparr>]. request_ok r" using assms(2) by (simp add: request_ok_def)
  ultimately show ?thesis using set_ratings_contract [OF assms(1)] by blast
qed (use assms(1) in auto)

interpretation rates_set: clock_change "\<lambda>f. \<forall>r\<in>set rs. request_ok r" "\<lambda>f. set_ratings f rs" for rs
  by unfold_locales (use set_ratings_contract steady_undisturbed in blast)+

interpretation rate_set_one: clock_change "\<lambda>f. mul < two64 \<and> dv < two64" "\<lambda>f. set_rating f i mul dv" for i mul dv
  by unfold_locales (use set_rating_contract steady_undisturbed in blast)+

interpretation frequency_set: clock_change "\<lambda>f. rate_wf freq \<and> (oi < length (f_oscs f) \<longrightarrow> o_active (osc_at f oi))" "\<lambda>f. set_frequency f oi freq" for oi freq
  by unfold_locales (use set_frequency_keeps steady_undisturbed in blast)+

interpretation moved: clock_change "\<lambda>f. mul < two64 \<and> dv < two64" "\<lambda>f. reparent f i p mul dv" for i p mul dv
  by unfold_locales (use reparent_keeps steady_undisturbed in blast)+

interpretation locked: clock_change "\<lambda>f. mul < two64 \<and> dv < two64" "\<lambda>f. lock_oscillator f oi p mul dv" for oi p mul dv
  by unfold_locales (use lock_oscillator_keeps steady_undisturbed in blast)+

interpretation gated: clock_change "\<lambda>f. True" "\<lambda>f. set_gated f i g" for i g
  by unfold_locales (use set_gated_keeps steady_undisturbed in blast)+

interpretation units_advanced: clock_operation "\<lambda>f. True" "\<lambda>f. advance_units f oi n" for oi n
  by unfold_locales (use advance_units_keeps in blast)+

interpretation domain_advanced: clock_operation "\<lambda>f. True" "\<lambda>f. advance_domain f i n" for i n
  by unfold_locales (use advance_domain_keeps in blast)+

interpretation advanced_alone: clock_operation "\<lambda>f. True" "\<lambda>f. advance_alone f i n" for i n
  by unfold_locales (use advance_alone_keeps in blast)+

interpretation tree_advanced: clock_operation "\<lambda>f. True" "\<lambda>f. advance_tree_to f oi n" for oi n
  by unfold_locales (use advance_tree_to_keeps in blast)+

interpretation advanced_to: clock_operation "\<lambda>f. True" "\<lambda>f. advance_to_global f oi t" for oi t
  by unfold_locales (use advance_to_global_keeps in blast)+

section \<open>Reachable forests\<close>

datatype clock_op =
    AddOscillator string rate
  | AddDomain string domain_id nat nat
  | SetRatings "rate_request list"
  | SetRating domain_id nat nat
  | SetFrequency oscillator_id rate
  | Reparent domain_id domain_id nat nat
  | LockOscillator oscillator_id domain_id nat nat
  | SetGated domain_id bool
  | AdvanceUnits oscillator_id nat
  | AdvanceDomain domain_id nat
  | AdvanceAlone domain_id nat
  | AdvanceTreeTo oscillator_id nat
  | AdvanceToGlobal oscillator_id gtime

fun clock_apply :: "clock_op \<Rightarrow> clock_forest \<Rightarrow> clock_forest \<times> unit clock_result" where
  "clock_apply (AddOscillator name freq) f = void (add_oscillator f name freq)"
| "clock_apply (AddDomain name p mul dv) f = void (add_domain f name p mul dv)"
| "clock_apply (SetRatings rs) f = void (set_ratings f rs)"
| "clock_apply (SetRating i mul dv) f = void (set_rating f i mul dv)"
| "clock_apply (SetFrequency oi freq) f = void (set_frequency f oi freq)"
| "clock_apply (Reparent i p mul dv) f = void (reparent f i p mul dv)"
| "clock_apply (LockOscillator oi p mul dv) f = void (lock_oscillator f oi p mul dv)"
| "clock_apply (SetGated i g) f = void (set_gated f i g)"
| "clock_apply (AdvanceUnits oi n) f = void (advance_units f oi n)"
| "clock_apply (AdvanceDomain i n) f = void (advance_domain f i n)"
| "clock_apply (AdvanceAlone i n) f = void (advance_alone f i n)"
| "clock_apply (AdvanceTreeTo oi n) f = void (advance_tree_to f oi n)"
| "clock_apply (AdvanceToGlobal oi t) f = void (advance_to_global f oi t)"

text \<open>
  The arguments are values of their types: rates in lowest terms, 64-bit ratings,
  handles that fit 32 bits; and a frequency is only set on an oscillator that
  still drives its tree.
\<close>

fun op_ok :: "clock_op \<Rightarrow> clock_forest \<Rightarrow> bool" where
  "op_ok (AddOscillator name freq) f \<longleftrightarrow> rate_wf freq \<and> length (f_domains f) < 2 ^ 32 \<and> length (f_oscs f) < 2 ^ 32"
| "op_ok (AddDomain name p mul dv) f \<longleftrightarrow> mul < two64 \<and> dv < two64 \<and> length (f_domains f) < 2 ^ 32"
| "op_ok (SetRatings rs) f \<longleftrightarrow> (\<forall>r\<in>set rs. request_ok r)"
| "op_ok (SetRating i mul dv) f \<longleftrightarrow> mul < two64 \<and> dv < two64"
| "op_ok (SetFrequency oi freq) f \<longleftrightarrow> rate_wf freq \<and> (oi < length (f_oscs f) \<longrightarrow> o_active (osc_at f oi))"
| "op_ok (Reparent i p mul dv) f \<longleftrightarrow> mul < two64 \<and> dv < two64"
| "op_ok (LockOscillator oi p mul dv) f \<longleftrightarrow> mul < two64 \<and> dv < two64"
| "op_ok _ f \<longleftrightarrow> True"

fun is_change :: "clock_op \<Rightarrow> bool" where
  "is_change (AdvanceUnits oi n) = False"
| "is_change (AdvanceDomain i n) = False"
| "is_change (AdvanceAlone i n) = False"
| "is_change (AdvanceTreeTo oi n) = False"
| "is_change (AdvanceToGlobal oi t) = False"
| "is_change _ = True"

inductive clock_reachable :: "clock_forest \<Rightarrow> bool" where
  start: "clock_reachable forest_new"
| step: "clock_reachable f \<Longrightarrow> op_ok op f \<Longrightarrow> clock_reachable (fst (clock_apply op f))"

lemmas wf_contracts =
  osc_added.contract(1) domain_added.contract(1) rates_set.contract(1) rate_set_one.contract(1) frequency_set.contract(1) moved.contract(1) locked.contract(1) gated.contract(1) units_advanced.contract(1) domain_advanced.contract(1) advanced_alone.contract(1) tree_advanced.contract(1) advanced_to.contract(1)

lemmas panic_contracts =
  osc_added.contract(2) domain_added.contract(2) rates_set.contract(2) rate_set_one.contract(2) frequency_set.contract(2) moved.contract(2) locked.contract(2) gated.contract(2) units_advanced.contract(2) domain_advanced.contract(2) advanced_alone.contract(2) tree_advanced.contract(2) advanced_to.contract(2)

lemmas refusal_contracts =
  osc_added.contract(3) domain_added.contract(3) rates_set.contract(3) rate_set_one.contract(3) frequency_set.contract(3) moved.contract(3) locked.contract(3) gated.contract(3) units_advanced.contract(3) domain_advanced.contract(3) advanced_alone.contract(3) tree_advanced.contract(3) advanced_to.contract(3)

lemmas change_contracts =
  osc_added.ticks_kept domain_added.ticks_kept rates_set.ticks_kept rate_set_one.ticks_kept frequency_set.ticks_kept
  moved.ticks_kept locked.ticks_kept gated.ticks_kept
  osc_added.time_kept domain_added.time_kept rates_set.time_kept rate_set_one.time_kept frequency_set.time_kept
  moved.time_kept locked.time_kept gated.time_kept

lemma op_keeps:
  assumes "forest_wf f" "op_ok op f"
  shows "forest_wf (fst (clock_apply op f))" "snd (clock_apply op f) \<noteq> Inl (Panicked m)"
    "snd (clock_apply op f) = Inl e \<Longrightarrow> fst (clock_apply op f) = f"
proof -
  show "forest_wf (fst (clock_apply op f))" by (cases op) (use assms in \<open>simp_all add: wf_contracts del: void_simps\<close>)
  show "snd (clock_apply op f) \<noteq> Inl (Panicked m)" by (cases op) (use assms in \<open>simp_all add: panic_contracts del: void_simps\<close>)
  show "fst (clock_apply op f) = f" if "snd (clock_apply op f) = Inl e"
    using that by (cases op) (use assms in \<open>auto intro: refusal_contracts simp del: void_simps\<close>)
qed

lemma change_keeps:
  assumes "forest_wf f" "op_ok op f" "is_change op"
  shows "i < length (f_domains f) \<Longrightarrow> ticks (fst (clock_apply op f)) i = ticks f i"
    "oi < length (f_oscs f) \<Longrightarrow> global_time (fst (clock_apply op f)) oi = global_time f oi"
  by (cases op; use assms in \<open>simp add: change_contracts del: void_simps\<close>)+

lemma forest_new_wf: "forest_wf forest_new"
  by (simp add: forest_wf_def links_wf_def tree_wf_def child_of_def forest_new_def)

lemma reachable_wf: "clock_reachable f \<Longrightarrow> forest_wf f"
  by (induction rule: clock_reachable.induct) (use forest_new_wf op_keeps(1) in blast)+

section \<open>What the clocks promise\<close>

lemma reachable_osc:
  assumes "clock_reachable f" "oi < length (f_oscs f)"
  shows "timeline_wf (osc_at f oi)" "osc f oi = Inr (osc_at f oi)"
  using osc_okD(1) [OF links_wfD(4) [OF forest_links [OF reachable_wf [OF assms(1)]] assms(2)]] assms(2)
  by (simp_all add: osc_def nth_opt_def)

lemma floor_rat: "0 < m \<Longrightarrow> of_nat (a div m) \<le> (of_nat a / of_nat m :: rat) \<and> (of_nat a / of_nat m :: rat) < of_nat (a div m) + 1"
proof -
  assume m: "0 < m"
  have "a div m * m \<le> a" "a < (a div m + 1) * m" using m dividend_less_div_times [of m a] by (auto simp: algebra_simps)
  then have "(of_nat (a div m * m) :: rat) \<le> of_nat a" "(of_nat a :: rat) < of_nat ((a div m + 1) * m)" unfolding of_nat_le_iff of_nat_less_iff .
  then show ?thesis using m by (simp add: pos_le_divide_eq pos_divide_less_eq distrib_right add.commute)
qed



lemma rate_okD:
  assumes "rate_ok f i"
  shows "rate_wf (d_ratio (dom_at f i))" "0 < r_num (d_ratio (dom_at f i))"
    "r_num (d_ratio (dom_at f i)) dvd o_unit_mul (osc_at f (d_root (dom_at f i)))"
    "d_units_per_tick (dom_at f i) = tick_units (o_unit_mul (osc_at f (d_root (dom_at f i)))) (d_ratio (dom_at f i))"
    "d_units_per_tick (dom_at f i) < two64"
    "ratio_from (\<lambda>p. d_ratio (dom_at f p)) (dom_at f i) (d_ratio (dom_at f i))"
  using assms by (simp_all add: rate_ok_def Let_def)

lemma tick_units_rate:
  assumes "rate_wf r" "0 < r_num r" "r_num r dvd a"
  shows "of_nat (tick_units a r) * rate_of r = of_nat a"
proof -
  obtain q where "a = r_num r * q" using assms(3) by (auto elim: dvdE)
  then show ?thesis using assms(1,2) by (simp add: tick_units_def rate_of_def rate_wf_def rate_reduced_def)
qed

lemma wf_domain:
  assumes "forest_wf f" "i < length (f_domains f)"
  shows "rate_ok f i" "link_ok f i" "phase_ok f i" "domain f i = Inr (dom_at f i)" "0 < d_units_per_tick (dom_at f i)"
    "0 < o_unit_mul (osc_at f (d_root (dom_at f i)))" "o_units (osc_at f (d_root (dom_at f i))) < two64"
proof -
  note w = assms(1)
  note l = forest_links [OF w]
  show r: "rate_ok f i" using w assms(2) by (simp add: forest_wf_def)
  show k: "link_ok f i" "phase_ok f i" using links_wfD(2,3) [OF l assms(2)] by simp_all
  show "domain f i = Inr (dom_at f i)" using assms(2) by (simp add: domain_def nth_opt_def)
  show m: "0 < o_unit_mul (osc_at f (d_root (dom_at f i)))" by (rule osc_okD(4) [OF links_wfD(4) [OF l link_okD(1) [OF k(1)]]])
  show "o_units (osc_at f (d_root (dom_at f i))) < two64" by (rule units_lt [OF w assms(2)])
  have "of_nat (d_units_per_tick (dom_at f i)) * rate_of (d_ratio (dom_at f i)) \<noteq> 0"
    using tick_units_rate [OF rate_okD(1-3) [OF r]] m unfolding rate_okD(4) [OF r] by simp
  then show "0 < d_units_per_tick (dom_at f i)" by (cases "d_units_per_tick (dom_at f i)") auto
qed

lemmas reachable_domain = wf_domain [OF reachable_wf]

text \<open>
  C14: Ratios inside one tree are exact by construction: a domain runs at its
  parent's rate times its multiplier over its divisor, a tick of any domain is a
  whole number of the tree's unit ticks in exact proportion, and a converted tick
  count is the exact quotient of the two rates rounded down, with no absolute time
  involved.
\<close>

theorem tree_ratios_exact:
  assumes "clock_reachable f" "a < length (f_domains f)" "b < length (f_domains f)" "d_root (dom_at f a) = d_root (dom_at f b)"
  shows "of_nat (d_units_per_tick (dom_at f a)) * rate_of (d_ratio (dom_at f a))
      = (of_nat (d_units_per_tick (dom_at f b)) * rate_of (d_ratio (dom_at f b)) :: rat)
    \<and> (case d_parent (dom_at f a) of None \<Rightarrow> rate_of (d_ratio (dom_at f a)) = 1
       | Some p \<Rightarrow> rate_of (d_ratio (dom_at f a)) = rate_of (d_ratio (dom_at f p)) * of_nat (d_mul (dom_at f a)) / of_nat (d_div (dom_at f a)))
    \<and> (\<forall>n m. convert_ticks f a b n = Inr m \<longrightarrow>
         int m = \<lfloor>of_nat n * rate_of (d_ratio (dom_at f b)) / rate_of (d_ratio (dom_at f a))\<rfloor>)"
proof (intro conjI allI impI)
  note A = reachable_domain [OF assms(1,2)] and B = reachable_domain [OF assms(1,3)]
  let ?ka = "d_units_per_tick (dom_at f a)" and ?kb = "d_units_per_tick (dom_at f b)"
  let ?ra = "rate_of (d_ratio (dom_at f a))" and ?rb = "rate_of (d_ratio (dom_at f b))"
  show e: "of_nat ?ka * ?ra = of_nat ?kb * ?rb"
    using tick_units_rate [OF rate_okD(1-3) [OF A(1)]] tick_units_rate [OF rate_okD(1-3) [OF B(1)]] assms(4)
    by (simp add: rate_okD(4) [OF A(1)] rate_okD(4) [OF B(1)])
  show "case d_parent (dom_at f a) of None \<Rightarrow> ?ra = 1
       | Some p \<Rightarrow> ?ra = rate_of (d_ratio (dom_at f p)) * of_nat (d_mul (dom_at f a)) / of_nat (d_div (dom_at f a))"
  proof (cases "d_parent (dom_at f a)")
    case None
    then show ?thesis using rate_okD(6) [OF A(1)] by (simp add: ratio_from_def)
  next
    case (Some p)
    have "p < length (f_domains f)"
      using tree_wf_parent [OF links_wfD(1) [OF forest_links [OF reachable_wf [OF assms(1)]]], of p a] Some assms(2) by (simp add: child_of_def)
    note P = rate_okD(1) [OF reachable_domain(1) [OF assms(1) this]]
    have "rate_scale (d_ratio (dom_at f p)) (d_mul (dom_at f a)) (d_div (dom_at f a)) = Some (d_ratio (dom_at f a))"
      using rate_okD(6) [OF A(1)] Some by (simp add: ratio_from_def)
    then show ?thesis
      using rate_scale_correct [OF P, of "d_mul (dom_at f a)" "d_div (dom_at f a)" "d_ratio (dom_at f a)"]
        link_okD(3) [OF A(2)] Some by (simp add: rating_ok_def)
  qed
  fix n m assume "convert_ticks f a b n = Inr m"
  then have m: "m = n * ?ka div ?kb" using A(4) B(4) assms(4) by (auto simp: convert_ticks_def rbind_eq_Inr ok_or_eq_Inr)
  have "?ra \<noteq> 0" "?rb \<noteq> 0" using rate_okD(1,2) [OF A(1)] rate_okD(1,2) [OF B(1)] by simp_all
  then have q: "of_nat n * ?rb / ?ra = of_nat (n * ?ka) / of_nat ?kb" using e A(5) B(5) by (simp add: field_simps)
  show "int m = \<lfloor>of_nat n * ?rb / ?ra\<rfloor>" unfolding m q by (rule floor_divide_of_nat_eq [symmetric])
qed

lemma div_add_split: "0 < k \<Longrightarrow> (a + x) div k = a div k + (a mod k + x) div (k :: nat)"
proof -
  assume "0 < k"
  have "a + x = a div k * k + (a mod k + x)" by simp
  then show ?thesis using \<open>0 < k\<close> by (metis div_mult_self3 not_less_zero)
qed

text \<open>
  A tick line predicts the counter: with the remainder it keeps, the count a
  domain will read at every later position of its tree is one exact floor, the same
  one the forest computes when it gets there; a flat line stays true until the tree
  reaches the position the domain already has.
\<close>

theorem tick_line_exact:
  assumes "clock_reachable f" "i < length (f_domains f)" "tick_line f i u = Inr (whole, rem, per)" "u + x < 2 ^ 64"
  shows "if 0 < per then ticks_at_units f i (u + x) = Inr ((whole + (rem + x) div per) mod 2 ^ 64)
    else d_gated (dom_at f i) \<or> (\<exists>h. position f i = Inr h \<and> u + x \<le> h) \<longrightarrow> ticks_at_units f i (u + x) = Inr whole"
proof -
  note D = reachable_domain [OF assms(1,2)]
  let ?d = "dom_at f i" and ?tree = "o_units (osc_at f (d_root (dom_at f i)))"
  let ?h = "domain_position ?d (max u ?tree)"
  have ph: "d_base_unit ?d \<le> max ?tree (d_own ?d)" using D(3) by (simp add: phase_ok_def here_def domain_position_def)
  have eq: "ticks_at_units f i v = Inr (ticks_at ?d (max (max v ?tree) (d_own ?d)))" for v
    using D(4) by (simp add: ticks_at_units_def Let_def domain_position_def)
  show ?thesis
  proof (cases "d_gated ?d \<or> ?h \<noteq> u")
    case True
    then have l: "whole = ticks_at ?d ?h" "per = 0" using assms(3) D(4) by (auto simp: tick_line_def Let_def)
    have "ticks_at_units f i (u + x) = Inr whole" if "d_gated ?d \<or> (\<exists>h. position f i = Inr h \<and> u + x \<le> h)"
      using that
    proof
      assume "\<exists>h. position f i = Inr h \<and> u + x \<le> h"
      then have "u + x \<le> max ?tree (d_own ?d)" using D(4) by (auto simp: position_def domain_position_def)
      then have "max (max (u + x) ?tree) (d_own ?d) = max (max u ?tree) (d_own ?d)" by (auto simp: max_def split: if_splits)
      then show ?thesis by (simp add: eq l(1) domain_position_def)
    qed (simp add: eq l(1) ticks_at_def)
    then show ?thesis using l(2) by simp
  next
    case False
    let ?b = "d_base_unit ?d" and ?k = "d_units_per_tick ?d"
    have h: "?tree \<le> u" "d_own ?d \<le> u" using False by (auto simp: domain_position_def max_def split: if_splits)
    then have b: "?b \<le> u" using ph by simp
    have l: "whole = wrapping_add64 (d_base_ticks ?d) ((u - ?b) div ?k)" "rem = (u - ?b) mod ?k" "per = ?k"
      using assms(3) D(4) False by (auto simp: tick_line_def Let_def)
    have "wrapping_sub64 (u + x) ?b = u - ?b + x" using wrapping_sub64_eq [of ?b "u + x"] b assms(4) by simp
    moreover have "(u - ?b + x) div ?k = (u - ?b) div ?k + ((u - ?b) mod ?k + x) div ?k"
      using D(5) by (rule div_add_split)
    ultimately have "ticks_at ?d (u + x) = (whole + (rem + x) div per) mod two64"
      using False by (simp add: ticks_at_def wrapping_add64_def l mod_add_left_eq add.assoc)
    moreover have "max (max (u + x) ?tree) (d_own ?d) = u + x" using h by simp
    ultimately show ?thesis using D(5) l(3) by (simp add: eq)
  qed
qed

text \<open>
  Advancing is exact: moving a domain that stands with its tree by \<open>n\<close> of its own
  ticks adds exactly \<open>n\<close> to its counter, and every domain on the same crystal is
  where its line says for the unit position the tree has reached.
\<close>

theorem advance_exact:
  assumes "clock_reachable f" "i < length (f_domains f)" "ticks f i = Inr t" "lead f i = Inr 0" "advance_domain f i n = (f', Inr ())"
  shows "ticks f' i = Inr ((t + n) mod 2 ^ 64)
    \<and> (\<forall>j<length (f_domains f). d_root (dom_at f j) = d_root (dom_at f i) \<longrightarrow>
         ticks f' j = ticks_at_units f j (o_units (osc_at f (d_root (dom_at f i))) + n * d_units_per_tick (dom_at f i)))"
proof -
  note D = reachable_domain [OF assms(1,2)]
  let ?d = "dom_at f i" and ?oi = "d_root (dom_at f i)"
  let ?k = "d_units_per_tick ?d" and ?u = "o_units (osc_at f ?oi)" and ?b = "d_base_unit ?d"
  have g: "\<not> d_gated ?d" "n * ?k < two64" "advance_units f ?oi (n * ?k) = (f', Inr ())"
    using assms(5) D(4) by (auto simp: advance_domain_def checked_u64_def split: if_splits)
  obtain x where x: "?oi < length (f_oscs f)" "?u + n * ?k < two64" "f' = upd_osc ?oi (\<lambda>_. x\<lparr>o_units := ?u + n * ?k\<rparr>) f"
    using advance_units_cases [OF g(3)] by auto
  have tj: "ticks f' j = Inr (ticks_at (dom_at f j) (max (?u + n * ?k) (d_own (dom_at f j))))" if "j < length (f_domains f)" "d_root (dom_at f j) = ?oi" for j
    using that x by (simp add: ticks_def domain_def nth_opt_def domain_position_def)
  have own: "d_own ?d \<le> ?u" using assms(4) D(4) by (simp add: lead_def domain_position_def max_def Let_def split: if_splits)
  then have b: "?b \<le> ?u" using D(3) by (simp add: phase_ok_def here_def domain_position_def)
  have t: "t = (d_base_ticks ?d + (?u - ?b) div ?k) mod two64"
    using assms(3) D(4,7) own b g(1) wrapping_sub64_eq [OF b] by (simp add: ticks_def domain_position_def ticks_at_def wrapping_add64_def)
  have "wrapping_sub64 (?u + n * ?k) ?b = ?u - ?b + n * ?k" using wrapping_sub64_eq [of ?b "?u + n * ?k"] b x(2) by simp
  then have "ticks_at ?d (?u + n * ?k) = (t + n) mod two64"
    using g(1) D(5) by (simp add: ticks_at_def wrapping_add64_def t mod_add_left_eq add.assoc add.commute [of n])
  then have "ticks f' i = Inr ((t + n) mod 2 ^ 64)" using tj [OF assms(2) refl] by (simp add: max_absorb1 [OF trans_le_add1 [OF own]])
  moreover have "ticks f' j = ticks_at_units f j (?u + n * ?k)" if "j < length (f_domains f)" "d_root (dom_at f j) = ?oi" for j
    using tj [OF that] that by (simp add: ticks_at_units_def domain_def nth_opt_def domain_position_def Let_def)
  ultimately show ?thesis by blast
qed

lemma tree_ratios_no_cycle: "tree_ratios ds names order rs ids \<noteq> Inl (Refused (Cycle n))"
  by (induction ids arbitrary: rs) (auto simp: rbind_eq_Inl ok_or_eq_Inl split: option.splits)

lemma tree_unit_no_cycle: "tree_unit names a rs \<noteq> Inl (Refused (Cycle n))"
  by (induction rs arbitrary: a) (auto simp: rbind_eq_Inl ok_or_eq_Inl)

lemma recompute_no_cycle: "recompute_tree f oi \<noteq> Inl (Refused (Cycle n))"
  using tree_ratios_no_cycle tree_unit_no_cycle
  by (auto simp: recompute_tree_def Let_def rbind_eq_Inl ok_or_eq_Inl tree_tick_def rescale_def rescale_domain_def dest!: traverse_Inl)

lemma reparent_cycle_iff:
  assumes "forest_wf f" "i < length (f_domains f)" "a < length (f_domains f)" "0 < mul" "0 < dv"
  shows "snd (reparent f a i mul dv) = Inl (Refused (Cycle (d_name (dom_at f a)))) \<longleftrightarrow> i \<in> below (f_domains f) a"
  using is_ancestor_iff [OF links_wfD(1) [OF forest_links [OF assms(1)]] assms(2)] assms(2-) recompute_no_cycle
  by (auto simp: reparent_def check_domain_def Let_def or_restore_def rbind_eq_Inl split: sum.splits)

text \<open>
  The walks end by themselves: on every reachable forest the breadth-first walk
  and the chain of parents are finished after as many rounds as there are domains
  (further rounds change nothing), the walk lists every domain below its start
  exactly once with each parent ahead of its children, and a move is refused as a
  cycle exactly when the new parent lies below the moved domain.
\<close>

theorem walks_terminate:
  assumes "clock_reachable f" "i < length (f_domains f)" "length (f_domains f) \<le> fuel"
  shows "subtree_loop fuel (f_domains f) [i] 0 = subtree f i
    \<and> distinct (subtree f i) \<and> set (subtree f i) = below (f_domains f) i
    \<and> (\<forall>q<length (subtree f i). q = 0 \<or> (\<exists>p<q. d_parent (dom_at f (subtree f i ! q)) = Some (subtree f i ! p)))
    \<and> (\<forall>a. ancestor_loop fuel (f_domains f) a (Some i) = is_ancestor f a i)
    \<and> (\<forall>a mul dv. a < length (f_domains f) \<and> 0 < mul \<and> 0 < dv \<longrightarrow>
         (snd (reparent f a i mul dv) = Inl (Refused (Cycle (d_name (dom_at f a)))) \<longleftrightarrow> i \<in> below (f_domains f) a))"
proof -
  note w = links_wfD(1) [OF forest_links [OF reachable_wf [OF assms(1)]]]
  note st = subtree_correct [OF w assms(2)]
  obtain m where m: "fuel = length (f_domains f) + m" using assms(3) le_Suc_ex by blast
  have "bfs_inv (f_domains f) i [i] 0" by (simp add: bfs_inv_def)
  then have "subtree_loop fuel (f_domains f) [i] 0 = subtree f i"
    unfolding m subtree_def by (rule subtree_loop_fuel [OF w assms(2)]) simp
  moreover have "\<forall>q<length (subtree f i). q = 0 \<or> (\<exists>p<q. d_parent (dom_at f (subtree f i ! q)) = Some (subtree f i ! p))"
    using st(5) by (auto simp: child_of_def)
  moreover have "ancestor_loop fuel (f_domains f) a (Some i) = is_ancestor f a i" for a
    using ancestor_fuel [OF w assms(2,3)] is_ancestor_iff [OF w assms(2)] by blast
  moreover have "snd (reparent f a i mul dv) = Inl (Refused (Cycle (d_name (dom_at f a)))) \<longleftrightarrow> i \<in> below (f_domains f) a"
    if "a < length (f_domains f) \<and> 0 < mul \<and> 0 < dv" for a mul dv
    using reparent_cycle_iff [OF reachable_wf [OF assms(1)] assms(2)] that by blast
  ultimately show ?thesis using st(1,2) by blast
qed

text \<open>
  C15: Setting the frequency of an oscillator that has been locked into another
  tree panics: the walk starts at the locked root, whose parent lies outside it, so
  the \<open>expect\<close> on the parent's place in the order fails.
\<close>

theorem locked_frequency_panics:
  assumes "clock_reachable f" "oi < length (f_oscs f)" "d_parent (dom_at f (o_root (osc_at f oi))) = Some p" "0 < r_num freq"
  shows "snd (set_frequency f oi freq) = Inl (Panicked ''BFS order lists a parent before its children'')"
proof -
  note l = forest_links [OF reachable_wf [OF assms(1)]]
  let ?r = "o_root (osc_at f oi)"
  let ?f = "upd_osc oi (\<lambda>x. x\<lparr>o_freq := freq\<rparr>) f"
  note r = osc_okD(6) [OF links_wfD(4) [OF l assms(2)]]
  note st = subtree_correct [OF links_wfD(1) [OF l] r]
  have "p \<notin> set (subtree f ?r)"
    using not_own_child [OF links_wfD(1) [OF l], of p ?r] st(2) assms(3) r by (auto simp: child_of_def)
  then have "index_of p (subtree f ?r) = None" by (simp add: index_of_None)
  moreover obtain rest where "subtree f ?r = ?r # rest" using st(3,4) by (cases "subtree f ?r") auto
  ultimately have "tree_ratios (f_domains f) names (subtree f ?r) [] (subtree f ?r) = Inl (Panicked ''BFS order lists a parent before its children'')" for names
    using assms(3) by simp
  moreover have "subtree ?f ?r = subtree f ?r" "osc_at ?f oi = (osc_at f oi)\<lparr>o_freq := freq\<rparr>" "f_domains ?f = f_domains f"
    using assms(2) by (simp_all add: subtree_def upd_osc_def)
  ultimately show ?thesis using assms(2,4) by (simp add: set_frequency_def rate_is_zero_def recompute_tree_def Let_def or_restore_def)
qed

end
