(* ===== verification/Clock_Console.thy ===== *)
theory Clock_Console
  imports Clock_Run
begin

text \<open>
  Concrete clock trees, evaluated: the NES console, one crystal of 236250000/11 Hz
  with the processor at a twelfth and the picture unit at a quarter of it, and a
  console whose second crystal is locked to the first. They are the inputs at which
  the promises of the clock forest are checked.
\<close>

section \<open>Running a script of operations\<close>

definition clock_run :: "clock_op list \<Rightarrow> clock_forest \<Rightarrow> clock_forest" where
  "clock_run ops f = foldl (\<lambda>f op. fst (clock_apply op f)) f ops"

fun ops_ok :: "clock_op list \<Rightarrow> clock_forest \<Rightarrow> bool" where
  "ops_ok [] f = True"
| "ops_ok (op # ops) f \<longleftrightarrow> op_ok op f \<and> ops_ok ops (fst (clock_apply op f))"

lemma run_reachable: "clock_reachable f \<Longrightarrow> ops_ok ops f \<Longrightarrow> clock_reachable (clock_run ops f)"
  by (induction ops arbitrary: f) (simp_all add: clock_run_def clock_reachable.step)

lemmas clock_eval =
  void_def add_oscillator_def add_domain_def forest_new_def rate_is_zero_def recompute_conversion_def check_domain_def
  or_restore_def recompute_tree_def subtree_def subtree_loop.simps upd_dom_def upd_osc_def Let_def rate_one_def
  rate_scale_def rate_new_def rate_mul_def gcd_u64.simps checked_u64_def checked_u128_def checked_lcm_def tree_tick_def rescale_def
  rescale_domain_def set_derived_def commit_domains_def commit_osc_def rate_integer_def nth_opt_def
  advance_domain_def advance_units_def accumulate_def domain_def osc_def GLOBAL_TIME_FRAC_BITS_def

section \<open>One crystal\<close>

definition nes_master :: rate where
  "nes_master = \<lparr>r_num = 236250000, r_den = 11\<rparr>"

text \<open>The processor has run a hundred cycles.\<close>

definition nes_script :: "clock_op list" where
  "nes_script = [AddOscillator ''master'' nes_master, AddDomain ''cpu'' 0 1 12, AddDomain ''ppu'' 0 1 4, AdvanceDomain 1 100]"

definition nes_forest :: clock_forest where
  "nes_forest = clock_run nes_script forest_new"

lemma nes_forest_eq:
  "nes_forest =
    \<lparr>f_domains =
      [\<lparr>d_name = ''master'', d_parent = None, d_mul = 1, d_div = 1, d_children = [1, 2], d_root = 0,
        d_ratio = \<lparr>r_num = 1, r_den = 1\<rparr>, d_units_per_tick = 1, d_base_unit = 0, d_base_ticks = 0, d_gated = False, d_own = 0\<rparr>,
       \<lparr>d_name = ''cpu'', d_parent = Some 0, d_mul = 1, d_div = 12, d_children = [], d_root = 0,
        d_ratio = \<lparr>r_num = 1, r_den = 12\<rparr>, d_units_per_tick = 12, d_base_unit = 0, d_base_ticks = 0, d_gated = False, d_own = 0\<rparr>,
       \<lparr>d_name = ''ppu'', d_parent = Some 0, d_mul = 1, d_div = 4, d_children = [], d_root = 0,
        d_ratio = \<lparr>r_num = 1, r_den = 4\<rparr>, d_units_per_tick = 4, d_base_unit = 0, d_base_ticks = 0, d_gated = False, d_own = 0\<rparr>],
     f_oscs =
      [\<lparr>o_name = ''master'', o_freq = nes_master, o_root = 0, o_unit_mul = 1, o_unit_rate = nes_master, o_units = 1200,
        o_base_units = 0, o_base_time = 0, o_step = 858896020363, o_rem = 46317776, o_time = 1030675224435835,
        o_residual = 62581200, o_active = True\<rparr>]\<rparr>"
  by (simp add: nes_forest_def nes_script_def clock_run_def clock_eval nes_master_def)

lemma nes_master_wf: "rate_wf nes_master"
  by (simp add: nes_master_def rate_wf_def rate_reduced_def coprime_iff_gcd_eq_1 gcd_u64.simps flip: gcd_u64_eq)

lemma nes_reachable: "clock_reachable nes_forest"
  unfolding nes_forest_def
  by (rule run_reachable [OF clock_reachable.start]) (simp add: nes_script_def nes_master_wf [unfolded nes_master_def] clock_eval nes_master_def)



theorem tree_ratios_exact_witness:
  "convert_ticks nes_forest 1 2 100 = Inr 300
    \<and> int 300 = \<lfloor>of_nat 100 * rate_of (d_ratio (dom_at nes_forest 2)) / rate_of (d_ratio (dom_at nes_forest 1)) :: rat\<rfloor>"
proof -
  have c: "convert_ticks nes_forest 1 2 100 = Inr 300"
    by (simp add: nes_forest_eq convert_ticks_def domain_def nth_opt_def checked_u64_def)
  have "1 < length (f_domains nes_forest)" "2 < length (f_domains nes_forest)" "d_root (dom_at nes_forest 1) = d_root (dom_at nes_forest 2)"
    by (simp_all add: nes_forest_eq)
  from tree_ratios_exact [OF nes_reachable this] c show ?thesis by blast
qed

theorem tick_line_exact_witness:
  "tick_line nes_forest 1 1205 = Inr (100, 5, 12) \<and> ticks_at_units nes_forest 1 (1205 + 19) = Inr ((100 + (5 + 19) div 12) mod 2 ^ 64)"
proof -
  have l: "tick_line nes_forest 1 1205 = Inr (100, 5, 12)"
    by (simp add: nes_forest_eq tick_line_def domain_def nth_opt_def domain_position_def Let_def wrapping_add64_def)
  have "1 < length (f_domains nes_forest)" "(1205 :: nat) + 19 < 2 ^ 64" by (simp_all add: nes_forest_eq)
  from tick_line_exact [OF nes_reachable this(1) l this(2)] l show ?thesis by simp
qed

theorem advance_exact_witness:
  "\<exists>f'. advance_domain nes_forest 1 7 = (f', Inr ()) \<and> ticks f' 1 = Inr ((100 + 7) mod 2 ^ 64)
    \<and> ticks f' 2 = ticks_at_units nes_forest 2 (1200 + 7 * 12)"
proof -
  obtain f' where f': "advance_domain nes_forest 1 7 = (f', Inr ())"
    by (simp add: nes_forest_eq clock_eval nes_master_def)
  have "1 < length (f_domains nes_forest)" "ticks nes_forest 1 = Inr 100" "lead nes_forest 1 = Inr 0"
    by (simp_all add: nes_forest_eq ticks_def lead_def domain_def nth_opt_def ticks_at_def domain_position_def wrapping_add64_def wrapping_sub64_def)
  from advance_exact [OF nes_reachable this f'] f' show ?thesis by (auto simp: nes_forest_eq)
qed

theorem walks_terminate_witness: "subtree_loop 5 (f_domains nes_forest) [0] 0 = [0, 1, 2] \<and> set (subtree nes_forest 0) = below (f_domains nes_forest) 0"
proof -
  have "0 < length (f_domains nes_forest)" "length (f_domains nes_forest) \<le> 5" by (simp_all add: nes_forest_eq)
  from walks_terminate [OF nes_reachable this] show ?thesis
    by (simp add: nes_forest_eq subtree_def subtree_loop.simps)
qed

section \<open>Two crystals, one locked to the other\<close>

definition locked_script :: "clock_op list" where
  "locked_script = [AddOscillator ''master'' nes_master, AddOscillator ''audio'' nes_master, LockOscillator 1 0 1 2]"

definition locked_forest :: clock_forest where
  "locked_forest = clock_run locked_script forest_new"

lemmas relink_eval = lock_oscillator_def reparent_def relink_def rebase_subtree_def rebase_def is_ancestor_def move_domain_def domain_position_def

lemma locked_reachable: "clock_reachable locked_forest"
  unfolding locked_forest_def
  by (rule run_reachable [OF clock_reachable.start]) (simp add: locked_script_def nes_master_wf [unfolded nes_master_def] clock_eval nes_master_def)

theorem locked_frequency_panics_witness:
  "snd (set_frequency locked_forest 1 nes_master) = Inl (Panicked ''BFS order lists a parent before its children'')"
proof -
  have "1 < length (f_oscs locked_forest)" "d_parent (dom_at locked_forest (o_root (osc_at locked_forest 1))) = Some 0"
    by (simp_all add: locked_forest_def locked_script_def clock_run_def clock_eval relink_eval nes_master_def)
  moreover have "0 < r_num nes_master" by (simp add: nes_master_def)
  ultimately show ?thesis by (rule locked_frequency_panics [OF locked_reachable])
qed

end
