(* ===== verification/Clock_Control.thy ===== *)
theory Clock_Control
  imports Clock_Console "HOL-Library.Multiset"
begin

text \<open>
  The clock-control seam (\<open>ClockControl\<close> of \<open>core/clock.rs\<close> and
  \<open>Scheduler::apply_clock_requests\<close> of \<open>core/sched.rs\<close>): devices queue re-rating requests from
  any thread, the owner of the forest takes them as one batch at a scheduling boundary.
  The operations are modelled whole; then once more as the atomic steps their lock and
  their flag leave, to account for every interleaving.
\<close>

section \<open>Requests\<close>

fun show_nat :: "nat \<Rightarrow> string" where
  "show_nat n = (if n < 10 then [char_of (48 + n)] else show_nat (n div 10) @ [char_of (48 + n mod 10)])"

declare show_nat.simps [simp del]

definition from_ratio :: "domain_id \<Rightarrow> rate \<Rightarrow> clock_error + rate_request" where
  "from_ratio i ratio =
     (if rate_is_zero ratio then Inl (ZeroRate (''clock domain #'' @ show_nat i))
      else Inr \<lparr>q_domain = i, q_mul = r_num ratio, q_div = r_den ratio\<rparr>)"

definition request_rate :: "rate_request \<Rightarrow> rate" where
  "request_rate r = (case rate_new (q_mul r) (q_div r) of Inl _ \<Rightarrow> rate_one | Inr x \<Rightarrow> x)"

section \<open>The controller\<close>

record clock_control =
  c_pending :: "rate_request list"
  c_dirty :: bool
  c_applied :: nat

definition control_new :: clock_control where
  "control_new = \<lparr>c_pending = [], c_dirty = False, c_applied = 0\<rparr>"

fun put_request :: "rate_request \<Rightarrow> rate_request list \<Rightarrow> rate_request list" where
  "put_request r [] = [r]"
| "put_request r (x # xs) = (if q_domain x = q_domain r then r # xs else x # put_request r xs)"

definition control_push :: "rate_request \<Rightarrow> clock_control \<Rightarrow> clock_control" where
  "control_push r c = c\<lparr>c_pending := put_request r (c_pending c), c_dirty := True\<rparr>"

definition request :: "domain_id \<Rightarrow> nat \<Rightarrow> nat \<Rightarrow> clock_control \<Rightarrow> clock_control" where
  "request i mul dv c = control_push \<lparr>q_domain = i, q_mul = mul, q_div = dv\<rparr> c"

definition request_ratio :: "domain_id \<Rightarrow> rate \<Rightarrow> clock_control \<Rightarrow> clock_control" where
  "request_ratio i ratio c = (case from_ratio i ratio of Inl _ \<Rightarrow> c | Inr r \<Rightarrow> control_push r c)"

definition is_pending :: "clock_control \<Rightarrow> bool" where
  "is_pending c = c_dirty c"

definition control_take :: "clock_control \<Rightarrow> clock_control \<times> rate_request list" where
  "control_take c =
     (if \<not> is_pending c then (c, [])
      else (c\<lparr>c_dirty := False, c_pending := []\<rparr>, sort_key q_domain (c_pending c)))"

definition note_applied :: "clock_control \<Rightarrow> clock_control" where
  "note_applied c = c\<lparr>c_applied := wrapping_add64 (c_applied c) 1\<rparr>"

section \<open>Applying a batch\<close>

definition is_change_request :: "clock_forest \<Rightarrow> rate_request \<Rightarrow> bool" where
  "is_change_request f r =
     (case domain f (q_domain r) of
        Inl _ \<Rightarrow> False
      | Inr d \<Rightarrow> let now = rate_new (d_mul d) (d_div d); want = rate_new (q_mul r) (q_div r) in \<not> (is_ok now \<and> now = want))"

text \<open>The epoch invalidates the scheduler's cached conversions; republishing device positions is not modelled.\<close>

definition apply_clock_requests ::
  "clock_control \<Rightarrow> clock_forest \<Rightarrow> nat \<Rightarrow> clock_control \<times> clock_forest \<times> nat \<times> unit clock_result" where
  "apply_clock_requests c f epoch =
     (if \<not> is_pending c then (c, f, epoch, Inr ())
      else
        let (c, batch) = control_take c; changes = filter (is_change_request f) batch in
        if changes = [] then (c, f, epoch, Inr ())
        else case set_ratings f changes of
          (f, Inl e) \<Rightarrow> (c, f, epoch, Inl e)
        | (f, Inr _) \<Rightarrow> (note_applied c, f, wrapping_add64 epoch 1, Inr ()))"

section \<open>What a batch holds\<close>

text \<open>The last request for a domain in a history of requests.\<close>

definition last_request :: "rate_request list \<Rightarrow> domain_id \<Rightarrow> rate_request option" where
  "last_request rs i = find (\<lambda>r. q_domain r = i) (rev rs)"

definition control_run :: "rate_request list \<Rightarrow> clock_control \<Rightarrow> clock_control" where
  "control_run rs c = foldl (\<lambda>c r. control_push r c) c rs"

definition lookup :: "rate_request list \<Rightarrow> domain_id \<Rightarrow> rate_request option" where
  "lookup rs i = find (\<lambda>r. q_domain r = i) rs"

lemma lookup_simps [simp]: "lookup [] i = None" "lookup (r # rs) i = (if q_domain r = i then Some r else lookup rs i)"
  by (simp_all add: lookup_def)

lemma lookup_put: "lookup (put_request r rs) i = (if q_domain r = i then Some r else lookup rs i)"
  by (induction rs) auto

lemma put_domains: "set (map q_domain (put_request r rs)) = insert (q_domain r) (set (map q_domain rs))"
  by (induction rs) auto

lemma put_distinct: "distinct (map q_domain rs) \<Longrightarrow> distinct (map q_domain (put_request r rs))"
proof (induction rs)
  case (Cons x xs)
  then show ?case using put_domains [of r xs] by auto
qed simp

lemma lookup_iff: "distinct (map q_domain rs) \<Longrightarrow> lookup rs i = Some r \<longleftrightarrow> r \<in> set rs \<and> q_domain r = i"
  by (induction rs) (auto simp: image_iff)

lemma control_run_pending:
  assumes "distinct (map q_domain (c_pending c))"
  shows "distinct (map q_domain (c_pending (control_run rs c)))
    \<and> lookup (c_pending (control_run rs c)) i = (case last_request rs i of Some r \<Rightarrow> Some r | None \<Rightarrow> lookup (c_pending c) i)
    \<and> (rs \<noteq> [] \<longrightarrow> c_dirty (control_run rs c))"
proof (induction rs rule: rev_induct)
  case (snoc r rs)
  then show ?case by (auto simp: control_run_def control_push_def lookup_put put_distinct last_request_def)
qed (simp add: control_run_def last_request_def assms)

lemma batch_unique:
  assumes "distinct (map q_domain xs)" "distinct (map q_domain ys)" "sorted (map q_domain xs)" "sorted (map q_domain ys)"
    and "\<forall>i. lookup xs i = lookup ys i"
  shows "xs = ys"
proof -
  have s: "set xs = set ys" using assms(5) lookup_iff [OF assms(1)] lookup_iff [OF assms(2)] by auto
  then have "inj_on q_domain (set xs \<union> set ys)" using assms(1) by (simp add: distinct_map)
  then show ?thesis using map_sorted_distinct_set_unique [of q_domain xs ys] assms(1-4) s by blast
qed

lemma control_take_spec:
  assumes "rs \<noteq> []"
  shows "\<exists>batch. control_take (control_run rs control_new) = (control_new, batch)
    \<and> sorted (map q_domain batch) \<and> distinct (map q_domain batch) \<and> (\<forall>i. lookup batch i = last_request rs i)"
proof -
  let ?c = "control_run rs control_new" and ?b = "sort_key q_domain (c_pending (control_run rs control_new))"
  have "distinct (map q_domain (c_pending control_new))" by (simp add: control_new_def)
  note p = control_run_pending [OF this, of rs]
  have l: "lookup (c_pending control_new) i = None" for i by (simp add: control_new_def)
  have app: "c_applied ?c = 0"
    by (induction rs rule: rev_induct) (simp_all add: control_run_def control_new_def control_push_def)
  have d: "distinct (map q_domain ?b)"
    using p by (metis mset_map mset_eq_imp_distinct_iff mset_sort)
  moreover have "lookup ?b i = last_request rs i" for i
  proof (cases "last_request rs i")
    case None
    then have "lookup (c_pending ?c) i = None" using p l by simp
    then show ?thesis using None by (simp add: lookup_def find_None_iff)
  next
    case (Some r)
    then have "r \<in> set (c_pending ?c) \<and> q_domain r = i" using p lookup_iff [of "c_pending ?c" i r] by simp
    then show ?thesis using Some lookup_iff [OF d, of i r] by simp
  qed
  moreover have "control_take ?c = (control_new, ?b)"
    using p assms app by (simp add: control_take_def is_pending_def) (simp add: control_new_def)
  ultimately show ?thesis by auto
qed

text \<open>
  A batch is a pure function of what was requested: it names each domain at most
  once, in domain order, with the last rating asked for, so two histories that agree on
  the last request of every domain give the same batch whatever order the devices wrote
  in, and taking it leaves the controller empty.
\<close>

theorem batch_coalesces:
  assumes "rs \<noteq> []" "rs' \<noteq> []" "\<forall>i. last_request rs' i = last_request rs i"
  shows "\<exists>batch. control_take (control_run rs control_new) = (control_new, batch)
    \<and> control_take (control_run rs' control_new) = (control_new, batch)
    \<and> sorted (map q_domain batch) \<and> distinct (map q_domain batch)
    \<and> (\<forall>r. r \<in> set batch \<longleftrightarrow> last_request rs (q_domain r) = Some r)"
proof -
  obtain b where b: "control_take (control_run rs control_new) = (control_new, b)" "sorted (map q_domain b)" "distinct (map q_domain b)"
    "\<forall>i. lookup b i = last_request rs i" using control_take_spec [OF assms(1)] by blast
  obtain b' where b': "control_take (control_run rs' control_new) = (control_new, b')" "sorted (map q_domain b')" "distinct (map q_domain b')"
    "\<forall>i. lookup b' i = last_request rs' i" using control_take_spec [OF assms(2)] by blast
  have "b' = b" using batch_unique [OF b'(3) b(3) b'(2) b(2)] b(4) b'(4) assms(3) by simp
  moreover have "r \<in> set b \<longleftrightarrow> last_request rs (q_domain r) = Some r" for r
    using lookup_iff [OF b(3), of "q_domain r" r] b(4) by simp
  ultimately show ?thesis using b b' by blast
qed

definition history_a :: "rate_request list" where
  "history_a = [\<lparr>q_domain = 2, q_mul = 1, q_div = 4\<rparr>, \<lparr>q_domain = 1, q_mul = 1, q_div = 6\<rparr>, \<lparr>q_domain = 2, q_mul = 1, q_div = 8\<rparr>]"

definition history_b :: "rate_request list" where
  "history_b = [\<lparr>q_domain = 2, q_mul = 1, q_div = 8\<rparr>, \<lparr>q_domain = 1, q_mul = 1, q_div = 6\<rparr>]"

theorem batch_coalesces_witness:
  "\<exists>batch. control_take (control_run history_a control_new) = (control_new, batch)
    \<and> control_take (control_run history_b control_new) = (control_new, batch)"
proof -
  have h: "history_a \<noteq> []" "history_b \<noteq> []" "\<forall>i. last_request history_b i = last_request history_a i"
    by (simp_all add: history_a_def history_b_def last_request_def)
  show ?thesis using batch_coalesces [OF h] by blast
qed

section \<open>Every interleaving\<close>

text \<open>
  A push is two atomic steps, the entry under the lock and then the flag. A take is
  three: it reads the flag, clears it with the lock held, and empties the queue. The
  history since the queue was last emptied is kept beside the controller.
\<close>

datatype owner = Idle | Checked | Locked

record seam =
  z_control :: clock_control
  z_owner :: owner
  z_flagging :: nat
  z_since :: "rate_request list"

definition seam_start :: seam where
  "seam_start = \<lparr>z_control = control_new, z_owner = Idle, z_flagging = 0, z_since = []\<rparr>"

inductive seam_step :: "seam \<Rightarrow> seam \<Rightarrow> bool" where
  enter: "z_owner s \<noteq> Locked \<Longrightarrow>
    seam_step s (s\<lparr>z_control := (z_control s)\<lparr>c_pending := put_request r (c_pending (z_control s))\<rparr>,
      z_flagging := z_flagging s + 1, z_since := z_since s @ [r]\<rparr>)"
| flag: "0 < z_flagging s \<Longrightarrow>
    seam_step s (s\<lparr>z_control := (z_control s)\<lparr>c_dirty := True\<rparr>, z_flagging := z_flagging s - 1\<rparr>)"
| check: "z_owner s = Idle \<Longrightarrow> c_dirty (z_control s) \<Longrightarrow> seam_step s (s\<lparr>z_owner := Checked\<rparr>)"
| clear: "z_owner s = Checked \<Longrightarrow> seam_step s (s\<lparr>z_owner := Locked, z_control := (z_control s)\<lparr>c_dirty := False\<rparr>\<rparr>)"
| grab: "z_owner s = Locked \<Longrightarrow> seam_step s (s\<lparr>z_owner := Idle, z_control := (z_control s)\<lparr>c_pending := []\<rparr>, z_since := []\<rparr>)"

inductive_cases seam_stepE: "seam_step s s'"

definition seam_inv :: "seam \<Rightarrow> bool" where
  "seam_inv s \<longleftrightarrow> (c_pending (z_control s) \<noteq> [] \<longrightarrow> c_dirty (z_control s) \<or> 0 < z_flagging s \<or> z_owner s = Locked)
     \<and> distinct (map q_domain (c_pending (z_control s)))
     \<and> (\<forall>i. lookup (c_pending (z_control s)) i = last_request (z_since s) i)"

lemma seam_step_inv: "seam_step s s' \<Longrightarrow> seam_inv s \<Longrightarrow> seam_inv s'"
  by (erule seam_stepE) (auto simp: seam_inv_def put_distinct lookup_put last_request_def)

lemma seam_start_inv: "seam_inv seam_start"
  by (simp add: seam_inv_def seam_start_def control_new_def last_request_def)

lemma seam_reachable_inv: "seam_step\<^sup>*\<^sup>* seam_start s \<Longrightarrow> seam_inv s"
  by (induction rule: rtranclp_induct) (use seam_start_inv seam_step_inv in blast)+


text \<open>A device pushes while the owner is emptying an earlier batch.\<close>

definition raced :: seam where
  "raced = \<lparr>z_control = \<lparr>c_pending = [\<lparr>q_domain = 2, q_mul = 1, q_div = 8\<rparr>], c_dirty = True, c_applied = 0\<rparr>,
     z_owner = Idle, z_flagging = 0, z_since = [\<lparr>q_domain = 2, q_mul = 1, q_div = 8\<rparr>]\<rparr>"

lemma raced_reachable: "seam_step\<^sup>*\<^sup>* seam_start raced"
proof -
  let ?a = "\<lparr>q_domain = 1, q_mul = 1, q_div = 6\<rparr>" and ?b = "\<lparr>q_domain = 2, q_mul = 1, q_div = 8\<rparr>"
  let ?s = "\<lambda>p d ow k h. \<lparr>z_control = \<lparr>c_pending = p, c_dirty = d, c_applied = 0\<rparr>, z_owner = ow, z_flagging = k, z_since = h\<rparr>"
  have "seam_step seam_start (?s [?a] False Idle 1 [?a])"
    using seam_step.enter [of seam_start ?a] by (simp add: seam_start_def control_new_def)
  moreover have "seam_step (?s [?a] False Idle 1 [?a]) (?s [?a] True Idle 0 [?a])"
    using seam_step.flag [of "?s [?a] False Idle 1 [?a]"] by simp
  moreover have "seam_step (?s [?a] True Idle 0 [?a]) (?s [?a] True Checked 0 [?a])"
    using seam_step.check [of "?s [?a] True Idle 0 [?a]"] by simp
  moreover have "seam_step (?s [?a] True Checked 0 [?a]) (?s [?a] False Locked 0 [?a])"
    using seam_step.clear [of "?s [?a] True Checked 0 [?a]"] by simp
  moreover have "seam_step (?s [?a] False Locked 0 [?a]) (?s [] False Idle 0 [])"
    using seam_step.grab [of "?s [?a] False Locked 0 [?a]"] by simp
  moreover have "seam_step (?s [] False Idle 0 []) (?s [?b] False Idle 1 [?b])"
    using seam_step.enter [of "?s [] False Idle 0 []" ?b] by simp
  moreover have "seam_step (?s [?b] False Idle 1 [?b]) raced"
    using seam_step.flag [of "?s [?b] False Idle 1 [?b]"] by (simp add: raced_def)
  ultimately show ?thesis by (meson converse_rtranclp_into_rtranclp rtranclp.rtrancl_refl)
qed


section \<open>A boundary\<close>

lemma filter_requests_ok: "\<forall>r\<in>set (c_pending c). request_ok r \<Longrightarrow> \<forall>r\<in>set (filter P (snd (control_take c))). request_ok r"
  by (simp add: control_take_def)

text \<open>
  Applying requests at a boundary keeps time continuous: every domain's tick counter
  and every timeline position is what it was, a refused batch leaves the forest as it
  was, nothing panics, and a batch that asks only for the ratings already in force
  changes nothing at all.
\<close>

theorem apply_keeps_time:
  assumes "clock_reachable f" "\<forall>r\<in>set (c_pending c). request_ok r" "apply_clock_requests c f epoch = (c', f', epoch', res)"
  shows "(\<forall>i<length (f_domains f). ticks f' i = ticks f i) \<and> (\<forall>oi<length (f_oscs f). global_time f' oi = global_time f oi)
    \<and> (\<forall>e. res = Inl e \<longrightarrow> f' = f \<and> e \<noteq> Panicked m)
    \<and> ((\<forall>r\<in>set (c_pending c). \<not> is_change_request f r) \<longrightarrow> f' = f \<and> res = Inr ())"
proof -
  let ?rs = "filter (is_change_request f) (snd (control_take c))"
  note w = reachable_wf [OF assms(1)]
  show ?thesis
  proof (cases "is_pending c \<and> ?rs \<noteq> []")
    case False
    then have "f' = f \<and> res = Inr ()" using assms(3) by (auto simp: apply_clock_requests_def Let_def split: prod.splits if_splits)
    then show ?thesis by simp
  next
    case True
    then have "set_ratings f ?rs = (f', res)"
      using assms(3) by (auto simp: apply_clock_requests_def Let_def split: prod.splits sum.splits)
    note c = set_ratings_contract [OF w filter_requests_ok [OF assms(2)] this]
    have op: "op_ok (SetRatings ?rs) f" using filter_requests_ok [OF assms(2)] by simp
    have "fst (clock_apply (SetRatings ?rs) f) = f'" using \<open>set_ratings f ?rs = (f', res)\<close> by simp
    moreover have "\<not> (\<forall>r\<in>set (c_pending c). \<not> is_change_request f r)" using True by (auto simp: control_take_def filter_empty_conv)
    ultimately show ?thesis using change_keeps [OF w op] c by auto
  qed
qed

text \<open>A guest halves the NES processor's divider in mid-run.\<close>

definition halved :: clock_control where
  "halved = request 1 1 6 control_new"

theorem apply_keeps_time_witness:
  "\<exists>c' f' e'. apply_clock_requests halved nes_forest 0 = (c', f', e', Inr ()) \<and> ticks f' 1 = Inr 100 \<and> d_units_per_tick (dom_at f' 1) = 6"
proof -
  have t: "ticks nes_forest 1 = Inr 100"
    by (simp add: nes_forest_eq ticks_def domain_def nth_opt_def ticks_at_def domain_position_def wrapping_add64_def wrapping_sub64_def)
  obtain c' f' e' where a: "apply_clock_requests halved nes_forest 0 = (c', f', e', Inr ())" "d_units_per_tick (dom_at f' 1) = 6"
    by (simp add: apply_clock_requests_def halved_def request_def control_push_def control_new_def is_pending_def control_take_def is_change_request_def
        is_ok_def nes_forest_eq set_ratings_def rebase_subtree_def rebase_def assign_rating_def domain_position_def clock_eval nes_master_def)
  have "\<forall>r\<in>set (c_pending halved). request_ok r" by (simp add: halved_def request_def control_push_def control_new_def request_ok_def)
  from apply_keeps_time [OF nes_reachable this a(1)] have "\<forall>i<length (f_domains nes_forest). ticks f' i = ticks nes_forest i" by blast
  moreover have "1 < length (f_domains nes_forest)" by (simp add: nes_forest_eq)
  ultimately show ?thesis using a t by auto
qed

end
