(* ===== verification/Machine_Clocks.thy ===== *)
theory Machine_Clocks
  imports Clock_Console State_Codec
begin

text \<open>
  The clock chunk of a machine snapshot (\<open>save_clocks\<close> and \<open>load_clocks\<close> of
  \<open>machine/machine.rs\<close>): unit positions, tick counters and leads written through the
  snapshot byte layer and restored into a forest with the same topology.
\<close>

section \<open>Writing and reading the chunk\<close>

text \<open>What loading can answer: a codec error, a refusal of the forest or one of the three messages of the loader.\<close>

datatype load_error =
    FromCodec "snap_msg error"
  | FromClock clock_error
  | ClockPanic string
  | OscillatorCount nat nat
  | DomainCount nat nat
  | NoSuchDomain nat

definition write_u64s :: "u8 list \<Rightarrow> nat list \<Rightarrow> u8 list" where
  "write_u64s sink vs = foldl (\<lambda>s v. write_u64 s (word_of_nat v)) sink vs"

definition nonzero_leads :: "nat list \<Rightarrow> (nat \<times> nat) list" where
  "nonzero_leads ls = filter (\<lambda>(i, l). l \<noteq> 0) (enumerate 0 ls)"

definition save_clocks :: "clock_forest \<Rightarrow> u8 list \<Rightarrow> load_error + u8 list" where
  "save_clocks f sink =
     map_err FromClock
       (rbind (traverse (unit_position f) (oscillators f)) (\<lambda>us.
        rbind (traverse (ticks f) (domains f)) (\<lambda>ts.
        rbind (traverse (lead f) (domains f)) (\<lambda>ls.
          let sink = write_u64s (write_seq_len sink (word_of_nat (length (oscillators f)))) us;
              sink = write_u64s (write_seq_len sink (word_of_nat (length (domains f)))) ts;
              leads = nonzero_leads ls
          in Inr (if leads = [] then sink
                  else foldl (\<lambda>s (i, l). write_u64 (write_u64 s (word_of_nat i)) (word_of_nat l))
                         (write_seq_len sink (word_of_nat (length leads))) leads)))))"

fun stop_error :: "clock_stop \<Rightarrow> load_error" where
  "stop_error (Refused e) = FromClock e"
| "stop_error (Panicked m) = ClockPanic m"

text \<open>One value read per handle and handed to a restoring operation.\<close>

fun load_each ::
  "(clock_forest \<Rightarrow> nat \<Rightarrow> nat \<Rightarrow> clock_forest \<times> unit clock_result) \<Rightarrow> nat list \<Rightarrow> source \<Rightarrow> clock_forest
   \<Rightarrow> clock_forest \<times> (load_error + source)" where
  "load_each act [] src f = (f, Inr src)"
| "load_each act (i # is) src f =
     (case read_u64 src of
        Inl e \<Rightarrow> (f, Inl (FromCodec e))
      | Inr (v, src) \<Rightarrow>
          (case act f i (unat v) of
             (f, Inl s) \<Rightarrow> (f, Inl (stop_error s))
           | (f, Inr _) \<Rightarrow> load_each act is src f))"

fun load_leads :: "nat \<Rightarrow> nat \<Rightarrow> source \<Rightarrow> clock_forest \<Rightarrow> clock_forest \<times> (load_error + source)" where
  "load_leads n 0 src f = (f, Inr src)"
| "load_leads n (Suc count) src f =
     (case read_u64 src of
        Inl e \<Rightarrow> (f, Inl (FromCodec e))
      | Inr (index, src) \<Rightarrow>
          if n \<le> unat index then (f, Inl (NoSuchDomain (unat index)))
          else case read_u64 src of
            Inl e \<Rightarrow> (f, Inl (FromCodec e))
          | Inr (l, src) \<Rightarrow>
              (case restore_lead f (unat index) (unat l) of
                 (f, Inl s) \<Rightarrow> (f, Inl (stop_error s))
               | (f, Inr _) \<Rightarrow> load_leads n count src f))"

definition load_clocks :: "source \<Rightarrow> clock_forest \<Rightarrow> clock_forest \<times> (load_error + source)" where
  "load_clocks src f =
     (case read_seq_len src 8 of
        Inl e \<Rightarrow> (f, Inl (FromCodec e))
      | Inr (count, src) \<Rightarrow>
          if unat count \<noteq> length (f_oscs f) then (f, Inl (OscillatorCount (unat count) (length (f_oscs f))))
          else case load_each restore_unit_position (oscillators f) src f of
            (f, Inl e) \<Rightarrow> (f, Inl e)
          | (f, Inr src) \<Rightarrow>
              (case read_seq_len src 8 of
                 Inl e \<Rightarrow> (f, Inl (FromCodec e))
               | Inr (count, src) \<Rightarrow>
                   if unat count \<noteq> length (f_domains f) then (f, Inl (DomainCount (unat count) (length (f_domains f))))
                   else case load_each restore_ticks (domains f) src f of
                     (f, Inl e) \<Rightarrow> (f, Inl e)
                   | (f, Inr src) \<Rightarrow>
                       if 0 < remaining src then
                         case read_seq_len src 16 of
                           Inl e \<Rightarrow> (f, Inl (FromCodec e))
                         | Inr (count, src) \<Rightarrow> load_leads (length (f_domains f)) (unat count) src f
                       else (f, Inr src)))"

section \<open>What is written\<close>

definition enc_u64 :: "nat \<Rightarrow> u8 list" where
  "enc_u64 v = to_le_bytes (word_of_nat v :: u64)"

definition enc_u64s :: "nat list \<Rightarrow> u8 list" where
  "enc_u64s vs = enc_u64 (length vs) @ enc_list enc_u64 vs"

definition enc_leads :: "(nat \<times> nat) list \<Rightarrow> u8 list" where
  "enc_leads ls = (if ls = [] then [] else enc_u64 (length ls) @ enc_list (\<lambda>(i, l). enc_u64 i @ enc_u64 l) ls)"

lemma length_enc_u64 [simp]: "length (enc_u64 v) = 8"
  by (simp add: enc_u64_def)

lemma length_enc_list_u64 [simp]: "length (enc_list enc_u64 vs) = 8 * length vs"
  by (induction vs) simp_all

lemma write_u64s_enc [simp]: "write_u64s sink vs = sink @ enc_list enc_u64 vs"
  by (induction vs arbitrary: sink) (simp_all add: write_u64s_def enc_u64_def codec_simps)

lemma write_leads_enc:
  "foldl (\<lambda>s (i, l). s @ enc_u64 i @ enc_u64 l) sink ls = sink @ enc_list (\<lambda>(i, l). enc_u64 i @ enc_u64 l) ls"
  by (induction ls arbitrary: sink) auto

text \<open>The values a forest is saved as.\<close>

definition saved_units :: "clock_forest \<Rightarrow> nat list" where
  "saved_units f = map o_units (f_oscs f)"

definition saved_ticks :: "clock_forest \<Rightarrow> nat list" where
  "saved_ticks f = map (tick_count f) [0..<length (f_domains f)]"

definition lead_of :: "clock_forest \<Rightarrow> domain_id \<Rightarrow> nat" where
  "lead_of f i = here f i - o_units (osc_at f (d_root (dom_at f i)))"

definition saved_leads :: "clock_forest \<Rightarrow> nat list" where
  "saved_leads f = map (lead_of f) [0..<length (f_domains f)]"

lemma traverse_map: "(\<forall>x\<in>set xs. g x = Inr (h x)) \<Longrightarrow> traverse g xs = Inr (map h xs)"
  by (induction xs) simp_all

lemma inspect_eq:
  assumes "i < length (f_domains f)"
  shows "ticks f i = Inr (tick_count f i)" "lead f i = Inr (lead_of f i)" "position f i = Inr (here f i)"
  using assms by (simp_all add: ticks_def lead_def position_def domain_def nth_opt_def tick_count_def here_def lead_of_def Let_def)

lemma save_clocks_eq:
  "save_clocks f sink = Inr (sink @ enc_u64s (saved_units f) @ enc_u64s (saved_ticks f) @ enc_leads (nonzero_leads (saved_leads f)))"
proof -
  have "traverse (unit_position f) (oscillators f) = Inr (map (\<lambda>i. o_units (osc_at f i)) (oscillators f))"
    by (rule traverse_map) (simp add: oscillators_def unit_position_def osc_def nth_opt_def)
  also have "map (\<lambda>i. o_units (osc_at f i)) (oscillators f) = saved_units f"
    by (rule nth_equalityI) (simp_all add: saved_units_def oscillators_def)
  finally have u: "traverse (unit_position f) (oscillators f) = Inr (saved_units f)" .
  have t: "traverse (ticks f) (domains f) = Inr (saved_ticks f)" "traverse (lead f) (domains f) = Inr (saved_leads f)"
    by (simp_all add: traverse_map inspect_eq domains_def saved_ticks_def saved_leads_def)
  have n: "length (oscillators f) = length (saved_units f)" "length (domains f) = length (saved_ticks f)"
    by (simp_all add: oscillators_def domains_def saved_units_def saved_ticks_def)
  show ?thesis by (simp add: save_clocks_def u t n Let_def codec_simps write_leads_enc enc_u64s_def enc_leads_def enc_u64_def [symmetric])
qed

section \<open>What is read back\<close>

fun all_ok :: "(clock_forest \<Rightarrow> nat \<Rightarrow> nat \<Rightarrow> clock_forest \<times> unit clock_result) \<Rightarrow> (nat \<times> nat) list \<Rightarrow> clock_forest \<Rightarrow> bool" where
  "all_ok act [] f = True"
| "all_ok act ((i, v) # ivs) f \<longleftrightarrow> snd (act f i v) = Inr () \<and> all_ok act ivs (fst (act f i v))"

definition run_each :: "(clock_forest \<Rightarrow> nat \<Rightarrow> nat \<Rightarrow> clock_forest \<times> unit clock_result) \<Rightarrow> (nat \<times> nat) list \<Rightarrow> clock_forest \<Rightarrow> clock_forest" where
  "run_each act ivs f = foldl (\<lambda>f (i, v). fst (act f i v)) f ivs"

lemma read_enc_u64:
  assumes "source_wf src" "unread src = enc_u64 v @ r" "v < two64"
  shows "read_u64 src = Inr (word_of_nat v, advance src 8) \<and> source_wf (advance src 8) \<and> unread (advance src 8) = r \<and> unat (word_of_nat v :: u64) = v"
proof -
  have u: "unread src = to_le_bytes (word_of_nat v :: u64) @ r" using assms(2) by (simp add: enc_u64_def)
  have "unat (word_of_nat v :: u64) = v" using assms(3) by (simp add: unsigned_of_nat take_bit_nat_eq_self)
  then show ?thesis using u64_codec.dec_enc [OF assms(1) TrueI u] source_wf_advance [OF assms(1) u] unread_advance [OF u] by simp
qed

lemma load_each_enc:
  assumes "source_wf src" "unread src = enc_list enc_u64 vs @ r" "length ids = length vs" "\<forall>v\<in>set vs. v < two64" "all_ok act (zip ids vs) f"
  shows "\<exists>src'. load_each act ids src f = (run_each act (zip ids vs) f, Inr src') \<and> source_wf src' \<and> unread src' = r"
  using assms
proof (induction vs arbitrary: ids src f)
  case (Cons v vs)
  obtain i ids1 where i: "ids = i # ids1" using Cons.prems(3) by (cases ids) auto
  have "unread src = enc_u64 v @ enc_list enc_u64 vs @ r" using Cons.prems(2) by simp
  note d = read_enc_u64 [OF Cons.prems(1) this]
  obtain f1 where a: "act f i v = (f1, Inr ())" using Cons.prems(5) i by (cases "act f i v") auto
  have "\<exists>src'. load_each act ids1 (advance src 8) f1 = (run_each act (zip ids1 vs) f1, Inr src') \<and> source_wf src' \<and> unread src' = r"
    using Cons.IH [of "advance src 8" ids1 f1] d Cons.prems(3-) i a by simp
  then show ?case using d Cons.prems(4) i a by (auto simp: run_each_def)
qed (simp add: run_each_def)

lemma load_leads_enc:
  assumes "source_wf src" "unread src = enc_list (\<lambda>(i, l). enc_u64 i @ enc_u64 l) ls @ r" "n \<le> two64"
    and "\<forall>(i, l)\<in>set ls. i < n \<and> l < two64" "all_ok restore_lead ls f"
  shows "\<exists>src'. load_leads n (length ls) src f = (run_each restore_lead ls f, Inr src') \<and> source_wf src' \<and> unread src' = r"
  using assms
proof (induction ls arbitrary: src f)
  case (Cons p ls)
  obtain i l where p: "p = (i, l)" by (cases p)
  have "unread src = enc_u64 i @ enc_u64 l @ enc_list (\<lambda>(i, l). enc_u64 i @ enc_u64 l) ls @ r" using Cons.prems(2) p by simp
  from read_enc_u64 [OF Cons.prems(1) this] Cons.prems(3,4) p
  have d: "read_u64 src = Inr (word_of_nat i, advance src 8)" "source_wf (advance src 8)"
    "unread (advance src 8) = enc_u64 l @ enc_list (\<lambda>(i, l). enc_u64 i @ enc_u64 l) ls @ r" "unat (word_of_nat i :: u64) = i" by simp_all
  from read_enc_u64 [OF d(2,3)] Cons.prems(4) p
  have e: "read_u64 (advance src 8) = Inr (word_of_nat l, advance src 16)" "source_wf (advance src 16)"
    "unread (advance src 16) = enc_list (\<lambda>(i, l). enc_u64 i @ enc_u64 l) ls @ r" "unat (word_of_nat l :: u64) = l" by simp_all
  obtain f1 where a: "restore_lead f i l = (f1, Inr ())" using Cons.prems(5) p by (cases "restore_lead f i l") auto
  have "\<exists>src'. load_leads n (length ls) (advance src 16) f1 = (run_each restore_lead ls f1, Inr src') \<and> source_wf src' \<and> unread src' = r"
    using Cons.IH [OF e(2,3) assms(3)] Cons.prems(4,5) p a by simp
  then show ?case using d(1,4) e(1,4) Cons.prems(4) p a by (auto simp: run_each_def)
qed (simp add: run_each_def)

section \<open>Restoring positions and counters\<close>

definition restored_osc :: "nat \<Rightarrow> oscillator \<Rightarrow> oscillator" where
  "restored_osc u x = x\<lparr>o_base_units := 0, o_base_time := 0, o_units := u,
     o_time := u * unit_span x div r_num (o_unit_rate x), o_residual := u * unit_span x mod r_num (o_unit_rate x)\<rparr>"

definition clear_own :: "nat set \<Rightarrow> clock_domain \<Rightarrow> clock_domain" where
  "clear_own roots d = (if d_root d \<in> roots then d\<lparr>d_own := 0\<rparr> else d)"

lemma clear_own_empty [simp]: "clear_own {} = (\<lambda>d. d)"
  by (simp add: clear_own_def fun_eq_iff)

lemma restore_unit_position_eq:
  assumes "oi < length (f_oscs f)" "conversion_wf (osc_at f oi)" "u < two64" "u * unit_span (osc_at f oi) div r_num (o_unit_rate (osc_at f oi)) < two128"
  shows "restore_unit_position f oi u = (upd_osc oi (restored_osc u) (f\<lparr>f_domains := map (clear_own {oi}) (f_domains f)\<rparr>), Inr ())"
proof -
  let ?x = "osc_at f oi" and ?b = "(osc_at f oi)\<lparr>o_base_units := 0, o_base_time := 0, o_units := u\<rparr>"
  have c: "conversion_wf ?b" using assms(2) by (simp add: conversion_wf_def unit_span_def)
  have e: "exact_time ?b u = u * unit_span ?x div r_num (o_unit_rate ?x)" by (simp add: exact_time_def unit_span_def)
  have t: "time_for_units ?b u = Inr (u * unit_span ?x div r_num (o_unit_rate ?x))"
    using time_for_units_exact [OF c assms(3)] assms(4) e by (simp add: checked_u128_def)
  have "0 < r_num (o_unit_rate ?b)" using c by (simp add: conversion_wf_def)
  then have r: "u * o_rem ?x < two128" using carry_fits [OF c assms(3), of 0] by simp
  have m: "u * o_rem ?x mod r_num (o_unit_rate ?x) = u * unit_span ?x mod r_num (o_unit_rate ?x)"
    using span_split(1) [OF assms(2), of u] by simp
  show ?thesis using assms(1) t r m
    by (simp add: restore_unit_position_def Let_def checked_u128_def upd_osc_def restored_osc_def clear_own_def)
qed

lemma restore_units_run:
  assumes "distinct ids" "\<forall>oi\<in>set ids. oi < length (f_oscs f) \<and> conversion_wf (osc_at f oi) \<and> val oi < two64
    \<and> val oi * unit_span (osc_at f oi) div r_num (o_unit_rate (osc_at f oi)) < two128"
  shows "all_ok restore_unit_position (map (\<lambda>i. (i, val i)) ids) f
    \<and> length (f_oscs (run_each restore_unit_position (map (\<lambda>i. (i, val i)) ids) f)) = length (f_oscs f)
    \<and> (\<forall>oi. osc_at (run_each restore_unit_position (map (\<lambda>i. (i, val i)) ids) f) oi = (if oi \<in> set ids then restored_osc (val oi) (osc_at f oi) else osc_at f oi))
    \<and> f_domains (run_each restore_unit_position (map (\<lambda>i. (i, val i)) ids) f) = map (clear_own (set ids)) (f_domains f)"
  using assms
proof (induction ids arbitrary: f)
  case (Cons oi ids)
  let ?f = "upd_osc oi (restored_osc (val oi)) (f\<lparr>f_domains := map (clear_own {oi}) (f_domains f)\<rparr>)"
  have r: "restore_unit_position f oi (val oi) = (?f, Inr ())" using Cons.prems(2) by (simp add: restore_unit_position_eq)
  have x: "osc_at ?f j = (if j = oi then restored_osc (val oi) (osc_at f oi) else osc_at f j)" for j
    using Cons.prems(2) by (simp add: upd_osc_def)
  have l: "length (f_oscs ?f) = length (f_oscs f)" by simp
  have d: "clear_own (set ids) (clear_own {oi} y) = clear_own (insert oi (set ids)) y" for y
    by (simp add: clear_own_def)
  have p: "distinct ids" "\<forall>j\<in>set ids. j < length (f_oscs ?f) \<and> conversion_wf (osc_at ?f j) \<and> val j < two64
    \<and> val j * unit_span (osc_at ?f j) div r_num (o_unit_rate (osc_at ?f j)) < two128"
    using Cons.prems by (auto simp: x)
  from Cons.IH [OF p] show ?case
    using Cons.prems(1) by (auto simp: r x l d run_each_def)
qed (simp add: run_each_def)

definition restored_dom :: "nat \<Rightarrow> nat \<Rightarrow> clock_domain \<Rightarrow> clock_domain" where
  "restored_dom u n d = d\<lparr>d_base_ticks := n, d_base_unit := u - u mod d_units_per_tick d, d_own := 0\<rparr>"

lemma restore_ticks_run:
  assumes "distinct ids" "\<forall>i\<in>set ids. i < length (f_domains f)"
  shows "all_ok restore_ticks (map (\<lambda>i. (i, val i)) ids) f
    \<and> f_oscs (run_each restore_ticks (map (\<lambda>i. (i, val i)) ids) f) = f_oscs f
    \<and> length (f_domains (run_each restore_ticks (map (\<lambda>i. (i, val i)) ids) f)) = length (f_domains f)
    \<and> (\<forall>i. dom_at (run_each restore_ticks (map (\<lambda>i. (i, val i)) ids) f) i
        = (if i \<in> set ids then restored_dom (o_units (osc_at f (d_root (dom_at f i)))) (val i) (dom_at f i) else dom_at f i))"
  using assms
proof (induction ids arbitrary: f)
  case (Cons i ids)
  let ?f = "upd_dom i (restored_dom (o_units (osc_at f (d_root (dom_at f i)))) (val i)) f"
  have r: "restore_ticks f i (val i) = (?f, Inr ())"
    using Cons.prems(2) by (simp add: restore_ticks_def check_domain_def Let_def restored_dom_def upd_dom_def)
  have x: "dom_at ?f j = (if j = i then restored_dom (o_units (osc_at f (d_root (dom_at f i)))) (val i) (dom_at f i) else dom_at f j)" for j
    using Cons.prems(2) by (simp add: upd_dom_def)
  have p: "distinct ids" "\<forall>j\<in>set ids. j < length (f_domains ?f)" using Cons.prems by auto
  from Cons.IH [OF p] show ?case using Cons.prems(1) by (auto simp: r x run_each_def)
qed (simp add: run_each_def)

definition leading_dom :: "nat \<Rightarrow> clock_domain \<Rightarrow> clock_domain" where
  "leading_dom w d = d\<lparr>d_base_unit := w - w mod d_units_per_tick d, d_own := w\<rparr>"

lemma restore_leads_run:
  assumes "distinct (map fst ls)" "\<forall>(i, l)\<in>set ls. i < length (f_domains f) \<and> o_units (osc_at f (d_root (dom_at f i))) + l < two64"
  shows "all_ok restore_lead ls f
    \<and> f_oscs (run_each restore_lead ls f) = f_oscs f \<and> length (f_domains (run_each restore_lead ls f)) = length (f_domains f)
    \<and> (\<forall>i. dom_at (run_each restore_lead ls f) i
        = (case map_of ls i of Some l \<Rightarrow> leading_dom (o_units (osc_at f (d_root (dom_at f i))) + l) (dom_at f i) | None \<Rightarrow> dom_at f i))"
  using assms
proof (induction ls arbitrary: f)
  case (Cons p ls)
  obtain i l where p: "p = (i, l)" by (cases p)
  let ?f = "upd_dom i (leading_dom (o_units (osc_at f (d_root (dom_at f i))) + l)) f"
  have r: "restore_lead f i l = (?f, Inr ())"
    using Cons.prems(2) p by (simp add: restore_lead_def check_domain_def Let_def checked_u64_def leading_dom_def upd_dom_def)
  have x: "dom_at ?f j = (if j = i then leading_dom (o_units (osc_at f (d_root (dom_at f i))) + l) (dom_at f i) else dom_at f j)" for j
    using Cons.prems(2) p by (simp add: upd_dom_def)
  have n: "map_of ls i = None" using Cons.prems(1) p by (simp add: map_of_eq_None_iff)
  have "\<forall>(j, m)\<in>set ls. j < length (f_domains ?f) \<and> o_units (osc_at ?f (d_root (dom_at ?f j))) + m < two64"
    using Cons.prems p by (fastforce simp: x leading_dom_def)
  from Cons.IH [OF _ this] show ?case using Cons.prems(1) p n by (auto simp: r x run_each_def split: option.splits)
qed (simp add: run_each_def)

section \<open>The round trip\<close>

text \<open>
  The forest a snapshot is restored into has the topology of the saved one: the
  builder and the devices' re-rating requests have put it there. Only positions and
  counters may differ.
\<close>

definition same_topology :: "clock_forest \<Rightarrow> clock_forest \<Rightarrow> bool" where
  "same_topology f g \<longleftrightarrow> length (f_oscs g) = length (f_oscs f) \<and> length (f_domains g) = length (f_domains f)
     \<and> (\<forall>i<length (f_domains f). d_root (dom_at g i) = d_root (dom_at f i) \<and> d_gated (dom_at g i) = d_gated (dom_at f i)
          \<and> d_units_per_tick (dom_at g i) = d_units_per_tick (dom_at f i))
     \<and> (\<forall>oi<length (f_oscs f). o_unit_rate (osc_at g oi) = o_unit_rate (osc_at f oi))"

text \<open>No oscillator has begun a second conversion segment.\<close>

definition first_segment :: "clock_forest \<Rightarrow> bool" where
  "first_segment f \<longleftrightarrow> (\<forall>oi<length (f_oscs f). o_base_units (osc_at f oi) = 0 \<and> o_base_time (osc_at f oi) = 0)"

text \<open>What the restored forest is, domain by domain.\<close>

definition restored_to :: "clock_forest \<Rightarrow> clock_forest \<Rightarrow> clock_forest \<Rightarrow> bool" where
  "restored_to f g g' \<longleftrightarrow> length (f_oscs g') = length (f_oscs f) \<and> length (f_domains g') = length (f_domains f)
     \<and> (\<forall>oi<length (f_oscs f). osc_at g' oi = restored_osc (o_units (osc_at f oi)) (osc_at g oi))
     \<and> (\<forall>i<length (f_domains f). dom_at g' i = (dom_at g i)\<lparr>d_base_ticks := tick_count f i,
          d_base_unit := here f i - here f i mod d_units_per_tick (dom_at f i), d_own := (if lead_of f i = 0 then 0 else here f i)\<rparr>)"

lemma nonzero_leads_saved:
  "map_of (nonzero_leads (saved_leads f)) i = (if i < length (f_domains f) \<and> lead_of f i \<noteq> 0 then Some (lead_of f i) else None)"
  "distinct (map fst (nonzero_leads (saved_leads f)))"
  "(i, l) \<in> set (nonzero_leads (saved_leads f)) \<longleftrightarrow> i < length (f_domains f) \<and> l = lead_of f i \<and> l \<noteq> 0"
proof -
  let ?ls = "nonzero_leads (saved_leads f)"
  show m: "(i, l) \<in> set ?ls \<longleftrightarrow> i < length (f_domains f) \<and> l = lead_of f i \<and> l \<noteq> 0" for i l
    by (auto simp: nonzero_leads_def in_set_enumerate_eq saved_leads_def)
  show d: "distinct (map fst ?ls)"
    unfolding nonzero_leads_def by (rule distinct_map_filter) simp
  show "map_of ?ls i = (if i < length (f_domains f) \<and> lead_of f i \<noteq> 0 then Some (lead_of f i) else None)"
    using map_of_eq_Some_iff [OF d, of i] m [of i] by (cases "map_of ?ls i") auto
qed

lemma zip_map_self: "zip xs (map h xs) = map (\<lambda>x. (x, h x)) xs"
  by (induction xs) simp_all

lemma saved_units_map: "saved_units f = map (\<lambda>oi. o_units (osc_at f oi)) [0..<length (f_oscs f)]"
  by (rule nth_equalityI) (simp_all add: saved_units_def)

lemma here_lt: "forest_wf f \<Longrightarrow> i < length (f_domains f) \<Longrightarrow> here f i < two64 \<and> o_units (osc_at f (d_root (dom_at f i))) \<le> here f i"
  using units_lt [of f i] links_wfD(3) [OF forest_links, of f i] by (auto simp: here_def domain_position_def phase_ok_def)

lemma read_count:
  assumes "source_wf src" "unread src = enc_u64 c @ r" "c < two64" "c * m \<le> length r" "1 \<le> m"
  shows "\<exists>src'. read_seq_len src m = Inr (word_of_nat c, src') \<and> source_wf src' \<and> unread src' = r \<and> unat (word_of_nat c :: u64) = c"
proof -
  note d = read_enc_u64 [OF assms(1-3)]
  have "unread src = to_le_bytes (word_of_nat c :: u64) @ r" using assms(2) by (simp add: enc_u64_def)
  moreover have "unat (word_of_nat c :: u64) * max m 1 \<le> length r" using d assms(4,5) by (simp add: max_absorb1)
  ultimately have "read_seq_len src m = Inr (word_of_nat c, advance src 8)" by (rule read_seq_len_enc [OF assms(1)])
  then show ?thesis using d by blast
qed

lemma length_enc_leads: "length (enc_list (\<lambda>(i, l). enc_u64 i @ enc_u64 l) xs) = 16 * length xs"
  by (induction xs) auto

lemma load_bytes:
  assumes "source_wf src" "unread src = enc_u64s us @ enc_u64s ts @ enc_leads ls"
    and len: "length us = length (f_oscs g)" "length ts = length (f_domains g)" "length us < two64" "length ts < two64" "length ls < two64"
    and vals: "\<forall>v\<in>set us. v < two64" "\<forall>v\<in>set ts. v < two64" "\<forall>(i, l)\<in>set ls. i < length (f_domains g) \<and> l < two64"
    and units: "all_ok restore_unit_position (zip (oscillators g) us) g" "g1 = run_each restore_unit_position (zip (oscillators g) us) g"
      "length (f_domains g1) = length (f_domains g)"
    and counts: "all_ok restore_ticks (zip (domains g) ts) g1" "g2 = run_each restore_ticks (zip (domains g) ts) g1" "length (f_domains g2) = length (f_domains g)"
    and leads: "all_ok restore_lead ls g2"
  shows "\<exists>src'. load_clocks src g = (run_each restore_lead ls g2, Inr src') \<and> unread src' = []"
proof -
  have "unread src = enc_u64 (length us) @ enc_list enc_u64 us @ enc_u64s ts @ enc_leads ls" using assms(2) by (simp add: enc_u64s_def)
  from read_count [OF assms(1) this len(3), of 8] obtain s1 where s1: "read_seq_len src 8 = Inr (word_of_nat (length us), s1)" "source_wf s1"
    "unread s1 = enc_list enc_u64 us @ enc_u64s ts @ enc_leads ls" "unat (word_of_nat (length us) :: u64) = length us" by auto
  have lo: "length (oscillators g) = length us" "length (domains g) = length ts" "domains g1 = domains g"
    using len units(3) by (simp_all add: oscillators_def domains_def)
  from load_each_enc [OF s1(2,3) lo(1) vals(1) units(1)] obtain s2 where
    s2: "load_each restore_unit_position (oscillators g) s1 g = (g1, Inr s2)" "source_wf s2" "unread s2 = enc_u64s ts @ enc_leads ls" by (auto simp: units(2))
  then have "unread s2 = enc_u64 (length ts) @ enc_list enc_u64 ts @ enc_leads ls" by (simp add: enc_u64s_def)
  from read_count [OF s2(2) this len(4), of 8] obtain s3 where s3: "read_seq_len s2 8 = Inr (word_of_nat (length ts), s3)" "source_wf s3"
    "unread s3 = enc_list enc_u64 ts @ enc_leads ls" "unat (word_of_nat (length ts) :: u64) = length ts" by auto
  from load_each_enc [OF s3(2,3) lo(2) vals(2) counts(1)] obtain s4 where
    s4: "load_each restore_ticks (domains g) s3 g1 = (g2, Inr s4)" "source_wf s4" "unread s4 = enc_leads ls" by (auto simp: counts(2))
  show ?thesis
  proof (cases "ls = []")
    case True
    then have "unread s4 = []" using s4(3) by (simp add: enc_leads_def)
    then show ?thesis using s1 s2(1) s3 s4(1) lo(3) len units(3) True by (simp add: load_clocks_def remaining_unread run_each_def)
  next
    case False
    then have u: "unread s4 = enc_u64 (length ls) @ enc_list (\<lambda>(i, l). enc_u64 i @ enc_u64 l) ls" using s4(3) by (simp add: enc_leads_def)
    from read_count [OF s4(2) u len(5), of 16] obtain s5 where s5: "read_seq_len s4 16 = Inr (word_of_nat (length ls), s5)" "source_wf s5"
      "unread s5 = enc_list (\<lambda>(i, l). enc_u64 i @ enc_u64 l) ls @ []" "unat (word_of_nat (length ls) :: u64) = length ls"
      by (auto simp: length_enc_leads)
    from load_leads_enc [OF s5(2,3), of "length (f_domains g2)"] len(2,4) vals(3) leads counts(3)
    obtain s6 where s6: "load_leads (length (f_domains g2)) (length ls) s5 g2 = (run_each restore_lead ls g2, Inr s6)" "unread s6 = []" by auto
    have "0 < remaining s4" using u by (simp add: remaining_unread)
    then show ?thesis using s1 s2(1) s3 s4(1) s5(1,4) s6 lo(3) len units(3) by (simp add: load_clocks_def)
  qed
qed

lemma topologyD:
  assumes "same_topology f g"
  shows "length (f_oscs g) = length (f_oscs f)" "length (f_domains g) = length (f_domains f)"
    "i < length (f_domains f) \<Longrightarrow> d_root (dom_at g i) = d_root (dom_at f i)"
    "i < length (f_domains f) \<Longrightarrow> d_gated (dom_at g i) = d_gated (dom_at f i)"
    "i < length (f_domains f) \<Longrightarrow> d_units_per_tick (dom_at g i) = d_units_per_tick (dom_at f i)"
    "oi < length (f_oscs f) \<Longrightarrow> o_unit_rate (osc_at g oi) = o_unit_rate (osc_at f oi)"
  using assms by (auto simp: same_topology_def)

lemma saved_time:
  assumes "forest_wf f" "forest_wf g" "same_topology f g" "first_segment f" "oi < length (f_oscs f)"
  shows "conversion_wf (osc_at g oi)" "o_units (osc_at f oi) < two64"
    "o_units (osc_at f oi) * unit_span (osc_at g oi) div r_num (o_unit_rate (osc_at g oi)) = o_time (osc_at f oi)" "o_time (osc_at f oi) < two128"
proof -
  have tf: "timeline_wf (osc_at f oi)" "timeline_wf (osc_at g oi)"
    using osc_okD(1) [OF links_wfD(4) [OF forest_links]] assms(1,2,5) topologyD(1) [OF assms(3)] by simp_all
  then show "conversion_wf (osc_at g oi)" "o_units (osc_at f oi) < two64" "o_time (osc_at f oi) < two128" by (simp_all add: timeline_wf_def)
  show "o_units (osc_at f oi) * unit_span (osc_at g oi) div r_num (o_unit_rate (osc_at g oi)) = o_time (osc_at f oi)"
    using tf(1) assms(4,5) topologyD(6) [OF assms(3,5)] by (simp add: timeline_wf_def exact_time_def unit_span_def first_segment_def)
qed

definition units_loaded :: "clock_forest \<Rightarrow> clock_forest \<Rightarrow> clock_forest" where
  "units_loaded f g = run_each restore_unit_position (zip (oscillators g) (saved_units f)) g"

definition counts_loaded :: "clock_forest \<Rightarrow> clock_forest \<Rightarrow> clock_forest" where
  "counts_loaded f g = run_each restore_ticks (zip (domains g) (saved_ticks f)) (units_loaded f g)"

lemma units_phase:
  assumes f: "forest_wf f" and g: "forest_wf g" and t: "same_topology f g" and s: "first_segment f"
  shows "all_ok restore_unit_position (zip (oscillators g) (saved_units f)) g" "length (f_oscs (units_loaded f g)) = length (f_oscs f)"
    "length (f_domains (units_loaded f g)) = length (f_domains f)"
    "oi < length (f_oscs f) \<Longrightarrow> osc_at (units_loaded f g) oi = restored_osc (o_units (osc_at f oi)) (osc_at g oi)"
    "i < length (f_domains f) \<Longrightarrow> dom_at (units_loaded f g) i = (dom_at g i)\<lparr>d_own := 0\<rparr>"
proof -
  note top = topologyD [OF t]
  have z: "zip (oscillators g) (saved_units f) = map (\<lambda>oi. (oi, o_units (osc_at f oi))) (oscillators g)"
    by (simp add: saved_units_map oscillators_def top(1) zip_map_self)
  have "\<forall>oi\<in>set (oscillators g). oi < length (f_oscs g) \<and> conversion_wf (osc_at g oi) \<and> o_units (osc_at f oi) < two64
      \<and> o_units (osc_at f oi) * unit_span (osc_at g oi) div r_num (o_unit_rate (osc_at g oi)) < two128"
    using saved_time [OF f g t s] top(1) by (simp add: oscillators_def)
  from restore_units_run [OF _ this] have u: "all_ok restore_unit_position (zip (oscillators g) (saved_units f)) g"
    "length (f_oscs (units_loaded f g)) = length (f_oscs g)"
    "osc_at (units_loaded f g) oi = (if oi < length (f_oscs f) then restored_osc (o_units (osc_at f oi)) (osc_at g oi) else osc_at g oi)"
    "f_domains (units_loaded f g) = map (clear_own {..<length (f_oscs g)}) (f_domains g)" for oi
    unfolding units_loaded_def z by (simp_all add: oscillators_def top(1) lessThan_atLeast0)
  show "all_ok restore_unit_position (zip (oscillators g) (saved_units f)) g" "length (f_oscs (units_loaded f g)) = length (f_oscs f)"
    "length (f_domains (units_loaded f g)) = length (f_domains f)"
    "oi < length (f_oscs f) \<Longrightarrow> osc_at (units_loaded f g) oi = restored_osc (o_units (osc_at f oi)) (osc_at g oi)"
    using u top(1,2) by simp_all
  show "dom_at (units_loaded f g) i = (dom_at g i)\<lparr>d_own := 0\<rparr>" if "i < length (f_domains f)"
    using link_okD(1) [OF links_wfD(2) [OF forest_links [OF g]], of i] that top(2) by (simp add: u(4) clear_own_def)
qed

lemma counts_phase:
  assumes f: "forest_wf f" and g: "forest_wf g" and t: "same_topology f g" and s: "first_segment f"
  shows "all_ok restore_ticks (zip (domains g) (saved_ticks f)) (units_loaded f g)" "f_oscs (counts_loaded f g) = f_oscs (units_loaded f g)"
    "length (f_domains (counts_loaded f g)) = length (f_domains f)"
    "i < length (f_domains f) \<Longrightarrow> dom_at (counts_loaded f g) i = restored_dom (o_units (osc_at f (d_root (dom_at f i)))) (tick_count f i) (dom_at g i)"
    "i < length (f_domains f) \<Longrightarrow> o_units (osc_at (units_loaded f g) (d_root (dom_at (counts_loaded f g) i))) = o_units (osc_at f (d_root (dom_at f i)))"
proof -
  note top = topologyD [OF t] and u = units_phase [OF assms]
  have z: "zip (domains g) (saved_ticks f) = map (\<lambda>i. (i, tick_count f i)) (domains g)"
    by (simp add: saved_ticks_def domains_def top(2) zip_map_self)
  have ou: "o_units (osc_at (units_loaded f g) (d_root (dom_at f i))) = o_units (osc_at f (d_root (dom_at f i)))" if "i < length (f_domains f)" for i
    using u(4) [OF link_okD(1) [OF links_wfD(2) [OF forest_links [OF f] that]]] by (simp add: restored_osc_def)
  have "distinct (domains g)" "\<forall>i\<in>set (domains g). i < length (f_domains (units_loaded f g))" using u(3) top(2) by (simp_all add: domains_def)
  from restore_ticks_run [OF this, of "tick_count f"]
  have c: "all_ok restore_ticks (zip (domains g) (saved_ticks f)) (units_loaded f g)" "f_oscs (counts_loaded f g) = f_oscs (units_loaded f g)"
    "length (f_domains (counts_loaded f g)) = length (f_domains f)"
    "i < length (f_domains f) \<Longrightarrow> dom_at (counts_loaded f g) i
       = restored_dom (o_units (osc_at (units_loaded f g) (d_root (dom_at (units_loaded f g) i)))) (tick_count f i) (dom_at (units_loaded f g) i)" for i
    unfolding counts_loaded_def z by (simp_all add: domains_def top(2) u(3))
  show "all_ok restore_ticks (zip (domains g) (saved_ticks f)) (units_loaded f g)" "f_oscs (counts_loaded f g) = f_oscs (units_loaded f g)"
    "length (f_domains (counts_loaded f g)) = length (f_domains f)" by (rule c)+
  show d: "dom_at (counts_loaded f g) i = restored_dom (o_units (osc_at f (d_root (dom_at f i)))) (tick_count f i) (dom_at g i)" if "i < length (f_domains f)"
    using c(4) [OF that] u(5) [OF that] top(3) [OF that] ou [OF that] by (simp add: restored_dom_def)
  show "o_units (osc_at (units_loaded f g) (d_root (dom_at (counts_loaded f g) i))) = o_units (osc_at f (d_root (dom_at f i)))" if "i < length (f_domains f)"
    using d [OF that] ou [OF that] top(3) [OF that] by (simp add: restored_dom_def)
qed

lemma leads_phase:
  assumes f: "forest_wf f" and g: "forest_wf g" and t: "same_topology f g" and s: "first_segment f"
  shows "all_ok restore_lead (nonzero_leads (saved_leads f)) (counts_loaded f g)"
    "restored_to f g (run_each restore_lead (nonzero_leads (saved_leads f)) (counts_loaded f g))"
proof -
  let ?ls = "nonzero_leads (saved_leads f)" and ?g = "counts_loaded f g"
  note top = topologyD [OF t] and u = units_phase [OF assms] and c = counts_phase [OF assms]
  have w: "o_units (osc_at f (d_root (dom_at f i))) + lead_of f i = here f i" "here f i < two64" if "i < length (f_domains f)" for i
    using here_lt [OF f that] by (simp_all add: lead_of_def)
  have "\<forall>(i, l)\<in>set ?ls. i < length (f_domains ?g) \<and> o_units (osc_at ?g (d_root (dom_at ?g i))) + l < two64"
    using w c(2,3,5) by (auto simp: nonzero_leads_saved(3))
  note L = restore_leads_run [OF nonzero_leads_saved(2) this]
  show "all_ok restore_lead ?ls ?g" using L by blast
  have "dom_at (run_each restore_lead ?ls ?g) i = (dom_at g i)\<lparr>d_base_ticks := tick_count f i,
      d_base_unit := here f i - here f i mod d_units_per_tick (dom_at f i), d_own := (if lead_of f i = 0 then 0 else here f i)\<rparr>"
    if i: "i < length (f_domains f)" for i
  proof (cases "lead_of f i = 0")
    case True
    then have "dom_at (run_each restore_lead ?ls ?g) i = dom_at ?g i" using L by (simp add: nonzero_leads_saved(1))
    then show ?thesis using c(4) [OF i] w(1) [OF i] True top(5) [OF i] by (simp add: restored_dom_def)
  next
    case False
    then have "dom_at (run_each restore_lead ?ls ?g) i = leading_dom (here f i) (dom_at ?g i)"
      using L i c(2,5) w(1) [OF i] by (simp add: nonzero_leads_saved(1))
    then show ?thesis using c(4) [OF i] False top(5) [OF i] by (simp add: restored_dom_def leading_dom_def)
  qed
  then show "restored_to f g (run_each restore_lead ?ls ?g)" using L c(2,3) u(2,4) by (simp add: restored_to_def)
qed

lemma load_saved:
  assumes f: "forest_wf f" and g: "forest_wf g" and t: "same_topology f g" and s: "first_segment f"
    and n: "length (f_oscs f) \<le> 2 ^ 32" "length (f_domains f) \<le> 2 ^ 32" and b: "save_clocks f [] = Inr bytes"
  shows "\<exists>g' src. load_clocks (slice_new bytes) g = (g', Inr src) \<and> remaining src = 0 \<and> restored_to f g g'"
proof -
  let ?ls = "nonzero_leads (saved_leads f)"
  note top = topologyD [OF t] and u = units_phase [OF f g t s] and c = counts_phase [OF f g t s] and l = leads_phase [OF f g t s]
  have bytes: "bytes = enc_u64s (saved_units f) @ enc_u64s (saved_ticks f) @ enc_leads ?ls" using b save_clocks_eq [of f "[]"] by simp
  have lsl: "length ?ls \<le> length (f_domains f)" by (simp add: nonzero_leads_def saved_leads_def le_trans [OF length_filter_le])
  have lens: "length (saved_units f) = length (f_oscs f)" "length (saved_ticks f) = length (f_domains f)" by (simp_all add: saved_units_def saved_ticks_def)
  have "length bytes \<le> usize_max" using n lsl by (auto simp: bytes enc_u64s_def enc_leads_def lens length_enc_leads usize_max_def)
  then have src: "source_wf (slice_new bytes)" "unread (slice_new bytes) = enc_u64s (saved_units f) @ enc_u64s (saved_ticks f) @ enc_leads ?ls"
    by (simp_all add: slice_new_def source_wf_def unread_def bytes)
  have vals: "\<forall>v\<in>set (saved_units f). v < two64" "\<forall>v\<in>set (saved_ticks f). v < two64" "\<forall>(i, l)\<in>set ?ls. i < length (f_domains g) \<and> l < two64"
  proof -
    show "\<forall>v\<in>set (saved_units f). v < two64" using saved_time(2) [OF f g t s] by (auto simp: saved_units_map)
    show "\<forall>v\<in>set (saved_ticks f). v < two64"
      using links_wfD(3) [OF forest_links [OF f]] ticks_at_lt by (auto simp: saved_ticks_def tick_count_def phase_ok_def)
    show "\<forall>(i, l)\<in>set ?ls. i < length (f_domains g) \<and> l < two64"
      using here_lt [OF f] top(2) by (auto simp: nonzero_leads_saved(3) lead_of_def less_imp_diff_less)
  qed
  have bnd: "length (saved_units f) < two64" "length (saved_ticks f) < two64" "length ?ls < two64" using n lsl lens by simp_all
  have "length (saved_units f) = length (f_oscs g)" "length (saved_ticks f) = length (f_domains g)"
    "length (f_domains (units_loaded f g)) = length (f_domains g)" "length (f_domains (counts_loaded f g)) = length (f_domains g)"
    using lens top(1,2) u(3) c(3) by simp_all
  from load_bytes [OF src this(1,2) bnd vals u(1) units_loaded_def this(3) c(1) counts_loaded_def this(4) l(1)] l(2)
  show ?thesis by (auto simp: remaining_unread)
qed

section \<open>What the restored forest reads\<close>

lemma restored_toD:
  assumes "restored_to f g g'"
  shows "length (f_oscs g') = length (f_oscs f)" "length (f_domains g') = length (f_domains f)"
    "oi < length (f_oscs f) \<Longrightarrow> osc_at g' oi = restored_osc (o_units (osc_at f oi)) (osc_at g oi)"
    "i < length (f_domains f) \<Longrightarrow> dom_at g' i = (dom_at g i)\<lparr>d_base_ticks := tick_count f i,
       d_base_unit := here f i - here f i mod d_units_per_tick (dom_at f i), d_own := (if lead_of f i = 0 then 0 else here f i)\<rparr>"
  using assms by (simp_all add: restored_to_def)

lemma restored_reads:
  assumes "forest_wf f" "same_topology f g" "restored_to f g g'" "i < length (f_domains f)"
  shows "o_units (osc_at g' (d_root (dom_at g' i))) = o_units (osc_at f (d_root (dom_at f i)))" "here g' i = here f i"
    "tick_count g' i = tick_count f i" "lead_of g' i = lead_of f i"
proof -
  note d = restored_toD(4) [OF assms(3,4)] and x = restored_toD(3) [OF assms(3)]
  note l = forest_links [OF assms(1)]
  have r: "d_root (dom_at g' i) = d_root (dom_at f i)" using d topologyD(3) [OF assms(2,4)] by simp
  show u: "o_units (osc_at g' (d_root (dom_at g' i))) = o_units (osc_at f (d_root (dom_at f i)))"
    using x [OF link_okD(1) [OF links_wfD(2) [OF l assms(4)]]] r by (simp add: restored_osc_def)
  have w: "here f i < two64" "o_units (osc_at f (d_root (dom_at f i))) \<le> here f i" using here_lt [OF assms(1,4)] by simp_all
  show h: "here g' i = here f i"
  proof (cases "lead_of f i = 0")
    case True
    then have "here f i = o_units (osc_at f (d_root (dom_at f i)))" using w(2) by (simp add: lead_of_def)
    then show ?thesis using d True u by (simp add: here_def domain_position_def)
  next
    case False
    then have "d_own (dom_at g' i) = here f i" using d by simp
    then have "here g' i = max (o_units (osc_at f (d_root (dom_at f i)))) (here f i)" using u by (simp add: here_def domain_position_def)
    then show ?thesis using w(2) by simp
  qed
  then show "lead_of g' i = lead_of f i" using u by (simp add: lead_of_def)
  have k: "0 < d_units_per_tick (dom_at f i)" by (rule wf_domain(5) [OF assms(1,4)])
  have t: "tick_count f i < two64" using links_wfD(3) [OF l assms(4)] ticks_at_lt by (simp add: tick_count_def phase_ok_def)
  have b: "here f i - here f i mod d_units_per_tick (dom_at f i) \<le> here f i" by simp
  have "wrapping_sub64 (here f i) (here f i - here f i mod d_units_per_tick (dom_at f i)) = here f i mod d_units_per_tick (dom_at f i)"
    using wrapping_sub64_eq [OF b w(1)] by simp
  then show "tick_count g' i = tick_count f i"
    using h d topologyD(4,5) [OF assms(2,4)] k t by (simp add: tick_count_def [of g'] ticks_at_def wrapping_add64_def)
qed

lemma div_diff_mult: "0 < k \<Longrightarrow> k * q \<le> p \<Longrightarrow> (p - k * q) div k = p div k - (q :: nat)"
proof -
  assume k: "0 < k" and "k * q \<le> p"
  then obtain r where "p = k * q + r" using le_Suc_ex by blast
  then show ?thesis using k by simp
qed

lemma aligned_div:
  assumes "0 < k" "k dvd b" "b \<le> w" "w \<le> (p :: nat)"
  shows "(p - b) div k = (w - b) div k + (p - (w - w mod k)) div k"
proof -
  obtain q where b: "b = k * q" using assms(2) by (auto elim: dvdE)
  have w: "w - w mod k = k * (w div k)" by (simp add: minus_mod_eq_mult_div)
  have "k * (w div k) \<le> p" by (rule le_trans [OF times_div_less_eq_dividend assms(4)])
  then have "(p - (w - w mod k)) div k = p div k - w div k" using assms(1) by (simp add: w div_diff_mult)
  moreover have "(p - b) div k = p div k - q" "(w - b) div k = w div k - q" using assms b by (simp_all add: div_diff_mult)
  moreover have "q \<le> w div k" using assms b by (simp add: less_eq_div_iff_mult_less_eq mult.commute)
  moreover have "w div k \<le> p div k" by (rule div_le_mono [OF assms(4)])
  ultimately show ?thesis by simp
qed

text \<open>A counter whose anchor lies on a tick of its domain keeps its phase through a restore.\<close>

lemma restored_line:
  assumes "forest_wf f" "same_topology f g" "restored_to f g g'" "i < length (f_domains f)"
    and "d_units_per_tick (dom_at f i) dvd d_base_unit (dom_at f i)" "u < two64"
  shows "ticks_at_units g' i u = ticks_at_units f i u"
proof -
  let ?k = "d_units_per_tick (dom_at f i)" and ?b = "d_base_unit (dom_at f i)" and ?w = "here f i"
  let ?p = "max u ?w"
  note d = restored_toD(4) [OF assms(3,4)] and r = restored_reads [OF assms(1-4)] and D = wf_domain [OF assms(1,4)]
  have w: "?w < two64" "?b \<le> ?w" using here_lt [OF assms(1,4)] D(3) by (simp_all add: phase_ok_def)
  have pos: "domain_position (dom_at h i) (max u (o_units (osc_at h (d_root (dom_at h i))))) = max u (here h i)" for h
    by (simp add: domain_position_def here_def max.assoc)
  have eq: "ticks_at_units h i u = Inr (ticks_at (dom_at h i) (max u (here h i)))" if "i < length (f_domains h)" for h
    using that pos [of h] by (simp add: ticks_at_units_def domain_def nth_opt_def Let_def)
  have i': "i < length (f_domains g')" using assms(4) restored_toD(2) [OF assms(3)] by simp
  have "ticks_at (dom_at g' i) ?p = ticks_at (dom_at f i) ?p"
  proof (cases "d_gated (dom_at f i)")
    case True
    then show ?thesis using d topologyD(4) [OF assms(2,4)] by (simp add: ticks_at_def tick_count_def)
  next
    case False
    have p: "?p < two64" "?w - ?w mod ?k \<le> ?p" using w assms(6) by auto
    have t: "tick_count f i = (d_base_ticks (dom_at f i) + (?w - ?b) div ?k) mod two64"
      using False wrapping_sub64_eq [OF w(2,1)] by (simp add: tick_count_def ticks_at_def wrapping_add64_def)
    have "wrapping_sub64 ?p ?b = ?p - ?b" using w p(1) by (intro wrapping_sub64_eq) auto
    moreover have "wrapping_sub64 ?p (?w - ?w mod ?k) = ?p - (?w - ?w mod ?k)" using p by (intro wrapping_sub64_eq)
    moreover have "(?p - ?b) div ?k = (?w - ?b) div ?k + (?p - (?w - ?w mod ?k)) div ?k"
      by (rule aligned_div [OF D(5) assms(5) w(2)]) simp
    ultimately show ?thesis
      using False d topologyD(4,5) [OF assms(2,4)] t by (simp add: ticks_at_def wrapping_add64_def mod_add_left_eq add.assoc)
  qed
  then show ?thesis using eq [OF assms(4)] eq [OF i'] r(2) by simp
qed


text \<open>The NES tree freshly built, restored from one that has run.\<close>

definition fresh_script :: "clock_op list" where
  "fresh_script = [AddOscillator ''master'' nes_master, AddDomain ''cpu'' 0 1 12, AddDomain ''ppu'' 0 1 4]"

definition fresh_forest :: clock_forest where
  "fresh_forest = clock_run fresh_script forest_new"

lemma fresh_reachable: "clock_reachable fresh_forest"
  unfolding fresh_forest_def
  by (rule run_reachable [OF clock_reachable.start]) (simp add: fresh_script_def nes_master_wf [unfolded nes_master_def] clock_eval nes_master_def)

lemma fresh_forest_eq:
  "fresh_forest =
    \<lparr>f_domains =
      [\<lparr>d_name = ''master'', d_parent = None, d_mul = 1, d_div = 1, d_children = [1, 2], d_root = 0,
        d_ratio = \<lparr>r_num = 1, r_den = 1\<rparr>, d_units_per_tick = 1, d_base_unit = 0, d_base_ticks = 0, d_gated = False, d_own = 0\<rparr>,
       \<lparr>d_name = ''cpu'', d_parent = Some 0, d_mul = 1, d_div = 12, d_children = [], d_root = 0,
        d_ratio = \<lparr>r_num = 1, r_den = 12\<rparr>, d_units_per_tick = 12, d_base_unit = 0, d_base_ticks = 0, d_gated = False, d_own = 0\<rparr>,
       \<lparr>d_name = ''ppu'', d_parent = Some 0, d_mul = 1, d_div = 4, d_children = [], d_root = 0,
        d_ratio = \<lparr>r_num = 1, r_den = 4\<rparr>, d_units_per_tick = 4, d_base_unit = 0, d_base_ticks = 0, d_gated = False, d_own = 0\<rparr>],
     f_oscs =
      [\<lparr>o_name = ''master'', o_freq = nes_master, o_root = 0, o_unit_mul = 1, o_unit_rate = nes_master, o_units = 0,
        o_base_units = 0, o_base_time = 0, o_step = 858896020363, o_rem = 46317776, o_time = 0,
        o_residual = 0, o_active = True\<rparr>]\<rparr>"
  by (simp add: fresh_forest_def fresh_script_def clock_run_def clock_eval nes_master_def)

lemma fresh_topology: "same_topology nes_forest fresh_forest" "first_segment nes_forest"
  by (simp_all add: same_topology_def first_segment_def nes_forest_eq fresh_forest_eq All_less_Suc)


end
