(* ===== verification/Sched_Queue.thy ===== *)
theory Sched_Queue
  imports Clock_Time "HOL-Library.Multiset" "HOL-Library.Product_Lexorder"
begin

text \<open>
  The scheduler's event queue (\<open>EventQueue\<close> of \<open>core/sched.rs\<close>): a timing wheel of four
  levels with 256 slots each, a heap of events beyond its span and a heap of events
  that have come due. An instant and a granule index are \<open>u128\<close> numbers, \<open>>>\<close> is a
  division by a power of two. A binary heap of reversed events is read only through
  its least element, so it is a list in ascending order; a bucket is a list in
  insertion order.
\<close>

section \<open>Events\<close>

record event =
  e_time :: gtime
  e_id :: nat
  e_target :: nat
  e_token :: nat

text \<open>\<open>Ord for Event\<close>: by time, ties by sequence number.\<close>

definition event_key :: "event \<Rightarrow> nat \<times> nat" where
  "event_key e = (e_time e, e_id e)"

datatype sched_error =
    Clock clock_error
  | UnknownRunnable nat
  | UnknownLazyDevice nat
  | BudgetExceeded nat nat nat
  | NonMonotonicDevice nat nat nat
  | LazyDeviceBusy nat
  | NoHostClock
  | InvalidSnapshot string

section \<open>The queue\<close>

definition WHEEL_LEVELS :: nat where "WHEEL_LEVELS = 4"
definition WHEEL_SLOT_BITS :: nat where "WHEEL_SLOT_BITS = 8"
definition WHEEL_SLOTS :: nat where "WHEEL_SLOTS = 2 ^ WHEEL_SLOT_BITS"
definition DEFAULT_GRANULE_SHIFT :: nat where "DEFAULT_GRANULE_SHIFT = 32"

datatype place = Due | Near nat nat | Far

record event_queue =
  q_now :: gtime
  q_now_granule :: nat
  q_granule_shift :: nat
  q_near :: "event list list"
  q_level_len :: "nat list"
  q_far :: "event list"
  q_due :: "event list"
  q_cancelled :: "nat set"
  q_next_seq :: nat

definition queue_new :: "nat \<Rightarrow> event_queue" where
  "queue_new granule_shift =
     \<lparr>q_now = 0, q_now_granule = 0, q_granule_shift = min granule_shift 96,
      q_near = replicate (WHEEL_LEVELS * WHEEL_SLOTS) [], q_level_len = replicate WHEEL_LEVELS 0,
      q_far = [], q_due = [], q_cancelled = {}, q_next_seq = 0\<rparr>"

definition queue_default :: event_queue where
  "queue_default = queue_new DEFAULT_GRANULE_SHIFT"

definition heap_push :: "event \<Rightarrow> event list \<Rightarrow> event list" where
  "heap_push e h = insort_key event_key e h"

text \<open>The index of a granule's block at a level of the wheel, \<open>granule >> (WHEEL_SLOT_BITS * level)\<close>.\<close>

definition block_index :: "nat \<Rightarrow> nat \<Rightarrow> nat" where
  "block_index level granule = granule div 2 ^ (WHEEL_SLOT_BITS * level)"

fun place_level :: "nat \<Rightarrow> nat \<Rightarrow> nat list \<Rightarrow> place" where
  "place_level now_granule granule [] = Far"
| "place_level now_granule granule (level # levels) =
     (let delta = block_index level granule - block_index level now_granule in
      if delta = 0 then Due
      else if delta < WHEEL_SLOTS then Near level (block_index level granule mod WHEEL_SLOTS)
      else place_level now_granule granule levels)"

definition placement :: "event_queue \<Rightarrow> gtime \<Rightarrow> place" where
  "placement q time =
     (if time \<le> q_now q then Due
      else place_level (q_now_granule q) (time div 2 ^ q_granule_shift q) [0..<WHEEL_LEVELS])"

definition push_due :: "event \<Rightarrow> event_queue \<Rightarrow> event_queue" where
  "push_due e q = q\<lparr>q_due := heap_push e (q_due q)\<rparr>"

definition push_near :: "nat \<Rightarrow> nat \<Rightarrow> event \<Rightarrow> event_queue \<Rightarrow> event_queue" where
  "push_near level slot e q =
     (let i = level * WHEEL_SLOTS + slot in
      q\<lparr>q_near := (q_near q)[i := q_near q ! i @ [e]], q_level_len := (q_level_len q)[level := q_level_len q ! level + 1]\<rparr>)"

definition push_entry :: "event \<Rightarrow> event_queue \<Rightarrow> event_queue" where
  "push_entry e q =
     (case placement q (e_time e) of
        Due \<Rightarrow> push_due e q
      | Near level slot \<Rightarrow> push_near level slot e q
      | Far \<Rightarrow> q\<lparr>q_far := heap_push e (q_far q)\<rparr>)"

section \<open>Operations\<close>

text \<open>The sequence counter is a \<open>u64\<close>.\<close>

definition queue_schedule :: "gtime \<Rightarrow> nat \<Rightarrow> nat \<Rightarrow> event_queue \<Rightarrow> event_queue \<times> nat" where
  "queue_schedule time target token q =
     (let i = q_next_seq q in
      (push_entry \<lparr>e_time = time, e_id = i, e_target = target, e_token = token\<rparr>
         (q\<lparr>q_next_seq := (q_next_seq q + 1) mod two64\<rparr>), i))"

definition queue_cancel :: "nat \<Rightarrow> event_queue \<Rightarrow> event_queue" where
  "queue_cancel i q = q\<lparr>q_cancelled := insert i (q_cancelled q)\<rparr>"

fun purge_loop :: "nat set \<Rightarrow> event list \<Rightarrow> nat set \<times> event list" where
  "purge_loop cancelled [] = (cancelled, [])"
| "purge_loop cancelled (e # due) =
     (if e_id e \<notin> cancelled then (cancelled, e # due) else purge_loop (cancelled - {e_id e}) due)"

definition purge_cancelled_due :: "event_queue \<Rightarrow> event_queue" where
  "purge_cancelled_due q = (let (c, due) = purge_loop (q_cancelled q) (q_due q) in q\<lparr>q_cancelled := c, q_due := due\<rparr>)"

fun first_some :: "('a \<Rightarrow> 'b option) \<Rightarrow> 'a list \<Rightarrow> 'b option" where
  "first_some g [] = None"
| "first_some g (x # xs) = (case g x of Some y \<Rightarrow> Some y | None \<Rightarrow> first_some g xs)"

definition earliest :: "nat set \<Rightarrow> event list \<Rightarrow> gtime option" where
  "earliest cancelled bucket =
     (let ts = map e_time (filter (\<lambda>e. e_id e \<notin> cancelled) bucket) in if ts = [] then None else Some (Min (set ts)))"

definition level_deadline :: "event_queue \<Rightarrow> nat \<Rightarrow> gtime option" where
  "level_deadline q level =
     (if q_level_len q ! level = 0 then None
      else first_some
        (\<lambda>step. earliest (q_cancelled q)
           (q_near q ! (level * WHEEL_SLOTS + (block_index level (q_now_granule q) + step) mod WHEEL_SLOTS)))
        [1..<WHEEL_SLOTS])"

definition next_deadline :: "event_queue \<Rightarrow> event_queue \<times> gtime option" where
  "next_deadline q =
     (let q = purge_cancelled_due q in
      (q, case q_due q of
            e # _ \<Rightarrow> Some (e_time e)
          | [] \<Rightarrow>
              (case first_some (level_deadline q) [0..<WHEEL_LEVELS] of
                 Some t \<Rightarrow> Some t
               | None \<Rightarrow> (case q_far q of e # _ \<Rightarrow> Some (e_time e) | [] \<Rightarrow> None))))"

text \<open>Emptying one slot of the wheel, each entry handed on.\<close>

definition drain_slot :: "(event \<Rightarrow> event_queue \<Rightarrow> event_queue) \<Rightarrow> nat \<Rightarrow> nat \<Rightarrow> event_queue \<Rightarrow> event_queue" where
  "drain_slot put level slot q =
     (let i = level * WHEEL_SLOTS + slot; drained = q_near q ! i in
      fold put drained
        (q\<lparr>q_level_len := (q_level_len q)[level := q_level_len q ! level - length drained], q_near := (q_near q)[i := []]\<rparr>))"

definition sweep :: "(event \<Rightarrow> event_queue \<Rightarrow> event_queue) \<Rightarrow> nat \<Rightarrow> nat \<Rightarrow> nat \<Rightarrow> event_queue \<Rightarrow> event_queue" where
  "sweep put level old_index new_index q =
     (let steps = min (new_index - old_index) WHEEL_SLOTS in
      fold (\<lambda>step. drain_slot put level ((old_index + step) mod WHEEL_SLOTS)) [1..<Suc steps] q)"

definition cascade :: "nat \<Rightarrow> nat \<Rightarrow> nat \<Rightarrow> event_queue \<Rightarrow> event_queue" where
  "cascade old_granule new_granule level q =
     (let old_index = block_index level old_granule; new_index = block_index level new_granule in
      if old_index = new_index then q else sweep push_entry level old_index new_index q)"

fun pull_far :: "event list \<Rightarrow> event_queue \<Rightarrow> event_queue" where
  "pull_far [] q = q"
| "pull_far (e # rest) q =
     (if placement q (e_time e) = Far then q else pull_far rest (push_entry e (q\<lparr>q_far := rest\<rparr>)))"

definition advance_to :: "gtime \<Rightarrow> event_queue \<Rightarrow> event_queue" where
  "advance_to to q =
     (if to \<le> q_now q then q
      else
        let old_granule = q_now_granule q;
            new_granule = to div 2 ^ q_granule_shift q;
            q = q\<lparr>q_now := to\<rparr>
        in if new_granule = old_granule then q
           else
             let q = q\<lparr>q_now_granule := new_granule\<rparr>;
                 q = sweep push_due 0 old_granule new_granule q;
                 q = fold (cascade old_granule new_granule) [1..<WHEEL_LEVELS] q
             in pull_far (q_far q) q)"

fun pop_loop :: "gtime \<Rightarrow> nat set \<Rightarrow> event list \<Rightarrow> nat set \<times> event list \<times> event option" where
  "pop_loop now cancelled [] = (cancelled, [], None)"
| "pop_loop now cancelled (e # due) =
     (if e_time e \<le> now then
        if e_id e \<in> cancelled then pop_loop now (cancelled - {e_id e}) due
        else (cancelled, due, Some e)
      else (cancelled, e # due, None))"

definition pop_due :: "gtime \<Rightarrow> event_queue \<Rightarrow> event_queue \<times> event option" where
  "pop_due now q =
     (let q = advance_to now q; (c, due, r) = pop_loop now (q_cancelled q) (q_due q)
      in (q\<lparr>q_cancelled := c, q_due := due\<rparr>, r))"

definition queue_events :: "event_queue \<Rightarrow> event list" where
  "queue_events q =
     (let live = filter (\<lambda>e. e_id e \<notin> q_cancelled q)
      in sort_key event_key (live (q_due q) @ live (concat (q_near q)) @ live (q_far q)))"

fun check_events :: "nat \<Rightarrow> nat set \<Rightarrow> event list \<Rightarrow> sched_error + unit" where
  "check_events next_seq seen [] = Inr ()"
| "check_events next_seq seen (e # es) =
     (if next_seq \<le> e_id e
      then Inl (InvalidSnapshot ''an event's sequence number is not below the next sequence number'')
      else if e_id e \<in> seen then Inl (InvalidSnapshot ''two events share a sequence number'')
      else check_events next_seq (insert (e_id e) seen) es)"

definition queue_restore :: "gtime \<Rightarrow> nat \<Rightarrow> event list \<Rightarrow> event_queue \<Rightarrow> event_queue \<times> (sched_error + unit)" where
  "queue_restore now next_seq events q =
     (case check_events next_seq {} events of
        Inl e \<Rightarrow> (q, Inl e)
      | Inr _ \<Rightarrow>
          (fold push_entry events
             (q\<lparr>q_near := map (\<lambda>_. []) (q_near q), q_level_len := replicate WHEEL_LEVELS 0, q_far := [], q_due := [],
                q_cancelled := {}, q_now := now, q_now_granule := now div 2 ^ q_granule_shift q, q_next_seq := next_seq\<rparr>),
           Inr ()))"

definition queue_len :: "event_queue \<Rightarrow> nat" where
  "queue_len q = sum_list (q_level_len q) + length (q_far q) + length (q_due q)"

definition queue_is_empty :: "event_queue \<Rightarrow> bool" where
  "queue_is_empty q \<longleftrightarrow> queue_len q = 0"

end
