(* ===== verification/Sched_Wheel.thy ===== *)
theory Sched_Wheel
  imports Sched_Queue
begin

text \<open>
  The invariant of the timing wheel and why advancing keeps it: an entry of a level
  lies 1 to 255 blocks of that level ahead of the position the level was last swept
  at, so a sweep of the blocks passed hands on exactly the entries that are no
  longer ahead.
\<close>

section \<open>Placement\<close>

lemma wheel_consts [simp]: "WHEEL_LEVELS = 4" "WHEEL_SLOTS = 256"
  by (simp_all add: WHEEL_LEVELS_def WHEEL_SLOTS_def WHEEL_SLOT_BITS_def)

lemma block_index_0 [simp]: "block_index 0 g = g"
  by (simp add: block_index_def)

lemma block_index_add: "block_index (l + k) g = block_index l g div 2 ^ (8 * k)"
  by (simp add: block_index_def WHEEL_SLOT_BITS_def power_add div_mult2_eq distrib_left)

lemma block_index_Suc: "block_index (Suc l) g = block_index l g div 256"
  using block_index_add [of l 1] by simp

lemma block_index_mono: "g \<le> g' \<Longrightarrow> block_index l g \<le> block_index l g'"
  by (simp add: block_index_def div_le_mono)

lemma block_index_le_up:
  assumes "block_index l g \<le> block_index l g'" "l \<le> k"
  shows "block_index k g \<le> block_index k g'"
proof -
  obtain m where "k = l + m" using assms(2) le_Suc_ex by blast
  then show ?thesis using assms(1) by (simp add: block_index_add div_le_mono)
qed

lemma block_ahead: "block_index l n + 256 \<le> block_index l g \<Longrightarrow> block_index (Suc l) n < block_index (Suc l) g"
  unfolding block_index_Suc using div_le_mono [of "block_index l n + 256" "block_index l g" 256] by simp

lemma block_far_down: "block_index (Suc l) n + 256 \<le> block_index (Suc l) g \<Longrightarrow> block_index l n + 256 \<le> block_index l g"
  unfolding block_index_Suc by linarith

text \<open>An entry is within the reach of a level's slot as seen from a granule.\<close>

definition in_slot :: "nat \<Rightarrow> nat \<Rightarrow> nat \<Rightarrow> nat \<Rightarrow> event \<Rightarrow> bool" where
  "in_slot sh n l s e \<longleftrightarrow>
     (let b = block_index l (e_time e div 2 ^ sh) in block_index l n < b \<and> b < block_index l n + 256 \<and> s = b mod 256)"

definition reach :: "nat \<Rightarrow> nat \<Rightarrow> nat \<Rightarrow> bool" where
  "reach n g l \<longleftrightarrow> block_index l n < block_index l g \<and> block_index l g < block_index l n + 256"

lemma place_ahead:
  assumes "block_index k n < block_index k g" "k \<le> 3"
  shows "place_level n g [k..<4] = Far \<and> block_index 3 n + 256 \<le> block_index 3 g
    \<or> (\<exists>l. k \<le> l \<and> l < 4 \<and> reach n g l \<and> place_level n g [k..<4] = Near l (block_index l g mod 256))"
  using assms(2,1)
proof (induction k rule: inc_induct)
  case base
  then show ?case by (auto simp: upt_rec reach_def Let_def)
next
  case (step k)
  have u: "[k..<4] = k # [Suc k..<4]" using step.hyps by (simp add: upt_conv_Cons)
  show ?case
  proof (cases "block_index k g < block_index k n + 256")
    case True
    then have "reach n g k" "place_level n g [k..<4] = Near k (block_index k g mod 256)" using step.prems by (auto simp: reach_def u Let_def)
    then show ?thesis using step.hyps by auto
  next
    case False
    then have "place_level n g [k..<4] = place_level n g [Suc k..<4]" by (auto simp: u Let_def)
    then show ?thesis using step.IH block_ahead [of k n g] False by (auto dest: Suc_leD)
  qed
qed

lemma reach_near:
  assumes "reach n g l" "l \<le> 3"
  shows "block_index 3 g < block_index 3 n + 256"
proof -
  have "block_index (l + k) g < block_index (l + k) n + 256" for k
  proof (induction k)
    case (Suc k)
    then show ?case using block_far_down [of "l + k" n g] by force
  qed (use assms(1) in \<open>simp add: reach_def\<close>)
  from this [of "3 - l"] show ?thesis using assms(2) by simp
qed

lemma place_level_cases:
  "place_level n g [0..<4] = Due \<longleftrightarrow> g \<le> n"
  "place_level n g [0..<4] = Far \<longleftrightarrow> block_index 3 n + 256 \<le> block_index 3 g"
  "place_level n g [0..<4] = Near l s \<Longrightarrow> l < 4 \<and> s = block_index l g mod 256 \<and> reach n g l"
proof -
  let ?p = "place_level n g [0..<4]"
  have le: "?p = Due \<and> \<not> block_index 3 n + 256 \<le> block_index 3 g" if "g \<le> n"
    using that block_index_mono [OF that, of 3] by (simp add: upt_conv_Cons)
  have gt: "?p = Far \<and> block_index 3 n + 256 \<le> block_index 3 g \<or> (\<exists>l<4. reach n g l \<and> ?p = Near l (block_index l g mod 256))" if "n < g"
    using place_ahead [of 0 n g] that by auto
  have nr: "\<not> block_index 3 n + 256 \<le> block_index 3 g" if "reach n g l" "l < 4" for l
    using reach_near [OF that(1)] that(2) by simp
  show "?p = Due \<longleftrightarrow> g \<le> n" "?p = Far \<longleftrightarrow> block_index 3 n + 256 \<le> block_index 3 g"
    using le gt nr by (cases "g \<le> n"; fastforce)+
  show "l < 4 \<and> s = block_index l g mod 256 \<and> reach n g l" if "?p = Near l s"
    using le gt that by (cases "g \<le> n") fastforce+
qed

section \<open>The invariant\<close>

definition bucket :: "event_queue \<Rightarrow> nat \<Rightarrow> nat \<Rightarrow> event list" where
  "bucket q l s = q_near q ! (l * 256 + s)"

definition entries :: "event_queue \<Rightarrow> event multiset" where
  "entries q = mset (q_due q) + mset (concat (q_near q)) + mset (q_far q)"

text \<open>\<open>ref l\<close> is the granule level \<open>l\<close> was last swept at.\<close>

definition wheel_ok :: "(nat \<Rightarrow> nat) \<Rightarrow> event_queue \<Rightarrow> bool" where
  "wheel_ok ref q \<longleftrightarrow> length (q_near q) = 1024 \<and> length (q_level_len q) = 4
     \<and> (\<forall>l<4. \<forall>s<256. \<forall>e\<in>set (bucket q l s). in_slot (q_granule_shift q) (ref l) l s e)
     \<and> (\<forall>l<4. q_level_len q ! l = (\<Sum>s<256. length (bucket q l s)))
     \<and> q_now_granule q = q_now q div 2 ^ q_granule_shift q
     \<and> (\<forall>e\<in>set (q_due q). e_time e div 2 ^ q_granule_shift q \<le> q_now_granule q)
     \<and> sorted (map event_key (q_due q)) \<and> sorted (map event_key (q_far q))"

lemma wheel_okD:
  assumes "wheel_ok ref q"
  shows "length (q_near q) = 1024" "length (q_level_len q) = 4"
    "l < 4 \<Longrightarrow> s < 256 \<Longrightarrow> e \<in> set (bucket q l s) \<Longrightarrow> in_slot (q_granule_shift q) (ref l) l s e"
    "l < 4 \<Longrightarrow> q_level_len q ! l = (\<Sum>s<256. length (bucket q l s))"
    "q_now_granule q = q_now q div 2 ^ q_granule_shift q"
    "e \<in> set (q_due q) \<Longrightarrow> e_time e div 2 ^ q_granule_shift q \<le> q_now_granule q"
    "sorted (map event_key (q_due q))" "sorted (map event_key (q_far q))"
  using assms unfolding wheel_ok_def by blast+

text \<open>What a step that only fills levels below \<open>l\<close> leaves alone.\<close>

definition frame :: "nat \<Rightarrow> event_queue \<Rightarrow> event_queue \<Rightarrow> bool" where
  "frame l q q' \<longleftrightarrow> q_now q' = q_now q \<and> q_now_granule q' = q_now_granule q \<and> q_granule_shift q' = q_granule_shift q
     \<and> q_far q' = q_far q \<and> q_cancelled q' = q_cancelled q \<and> q_next_seq q' = q_next_seq q
     \<and> (\<forall>k<4. \<forall>s<256. l \<le> k \<longrightarrow> bucket q' k s = bucket q k s)"

lemma frame_refl [simp]: "frame l q q"
  by (simp add: frame_def)

lemma frame_trans: "frame l q q' \<Longrightarrow> frame l q' q'' \<Longrightarrow> frame l q q''"
  by (simp add: frame_def)

lemma frame_mono: "frame l q q' \<Longrightarrow> l \<le> k \<Longrightarrow> frame k q q'"
  by (auto simp: frame_def)

lemma slot_index_inj: "s < 256 \<Longrightarrow> s' < 256 \<Longrightarrow> l * 256 + s = l' * 256 + s' \<longleftrightarrow> l = l' \<and> s = (s' :: nat)"
  by (metis add_right_cancel div_mult_self3 div_less mod_mult_self3 mod_less add_0 zero_neq_numeral)

lemma slot_index_lt: "l < 4 \<Longrightarrow> s < 256 \<Longrightarrow> l * 256 + s < (1024 :: nat)"
  by simp

lemma mod_window:
  assumes "x mod 256 = y mod (256 :: nat)" "old < x" "x < old + 256" "old < y" "y < old + 256"
  shows "x = y"
proof (rule ccontr)
  assume "x \<noteq> y"
  have "int x mod 256 = int y mod 256" using assms(1) by (metis of_nat_mod of_nat_numeral)
  then obtain k where "int x - int y = 256 * k" by (auto simp: mod_eq_dvd_iff)
  then show False using \<open>x \<noteq> y\<close> assms(2-) by presburger
qed

lemma concat_update: "i < length xs \<Longrightarrow> mset (concat (xs[i := ys])) + mset (xs ! i) = mset (concat xs) + mset ys"
proof (induction xs arbitrary: i)
  case (Cons x xs)
  then show ?case by (cases i) (auto simp: ac_simps)
qed simp

lemma heap_push [simp]:
  "mset (heap_push e h) = add_mset e (mset h)" "set (heap_push e h) = insert e (set h)"
  "sorted (map event_key (heap_push e h)) = sorted (map event_key h)" "length (heap_push e h) = Suc (length h)"
  by (simp_all add: heap_push_def set_insort_key sorted_insort_key mset_insort)

section \<open>Adding an entry\<close>

lemma push_due_ok:
  assumes "wheel_ok ref q" "e_time e div 2 ^ q_granule_shift q \<le> q_now_granule q"
  shows "wheel_ok ref (push_due e q)" "frame l q (push_due e q)" "entries (push_due e q) = add_mset e (entries q)"
  using assms by (auto simp: wheel_ok_def push_due_def frame_def entries_def bucket_def)

lemma bucket_push_near:
  assumes "length (q_near q) = 1024" "l < 4" "s < 256" "l' < 4" "s' < 256"
  shows "bucket (push_near l s e q) l' s' = (if l' = l \<and> s' = s then bucket q l s @ [e] else bucket q l' s')"
proof -
  have "l * 256 + s < length (q_near q)" "l' * 256 + s' = l * 256 + s \<longleftrightarrow> l' = l \<and> s' = s"
    using assms slot_index_lt [of l s] slot_index_inj by simp_all
  then show ?thesis by (auto simp: bucket_def push_near_def Let_def nth_list_update)
qed

lemma sum_update:
  assumes "s < (256 :: nat)" "\<And>t. t < 256 \<Longrightarrow> g t = (if t = s then c else h t)"
  shows "(\<Sum>t<256. g t) + h s = (\<Sum>t<256. h t) + (c :: nat)"
proof -
  have "(\<Sum>t<256. g t) = (\<Sum>t\<in>{..<256} - {s}. g t) + g s" "(\<Sum>t<256. h t) = (\<Sum>t\<in>{..<256} - {s}. h t) + h s"
    using assms(1) by (simp_all add: sum.remove [of "{..<256}" s])
  moreover have "(\<Sum>t\<in>{..<256} - {s}. g t) = (\<Sum>t\<in>{..<256} - {s}. h t)" using assms(2) by (intro sum.cong) auto
  ultimately show ?thesis using assms by simp
qed

lemma push_near_ok:
  assumes "wheel_ok ref q" "l < 4" "s < 256" "in_slot (q_granule_shift q) (ref l) l s e" "l < k"
  shows "wheel_ok ref (push_near l s e q)" "frame k q (push_near l s e q)" "entries (push_near l s e q) = add_mset e (entries q)"
proof -
  note w = wheel_okD [OF assms(1)]
  let ?q = "push_near l s e q"
  have i: "l * 256 + s < length (q_near q)" using w(1) slot_index_lt [OF assms(2,3)] by simp
  note b = bucket_push_near [OF w(1) assms(2,3)]
  have f: "q_now ?q = q_now q" "q_now_granule ?q = q_now_granule q" "q_granule_shift ?q = q_granule_shift q" "q_due ?q = q_due q"
      "q_far ?q = q_far q" "q_cancelled ?q = q_cancelled q" "q_next_seq ?q = q_next_seq q" "length (q_near ?q) = length (q_near q)"
      "q_level_len ?q = (q_level_len q)[l := q_level_len q ! l + 1]"
    by (simp_all add: push_near_def Let_def)
  have len: "q_level_len ?q ! l' = (\<Sum>s<256. length (bucket ?q l' s))" if "l' < 4" for l'
  proof (cases "l' = l")
    case True
    have "(\<Sum>t<256. length (bucket ?q l t)) + length (bucket q l s) = (\<Sum>t<256. length (bucket q l t)) + (length (bucket q l s) + 1)"
      by (rule sum_update [OF assms(3)]) (simp add: b assms(2))
    then show ?thesis using w(2,4) assms(2) True by (simp add: f(9))
  next
    case False
    then show ?thesis using w(2,4) that b by (simp add: f(9))
  qed
  show "frame k q ?q" using assms(5) b by (auto simp: frame_def f(1-7))
  have "entries ?q + mset (bucket q l s) = entries q + mset (bucket q l s) + {#e#}"
    using concat_update [OF i, of "q_near q ! (l * 256 + s) @ [e]"]
    by (simp add: entries_def push_near_def Let_def bucket_def ac_simps)
  then show "entries ?q = add_mset e (entries q)" by (simp add: add.commute)
  show "wheel_ok ref ?q"
    unfolding wheel_ok_def using w assms(4) len by (auto simp: f b)
qed

text \<open>Placing an entry that is not ahead of level \<open>l\<close>'s current block only fills levels below \<open>l\<close>.\<close>

lemma push_entry_ok:
  assumes "wheel_ok ref q" "\<forall>k<l. ref k = q_now_granule q" "l \<le> 4"
    and "l < 4 \<longrightarrow> block_index l (e_time e div 2 ^ q_granule_shift q) \<le> block_index l (q_now_granule q)"
    and "l = 4 \<longrightarrow> placement q (e_time e) \<noteq> Far"
  shows "wheel_ok ref (push_entry e q)" "frame l q (push_entry e q)" "entries (push_entry e q) = add_mset e (entries q)"
proof -
  let ?g = "e_time e div 2 ^ q_granule_shift q"
  note w = wheel_okD [OF assms(1)]
  have "(wheel_ok ref (push_entry e q) \<and> frame l q (push_entry e q) \<and> entries (push_entry e q) = add_mset e (entries q))"
  proof (cases "placement q (e_time e)")
    case Due
    then have "?g \<le> q_now_granule q"
      using w(5) place_level_cases(1) by (auto simp: placement_def div_le_mono split: if_splits)
    then show ?thesis using push_due_ok [OF assms(1)] Due by (simp add: push_entry_def)
  next
    case (Near k s)
    then have "place_level (q_now_granule q) ?g [0..<4] = Near k s" by (auto simp: placement_def split: if_splits)
    note p = place_level_cases(3) [OF this]
    have "k < l"
    proof (rule ccontr)
      assume "\<not> k < l"
      then have "block_index k ?g \<le> block_index k (q_now_granule q)" using block_index_le_up [of l ?g "q_now_granule q" k] assms(3,4) p by simp
      then show False using p by (simp add: reach_def)
    qed
    then have "in_slot (q_granule_shift q) (ref k) k s e" using p assms(2) by (simp add: in_slot_def reach_def)
    then show ?thesis using push_near_ok [OF assms(1), of k s e l] p \<open>k < l\<close> Near by (simp add: push_entry_def)
  next
    case Far
    then have "block_index 3 (q_now_granule q) + 256 \<le> block_index 3 ?g"
      using place_level_cases(2) by (auto simp: placement_def split: if_splits)
    then have "\<not> l < 4" using block_index_le_up [of l ?g "q_now_granule q" 3] assms(4) by auto
    then show ?thesis using assms(3,5) Far by simp
  qed
  then show "wheel_ok ref (push_entry e q)" "frame l q (push_entry e q)" "entries (push_entry e q) = add_mset e (entries q)" by auto
qed

section \<open>Sweeping a level\<close>

text \<open>Handing an entry on without touching the levels from \<open>l\<close> upwards.\<close>

definition hands_on :: "(event \<Rightarrow> event_queue \<Rightarrow> event_queue) \<Rightarrow> (nat \<Rightarrow> nat) \<Rightarrow> nat \<Rightarrow> event_queue \<Rightarrow> event \<Rightarrow> bool" where
  "hands_on put ref l q0 e \<longleftrightarrow> (\<forall>q. wheel_ok ref q \<longrightarrow> frame 4 q0 q \<longrightarrow>
     wheel_ok ref (put e q) \<and> frame l q (put e q) \<and> entries (put e q) = add_mset e (entries q))"

lemma fold_put:
  assumes "\<forall>e\<in>set es. hands_on put ref l q0 e" "wheel_ok ref q" "frame 4 q0 q" "l \<le> 4"
  shows "wheel_ok ref (fold put es q) \<and> frame l q (fold put es q) \<and> entries (fold put es q) = entries q + mset es"
  using assms(1-3)
proof (induction es arbitrary: q)
  case (Cons e es)
  then have p: "wheel_ok ref (put e q)" "frame l q (put e q)" "entries (put e q) = add_mset e (entries q)"
    by (simp_all add: hands_on_def)
  then have "frame 4 q0 (put e q)" using frame_mono [OF p(2) assms(4)] frame_trans Cons.prems(3) by blast
  with Cons.IH [OF _ p(1)] Cons.prems(1) p(2,3) show ?case by (auto intro: frame_trans)
qed simp

definition clear_slot :: "nat \<Rightarrow> nat \<Rightarrow> event_queue \<Rightarrow> event_queue" where
  "clear_slot l s q = q\<lparr>q_level_len := (q_level_len q)[l := q_level_len q ! l - length (bucket q l s)], q_near := (q_near q)[l * 256 + s := []]\<rparr>"

lemma clear_slot_ok:
  assumes "wheel_ok ref q" "l < 4" "s < 256"
  shows "wheel_ok ref (clear_slot l s q)" "frame (Suc l) q (clear_slot l s q)" "entries (clear_slot l s q) + mset (bucket q l s) = entries q"
    "l' < 4 \<Longrightarrow> s' < 256 \<Longrightarrow> bucket (clear_slot l s q) l' s' = (if l' = l \<and> s' = s then [] else bucket q l' s')"
proof -
  note w = wheel_okD [OF assms(1)]
  let ?q = "clear_slot l s q"
  have i: "l * 256 + s < length (q_near q)" using w(1) slot_index_lt [OF assms(2,3)] by simp
  show b: "bucket ?q l' s' = (if l' = l \<and> s' = s then [] else bucket q l' s')" if "l' < 4" "s' < 256" for l' s'
    using slot_index_inj [OF assms(3) that(2), of l l'] i by (auto simp: bucket_def clear_slot_def nth_list_update)
  have len: "q_level_len ?q ! l' = (\<Sum>s<256. length (bucket ?q l' s))" if "l' < 4" for l'
  proof (cases "l' = l")
    case True
    have "(\<Sum>t<256. length (bucket ?q l t)) + length (bucket q l s) = (\<Sum>t<256. length (bucket q l t)) + 0"
      by (rule sum_update [OF assms(3)]) (simp add: b assms(2))
    then show ?thesis using w(2,4) assms(2) True by (simp add: clear_slot_def)
  next
    case False
    then show ?thesis using w(2,4) that b by (simp add: clear_slot_def)
  qed
  show "frame (Suc l) q ?q" using b by (auto simp: frame_def clear_slot_def)
  show "entries ?q + mset (bucket q l s) = entries q"
    using concat_update [OF i, of "[]"] by (simp add: entries_def clear_slot_def bucket_def ac_simps)
  have f: "q_now ?q = q_now q" "q_now_granule ?q = q_now_granule q" "q_granule_shift ?q = q_granule_shift q" "q_due ?q = q_due q"
      "q_far ?q = q_far q" "length (q_near ?q) = length (q_near q)" "length (q_level_len ?q) = length (q_level_len q)"
    by (simp_all add: clear_slot_def)
  show "wheel_ok ref ?q" unfolding wheel_ok_def using w len by (auto simp: f b)
qed

lemma drain_slots:
  assumes "\<forall>s\<in>set ss. s < 256 \<and> (\<forall>e\<in>set (bucket q l s). hands_on put ref l q0 e)" "wheel_ok ref q" "frame 4 q0 q" "l < 4"
  shows "wheel_ok ref (fold (drain_slot put l) ss q) \<and> frame (Suc l) q (fold (drain_slot put l) ss q)
    \<and> entries (fold (drain_slot put l) ss q) = entries q
    \<and> (\<forall>s<256. bucket (fold (drain_slot put l) ss q) l s = (if s \<in> set ss then [] else bucket q l s))"
  using assms(1-3)
proof (induction ss arbitrary: q)
  case (Cons s ss)
  let ?c = "clear_slot l s q" and ?d = "drain_slot put l s q"
  have s: "s < 256" "\<forall>e\<in>set (bucket q l s). hands_on put ref l q0 e" using Cons.prems(1) by simp_all
  note c = clear_slot_ok [OF Cons.prems(2) assms(4) s(1)]
  have d: "?d = fold put (bucket q l s) ?c" by (simp add: drain_slot_def clear_slot_def bucket_def Let_def)
  have "frame 4 q0 ?c" using frame_trans [OF Cons.prems(3) frame_mono [OF c(2)]] assms(4) by simp
  with fold_put [OF s(2) c(1)] assms(4)
  have p: "wheel_ok ref ?d" "frame l ?c ?d" "entries ?d = entries ?c + mset (bucket q l s)" by (simp_all add: d)
  have fr: "frame (Suc l) q ?d" using frame_trans [OF c(2) frame_mono [OF p(2)]] by simp
  have e: "entries ?d = entries q" using p(3) c(3) by simp
  have b: "bucket ?d l t = (if t = s then [] else bucket q l t)" if "t < 256" for t
    using p(2) c(4) [OF assms(4) that] that assms(4) by (simp add: frame_def)
  have "frame 4 q0 ?d" using frame_trans [OF Cons.prems(3) frame_mono [OF fr]] assms(4) by simp
  moreover have "\<forall>t\<in>set ss. t < 256 \<and> (\<forall>e\<in>set (bucket ?d l t). hands_on put ref l q0 e)" using Cons.prems(1) b by auto
  ultimately have "wheel_ok ref (fold (drain_slot put l) ss ?d) \<and> frame (Suc l) ?d (fold (drain_slot put l) ss ?d)
    \<and> entries (fold (drain_slot put l) ss ?d) = entries ?d
    \<and> (\<forall>s<256. bucket (fold (drain_slot put l) ss ?d) l s = (if s \<in> set ss then [] else bucket ?d l s))"
    using Cons.IH p(1) by blast
  then show ?case using frame_trans [OF fr] e b by auto
qed simp

lemma wheel_ok_ref:
  assumes "wheel_ok ref q" "\<forall>l<4. \<forall>s<256. \<forall>e\<in>set (bucket q l s). in_slot (q_granule_shift q) (ref' l) l s e"
  shows "wheel_ok ref' q"
  using assms unfolding wheel_ok_def by blast

text \<open>
  The sweep of one level from \<open>old\<close> to \<open>new\<close>: the entries it drains are those whose
  block has been reached, and what stays is ahead of the new position.
\<close>

lemma sweep_ok:
  assumes "wheel_ok ref q" "l < 4" "block_index l (ref l) \<le> block_index l new" "q_now_granule q = new"
    and "\<forall>e. block_index l (e_time e div 2 ^ q_granule_shift q) \<le> block_index l new \<longrightarrow> hands_on put ref l q e"
  shows "wheel_ok (ref(l := new)) (sweep put l (block_index l (ref l)) (block_index l new) q)"
    "frame (Suc l) q (sweep put l (block_index l (ref l)) (block_index l new) q)"
    "entries (sweep put l (block_index l (ref l)) (block_index l new) q) = entries q"
proof -
  define old where "old = block_index l (ref l)"
  define steps where "steps = min (block_index l new - old) 256"
  define ss where "ss = map (\<lambda>step. (old + step) mod 256) [1..<Suc steps]"
  let ?q = "sweep put l old (block_index l new) q"
  have sw: "?q = fold (drain_slot put l) ss q" by (simp add: sweep_def ss_def steps_def fold_map comp_def Let_def)
  have blk: "old < block_index l (e_time e div 2 ^ q_granule_shift q) \<and> block_index l (e_time e div 2 ^ q_granule_shift q) < old + 256
      \<and> s = block_index l (e_time e div 2 ^ q_granule_shift q) mod 256" if "s < 256" "e \<in> set (bucket q l s)" for s e
    using wheel_okD(3) [OF assms(1,2) that] by (simp add: in_slot_def old_def Let_def)
  have reached: "block_index l (e_time e div 2 ^ q_granule_shift q) \<le> block_index l new" if s: "s \<in> set ss" "e \<in> set (bucket q l s)" for s e
  proof -
    obtain step where st: "s = (old + step) mod 256" "1 \<le> step" "step \<le> steps" using s(1) by (auto simp: ss_def)
    have "s < 256" using st(1) by simp
    then have b: "old < block_index l (e_time e div 2 ^ q_granule_shift q)" "block_index l (e_time e div 2 ^ q_granule_shift q) < old + 256"
      "block_index l (e_time e div 2 ^ q_granule_shift q) mod 256 = (old + step) mod 256" using blk [OF _ s(2)] st(1) by auto
    show ?thesis
    proof (cases "steps < 256")
      case True
      have "block_index l (e_time e div 2 ^ q_granule_shift q) = old + step"
        by (rule mod_window [OF b(3,1,2)]) (use st True in simp_all)
      then show ?thesis using st(2,3) by (auto simp: steps_def)
    next
      case False
      then have "old + 256 \<le> block_index l new" by (simp add: steps_def)
      then show ?thesis using b by simp
    qed
  qed
  have good: "\<forall>s\<in>set ss. s < 256 \<and> (\<forall>e\<in>set (bucket q l s). hands_on put ref l q e)"
    using reached assms(5) by (auto simp: ss_def)
  note d = drain_slots [OF good assms(1) frame_refl assms(2)]
  show "frame (Suc l) q (sweep put l (block_index l (ref l)) (block_index l new) q)" "entries (sweep put l (block_index l (ref l)) (block_index l new) q) = entries q"
    using d sw by (simp_all add: old_def)
  have w: "wheel_ok ref ?q" using d sw by simp
  have sh: "q_granule_shift ?q = q_granule_shift q" using d sw by (simp add: frame_def)
  have "in_slot (q_granule_shift ?q) new l s e" if "s < 256" "e \<in> set (bucket ?q l s)" for s e
  proof -
    have n: "s \<notin> set ss" "e \<in> set (bucket q l s)" using d that sw by (auto split: if_splits)
    note b = blk [OF that(1) n(2)]
    have "\<not> block_index l (e_time e div 2 ^ q_granule_shift q) \<le> block_index l new"
    proof
      assume a: "block_index l (e_time e div 2 ^ q_granule_shift q) \<le> block_index l new"
      let ?step = "block_index l (e_time e div 2 ^ q_granule_shift q) - old"
      have "?step \<in> set [1..<Suc steps]" "s = (old + ?step) mod 256" using a b by (auto simp: steps_def)
      then have "s \<in> set ss" unfolding ss_def set_map by blast
      then show False using n(1) by blast
    qed
    moreover have "old \<le> block_index l new" using assms(3) by (simp add: old_def)
    ultimately show ?thesis using b by (auto simp: in_slot_def sh Let_def)
  qed
  then have "wheel_ok (ref(l := new)) ?q" using w wheel_okD(3) [OF w] by (intro wheel_ok_ref [OF w]) auto
  then show "wheel_ok (ref(l := new)) (sweep put l (block_index l (ref l)) (block_index l new) q)" by (simp add: old_def)
qed

end
