(* ===== verification/Sched_Fire.thy ===== *)
theory Sched_Fire
  imports Sched_Wheel
begin

text \<open>
  What the event queue promises. Its contents are a multiset of live events; the
  wheel, the two heaps and the tombstones are an implementation in which advancing
  loses nothing and every pop returns the least live event that is due.
\<close>

section \<open>The invariant of the queue\<close>

definition far_ok :: "event_queue \<Rightarrow> bool" where
  "far_ok q \<longleftrightarrow> (\<forall>e\<in>set (q_far q). block_index 3 (q_now_granule q) + 256 \<le> block_index 3 (e_time e div 2 ^ q_granule_shift q))"

definition ids_ok :: "event_queue \<Rightarrow> bool" where
  "ids_ok q \<longleftrightarrow> (\<forall>i. count (image_mset e_id (entries q)) i \<le> 1) \<and> (\<forall>e\<in>#entries q. e_id e < q_next_seq q)
     \<and> (\<forall>i\<in>q_cancelled q. i < q_next_seq q)"

definition queue_wf :: "event_queue \<Rightarrow> bool" where
  "queue_wf q \<longleftrightarrow> wheel_ok (\<lambda>_. q_now_granule q) q \<and> far_ok q \<and> ids_ok q"

definition live :: "event_queue \<Rightarrow> event multiset" where
  "live q = filter_mset (\<lambda>e. e_id e \<notin> q_cancelled q) (entries q)"

section \<open>Advancing\<close>

lemma push_due_hands_on:
  assumes "e_time e div 2 ^ q_granule_shift q0 \<le> q_now_granule q0"
  shows "hands_on push_due ref l q0 e"
  using push_due_ok assms by (auto simp: hands_on_def frame_def)

lemma push_entry_hands_on:
  assumes "\<forall>k<l. ref k = q_now_granule q0" "l < 4"
    and "block_index l (e_time e div 2 ^ q_granule_shift q0) \<le> block_index l (q_now_granule q0)"
  shows "hands_on push_entry ref l q0 e"
  unfolding hands_on_def
proof (intro allI impI)
  fix q assume q: "wheel_ok ref q" "frame 4 q0 q"
  have "q_now_granule q = q_now_granule q0" "q_granule_shift q = q_granule_shift q0" using q(2) by (simp_all add: frame_def)
  then show "wheel_ok ref (push_entry e q) \<and> frame l q (push_entry e q) \<and> entries (push_entry e q) = add_mset e (entries q)"
    using push_entry_ok [OF q(1), of l e] assms by simp
qed

text \<open>After the levels below \<open>j\<close> have been swept.\<close>

definition swept :: "nat \<Rightarrow> nat \<Rightarrow> nat \<Rightarrow> nat \<Rightarrow> nat" where
  "swept old new j = (\<lambda>l. if l < j then new else old)"

lemma swept_Suc: "(swept old new j)(j := new) = swept old new (Suc j)"
  by (auto simp: swept_def fun_eq_iff less_Suc_eq)

lemma cascade_ok:
  assumes "wheel_ok (swept old new j) q" "j < 4" "old \<le> new" "q_now_granule q = new"
  shows "wheel_ok (swept old new (Suc j)) (cascade old new j q) \<and> frame 4 q (cascade old new j q) \<and> entries (cascade old new j q) = entries q"
proof (cases "block_index j old = block_index j new")
  case True
  have "in_slot (q_granule_shift q) (swept old new (Suc j) l) l s e" if "l < 4" "s < 256" "e \<in> set (bucket q l s)" for l s e
    using wheel_okD(3) [OF assms(1) that] True by (cases "l = j") (auto simp: swept_def in_slot_def less_Suc_eq)
  then have "wheel_ok (swept old new (Suc j)) q" using wheel_ok_ref [OF assms(1)] by blast
  then show ?thesis using True by (simp add: cascade_def)
next
  case False
  have r: "swept old new j j = old" "\<forall>k<j. swept old new j k = q_now_granule q" using assms(4) by (simp_all add: swept_def)
  have "\<forall>e. block_index j (e_time e div 2 ^ q_granule_shift q) \<le> block_index j new \<longrightarrow> hands_on push_entry (swept old new j) j q e"
    using push_entry_hands_on [OF r(2) assms(2)] assms(4) by simp
  note s = sweep_ok [OF assms(1,2) _ assms(4) this, unfolded r(1) swept_Suc]
  show ?thesis using s block_index_mono [OF assms(3)] frame_mono [of "Suc j" _ _ 4] assms(2) False
    by (simp add: cascade_def Let_def)
qed

lemma cascades_ok:
  assumes "wheel_ok (swept old new j) q" "j + n \<le> 4" "old \<le> new" "q_now_granule q = new"
  shows "wheel_ok (swept old new (j + n)) (fold (cascade old new) [j..<j + n] q) \<and> frame 4 q (fold (cascade old new) [j..<j + n] q)
    \<and> entries (fold (cascade old new) [j..<j + n] q) = entries q"
  using assms(2)
proof (induction n)
  case (Suc n)
  let ?q = "fold (cascade old new) [j..<j + n] q"
  have i: "wheel_ok (swept old new (j + n)) ?q" "frame 4 q ?q" "entries ?q = entries q" using Suc by simp_all
  then have "q_now_granule ?q = new" using assms(4) by (simp add: frame_def)
  with cascade_ok [OF i(1) _ assms(3)] Suc.prems i(2,3) show ?case by (auto intro: frame_trans)
qed (use assms in simp)

lemma far_placement:
  assumes "wheel_ok ref q" "placement q t = Far" "t \<le> t'"
  shows "block_index 3 (q_now_granule q) + 256 \<le> block_index 3 (t' div 2 ^ q_granule_shift q)"
proof -
  have "block_index 3 (q_now_granule q) + 256 \<le> block_index 3 (t div 2 ^ q_granule_shift q)"
    using assms(2) place_level_cases(2) by (auto simp: placement_def split: if_splits)
  also have "\<dots> \<le> block_index 3 (t' div 2 ^ q_granule_shift q)" using assms(3) by (intro block_index_mono div_le_mono)
  finally show ?thesis .
qed

lemma pull_far_ok:
  assumes "wheel_ok ref q" "\<forall>k<4. ref k = q_now_granule q" "q_far q = far"
  shows "wheel_ok ref (pull_far far q) \<and> far_ok (pull_far far q) \<and> entries (pull_far far q) = entries q
    \<and> q_now (pull_far far q) = q_now q \<and> q_now_granule (pull_far far q) = q_now_granule q \<and> q_granule_shift (pull_far far q) = q_granule_shift q
    \<and> q_cancelled (pull_far far q) = q_cancelled q \<and> q_next_seq (pull_far far q) = q_next_seq q"
  using assms
proof (induction far arbitrary: q)
  case (Cons e rest)
  show ?case
  proof (cases "placement q (e_time e) = Far")
    case True
    have "e_time e \<le> e_time e'" if "e' \<in> set rest" for e'
      using wheel_okD(8) [OF Cons.prems(1)] Cons.prems(3) that by (auto simp: event_key_def less_eq_prod_def)
    then have "far_ok q" using far_placement [OF Cons.prems(1) True] Cons.prems(3) by (auto simp: far_ok_def)
    then show ?thesis using Cons.prems True by simp
  next
    case False
    let ?q = "q\<lparr>q_far := rest\<rparr>"
    have w: "wheel_ok ref ?q" using Cons.prems(1,3) unfolding wheel_ok_def bucket_def by auto
    have "placement ?q (e_time e) = placement q (e_time e)" by (simp add: placement_def)
    then have p: "wheel_ok ref (push_entry e ?q)" "frame 4 ?q (push_entry e ?q)" "entries (push_entry e ?q) = add_mset e (entries ?q)"
      using push_entry_ok [OF w, of 4 e] Cons.prems(2) False by simp_all
    have "entries q = add_mset e (entries ?q)" using Cons.prems(3) by (simp add: entries_def)
    then show ?thesis using Cons.IH [OF p(1)] p(2,3) Cons.prems(2) False by (simp add: frame_def)
  qed
qed (auto simp: far_ok_def)

lemma advance_to_ok:
  assumes "queue_wf q"
  shows "wheel_ok (\<lambda>_. q_now_granule (advance_to t q)) (advance_to t q) \<and> far_ok (advance_to t q) \<and> entries (advance_to t q) = entries q
    \<and> q_now (advance_to t q) = max t (q_now q) \<and> q_granule_shift (advance_to t q) = q_granule_shift q
    \<and> q_cancelled (advance_to t q) = q_cancelled q \<and> q_next_seq (advance_to t q) = q_next_seq q"
proof (cases "t \<le> q_now q")
  case True
  then show ?thesis using assms by (simp add: advance_to_def queue_wf_def max_def)
next
  case False
  let ?old = "q_now_granule q" and ?new = "t div 2 ^ q_granule_shift q"
  let ?q0 = "q\<lparr>q_now := t, q_now_granule := ?new\<rparr>"
  have w: "wheel_ok (\<lambda>_. ?old) q" "far_ok q" using assms by (simp_all add: queue_wf_def)
  have le: "?old \<le> ?new" using wheel_okD(5) [OF w(1)] False by (simp add: div_le_mono)
  have w0: "wheel_ok (\<lambda>_. ?old) ?q0" using w(1) le unfolding wheel_ok_def bucket_def by auto
  show ?thesis
  proof (cases "?new = ?old")
    case True
    then have "advance_to t q = ?q0" using False by (simp add: advance_to_def)
    then show ?thesis using w0 w(2) True False by (simp add: far_ok_def entries_def max_def)
  next
    case F: False
    have p: "\<forall>e. block_index 0 (e_time e div 2 ^ q_granule_shift ?q0) \<le> block_index 0 ?new \<longrightarrow> hands_on push_due (\<lambda>_. ?old) 0 ?q0 e"
      using push_due_hands_on [of _ ?q0] by simp
    define q1 where "q1 = sweep push_due 0 ?old ?new ?q0"
    have "(\<lambda>_. ?old)(0 := ?new) = swept ?old ?new 1" by (auto simp: swept_def fun_eq_iff)
    with sweep_ok [OF w0 _ _ _ p] le
    have s: "wheel_ok (swept ?old ?new 1) q1" "frame 1 ?q0 q1" "entries q1 = entries ?q0" by (simp_all add: q1_def)
    define q2 where "q2 = fold (cascade ?old ?new) [1..<4] q1"
    have "q_now_granule q1 = ?new" using s(2) by (simp add: frame_def)
    with cascades_ok [OF s(1), of 3] le
    have c: "wheel_ok (swept ?old ?new 4) q2" "frame 4 q1 q2" "entries q2 = entries q1" by (simp_all add: q2_def)
    have fr: "frame 4 ?q0 q2" using frame_trans [OF frame_mono [OF s(2)] c(2)] by simp
    have w4: "wheel_ok (\<lambda>_. ?new) q2" by (rule wheel_ok_ref [OF c(1)]) (use wheel_okD(3) [OF c(1)] in \<open>auto simp: swept_def\<close>)
    have "advance_to t q = pull_far (q_far q2) q2" using False F by (simp add: advance_to_def Let_def q1_def q2_def)
    moreover have "\<forall>k<4. (\<lambda>_. ?new) k = q_now_granule q2" using fr by (simp add: frame_def)
    ultimately show ?thesis using pull_far_ok [OF w4 _ refl] fr s(3) c(3) False by (simp add: frame_def entries_def max_def)
  qed
qed

lemma advance_to_wf: "queue_wf q \<Longrightarrow> queue_wf (advance_to t q) \<and> live (advance_to t q) = live q"
  using advance_to_ok [of q t] by (simp add: queue_wf_def ids_ok_def live_def)

section \<open>Popping\<close>

lemma near_granule:
  assumes "wheel_ok (\<lambda>_. n) q" "e \<in> set (concat (q_near q))"
  shows "n < e_time e div 2 ^ q_granule_shift q"
proof -
  obtain es where "es \<in> set (q_near q)" "e \<in> set es" using assms(2) by auto
  then obtain i where i: "i < 1024" "e \<in> set (q_near q ! i)" using wheel_okD(1) [OF assms(1)] by (metis in_set_conv_nth)
  have "i div 256 < 4" "i mod 256 < 256" "e \<in> set (bucket q (i div 256) (i mod 256))" using i by (simp_all add: bucket_def)
  from wheel_okD(3) [OF assms(1) this] have "block_index (i div 256) n < block_index (i div 256) (e_time e div 2 ^ q_granule_shift q)"
    by (simp add: in_slot_def Let_def)
  then show ?thesis by (meson block_index_mono leD leI)
qed

lemma due_complete:
  assumes "queue_wf q" "e \<in># entries q" "e_time e \<le> q_now q"
  shows "e \<in> set (q_due q)"
proof -
  have w: "wheel_ok (\<lambda>_. q_now_granule q) q" "far_ok q" using assms(1) by (simp_all add: queue_wf_def)
  have g: "e_time e div 2 ^ q_granule_shift q \<le> q_now_granule q" using assms(3) wheel_okD(5) [OF w(1)] by (simp add: div_le_mono)
  have "e \<notin> set (concat (q_near q))" using near_granule [OF w(1)] g by force
  moreover have "e \<notin> set (q_far q)" using w(2) block_index_mono [OF g, of 3] by (force simp: far_ok_def)
  ultimately show ?thesis using assms(2) by (auto simp: entries_def)
qed

lemma pop_loop_spec:
  assumes "pop_loop now c due = (c', due', r)"
  shows "\<exists>popped. (\<forall>e\<in>set popped. e_id e \<in> c \<and> e_time e \<le> now) \<and> c' = c - e_id ` set popped
    \<and> (case r of None \<Rightarrow> due = popped @ due' \<and> (\<forall>e\<in>set (take 1 due'). now < e_time e)
       | Some e \<Rightarrow> due = popped @ e # due' \<and> e_id e \<notin> c' \<and> e_time e \<le> now)"
  using assms
proof (induction now c due rule: pop_loop.induct)
  case (2 now c e due)
  show ?case
  proof (cases "e_time e \<le> now \<and> e_id e \<in> c")
    case True
    then obtain popped where "(\<forall>x\<in>set popped. e_id x \<in> c - {e_id e} \<and> e_time x \<le> now) \<and> c' = c - {e_id e} - e_id ` set popped
      \<and> (case r of None \<Rightarrow> due = popped @ due' \<and> (\<forall>e\<in>set (take 1 due'). now < e_time e)
         | Some e \<Rightarrow> due = popped @ e # due' \<and> e_id e \<notin> c' \<and> e_time e \<le> now)"
      using 2(1) 2(2) by auto
    then show ?thesis using True by (intro exI [of _ "e # popped"]) (auto split: option.splits)
  next
    case False
    then show ?thesis using 2(2) by (intro exI [of _ "[]"]) (auto split: if_splits)
  qed
qed (simp add: exI [of _ "[]"])

lemma unique_ids:
  assumes "\<forall>i. count (image_mset f (A + B)) i \<le> 1" "x \<in># A" "y \<in># B"
  shows "f x \<noteq> f y"
proof
  assume "f x = f y"
  then have "f x \<in># image_mset f A" "f x \<in># image_mset f B" using assms(2,3) by (metis in_image_mset imageI)+
  then have "0 < count (image_mset f A) (f x)" "0 < count (image_mset f B) (f x)" by (simp_all only: count_greater_zero_iff)
  moreover have "count (image_mset f A) (f x) + count (image_mset f B) (f x) \<le> 1" using assms(1) by simp
  ultimately show False by linarith
qed

lemma filter_ids:
  assumes "\<forall>x\<in>#M. f x \<notin> P"
  shows "filter_mset (\<lambda>x. f x \<notin> c - P) M = filter_mset (\<lambda>x. f x \<notin> c) M"
  using assms by (intro filter_mset_cong) auto

text \<open>Removing a popped prefix from the due heap, its tombstones with it.\<close>

lemma drop_due:
  assumes "queue_wf q" "q_due q = popped @ kept" "\<forall>e\<in>set popped. e_id e \<in> q_cancelled q"
  shows "queue_wf (q\<lparr>q_cancelled := q_cancelled q - e_id ` set popped, q_due := kept\<rparr>)"
    "live (q\<lparr>q_cancelled := q_cancelled q - e_id ` set popped, q_due := kept\<rparr>) = live q"
proof -
  let ?q = "q\<lparr>q_cancelled := q_cancelled q - e_id ` set popped, q_due := kept\<rparr>"
  have e: "entries q = mset popped + entries ?q" using assms(2) by (simp add: entries_def)
  have i: "\<forall>i. count (image_mset e_id (mset popped + entries ?q)) i \<le> 1" using assms(1) e by (simp add: queue_wf_def ids_ok_def)
  have sub: "\<forall>i. count (image_mset e_id (entries ?q)) i \<le> 1"
  proof
    fix i have "count (image_mset e_id (entries ?q)) i \<le> count (image_mset e_id (mset popped + entries ?q)) i" by simp
    also have "\<dots> \<le> 1" using i by blast
    finally show "count (image_mset e_id (entries ?q)) i \<le> 1" .
  qed
  have "wheel_ok (\<lambda>_. q_now_granule q) q" "far_ok q" using assms(1) by (simp_all add: queue_wf_def)
  then have "wheel_ok (\<lambda>_. q_now_granule ?q) ?q" "far_ok ?q"
    using assms(2) unfolding wheel_ok_def bucket_def far_ok_def by (auto simp: sorted_append)
  moreover have "ids_ok ?q" using sub assms(1) e by (auto simp: ids_ok_def queue_wf_def)
  ultimately show "queue_wf ?q" by (simp add: queue_wf_def)
  have n: "\<forall>x\<in>#entries ?q. e_id x \<notin> e_id ` set popped" using unique_ids [OF i] by fastforce
  have "filter_mset (\<lambda>x. e_id x \<notin> q_cancelled q) (mset popped) = {#}" using assms(3) by (simp add: filter_mset_eq_conv)
  then show "live ?q = live q" using filter_ids [OF n, of "q_cancelled q"] by (simp add: live_def e)
qed

lemma drop_live:
  assumes "queue_wf q" "q_due q = e # kept" "e_id e \<notin> q_cancelled q"
  shows "queue_wf (q\<lparr>q_due := kept\<rparr>)" "live q = add_mset e (live (q\<lparr>q_due := kept\<rparr>))"
proof -
  let ?q = "q\<lparr>q_due := kept\<rparr>"
  have e: "entries q = add_mset e (entries ?q)" using assms(2) by (simp add: entries_def)
  show "live q = add_mset e (live ?q)" using assms(3) e by (simp add: live_def)
  have "count (image_mset e_id (entries ?q)) i \<le> 1" for i
  proof -
    have "count (image_mset e_id (entries q)) i \<le> 1" using assms(1) by (simp add: queue_wf_def ids_ok_def)
    then show ?thesis unfolding e by (auto split: if_splits)
  qed
  moreover have "wheel_ok (\<lambda>_. q_now_granule ?q) ?q \<and> far_ok ?q"
    using assms(1,2) unfolding queue_wf_def wheel_ok_def bucket_def far_ok_def by auto
  ultimately show "queue_wf ?q" using assms(1) e by (auto simp: queue_wf_def ids_ok_def)
qed

lemma sorted_due_le:
  assumes "sorted (map event_key (xs @ ys))" "x \<in> set xs" "y \<in> set ys"
  shows "event_key x \<le> event_key y"
  using assms by (auto simp: sorted_append)

lemma pop_due_spec:
  assumes "queue_wf q" "pop_due now q = (q', r)"
  shows "queue_wf q' \<and> q_now q' = max now (q_now q) \<and> q_next_seq q' = q_next_seq q \<and>
    (case r of None \<Rightarrow> live q' = live q \<and> (\<forall>e\<in>#live q. now < e_time e)
     | Some e \<Rightarrow> e \<in># live q \<and> e_time e \<le> now \<and> (\<forall>e'\<in>#live q. event_key e \<le> event_key e') \<and> live q' = live q - {#e#})"
proof -
  let ?a = "advance_to now q"
  have w: "queue_wf ?a" "live ?a = live q" using advance_to_wf [OF assms(1)] by simp_all
  have a: "q_now ?a = max now (q_now q)" "q_next_seq ?a = q_next_seq q" using advance_to_ok [OF assms(1)] by simp_all
  obtain c due where l: "pop_loop now (q_cancelled ?a) (q_due ?a) = (c, due, r)" and q': "q' = ?a\<lparr>q_cancelled := c, q_due := due\<rparr>"
    using assms(2) by (auto simp: pop_due_def Let_def split: prod.splits)
  obtain popped where p: "\<forall>e\<in>set popped. e_id e \<in> q_cancelled ?a \<and> e_time e \<le> now" "c = q_cancelled ?a - e_id ` set popped"
    and k: "case r of None \<Rightarrow> q_due ?a = popped @ due \<and> (\<forall>e\<in>set (take 1 due). now < e_time e)
      | Some e \<Rightarrow> q_due ?a = popped @ e # due \<and> e_id e \<notin> c \<and> e_time e \<le> now"
    using pop_loop_spec [OF l] by blast
  have srt: "sorted (map event_key (q_due ?a))" using w(1) wheel_okD(7) by (auto simp: queue_wf_def)
  have dead: "\<forall>e\<in>set popped. e_id e \<in> q_cancelled ?a" using p(1) by blast
  have early: "e \<in> set (q_due ?a) \<and> e \<notin> set popped" if "e \<in># live ?a" "e_time e \<le> now" for e
    using due_complete [OF w(1), of e] that a(1) dead by (auto simp: live_def)
  show ?thesis
  proof (cases r)
    case None
    then have d: "q_due ?a = popped @ due" "\<forall>e\<in>set (take 1 due). now < e_time e" using k by simp_all
    note dd = drop_due [OF w(1) d(1) dead]
    have "now < e_time e" if "e \<in># live ?a" for e
    proof (rule ccontr)
      assume "\<not> now < e_time e"
      then have "e \<in> set due" using early [OF that] d(1) by auto
      then obtain x xs where x: "due = x # xs" by (cases due) auto
      have "event_key x \<le> event_key e" using srt \<open>e \<in> set due\<close> x d(1) by (auto simp: sorted_append)
      then have "e_time x \<le> e_time e" by (auto simp: event_key_def less_eq_prod_def)
      then show False using d(2) x \<open>\<not> now < e_time e\<close> by simp
    qed
    then show ?thesis using None dd w(2) a q' p(2) by simp
  next
    case (Some e)
    then have d: "q_due ?a = popped @ e # due" "e_id e \<notin> c" "e_time e \<le> now" using k by simp_all
    note dd = drop_due [OF w(1) d(1) dead, folded p(2)]
    have q'': "q' = (?a\<lparr>q_cancelled := c, q_due := e # due\<rparr>)\<lparr>q_due := due\<rparr>" using q' by simp
    have ee: "queue_wf q'" "live q = add_mset e (live q')"
      using drop_live [OF dd(1), of e due] d(2) dd(2) w(2) by (simp_all add: q'')
    have "event_key e \<le> event_key e'" if "e' \<in># live ?a" for e'
    proof (cases "e_time e' \<le> now")
      case True
      then have "e' \<in> set (e # due)" using early [OF that] d(1) by auto
      then show ?thesis using srt d(1) by (auto simp: sorted_append)
    qed (use d(3) in \<open>auto simp: event_key_def less_eq_prod_def\<close>)
    then show ?thesis using Some ee a q' d(3) w(2) by simp
  qed
qed

end
