(* ===== verification/Sched_Events.thy ===== *)
theory Sched_Events
  imports Sched_Fire
begin

text \<open>
  The event queue as its clients see it: posting, cancelling, firing everything that
  is due, taking and restoring a snapshot, and asking for the next deadline.
\<close>

section \<open>A queue that fires in order\<close>

text \<open>Popping until nothing more is due.\<close>

fun fires :: "('q \<Rightarrow> 'q \<times> event option) \<Rightarrow> nat \<Rightarrow> 'q \<Rightarrow> event list" where
  "fires pop 0 q = []"
| "fires pop (Suc n) q = (case pop q of (q', None) \<Rightarrow> [] | (q', Some e) \<Rightarrow> e # fires pop n q')"

lemma key_unique:
  assumes "\<forall>i. count (image_mset e_id M) i \<le> 1" "e \<in># M" "e' \<in># M" "e_id e = e_id e'"
  shows "e = e'"
proof (rule ccontr)
  assume "e \<noteq> e'"
  then have "e' \<in># M - {#e#}" using assms(3) by (simp add: in_diff_count)
  moreover have "M = {#e#} + (M - {#e#})" using assms(2) by simp
  ultimately show False using unique_ids [of e_id "{#e#}" "M - {#e#}" e e'] assms(1,4) by simp
qed

lemma key_antisym: "event_key e \<le> event_key e' \<Longrightarrow> event_key e' \<le> event_key e \<Longrightarrow> e_id e = e_id e'"
  using antisym [of "event_key e" "event_key e'"] by (simp add: event_key_def)

text \<open>
  The contract a client of the queue relies on: a pop takes the least entry that is
  due, and no entry shares its sequence number with another.
\<close>

locale due_queue =
  fixes wf :: "'q \<Rightarrow> bool" and contents :: "'q \<Rightarrow> event multiset" and pop :: "gtime \<Rightarrow> 'q \<Rightarrow> 'q \<times> event option"
  assumes ids_unique: "wf q \<Longrightarrow> count (image_mset e_id (contents q)) i \<le> 1"
    and pop_none: "wf q \<Longrightarrow> pop now q = (q', None) \<Longrightarrow> e \<in># contents q \<Longrightarrow> now < e_time e"
    and pop_some: "wf q \<Longrightarrow> pop now q = (q', Some e) \<Longrightarrow>
      wf q' \<and> e \<in># contents q \<and> e_time e \<le> now \<and> (\<forall>e'\<in>#contents q. event_key e \<le> event_key e') \<and> contents q' = contents q - {#e#}"
begin

lemma fires_sorted:
  assumes "wf q" "sorted (map event_key es)" "mset es = contents q"
  shows "fires (pop now) n q = take n (filter (\<lambda>e. e_time e \<le> now) es)"
  using assms
proof (induction n arbitrary: q es)
  case (Suc n)
  obtain q' r where p: "pop now q = (q', r)" by (cases "pop now q")
  show ?case
  proof (cases r)
    case None
    have "now < e_time e" if "e \<in> set es" for e
      using pop_none [OF Suc.prems(1), of now q' e] p None that Suc.prems(3) by (metis set_mset_mset)
    then have "filter (\<lambda>e. e_time e \<le> now) es = []" by (auto simp: filter_empty_conv not_le)
    then show ?thesis using p None by simp
  next
    case (Some e)
    note s = pop_some [OF Suc.prems(1), of now q' e]
    have e: "e \<in> set es" using s p Some Suc.prems(3) by (metis set_mset_mset)
    then obtain x xs where x: "es = x # xs" by (cases es) auto
    have "event_key x \<le> event_key e" using Suc.prems(2) e x by auto
    moreover have "x \<in># contents q" using Suc.prems(3) x by (metis list.set_intros(1) set_mset_mset)
    ultimately have "x = e"
      using key_unique [of "contents q" x e] ids_unique [OF Suc.prems(1)] key_antisym [of x e] s p Some by blast
    moreover have "mset xs = contents q'" using s p Some Suc.prems(3) x \<open>x = e\<close> by (metis add_mset_remove_trivial mset.simps(2))
    ultimately show ?thesis using Suc.IH [of q' xs] s p Some Suc.prems(2) x by simp
  qed
qed simp

end

interpretation wheel: due_queue queue_wf live pop_due
proof
  show "count (image_mset e_id (live q)) i \<le> 1" if "queue_wf q" for q i
  proof -
    have "count (image_mset e_id (live q)) i \<le> count (image_mset e_id (entries q)) i"
      unfolding live_def by (intro mset_subset_eq_count image_mset_subseteq_mono multiset_filter_subset)
    also have "\<dots> \<le> 1" using that by (simp add: queue_wf_def ids_ok_def)
    finally show ?thesis .
  qed
next
  show "now < e_time e" if "queue_wf q" "pop_due now q = (q', None)" "e \<in># live q" for q now q' e
    using pop_due_spec [OF that(1,2)] that(3) by simp
next
  show "queue_wf q' \<and> e \<in># live q \<and> e_time e \<le> now \<and> (\<forall>e'\<in>#live q. event_key e \<le> event_key e') \<and> live q' = live q - {#e#}"
    if "queue_wf q" "pop_due now q = (q', Some e)" for q now q' e
    using pop_due_spec [OF that] by simp
qed

section \<open>Posting and cancelling\<close>

lemma push_entry_far:
  assumes "wheel_ok ref q" "placement q (e_time e) = Far"
  shows "wheel_ok ref (push_entry e q)" "entries (push_entry e q) = add_mset e (entries q)"
  using assms unfolding wheel_ok_def bucket_def by (auto simp: push_entry_def entries_def)

lemma push_entry_wf:
  assumes "wheel_ok (\<lambda>_. q_now_granule q) q" "far_ok q"
  shows "wheel_ok (\<lambda>_. q_now_granule (push_entry e q)) (push_entry e q) \<and> far_ok (push_entry e q) \<and> entries (push_entry e q) = add_mset e (entries q)
    \<and> q_now (push_entry e q) = q_now q \<and> q_now_granule (push_entry e q) = q_now_granule q \<and> q_granule_shift (push_entry e q) = q_granule_shift q
    \<and> q_cancelled (push_entry e q) = q_cancelled q \<and> q_next_seq (push_entry e q) = q_next_seq q"
proof (cases "placement q (e_time e) = Far")
  case True
  have "block_index 3 (q_now_granule q) + 256 \<le> block_index 3 (e_time e div 2 ^ q_granule_shift q)" by (rule far_placement [OF assms(1) True]) simp
  then show ?thesis using push_entry_far [OF assms(1) True] assms(2) True by (simp add: far_ok_def push_entry_def)
next
  case False
  note p = push_entry_ok [OF assms(1), of 4 e]
  have f: "frame 4 q (push_entry e q)" using p(2) False by simp
  then have "far_ok (push_entry e q)" using assms(2) by (simp add: far_ok_def frame_def)
  then show ?thesis using p(1,3) False f by (simp add: frame_def)
qed

lemma fold_push_wf:
  assumes "wheel_ok (\<lambda>_. q_now_granule q) q" "far_ok q"
  shows "wheel_ok (\<lambda>_. q_now_granule (fold push_entry es q)) (fold push_entry es q) \<and> far_ok (fold push_entry es q)
    \<and> entries (fold push_entry es q) = entries q + mset es \<and> q_now (fold push_entry es q) = q_now q
    \<and> q_cancelled (fold push_entry es q) = q_cancelled q \<and> q_next_seq (fold push_entry es q) = q_next_seq q"
  using assms
proof (induction es arbitrary: q)
  case (Cons e es)
  have p: "wheel_ok (\<lambda>_. q_now_granule (push_entry e q)) (push_entry e q)" "far_ok (push_entry e q)"
    "entries (push_entry e q) = add_mset e (entries q)" "q_now (push_entry e q) = q_now q"
    "q_cancelled (push_entry e q) = q_cancelled q" "q_next_seq (push_entry e q) = q_next_seq q"
    using push_entry_wf [OF Cons.prems, of e] by blast+
  from Cons.IH [OF p(1,2)] show ?case unfolding p(3-) by simp
qed simp

lemma schedule_spec:
  assumes "queue_wf q" "q_next_seq q + 1 < two64" "queue_schedule time target token q = (q', i)"
  shows "queue_wf q' \<and> q_now q' = q_now q \<and> q_next_seq q' = q_next_seq q + 1 \<and> i = q_next_seq q
    \<and> live q' = add_mset \<lparr>e_time = time, e_id = i, e_target = target, e_token = token\<rparr> (live q)"
proof -
  let ?e = "\<lparr>e_time = time, e_id = q_next_seq q, e_target = target, e_token = token\<rparr>"
  let ?q = "q\<lparr>q_next_seq := q_next_seq q + 1\<rparr>"
  have q': "q' = push_entry ?e ?q" "i = q_next_seq q" using assms(2,3) by (auto simp: queue_schedule_def Let_def)
  have "wheel_ok (\<lambda>_. q_now_granule q) q" "far_ok q" and ids: "ids_ok q" using assms(1) by (simp_all add: queue_wf_def)
  then have w: "wheel_ok (\<lambda>_. q_now_granule ?q) ?q" "far_ok ?q" unfolding wheel_ok_def far_ok_def bucket_def by auto
  have en: "entries ?q = entries q" by (simp add: entries_def)
  note p = push_entry_wf [OF w, of ?e]
  have fresh: "q_next_seq q \<notin># image_mset e_id (entries q)" "q_next_seq q \<notin> q_cancelled q" using ids by (auto simp: ids_ok_def)
  have "count (image_mset e_id (add_mset ?e (entries q))) j \<le> 1" for j
    using fresh(1) [unfolded not_in_iff] ids by (auto simp: ids_ok_def)
  then have "ids_ok q'" using p en ids by (auto simp: q' ids_ok_def less_Suc_eq)
  then have "queue_wf q'" using p unfolding queue_wf_def q' by blast
  then show ?thesis using p en fresh(2) by (simp add: q' live_def)
qed

lemma cancel_spec:
  assumes "queue_wf q" "i < q_next_seq q"
  shows "queue_wf (queue_cancel i q) \<and> live (queue_cancel i q) = filter_mset (\<lambda>e. e_id e \<noteq> i) (live q)"
proof -
  have "wheel_ok (\<lambda>_. q_now_granule (queue_cancel i q)) (queue_cancel i q) \<and> far_ok (queue_cancel i q)"
    using assms(1) unfolding queue_wf_def wheel_ok_def far_ok_def bucket_def queue_cancel_def by auto
  moreover have "entries (queue_cancel i q) = entries q" by (simp add: entries_def queue_cancel_def)
  ultimately show ?thesis
    using assms by (auto simp: queue_wf_def ids_ok_def live_def filter_filter_mset queue_cancel_def intro: filter_mset_cong)
qed

lemma queue_new_wf: "queue_wf (queue_new s) \<and> live (queue_new s) = {#}"
proof -
  have c: "concat (replicate n []) = []" for n :: nat by (induction n) simp_all
  have b: "l < 4 \<Longrightarrow> t < 256 \<Longrightarrow> bucket (queue_new s) l t = []" for l t by (simp add: bucket_def queue_new_def)
  have "entries (queue_new s) = {#}" by (simp add: entries_def queue_new_def c)
  moreover have "wheel_ok (\<lambda>_. 0) (queue_new s)" unfolding wheel_ok_def using b by (simp add: queue_new_def)
  moreover have "far_ok (queue_new s)" by (simp add: far_ok_def queue_new_def)
  ultimately show ?thesis by (simp add: queue_wf_def ids_ok_def live_def) (simp add: queue_new_def)
qed

section \<open>Snapshots\<close>

lemma queue_events_spec: "mset (queue_events q) = live q" "sorted (map event_key (queue_events q))"
  by (simp_all add: queue_events_def live_def entries_def Let_def flip: mset_filter)

lemma distinct_ids:
  assumes "\<forall>i. count (image_mset e_id (mset xs)) i \<le> 1"
  shows "distinct (map e_id xs)"
proof -
  have "count (mset (map e_id xs)) i \<le> 1" for i using assms by simp
  then show ?thesis by (metis count_greater_zero_iff distinct_count_atmost_1 le_neq_implies_less less_one not_gr_zero set_mset_mset count_inI)
qed

lemma check_events_ok:
  assumes "\<forall>e\<in>set es. e_id e < n \<and> e_id e \<notin> seen" "distinct (map e_id es)"
  shows "check_events n seen es = Inr ()"
  using assms
proof (induction es arbitrary: seen)
  case (Cons e es)
  have "\<forall>x\<in>set es. e_id x < n \<and> e_id x \<notin> insert (e_id e) seen"
  proof
    fix x assume x: "x \<in> set es"
    then have "e_id x \<in> set (map e_id es)" by simp
    then have "e_id x \<noteq> e_id e" using Cons.prems(2) by auto
    then show "e_id x < n \<and> e_id x \<notin> insert (e_id e) seen" using Cons.prems(1) x by simp
  qed
  then show ?case using Cons.IH [of "insert (e_id e) seen"] Cons.prems by simp
qed simp

lemma restore_spec:
  assumes "queue_wf q" "queue_wf r"
  shows "\<exists>r'. queue_restore now (q_next_seq q) (queue_events q) r = (r', Inr ()) \<and> queue_wf r' \<and> live r' = live q
    \<and> q_now r' = now \<and> q_next_seq r' = q_next_seq q"
proof -
  let ?es = "queue_events q"
  let ?r = "r\<lparr>q_near := map (\<lambda>_. []) (q_near r), q_level_len := replicate 4 0, q_far := [], q_due := [],
    q_cancelled := {}, q_now := now, q_now_granule := now div 2 ^ q_granule_shift r, q_next_seq := q_next_seq q\<rparr>"
  have ids: "\<forall>i. count (image_mset e_id (live q)) i \<le> 1" using wheel.ids_unique [OF assms(1)] by blast
  have "distinct (map e_id ?es)" using distinct_ids [of ?es] ids by (simp add: queue_events_spec)
  moreover have lt: "\<forall>e\<in>#live q. e_id e < q_next_seq q" using assms(1) by (auto simp: live_def queue_wf_def ids_ok_def)
  ultimately have c: "check_events (q_next_seq q) {} ?es = Inr ()" using queue_events_spec(1) by (intro check_events_ok) (metis empty_iff set_mset_mset)
  have len: "length (q_near r) = 1024" using assms(2) wheel_okD(1) by (auto simp: queue_wf_def)
  have b: "l < 4 \<Longrightarrow> t < 256 \<Longrightarrow> bucket ?r l t = []" for l t using slot_index_lt [of l t] len by (simp add: bucket_def)
  have e: "entries ?r = {#}" by (induction "q_near r") (simp_all add: entries_def)
  have "wheel_ok (\<lambda>_. q_now_granule ?r) ?r" unfolding wheel_ok_def using b len by simp
  moreover have "far_ok ?r" by (simp add: far_ok_def)
  ultimately have f: "wheel_ok (\<lambda>_. q_now_granule (fold push_entry ?es ?r)) (fold push_entry ?es ?r) \<and> far_ok (fold push_entry ?es ?r)
    \<and> entries (fold push_entry ?es ?r) = live q \<and> q_now (fold push_entry ?es ?r) = now
    \<and> q_cancelled (fold push_entry ?es ?r) = {} \<and> q_next_seq (fold push_entry ?es ?r) = q_next_seq q"
    using fold_push_wf [of ?r ?es] e queue_events_spec(1) by simp
  then have "queue_wf (fold push_entry ?es ?r)" "live (fold push_entry ?es ?r) = live q"
    using ids lt by (simp_all add: queue_wf_def ids_ok_def live_def)
  then show ?thesis using f c by (simp add: queue_restore_def)
qed

section \<open>Reachable queues\<close>

inductive queue_reachable :: "event_queue \<Rightarrow> bool" where
  new: "queue_reachable (queue_new shift)"
| schedule: "queue_reachable q \<Longrightarrow> q_next_seq q + 1 < two64 \<Longrightarrow> queue_reachable (fst (queue_schedule time target token q))"
| cancel: "queue_reachable q \<Longrightarrow> i < q_next_seq q \<Longrightarrow> queue_reachable (queue_cancel i q)"
| advance: "queue_reachable q \<Longrightarrow> queue_reachable (advance_to t q)"
| pop: "queue_reachable q \<Longrightarrow> queue_reachable (fst (pop_due now q))"
| deadline: "queue_reachable q \<Longrightarrow> queue_reachable (fst (next_deadline q))"
| restore: "queue_reachable q \<Longrightarrow> queue_reachable r \<Longrightarrow> queue_reachable (fst (queue_restore now (q_next_seq q) (queue_events q) r))"

lemma purge_loop_spec:
  assumes "purge_loop c due = (c', due')"
  shows "\<exists>popped. due = popped @ due' \<and> (\<forall>e\<in>set popped. e_id e \<in> c) \<and> c' = c - e_id ` set popped \<and> (\<forall>e\<in>set (take 1 due'). e_id e \<notin> c')"
  using assms
proof (induction c due rule: purge_loop.induct)
  case (2 c e due)
  show ?case
  proof (cases "e_id e \<in> c")
    case True
    then obtain popped where "due = popped @ due' \<and> (\<forall>x\<in>set popped. e_id x \<in> c - {e_id e}) \<and> c' = c - {e_id e} - e_id ` set popped
      \<and> (\<forall>x\<in>set (take 1 due'). e_id x \<notin> c')"
      using 2 by auto
    then show ?thesis using True by (intro exI [of _ "e # popped"]) auto
  next
    case False
    then show ?thesis using 2(2) by (intro exI [of _ "[]"]) auto
  qed
qed simp

lemma purge_spec:
  assumes "queue_wf q"
  shows "queue_wf (purge_cancelled_due q) \<and> live (purge_cancelled_due q) = live q \<and> q_now (purge_cancelled_due q) = q_now q
    \<and> (\<forall>e\<in>set (take 1 (q_due (purge_cancelled_due q))). e_id e \<notin> q_cancelled (purge_cancelled_due q))"
proof -
  obtain c' due' where p: "purge_loop (q_cancelled q) (q_due q) = (c', due')" by (cases "purge_loop (q_cancelled q) (q_due q)")
  with purge_loop_spec [OF p] drop_due [OF assms, of _ due'] show ?thesis
    by (auto simp: purge_cancelled_due_def)
qed

lemma queue_reachable_wf: "queue_reachable q \<Longrightarrow> queue_wf q"
proof (induction rule: queue_reachable.induct)
  case (schedule q time target token)
  then show ?case using schedule_spec [of q time target token] by (cases "queue_schedule time target token q") auto
next
  case (pop q now)
  then show ?case using pop_due_spec [of q now] by (cases "pop_due now q") auto
next
  case (restore q r now)
  then show ?case using restore_spec [of q r now] by auto
qed (auto simp: queue_new_wf advance_to_wf cancel_spec next_deadline_def Let_def purge_spec)

lemma events_unique:
  assumes "queue_wf q" "mset es = live q" "sorted (map event_key es)"
  shows "queue_events q = es"
proof -
  have d: "distinct (map event_key xs)" "inj_on event_key (set xs)" if "mset xs = live q" for xs
  proof -
    have "distinct (map e_id xs)" using distinct_ids [of xs] wheel.ids_unique [OF assms(1)] that by simp
    then have "inj_on e_id (set xs)" "distinct xs" by (simp_all add: distinct_map)
    then show "inj_on event_key (set xs)" by (auto simp: inj_on_def event_key_def)
    then show "distinct (map event_key xs)" using \<open>distinct xs\<close> by (simp add: distinct_map)
  qed
  have eq: "set (queue_events q) = set es" using assms(2) queue_events_spec(1) by (metis set_mset_mset)
  show ?thesis
    by (rule map_sorted_distinct_set_unique [of event_key])
      (use d [OF queue_events_spec(1)] d [OF assms(2)] eq queue_events_spec(2) assms(3) in auto)
qed

section \<open>What the queue promises\<close>

lemma pop_due_events:
  assumes "queue_wf q"
  shows "(snd (pop_due now q), queue_events (fst (pop_due now q))) =
    (case queue_events q of [] \<Rightarrow> (None, []) | e # es \<Rightarrow> if e_time e \<le> now then (Some e, es) else (None, e # es))"
proof -
  obtain q' r where p: "pop_due now q = (q', r)" by (cases "pop_due now q")
  note s = pop_due_spec [OF assms p]
  have f: "fires (pop_due now) 1 q = take 1 (filter (\<lambda>e. e_time e \<le> now) (queue_events q))"
    using wheel.fires_sorted [OF assms queue_events_spec(2,1)] .
  show ?thesis
  proof (cases r)
    case None
    then have l: "live q' = live q" "\<forall>e\<in>set (queue_events q). now < e_time e"
      using s queue_events_spec(1) [of q] by (simp_all flip: set_mset_mset)
    have "queue_events q' = queue_events q"
      using events_unique [OF conjunct1 [OF s], of "queue_events q"] queue_events_spec [of q] l(1) by simp
    then show ?thesis using p None l(2) by (cases "queue_events q") auto
  next
    case (Some e)
    then have h: "take 1 (filter (\<lambda>e. e_time e \<le> now) (queue_events q)) = [e]" using f p by simp
    obtain x xs where x: "queue_events q = x # xs" using h by (cases "queue_events q") auto
    have srt: "sorted (map event_key (x # xs))" using queue_events_spec(2) [of q] x by simp
    have "x = e"
    proof (cases "e_time x \<le> now")
      case False
      then have "\<not> e_time y \<le> now" if "y \<in> set xs" for y
        using srt that by (auto simp: event_key_def less_eq_prod_def)
      then have "filter (\<lambda>e. e_time e \<le> now) (queue_events q) = []" using x False by (auto simp: filter_empty_conv)
      then show ?thesis using h by simp
    qed (use h x in simp)
    moreover have "mset xs = live q'" using s Some queue_events_spec(1) [of q] x \<open>x = e\<close> by (auto simp flip: queue_events_spec)
    then have "queue_events q' = xs" using events_unique [of q' xs] s srt by simp
    ultimately show ?thesis using p Some s x by simp
  qed
qed

lemma schedule_events:
  assumes "queue_wf q" "q_next_seq q + 1 < two64"
  shows "queue_events (fst (queue_schedule time target token q))
    = insort_key event_key \<lparr>e_time = time, e_id = q_next_seq q, e_target = target, e_token = token\<rparr> (queue_events q)"
proof -
  obtain q' k where p: "queue_schedule time target token q = (q', k)" by (cases "queue_schedule time target token q")
  note s = schedule_spec [OF assms p]
  have "queue_events q' = insort_key event_key \<lparr>e_time = time, e_id = k, e_target = target, e_token = token\<rparr> (queue_events q)"
    using s queue_events_spec [of q] by (intro events_unique) (simp_all add: mset_insort sorted_insort_key)
  then show ?thesis using p s by simp
qed

lemma cancel_events:
  assumes "queue_wf q" "i < q_next_seq q"
  shows "queue_events (queue_cancel i q) = filter (\<lambda>e. e_id e \<noteq> i) (queue_events q)"
  using cancel_spec [OF assms] queue_events_spec [of q] by (auto intro!: events_unique simp: sorted_filter)

lemma advance_events: "queue_wf q \<Longrightarrow> queue_events (advance_to t q) = queue_events q"
  using advance_to_wf [of q t] queue_events_spec [of q] by (auto intro!: events_unique)

text \<open>
  C31: The timing wheel implements a sorted list: seen through the list of its live
  events in firing order, posting inserts by (time, sequence number), cancelling
  removes, advancing changes nothing however far time jumps, and a pop takes the head
  exactly when it is due.
\<close>

theorem queue_refines_list:
  assumes "queue_reachable q"
  shows "(q_next_seq q + 1 < 2 ^ 64 \<longrightarrow> queue_events (fst (queue_schedule time target token q))
        = insort_key event_key \<lparr>e_time = time, e_id = q_next_seq q, e_target = target, e_token = token\<rparr> (queue_events q))
    \<and> (i < q_next_seq q \<longrightarrow> queue_events (queue_cancel i q) = filter (\<lambda>e. e_id e \<noteq> i) (queue_events q))
    \<and> queue_events (advance_to t q) = queue_events q
    \<and> (snd (pop_due now q), queue_events (fst (pop_due now q))) =
        (case queue_events q of [] \<Rightarrow> (None, []) | e # es \<Rightarrow> if e_time e \<le> now then (Some e, es) else (None, e # es))"
  using schedule_events cancel_events advance_events pop_due_events queue_reachable_wf [OF assms] by simp

text \<open>
  C32: Events fire in order: popping at an instant yields exactly the live events due
  by then, ordered by time with ties in posting order, each once, and nothing else,
  whatever the history of the wheel.
\<close>

theorem fires_in_order:
  assumes "queue_reachable q" "length (queue_events q) \<le> n"
  shows "fires (pop_due now) n q = filter (\<lambda>e. e_time e \<le> now) (queue_events q)"
  using wheel.fires_sorted [OF queue_reachable_wf [OF assms(1)] queue_events_spec(2,1), of now n] assms(2)
    length_filter_le [of "\<lambda>e. e_time e \<le> now" "queue_events q"] by simp

text \<open>
  A snapshot of the queue restores it: rebuilding any queue from the saved
  instant, sequence counter and event list is accepted, and the rebuilt queue fires
  the same events in the same order at every later instant and continues the same
  numbering.
\<close>

theorem queue_restore_fires_same:
  assumes "queue_reachable q" "queue_reachable r"
  shows "\<exists>r'. queue_restore (q_now q) (q_next_seq q) (queue_events q) r = (r', Inr ())
    \<and> q_now r' = q_now q \<and> q_next_seq r' = q_next_seq q \<and> queue_events r' = queue_events q
    \<and> (\<forall>now n. fires (pop_due now) n r' = fires (pop_due now) n q)"
proof -
  note w = queue_reachable_wf [OF assms(1)]
  obtain r' where r': "queue_restore (q_now q) (q_next_seq q) (queue_events q) r = (r', Inr ())" "queue_wf r'" "live r' = live q"
    "q_now r' = q_now q" "q_next_seq r' = q_next_seq q"
    using restore_spec [OF w queue_reachable_wf [OF assms(2)], of "q_now q"] by blast
  then have e: "queue_events r' = queue_events q" using queue_events_spec [of q] by (intro events_unique) simp_all
  then show ?thesis
    using r' wheel.fires_sorted [OF w queue_events_spec(2,1)] wheel.fires_sorted [OF r'(2) queue_events_spec(2,1)] by auto
qed

end
