(* ===== verification/Sched_Deadline.thy ===== *)
theory Sched_Deadline
  imports Sched_Events
begin

text \<open>
  The next deadline the queue reports, and concrete queues: when the deadline is right,
  and how an event that an upper level of the wheel still holds can be passed over.
\<close>

section \<open>The reported deadline\<close>

lemma first_some_Some: "first_some g xs = Some y \<Longrightarrow> \<exists>x\<in>set xs. g x = Some y"
  by (induction xs) (auto split: option.splits)

lemma first_some_None: "first_some g xs = None \<longleftrightarrow> (\<forall>x\<in>set xs. g x = None)"
  by (induction xs) (auto split: option.splits)

lemma earliest_Some: "earliest c es = Some t \<Longrightarrow> \<exists>e\<in>set es. e_id e \<notin> c \<and> e_time e = t"
proof -
  assume a: "earliest c es = Some t"
  let ?ts = "map e_time (filter (\<lambda>e. e_id e \<notin> c) es)"
  have "?ts \<noteq> []" "t = Min (set ?ts)" using a by (auto simp: earliest_def Let_def split: if_splits)
  then have "t \<in> set ?ts" using Min_in [of "set ?ts"] by (metis List.finite_set set_empty)
  then show ?thesis by auto
qed

lemma bucket_entry: "e \<in> set (bucket q l s) \<Longrightarrow> length (q_near q) = 1024 \<Longrightarrow> l < 4 \<Longrightarrow> s < 256 \<Longrightarrow> e \<in># entries q"
  using nth_mem [of "l * 256 + s" "q_near q"] by (auto simp: entries_def bucket_def)

lemma level_deadline_Some:
  assumes "queue_wf q" "l < 4" "level_deadline q l = Some t"
  shows "\<exists>e\<in>#live q. e_time e = t"
proof -
  obtain step where "earliest (q_cancelled q) (bucket q l ((block_index l (q_now_granule q) + step) mod 256)) = Some t"
    using assms(3) first_some_Some by (fastforce simp: level_deadline_def bucket_def split: if_splits)
  then obtain e where e: "e \<in> set (bucket q l ((block_index l (q_now_granule q) + step) mod 256))" "e_id e \<notin> q_cancelled q" "e_time e = t"
    using earliest_Some by blast
  moreover have "length (q_near q) = 1024" using assms(1) wheel_okD(1) by (auto simp: queue_wf_def)
  ultimately have "e \<in># live q" using bucket_entry [of e q l] assms(2) by (simp add: live_def)
  then show ?thesis using e(3) by blast
qed

lemma level_deadline_None:
  assumes "queue_wf q" "l < 4" "s < 256" "level_deadline q l = None" "e \<in> set (bucket q l s)"
  shows "e_id e \<in> q_cancelled q"
proof (rule ccontr)
  assume n: "e_id e \<notin> q_cancelled q"
  have w: "wheel_ok (\<lambda>_. q_now_granule q) q" using assms(1) by (simp add: queue_wf_def)
  let ?n = "block_index l (q_now_granule q)" and ?b = "block_index l (e_time e div 2 ^ q_granule_shift q)"
  have b: "?n < ?b" "?b < ?n + 256" "s = ?b mod 256" using wheel_okD(3) [OF w assms(2,3,5)] by (simp_all add: in_slot_def Let_def)
  have "length (bucket q l s) \<le> (\<Sum>s<256. length (bucket q l s))" using assms(3) by (intro member_le_sum) auto
  moreover have "0 < length (bucket q l s)" using assms(5) by auto
  ultimately have "q_level_len q ! l \<noteq> 0" unfolding wheel_okD(4) [OF w assms(2)] by linarith
  then have "\<forall>step\<in>set [1..<256]. earliest (q_cancelled q) (bucket q l ((?n + step) mod 256)) = None"
    using assms(4) by (simp add: level_deadline_def first_some_None bucket_def)
  moreover have "?b - ?n \<in> set [1..<256]" using b by auto
  ultimately have "earliest (q_cancelled q) (bucket q l ((?n + (?b - ?n)) mod 256)) = None" by blast
  then have "earliest (q_cancelled q) (bucket q l s) = None" using b by simp
  then show False using n assms(5) by (auto simp: earliest_def Let_def filter_empty_conv split: if_splits)
qed

text \<open>
  The reported deadline never hides work: asking for it loses no event, nothing is
  reported only when nothing is live, and a reported instant is that of a live event or
  not later than any live event.
\<close>

theorem deadline_sound:
  assumes "queue_reachable q"
  shows "queue_events (fst (next_deadline q)) = queue_events q
    \<and> (case snd (next_deadline q) of None \<Rightarrow> queue_events q = []
       | Some t \<Rightarrow> (\<exists>e\<in>set (queue_events q). e_time e = t) \<or> (\<forall>e\<in>set (queue_events q). t \<le> e_time e))"
proof -
  define p where "p = purge_cancelled_due q"
  have p: "queue_wf p" "live p = live q" "\<forall>e\<in>set (take 1 (q_due p)). e_id e \<notin> q_cancelled p"
    using purge_spec [OF queue_reachable_wf [OF assms]] by (simp_all add: p_def)
  have l: "set (queue_events q) = set_mset (live p)" using queue_events_spec(1) [of q] p(2) by (metis set_mset_mset)
  have fst: "queue_events (fst (next_deadline q)) = queue_events q"
    using events_unique [OF p(1), of "queue_events q"] queue_events_spec [of q] p(2) by (simp add: next_deadline_def Let_def p_def)
  have "case snd (next_deadline q) of None \<Rightarrow> live p = {#} | Some t \<Rightarrow> (\<exists>e\<in>#live p. e_time e = t) \<or> (\<forall>e\<in>#live p. t \<le> e_time e)"
  proof (cases "q_due p")
    case (Cons e es)
    then have "e \<in># live p" using p(3) by (simp add: live_def entries_def)
    then show ?thesis using Cons by (auto simp: next_deadline_def Let_def p_def [symmetric])
  next
    case Nil
    show ?thesis
    proof (cases "first_some (level_deadline p) [0..<4]")
      case (Some t)
      then obtain l where "l < 4" "level_deadline p l = Some t" using first_some_Some [of "level_deadline p" "[0..<4]" t] by auto
      from level_deadline_Some [OF p(1) this] show ?thesis using Nil Some by (simp add: next_deadline_def Let_def p_def [symmetric])
    next
      case None
      have "e \<in> set (q_far p)" if e: "e \<in># live p" for e
      proof (rule ccontr)
        assume "e \<notin> set (q_far p)"
        then have "e \<in> set (concat (q_near p))" using e Nil by (auto simp: live_def entries_def)
        then obtain es where "es \<in> set (q_near p)" "e \<in> set es" by auto
        then obtain i where i: "i < 1024" "e \<in> set (q_near p ! i)" using p(1) wheel_okD(1) by (metis in_set_conv_nth queue_wf_def)
        then have "i div 256 < 4" "i mod 256 < 256" "e \<in> set (bucket p (i div 256) (i mod 256))" by (simp_all add: bucket_def)
        moreover have "level_deadline p (i div 256) = None" using None i(1) by (simp add: first_some_None)
        ultimately have "e_id e \<in> q_cancelled p" using level_deadline_None [OF p(1)] by blast
        then show False using e by (simp add: live_def)
      qed
      moreover have "sorted (map event_key (q_far p))" using p(1) wheel_okD(8) by (auto simp: queue_wf_def)
      ultimately show ?thesis using Nil None
        by (cases "q_far p") (fastforce simp: next_deadline_def Let_def p_def [symmetric] event_key_def less_eq_prod_def)+
    qed
  qed
  then have "case snd (next_deadline q) of None \<Rightarrow> queue_events q = []
       | Some t \<Rightarrow> (\<exists>e\<in>set (queue_events q). e_time e = t) \<or> (\<forall>e\<in>set (queue_events q). t \<le> e_time e)"
    using l p(2) queue_events_spec(1) [of q] by (auto split: option.splits)
  with fst show ?thesis by blast
qed

section \<open>A passed-over event\<close>

text \<open>
  At granule 0 an event is posted for granule 256, one block of level 1 ahead. The
  queue advances by two granules, which brings that event within 255 granules but does
  not enter its block, so it stays in level 1. An event for granule 257 then goes to
  level 0.
\<close>

definition early_event :: event where
  "early_event = \<lparr>e_time = 256 * 2 ^ 32, e_id = 0, e_target = 7, e_token = 0\<rparr>"

definition later_event :: event where
  "later_event = \<lparr>e_time = 257 * 2 ^ 32, e_id = 1, e_target = 8, e_token = 0\<rparr>"

definition posted_queue :: event_queue where
  "posted_queue = fst (queue_schedule (256 * 2 ^ 32) 7 0 queue_default)"

definition late_queue :: event_queue where
  "late_queue = fst (queue_schedule (257 * 2 ^ 32) 8 0 (advance_to (2 * 2 ^ 32) posted_queue))"

lemmas queue_eval =
  queue_default_def queue_new_def DEFAULT_GRANULE_SHIFT_def queue_schedule_def push_entry_def placement_def upt_rec block_index_def
  WHEEL_SLOT_BITS_def push_near_def push_due_def Let_def advance_to_def sweep_def drain_slot_def cascade_def

lemma late_queue_eq:
  "late_queue = \<lparr>q_now = 2 * 2 ^ 32, q_now_granule = 2, q_granule_shift = 32,
     q_near = (replicate 1024 [])[257 := [early_event], 1 := [], 2 := [], 1 := [later_event]], q_level_len = (replicate 4 0)[1 := 1, 0 := 1],
     q_far = [], q_due = [], q_cancelled = {}, q_next_seq = 2\<rparr>"
  by (simp add: late_queue_def posted_queue_def queue_eval early_event_def later_event_def) (simp add: numeral_2_eq_2)

lemma late_buckets:
  "s < 256 \<Longrightarrow> bucket late_queue 0 s = (if s = 1 then [later_event] else [])"
  by (simp add: bucket_def late_queue_eq nth_list_update)

lemma late_reachable: "queue_reachable late_queue" "queue_reachable posted_queue"
proof -
  have d: "queue_reachable queue_default" by (simp add: queue_default_def queue_reachable.new)
  have "q_next_seq queue_default = 0" by (simp add: queue_default_def queue_new_def)
  then show p: "queue_reachable posted_queue" unfolding posted_queue_def by (intro queue_reachable.schedule d) simp
  have "q_next_seq (advance_to (2 * 2 ^ 32) posted_queue) = 1"
    by (simp add: posted_queue_def queue_eval)
  then show "queue_reachable late_queue" unfolding late_queue_def by (intro queue_reachable.schedule queue_reachable.advance p) simp
qed

lemma late_events: "queue_events late_queue = [early_event, later_event]"
proof -
  have d: "queue_wf queue_default" "queue_events queue_default = []"
    using queue_new_wf [of DEFAULT_GRANULE_SHIFT] queue_events_spec(1) [of queue_default] by (simp_all add: queue_default_def)
  have n: "q_next_seq queue_default = 0" by (simp add: queue_default_def queue_new_def)
  note w = queue_reachable_wf [OF late_reachable(2)]
  have "queue_events posted_queue = [early_event]" using schedule_events [OF d(1)] d(2) n by (simp add: posted_queue_def early_event_def)
  then have "queue_events (advance_to (2 * 2 ^ 32) posted_queue) = [early_event]" using advance_events [OF w] by simp
  moreover have "q_next_seq (advance_to (2 * 2 ^ 32) posted_queue) = 1" by (simp add: posted_queue_def queue_eval)
  ultimately show ?thesis
    using schedule_events [OF conjunct1 [OF advance_to_wf [OF w]], of "2 * 2 ^ 32"]
    by (simp add: late_queue_def early_event_def later_event_def event_key_def)
qed

lemma first_some_at:
  "g x = Some v \<Longrightarrow> \<forall>y\<in>set xs. g y = None \<Longrightarrow> first_some g (xs @ x # ys) = Some v"
  by (induction xs) simp_all

lemma level_deadline_at:
  assumes "q_level_len q ! l \<noteq> 0" "1 \<le> k" "k < 256"
    and "earliest (q_cancelled q) (bucket q l ((block_index l (q_now_granule q) + k) mod 256)) = Some v"
    and "\<forall>j\<in>{1..<k}. bucket q l ((block_index l (q_now_granule q) + j) mod 256) = []"
  shows "level_deadline q l = Some v"
proof -
  have u: "[1..<256] = [1..<k] @ k # [Suc k..<256]"
    using upt_add_eq_append [of 1 k "256 - k"] assms(2,3) by (simp add: upt_conv_Cons)
  show ?thesis unfolding level_deadline_def wheel_consts u bucket_def [symmetric]
    using assms(1,4,5) by (auto intro!: first_some_at simp: earliest_def)
qed

lemma next_deadline_level0:
  assumes "q_due q = []" "level_deadline q 0 = Some v"
  shows "snd (next_deadline q) = Some v"
proof -
  have "purge_cancelled_due q = q" using assms(1) by (cases q) (simp add: purge_cancelled_due_def)
  then show ?thesis using assms by (simp add: next_deadline_def Let_def upt_conv_Cons)
qed

text \<open>
  C33: The next deadline can be too late: in a queue the operations build, the reported
  deadline is the time of a later event while an earlier live event waits in an upper
  level of the wheel; and a snapshot of that queue restores to one that reports the
  earlier instant, so the rounds after a restore differ from those without one.
\<close>

theorem deadline_late:
  "queue_reachable late_queue \<and> queue_events late_queue = [early_event, later_event]
    \<and> e_time early_event < e_time later_event \<and> snd (next_deadline late_queue) = Some (e_time later_event)
    \<and> snd (next_deadline (fst (queue_restore (q_now late_queue) (q_next_seq late_queue) (queue_events late_queue) queue_default)))
      = Some (e_time early_event)"
proof -
  let ?r = "fst (queue_restore (q_now late_queue) (q_next_seq late_queue) (queue_events late_queue) queue_default)"
  have d: "snd (next_deadline late_queue) = Some (e_time later_event)"
  proof (rule next_deadline_level0 [OF _ level_deadline_at [of _ _ 255]])
    show "\<forall>j\<in>{1..<255}. bucket late_queue 0 ((block_index 0 (q_now_granule late_queue) + j) mod 256) = []"
    proof
      fix j :: nat assume "j \<in> {1..<255}"
      then have "(2 + j) mod 256 \<noteq> 1" by (cases "j = 254") simp_all
      then have "bucket late_queue 0 ((2 + j) mod 256) = []" using late_buckets [of "(2 + j) mod 256"] by simp
      then show "bucket late_queue 0 ((block_index 0 (q_now_granule late_queue) + j) mod 256) = []" by (simp add: late_queue_eq)
    qed
  qed (simp_all add: late_queue_eq bucket_def earliest_def)
  have r: "?r = \<lparr>q_now = 2 * 2 ^ 32, q_now_granule = 2, q_granule_shift = 32,
     q_near = (replicate 1024 [])[0 := [early_event], 1 := [later_event]], q_level_len = (replicate 4 0)[0 := 1, 0 := Suc 1],
     q_far = [], q_due = [], q_cancelled = {}, q_next_seq = 2\<rparr>"
    unfolding late_events unfolding late_queue_eq
    by (simp add: queue_restore_def queue_eval early_event_def later_event_def)
  have "snd (next_deadline ?r) = Some (e_time early_event)"
  proof (rule next_deadline_level0 [OF _ level_deadline_at [of _ _ 254]])
    show "\<forall>j\<in>{1..<254}. bucket ?r 0 ((block_index 0 (q_now_granule ?r) + j) mod 256) = []"
      by (auto simp: r bucket_def nth_list_update)
  qed (simp_all add: r bucket_def earliest_def)
  then show ?thesis using late_reachable(1) late_events d by (simp add: early_event_def later_event_def)
qed

section \<open>The promises at this queue\<close>

theorem queue_refines_list_witness:
  "snd (pop_due (256 * 2 ^ 32) late_queue) = Some early_event
    \<and> queue_events (fst (pop_due (256 * 2 ^ 32) late_queue)) = [later_event]
    \<and> queue_events (queue_cancel 0 late_queue) = [later_event]"
proof -
  have "0 < q_next_seq late_queue" by (simp add: late_queue_eq)
  then show ?thesis using queue_refines_list [OF late_reachable(1), where i = 0 and now = "256 * 2 ^ 32"]
    by (simp add: late_events early_event_def later_event_def)
qed

theorem fires_in_order_witness: "fires (pop_due (300 * 2 ^ 32)) 2 late_queue = [early_event, later_event]"
  using fires_in_order [OF late_reachable(1), of 2 "300 * 2 ^ 32"] by (simp add: late_events early_event_def later_event_def)

theorem queue_restore_fires_same_witness:
  "\<exists>r'. queue_restore (q_now late_queue) (q_next_seq late_queue) (queue_events late_queue) posted_queue = (r', Inr ())
    \<and> queue_events r' = [early_event, later_event]"
  using queue_restore_fires_same [OF late_reachable] by (auto simp: late_events)

theorem deadline_sound_witness: "queue_events (fst (next_deadline late_queue)) = [early_event, later_event]"
  using deadline_sound [OF late_reachable(1)] by (simp add: late_events)

end
