(* ===== verification/Machine_Sched.thy ===== *)
theory Machine_Sched
  imports Sched_Deadline State_Codec
begin

text \<open>
  The scheduler chunk of a machine snapshot (\<open>save_sched\<close> and \<open>load_sched\<close> of
  \<open>machine/machine.rs\<close>, \<open>Scheduler::snapshot\<close> and \<open>Scheduler::restore\<close> of
  \<open>core/sched.rs\<close>): virtual time, the sequence counter, the round-robin cursor and every
  pending event. Of the scheduler the fields a snapshot carries are modelled, and the
  count of registered runnables that a cursor is checked against.
\<close>

section \<open>The snapshot\<close>

record sched_snapshot =
  n_now :: gtime
  n_next_seq :: nat
  n_cursor :: nat
  n_events :: "event list"

record scheduler =
  s_now :: gtime
  s_cursor :: nat
  s_queue :: event_queue
  s_runnables :: nat

definition sched_snapshot_of :: "scheduler \<Rightarrow> sched_snapshot" where
  "sched_snapshot_of s =
     \<lparr>n_now = s_now s, n_next_seq = q_next_seq (s_queue s), n_cursor = s_cursor s, n_events = queue_events (s_queue s)\<rparr>"

definition sched_restore :: "sched_snapshot \<Rightarrow> scheduler \<Rightarrow> scheduler \<times> (sched_error + unit)" where
  "sched_restore n s =
     (if s_runnables s = 0 \<and> n_cursor n \<noteq> 0 \<or> 0 < s_runnables s \<and> s_runnables s \<le> n_cursor n
      then (s, Inl (InvalidSnapshot ''the round-robin cursor does not name a registered runnable''))
      else case queue_restore (n_now n) (n_next_seq n) (n_events n) (s_queue s) of
        (q, Inl e) \<Rightarrow> (s\<lparr>s_queue := q\<rparr>, Inl e)
      | (q, Inr _) \<Rightarrow> (s\<lparr>s_queue := q, s_now := n_now n, s_cursor := n_cursor n\<rparr>, Inr ()))"

section \<open>The chunk\<close>

definition write_u128 :: "u8 list \<Rightarrow> u128 \<Rightarrow> u8 list" where
  "write_u128 = write_int"

definition read_u128 :: "source \<Rightarrow> (u128 \<times> source) snap" where
  "read_u128 = read_int"

definition write_event :: "u8 list \<Rightarrow> event \<Rightarrow> u8 list" where
  "write_event sink e =
     write_u64 (write_u32 (write_u64 (write_u128 sink (word_of_nat (e_time e))) (word_of_nat (e_id e)))
       (word_of_nat (e_target e))) (word_of_nat (e_token e))"

definition save_sched :: "scheduler \<Rightarrow> u8 list \<Rightarrow> u8 list" where
  "save_sched s sink =
     (let n = sched_snapshot_of s;
          sink = write_u128 sink (word_of_nat (n_now n));
          sink = write_u64 sink (word_of_nat (n_next_seq n));
          sink = write_u64 sink (word_of_nat (n_cursor n));
          sink = write_seq_len sink (word_of_nat (length (n_events n)))
      in foldl write_event sink (n_events n))"

definition read_event :: "source \<Rightarrow> (event \<times> source) snap" where
  "read_event src =
     rbind (read_u128 src) (\<lambda>(time, src).
     rbind (read_u64 src) (\<lambda>(i, src).
     rbind (read_u32 src) (\<lambda>(target, src).
     rbind (read_u64 src) (\<lambda>(token, src).
       Inr (\<lparr>e_time = unat time, e_id = unat i, e_target = unat target, e_token = unat token\<rparr>, src)))))"

fun read_events :: "nat \<Rightarrow> source \<Rightarrow> (event list \<times> source) snap" where
  "read_events 0 src = Inr ([], src)"
| "read_events (Suc n) src =
     rbind (read_event src) (\<lambda>(e, src). rbind (read_events n src) (\<lambda>(es, src). Inr (e # es, src)))"

text \<open>A cursor is a \<open>usize\<close>; on a host with 64-bit pointers every \<open>u64\<close> is one.\<close>

definition read_snapshot :: "source \<Rightarrow> (sched_snapshot \<times> source) snap" where
  "read_snapshot src =
     rbind (read_u128 src) (\<lambda>(now, src).
     rbind (read_u64 src) (\<lambda>(next_seq, src).
     rbind (read_u64 src) (\<lambda>(cursor, src).
     rbind (read_seq_len src 36) (\<lambda>(count, src).
     rbind (read_events (unat count) src) (\<lambda>(es, src).
       Inr (\<lparr>n_now = unat now, n_next_seq = unat next_seq, n_cursor = unat cursor, n_events = es\<rparr>, src))))))"

datatype sched_load_error = SchedCodec "snap_msg error" | SchedRefused sched_error

definition load_sched :: "source \<Rightarrow> scheduler \<Rightarrow> scheduler \<times> (sched_load_error + source)" where
  "load_sched src s =
     (case read_snapshot src of
        Inl e \<Rightarrow> (s, Inl (SchedCodec e))
      | Inr (n, src) \<Rightarrow>
          (case sched_restore n s of
             (s, Inl e) \<Rightarrow> (s, Inl (SchedRefused e))
           | (s, Inr _) \<Rightarrow> (s, Inr src)))"

section \<open>The bytes and back\<close>

interpretation u128_codec: codec "to_le_bytes :: u128 \<Rightarrow> _" read_u128 "\<lambda>_. True"
  by unfold_locales (auto simp: read_u128_def read_int_enc dest: read_int_dec)

definition event_bytes :: "event \<Rightarrow> u8 list" where
  "event_bytes e = to_le_bytes (word_of_nat (e_time e) :: u128) @ to_le_bytes (word_of_nat (e_id e) :: u64)
     @ to_le_bytes (word_of_nat (e_target e) :: u32) @ to_le_bytes (word_of_nat (e_token e) :: u64)"

definition event_fits :: "event \<Rightarrow> bool" where
  "event_fits e \<longleftrightarrow> e_time e < 2 ^ 128 \<and> e_id e < 2 ^ 64 \<and> e_target e < 2 ^ 32 \<and> e_token e < 2 ^ 64"

lemma unat_of_nat_fits:
  "v < 2 ^ 128 \<Longrightarrow> unat (word_of_nat v :: u128) = v" "w < 2 ^ 64 \<Longrightarrow> unat (word_of_nat w :: u64) = w" "x < 2 ^ 32 \<Longrightarrow> unat (word_of_nat x :: u32) = x"
  by (simp_all add: unsigned_of_nat take_bit_nat_eq_self)

lemma length_event_bytes [simp]: "length (event_bytes e) = 36"
  by (simp add: event_bytes_def)

lemma length_events_bytes [simp]: "length (enc_list event_bytes es) = 36 * length es"
  by (induction es) simp_all

lemma write_u128_enc: "write_u128 sink v = sink @ to_le_bytes v"
  by (simp add: write_u128_def write_int_def write_all_def)

lemma write_event_enc: "foldl write_event sink es = sink @ enc_list event_bytes es"
  by (induction es arbitrary: sink) (simp_all add: write_event_def event_bytes_def write_u128_enc codec_simps)

text \<open>Reading one integer and going on with the rest of the input.\<close>

lemma read_step:
  assumes "codec enc rd (\<lambda>_. True)" "source_wf src" "unread src = enc v @ r"
  shows "\<exists>src'. rd src = Inr (v, src') \<and> source_wf src' \<and> unread src' = r"
  using codec.dec_enc [OF assms(1,2) TrueI assms(3)] source_wf_advance [OF assms(2,3)] unread_advance [OF assms(3)] by blast

lemmas read_u128_step = read_step [OF u128_codec.codec_axioms] and read_u64_step = read_step [OF u64_codec.codec_axioms]
  and read_u32_step = read_step [OF u32_codec.codec_axioms]

lemma read_event_enc:
  assumes "source_wf src" "unread src = event_bytes e @ r" "event_fits e"
  shows "\<exists>src'. read_event src = Inr (e, src') \<and> source_wf src' \<and> unread src' = r"
proof -
  note u = assms(2) [unfolded event_bytes_def append_assoc]
  obtain s1 where s1: "read_u128 src = Inr (word_of_nat (e_time e), s1)" "source_wf s1"
    "unread s1 = to_le_bytes (word_of_nat (e_id e) :: u64) @ to_le_bytes (word_of_nat (e_target e) :: u32) @ to_le_bytes (word_of_nat (e_token e) :: u64) @ r"
    using read_u128_step [OF assms(1) u] by blast
  obtain s2 where s2: "read_u64 s1 = Inr (word_of_nat (e_id e), s2)" "source_wf s2"
    "unread s2 = to_le_bytes (word_of_nat (e_target e) :: u32) @ to_le_bytes (word_of_nat (e_token e) :: u64) @ r"
    using read_u64_step [OF s1(2,3)] by blast
  obtain s3 where s3: "read_u32 s2 = Inr (word_of_nat (e_target e), s3)" "source_wf s3" "unread s3 = to_le_bytes (word_of_nat (e_token e) :: u64) @ r"
    using read_u32_step [OF s2(2,3)] by blast
  obtain s4 where s4: "read_u64 s3 = Inr (word_of_nat (e_token e), s4)" "source_wf s4" "unread s4 = r" using read_u64_step [OF s3(2,3)] by blast
  show ?thesis using s1(1) s2(1) s3(1) s4 assms(3) by (simp add: read_event_def event_fits_def unat_of_nat_fits)
qed

lemma read_events_enc:
  assumes "source_wf src" "unread src = enc_list event_bytes es @ r" "\<forall>e\<in>set es. event_fits e"
  shows "\<exists>src'. read_events (length es) src = Inr (es, src') \<and> source_wf src' \<and> unread src' = r"
  using assms
proof (induction es arbitrary: src)
  case (Cons e es)
  have "unread src = event_bytes e @ enc_list event_bytes es @ r" using Cons.prems(2) by simp
  from read_event_enc [OF Cons.prems(1) this] Cons.prems(3) obtain s1 where
    s1: "read_event src = Inr (e, s1)" "source_wf s1" "unread s1 = enc_list event_bytes es @ r" by auto
  from Cons.IH [OF s1(2,3)] Cons.prems(3) s1(1) show ?case by auto
qed simp

definition snapshot_fits :: "sched_snapshot \<Rightarrow> bool" where
  "snapshot_fits n \<longleftrightarrow> n_now n < 2 ^ 128 \<and> n_next_seq n < 2 ^ 64 \<and> n_cursor n < 2 ^ 64
     \<and> (\<forall>e\<in>set (n_events n). event_fits e) \<and> 36 * length (n_events n) + 40 \<le> usize_max"

lemma read_saved_snapshot:
  assumes "snapshot_fits (sched_snapshot_of s)"
  shows "\<exists>src. read_snapshot (slice_new (save_sched s [])) = Inr (sched_snapshot_of s, src) \<and> remaining src = 0"
proof -
  let ?n = "sched_snapshot_of s" and ?b = "save_sched s []"
  let ?es = "enc_list event_bytes (n_events ?n)"
  have fits: "n_now ?n < 2 ^ 128" "n_next_seq ?n < 2 ^ 64" "n_cursor ?n < 2 ^ 64" "\<forall>e\<in>set (n_events ?n). event_fits e"
    "36 * length (n_events ?n) + 40 \<le> usize_max" using assms by (simp_all add: snapshot_fits_def)
  have b: "?b = to_le_bytes (word_of_nat (n_now ?n) :: u128) @ to_le_bytes (word_of_nat (n_next_seq ?n) :: u64)
      @ to_le_bytes (word_of_nat (n_cursor ?n) :: u64) @ to_le_bytes (word_of_nat (length (n_events ?n)) :: u64) @ ?es"
    by (simp add: save_sched_def Let_def write_u128_enc write_event_enc codec_simps)
  have w: "source_wf (slice_new ?b)" "unread (slice_new ?b) = ?b" using fits(5) by (simp_all add: slice_new_def source_wf_def unread_def b)
  obtain s1 where s1: "read_u128 (slice_new ?b) = Inr (word_of_nat (n_now ?n), s1)" "source_wf s1"
    "unread s1 = to_le_bytes (word_of_nat (n_next_seq ?n) :: u64) @ to_le_bytes (word_of_nat (n_cursor ?n) :: u64)
      @ to_le_bytes (word_of_nat (length (n_events ?n)) :: u64) @ ?es"
    using read_u128_step [OF w(1), of "word_of_nat (n_now ?n)"] w(2) b by auto
  obtain s2 where s2: "read_u64 s1 = Inr (word_of_nat (n_next_seq ?n), s2)" "source_wf s2"
    "unread s2 = to_le_bytes (word_of_nat (n_cursor ?n) :: u64) @ to_le_bytes (word_of_nat (length (n_events ?n)) :: u64) @ ?es"
    using read_u64_step [OF s1(2,3)] by blast
  obtain s3 where s3: "read_u64 s2 = Inr (word_of_nat (n_cursor ?n), s3)" "source_wf s3"
    "unread s3 = to_le_bytes (word_of_nat (length (n_events ?n)) :: u64) @ ?es"
    using read_u64_step [OF s2(2,3)] by blast
  have c: "unat (word_of_nat (length (n_events ?n)) :: u64) = length (n_events ?n)" using fits(5) by (intro unat_of_nat_fits) (simp add: usize_max_def)
  have "read_seq_len s3 36 = Inr (word_of_nat (length (n_events ?n)), advance s3 8)"
    by (rule read_seq_len_enc [OF s3(2,3)]) (simp add: c)
  moreover have "source_wf (advance s3 8)" "unread (advance s3 8) = ?es @ []"
    using source_wf_advance [OF s3(2,3)] unread_advance [OF s3(3)] by simp_all
  moreover obtain s4 where "read_events (length (n_events ?n)) (advance s3 8) = Inr (n_events ?n, s4)" "unread s4 = []"
    using read_events_enc [OF calculation(2,3) fits(4)] by blast
  ultimately show ?thesis using s1(1) s2(1) s3(1) c fits
    by (simp add: read_snapshot_def unat_of_nat_fits remaining_unread)
qed

text \<open>
  C35: The scheduler chunk of a snapshot restores the schedule: loading what was saved
  into a scheduler with as many runnables succeeds and consumes the chunk, virtual
  time, the cursor and the sequence counter are back, and the pending events fire at the
  same instants in the same order.
\<close>

theorem sched_roundtrip:
  assumes "queue_reachable (s_queue s)" "queue_reachable (s_queue r)"
    and "snapshot_fits (sched_snapshot_of s)" "s_runnables r = s_runnables s" "s_cursor s < max 1 (s_runnables s)"
  shows "\<exists>r' src. load_sched (slice_new (save_sched s [])) r = (r', Inr src) \<and> remaining src = 0
    \<and> s_now r' = s_now s \<and> s_cursor r' = s_cursor s \<and> q_next_seq (s_queue r') = q_next_seq (s_queue s)
    \<and> queue_events (s_queue r') = queue_events (s_queue s)
    \<and> (\<forall>now n. fires (pop_due now) n (s_queue r') = fires (pop_due now) n (s_queue s))"
proof -
  let ?q = "s_queue s"
  note w = queue_reachable_wf [OF assms(1)]
  obtain src where d: "read_snapshot (slice_new (save_sched s [])) = Inr (sched_snapshot_of s, src)" "remaining src = 0"
    using read_saved_snapshot [OF assms(3)] by blast
  obtain q' where q': "queue_restore (s_now s) (q_next_seq ?q) (queue_events ?q) (s_queue r) = (q', Inr ())" "queue_wf q'" "live q' = live ?q"
    "q_next_seq q' = q_next_seq ?q"
    using restore_spec [OF w queue_reachable_wf [OF assms(2)], of "s_now s"] by blast
  have e: "queue_events q' = queue_events ?q" using q'(2,3) queue_events_spec [of ?q] by (intro events_unique) simp_all
  have f: "fires (pop_due now) n q' = fires (pop_due now) n ?q" for now n
    using wheel.fires_sorted [OF w queue_events_spec(2,1)] wheel.fires_sorted [OF q'(2) queue_events_spec(2,1)] e by simp
  have "\<not> (s_runnables r = 0 \<and> s_cursor s \<noteq> 0 \<or> 0 < s_runnables r \<and> s_runnables r \<le> s_cursor s)" using assms(4,5) by auto
  then have "load_sched (slice_new (save_sched s [])) r = (r\<lparr>s_queue := q', s_now := s_now s, s_cursor := s_cursor s\<rparr>, Inr src)"
    using d q'(1) by (simp add: load_sched_def sched_restore_def sched_snapshot_of_def)
  then show ?thesis using d(2) q'(4) e f by simp
qed

definition late_sched :: scheduler where
  "late_sched = \<lparr>s_now = 2 * 2 ^ 32, s_cursor = 1, s_queue = late_queue, s_runnables = 2\<rparr>"

definition idle_sched :: scheduler where
  "idle_sched = \<lparr>s_now = 0, s_cursor = 0, s_queue = queue_default, s_runnables = 2\<rparr>"

theorem sched_roundtrip_witness:
  "\<exists>r' src. load_sched (slice_new (save_sched late_sched [])) idle_sched = (r', Inr src) \<and> s_cursor r' = 1
    \<and> queue_events (s_queue r') = [early_event, later_event]"
proof -
  have "queue_reachable (s_queue late_sched)" "queue_reachable (s_queue idle_sched)"
    using late_reachable queue_reachable.new by (simp_all add: late_sched_def idle_sched_def queue_default_def)
  moreover have "snapshot_fits (sched_snapshot_of late_sched)"
    by (simp add: snapshot_fits_def sched_snapshot_of_def late_sched_def late_events event_fits_def early_event_def later_event_def usize_max_def)
      (simp add: late_queue_eq)
  moreover have "s_runnables idle_sched = s_runnables late_sched" "s_cursor late_sched < max 1 (s_runnables late_sched)"
    by (simp_all add: late_sched_def idle_sched_def)
  ultimately show ?thesis using sched_roundtrip [of late_sched idle_sched] by (auto simp: late_sched_def late_events)
qed

end
