(* ===== verification/Bit_Walk.thy ===== *)
theory Bit_Walk
  imports Rsemu_Prelude
begin

text \<open>
  Words used as sets of small numbers: testing and setting one bit, and the
  walk over the set bits that the exclusive monitor and the dirty bitmap share.
\<close>

section \<open>The walk\<close>

text \<open>The set bits of a word, lowest first: \<open>trailing_zeros\<close> and \<open>set &= set - 1\<close>.\<close>

definition low_bit :: "u64 \<Rightarrow> nat" where
  "low_bit v = length (takeWhile (\<lambda>i. \<not> bit v i) [0..<64])"

function set_bits_of :: "u64 \<Rightarrow> nat list" where
  "set_bits_of v = (if v = 0 then [] else low_bit v # set_bits_of (v AND (v - 1)))"
  by pat_completeness auto
termination
proof (relation "measure unat")
  fix v :: u64 assume "v \<noteq> 0"
  have "v AND (v - 1) \<le> v - 1" by (rule word_and_le1)
  also have "v - 1 < v" using \<open>v \<noteq> 0\<close> by (simp add: word_less_nat_alt measure_unat)
  finally show "(v AND (v - 1), v) \<in> measure unat" by (simp add: word_less_nat_alt)
qed simp

declare set_bits_of.simps [simp del]

lemma bit_test: "(v :: u64) AND 2 ^ n = 0 \<longleftrightarrow> \<not> bit v n"
  by (rule and_exp_eq_0_iff_not_bit)

lemma bit_one_at: "n < 64 \<Longrightarrow> bit (2 ^ n :: u64) k \<longleftrightarrow> k = n"
  by (auto simp: bit_exp_iff)

section \<open>What the walk visits\<close>

lemma unat_power_lower64: "t < 64 \<Longrightarrow> unat (2 ^ t :: u64) = 2 ^ t"
proof -
  assume "t < 64"
  have "unat (of_nat (2 ^ t) :: u64) = take_bit 64 (2 ^ t)"
    by (simp only: unsigned_of_nat len_of_numeral_defs len_num1) simp
  also have "\<dots> = 2 ^ t" using \<open>t < 64\<close> by (intro take_bit_nat_eq_self power_strict_increasing) simp_all
  finally show ?thesis by simp
qed

lemma low_bit_spec:
  assumes "v \<noteq> 0"
  shows "low_bit v < 64" "bit v (low_bit v)" "j < low_bit v \<Longrightarrow> \<not> bit v j"
proof -
  have "\<exists>n. bit v n"
  proof (rule ccontr)
    assume "\<nexists>n. bit v n"
    then have "v = 0" by (intro bit_eqI) simp
    then show False using assms by simp
  qed
  then obtain n where n: "bit v n" "n < 64" using bit_imp_le_length [of v] by auto
  show lt: "low_bit v < 64"
  proof (rule ccontr)
    assume "\<not> low_bit v < 64"
    then have "length (takeWhile (\<lambda>i. \<not> bit v i) [0..<64]) = length [0..<64::nat]"
      using length_takeWhile_le [of "\<lambda>i. \<not> bit v i" "[0..<64]"] by (simp add: low_bit_def)
    then have "\<forall>i\<in>set [0..<64]. \<not> bit v i" by (metis takeWhile_eq_all_conv takeWhile_eq_take take_all_iff order_refl)
    then show False using n by simp
  qed
  show "bit v (low_bit v)"
    using nth_length_takeWhile [of "\<lambda>i. \<not> bit v i" "[0..<64]"] lt by (simp add: low_bit_def)
  show "\<not> bit v j" if "j < low_bit v"
    using that nth_mem [of j "takeWhile (\<lambda>i. \<not> bit v i) [0..<64]"] lt
    by (auto simp: low_bit_def takeWhile_nth dest!: set_takeWhileD)
qed

lemma bit_clear_lowest:
  assumes "v \<noteq> (0 :: u64)"
  shows "bit (v AND (v - 1)) n \<longleftrightarrow> bit v n \<and> n \<noteq> low_bit v"
proof -
  define t where "t = low_bit v"
  note t = low_bit_spec [OF assms, folded t_def]
  define x where "x = unat v"
  have "take_bit (Suc t) v = 2 ^ t"
  proof (rule bit_eqI)
    fix n
    show "bit (take_bit (Suc t) v) n \<longleftrightarrow> bit (2 ^ t :: u64) n"
      using t(1,2) t(3) [of n] by (auto simp: bit_take_bit_iff bit_exp_iff less_Suc_eq)
  qed
  moreover have "unat (2 ^ t :: u64) = 2 ^ t" using t(1) by (rule unat_power_lower64)
  ultimately have "unat (take_bit (Suc t) v) = 2 ^ t" by simp
  then have "take_bit (Suc t) x = 2 ^ t" by (simp only: x_def unsigned_take_bit_eq)
  then have mod: "x mod 2 ^ Suc t = 2 ^ t" by (simp only: take_bit_eq_mod)
  define q where "q = x div 2 ^ Suc t"
  have x: "x = 2 ^ Suc t * q + 2 ^ t" using mod by (metis mult_div_mod_eq q_def)
  have pred: "unat (v - 1) = x - 1" using assms by (simp add: x_def unat_minus_one)
  have bitn: "bit w n = odd (unat w div 2 ^ n)" for w :: u64 and n
    by (metis bit_iff_odd bit_unsigned_iff possible_bit_nat)
  have bitv: "bit v n = odd (x div 2 ^ n)" "bit (v - 1) n = odd ((x - 1) div 2 ^ n)" for n
    using pred by (simp_all only: x_def bitn)
  have x1: "x - 1 = 2 ^ Suc t * q + (2 ^ t - 1)" using x by simp
  consider "n < t" | "n = t" | m where "n = Suc t + m"
    by (metis less_iff_Suc_add linorder_neqE_nat add_Suc)
  then show ?thesis
  proof cases
    case 1
    then show ?thesis using t(3) by (simp add: bit_and_iff)
  next
    case 2
    have "x - 1 = 2 * q * 2 ^ t + (2 ^ t - 1)" using x1 by (simp add: ac_simps)
    moreover have "(2 * q * 2 ^ t + (2 ^ t - 1)) div 2 ^ t = 2 * q + (2 ^ t - 1) div 2 ^ t"
      by (rule div_mult_self3) simp
    ultimately have "(x - 1) div 2 ^ t = 2 * q" by simp
    then show ?thesis using 2 by (simp add: bit_and_iff bitv t_def)
  next
    case (3 m)
    have tail: "y div 2 ^ n = y div 2 ^ Suc t div 2 ^ m" for y :: nat
      unfolding 3 power_add by (simp only: div_mult2_eq)
    have "(q * 2 ^ Suc t + (2 ^ t - 1)) div 2 ^ Suc t = q + (2 ^ t - 1) div 2 ^ Suc t"
      by (rule div_mult_self3) simp
    moreover have "(2 ^ t - 1) div 2 ^ Suc t = (0 :: nat)"
    proof (rule div_less)
      have "0 < (2 :: nat) ^ t" by simp
      then show "2 ^ t - 1 < (2 :: nat) ^ Suc t" unfolding power_Suc by linarith
    qed
    ultimately have "(x - 1) div 2 ^ Suc t = q" using x1 by (simp add: mult.commute)
    then have "(x - 1) div 2 ^ n = x div 2 ^ n" by (simp only: tail q_def)
    then show ?thesis using 3 by (simp add: bit_and_iff bitv t_def)
  qed
qed

lemma set_bits_of_spec: "set (set_bits_of v) = {n. bit v n}"
proof (induction v rule: set_bits_of.induct)
  case (1 v)
  show ?case
  proof (cases "v = 0")
    case False
    then show ?thesis
      using 1 [OF False] bit_clear_lowest [OF False] low_bit_spec(2) [OF False]
      by (subst set_bits_of.simps) auto
  qed (simp add: set_bits_of.simps)
qed

end
