(* ===== verification/Space_Monitor.thy ===== *)
theory Space_Monitor
  imports Bit_Walk
begin

text \<open>
  \<open>core/space/monitor.rs\<close>: the exclusive monitor every core of an address
  space shares. It is made of atomics and takes no lock, so an operation is a
  program of atomic actions with continuations and what other cores do in
  between is part of the model; the memory is sequentially consistent. Slots
  are handed out by \<open>register\<close>, modelled with the exchange that succeeds.
\<close>

section \<open>State\<close>

definition MONITOR_SLOTS :: nat where "MONITOR_SLOTS = 256"
definition WORDS :: nat where "WORDS = MONITOR_SLOTS div 64"
definition MIN_GRANULE_SHIFT :: nat where "MIN_GRANULE_SHIFT = 3"
definition MAX_GRANULE_SHIFT :: nat where "MAX_GRANULE_SHIFT = 10"

record monitor_id =
  mi_slot :: nat
  mi_shift :: nat

definition id_granule :: "monitor_id \<Rightarrow> u64" where
  "id_granule i = push_bit (mi_shift i) 1"

record exclusive_monitor =
  mo_outstanding :: u64
  mo_live :: "u64 list"
  mo_claimed :: "u64 list"
  mo_slots :: "u64 list"

definition monitor_new :: exclusive_monitor where
  "monitor_new = \<lparr>mo_outstanding = 0, mo_live = replicate WORDS 0, mo_claimed = replicate WORDS 0,
     mo_slots = replicate MONITOR_SLOTS 0\<rparr>"

definition split_slot :: "nat \<Rightarrow> nat \<times> u64" where
  "split_slot slot = (slot div 64, push_bit (slot mod 64) 1)"

section \<open>Atomic actions\<close>

text \<open>
  An action on the shared words and what the thread does with the value it
  returns; an action that answers with the old value is a read-modify-write.
\<close>

datatype prog =
    Ret bool
  | LoadOut "u64 \<Rightarrow> prog"
  | AddOut u64 prog
  | LoadLive nat "u64 \<Rightarrow> prog"
  | AndLive nat u64 "u64 \<Rightarrow> prog"
  | OrLive nat u64 "u64 \<Rightarrow> prog"
  | LoadSlot nat "u64 \<Rightarrow> prog"
  | StoreSlot nat u64 prog
  | AndClaimed nat u64 prog

primrec act :: "prog \<Rightarrow> exclusive_monitor \<Rightarrow> prog \<times> exclusive_monitor" where
  "act (Ret b) m = (Ret b, m)"
| "act (LoadOut f) m = (f (mo_outstanding m), m)"
| "act (AddOut d p) m = (p, m\<lparr>mo_outstanding := mo_outstanding m + d\<rparr>)"
| "act (LoadLive w f) m = (f (mo_live m ! w), m)"
| "act (AndLive w v f) m = (f (mo_live m ! w), m\<lparr>mo_live := (mo_live m)[w := mo_live m ! w AND v]\<rparr>)"
| "act (OrLive w v f) m = (f (mo_live m ! w), m\<lparr>mo_live := (mo_live m)[w := mo_live m ! w OR v]\<rparr>)"
| "act (LoadSlot i f) m = (f (mo_slots m ! i), m)"
| "act (StoreSlot i v p) m = (p, m\<lparr>mo_slots := (mo_slots m)[i := v]\<rparr>)"
| "act (AndClaimed w v p) m = (p, m\<lparr>mo_claimed := (mo_claimed m)[w := mo_claimed m ! w AND v]\<rparr>)"

text \<open>A program that runs alone.\<close>

primrec run_prog :: "prog \<Rightarrow> exclusive_monitor \<Rightarrow> bool \<times> exclusive_monitor" where
  "run_prog (Ret b) = (\<lambda>m. (b, m))"
| "run_prog (LoadOut f) = (\<lambda>m. run_prog (f (mo_outstanding m)) m)"
| "run_prog (AddOut d p) = (\<lambda>m. run_prog p (m\<lparr>mo_outstanding := mo_outstanding m + d\<rparr>))"
| "run_prog (LoadLive w f) = (\<lambda>m. run_prog (f (mo_live m ! w)) m)"
| "run_prog (AndLive w v f) =
     (\<lambda>m. run_prog (f (mo_live m ! w)) (m\<lparr>mo_live := (mo_live m)[w := mo_live m ! w AND v]\<rparr>))"
| "run_prog (OrLive w v f) =
     (\<lambda>m. run_prog (f (mo_live m ! w)) (m\<lparr>mo_live := (mo_live m)[w := mo_live m ! w OR v]\<rparr>))"
| "run_prog (LoadSlot i f) = (\<lambda>m. run_prog (f (mo_slots m ! i)) m)"
| "run_prog (StoreSlot i v p) = (\<lambda>m. run_prog p (m\<lparr>mo_slots := (mo_slots m)[i := v]\<rparr>))"
| "run_prog (AndClaimed w v p) =
     (\<lambda>m. run_prog p (m\<lparr>mo_claimed := (mo_claimed m)[w := mo_claimed m ! w AND v]\<rparr>))"

section \<open>The operations\<close>

definition clear_slot_then :: "monitor_id \<Rightarrow> prog \<Rightarrow> prog" where
  "clear_slot_then i k =
     (let (w, b) = split_slot (mi_slot i)
      in AndLive w (NOT b) (\<lambda>old. if old AND b \<noteq> 0 then AddOut (- 1) k else k))"

definition monitor_release :: "monitor_id \<Rightarrow> prog \<Rightarrow> prog" where
  "monitor_release i k =
     clear_slot_then i (let (w, b) = split_slot (mi_slot i) in AndClaimed w (NOT b) k)"

definition pack_granule :: "monitor_id \<Rightarrow> u64 \<Rightarrow> u64" where
  "pack_granule i addr =
     (let shift_mask = push_bit (mi_shift i) 1 - 1; code = of_nat (mi_shift i - MIN_GRANULE_SHIFT)
      in addr AND (NOT shift_mask) OR code)"

definition monitor_reserve :: "monitor_id \<Rightarrow> u64 \<Rightarrow> prog \<Rightarrow> prog" where
  "monitor_reserve i addr k =
     (let (w, b) = split_slot (mi_slot i)
      in clear_slot_then i
           (StoreSlot (mi_slot i) (pack_granule i addr)
             (OrLive w b (\<lambda>old. if old AND b = 0 then AddOut 1 k else k))))"

definition monitor_holds :: "monitor_id \<Rightarrow> (bool \<Rightarrow> prog) \<Rightarrow> prog" where
  "monitor_holds i k =
     (let (w, b) = split_slot (mi_slot i) in LoadLive w (\<lambda>v. k (v AND b \<noteq> 0)))"

definition saturating_add :: "u64 \<Rightarrow> u64 \<Rightarrow> u64" where
  "saturating_add a b = (if unat a + unat b < 2 ^ 64 then a + b else - 1)"

definition unpack_granule :: "u64 \<Rightarrow> nat \<times> u64" where
  "unpack_granule packed =
     (let shift = unat (packed AND 7) + MIN_GRANULE_SHIFT
      in (shift, packed AND (NOT (push_bit shift 1 - 1))))"

definition granule_covers :: "u64 \<Rightarrow> u64 \<Rightarrow> u64 \<Rightarrow> bool" where
  "granule_covers packed addr bytes =
     (let stop = saturating_add addr bytes;
          (shift, base) = unpack_granule packed;
          granule_end = saturating_add base (push_bit shift 1)
      in addr < granule_end \<and> base < stop)"

fun break_bits :: "u64 \<Rightarrow> u64 \<Rightarrow> nat \<Rightarrow> nat list \<Rightarrow> prog \<Rightarrow> prog" where
  "break_bits addr bytes w [] k = k"
| "break_bits addr bytes w (b # bs) k =
     LoadSlot (w * 64 + b) (\<lambda>packed.
       if granule_covers packed addr bytes
       then clear_slot_then \<lparr>mi_slot = w * 64 + b, mi_shift = fst (unpack_granule packed)\<rparr>
              (break_bits addr bytes w bs k)
       else break_bits addr bytes w bs k)"

fun break_words :: "u64 \<Rightarrow> u64 \<Rightarrow> nat list \<Rightarrow> prog \<Rightarrow> prog" where
  "break_words addr bytes [] k = k"
| "break_words addr bytes (w # ws) k =
     LoadLive w (\<lambda>live. break_bits addr bytes w (set_bits_of live) (break_words addr bytes ws k))"

definition break_covering :: "u64 \<Rightarrow> u64 \<Rightarrow> prog \<Rightarrow> prog" where
  "break_covering addr bytes k = break_words addr bytes [0..<WORDS] k"

definition note_store :: "u64 \<Rightarrow> u64 \<Rightarrow> prog \<Rightarrow> prog" where
  "note_store addr bytes k = LoadOut (\<lambda>n. if n = 0 then k else break_covering addr bytes k)"

text \<open>
  \<open>register\<close> finds the lowest free slot, claims it and clears it. \<open>None\<close> at the
  outer level is the assertion on the shift.
\<close>

definition free_slot :: "u64 list \<Rightarrow> nat option" where
  "free_slot claimed =
     find (\<lambda>s. \<not> bit (claimed ! (s div 64)) (s mod 64)) [0..<64 * length claimed]"

definition monitor_register :: "nat \<Rightarrow> exclusive_monitor \<Rightarrow> (monitor_id option \<times> exclusive_monitor) option" where
  "monitor_register shift m =
     (if MIN_GRANULE_SHIFT \<le> shift \<and> shift \<le> MAX_GRANULE_SHIFT
      then Some (case free_slot (mo_claimed m) of
             None \<Rightarrow> (None, m)
           | Some s \<Rightarrow>
               let i = \<lparr>mi_slot = s, mi_shift = shift\<rparr>;
                   (w, b) = split_slot s;
                   m' = m\<lparr>mo_claimed := (mo_claimed m)[w := mo_claimed m ! w OR b]\<rparr>
               in (Some i, snd (run_prog (clear_slot_then i (Ret True)) m')))
      else None)"

section \<open>What a slot holds\<close>

definition slot_live :: "exclusive_monitor \<Rightarrow> nat \<Rightarrow> bool" where
  "slot_live m s \<longleftrightarrow> bit (mo_live m ! (s div 64)) (s mod 64)"

definition live_slots :: "exclusive_monitor \<Rightarrow> nat set" where
  "live_slots m = {s. s < MONITOR_SLOTS \<and> slot_live m s}"

definition monitor_wf :: "exclusive_monitor \<Rightarrow> bool" where
  "monitor_wf m \<longleftrightarrow> length (mo_live m) = WORDS \<and> length (mo_claimed m) = WORDS \<and> length (mo_slots m) = MONITOR_SLOTS"

lemma words_value [simp]: "WORDS = 4" and slots_value [simp]: "MONITOR_SLOTS = 256"
  by (simp_all add: WORDS_def MONITOR_SLOTS_def)

lemma slot_word: "s < 256 \<Longrightarrow> s div 64 < 4" "s mod 64 < 64" for s :: nat
  by simp_all

lemma slot_eq: "w * 64 + b = s \<longleftrightarrow> w = s div 64 \<and> b = s mod 64" if "b < 64" for s w b :: nat
  using that by auto

lemma slot_live_outstanding [simp]: "slot_live (m\<lparr>mo_outstanding := n\<rparr>) = slot_live m"
  by (simp add: slot_live_def fun_eq_iff)

lemma finite_live [simp]: "finite (live_slots m)"
  by (simp add: live_slots_def)

lemma live_and:
  assumes "monitor_wf m" "w < WORDS" "b < 64" "s < MONITOR_SLOTS"
  shows "slot_live (m\<lparr>mo_live := (mo_live m)[w := mo_live m ! w AND (NOT (push_bit b 1))]\<rparr>) s
           \<longleftrightarrow> slot_live m s \<and> s \<noteq> w * 64 + b"
  using assms slot_eq [OF assms(3), of w s] slot_word [of s]
  by (auto simp: slot_live_def monitor_wf_def nth_list_update bit_and_iff bit_not_iff bit_one_at)

lemma live_or:
  assumes "monitor_wf m" "w < WORDS" "b < 64" "s < MONITOR_SLOTS"
  shows "slot_live (m\<lparr>mo_live := (mo_live m)[w := mo_live m ! w OR push_bit b 1]\<rparr>) s
           \<longleftrightarrow> slot_live m s \<or> s = w * 64 + b"
  using assms slot_eq [OF assms(3), of w s] slot_word [of s]
  by (auto simp: slot_live_def monitor_wf_def nth_list_update bit_or_iff bit_one_at)

section \<open>An operation that runs alone\<close>

definition clear_slot_mem :: "nat \<Rightarrow> exclusive_monitor \<Rightarrow> exclusive_monitor" where
  "clear_slot_mem s m =
     m\<lparr>mo_live := (mo_live m)[s div 64 := mo_live m ! (s div 64) AND (NOT (push_bit (s mod 64) 1))]\<rparr>
      \<lparr>mo_outstanding := mo_outstanding m + (if slot_live m s then - 1 else 0)\<rparr>"

lemma run_clear [simp]: "run_prog (clear_slot_then i k) m = run_prog k (clear_slot_mem (mi_slot i) m)"
  by (simp add: clear_slot_then_def split_slot_def bit_test clear_slot_mem_def slot_live_def)

lemma clear_slot_slots [simp]: "mo_slots (clear_slot_mem s m) = mo_slots m" "mo_claimed (clear_slot_mem s m) = mo_claimed m"
  by (simp_all add: clear_slot_mem_def)

text \<open>The count is exact when no operation is under way.\<close>

definition exact :: "exclusive_monitor \<Rightarrow> bool" where
  "exact m \<longleftrightarrow> monitor_wf m \<and> mo_outstanding m = of_nat (card (live_slots m))"

lemma live_slots_clear:
  assumes "monitor_wf m" "s < MONITOR_SLOTS"
  shows "live_slots (clear_slot_mem s m) = live_slots m - {s}" "monitor_wf (clear_slot_mem s m)"
proof -
  have "s div 64 < WORDS" using assms by simp
  moreover have "s div 64 * 64 + s mod 64 = s" by simp
  ultimately show "live_slots (clear_slot_mem s m) = live_slots m - {s}"
    using live_and [OF assms(1), of "s div 64" "s mod 64"] by (auto simp: clear_slot_mem_def live_slots_def)
  show "monitor_wf (clear_slot_mem s m)" using assms by (simp add: monitor_wf_def clear_slot_mem_def)
qed

lemma exact_clear:
  assumes "exact m" "s < MONITOR_SLOTS"
  shows "exact (clear_slot_mem s m)"
proof -
  have wf: "monitor_wf m" and out: "mo_outstanding m = of_nat (card (live_slots m))"
    using assms by (simp_all add: exact_def)
  have live: "slot_live m s \<longleftrightarrow> s \<in> live_slots m" using assms(2) by (simp add: live_slots_def)
  have "of_nat (card (live_slots m)) + (if s \<in> live_slots m then - 1 else 0) = (of_nat (card (live_slots m - {s})) :: u64)"
  proof (cases "s \<in> live_slots m")
    case True
    then have "card (live_slots m) = Suc (card (live_slots m - {s}))" by (simp only: card_Suc_Diff1 finite_live)
    then have "of_nat (card (live_slots m)) = (of_nat (card (live_slots m - {s})) + 1 :: u64)"
      by (metis add.commute of_nat_Suc)
    then show ?thesis using True by simp
  qed simp
  then show ?thesis
    using live_slots_clear [OF wf assms(2)] out live by (simp add: exact_def) (simp add: clear_slot_mem_def)
qed

lemma run_break_bits:
  assumes "monitor_wf m" "w < WORDS" "\<forall>b\<in>set bs. b < 64"
  shows "\<exists>m'. run_prog (break_bits addr bytes w bs k) m = run_prog k m' \<and> monitor_wf m' \<and> (exact m \<longrightarrow> exact m')
     \<and> mo_slots m' = mo_slots m \<and> mo_claimed m' = mo_claimed m
     \<and> live_slots m' = {s \<in> live_slots m. \<not> (s div 64 = w \<and> s mod 64 \<in> set bs \<and> granule_covers (mo_slots m ! s) addr bytes)}"
  using assms
proof (induction bs arbitrary: m)
  case Nil
  then show ?case by auto
next
  case (Cons b bs)
  define s where "s = w * 64 + b"
  have s: "s < MONITOR_SLOTS" "s div 64 = w" "s mod 64 = b" using Cons.prems by (auto simp: s_def)
  have only: "t div 64 = w \<and> t mod 64 \<in> set (b # bs) \<longleftrightarrow> t = s \<or> t div 64 = w \<and> t mod 64 \<in> set bs" for t
  proof -
    have "t div 64 = w \<and> t mod 64 = b \<longleftrightarrow> t = s" using div_mult_mod_eq [of t 64] s by (metis s_def)
    then show ?thesis by auto
  qed
  show ?case
  proof (cases "granule_covers (mo_slots m ! s) addr bytes")
    case True
    define m1 where "m1 = clear_slot_mem s m"
    have m1: "monitor_wf m1" "live_slots m1 = live_slots m - {s}" "mo_slots m1 = mo_slots m" "mo_claimed m1 = mo_claimed m"
      "exact m \<longrightarrow> exact m1"
    proof -
      show "monitor_wf m1" "live_slots m1 = live_slots m - {s}"
        unfolding m1_def using live_slots_clear [OF Cons.prems(1) s(1)] by blast+
      show "mo_slots m1 = mo_slots m" "mo_claimed m1 = mo_claimed m"
        by (simp_all add: m1_def clear_slot_mem_def)
      show "exact m \<longrightarrow> exact m1" unfolding m1_def using exact_clear s(1) by blast
    qed
    obtain m' where m': "run_prog (break_bits addr bytes w bs k) m1 = run_prog k m'" "monitor_wf m'" "exact m1 \<longrightarrow> exact m'"
      "mo_slots m' = mo_slots m1" "mo_claimed m' = mo_claimed m1"
      "live_slots m' = {s \<in> live_slots m1. \<not> (s div 64 = w \<and> s mod 64 \<in> set bs \<and> granule_covers (mo_slots m1 ! s) addr bytes)}"
      using Cons.IH [OF m1(1)] Cons.prems by auto
    have "run_prog (break_bits addr bytes w (b # bs) k) m = run_prog k m'"
      using True m'(1) by (simp add: s_def [symmetric] m1_def)
    moreover have "live_slots m' = {t \<in> live_slots m. \<not> (t div 64 = w \<and> t mod 64 \<in> set (b # bs) \<and> granule_covers (mo_slots m ! t) addr bytes)}"
      unfolding m'(6) m1(2,3) conj_assoc [symmetric] only using True by blast
    ultimately show ?thesis using m' m1 by (intro exI [of _ m']) simp
  next
    case False
    then have "run_prog (break_bits addr bytes w (b # bs) k) m = run_prog (break_bits addr bytes w bs k) m"
      by (simp add: s_def)
    moreover obtain m' where m': "run_prog (break_bits addr bytes w bs k) m = run_prog k m'" "monitor_wf m'" "exact m \<longrightarrow> exact m'"
      "mo_slots m' = mo_slots m" "mo_claimed m' = mo_claimed m"
      "live_slots m' = {s \<in> live_slots m. \<not> (s div 64 = w \<and> s mod 64 \<in> set bs \<and> granule_covers (mo_slots m ! s) addr bytes)}"
      using Cons.IH [OF Cons.prems(1)] Cons.prems by auto
    moreover have "live_slots m' = {t \<in> live_slots m. \<not> (t div 64 = w \<and> t mod 64 \<in> set (b # bs) \<and> granule_covers (mo_slots m ! t) addr bytes)}"
      unfolding m'(6) conj_assoc [symmetric] only using False by blast
    ultimately show ?thesis using m' by (intro exI [of _ m']) simp
  qed
qed

lemma run_break_words:
  assumes "monitor_wf m" "\<forall>w\<in>set ws. w < WORDS"
  shows "\<exists>m'. run_prog (break_words addr bytes ws k) m = run_prog k m' \<and> monitor_wf m' \<and> (exact m \<longrightarrow> exact m')
     \<and> mo_slots m' = mo_slots m \<and> mo_claimed m' = mo_claimed m
     \<and> live_slots m' = {s \<in> live_slots m. \<not> (s div 64 \<in> set ws \<and> granule_covers (mo_slots m ! s) addr bytes)}"
  using assms
proof (induction ws arbitrary: m)
  case Nil
  then show ?case by auto
next
  case (Cons w ws)
  let ?bs = "set_bits_of (mo_live m ! w)"
  have "\<forall>b\<in>set ?bs. b < 64" using bit_imp_le_length by (fastforce simp: set_bits_of_spec)
  then obtain m1 where m1: "run_prog (break_bits addr bytes w ?bs (break_words addr bytes ws k)) m = run_prog (break_words addr bytes ws k) m1"
    "monitor_wf m1" "exact m \<longrightarrow> exact m1" "mo_slots m1 = mo_slots m" "mo_claimed m1 = mo_claimed m"
    "live_slots m1 = {s \<in> live_slots m. \<not> (s div 64 = w \<and> s mod 64 \<in> set ?bs \<and> granule_covers (mo_slots m ! s) addr bytes)}"
    using run_break_bits [of m w ?bs addr bytes "break_words addr bytes ws k"] Cons.prems by auto
  then have live: "live_slots m1 = {s \<in> live_slots m. \<not> (s div 64 = w \<and> granule_covers (mo_slots m ! s) addr bytes)}"
    by (auto simp: set_bits_of_spec live_slots_def slot_live_def)
  obtain m' where m': "run_prog (break_words addr bytes ws k) m1 = run_prog k m'" "monitor_wf m'" "exact m1 \<longrightarrow> exact m'"
    "mo_slots m' = mo_slots m1" "mo_claimed m' = mo_claimed m1"
    "live_slots m' = {s \<in> live_slots m1. \<not> (s div 64 \<in> set ws \<and> granule_covers (mo_slots m1 ! s) addr bytes)}"
    using Cons.IH [OF m1(2)] Cons.prems by auto
  show ?case using m1 m' live by (intro exI [of _ m']) auto
qed

lemma run_note_store:
  assumes "exact m"
  shows "\<exists>m'. run_prog (note_store addr bytes k) m = run_prog k m' \<and> exact m'
     \<and> mo_slots m' = mo_slots m \<and> mo_claimed m' = mo_claimed m
     \<and> live_slots m' = {s \<in> live_slots m. \<not> granule_covers (mo_slots m ! s) addr bytes}"
proof (cases "mo_outstanding m = 0")
  case True
  have "card (live_slots m) \<le> card {..<256::nat}" by (rule card_mono) (auto simp: live_slots_def)
  then have "card (live_slots m) < 2 ^ 64" by simp
  then have "card (live_slots m) = 0"
    using True assms nat_dvd_not_less [of "card (live_slots m)" "2 ^ 64"]
    by (cases "card (live_slots m) = 0") (auto simp: exact_def word_of_nat_eq_0_iff)
  then have "live_slots m = {}" by simp
  then show ?thesis using True assms by (intro exI [of _ m]) (simp add: note_store_def)
next
  case False
  have wf: "monitor_wf m" using assms by (simp add: exact_def)
  have "live_slots m' = {s \<in> live_slots m. \<not> granule_covers (mo_slots m ! s) addr bytes}"
    if "live_slots m' = {s \<in> live_slots m. \<not> (s div 64 \<in> set [0..<WORDS] \<and> granule_covers (mo_slots m ! s) addr bytes)}" for m'
    using that slot_word(1) by (auto simp: live_slots_def)
  then show ?thesis
    using run_break_words [OF wf, of "[0..<WORDS]" addr bytes k] assms False
    by (auto simp: note_store_def break_covering_def)
qed

section \<open>Granules\<close>

definition id_ok :: "monitor_id \<Rightarrow> bool" where
  "id_ok i \<longleftrightarrow> mi_slot i < MONITOR_SLOTS \<and> MIN_GRANULE_SHIFT \<le> mi_shift i \<and> mi_shift i \<le> MAX_GRANULE_SHIFT"

definition granule_base :: "monitor_id \<Rightarrow> u64 \<Rightarrow> nat" where
  "granule_base i addr = unat addr div 2 ^ mi_shift i * 2 ^ mi_shift i"

definition granule :: "monitor_id \<Rightarrow> u64 \<Rightarrow> nat set" where
  "granule i addr = {granule_base i addr ..< granule_base i addr + 2 ^ mi_shift i}"

lemma shift_mask: "push_bit n 1 - 1 = (mask n :: u64)"
  by (simp add: mask_eq_decr_exp)

lemma code_bits: "c < 8 \<Longrightarrow> bit (of_nat c :: u64) n \<Longrightarrow> n < 3"
proof (rule ccontr)
  assume "c < 8" "bit (of_nat c :: u64) n" "\<not> n < 3"
  then have "bit c n" by (simp add: bit_of_nat_iff)
  then have "2 ^ n \<le> c" by (metis bit_iff_odd div_less even_zero not_less)
  moreover have "2 ^ 3 \<le> (2 :: nat) ^ n" using \<open>\<not> n < 3\<close> by (intro power_increasing) auto
  ultimately show False using \<open>c < 8\<close> by simp
qed

lemma unpack_pack_granule:
  assumes "id_ok i"
  shows "unpack_granule (pack_granule i addr) = (mi_shift i, addr AND (NOT (mask (mi_shift i))))"
proof -
  define sh where "sh = mi_shift i"
  have sh: "3 \<le> sh" "sh \<le> 10" using assms by (simp_all add: id_ok_def sh_def MIN_GRANULE_SHIFT_def MAX_GRANULE_SHIFT_def)
  let ?code = "of_nat (sh - 3) :: u64"
  have code: "bit ?code n \<Longrightarrow> n < 3" for n using sh code_bits [of "sh - 3" n] by simp
  have packed: "pack_granule i addr = addr AND (NOT (mask sh)) OR ?code"
    by (simp add: pack_granule_def Let_def shift_mask sh_def MIN_GRANULE_SHIFT_def del: push_bit_of_1)
  have "pack_granule i addr AND mask 3 = ?code"
    unfolding packed using sh code by (intro bit_eqI) (auto simp: bit_and_iff bit_or_iff bit_not_iff bit_mask_iff)
  moreover have "(7 :: u64) = mask 3" by (simp add: mask_eq_decr_exp)
  moreover have "unat ?code = sh - 3"
  proof -
    have "unat ?code = take_bit 64 (sh - 3)" by (simp only: unsigned_of_nat len_of_numeral_defs len_num1) simp
    also have "\<dots> = sh - 3" using sh by (intro take_bit_nat_eq_self) simp
    finally show ?thesis .
  qed
  ultimately have low: "unat (pack_granule i addr AND 7) = sh - 3" by simp
  have "pack_granule i addr AND (NOT (mask sh)) = addr AND (NOT (mask sh))"
    unfolding packed using sh code
    by (intro bit_eqI) (fastforce simp: bit_and_iff bit_or_iff bit_not_iff bit_mask_iff)
  then show ?thesis
    using sh low by (simp add: unpack_granule_def Let_def shift_mask MIN_GRANULE_SHIFT_def sh_def [symmetric] del: push_bit_of_1)
qed

lemma unat_granule_base: "unat (addr AND (NOT (mask (mi_shift i)))) = granule_base i addr"
proof -
  have "addr AND (NOT (mask (mi_shift i))) = addr - take_bit (mi_shift i) addr"
  proof -
    have "take_bit (mi_shift i) addr + (addr AND (NOT (mask (mi_shift i)))) = addr"
      by (subst take_bit_eq_mask, subst disjunctive_add)
         (auto simp: bit_and_iff bit_not_iff bit_mask_iff bit_or_iff intro!: bit_eqI)
    then show ?thesis by (metis add_diff_cancel_left')
  qed
  moreover have low: "unat (take_bit (mi_shift i) addr) = unat addr mod 2 ^ mi_shift i"
    unfolding unsigned_take_bit_eq by (rule take_bit_eq_mod)
  moreover have "unat (addr - take_bit (mi_shift i) addr) = unat addr - unat (take_bit (mi_shift i) addr)"
    by (intro unat_sub) (simp only: word_le_nat_alt low mod_less_eq_dividend)
  ultimately show ?thesis by (simp add: granule_base_def minus_mod_eq_div_mult)
qed

lemma unat_add_small: "unat a + unat b < 2 ^ 64 \<Longrightarrow> unat (a + b) = unat a + unat b" for a b :: u64
  by (simp add: unat_word_ariths)

lemma covers_granule:
  assumes "id_ok i" "0 < bytes" "unat addr + unat bytes < 2 ^ 64" "granule_base i a + 2 ^ mi_shift i < 2 ^ 64"
  shows "granule_covers (pack_granule i a) addr bytes \<longleftrightarrow>
           {unat addr ..< unat addr + unat bytes} \<inter> granule i a \<noteq> {}"
proof -
  let ?base = "a AND (NOT (mask (mi_shift i)))"
  have sh: "mi_shift i < 64" using assms(1) by (simp add: id_ok_def MAX_GRANULE_SHIFT_def)
  have one: "unat (push_bit (mi_shift i) 1 :: u64) = 2 ^ mi_shift i"
    using sh by (simp add: push_bit_of_1 unat_power_lower64)
  have "unat (saturating_add addr bytes) = unat addr + unat bytes"
    using assms(3) by (simp add: saturating_add_def unat_add_small)
  moreover have "unat (saturating_add ?base (push_bit (mi_shift i) 1)) = granule_base i a + 2 ^ mi_shift i"
    using assms(4) one unat_granule_base [of a i] by (simp add: saturating_add_def unat_add_small del: push_bit_of_1)
  ultimately have "granule_covers (pack_granule i a) addr bytes \<longleftrightarrow>
      unat addr < granule_base i a + 2 ^ mi_shift i \<and> granule_base i a < unat addr + unat bytes"
    by (simp add: granule_covers_def unpack_pack_granule [OF assms(1)] word_less_nat_alt unat_granule_base Let_def)
  moreover have "{p ..< p + n} \<inter> {q ..< q + r} \<noteq> {} \<longleftrightarrow> p < q + r \<and> q < p + n" if "0 < n" "0 < r" for p n q r :: nat
  proof
    assume "p < q + r \<and> q < p + n"
    then have "max p q \<in> {p ..< p + n} \<inter> {q ..< q + r}" using that by auto
    then show "{p ..< p + n} \<inter> {q ..< q + r} \<noteq> {}" by blast
  qed auto
  ultimately show ?thesis using assms(2) by (simp add: granule_def word_less_nat_alt)
qed

section \<open>A reservation, alone\<close>

lemma run_reserve:
  assumes "exact m" "id_ok i"
  shows "\<exists>m'. run_prog (monitor_reserve i a k) m = run_prog k m' \<and> exact m' \<and> live_slots m' = insert (mi_slot i) (live_slots m)
     \<and> mo_slots m' = (mo_slots m)[mi_slot i := pack_granule i a]"
proof -
  define s where "s = mi_slot i"
  define w b where "w = s div 64" and "b = s mod 64"
  have s: "s < MONITOR_SLOTS" "w < WORDS" "b < 64" "w * 64 + b = s" using assms(2) by (auto simp: id_ok_def s_def w_def b_def)
  define m1 where "m1 = (clear_slot_mem s m)\<lparr>mo_slots := (mo_slots m)[s := pack_granule i a]\<rparr>"
  define m2 where "m2 = m1\<lparr>mo_live := (mo_live m1)[w := mo_live m1 ! w OR push_bit b 1]\<rparr>"
  define m' where "m' = m2\<lparr>mo_outstanding := mo_outstanding m1 + 1\<rparr>"
  have wf: "monitor_wf m" using assms(1) by (simp add: exact_def)
  have ex: "exact (clear_slot_mem s m)" using assms(1) s(1) by (intro exact_clear)
  have live1: "live_slots m1 = live_slots m - {s}"
    using live_slots_clear [OF wf s(1)] by (simp add: m1_def live_slots_def slot_live_def)
  have m1: "monitor_wf m1" "mo_outstanding m1 = of_nat (card (live_slots m - {s}))"
    using ex live_slots_clear [OF wf s(1)] by (auto simp: m1_def exact_def monitor_wf_def)
  have "\<not> slot_live m1 s" using live1 s(1) by (auto simp: live_slots_def)
  then have "mo_live m1 ! w AND push_bit b 1 = 0" by (simp add: bit_test slot_live_def w_def b_def)
  then have free: "mo_live (clear_slot_mem s m) ! w AND push_bit b 1 = 0" by (simp add: m1_def del: push_bit_of_1)
  have "run_prog (monitor_reserve i a k) m
      = run_prog (StoreSlot s (pack_granule i a) (OrLive w (push_bit b 1) (\<lambda>old. if old AND push_bit b 1 = 0 then AddOut 1 k else k)))
          (clear_slot_mem s m)"
    by (simp only: monitor_reserve_def split_slot_def Let_def prod.case run_clear s_def w_def b_def)
  also have "\<dots> = run_prog k m'"
    by (simp add: free m'_def m2_def m1_def del: push_bit_of_1)
  finally have "run_prog (monitor_reserve i a k) m = run_prog k m'" .
  moreover have live: "live_slots m' = insert s (live_slots m)"
    using live_or [OF m1(1) s(2,3)] s live1 by (auto simp: m'_def m2_def live_slots_def)
  moreover have "exact m'"
  proof -
    have "card (insert s (live_slots m)) = Suc (card (live_slots m - {s}))" by (simp add: card.insert_remove)
    then show ?thesis using m1 live by (simp add: exact_def m'_def m2_def monitor_wf_def add.commute)
  qed
  moreover have "mo_slots m' = (mo_slots m)[s := pack_granule i a]" by (simp add: m'_def m2_def m1_def)
  ultimately show ?thesis unfolding s_def by blast
qed

lemma run_holds: "run_prog (monitor_holds i k) m = run_prog (k (slot_live m (mi_slot i))) m"
  by (simp add: monitor_holds_def split_slot_def bit_test slot_live_def)

text \<open>
  A reservation and a store, one after the other: after a core reserves
  the granule of an address and some core stores a run of bytes, the
  reservation stands exactly when no byte of the run lies in the granule.
\<close>

theorem reservation_kept_iff:
  assumes "exact m" "id_ok i" "0 < bytes" "unat addr + unat bytes < 2 ^ 64"
    and "granule_base i a + 2 ^ mi_shift i < 2 ^ 64"
  shows "fst (run_prog (monitor_reserve i a (note_store addr bytes (monitor_holds i Ret))) m)
     \<longleftrightarrow> {unat addr ..< unat addr + unat bytes} \<inter> granule i a = {}"
proof -
  obtain m1 where m1: "run_prog (monitor_reserve i a (note_store addr bytes (monitor_holds i Ret))) m
      = run_prog (note_store addr bytes (monitor_holds i Ret)) m1" "exact m1"
    "live_slots m1 = insert (mi_slot i) (live_slots m)" "mo_slots m1 = (mo_slots m)[mi_slot i := pack_granule i a]"
    using run_reserve [OF assms(1,2)] by blast
  obtain m2 where m2: "run_prog (note_store addr bytes (monitor_holds i Ret)) m1 = run_prog (monitor_holds i Ret) m2"
    "live_slots m2 = {s \<in> live_slots m1. \<not> granule_covers (mo_slots m1 ! s) addr bytes}"
    using run_note_store [OF m1(2)] by blast
  have s: "mi_slot i < MONITOR_SLOTS" "length (mo_slots m) = MONITOR_SLOTS"
    using assms(1,2) by (auto simp: id_ok_def exact_def monitor_wf_def)
  have "fst (run_prog (monitor_reserve i a (note_store addr bytes (monitor_holds i Ret))) m) \<longleftrightarrow> mi_slot i \<in> live_slots m2"
    using m1(1) m2(1) s by (simp add: run_holds live_slots_def)
  also have "\<dots> \<longleftrightarrow> \<not> granule_covers (pack_granule i a) addr bytes"
    unfolding m2(2) m1(3,4) using s by simp
  finally show ?thesis using covers_granule [OF assms(2-5)] by simp
qed

section \<open>Cores side by side\<close>

text \<open>Each core is a program; a schedule names the core that takes the next action.\<close>

type_synonym cores = "prog list \<times> exclusive_monitor"

definition core_step :: "nat \<Rightarrow> cores \<Rightarrow> cores" where
  "core_step j st = (if j < length (fst st)
     then (let (p, m) = act (fst st ! j) (snd st) in ((fst st)[j := p], m)) else st)"

definition cores_run :: "nat list \<Rightarrow> cores \<Rightarrow> cores" where
  "cores_run sched st = fold core_step sched st"

subsection \<open>The count\<close>

text \<open>
  Programs in which every change of a live bit is followed at once by its
  correction of the count; the correction still owed is the program's debt.
\<close>

inductive counted :: "prog \<Rightarrow> bool" where
  "counted (Ret b)"
| "(\<And>v. counted (f v)) \<Longrightarrow> counted (LoadOut f)"
| "(\<And>v. counted (f v)) \<Longrightarrow> counted (LoadLive w f)"
| "(\<And>v. counted (f v)) \<Longrightarrow> counted (LoadSlot i f)"
| "counted p \<Longrightarrow> counted (StoreSlot i v p)"
| "counted p \<Longrightarrow> counted (AndClaimed w v p)"
| "w < WORDS \<Longrightarrow> b < 64 \<Longrightarrow> (\<And>v. bit v b \<Longrightarrow> \<exists>k. f v = AddOut (- 1) k \<and> counted k) \<Longrightarrow>
     (\<And>v. \<not> bit v b \<Longrightarrow> counted (f v)) \<Longrightarrow> counted (AndLive w (NOT (push_bit b 1)) f)"
| "w < WORDS \<Longrightarrow> b < 64 \<Longrightarrow> (\<And>v. \<not> bit v b \<Longrightarrow> \<exists>k. f v = AddOut 1 k \<and> counted k) \<Longrightarrow>
     (\<And>v. bit v b \<Longrightarrow> counted (f v)) \<Longrightarrow> counted (OrLive w (push_bit b 1) f)"

inductive_cases counted_AddOut [elim!]: "counted (AddOut d p)"

fun debt :: "prog \<Rightarrow> u64" where
  "debt (AddOut d _) = d"
| "debt _ = 0"

definition core_ok :: "prog \<Rightarrow> bool" where
  "core_ok p \<longleftrightarrow> counted p \<or> (\<exists>d k. p = AddOut d k \<and> (d = 1 \<or> d = - 1) \<and> counted k)"

definition cores_ok :: "cores \<Rightarrow> bool" where
  "cores_ok st \<longleftrightarrow> monitor_wf (snd st) \<and> (\<forall>p\<in>set (fst st). core_ok p) \<and>
     mo_outstanding (snd st) + sum_list (map debt (fst st)) = of_nat (card (live_slots (snd st)))"

lemma counted_debt: "counted p \<Longrightarrow> debt p = 0"
  by (cases p) auto

lemma act_counted:
  assumes "core_ok p" "act p m = (p', m')" "monitor_wf m"
  shows "core_ok p' \<and> monitor_wf m'
     \<and> mo_outstanding m' + debt p' - (mo_outstanding m + debt p) = of_nat (card (live_slots m')) - of_nat (card (live_slots m))"
  using assms(1) [unfolded core_ok_def]
proof (elim disjE exE conjE)
  assume "counted p"
  have frame: ?thesis if "counted p'" "monitor_wf m'" "mo_live m' = mo_live m" "mo_outstanding m' = mo_outstanding m"
    using that counted_debt \<open>counted p\<close> by (simp add: core_ok_def live_slots_def slot_live_def)
  from \<open>counted p\<close> show ?thesis
  proof cases
    case (1 b)
    then show ?thesis using assms(2,3) by (intro frame) (auto intro: counted.intros)
  next
    case (2 f)
    then show ?thesis using assms(2,3) by (intro frame) auto
  next
    case (3 f w)
    then show ?thesis using assms(2,3) by (intro frame) auto
  next
    case (4 f i)
    then show ?thesis using assms(2,3) by (intro frame) auto
  next
    case (5 q i v)
    then show ?thesis using assms(2,3) by (intro frame) (auto simp: monitor_wf_def)
  next
    case (6 q w v)
    then show ?thesis using assms(2,3) by (intro frame) (auto simp: monitor_wf_def)
  next
    case (7 w b f)
    have m': "m' = m\<lparr>mo_live := (mo_live m)[w := mo_live m ! w AND (NOT (push_bit b 1))]\<rparr>" "p' = f (mo_live m ! w)"
      using assms(2) 7(1) by auto
    have live: "live_slots m' = live_slots m - {w * 64 + b}"
      unfolding m' live_slots_def using live_and [OF assms(3) 7(2,3)] by auto
    have s: "w * 64 + b < MONITOR_SLOTS" "slot_live m (w * 64 + b) \<longleftrightarrow> bit (mo_live m ! w) b"
      using 7(2,3) by (auto simp: slot_live_def)
    have wf: "monitor_wf m'" using assms(3) by (simp add: m' monitor_wf_def)
    show ?thesis
    proof (cases "bit (mo_live m ! w) b")
      case True
      then obtain k where k: "p' = AddOut (- 1) k" "counted k" using 7(4) m'(2) by auto
      have "w * 64 + b \<in> live_slots m" using s True by (simp add: live_slots_def)
      then have "card (live_slots m) = Suc (card (live_slots m'))" unfolding live by (simp only: card_Suc_Diff1 finite_live)
      then show ?thesis using k wf 7(1) m' by (auto simp: core_ok_def)
    next
      case False
      then have "counted p'" "live_slots m' = live_slots m" using 7(5) m'(2) live s by (auto simp: live_slots_def)
      then show ?thesis using wf 7(1) counted_debt m' by (simp add: core_ok_def)
    qed
  next
    case (8 w b f)
    have m': "m' = m\<lparr>mo_live := (mo_live m)[w := mo_live m ! w OR push_bit b 1]\<rparr>" "p' = f (mo_live m ! w)"
      using assms(2) 8(1) by auto
    have s: "w * 64 + b < MONITOR_SLOTS" "slot_live m (w * 64 + b) \<longleftrightarrow> bit (mo_live m ! w) b"
      using 8(2,3) by (auto simp: slot_live_def)
    have live: "live_slots m' = insert (w * 64 + b) (live_slots m)"
      unfolding m' live_slots_def using live_or [OF assms(3) 8(2,3)] s(1) by auto
    have wf: "monitor_wf m'" using assms(3) by (simp add: m' monitor_wf_def)
    show ?thesis
    proof (cases "bit (mo_live m ! w) b")
      case False
      then obtain k where k: "p' = AddOut 1 k" "counted k" using 8(4) m'(2) by auto
      have "w * 64 + b \<notin> live_slots m" using s False by (simp add: live_slots_def)
      then have "card (live_slots m') = Suc (card (live_slots m))" unfolding live by simp
      then show ?thesis using k wf 8(1) m' by (auto simp: core_ok_def)
    next
      case True
      then have "counted p'" "live_slots m' = live_slots m" using 8(5) m'(2) live s by (auto simp: live_slots_def)
      then show ?thesis using wf 8(1) counted_debt m' by (simp add: core_ok_def)
    qed
  qed
next
  fix d k assume "p = AddOut d k" "counted k"
  then show ?thesis
    using assms(2,3) counted_debt [of k] by (auto simp: core_ok_def monitor_wf_def live_slots_def)
next
  fix d k assume "p = AddOut d k" "counted k"
  then show ?thesis
    using assms(2,3) counted_debt [of k] by (auto simp: core_ok_def monitor_wf_def live_slots_def)
qed

lemma sum_list_update_group:
  "j < length xs \<Longrightarrow> sum_list (xs[j := x]) = sum_list xs - xs ! j + (x :: 'a :: ab_group_add)"
  by (induction xs arbitrary: j) (auto split: nat.split simp: algebra_simps)

lemma core_step_ok: "cores_ok st \<Longrightarrow> cores_ok (core_step j st)"
proof (cases "j < length (fst st)")
  case True
  assume ok: "cores_ok st"
  obtain p' m' where a: "act (fst st ! j) (snd st) = (p', m')" by fastforce
  have r: "core_ok p'" "monitor_wf m'"
    "mo_outstanding m' + debt p' - (mo_outstanding (snd st) + debt (fst st ! j))
       = of_nat (card (live_slots m')) - of_nat (card (live_slots (snd st)))"
    using act_counted [OF _ a] ok True by (auto simp: cores_ok_def)
  have "map debt ((fst st)[j := p']) = (map debt (fst st))[j := debt p']" by (simp add: map_update)
  then have sum: "sum_list (map debt ((fst st)[j := p'])) = sum_list (map debt (fst st)) - debt (fst st ! j) + debt p'"
    using True by (simp add: sum_list_update_group)
  have step: "core_step j st = ((fst st)[j := p'], m')" using True a by (simp add: core_step_def)
  have bal: "mo_outstanding (snd st) + sum_list (map debt (fst st)) = of_nat (card (live_slots (snd st)))"
    using ok by (simp add: cores_ok_def)
  have "mo_outstanding m' + sum_list (map debt ((fst st)[j := p'])) = of_nat (card (live_slots m'))"
  proof -
    have "of_nat (card (live_slots m')) = mo_outstanding m' + debt p' - (mo_outstanding (snd st) + debt (fst st ! j))
        + of_nat (card (live_slots (snd st)))"
      unfolding r(3) by simp
    then show ?thesis unfolding sum bal [symmetric] by (simp add: algebra_simps)
  qed
  moreover have "\<forall>p\<in>set ((fst st)[j := p']). core_ok p"
    using ok r(1) by (auto simp: cores_ok_def dest!: set_update_subset_insert [THEN subsetD])
  ultimately show ?thesis unfolding step using r(2) by (simp add: cores_ok_def)
qed (simp add: core_step_def)

lemma cores_run_ok: "cores_ok st \<Longrightarrow> cores_ok (cores_run sched st)"
  unfolding cores_run_def by (induction sched arbitrary: st) (simp_all add: core_step_ok)

lemma counted_clear: "mi_slot i < MONITOR_SLOTS \<Longrightarrow> counted k \<Longrightarrow> counted (clear_slot_then i k)"
  unfolding clear_slot_then_def split_slot_def Let_def prod.case
  by (rule counted.intros(7)) (auto simp: bit_test)

lemma counted_reserve:
  assumes "id_ok i" "counted k"
  shows "counted (monitor_reserve i a k)"
proof -
  have "counted (OrLive (mi_slot i div 64) (push_bit (mi_slot i mod 64) 1)
      (\<lambda>old. if old AND push_bit (mi_slot i mod 64) 1 = 0 then AddOut 1 k else k))"
    using assms by (intro counted.intros(8)) (auto simp: bit_test id_ok_def)
  then show ?thesis
    using assms(1) unfolding monitor_reserve_def split_slot_def Let_def prod.case
    by (intro counted_clear counted.intros(5)) (auto simp: id_ok_def)
qed

lemma counted_break_bits: "w < WORDS \<Longrightarrow> \<forall>b\<in>set bs. b < 64 \<Longrightarrow> counted k \<Longrightarrow> counted (break_bits addr bytes w bs k)"
proof (induction bs)
  case (Cons b bs)
  then have "counted (clear_slot_then \<lparr>mi_slot = w * 64 + b, mi_shift = n\<rparr> (break_bits addr bytes w bs k))" for n
    by (intro counted_clear) auto
  then show ?case using Cons by (auto intro!: counted.intros(4))
qed simp

lemma counted_break_words: "\<forall>w\<in>set ws. w < WORDS \<Longrightarrow> counted k \<Longrightarrow> counted (break_words addr bytes ws k)"
proof (induction ws)
  case (Cons w ws)
  have "b < 64" if "b \<in> set (set_bits_of v)" for b v
    using that bit_imp_le_length [of v b] by (simp add: set_bits_of_spec)
  then show ?case using Cons by (auto intro!: counted.intros(3) counted_break_bits)
qed simp

lemma counted_note_store: "counted k \<Longrightarrow> counted (note_store addr bytes k)"
  unfolding note_store_def break_covering_def by (rule counted.intros(2)) (auto intro: counted_break_words)

lemma counted_holds: "(\<And>b. counted (k b)) \<Longrightarrow> counted (monitor_holds i k)"
  unfolding monitor_holds_def split_slot_def Let_def prod.case by (rule counted.intros(3))

lemma counted_release: "id_ok i \<Longrightarrow> counted k \<Longrightarrow> counted (monitor_release i k)"
  unfolding monitor_release_def split_slot_def Let_def prod.case
  by (intro counted_clear counted.intros(6)) (simp_all add: id_ok_def)

lemmas counted_intros = counted.intros(1) counted_clear counted_reserve counted_note_store counted_holds counted_release

lemma sum_debts:
  assumes "\<forall>p\<in>set ps. core_ok p \<and> debt p \<noteq> 1"
  shows "\<exists>n\<le>length ps. sum_list (map debt ps) = - of_nat n"
  using assms
proof (induction ps)
  case (Cons p ps)
  then obtain n where n: "n \<le> length ps" "sum_list (map debt ps) = - of_nat n" by auto
  have "debt p = 0 \<or> debt p = - 1" using Cons.prems counted_debt by (auto simp: core_ok_def)
  then show ?case
  proof
    assume "debt p = - 1"
    then have "sum_list (map debt (p # ps)) = - of_nat (Suc n)" using n(2) by simp
    then show ?thesis using n(1) by (intro exI [of _ "Suc n"]) simp
  qed (use n in \<open>auto intro: le_SucI\<close>)
qed simp

text \<open>When no core owes an increment, the fast path's zero means no reservation.\<close>

lemma outstanding_sound:
  assumes "cores_ok (ps, m)" "\<forall>p\<in>set ps. debt p \<noteq> 1" "length ps < 2 ^ 32" "s \<in> live_slots m"
  shows "mo_outstanding m \<noteq> 0"
proof
  assume zero: "mo_outstanding m = 0"
  obtain n where n: "n \<le> length ps" "sum_list (map debt ps) = - of_nat n"
    using sum_debts [of ps] assms(1,2) by (auto simp: cores_ok_def)
  have "of_nat (card (live_slots m) + n) = (0 :: u64)"
  proof -
    have "of_nat (card (live_slots m)) = (- of_nat n :: u64)" using assms(1) n(2) zero by (simp add: cores_ok_def)
    then show ?thesis by simp
  qed
  moreover have "card (live_slots m) \<le> card {..<256::nat}" by (rule card_mono) (auto simp: live_slots_def)
  then have "card (live_slots m) + n < 2 ^ 64" using n(1) assms(3) by simp
  moreover have "0 < card (live_slots m)" using assms(4) by (auto simp: card_gt_0_iff)
  ultimately show False
    using nat_dvd_not_less [of "card (live_slots m) + n" "2 ^ 64"]
    by (simp only: word_of_nat_eq_0_iff len_of_numeral_defs len_num1) simp
qed

subsection \<open>A store against a standing reservation\<close>

text \<open>Programs that neither set the live bit of a slot nor move its granule.\<close>

primrec spares :: "nat \<Rightarrow> prog \<Rightarrow> bool" where
  "spares s (Ret b) = True"
| "spares s (LoadOut f) = (\<forall>v. spares s (f v))"
| "spares s (AddOut d p) = spares s p"
| "spares s (LoadLive w f) = (\<forall>v. spares s (f v))"
| "spares s (AndLive w v f) = (\<forall>old. spares s (f old))"
| "spares s (OrLive w v f) = ((w = s div 64 \<longrightarrow> \<not> bit v (s mod 64)) \<and> (\<forall>old. spares s (f old)))"
| "spares s (LoadSlot i f) = (\<forall>v. spares s (f v))"
| "spares s (StoreSlot i v p) = (i \<noteq> s \<and> spares s p)"
| "spares s (AndClaimed w v p) = spares s p"

text \<open>Programs that clear a live slot with a given granule before they end, whatever others do.\<close>

primrec dooms :: "nat \<Rightarrow> u64 \<Rightarrow> prog \<Rightarrow> bool" where
  "dooms s g (Ret b) = False"
| "dooms s g (LoadOut f) = (\<forall>v. dooms s g (f v))"
| "dooms s g (AddOut d p) = dooms s g p"
| "dooms s g (LoadLive w f) = (\<forall>v. (w = s div 64 \<longrightarrow> bit v (s mod 64)) \<longrightarrow> dooms s g (f v))"
| "dooms s g (AndLive w v f) = (w = s div 64 \<and> \<not> bit v (s mod 64) \<or> (\<forall>old. dooms s g (f old)))"
| "dooms s g (OrLive w v f) = (\<forall>old. dooms s g (f old))"
| "dooms s g (LoadSlot i f) = (\<forall>v. (i = s \<longrightarrow> v = g) \<longrightarrow> dooms s g (f v))"
| "dooms s g (StoreSlot i v p) = dooms s g p"
| "dooms s g (AndClaimed w v p) = dooms s g p"

lemma spares_clear: "spares s k \<Longrightarrow> spares s (clear_slot_then i k)"
  by (simp add: clear_slot_then_def split_slot_def)

lemma spares_reserve:
  assumes "spares s k" "mi_slot i \<noteq> s"
  shows "spares s (monitor_reserve i a k)"
proof -
  have "\<not> (mi_slot i div 64 = s div 64 \<and> s mod 64 = mi_slot i mod 64)"
    using assms(2) by (metis div_mult_mod_eq)
  then show ?thesis
    using assms by (auto simp: monitor_reserve_def split_slot_def bit_one_at intro!: spares_clear)
qed

lemma spares_break_bits: "spares s k \<Longrightarrow> spares s (break_bits addr bytes w bs k)"
  by (induction bs) (simp_all add: spares_clear)

lemma spares_break_words: "spares s k \<Longrightarrow> spares s (break_words addr bytes ws k)"
  by (induction ws) (simp_all add: spares_break_bits)

lemma spares_note_store: "spares s k \<Longrightarrow> spares s (note_store addr bytes k)"
  by (simp add: note_store_def break_covering_def spares_break_words)

lemma dooms_break_bits:
  assumes "granule_covers g addr bytes"
  shows "s div 64 = w \<Longrightarrow> s mod 64 \<in> set bs \<Longrightarrow> dooms s g (break_bits addr bytes w bs k)"
    and "dooms s g k \<Longrightarrow> dooms s g (break_bits addr bytes w bs k)"
proof -
  show keep: "dooms s g k \<Longrightarrow> dooms s g (break_bits addr bytes w bs k)" for bs
    by (induction bs) (simp_all add: clear_slot_then_def split_slot_def)
  show "s div 64 = w \<Longrightarrow> s mod 64 \<in> set bs \<Longrightarrow> dooms s g (break_bits addr bytes w bs k)"
  proof (induction bs)
    case (Cons b bs)
    show ?case
    proof (cases "b = s mod 64")
      case True
      then have s: "w * 64 + b = s" using Cons.prems(1) by (metis div_mult_mod_eq)
      have "bit (2 ^ (s mod 64) :: u64) (s mod 64)" by (simp add: bit_one_at)
      then show ?thesis
        using assms by (simp add: s clear_slot_then_def split_slot_def bit_not_iff)
    next
      case False
      then have "dooms s g (break_bits addr bytes w bs k)" using Cons by auto
      then show ?thesis by (simp add: clear_slot_then_def split_slot_def)
    qed
  qed simp
qed

lemma dooms_break_words:
  assumes "granule_covers g addr bytes"
  shows "s div 64 \<in> set ws \<Longrightarrow> dooms s g (break_words addr bytes ws k)"
proof (induction ws)
  case (Cons w ws)
  show ?case
  proof (cases "w = s div 64")
    case True
    then show ?thesis using dooms_break_bits(1) [OF assms] by (auto simp: set_bits_of_spec)
  next
    case False
    then have "dooms s g (break_words addr bytes ws k)" using Cons by auto
    then show ?thesis using dooms_break_bits(2) [OF assms] False by auto
  qed
qed simp

lemma nth_list_update_split: "n < length xs \<Longrightarrow> xs[k := x] ! n = (if n = k then x else xs ! n)"
  by (auto simp: nth_list_update)

lemma act_spares:
  assumes "spares s p" "act p m = (p', m')" "monitor_wf m" "s < MONITOR_SLOTS"
  shows "spares s p'" "monitor_wf m'" "mo_slots m' ! s = mo_slots m ! s" "slot_live m' s \<Longrightarrow> slot_live m s"
proof -
  show "spares s p'" "monitor_wf m'" "mo_slots m' ! s = mo_slots m ! s"
    using assms by (cases p; auto simp: monitor_wf_def)+
  have w: "s div 64 < length (mo_live m)" using assms(3,4) by (simp add: monitor_wf_def)
  show "slot_live m' s \<Longrightarrow> slot_live m s"
    using assms w by (cases p) (auto simp: slot_live_def nth_list_update_split bit_and_iff bit_or_iff split: if_splits)
qed

lemma act_dooms:
  assumes "dooms s (mo_slots m ! s) p" "act p m = (p', m')" "slot_live m' s" "slot_live m s" "monitor_wf m" "s < MONITOR_SLOTS"
  shows "dooms s (mo_slots m ! s) p'"
proof -
  have "s div 64 < length (mo_live m)" using assms(5,6) by (simp add: monitor_wf_def)
  then show ?thesis
    using assms(1-4) by (cases p) (auto simp: slot_live_def bit_and_iff split: if_splits)
qed

definition breaking :: "nat \<Rightarrow> u64 \<Rightarrow> nat \<Rightarrow> cores \<Rightarrow> bool" where
  "breaking s g j st \<longleftrightarrow> monitor_wf (snd st) \<and> (\<forall>p\<in>set (fst st). spares s p) \<and> j < length (fst st) \<and>
     mo_slots (snd st) ! s = g \<and> (slot_live (snd st) s \<longrightarrow> dooms s g (fst st ! j))"

lemma breaking_step:
  assumes "breaking s g j st" "s < MONITOR_SLOTS"
  shows "breaking s g j (core_step i st)"
proof (cases "i < length (fst st)")
  case True
  obtain p' m' where a: "act (fst st ! i) (snd st) = (p', m')" by fastforce
  have step: "core_step i st = ((fst st)[i := p'], m')" using True a by (simp add: core_step_def)
  have wf: "monitor_wf (snd st)" and sp: "spares s (fst st ! i)" using assms(1) True by (auto simp: breaking_def)
  note r = act_spares [OF sp a wf assms(2)]
  have "\<forall>p\<in>set ((fst st)[i := p']). spares s p"
    using assms(1) r(1) by (auto simp: breaking_def dest!: set_update_subset_insert [THEN subsetD])
  moreover have "dooms s g ((fst st)[i := p'] ! j)" if "slot_live m' s"
  proof (cases "i = j")
    case True
    then show ?thesis
      using assms r(4) [OF that] that a wf by (auto simp: breaking_def intro: act_dooms)
  next
    case False
    then show ?thesis using assms(1) r(4) [OF that] by (simp add: breaking_def)
  qed
  ultimately show ?thesis
    unfolding step using assms(1) r by (simp add: breaking_def)
qed (use assms in \<open>simp add: core_step_def\<close>)

lemma breaking_run: "breaking s g j st \<Longrightarrow> s < MONITOR_SLOTS \<Longrightarrow> breaking s g j (cores_run sched st)"
  unfolding cores_run_def by (induction sched arbitrary: st) (simp_all add: breaking_step)

text \<open>
  C29: A store breaks a standing reservation under every interleaving. Some core
  is about to tell the monitor of a store that touches the reserved granule;
  the others run any operations, and none touches the slot but to break it. If
  no core is between publishing a reservation and counting it when the store
  looks at the count, then whatever the schedule, once the store's call has
  returned the reservation no longer stands.
\<close>

theorem store_breaks_reservation:
  assumes "cores_ok (ps, m)" "length ps < 2 ^ 32" "j < length ps" "ps ! j = note_store addr bytes k"
    and "\<forall>p\<in>set ps. debt p \<noteq> 1" "\<forall>p\<in>set ps. spares s p"
    and "s < MONITOR_SLOTS" "granule_covers (mo_slots m ! s) addr bytes"
    and "fst (cores_run (j # sched) (ps, m)) ! j = Ret b"
  shows "\<not> slot_live (snd (cores_run (j # sched) (ps, m))) s"
proof -
  define g where "g = mo_slots m ! s"
  define p' where "p' = (if mo_outstanding m = 0 then k else break_covering addr bytes k)"
  have first: "core_step j (ps, m) = (ps[j := p'], m)"
    using assms(3,4) by (simp add: core_step_def note_store_def p'_def)
  have "spares s (note_store addr bytes k)" using assms(3,4,6) by (metis nth_mem)
  then have "spares s p'" by (simp add: note_store_def p'_def)
  have "dooms s g p'" if "slot_live m s"
  proof -
    have "mo_outstanding m \<noteq> 0"
      using outstanding_sound [OF assms(1,5,2), of s] that assms(7) by (simp add: live_slots_def)
    then show ?thesis
      using assms(7,8) by (simp add: p'_def break_covering_def g_def dooms_break_words)
  qed
  then have "breaking s g j (ps[j := p'], m)"
    using assms(1,3,6) \<open>spares s p'\<close>
    by (auto simp: breaking_def cores_ok_def g_def dest!: set_update_subset_insert [THEN subsetD])
  then have "breaking s g j (cores_run (j # sched) (ps, m))"
    using breaking_run [of s g j "(ps[j := p'], m)" sched] assms(7) first by (simp add: cores_run_def)
  then show ?thesis using assms(9) by (auto simp: breaking_def)
qed

end
