(* ===== verification/Space_Race.thy ===== *)
theory Space_Race
  imports Space_Monitor "HOL-Library.Code_Target_Nat"
begin

text \<open>
  Runs of the exclusive monitor: two cores that share one, and the schedule of
  three on which a store leaves a reservation of its granule standing.
\<close>

section \<open>Two cores\<close>

definition core0 :: monitor_id where "core0 = \<lparr>mi_slot = 0, mi_shift = 3\<rparr>"
definition core1 :: monitor_id where "core1 = \<lparr>mi_slot = 1, mi_shift = 3\<rparr>"

definition reserved :: exclusive_monitor where
  "reserved = snd (run_prog (monitor_reserve core0 0x1000 (Ret True)) monitor_new)"

definition returned :: "prog \<Rightarrow> bool" where
  "returned p = (case p of Ret b \<Rightarrow> b | _ \<Rightarrow> False)"

lemma returned_iff: "returned p \<longleftrightarrow> p = Ret True"
  by (cases p) (simp_all add: returned_def)

lemma cores_id_ok: "id_ok core0" "id_ok core1"
  by (simp_all add: id_ok_def core0_def core1_def MIN_GRANULE_SHIFT_def MAX_GRANULE_SHIFT_def)

lemma exact_new: "exact monitor_new"
proof -
  have "live_slots monitor_new = {}"
    by (auto simp: live_slots_def slot_live_def monitor_new_def)
  then show ?thesis by (simp add: exact_def monitor_wf_def) (simp add: monitor_new_def)
qed

lemma exact_reserved: "exact reserved"
  using run_reserve [OF exact_new cores_id_ok(1), of "0x1000" "Ret True"] by (auto simp: reserved_def)

theorem reservation_kept_iff_witness:
  "fst (run_prog (monitor_reserve core0 0x1000 (note_store 0x1008 4 (monitor_holds core0 Ret))) monitor_new)
   \<and> \<not> fst (run_prog (monitor_reserve core0 0x1000 (note_store 0xFFE 4 (monitor_holds core0 Ret))) monitor_new)"
proof -
  have g: "granule core0 0x1000 = {0x1000 ..< 0x1008}" by (simp add: granule_def granule_base_def core0_def)
  then have "(0x1001 :: nat) \<in> {0xFFE ..< 0x1002} \<inter> granule core0 0x1000" by simp
  then have "{0xFFE ..< 0x1002 :: nat} \<inter> granule core0 0x1000 \<noteq> {}" by blast
  then show ?thesis
    using reservation_kept_iff [OF exact_new cores_id_ok(1), of 4 "0x1008" "0x1000"]
      reservation_kept_iff [OF exact_new cores_id_ok(1), of 4 "0xFFE" "0x1000"] g
    by (simp add: granule_base_def core0_def)
qed

definition mem :: "u64 \<Rightarrow> u64 \<Rightarrow> u64 list \<Rightarrow> exclusive_monitor" where
  "mem out live slots = \<lparr>mo_outstanding = out, mo_live = [live, 0, 0, 0], mo_claimed = [0, 0, 0, 0], mo_slots = slots\<rparr>"

definition held :: "u64 list" where
  "held = (replicate MONITOR_SLOTS 0)[0 := 0x1000, 1 := 0x2000]"

lemma act_note: "act (note_store a n k) (mem out live sl) = (if out = 0 then k else break_words a n [0, 1, 2, 3] k, mem out live sl)"
proof -
  have "[0..<WORDS] = [0, 1, 2, 3]" by code_simp
  then show ?thesis by (simp only: note_store_def break_covering_def mem_def act.simps exclusive_monitor.simps)
qed

lemma act_word:
  "act (break_words a n (w # ws) k) (mem out live sl)
     = (break_bits a n w (set_bits_of ([live, 0, 0, 0] ! w)) (break_words a n ws k), mem out live sl)"
  by (simp add: mem_def)

lemma act_bit:
  "act (break_bits a n w (b # bs) k) (mem out live sl)
     = (if granule_covers (sl ! (w * 64 + b)) a n
        then clear_slot_then \<lparr>mi_slot = w * 64 + b, mi_shift = fst (unpack_granule (sl ! (w * 64 + b)))\<rparr> (break_bits a n w bs k)
        else break_bits a n w bs k, mem out live sl)"
  by (simp add: mem_def)

lemma act_clear_slot:
  "mi_slot i < 64 \<Longrightarrow> act (clear_slot_then i k) (mem out live sl)
     = (if bit live (mi_slot i) then AddOut (- 1) k else k, mem out (live AND (NOT (push_bit (mi_slot i) 1))) sl)"
  by (simp add: mem_def clear_slot_then_def split_slot_def bit_test)

lemma act_words_of:
  "act (AddOut d k) (mem out live sl) = (k, mem (out + d) live sl)"
  "act (StoreSlot i v k) (mem out live sl) = (k, mem out live (sl[i := v]))"
  "act (OrLive 0 v f) (mem out live sl) = (f live, mem out (live OR v) sl)"
  by (simp_all add: mem_def)

lemma low_bits: "low_bit 1 = 0" "low_bit 2 = 1" "low_bit 3 = 0"
  by (simp_all add: low_bit_def upt_conv_Cons)

lemma race_bits: "set_bits_of 0 = []" "set_bits_of 1 = [0]" "set_bits_of 3 = [0, 1]"
proof -
  show "set_bits_of 0 = []" "set_bits_of 1 = [0]" by (simp_all add: set_bits_of.simps low_bits)
  have "set_bits_of 2 = [1]" by (subst set_bits_of.simps) (simp add: low_bits set_bits_of.simps)
  then show "set_bits_of 3 = [0, 1]" by (subst set_bits_of.simps) (simp add: low_bits)
qed

lemma race_granules:
  "granule_covers 0x1000 0x1000 4" "granule_covers 0x1000 0x1004 4" "\<not> granule_covers 0x1000 0x2000 4"
  "granule_covers 0x2000 0x2000 4"
  by (simp_all add: granule_covers_def unpack_granule_def saturating_add_def MIN_GRANULE_SHIFT_def Let_def word_less_nat_alt)

lemma held_nth: "held ! 0 = 0x1000" "held ! Suc 0 = 0x2000" "length held = 256"
  by (simp_all add: held_def)

lemma reserved_eq: "reserved = mem 1 1 ((replicate MONITOR_SLOTS 0)[0 := 0x1000])"
  by code_simp

lemma core1_slot: "mi_slot core1 = 1"
  by (simp add: core1_def)

lemma reserve_core1: "monitor_reserve core1 0x2000 k
    = clear_slot_then core1 (StoreSlot 1 0x2000 (OrLive 0 2 (\<lambda>old. if old AND 2 = 0 then AddOut 1 k else k)))"
  by (simp add: monitor_reserve_def split_slot_def core1_def pack_granule_def MIN_GRANULE_SHIFT_def Let_def)

lemmas race_acts = act_note act_word act_bit act_clear_slot act_words_of race_bits race_granules core1_slot

text \<open>One core stores to the granule another holds while a third reserves elsewhere.\<close>

definition two_cores :: cores where
  "two_cores = ([note_store 0x1004 4 (Ret True), monitor_reserve core1 0x2000 (Ret True)], reserved)"

theorem store_breaks_reservation_witness:
  "\<not> slot_live (snd (cores_run (0 # [1, 1, 0, 1, 0, 0, 0, 1, 0, 0, 0, 0]) two_cores)) 0
   \<and> slot_live (snd two_cores) 0"
proof -
  have debts: "debt (note_store 0x1004 4 (Ret True)) = 0" "debt (monitor_reserve core1 0x2000 (Ret True)) = 0"
    by (auto intro!: counted_debt counted_intros cores_id_ok)
  then have ok: "cores_ok two_cores"
    using exact_reserved
    by (auto simp: two_cores_def cores_ok_def exact_def core_ok_def intro: counted_intros cores_id_ok)
  note debts
  moreover have "spares 0 (note_store 0x1004 4 (Ret True))" "spares 0 (monitor_reserve core1 0x2000 (Ret True))"
    by (auto intro!: spares_note_store spares_reserve simp: core1_def)
  moreover have "granule_covers (mo_slots reserved ! 0) 0x1004 4"
    by (simp add: reserved_eq mem_def race_granules)
  moreover have "returned (fst (cores_run (0 # [1, 1, 0, 1, 0, 0, 0, 1, 0, 0, 0, 0]) two_cores) ! 0)"
    by (simp add: two_cores_def reserved_eq reserve_core1 cores_run_def core_step_def race_acts returned_def
          del: break_bits.simps(2) break_words.simps(2) act.simps(3,6,8))
  ultimately have "\<not> slot_live (snd (cores_run (0 # [1, 1, 0, 1, 0, 0, 0, 1, 0, 0, 0, 0]) two_cores)) 0"
    using ok unfolding two_cores_def returned_iff
    by (intro store_breaks_reservation [where k = "Ret True" and addr = "0x1004" and bytes = 4 and b = True]) simp_all
  moreover have "slot_live (snd two_cores) 0" by (simp add: two_cores_def reserved_eq mem_def slot_live_def)
  ultimately show ?thesis by blast
qed

section \<open>A store that leaves a reservation standing\<close>

text \<open>A plain store as the space performs it: the monitor is told on both sides of the transfer.\<close>

definition plain_store :: "u64 \<Rightarrow> u64 \<Rightarrow> prog \<Rightarrow> prog" where
  "plain_store addr bytes k = note_store addr bytes (note_store addr bytes k)"

definition racing :: cores where
  "racing = ([monitor_reserve core1 0x2000 (Ret True), plain_store 0x2000 4 (plain_store 0x1000 4 (Ret True))], reserved)"

definition race_schedule :: "nat list" where
  "race_schedule = [0, 0, 0] @ replicate 13 1 @ [0]"

lemma published:
  "cores_run [0, 0, 0] racing = ([AddOut 1 (Ret True), snd_core], mem 1 3 held)"
  if "snd_core = plain_store 0x2000 4 (plain_store 0x1000 4 (Ret True))"
  using that
  by (simp add: cores_run_def core_step_def racing_def reserved_eq reserve_core1 race_acts held_def del: act.simps(3,6,8))

lemma race_steps: "replicate 13 (1 :: nat) = [1, 1, 1, 1, 1, 1, 1, 1, 1, 1, 1, 1, 1]"
  by (simp add: numeral_eq_Suc)

lemma raced: "cores_run race_schedule racing = ([Ret True, Ret True], mem 1 1 held)"
proof -
  have "cores_run race_schedule racing = cores_run (replicate 13 1 @ [0]) (cores_run [0, 0, 0] racing)"
    by (simp only: cores_run_def race_schedule_def fold_append comp_apply)
  also have "\<dots> = ([Ret True, Ret True], mem 1 1 held)"
    unfolding published [OF refl] race_steps
    by (simp add: cores_run_def core_step_def plain_store_def race_acts held_nth
          del: break_bits.simps(2) break_words.simps(2) act.simps(3,6,8))
  finally show ?thesis .
qed

text \<open>
  C30: The required direction can fail. A core holds a reservation of the
  granule at \<open>0x1000\<close>; a second has published one at \<open>0x2000\<close> and not yet
  counted it; a third stores to \<open>0x2000\<close>, which takes the count to zero, and
  then to \<open>0x1000\<close>: both looks at the count find zero, and the store completes,
  the second core finishes and the first core's reservation still stands.
\<close>

theorem reservation_survives_store:
  "fst (cores_run race_schedule racing) = [Ret True, Ret True]
   \<and> granule_covers (mo_slots (snd (cores_run race_schedule racing)) ! 0) 0x1000 4
   \<and> fst (run_prog (monitor_holds core0 Ret) (snd (cores_run race_schedule racing)))"
  by (simp add: raced run_holds mem_def held_nth race_granules slot_live_def core0_def)

end
