(* ===== verification/Space_Attrs.thy ===== *)
theory Space_Attrs
  imports Core_Value
begin

text \<open>
  \<open>core/space/attrs.rs\<close>: the terms a mapping answers on, the attributes an
  access carries, and what a region accepts. Addresses and offsets of the
  address space are \<open>u64\<close> values held as natural numbers.
\<close>

section \<open>Permissions\<close>

text \<open>\<open>Perms(pub u8)\<close> with its constants and set operations.\<close>

type_synonym perms = u8

abbreviation PERM_NONE :: perms where "PERM_NONE \<equiv> 0"
abbreviation PERM_READ :: perms where "PERM_READ \<equiv> 1"
abbreviation PERM_WRITE :: perms where "PERM_WRITE \<equiv> 2"
abbreviation PERM_EXEC :: perms where "PERM_EXEC \<equiv> 4"
abbreviation PERM_RW :: perms where "PERM_RW \<equiv> 3"
abbreviation PERM_RX :: perms where "PERM_RX \<equiv> 5"
abbreviation PERM_RWX :: perms where "PERM_RWX \<equiv> 7"

definition perms_contains :: "perms \<Rightarrow> perms \<Rightarrow> bool" where
  "perms_contains p q \<longleftrightarrow> p AND q = q"

definition perms_union :: "perms \<Rightarrow> perms \<Rightarrow> perms" where
  "perms_union p q = p OR q"

definition perms_intersect :: "perms \<Rightarrow> perms \<Rightarrow> perms" where
  "perms_intersect p q = p AND q"

definition perms_without :: "perms \<Rightarrow> perms \<Rightarrow> perms" where
  "perms_without p q = p AND (NOT q)"

definition perms_is_none :: "perms \<Rightarrow> bool" where
  "perms_is_none p \<longleftrightarrow> p = 0"

section \<open>Attributes of an access\<close>

type_synonym access_purpose = u8

abbreviation PURPOSE_DATA :: access_purpose where "PURPOSE_DATA \<equiv> 0"
abbreviation PURPOSE_FETCH :: access_purpose where "PURPOSE_FETCH \<equiv> 1"

record mem_attrs =
  ma_requester :: u32
  ma_secure :: bool
  ma_privileged :: bool
  ma_exclusive :: bool
  ma_purpose :: access_purpose
  ma_debug :: bool
  ma_bus :: u8
  ma_core_bus :: u8

definition ATTRS_DEFAULT :: mem_attrs where
  "ATTRS_DEFAULT = \<lparr>ma_requester = 0, ma_secure = False, ma_privileged = False,
     ma_exclusive = False, ma_purpose = PURPOSE_DATA, ma_debug = False, ma_bus = 0, ma_core_bus = 0\<rparr>"

definition ATTRS_DEBUG :: mem_attrs where
  "ATTRS_DEBUG = \<lparr>ma_requester = 0, ma_secure = True, ma_privileged = True,
     ma_exclusive = False, ma_purpose = PURPOSE_DATA, ma_debug = True, ma_bus = 0, ma_core_bus = 0\<rparr>"

definition attrs_is_fetch :: "mem_attrs \<Rightarrow> bool" where
  "attrs_is_fetch a \<longleftrightarrow> ma_purpose a = PURPOSE_FETCH"

definition read_perm :: "mem_attrs \<Rightarrow> perms" where
  "read_perm a = (if attrs_is_fetch a \<and> \<not> ma_debug a then PERM_EXEC else PERM_READ)"

section \<open>What a region accepts\<close>

record access_constraints =
  ac_min :: width
  ac_max :: width
  ac_natural_alignment :: bool
  ac_endian :: endian
  ac_allow_bulk :: bool
  ac_secure_only :: bool
  ac_privileged_only :: bool
  ac_drives_data_bus :: bool

definition CONSTRAINTS_ANY :: access_constraints where
  "CONSTRAINTS_ANY = \<lparr>ac_min = U8, ac_max = U64, ac_natural_alignment = False, ac_endian = Little,
     ac_allow_bulk = True, ac_secure_only = False, ac_privileged_only = False, ac_drives_data_bus = True\<rparr>"

definition CONSTRAINTS_IO :: access_constraints where
  "CONSTRAINTS_IO = CONSTRAINTS_ANY\<lparr>ac_allow_bulk := False\<rparr>"

definition constraints_word :: "width \<Rightarrow> endian \<Rightarrow> access_constraints" where
  "constraints_word w e = \<lparr>ac_min = w, ac_max = w, ac_natural_alignment = True, ac_endian = e,
     ac_allow_bulk = False, ac_secure_only = False, ac_privileged_only = False, ac_drives_data_bus = True\<rparr>"

text \<open>The derived order on \<open>Width\<close> is that of its constructors, narrowest first.\<close>

definition width_less :: "width \<Rightarrow> width \<Rightarrow> bool" where
  "width_less v w \<longleftrightarrow> width_bytes v < width_bytes w"

definition check_attrs :: "access_constraints \<Rightarrow> mem_attrs \<Rightarrow> bus_error + unit" where
  "check_attrs c a =
     (if ac_secure_only c \<and> \<not> ma_secure a \<or> ac_privileged_only c \<and> \<not> ma_privileged a
      then Inl BadAccess else Inr ())"

definition check_access :: "access_constraints \<Rightarrow> nat \<Rightarrow> width \<Rightarrow> mem_attrs \<Rightarrow> bus_error + unit" where
  "check_access c off w a =
     rbind (check_attrs c a) (\<lambda>_.
       if width_less w (ac_min c) \<or> width_less (ac_max c) w then Inl BadAccess
       else if ac_natural_alignment c \<and> \<not> width_is_aligned w (of_nat off) then Inl BadAccess
       else Inr ())"

definition check_bulk :: "access_constraints \<Rightarrow> nat \<Rightarrow> nat \<Rightarrow> mem_attrs \<Rightarrow> bus_error + unit" where
  "check_bulk c off len a =
     (case width_from_bytes len of
        Some w \<Rightarrow> if is_ok (check_access c off w a) then Inr ()
                  else rbind (check_attrs c a) (\<lambda>_. if ac_allow_bulk c then Inr () else Inl BadAccess)
      | None \<Rightarrow> rbind (check_attrs c a) (\<lambda>_. if ac_allow_bulk c then Inr () else Inl BadAccess))"

section \<open>Permission sets\<close>

lemma perms_contains_intersect [simp]:
  "perms_contains (perms_intersect p q) r \<longleftrightarrow> perms_contains p r \<and> perms_contains q r"
proof
  assume "perms_contains (perms_intersect p q) r"
  then have r: "p AND q AND r = r" by (simp add: perms_contains_def perms_intersect_def ac_simps)
  have "p AND (p AND q AND r) = p AND q AND r" "q AND (p AND q AND r) = p AND q AND r"
    by (simp_all add: and.left_commute)
  then show "perms_contains p r \<and> perms_contains q r"
    unfolding r by (simp add: perms_contains_def)
next
  assume "perms_contains p r \<and> perms_contains q r"
  then show "perms_contains (perms_intersect p q) r"
    by (metis and.assoc perms_contains_def perms_intersect_def)
qed

lemma perms_contains_RWX [simp]:
  "perms_contains PERM_RWX PERM_READ" "perms_contains PERM_RWX PERM_WRITE"
  "perms_contains PERM_RWX PERM_EXEC"
  by (simp_all add: perms_contains_def)

lemma perms_intersect_assoc: "perms_intersect (perms_intersect p q) r = perms_intersect p (perms_intersect q r)"
  by (simp add: perms_intersect_def and.assoc)

lemma check_bulk_any [simp]: "check_bulk CONSTRAINTS_ANY off len a = Inr ()"
  by (simp add: check_bulk_def check_attrs_def CONSTRAINTS_ANY_def split: option.splits)

end
