(* ===== verification/Space_Region.thy ===== *)
theory Space_Region
  imports Space_Attrs
begin

text \<open>
  \<open>core/space/region.rs\<close>: the region tree a machine description builds. A
  shared handle (\<open>Arc\<close>) to a store or to a device is its address, a number;
  \<open>Arc::ptr_eq\<close> is equality of addresses. A region is immutable but for the
  offset of an alias, which lives in a cell of its own: cells are an explicit
  store indexed by the alias they were allocated with, so a tree that reaches
  one alias by two paths shares its offset, as the code does.
\<close>

section \<open>The tree\<close>

type_synonym arc = nat
type_synonym alias_id = nat

datatype rom_write = RomIgnore | RomFault

datatype combine_policy = Priority | WiredOr | WiredAnd | Conflict

datatype region =
    Region (r_name: string) (r_len: nat) (r_constraints: access_constraints)
      (r_kind: region_kind) (r_depth: nat)
and region_kind =
    KRam arc
  | KRom arc rom_write
  | KIo arc
  | KAlias alias_node
  | KContainer "mapping list" combine_policy
and alias_node =
    Alias (al_target: region) (al_id: alias_id) (al_rebasable: bool) (al_repeat: bool)
and mapping =
    Mapping (m_region: region) (m_base: nat) (m_priority: int) (m_perms: perms)

text \<open>The alias cells of the process and the counter the next alias is numbered from.\<close>

record alias_cells =
  ac_next :: nat
  ac_offset :: "alias_id \<Rightarrow> nat"

datatype space_text =
    AtName string
  | MsgSplitNotIo | MsgSplitSizes | MsgSplitWidths | MsgSplitEndian
  | MsgAliasOverflows | MsgAliasDoesNotFit
  | MsgMirrorEmpty | MsgMirrorNotLeaf
  | MsgNestsTooDeeply | MsgRepeatNotLeaf
  | MsgNotAnAlias | MsgNotRebasable | MsgRunsOffTarget
  | MsgTooDeepToMap | MsgDoesNotFitSpace | MsgNoSuchMapping

type_synonym space_error = "space_text error"

section \<open>Accessors\<close>

definition region_is_empty :: "region \<Rightarrow> bool" where
  "region_is_empty r \<longleftrightarrow> r_len r = 0"

definition alias_offset :: "alias_cells \<Rightarrow> alias_node \<Rightarrow> nat" where
  "alias_offset c a = ac_offset c (al_id a)"

definition alias_period :: "alias_node \<Rightarrow> nat option" where
  "alias_period a =
     (if al_repeat a \<and> \<not> region_is_empty (al_target a) then Some (r_len (al_target a)) else None)"

definition mapping_new :: "region \<Rightarrow> nat \<Rightarrow> mapping" where
  "mapping_new r base = Mapping r base 0 PERM_RWX"

definition mapping_with_priority :: "mapping \<Rightarrow> int \<Rightarrow> mapping" where
  "mapping_with_priority m p = Mapping (m_region m) (m_base m) p (m_perms m)"

definition mapping_with_perms :: "mapping \<Rightarrow> perms \<Rightarrow> mapping" where
  "mapping_with_perms m p = Mapping (m_region m) (m_base m) (m_priority m) p"

definition mapping_end :: "mapping \<Rightarrow> nat" where
  "mapping_end m = saturating_add64 (m_base m) (r_len (m_region m))"

definition as_alias :: "region \<Rightarrow> alias_node option" where
  "as_alias r = (case r_kind r of KAlias a \<Rightarrow> Some a | _ \<Rightarrow> None)"

definition as_container :: "region \<Rightarrow> (mapping list \<times> combine_policy) option" where
  "as_container r = (case r_kind r of KContainer ms p \<Rightarrow> Some (ms, p) | _ \<Rightarrow> None)"

definition resolves_to_leaf :: "region \<Rightarrow> bool" where
  "resolves_to_leaf r =
     (case r_kind r of
        KRam _ \<Rightarrow> True | KRom _ _ \<Rightarrow> True | KIo _ \<Rightarrow> True
      | KAlias a \<Rightarrow> al_rebasable a \<and> \<not> al_repeat a
      | KContainer _ _ \<Rightarrow> False)"

section \<open>Construction\<close>

definition saturating_add32 :: "nat \<Rightarrow> nat \<Rightarrow> nat" where
  "saturating_add32 a b = min (a + b) (2 ^ 32 - 1)"

definition region_ram :: "string \<Rightarrow> arc \<Rightarrow> nat \<Rightarrow> region" where
  "region_ram name store store_len = Region name store_len CONSTRAINTS_ANY (KRam store) 1"

definition region_rom :: "string \<Rightarrow> arc \<Rightarrow> nat \<Rightarrow> rom_write \<Rightarrow> region" where
  "region_rom name store store_len on_write =
     Region name store_len CONSTRAINTS_ANY (KRom store on_write) 1"

text \<open>\<open>ops.constraints()\<close> is the device's own method; its answer is an argument.\<close>

definition region_io :: "string \<Rightarrow> nat \<Rightarrow> arc \<Rightarrow> access_constraints \<Rightarrow> region" where
  "region_io name len ops ops_constraints = Region name len ops_constraints (KIo ops) 1"

text \<open>
  \<open>Region::split\<close>: the two sides become one device. The result carries the
  \<open>Split\<close> object, which the caller stores behind the fresh handle \<open>fresh\<close>.
\<close>

record split_ops =
  sp_reads :: arc
  sp_writes :: arc
  sp_constraints :: access_constraints

definition plain_io :: "string \<Rightarrow> region \<Rightarrow> space_error + arc" where
  "plain_io name side =
     (case r_kind side of KIo ops \<Rightarrow> Inr ops | _ \<Rightarrow> Inl (Config (AtName name) MsgSplitNotIo))"

definition region_split :: "string \<Rightarrow> arc \<Rightarrow> region \<Rightarrow> region \<Rightarrow> space_error + (split_ops \<times> region)" where
  "region_split name fresh reads writes =
     rbind (plain_io name reads) (\<lambda>read_ops.
     rbind (plain_io name writes) (\<lambda>write_ops.
     if r_len reads \<noteq> r_len writes then Inl (Config (AtName name) MsgSplitSizes)
     else
       let c = r_constraints reads; w = r_constraints writes in
       if ac_min c \<noteq> ac_min w \<or> ac_max c \<noteq> ac_max w then Inl (Config (AtName name) MsgSplitWidths)
       else if ac_endian c \<noteq> ac_endian w then Inl (Config (AtName name) MsgSplitEndian)
       else Inr (\<lparr>sp_reads = read_ops, sp_writes = write_ops, sp_constraints = c\<rparr>,
                 Region name (r_len reads) c (KIo fresh) 1)))"

definition alloc_alias :: "alias_cells \<Rightarrow> nat \<Rightarrow> alias_cells \<times> alias_id" where
  "alloc_alias c offset =
     (c\<lparr>ac_next := wrapping_add64 (ac_next c) 1, ac_offset := (ac_offset c)(ac_next c := offset)\<rparr>,
      ac_next c)"

definition region_alias ::
  "alias_cells \<Rightarrow> string \<Rightarrow> region \<Rightarrow> nat \<Rightarrow> nat \<Rightarrow> space_error + (alias_cells \<times> region)" where
  "region_alias c name target offset len =
     rbind (ok_or (checked_u64 (offset + len)) (Config (AtName name) MsgAliasOverflows)) (\<lambda>e.
     if r_len target < e then Inl (Config (AtName name) MsgAliasDoesNotFit)
     else
       let (c', i) = alloc_alias c offset in
       Inr (c', Region name len (r_constraints target)
                  (KAlias (Alias target i (resolves_to_leaf target) False))
                  (saturating_add32 (r_depth target) 1)))"

definition is_leaf_kind :: "region_kind \<Rightarrow> bool" where
  "is_leaf_kind k = (case k of KRam _ \<Rightarrow> True | KRom _ _ \<Rightarrow> True | KIo _ \<Rightarrow> True | _ \<Rightarrow> False)"

definition region_mirror ::
  "alias_cells \<Rightarrow> string \<Rightarrow> region \<Rightarrow> nat \<Rightarrow> space_error + (alias_cells \<times> region)" where
  "region_mirror c name target len =
     (if region_is_empty target then Inl (Config (AtName name) MsgMirrorEmpty)
      else if \<not> is_leaf_kind (r_kind target) then Inl (Config (AtName name) MsgMirrorNotLeaf)
      else
        let (c', i) = alloc_alias c 0 in
        Inr (c', Region name len (r_constraints target) (KAlias (Alias target i False True))
                   (saturating_add32 (r_depth target) 1)))"

text \<open>\<open>children.iter().map(depth).max().unwrap_or(0)\<close>\<close>

definition max_depth :: "mapping list \<Rightarrow> nat" where
  "max_depth ms = foldr (\<lambda>m d. max (r_depth (m_region m)) d) ms 0"

definition container_with :: "string \<Rightarrow> nat \<Rightarrow> mapping list \<Rightarrow> combine_policy \<Rightarrow> region" where
  "container_with name len children combine =
     Region name len CONSTRAINTS_ANY (KContainer children combine)
       (saturating_add32 (max_depth children) 1)"

definition container :: "string \<Rightarrow> nat \<Rightarrow> mapping list \<Rightarrow> region" where
  "container name len children = container_with name len children Priority"

definition with_constraints :: "region \<Rightarrow> access_constraints \<Rightarrow> region" where
  "with_constraints r c = Region (r_name r) (r_len r) c (r_kind r) (r_depth r)"

definition with_endian :: "region \<Rightarrow> endian \<Rightarrow> region" where
  "with_endian r e = with_constraints r ((r_constraints r)\<lparr>ac_endian := e\<rparr>)"

definition with_len :: "region \<Rightarrow> nat \<Rightarrow> region" where
  "with_len r len = Region (r_name r) len (r_constraints r) (r_kind r) (r_depth r)"

section \<open>What every constructor guarantees\<close>

text \<open>
  Lengths and bases are \<open>u64\<close> values; the recorded depth is one more than
  that of what is below; a repeating window has a leaf of positive size behind
  it; and an alias is rebasable exactly when it resolves to a leaf.
\<close>

fun region_wf :: "region \<Rightarrow> bool" and kind_wf :: "nat \<Rightarrow> region_kind \<Rightarrow> bool"
  and alias_wf :: "nat \<Rightarrow> alias_node \<Rightarrow> bool" and mapping_wf :: "mapping \<Rightarrow> bool" where
  "region_wf (Region _ len _ k d) \<longleftrightarrow> len < two64 \<and> kind_wf d k"
| "kind_wf d (KRam _) \<longleftrightarrow> d = 1"
| "kind_wf d (KRom _ _) \<longleftrightarrow> d = 1"
| "kind_wf d (KIo _) \<longleftrightarrow> d = 1"
| "kind_wf d (KAlias a) \<longleftrightarrow> alias_wf d a"
| "kind_wf d (KContainer ms _) \<longleftrightarrow>
     list_all mapping_wf ms \<and> d = saturating_add32 (max_depth ms) 1"
| "alias_wf d (Alias t _ rebasable repeat) \<longleftrightarrow>
     region_wf t \<and> d = saturating_add32 (r_depth t) 1 \<and>
     (if repeat then is_leaf_kind (r_kind t) \<and> r_len t \<noteq> 0 \<and> \<not> rebasable
      else rebasable = resolves_to_leaf t)"
| "mapping_wf (Mapping r base _ _) \<longleftrightarrow> region_wf r \<and> base < two64"

lemma region_wf_ram [wf_intros]: "n < two64 \<Longrightarrow> region_wf (region_ram name s n)"
  by (simp add: region_ram_def)

lemma region_wf_rom [wf_intros]: "n < two64 \<Longrightarrow> region_wf (region_rom name s n w)"
  by (simp add: region_rom_def)

lemma region_wf_io [wf_intros]: "n < two64 \<Longrightarrow> region_wf (region_io name n s c)"
  by (simp add: region_io_def)

lemma region_wf_alias [wf_intros]:
  "region_alias c name t offset len = Inr (c', r) \<Longrightarrow> region_wf t \<Longrightarrow> region_wf r"
  by (auto simp: region_alias_def alloc_alias_def result_simps split: if_splits)

lemma region_wf_mirror [wf_intros]:
  "region_mirror c name t len = Inr (c', r) \<Longrightarrow> region_wf t \<Longrightarrow> len < two64 \<Longrightarrow> region_wf r"
  by (auto simp: region_mirror_def alloc_alias_def region_is_empty_def result_simps split: if_splits)

lemma region_wf_split [wf_intros]:
  "region_split name a reads writes = Inr (sp, r) \<Longrightarrow> region_wf reads \<Longrightarrow> region_wf r"
  by (cases reads) (auto simp: region_split_def Let_def result_simps split: if_splits)

lemma region_wf_container [wf_intros]:
  "list_all mapping_wf ms \<Longrightarrow> len < two64 \<Longrightarrow> region_wf (container_with name len ms p)"
  by (simp add: container_with_def)

lemma region_wf_with_constraints [wf_intros]: "region_wf r \<Longrightarrow> region_wf (with_constraints r c)"
  by (cases r) (simp add: with_constraints_def)

lemma region_wf_with_len [wf_intros]: "region_wf r \<Longrightarrow> n < two64 \<Longrightarrow> region_wf (with_len r n)"
  by (cases r) (simp add: with_len_def)

lemma mapping_wf_new [wf_intros]: "region_wf r \<Longrightarrow> b < two64 \<Longrightarrow> mapping_wf (mapping_new r b)"
  by (simp add: mapping_new_def)

lemma mapping_wf_alt: "mapping_wf m \<longleftrightarrow> region_wf (m_region m) \<and> m_base m < two64"
  by (cases m) simp

text \<open>A child's depth is below its container's while the limit is far from \<open>u32::MAX\<close>.\<close>

lemma max_depth_ge: "m \<in> set ms \<Longrightarrow> r_depth (m_region m) \<le> max_depth ms"
  by (induction ms) (auto simp: max_depth_def)

lemma depth_container:
  assumes "kind_wf d (KContainer ms p)" "d \<le> n" "n < 2 ^ 32 - 1" "m \<in> set ms"
  shows "r_depth (m_region m) < n"
  using assms max_depth_ge [OF assms(4)] by (auto simp: saturating_add32_def min_def split: if_splits)

lemma depth_alias:
  assumes "alias_wf d a" "d \<le> n" "n < 2 ^ 32 - 1"
  shows "r_depth (al_target a) < n"
  using assms by (cases a) (auto simp: saturating_add32_def min_def split: if_splits)

end
