(* ===== verification/Space_Flat.thy ===== *)
theory Space_Flat
  imports Space_Region Ordered_Map
begin

text \<open>
  \<open>core/space/flat.rs\<close>: flattening the region tree into a sorted list of
  disjoint entries, finding the entry of an address, and refreshing the cached
  offsets when an alias slides. The access half of the file is in
  \<open>Space_Access\<close>. \<open>partition_point\<close> is a binary search on a partitioned list
  and is the length of its prefix here. The tracing identity of an aperture
  (\<open>IoIds\<close>) is an argument: a map from the device to the number it was given.
\<close>

section \<open>Leaves, pieces and candidates\<close>

definition MAX_DEPTH :: nat where
  "MAX_DEPTH = 64"

datatype flat_target = TRam arc | TRom arc rom_write | TIo arc nat

definition REGION_ID_NONE :: nat where
  "REGION_ID_NONE = 65535"

record leaf_spec =
  ls_target :: flat_target
  ls_fixed :: nat
  ls_terms :: "alias_id list"
  ls_period :: nat
  ls_constraints :: access_constraints
  ls_perms :: perms

record flat_leaf =
  fl_target :: flat_target
  fl_offset :: nat
  fl_fixed :: nat
  fl_terms :: "alias_id list"
  fl_period :: nat
  fl_constraints :: access_constraints
  fl_perms :: perms

record piece =
  p_start :: nat
  p_len :: nat
  p_leaves :: "leaf_spec list"
  p_combine :: combine_policy
  p_directed :: bool

record cand =
  cd_start :: nat
  cd_len :: nat
  cd_priority :: int
  cd_seq :: nat
  cd_leaves :: "leaf_spec list"
  cd_combine :: combine_policy
  cd_directed :: bool

record descent =
  ds_depth :: nat
  ds_perms :: perms

datatype flat_failure = FlatError space_error | FlatPanic

definition sum_terms :: "alias_cells \<Rightarrow> nat \<Rightarrow> alias_id list \<Rightarrow> nat" where
  "sum_terms c fixed terms = foldl (\<lambda>v i. wrapping_add64 v (ac_offset c i)) fixed terms"

definition spec_offset :: "alias_cells \<Rightarrow> leaf_spec \<Rightarrow> nat" where
  "spec_offset c l = sum_terms c (ls_fixed l) (ls_terms l)"

type_synonym io_ids = "arc \<Rightarrow> nat option"

definition io_id_of :: "io_ids \<Rightarrow> arc \<Rightarrow> nat" where
  "io_id_of ids ops = (case ids ops of Some n \<Rightarrow> n | None \<Rightarrow> REGION_ID_NONE)"

definition into_leaf :: "io_ids \<Rightarrow> alias_cells \<Rightarrow> leaf_spec \<Rightarrow> flat_leaf" where
  "into_leaf ids c l =
     \<lparr>fl_target = (case ls_target l of TIo ops _ \<Rightarrow> TIo ops (io_id_of ids ops) | t \<Rightarrow> t),
      fl_offset = spec_offset c l, fl_fixed = ls_fixed l, fl_terms = ls_terms l,
      fl_period = ls_period l, fl_constraints = ls_constraints l, fl_perms = ls_perms l\<rparr>"

text \<open>\<open>LeafSpec::continues\<close>; a term is an alias and its cell, which come together.\<close>

definition leaf_continues :: "leaf_spec \<Rightarrow> leaf_spec \<Rightarrow> nat \<Rightarrow> bool" where
  "leaf_continues l l' len \<longleftrightarrow>
     \<not> (ls_period l \<noteq> 0 \<or> ls_period l' \<noteq> 0) \<and>
     (case (ls_target l, ls_target l') of
        (TRam a, TRam b) \<Rightarrow> a = b
      | (TRom a wa, TRom b wb) \<Rightarrow> a = b \<and> wa = wb
      | (TIo a ia, TIo b ib) \<Rightarrow> a = b \<and> ia = ib
      | _ \<Rightarrow> False) \<and>
     ls_constraints l = ls_constraints l' \<and> ls_perms l = ls_perms l' \<and>
     length (ls_terms l) = length (ls_terms l') \<and>
     list_all (\<lambda>(a, b). a = b) (zip (ls_terms l) (ls_terms l')) \<and>
     wrapping_add64 (ls_fixed l) len = ls_fixed l'"

definition cand_end :: "cand \<Rightarrow> nat" where
  "cand_end c = saturating_add64 (cd_start c) (cd_len c)"

definition leaves_answer :: "leaf_spec list \<Rightarrow> perms \<Rightarrow> bool" where
  "leaves_answer ls want \<longleftrightarrow> list_ex (\<lambda>l. perms_contains (ls_perms l) want) ls"

definition into_child :: "descent \<Rightarrow> perms \<Rightarrow> descent" where
  "into_child d p = \<lparr>ds_depth = ds_depth d + 1, ds_perms = perms_intersect (ds_perms d) p\<rparr>"

definition leaf_target :: "region \<Rightarrow> flat_target option" where
  "leaf_target r =
     (case r_kind r of
        KRam s \<Rightarrow> Some (TRam s) | KRom s w \<Rightarrow> Some (TRom s w)
      | KIo ops \<Rightarrow> Some (TIo ops REGION_ID_NONE) | _ \<Rightarrow> None)"

section \<open>The sweep\<close>

text \<open>\<open>resolve_overlaps\<close>, one definition per step of its loop.\<close>

definition sweep_bounds :: "cand list \<Rightarrow> nat list" where
  "sweep_bounds cands = remdups_adj (sort (concat (map (\<lambda>c. [cd_start c, cand_end c]) cands)))"

definition arrivals :: "cand list \<Rightarrow> nat list" where
  "arrivals cands = sort_key (\<lambda>i. cd_start (cands ! i)) [0..<length cands]"

text \<open>\<open>rank(j) < rank(i)\<close>: the triple of \<open>Reverse\<close>s in lexicographic order.\<close>

definition rank_less :: "cand list \<Rightarrow> nat \<Rightarrow> nat \<Rightarrow> bool" where
  "rank_less cands j i \<longleftrightarrow>
     (let cj = cands ! j; ci = cands ! i in
      cd_priority ci < cd_priority cj \<or>
      cd_priority ci = cd_priority cj \<and>
        (cd_seq ci < cd_seq cj \<or> cd_seq ci = cd_seq cj \<and> i < j))"

definition insert_ranked :: "cand list \<Rightarrow> nat \<Rightarrow> nat list \<Rightarrow> nat list" where
  "insert_ranked cands i active =
     takeWhile (\<lambda>j. rank_less cands j i) active @ i # dropWhile (\<lambda>j. rank_less cands j i) active"

fun admit :: "cand list \<Rightarrow> nat \<Rightarrow> nat list \<Rightarrow> nat list \<Rightarrow> nat list \<times> nat list" where
  "admit cands a [] active = ([], active)"
| "admit cands a (i # arr) active =
     (if cd_start (cands ! i) \<le> a then admit cands a arr (insert_ranked cands i active)
      else (i # arr, active))"

definition cut_leaves :: "nat \<Rightarrow> leaf_spec list \<Rightarrow> leaf_spec list" where
  "cut_leaves n ls = map (\<lambda>l. l\<lparr>ls_fixed := wrapping_add64 (ls_fixed l) n\<rparr>) ls"

definition cut_cand :: "cand list \<Rightarrow> nat \<Rightarrow> nat \<Rightarrow> leaf_spec list" where
  "cut_cand cands a i = cut_leaves (a - cd_start (cands ! i)) (cd_leaves (cands ! i))"

definition winner :: "cand list \<Rightarrow> nat list \<Rightarrow> perms \<Rightarrow> nat option" where
  "winner cands active want = find (\<lambda>i. leaves_answer (cd_leaves (cands ! i)) want) active"

definition decide_interval ::
  "cand list \<Rightarrow> combine_policy \<Rightarrow> nat list \<Rightarrow> nat \<Rightarrow> leaf_spec list \<times> combine_policy \<times> bool" where
  "decide_interval cands combine active a =
     (let read_win = winner cands active PERM_READ;
          write_win = winner cands active PERM_WRITE;
          combining = (combine \<noteq> Priority);
          split = (\<not> combining \<and>
            (case (read_win, write_win) of
               (Some r, Some w) \<Rightarrow> r \<noteq> w \<and> length (cd_leaves (cands ! r)) = 1
                                    \<and> length (cd_leaves (cands ! w)) = 1
             | _ \<Rightarrow> False))
      in if combining then (concat (map (cut_cand cands a) active), combine, False)
         else if split then
           (cut_cand cands a (the read_win) @ cut_cand cands a (the write_win), Priority, True)
         else
           let i = (case read_win of Some r \<Rightarrow> r
                    | None \<Rightarrow> (case write_win of Some w \<Rightarrow> w | None \<Rightarrow> hd active))
           in (cut_cand cands a i, cd_combine (cands ! i), cd_directed (cands ! i)))"

definition pieces_merge :: "piece \<Rightarrow> piece \<Rightarrow> bool" where
  "pieces_merge prev p \<longleftrightarrow>
     wrapping_add64 (p_start prev) (p_len prev) = p_start p \<and>
     p_combine prev = p_combine p \<and> p_directed prev = p_directed p \<and>
     length (p_leaves prev) = length (p_leaves p) \<and>
     list_all (\<lambda>(x, y). leaf_continues x y (p_len prev)) (zip (p_leaves prev) (p_leaves p))"

definition push_piece :: "piece list \<Rightarrow> piece \<Rightarrow> piece list" where
  "push_piece ps p =
     (if ps \<noteq> [] \<and> pieces_merge (last ps) p
      then butlast ps @ [(last ps)\<lparr>p_len := p_len (last ps) + p_len p\<rparr>]
      else ps @ [p])"

fun sweep_intervals ::
  "cand list \<Rightarrow> combine_policy \<Rightarrow> nat list \<Rightarrow> nat list \<Rightarrow> nat list \<Rightarrow> piece list \<Rightarrow> piece list" where
  "sweep_intervals cands combine (a # b # bs) arr active ps =
     (let (arr', admitted) = admit cands a arr active;
          active' = filter (\<lambda>i. b \<le> cand_end (cands ! i)) admitted
      in if active' = [] then sweep_intervals cands combine (b # bs) arr' active' ps
         else
           let (leaves, policy, directed) = decide_interval cands combine active' a;
               p = \<lparr>p_start = a, p_len = b - a, p_leaves = leaves, p_combine = policy,
                    p_directed = directed\<rparr>
           in sweep_intervals cands combine (b # bs) arr' active' (push_piece ps p))"
| "sweep_intervals cands combine [z] arr active ps = ps"
| "sweep_intervals cands combine [] arr active ps = ps"

definition resolve_overlaps :: "cand list \<Rightarrow> combine_policy \<Rightarrow> piece list" where
  "resolve_overlaps cands combine =
     (if cands = [] then []
      else sweep_intervals cands combine (sweep_bounds cands) (arrivals cands) [] [])"

section \<open>Walking the tree\<close>

definition leaf_piece :: "nat \<Rightarrow> flat_target \<Rightarrow> nat \<Rightarrow> nat \<Rightarrow> access_constraints \<Rightarrow> perms \<Rightarrow> piece" where
  "leaf_piece len target fixed period constraints perms =
     \<lparr>p_start = 0, p_len = len,
      p_leaves = [\<lparr>ls_target = target, ls_fixed = fixed, ls_terms = [], ls_period = period,
                   ls_constraints = constraints, ls_perms = perms\<rparr>],
      p_combine = Priority, p_directed = False\<rparr>"

definition map_leaves :: "(leaf_spec \<Rightarrow> leaf_spec) \<Rightarrow> piece list \<Rightarrow> piece list" where
  "map_leaves f ps = map (\<lambda>p. p\<lparr>p_leaves := map f (p_leaves p)\<rparr>) ps"

definition add_term :: "nat \<Rightarrow> alias_id \<Rightarrow> leaf_spec \<Rightarrow> leaf_spec" where
  "add_term cur i l = l\<lparr>ls_fixed := wrapping_sub64 (ls_fixed l) cur, ls_terms := ls_terms l @ [i]\<rparr>"

definition cand_of :: "nat \<Rightarrow> int \<Rightarrow> nat \<Rightarrow> piece \<Rightarrow> cand" where
  "cand_of shift priority seq p =
     \<lparr>cd_start = shift + p_start p, cd_len = p_len p, cd_priority = priority, cd_seq = seq,
      cd_leaves = p_leaves p, cd_combine = p_combine p, cd_directed = p_directed p\<rparr>"

function (sequential) resolve_region ::
    "alias_cells \<Rightarrow> region \<Rightarrow> nat \<Rightarrow> nat \<Rightarrow> descent \<Rightarrow> flat_failure + piece list"
  and resolve_children ::
    "alias_cells \<Rightarrow> mapping list \<Rightarrow> nat \<Rightarrow> nat \<Rightarrow> nat \<Rightarrow> combine_policy \<Rightarrow> descent
       \<Rightarrow> flat_failure + piece list"
  and collect_cands ::
    "alias_cells \<Rightarrow> nat \<Rightarrow> mapping list \<Rightarrow> nat \<Rightarrow> nat \<Rightarrow> nat \<Rightarrow> descent \<Rightarrow> flat_failure + cand list"
where
  "resolve_region c (Region name rlen cons k dep) off wanted d =
     (if MAX_DEPTH < ds_depth d then Inl (FlatError (Config (AtName name) MsgNestsTooDeeply))
      else
        let len = min wanted (rlen - off) in
        if len = 0 then Inr []
        else case k of
          KRam s \<Rightarrow> Inr [leaf_piece len (TRam s) off 0 cons (ds_perms d)]
        | KRom s w \<Rightarrow> Inr [leaf_piece len (TRom s w) off 0 cons (ds_perms d)]
        | KIo ops \<Rightarrow> Inr [leaf_piece len (TIo ops REGION_ID_NONE) off 0 cons (ds_perms d)]
        | KAlias (Alias t i rebasable repeat) \<Rightarrow>
            if repeat then
              (case alias_period (Alias t i rebasable repeat) of
                 None \<Rightarrow> Inl FlatPanic
               | Some period \<Rightarrow>
                   (case leaf_target t of
                      None \<Rightarrow> Inl (FlatError (Config (AtName name) MsgRepeatNotLeaf))
                    | Some target \<Rightarrow>
                        Inr [leaf_piece len target (off mod period) period cons (ds_perms d)]))
            else
              let cur = ac_offset c i in
              rbind (resolve_region c t (wrapping_add64 cur off) len (into_child d PERM_RWX)) (\<lambda>sub.
                let sub1 = (if cons \<noteq> r_constraints t
                            then map_leaves (\<lambda>l. l\<lparr>ls_constraints := cons\<rparr>) sub else sub);
                    sub2 = (if rebasable then map_leaves (add_term cur i) sub1 else sub1)
                in Inr sub2)
        | KContainer ms combine \<Rightarrow> resolve_children c ms rlen off len combine d)"
| "resolve_children c ms limit off len combine d =
     rbind (collect_cands c 0 ms limit off (saturating_add64 off len) d)
       (\<lambda>cands. Inr (resolve_overlaps cands combine))"
| "collect_cands c seq [] limit off want_end d = Inr []"
| "collect_cands c seq (Mapping r base priority perms # ms) limit off want_end d =
     (let child_end = min (mapping_end (Mapping r base priority perms)) limit;
          a = max base off;
          b = min child_end want_end
      in if b \<le> a then collect_cands c (Suc seq) ms limit off want_end d
         else
           rbind (resolve_region c r (a - base) (b - a) (into_child d perms)) (\<lambda>sub.
           rbind (collect_cands c (Suc seq) ms limit off want_end d) (\<lambda>cands.
             Inr (map (cand_of (a - off) priority seq) sub @ cands))))"
  by pat_completeness auto
termination
  by (relation "measure (case_sum (\<lambda>(_, r, _). 2 * size r)
        (case_sum (\<lambda>(_, ms, _). 2 * size_list size ms + 1) (\<lambda>(_, _, ms, _). 2 * size_list size ms)))")
     auto

section \<open>The view\<close>

datatype entry_kind = Single flat_leaf | Combine combine_policy "flat_leaf list"

record flat_entry =
  fe_start :: nat
  fe_len :: nat
  fe_kind :: entry_kind
  fe_write_to :: "flat_leaf option"
  fe_conflicts :: nat

definition entry_end :: "flat_entry \<Rightarrow> nat" where
  "entry_end e = wrapping_add64 (fe_start e) (fe_len e)"

definition from_piece :: "io_ids \<Rightarrow> alias_cells \<Rightarrow> piece \<Rightarrow> flat_entry" where
  "from_piece ids c p =
     (let (kind, write_to) =
        (case (p_directed p, p_leaves p) of
           (True, [r, w]) \<Rightarrow> (Single (into_leaf ids c r), Some (into_leaf ids c w))
         | (_, [l]) \<Rightarrow> (Single (into_leaf ids c l), None)
         | (_, ls) \<Rightarrow> (Combine (p_combine p) (map (into_leaf ids c) ls), None))
      in \<lparr>fe_start = p_start p, fe_len = p_len p, fe_kind = kind, fe_write_to = write_to,
          fe_conflicts = 0\<rparr>)"

definition WRITE_SIDE :: nat where
  "WRITE_SIDE = 4294967295"

text \<open>\<open>for_each_leaf\<close>: the leaves of an entry with the index each is filed under.\<close>

definition entry_leaves :: "flat_entry \<Rightarrow> (nat \<times> flat_leaf) list" where
  "entry_leaves e =
     (case fe_kind e of Single l \<Rightarrow> [(0, l)] | Combine _ ms \<Rightarrow> enumerate 0 ms) @
     (case fe_write_to e of Some l \<Rightarrow> [(WRITE_SIDE, l)] | None \<Rightarrow> [])"

type_synonym rebase_index = "(alias_id, (nat \<times> nat) list) bmap"

definition index_push :: "alias_id \<Rightarrow> nat \<times> nat \<Rightarrow> rebase_index \<Rightarrow> rebase_index" where
  "index_push i x idx =
     bmap_insert i ((case bmap_get idx i of Some xs \<Rightarrow> xs | None \<Rightarrow> []) @ [x]) idx"

definition u32_or_max :: "nat \<Rightarrow> nat" where
  "u32_or_max m = (if m < 2 ^ 32 then m else 4294967295)"

definition index_entry :: "nat \<Rightarrow> flat_entry \<Rightarrow> rebase_index \<Rightarrow> rebase_index" where
  "index_entry e entry idx =
     fold (\<lambda>(m, leaf). fold (\<lambda>i. index_push i (e mod 2 ^ 32, u32_or_max m)) (fl_terms leaf))
       (entry_leaves entry) idx"

definition rebase_index_of :: "flat_entry list \<Rightarrow> rebase_index" where
  "rebase_index_of entries = fold (\<lambda>(e, entry). index_entry e entry) (enumerate 0 entries) []"

definition flat_build ::
  "io_ids \<Rightarrow> alias_cells \<Rightarrow> mapping list \<Rightarrow> nat \<Rightarrow> combine_policy
     \<Rightarrow> flat_failure + (flat_entry list \<times> rebase_index)" where
  "flat_build ids c children limit combine =
     rbind (resolve_children c children limit 0 limit combine \<lparr>ds_depth = 0, ds_perms = PERM_RWX\<rparr>)
       (\<lambda>pieces.
         let entries = map (from_piece ids c) pieces
         in Inr (entries, rebase_index_of entries))"

definition flat_find :: "flat_entry list \<Rightarrow> nat \<Rightarrow> nat option" where
  "flat_find entries addr =
     (let i = length (takeWhile (\<lambda>e. fe_start e \<le> addr) entries) in
      if i = 0 then None
      else if addr < entry_end (entries ! (i - 1)) then Some (i - 1) else None)"

definition flat_extent :: "flat_entry list \<Rightarrow> nat" where
  "flat_extent entries = (if entries = [] then 0 else entry_end (last entries))"

section \<open>Refreshing a slid window\<close>

definition leaf_recompute :: "alias_cells \<Rightarrow> flat_leaf \<Rightarrow> flat_leaf" where
  "leaf_recompute c l = l\<lparr>fl_offset := sum_terms c (fl_fixed l) (fl_terms l)\<rparr>"

text \<open>\<open>leaf_at(index)\<close> followed by \<open>recompute\<close>; an index with no leaf changes nothing.\<close>

definition recompute_at :: "alias_cells \<Rightarrow> nat \<Rightarrow> flat_entry \<Rightarrow> flat_entry" where
  "recompute_at c m e =
     (if m = WRITE_SIDE then e\<lparr>fe_write_to := map_option (leaf_recompute c) (fe_write_to e)\<rparr>
      else case fe_kind e of
        Single l \<Rightarrow> if m = 0 then e\<lparr>fe_kind := Single (leaf_recompute c l)\<rparr> else e
      | Combine p ms \<Rightarrow>
          if m < length ms then e\<lparr>fe_kind := Combine p (ms[m := leaf_recompute c (ms ! m)])\<rparr> else e)"

definition flat_rebase ::
  "alias_cells \<Rightarrow> rebase_index \<Rightarrow> alias_id \<Rightarrow> flat_entry list \<Rightarrow> flat_entry list" where
  "flat_rebase c idx i entries =
     (case bmap_get idx i of
        None \<Rightarrow> entries
      | Some targets \<Rightarrow>
          fold (\<lambda>(e, m) es. if e < length es then es[e := recompute_at c m (es ! e)] else es)
            targets entries)"

end
