(* ===== verification/Space_Sweep.thy ===== *)
theory Space_Sweep
  imports Space_Flat
begin

text \<open>
  The sweep of \<open>resolve_overlaps\<close> against its meaning at one address. The
  sweep keeps a ranked set of active candidates across elementary intervals
  and merges neighbouring pieces that continue each other; at a single address
  that is the ranked list of the candidates that cover it, decided once.
\<close>

section \<open>Ranked lists\<close>

lemma rank_less_irrefl [simp]: "\<not> rank_less cands i i"
  by (simp add: rank_less_def)

lemma rank_less_trans: "rank_less cands i j \<Longrightarrow> rank_less cands j k \<Longrightarrow> rank_less cands i k"
  by (auto simp: rank_less_def Let_def)

lemma rank_less_linear: "i \<noteq> j \<Longrightarrow> rank_less cands i j \<or> rank_less cands j i"
  by (auto simp: rank_less_def Let_def)

lemma rank_less_asym: "rank_less cands i j \<Longrightarrow> \<not> rank_less cands j i"
  using rank_less_trans [of cands i j i] by auto

abbreviation ranked :: "cand list \<Rightarrow> nat list \<Rightarrow> bool" where
  "ranked cands \<equiv> sorted_wrt (rank_less cands)"

lemma ranked_unique:
  "ranked cands xs \<Longrightarrow> ranked cands ys \<Longrightarrow> set xs = set ys \<Longrightarrow> xs = ys"
proof (induction xs arbitrary: ys)
  case Nil
  then show ?case by simp
next
  case (Cons x xs)
  then obtain y ys' where ys: "ys = y # ys'" by (cases ys) auto
  have "x = y"
    using Cons.prems rank_less_asym unfolding ys by (metis insert_iff list.simps(15) sorted_wrt.simps(2))
  moreover have "x \<notin> set xs" "y \<notin> set ys'"
    using Cons.prems unfolding ys by auto
  ultimately have "set xs = set ys'"
    using Cons.prems unfolding ys by auto
  with Cons \<open>x = y\<close> show ?case unfolding ys by simp
qed

lemma set_insert_ranked [simp]: "set (insert_ranked cands i xs) = insert i (set xs)"
proof -
  have "set xs = set (takeWhile (\<lambda>j. rank_less cands j i) xs) \<union> set (dropWhile (\<lambda>j. rank_less cands j i) xs)"
    by (metis set_append takeWhile_dropWhile_id)
  then show ?thesis by (auto simp: insert_ranked_def)
qed

lemma ranked_insert:
  assumes "ranked cands xs" "i \<notin> set xs"
  shows "ranked cands (insert_ranked cands i xs)"
  using assms
proof (induction xs)
  case Nil
  then show ?case by (simp add: insert_ranked_def)
next
  case (Cons x xs)
  show ?case
  proof (cases "rank_less cands x i")
    case True
    then have "insert_ranked cands i (x # xs) = x # insert_ranked cands i xs"
      by (simp add: insert_ranked_def)
    with Cons True show ?thesis by auto
  next
    case False
    with Cons.prems have "rank_less cands i x" using rank_less_linear by auto
    then show ?thesis
      using Cons.prems False by (auto simp: insert_ranked_def intro: rank_less_trans)
  qed
qed

text \<open>The candidates that cover an address, best first.\<close>

definition cand_covers :: "cand \<Rightarrow> nat \<Rightarrow> bool" where
  "cand_covers c x \<longleftrightarrow> cd_start c \<le> x \<and> x < cand_end c"

definition covering :: "cand list \<Rightarrow> nat \<Rightarrow> nat list" where
  "covering cands x =
     foldr (insert_ranked cands) (filter (\<lambda>i. cand_covers (cands ! i) x) [0..<length cands]) []"

lemma foldr_insert_ranked:
  "distinct xs \<Longrightarrow> set (foldr (insert_ranked cands) xs []) = set xs
     \<and> ranked cands (foldr (insert_ranked cands) xs [])"
  by (induction xs) (auto intro: ranked_insert)

lemma covering_set: "set (covering cands x) = {i. i < length cands \<and> cand_covers (cands ! i) x}"
  using foldr_insert_ranked [of "filter (\<lambda>i. cand_covers (cands ! i) x) [0..<length cands]" cands]
  by (auto simp: covering_def)

lemma covering_ranked: "ranked cands (covering cands x)"
  using foldr_insert_ranked [of "filter (\<lambda>i. cand_covers (cands ! i) x) [0..<length cands]" cands]
  by (auto simp: covering_def)

lemma covering_eqI:
  "ranked cands xs \<Longrightarrow> set xs = {i. i < length cands \<and> cand_covers (cands ! i) x}
     \<Longrightarrow> covering cands x = xs"
  by (rule ranked_unique [OF covering_ranked]) (auto simp: covering_set)

lemma covering_empty: "\<forall>i<length cands. \<not> cand_covers (cands ! i) x \<Longrightarrow> covering cands x = []"
  by (rule covering_eqI) auto

section \<open>Admission\<close>

lemma admit_spec:
  assumes "admit cands a arr active = (arr', active')"
    and "sorted (map (\<lambda>i. cd_start (cands ! i)) arr)" "distinct arr"
    and "ranked cands active" "set arr \<inter> set active = {}"
  shows "ranked cands active'
     \<and> set active' = set active \<union> {i \<in> set arr. cd_start (cands ! i) \<le> a}
     \<and> set arr' = {i \<in> set arr. a < cd_start (cands ! i)}
     \<and> sorted (map (\<lambda>i. cd_start (cands ! i)) arr') \<and> distinct arr'"
  using assms
proof (induction cands a arr active rule: admit.induct)
  case (2 cands a i arr active)
  show ?case
  proof (cases "cd_start (cands ! i) \<le> a")
    case True
    have "ranked cands (insert_ranked cands i active)"
      using 2(4-) by (intro ranked_insert) auto
    moreover have "set arr \<inter> set (insert_ranked cands i active) = {}"
      using 2(4-) by auto
    ultimately have *: "ranked cands active'
       \<and> set active' = set (insert_ranked cands i active) \<union> {i \<in> set arr. cd_start (cands ! i) \<le> a}
       \<and> set arr' = {i \<in> set arr. a < cd_start (cands ! i)}
       \<and> sorted (map (\<lambda>i. cd_start (cands ! i)) arr') \<and> distinct arr'"
      using 2(1) [OF True] 2(2-4) True by simp
    with True show ?thesis by auto
  next
    case False
    with 2(2-) show ?thesis by force
  qed
qed auto

section \<open>What a list of pieces answers\<close>

type_synonym answer = "leaf_spec list \<times> combine_policy \<times> bool"

definition piece_covers :: "nat \<Rightarrow> piece \<Rightarrow> bool" where
  "piece_covers x p \<longleftrightarrow> p_start p \<le> x \<and> x < p_start p + p_len p"

definition piece_answer :: "nat \<Rightarrow> piece \<Rightarrow> answer" where
  "piece_answer x p = (cut_leaves (x - p_start p) (p_leaves p), p_combine p, p_directed p)"

definition answer_at :: "piece list \<Rightarrow> nat \<Rightarrow> answer option" where
  "answer_at ps x = map_option (piece_answer x) (find (piece_covers x) ps)"

definition pieces_ok :: "nat \<Rightarrow> piece list \<Rightarrow> bool" where
  "pieces_ok hi ps \<longleftrightarrow>
     sorted_wrt (\<lambda>p q. p_start p + p_len p \<le> p_start q) ps \<and>
     (\<forall>p\<in>set ps. 0 < p_len p \<and> p_start p + p_len p \<le> hi)"

lemma pieces_ok_Nil [simp]: "pieces_ok hi []"
  by (simp add: pieces_ok_def)

lemma pieces_ok_mono: "pieces_ok hi ps \<Longrightarrow> hi \<le> hi' \<Longrightarrow> pieces_ok hi' ps"
  by (force simp: pieces_ok_def)

lemma cut_cut [simp]: "cut_leaves n (cut_leaves m ls) = cut_leaves (m + n) ls"
  by (simp add: cut_leaves_def wrapping_add64_assoc)

lemma cut_leaves_append [simp]: "cut_leaves n (xs @ ys) = cut_leaves n xs @ cut_leaves n ys"
  by (simp add: cut_leaves_def)

lemma length_cut_leaves [simp]: "length (cut_leaves n ls) = length ls"
  by (simp add: cut_leaves_def)

lemma leaves_answer_cut [simp]: "leaves_answer (cut_leaves n ls) want = leaves_answer ls want"
  by (simp add: leaves_answer_def cut_leaves_def list_ex_iff)

lemma answer_at_beyond: "pieces_ok hi ps \<Longrightarrow> hi \<le> x \<Longrightarrow> answer_at ps x = None"
  by (force simp: answer_at_def pieces_ok_def find_None_iff piece_covers_def)

lemma answer_at_append:
  "answer_at (ps @ qs) x = (case answer_at ps x of None \<Rightarrow> answer_at qs x | Some y \<Rightarrow> Some y)"
  by (induction ps) (auto simp: answer_at_def)

lemma answer_at_single:
  "answer_at [p] x = (if piece_covers x p then Some (piece_answer x p) else None)"
  by (simp add: answer_at_def)

section \<open>Merging\<close>

lemma zip_all_eq: "length xs = length ys \<Longrightarrow> list_all (\<lambda>(a, b). a = b) (zip xs ys) \<Longrightarrow> xs = ys"
  by (induction xs ys rule: list_induct2) auto

lemma leaf_continues_cut:
  "leaf_continues l l' n \<Longrightarrow> l' = l\<lparr>ls_fixed := wrapping_add64 (ls_fixed l) n\<rparr>"
proof -
  assume *: "leaf_continues l l' n"
  then have "ls_terms l = ls_terms l'"
    by (intro zip_all_eq) (simp_all add: leaf_continues_def)
  moreover have "ls_target l = ls_target l'"
    using * by (cases "ls_target l"; cases "ls_target l'") (simp_all add: leaf_continues_def)
  moreover have "ls_fixed l' = wrapping_add64 (ls_fixed l) n" "ls_period l = 0" "ls_period l' = 0"
    "ls_constraints l = ls_constraints l'" "ls_perms l = ls_perms l'"
    using * by (simp_all add: leaf_continues_def)
  ultimately show ?thesis by simp
qed

lemma leaves_continue_cut:
  "length ls = length ls' \<Longrightarrow> list_all (\<lambda>(x, y). leaf_continues x y n) (zip ls ls')
     \<Longrightarrow> ls' = cut_leaves n ls"
  by (induction ls ls' rule: list_induct2) (auto simp: cut_leaves_def dest: leaf_continues_cut)

lemma push_piece_spec:
  assumes ok: "pieces_ok a ps" and p: "p_start p = a" "0 < p_len p" "a + p_len p < two64"
  shows "pieces_ok (a + p_len p) (push_piece ps p)"
    and "answer_at (push_piece ps p) x =
           (if x < a then answer_at ps x
            else if x < a + p_len p then Some (piece_answer x p) else None)"
proof -
  have "pieces_ok (a + p_len p) (push_piece ps p)
    \<and> answer_at (push_piece ps p) x =
           (if x < a then answer_at ps x
            else if x < a + p_len p then Some (piece_answer x p) else None)"
  proof (cases "ps \<noteq> [] \<and> pieces_merge (last ps) p")
    case True
    define q where "q = last ps"
    define q' where "q' = q\<lparr>p_len := p_len q + p_len p\<rparr>"
    have ps: "ps = butlast ps @ [q]" using True by (simp add: q_def)
    have okq: "pieces_ok (p_start q) (butlast ps)" "0 < p_len q" "p_start q + p_len q \<le> a"
      using ok unfolding pieces_ok_def by (subst (asm) ps, subst (asm) (2) ps; auto simp: sorted_wrt_append)+
    have m: "p_start q + p_len q = a" "p_combine q = p_combine p" "p_directed q = p_directed p"
      "p_leaves p = cut_leaves (p_len q) (p_leaves q)"
      using True okq(3) p by (auto simp: pieces_merge_def q_def intro!: leaves_continue_cut)
    have push: "push_piece ps p = butlast ps @ [q']"
      using True by (simp add: push_piece_def q_def q'_def)
    have cov: "piece_covers x q' \<longleftrightarrow> piece_covers x q \<or> a \<le> x \<and> x < a + p_len p"
      using m(1) okq(2) by (auto simp: piece_covers_def q'_def)
    have old: "answer_at (butlast ps) x = None" if "p_start q \<le> x"
      using okq(1) that by (rule answer_at_beyond)
    have 1: "pieces_ok (a + p_len p) (push_piece ps p)"
      using okq m(1) unfolding push pieces_ok_def by (fastforce simp: sorted_wrt_append q'_def)
    have beyond: "answer_at ps x = None" if "a \<le> x"
      using ok that by (rule answer_at_beyond)
    consider "x < p_start q" | "p_start q \<le> x" "x < a" | "a \<le> x" "x < a + p_len p" | "a + p_len p \<le> x"
      by linarith
    then have 2: "answer_at (push_piece ps p) x =
           (if x < a then answer_at ps x
            else if x < a + p_len p then Some (piece_answer x p) else None)"
    proof cases
      case 1
      then have "\<not> piece_covers x q" "\<not> piece_covers x q'" "x < a"
        using m(1) by (auto simp: piece_covers_def q'_def)
      then show ?thesis
        by (subst (2) ps) (simp add: push answer_at_append answer_at_single split: option.split)
    next
      case 2
      then have "piece_covers x q" "piece_covers x q'" "piece_answer x q' = piece_answer x q"
        using m(1) by (auto simp: piece_covers_def q'_def piece_answer_def)
      with 2 show ?thesis
        by (subst (2) ps) (simp add: push answer_at_append answer_at_single split: option.split)
    next
      case 3
      have "p_start q \<le> x" using 3 m(1) by linarith
      moreover have "piece_answer x q' = piece_answer x p"
      proof -
        have "p_len q + (x - p_start p) = x - p_start q" using 3 m(1) p(1) by linarith
        then show ?thesis using m by (simp add: piece_answer_def q'_def)
      qed
      ultimately show ?thesis
        using 3 old cov by (simp add: push answer_at_append answer_at_single)
    next
      case 4
      then have "\<not> piece_covers x q'" "p_start q \<le> x"
        using m(1) by (auto simp: piece_covers_def q'_def)
      with 4 show ?thesis
        using old by (simp add: push answer_at_append answer_at_single)
    qed
    from 1 2 show ?thesis ..
  next
    case False
    then have push: "push_piece ps p = ps @ [p]" by (auto simp: push_piece_def)
    have beyond: "answer_at ps x = None" if "a \<le> x"
      using ok that by (rule answer_at_beyond)
    show ?thesis
      using ok p beyond unfolding push
      by (fastforce simp: pieces_ok_def sorted_wrt_append answer_at_append answer_at_single
            piece_covers_def split: option.split)
  qed
  then show "pieces_ok (a + p_len p) (push_piece ps p)"
    and "answer_at (push_piece ps p) x =
           (if x < a then answer_at ps x
            else if x < a + p_len p then Some (piece_answer x p) else None)"
    by blast+
qed

section \<open>The sweep at one address\<close>

lemma find_mem: "find P xs = Some x \<Longrightarrow> x \<in> set xs"
  by (induction xs) (auto split: if_splits)

lemma cut_cand_shift:
  "cd_start (cands ! i) \<le> a \<Longrightarrow> a \<le> x \<Longrightarrow>
   cut_cand cands x i = cut_leaves (x - a) (cut_cand cands a i)"
  by (simp add: cut_cand_def)

lemma concat_cut_shift:
  "(\<And>i. i \<in> set active \<Longrightarrow> cd_start (cands ! i) \<le> a) \<Longrightarrow> a \<le> x \<Longrightarrow>
   concat (map (cut_cand cands x) active) = cut_leaves (x - a) (concat (map (cut_cand cands a) active))"
proof (induction active)
  case Nil
  then show ?case by (simp add: cut_leaves_def)
next
  case (Cons i active)
  then show ?case by (simp add: cut_cand_shift [of cands i a x])
qed

lemma decide_interval_shift:
  assumes "active \<noteq> []" and start: "\<And>i. i \<in> set active \<Longrightarrow> cd_start (cands ! i) \<le> a" and "a \<le> x"
    and "decide_interval cands combine active a = (ls, p, d)"
  shows "decide_interval cands combine active x = (cut_leaves (x - a) ls, p, d)"
proof -
  have win: "cut_cand cands x i = cut_leaves (x - a) (cut_cand cands a i)"
    if "winner cands active q = Some i" for q i
    using find_mem [OF that [unfolded winner_def]] assms(3) by (intro cut_cand_shift start)
  have hd: "cut_cand cands x (hd active) = cut_leaves (x - a) (cut_cand cands a (hd active))"
    using assms(1,3) by (intro cut_cand_shift start) simp_all
  show ?thesis
    using assms(4) win hd concat_cut_shift [OF start assms(3)]
    by (auto simp: decide_interval_def Let_def split: if_splits option.splits)
qed

definition sweep_answer :: "cand list \<Rightarrow> combine_policy \<Rightarrow> nat \<Rightarrow> answer option" where
  "sweep_answer cands combine x =
     (if covering cands x = [] then None
      else Some (decide_interval cands combine (covering cands x) x))"

text \<open>
  What holds between two intervals: the active candidates and the ones still
  to arrive are all that can cover an address from here on, and every end of a
  candidate is a bound still to come or already behind.
\<close>

definition sweep_inv :: "cand list \<Rightarrow> nat list \<Rightarrow> nat list \<Rightarrow> nat list \<Rightarrow> piece list \<Rightarrow> bool" where
  "sweep_inv cands bs arr active ps \<longleftrightarrow>
     bs \<noteq> [] \<and> sorted_wrt (<) bs \<and> last bs < two64 \<and>
     ranked cands active \<and> sorted (map (\<lambda>i. cd_start (cands ! i)) arr) \<and> distinct arr \<and>
     set arr \<inter> set active = {} \<and> set active \<subseteq> {..<length cands} \<and> set arr \<subseteq> {..<length cands} \<and>
     (\<forall>i<length cands. i \<notin> set active \<and> i \<notin> set arr \<longrightarrow> cand_end (cands ! i) \<le> hd bs) \<and>
     (\<forall>i\<in>set active. cd_start (cands ! i) \<le> hd bs) \<and>
     (\<forall>i<length cands. cd_start (cands ! i) \<in> set bs \<or> cd_start (cands ! i) < hd bs) \<and>
     (\<forall>i<length cands. cand_end (cands ! i) \<in> set bs \<or> cand_end (cands ! i) < hd bs) \<and>
     pieces_ok (hd bs) ps"

lemma sweep_step:
  assumes inv: "sweep_inv cands (a # b # bs) arr active ps"
    and ad: "admit cands a arr active = (arr', admitted)"
    and active': "active' = filter (\<lambda>i. b \<le> cand_end (cands ! i)) admitted"
  shows "a \<le> x \<Longrightarrow> x < b \<Longrightarrow> covering cands x = active'"
    and "\<forall>i\<in>set active'. cd_start (cands ! i) \<le> a"
    and "pieces_ok b ps' \<Longrightarrow> sweep_inv cands (b # bs) arr' active' ps'"
proof -
  note inv' = inv [unfolded sweep_inv_def, simplified]
  have ab: "a < b" and bs: "\<And>y. y \<in> set bs \<Longrightarrow> b < y" using inv' by auto
  have ad': "ranked cands admitted"
     "set admitted = set active \<union> {i \<in> set arr. cd_start (cands ! i) \<le> a}"
     "set arr' = {i \<in> set arr. a < cd_start (cands ! i)}"
     "sorted (map (\<lambda>i. cd_start (cands ! i)) arr')" "distinct arr'"
    using admit_spec [OF ad] inv' by auto
  have rk: "ranked cands active'" using ad'(1) by (simp add: active' sorted_wrt_filter)
  have mem: "i \<in> set active' \<longleftrightarrow>
      i < length cands \<and> cd_start (cands ! i) \<le> a \<and> b \<le> cand_end (cands ! i)" for i
  proof (cases "i \<in> set active \<or> i \<in> set arr")
    case True
    then have "i < length cands" "i \<in> set active \<Longrightarrow> cd_start (cands ! i) \<le> a"
      using inv' by auto
    with True show ?thesis by (auto simp: active' ad'(2))
  next
    case False
    then have "i < length cands \<Longrightarrow> cand_end (cands ! i) \<le> a" using inv' by auto
    then have "\<not> (i < length cands \<and> b \<le> cand_end (cands ! i))" using ab by linarith
    with False show ?thesis by (auto simp: active' ad'(2))
  qed
  have edge: "y \<le> a \<or> b \<le> y" if "y \<in> set (a # b # bs) \<or> y < a" for y
    using that bs by force
  have se: "cd_start (cands ! i) \<le> a \<or> b \<le> cd_start (cands ! i)"
           "cand_end (cands ! i) \<le> a \<or> b \<le> cand_end (cands ! i)" if "i < length cands" for i
    using inv' that by (auto intro!: edge)
  show cov: "covering cands x = active'" if "a \<le> x" "x < b"
  proof (rule covering_eqI [OF rk])
    have "i \<in> set active' \<longleftrightarrow> i < length cands \<and> cand_covers (cands ! i) x" for i
      unfolding mem cand_covers_def using se [of i] that by linarith
    then show "set active' = {i. i < length cands \<and> cand_covers (cands ! i) x}" by blast
  qed
  show "\<forall>i\<in>set active'. cd_start (cands ! i) \<le> a" using mem by blast
  have rest: "cand_end (cands ! i) \<le> b" if "i < length cands" "i \<notin> set active'" "i \<notin> set arr'" for i
  proof (cases "cd_start (cands ! i) \<le> a")
    case True
    then show ?thesis using that mem [of i] by linarith
  next
    case False
    then have "i \<notin> set arr" "i \<notin> set active" using that inv' ad'(3) by auto
    then have "cand_end (cands ! i) \<le> a" using inv' that(1) by blast
    then show ?thesis using ab by simp
  qed
  have behind: "y \<in> set (b # bs) \<or> y < b" if "y \<in> set (a # b # bs) \<or> y < a" for y
    using that ab by auto
  show "sweep_inv cands (b # bs) arr' active' ps'" if "pieces_ok b ps'"
    unfolding sweep_inv_def list.sel
  proof (intro conjI)
    show "set arr' \<inter> set active' = {}" using ad' mem by auto
    show "set active' \<subseteq> {..<length cands}" using mem by auto
    show "set arr' \<subseteq> {..<length cands}" using ad'(3) inv' by auto
    show "\<forall>i<length cands. i \<notin> set active' \<and> i \<notin> set arr' \<longrightarrow> cand_end (cands ! i) \<le> b"
      using rest by blast
    show "\<forall>i\<in>set active'. cd_start (cands ! i) \<le> b" using mem ab by auto
    show "\<forall>i<length cands. cd_start (cands ! i) \<in> set (b # bs) \<or> cd_start (cands ! i) < b"
      "\<forall>i<length cands. cand_end (cands ! i) \<in> set (b # bs) \<or> cand_end (cands ! i) < b"
      using inv' by (auto intro!: behind)
  qed (use inv' rk ad' that in \<open>auto\<close>)
qed

lemma sweep_spec:
  assumes "sweep_inv cands bs arr active ps"
  shows "pieces_ok (last bs) (sweep_intervals cands combine bs arr active ps)
     \<and> (\<forall>x. answer_at (sweep_intervals cands combine bs arr active ps) x
              = (if x < hd bs then answer_at ps x else sweep_answer cands combine x))"
  using assms
proof (induction cands combine bs arr active ps rule: sweep_intervals.induct)
  case (1 cands combine a b bs arr active ps)
  obtain arr' admitted where ad: "admit cands a arr active = (arr', admitted)" by fastforce
  define active' where "active' = filter (\<lambda>i. b \<le> cand_end (cands ! i)) admitted"
  note step = sweep_step [OF 1(3) ad active'_def]
  have ab: "a < b" "b < two64" "pieces_ok a ps"
    using 1(3) last_in_set [of bs] by (auto simp: sweep_inv_def split: if_splits dest: order.strict_trans)
  show ?case
  proof (cases "active' = []")
    case True
    have ok: "pieces_ok b ps" using ab by (intro pieces_ok_mono [OF ab(3)]) simp
    have hole: "answer_at ps x = sweep_answer cands combine x" if "a \<le> x" "x < b" for x
      using answer_at_beyond [OF ab(3) that(1)] step(1) [OF that] True by (simp add: sweep_answer_def)
    show ?thesis
      using 1(1) [OF ad [symmetric] refl active'_def True step(3) [OF ok]] True ab hole
      by (auto simp: ad active'_def)
  next
    case False
    obtain ls pol d where dec: "decide_interval cands combine active' a = (ls, pol, d)"
      by (metis prod_cases3)
    define p where "p = \<lparr>p_start = a, p_len = b - a, p_leaves = ls, p_combine = pol, p_directed = d\<rparr>"
    have psh: "pieces_ok b (push_piece ps p)"
      and ans: "answer_at (push_piece ps p) x =
                  (if x < a then answer_at ps x else if x < b then Some (piece_answer x p) else None)" for x
      using push_piece_spec(1) [OF ab(3), of p] push_piece_spec(2) [OF ab(3), of p x] ab
      by (simp_all add: p_def)
    have piece: "Some (piece_answer x p) = sweep_answer cands combine x" if "a \<le> x" "x < b" for x
      using decide_interval_shift [OF False _ that(1) dec] step(1) [OF that] step(2) False
      by (simp add: sweep_answer_def piece_answer_def p_def)
    have eq: "sweep_intervals cands combine (a # b # bs) arr active ps
                = sweep_intervals cands combine (b # bs) arr' active' (push_piece ps p)"
      using False dec by (simp add: ad active'_def [symmetric] p_def Let_def)
    show ?thesis
      using 1(2) [OF ad [symmetric] refl active'_def False dec [symmetric] refl refl p_def
                    step(3) [OF psh]] ab ans piece
      unfolding eq by auto
  qed
next
  case (2 cands combine z arr active ps)
  have "covering cands x = []" if "z \<le> x" for x
  proof -
    have "\<not> cand_covers (cands ! i) x" if "i < length cands" for i
    proof -
      have "cand_end (cands ! i) \<le> z" using 2 that by (auto simp: sweep_inv_def)
      then show ?thesis using \<open>z \<le> x\<close> by (simp add: cand_covers_def)
    qed
    then show ?thesis by (intro covering_empty) blast
  qed
  moreover have "answer_at ps x = None" if "z \<le> x" for x
    using 2 that by (intro answer_at_beyond [of z]) (auto simp: sweep_inv_def)
  ultimately show ?case
    using 2 by (auto simp: sweep_inv_def sweep_answer_def)
qed (auto simp: sweep_inv_def)

text \<open>
  The start of the sweep: everything is still to arrive.
\<close>

lemma sorted_remdups_adj_strict: "sorted xs \<Longrightarrow> sorted_wrt (<) (remdups_adj (xs :: nat list))"
  by (induction xs rule: remdups_adj.induct) (auto simp: less_le)

lemma cand_end_less [simp]: "cand_end c < two64"
  by (simp add: cand_end_def saturating_add64_def)

lemma last_sorted_le: "sorted xs \<Longrightarrow> \<forall>x\<in>set xs. x \<le> (hi :: nat) \<Longrightarrow> xs \<noteq> [] \<Longrightarrow> last xs \<le> hi"
  by simp

lemma set_sweep_bounds: "set (sweep_bounds cands) = cd_start ` set cands \<union> cand_end ` set cands"
  by (auto simp: sweep_bounds_def)

lemma sweep_inv_init:
  assumes "cands \<noteq> []" "\<forall>c\<in>set cands. cd_start c < two64"
  shows "sweep_inv cands (sweep_bounds cands) (arrivals cands) [] []"
proof -
  have ne: "sweep_bounds cands \<noteq> []"
    using assms(1) set_sweep_bounds [of cands] by force
  have "sorted_wrt (<) (sweep_bounds cands)"
    by (simp add: sweep_bounds_def sorted_remdups_adj_strict)
  moreover have "last (sweep_bounds cands) < two64"
  proof -
    have "\<forall>x\<in>set (sweep_bounds cands). x < two64"
      using assms(2) by (auto simp: set_sweep_bounds)
    then show ?thesis using ne by (meson last_in_set)
  qed
  moreover have "set (arrivals cands) = {..<length cands}" "distinct (arrivals cands)"
    "sorted (map (\<lambda>i. cd_start (cands ! i)) (arrivals cands))"
    by (auto simp: arrivals_def)
  ultimately show ?thesis
    using ne by (auto simp: sweep_inv_def set_sweep_bounds)
qed

theorem resolve_overlaps_spec:
  assumes start: "\<forall>c\<in>set cands. cd_start c < two64" and hi: "\<forall>c\<in>set cands. cand_end c \<le> hi"
    and le: "\<forall>c\<in>set cands. cd_start c \<le> hi"
  shows "pieces_ok hi (resolve_overlaps cands combine)"
    and "answer_at (resolve_overlaps cands combine) x = sweep_answer cands combine x"
proof -
  have "pieces_ok hi (resolve_overlaps cands combine)
    \<and> answer_at (resolve_overlaps cands combine) x = sweep_answer cands combine x"
  proof (cases "cands = []")
    case True
    then show ?thesis
      by (simp add: resolve_overlaps_def sweep_answer_def covering_def answer_at_def)
  next
    case False
    note inv = sweep_inv_init [OF False start]
    have ne: "sweep_bounds cands \<noteq> []" "sorted_wrt (<) (sweep_bounds cands)"
      using inv by (auto simp: sweep_inv_def)
    have "last (sweep_bounds cands) \<in> set (sweep_bounds cands)" using ne by simp
    then have last: "last (sweep_bounds cands) \<le> hi"
      using le hi by (auto simp: set_sweep_bounds simp del: last_in_set)
    have "covering cands x = []" if "x < hd (sweep_bounds cands)"
    proof -
      have lo: "hd (sweep_bounds cands) \<le> y" if "y \<in> set (sweep_bounds cands)" for y
        using ne that by (cases "sweep_bounds cands") auto
      have "\<not> cand_covers (cands ! i) x" if "i < length cands" for i
      proof -
        have "cd_start (cands ! i) \<in> set (sweep_bounds cands)"
          using that by (simp add: set_sweep_bounds)
        then show ?thesis
          using lo \<open>x < hd (sweep_bounds cands)\<close> by (force simp: cand_covers_def)
      qed
      then show ?thesis by (intro covering_empty) blast
    qed
    then have "answer_at [] x = sweep_answer cands combine x" if "x < hd (sweep_bounds cands)"
      using that by (simp add: sweep_answer_def answer_at_def)
    then show ?thesis
      using sweep_spec [OF inv, of combine] False pieces_ok_mono [OF _ last]
      by (auto simp: resolve_overlaps_def)
  qed
  then show "pieces_ok hi (resolve_overlaps cands combine)"
    and "answer_at (resolve_overlaps cands combine) x = sweep_answer cands combine x"
    by blast+
qed

end
