(* ===== verification/Space_Decode.thy ===== *)
theory Space_Decode
  imports Space_Sweep
begin

text \<open>
  What an address means, read off the region tree one byte at a time and with
  no intervals: \<open>decode\<close>. The flattened view answers every address exactly as
  this reading does (\<open>flatten_exact\<close>).
\<close>

section \<open>The meaning of one address\<close>

text \<open>
  A byte of a store or a device, with the terms it is reached on. The tracing
  number of a device is no part of what an address means.
\<close>

datatype backing = BRam arc | BRom arc rom_write | BIo arc

fun backing_of :: "flat_target \<Rightarrow> backing" where
  "backing_of (TRam s) = BRam s"
| "backing_of (TRom s w) = BRom s w"
| "backing_of (TIo ops _) = BIo ops"

record site =
  s_target :: backing
  s_offset :: nat
  s_constraints :: access_constraints
  s_perms :: perms

type_synonym reading = "site list \<times> combine_policy \<times> bool"

definition one_site :: "flat_target \<Rightarrow> nat \<Rightarrow> access_constraints \<Rightarrow> perms \<Rightarrow> reading" where
  "one_site t n c p =
     ([\<lparr>s_target = backing_of t, s_offset = n, s_constraints = c, s_perms = p\<rparr>], Priority, False)"

definition reading_answers :: "reading \<Rightarrow> perms \<Rightarrow> bool" where
  "reading_answers r want \<longleftrightarrow> list_ex (\<lambda>s. perms_contains (s_perms s) want) (fst r)"

definition first_answering :: "reading list \<Rightarrow> perms \<Rightarrow> nat option" where
  "first_answering rs want = find (\<lambda>k. reading_answers (rs ! k) want) [0..<length rs]"

text \<open>
  The readings of the children that cover the address, best first, under the
  container's policy: a combining container joins them all; otherwise the best
  reader answers reads and the best writer answers writes, when the two differ
  and each is a single site, and one child answers both when not.
\<close>

definition combine_readings :: "combine_policy \<Rightarrow> reading list \<Rightarrow> reading option" where
  "combine_readings policy rs =
     (if rs = [] then None
      else if policy \<noteq> Priority then Some (concat (map fst rs), policy, False)
      else
        let r = first_answering rs PERM_READ; w = first_answering rs PERM_WRITE in
        Some (case (r, w) of
            (Some i, Some j) \<Rightarrow>
              if i \<noteq> j \<and> length (fst (rs ! i)) = 1 \<and> length (fst (rs ! j)) = 1
              then (fst (rs ! i) @ fst (rs ! j), Priority, True) else rs ! i
          | (Some i, None) \<Rightarrow> rs ! i
          | (None, Some j) \<Rightarrow> rs ! j
          | (None, None) \<Rightarrow> hd rs))"

definition override_constraints :: "access_constraints \<Rightarrow> reading \<Rightarrow> reading" where
  "override_constraints c r = (map (\<lambda>s. s\<lparr>s_constraints := c\<rparr>) (fst r), snd r)"

function (sequential) decode :: "alias_cells \<Rightarrow> region \<Rightarrow> nat \<Rightarrow> perms \<Rightarrow> reading option"
  and decode_children :: "alias_cells \<Rightarrow> mapping list \<Rightarrow> combine_policy \<Rightarrow> nat \<Rightarrow> nat \<Rightarrow> perms \<Rightarrow> reading option"
  and decode_all :: "alias_cells \<Rightarrow> mapping list \<Rightarrow> nat \<Rightarrow> nat \<Rightarrow> perms \<Rightarrow> (int \<times> reading) list" where
  "decode c (Region name rlen cons k dep) x p =
     (if rlen \<le> x then None
      else case k of
        KRam s \<Rightarrow> Some (one_site (TRam s) x cons p)
      | KRom s w \<Rightarrow> Some (one_site (TRom s w) x cons p)
      | KIo ops \<Rightarrow> Some (one_site (TIo ops REGION_ID_NONE) x cons p)
      | KAlias (Alias t i rebasable repeat) \<Rightarrow>
          if repeat
          then map_option (\<lambda>target. one_site target (x mod r_len t) cons p) (leaf_target t)
          else map_option (if cons \<noteq> r_constraints t then override_constraints cons else id)
                 (decode c t (ac_offset c i + x) (perms_intersect p PERM_RWX))
      | KContainer ms policy \<Rightarrow> decode_children c ms policy rlen x p)"
| "decode_children c ms policy limit x p =
     combine_readings policy (map snd (sort_key (\<lambda>(pr, _). - pr) (rev (decode_all c ms limit x p))))"
| "decode_all c [] limit x p = []"
| "decode_all c (Mapping r base pr q # ms) limit x p =
     (if base \<le> x \<and> x < base + r_len r \<and> x < limit
      then (case decode c r (x - base) (perms_intersect p q) of
              Some a \<Rightarrow> (pr, a) # decode_all c ms limit x p
            | None \<Rightarrow> decode_all c ms limit x p)
      else decode_all c ms limit x p)"
  by pat_completeness auto
termination
  by (relation "measure (case_sum (\<lambda>(_, r, _). 2 * size r)
        (case_sum (\<lambda>(_, ms, _). 2 * size_list size ms + 1) (\<lambda>(_, ms, _). 2 * size_list size ms)))")
     auto

section \<open>From leaves to sites\<close>

definition byte_offset :: "alias_cells \<Rightarrow> leaf_spec \<Rightarrow> nat" where
  "byte_offset c l = (if ls_period l = 0 then spec_offset c l else spec_offset c l mod ls_period l)"

definition site_of :: "alias_cells \<Rightarrow> leaf_spec \<Rightarrow> site" where
  "site_of c l = \<lparr>s_target = backing_of (ls_target l), s_offset = byte_offset c l,
     s_constraints = ls_constraints l, s_perms = ls_perms l\<rparr>"

definition reading_of :: "alias_cells \<Rightarrow> answer \<Rightarrow> reading" where
  "reading_of c a = (map (site_of c) (fst a), snd a)"

lemma reading_answers_of [simp]:
  "reading_answers (reading_of c (ls, pd)) want \<longleftrightarrow> leaves_answer ls want"
  by (simp add: reading_answers_def reading_of_def leaves_answer_def list_ex_iff site_of_def)

lemma fst_reading_of [simp]: "fst (reading_of c a) = map (site_of c) (fst a)"
  by (simp add: reading_of_def)

lemma sum_terms_Nil [simp]: "sum_terms c f [] = f"
  by (simp add: sum_terms_def)

lemma sum_terms_mod: "sum_terms c f ts mod two64 = (f + sum_list (map (ac_offset c) ts)) mod two64"
  unfolding sum_terms_def
  by (induction ts arbitrary: f) (auto simp: wrapping_add64_def mod_simps ac_simps)

lemma sum_terms_less: "f < two64 \<Longrightarrow> sum_terms c f ts < two64"
  unfolding sum_terms_def by (induction ts arbitrary: f) auto

lemma sum_terms_eq:
  "f < two64 \<Longrightarrow> sum_terms c f ts = (f + sum_list (map (ac_offset c) ts)) mod two64"
  using sum_terms_mod [of c f ts] sum_terms_less [of f c ts] by simp

lemma spec_offset_cut:
  "spec_offset c (l\<lparr>ls_fixed := wrapping_add64 (ls_fixed l) n\<rparr>)
     = (ls_fixed l + n + sum_list (map (ac_offset c) (ls_terms l))) mod two64"
  by (simp add: spec_offset_def sum_terms_eq) (simp add: wrapping_add64_def mod_simps)

lemma spec_offset_add_term:
  "spec_offset c ((add_term (ac_offset c i) i l)\<lparr>ls_fixed := wrapping_add64 (ls_fixed (add_term (ac_offset c i) i l)) n\<rparr>)
     = spec_offset c (l\<lparr>ls_fixed := wrapping_add64 (ls_fixed l) n\<rparr>)"
proof -
  let ?s = "sum_list (map (ac_offset c) (ls_terms l))" and ?cur = "ac_offset c i"
  have "(wrapping_sub64 (ls_fixed l) ?cur + n + (?s + ?cur)) mod two64
          = (wrapping_add64 (wrapping_sub64 (ls_fixed l) ?cur) ?cur + (n + ?s)) mod two64"
    unfolding wrapping_add64_def mod_add_left_eq by (simp add: algebra_simps)
  also have "\<dots> = (ls_fixed l + (n + ?s)) mod two64"
    unfolding wrapping_sub_add mod_add_left_eq ..
  finally show ?thesis
    unfolding spec_offset_cut by (simp add: add_term_def add.assoc)
qed

lemma site_cut_add_term:
  "map (site_of c) (cut_leaves n (map (add_term (ac_offset c i) i) ls)) = map (site_of c) (cut_leaves n ls)"
proof -
  have "site_of c ((add_term (ac_offset c i) i l)\<lparr>ls_fixed := wrapping_add64 (ls_fixed (add_term (ac_offset c i) i l)) n\<rparr>)
          = site_of c (l\<lparr>ls_fixed := wrapping_add64 (ls_fixed l) n\<rparr>)" for l
    using spec_offset_add_term [of c i l n] by (simp add: site_of_def byte_offset_def add_term_def)
  then show ?thesis by (simp add: cut_leaves_def)
qed

lemma site_cut_constraints:
  "map (site_of c) (cut_leaves n (map (\<lambda>l. l\<lparr>ls_constraints := k\<rparr>) ls))
     = map (\<lambda>s. s\<lparr>s_constraints := k\<rparr>) (map (site_of c) (cut_leaves n ls))"
  by (simp add: cut_leaves_def site_of_def byte_offset_def spec_offset_def)

section \<open>Deciding by position\<close>

lemma find_map_Suc: "find P (map Suc ks) = map_option Suc (find (\<lambda>k. P (Suc k)) ks)"
  by (induction ks) auto

lemma find_position:
  "find P xs = map_option ((!) xs) (find (\<lambda>k. P (xs ! k)) [0..<length xs])"
proof (induction xs)
  case (Cons x xs)
  have "[0..<length (x # xs)] = 0 # map Suc [0..<length xs]"
    by (simp add: upt_conv_Cons map_Suc_upt del: upt_Suc)
  then show ?case
    using Cons by (simp add: find_map_Suc option.map_comp comp_def)
qed simp

definition cand_reading :: "alias_cells \<Rightarrow> nat \<Rightarrow> cand \<Rightarrow> reading" where
  "cand_reading c x cd =
     reading_of c (cut_leaves (x - cd_start cd) (cd_leaves cd), cd_combine cd, cd_directed cd)"

lemma cand_reading_cut:
  "cand_reading c x (cands ! i) = reading_of c (cut_cand cands x i, cd_combine (cands ! i), cd_directed (cands ! i))"
  by (simp add: cand_reading_def cut_cand_def)

lemma length_cut_cand [simp]: "length (cut_cand cands x i) = length (cd_leaves (cands ! i))"
  by (simp add: cut_cand_def)

lemma decide_reading:
  assumes ne: "active \<noteq> []" and dist: "distinct active"
  shows "combine_readings policy (map (\<lambda>i. cand_reading c x (cands ! i)) active)
           = Some (reading_of c (decide_interval cands policy active x))"
proof (cases "policy = Priority")
  case False
  then show ?thesis
    using ne by (simp add: combine_readings_def decide_interval_def Let_def cand_reading_cut reading_of_def
                  map_concat comp_def)
next
  case True
  let ?rs = "map (\<lambda>i. cand_reading c x (cands ! i)) active"
  define pos where "pos want = find (\<lambda>k. leaves_answer (cd_leaves (cands ! (active ! k))) want) [0..<length active]" for want
  have fa: "first_answering ?rs want = pos want" for want
    unfolding first_answering_def pos_def
    by (rule find_cong) (auto simp: cand_reading_def)
  have win: "winner cands active want = map_option ((!) active) (pos want)" for want
    unfolding winner_def pos_def by (rule find_position)
  have lt: "pos want = Some k \<Longrightarrow> k < length active" for want k
    using find_mem unfolding pos_def by fastforce
  have rs: "k < length active \<Longrightarrow> ?rs ! k = reading_of c (cut_cand cands x (active ! k),
      cd_combine (cands ! (active ! k)), cd_directed (cands ! (active ! k)))" for k
    by (simp add: cand_reading_cut)
  have hd: "hd ?rs = ?rs ! 0" "hd active = active ! 0" using ne by (simp_all add: hd_conv_nth)
  show ?thesis
  proof (cases "pos PERM_READ")
    case None
    then show ?thesis
      using True ne hd rs lt
      by (cases "pos PERM_WRITE") (simp_all add: combine_readings_def decide_interval_def fa win Let_def)
  next
    case (Some r)
    note r = lt [OF Some]
    show ?thesis
    proof (cases "pos PERM_WRITE")
      case None
      then show ?thesis
        using True ne rs r Some by (simp add: combine_readings_def decide_interval_def fa win Let_def)
    next
      fix w assume w: "pos PERM_WRITE = Some w"
      have "active ! r = active ! w \<longleftrightarrow> r = w"
        using dist r lt [OF w] by (simp add: nth_eq_iff_index_eq)
      then show ?thesis
        using True ne rs r Some w lt [OF w]
        by (simp add: combine_readings_def decide_interval_def fa win Let_def) (simp add: reading_of_def)
    qed
  qed
qed

lemma ranked_distinct: "ranked cands xs \<Longrightarrow> distinct xs"
  by (induction xs) auto

section \<open>Ranking by a stable sort\<close>

lemma insort_key_lex:
  "sorted_wrt (\<lambda>a b. f a < f b \<or> f a = f b \<and> R a b) xs \<Longrightarrow> \<forall>y\<in>set xs. R x y \<Longrightarrow>
   sorted_wrt (\<lambda>a b. f a < (f b :: int) \<or> f a = f b \<and> R a b) (insort_key f x xs)"
  by (induction xs) (auto simp: set_insort_key)

lemma sort_key_lex:
  "sorted_wrt R xs \<Longrightarrow> sorted_wrt (\<lambda>a b. f a < (f b :: int) \<or> f a = f b \<and> R a b) (sort_key f xs)"
  by (induction xs) (auto intro!: insort_key_lex)

lemma map_insort_key: "map g (insort_key (\<lambda>x. f (g x)) x xs) = insort_key f (g x) (map g xs)"
  by (induction xs) auto

lemma map_sort_key: "map g (sort_key (\<lambda>x. f (g x)) xs) = sort_key f (map g xs)"
  by (induction xs) (auto simp: map_insort_key)

lemma covering_stable:
  assumes "sorted (map cd_seq cands)"
  shows "covering cands x =
           sort_key (\<lambda>i. - cd_priority (cands ! i)) (rev (filter (\<lambda>i. cand_covers (cands ! i) x) [0..<length cands]))"
proof (rule covering_eqI)
  let ?xs = "rev (filter (\<lambda>i. cand_covers (cands ! i) x) [0..<length cands])"
  have "sorted_wrt (\<lambda>i j. i < j) (filter (\<lambda>i. cand_covers (cands ! i) x) [0..<length cands])"
    by (intro sorted_wrt_filter) (simp add: strict_sorted_iff)
  then have "sorted_wrt (\<lambda>j i. i < j) ?xs" by (simp add: sorted_wrt_rev)
  then have "sorted_wrt (\<lambda>j i. - cd_priority (cands ! j) < - cd_priority (cands ! i)
      \<or> - cd_priority (cands ! j) = - cd_priority (cands ! i) \<and> i < j) (sort_key (\<lambda>i. - cd_priority (cands ! i)) ?xs)"
    by (rule sort_key_lex)
  then show "ranked cands (sort_key (\<lambda>i. - cd_priority (cands ! i)) ?xs)"
  proof (rule sorted_wrt_mono_rel [rotated])
    fix j i assume mem: "j \<in> set (sort_key (\<lambda>i. - cd_priority (cands ! i)) ?xs)"
      "i \<in> set (sort_key (\<lambda>i. - cd_priority (cands ! i)) ?xs)"
      and less: "- cd_priority (cands ! j) < - cd_priority (cands ! i)
      \<or> - cd_priority (cands ! j) = - cd_priority (cands ! i) \<and> i < j"
    have "j < length cands" using mem(1) by simp
    then have "i < j \<Longrightarrow> cd_seq (cands ! i) \<le> cd_seq (cands ! j)"
      using sorted_nth_mono [OF assms, of i j] by simp
    with less show "rank_less cands j i" by (auto simp: rank_less_def Let_def)
  qed
qed auto

lemma covering_cands:
  assumes "sorted (map cd_seq cands)"
  shows "map ((!) cands) (covering cands x)
           = sort_key (\<lambda>cd. - cd_priority cd) (rev (filter (\<lambda>cd. cand_covers cd x) cands))"
proof -
  have "map ((!) cands) (filter (\<lambda>i. cand_covers (cands ! i) x) [0..<length cands])
          = filter (\<lambda>cd. cand_covers cd x) (map ((!) cands) [0..<length cands])"
    by (simp add: filter_map comp_def)
  then show ?thesis
    by (simp add: covering_stable [OF assms] map_sort_key [of "(!) cands" "\<lambda>cd. - cd_priority cd"] rev_map [symmetric] map_nth)
qed

section \<open>Alias offsets\<close>

text \<open>No alias window wraps around the end of the 64-bit space; its constructor checks more.\<close>

fun offsets_ok :: "alias_cells \<Rightarrow> region \<Rightarrow> bool" and kind_offsets_ok :: "alias_cells \<Rightarrow> nat \<Rightarrow> region_kind \<Rightarrow> bool"
  and alias_offsets_ok :: "alias_cells \<Rightarrow> nat \<Rightarrow> alias_node \<Rightarrow> bool" and mapping_offsets_ok :: "alias_cells \<Rightarrow> mapping \<Rightarrow> bool" where
  "offsets_ok c (Region _ len _ k _) \<longleftrightarrow> kind_offsets_ok c len k"
| "kind_offsets_ok c len (KAlias a) \<longleftrightarrow> alias_offsets_ok c len a"
| "kind_offsets_ok c len (KContainer ms _) \<longleftrightarrow> list_all (mapping_offsets_ok c) ms"
| "kind_offsets_ok c len _ \<longleftrightarrow> True"
| "alias_offsets_ok c len (Alias t i _ repeat) \<longleftrightarrow>
     offsets_ok c t \<and> (repeat \<or> ac_offset c i + len < two64)"
| "mapping_offsets_ok c (Mapping r _ _ _) \<longleftrightarrow> offsets_ok c r"

section \<open>One child\<close>

lemma find_filter_piece:
  assumes "pieces_ok hi ps"
  shows "filter (piece_covers z) ps = (case find (piece_covers z) ps of None \<Rightarrow> [] | Some p \<Rightarrow> [p])"
  using assms
proof (induction ps)
  case (Cons p ps)
  have ok: "pieces_ok hi ps" using Cons.prems by (simp add: pieces_ok_def)
  show ?case
  proof (cases "piece_covers z p")
    case True
    then have "filter (piece_covers z) ps = []"
      using Cons.prems by (force simp: pieces_ok_def piece_covers_def filter_empty_conv)
    with True show ?thesis by simp
  next
    case False
    with Cons.IH [OF ok] show ?thesis by simp
  qed
qed simp

lemma filter_cand_of:
  assumes ok: "pieces_ok n ps" and lt: "shift + n < two64"
  shows "map (\<lambda>cd. (cd_priority cd, cand_reading c y cd))
           (filter (\<lambda>cd. cand_covers cd y) (map (cand_of shift pr seq) ps))
         = (if shift \<le> y
            then (case map_option (reading_of c) (answer_at ps (y - shift)) of
                    None \<Rightarrow> [] | Some r \<Rightarrow> [(pr, r)])
            else [])"
proof -
  have cov: "cand_covers (cand_of shift pr seq p) y \<longleftrightarrow> shift \<le> y \<and> piece_covers (y - shift) p"
    if "p \<in> set ps" for p
  proof -
    have "p_start p + p_len p \<le> n" using ok that by (auto simp: pieces_ok_def)
    then have "cand_end (cand_of shift pr seq p) = shift + (p_start p + p_len p)"
      using lt by (simp add: cand_end_def cand_of_def)
    then show ?thesis by (auto simp: cand_covers_def piece_covers_def cand_of_def)
  qed
  have rd: "cand_reading c y (cand_of shift pr seq p) = reading_of c (piece_answer (y - shift) p)" for p
    by (simp add: cand_reading_def cand_of_def piece_answer_def)
  show ?thesis
  proof (cases "shift \<le> y")
    case False
    then show ?thesis using cov by (auto simp: filter_empty_conv)
  next
    case True
    have "filter (\<lambda>cd. cand_covers cd y) (map (cand_of shift pr seq) ps)
            = map (cand_of shift pr seq) (filter (piece_covers (y - shift)) ps)"
      using True cov by (simp add: filter_map comp_def cong: filter_cong)
    then show ?thesis
      using True rd find_filter_piece [OF ok, of "y - shift"]
      by (cases "find (piece_covers (y - shift)) ps") (auto simp: answer_at_def cand_of_def)
  qed
qed

lemma answer_map_leaves:
  assumes "\<And>n ls. map (site_of c) (cut_leaves n (map f ls)) = map g (map (site_of c) (cut_leaves n ls))"
  shows "map_option (reading_of c) (answer_at (map_leaves f ps) x)
           = map_option (\<lambda>r. (map g (fst r), snd r)) (map_option (reading_of c) (answer_at ps x))"
proof (induction ps)
  case Nil
  then show ?case by (simp add: answer_at_def map_leaves_def)
next
  case (Cons p ps)
  have cov: "piece_covers x (p\<lparr>p_leaves := l\<rparr>) = piece_covers x p" for l by (simp add: piece_covers_def)
  show ?case
    using Cons assms by (auto simp: answer_at_def map_leaves_def cov reading_of_def piece_answer_def)
qed

lemma pieces_ok_map_leaves [simp]: "pieces_ok n (map_leaves f ps) = pieces_ok n ps"
  by (auto simp: pieces_ok_def map_leaves_def sorted_wrt_map)

lemma pieces_ok_leaf [simp]: "pieces_ok n (leaf_piece m t f q k p # []) \<longleftrightarrow> 0 < m \<and> m \<le> n"
  by (auto simp: pieces_ok_def leaf_piece_def)

lemma answer_leaf_piece:
  "y < m \<Longrightarrow> f + y < two64 \<Longrightarrow>
   map_option (reading_of c) (answer_at [leaf_piece m t f q k p] y)
     = Some (one_site t (if q = 0 then f + y else (f + y) mod q) k p)"
  by (simp add: answer_at_single piece_covers_def leaf_piece_def piece_answer_def reading_of_def
        cut_leaves_def site_of_def byte_offset_def spec_offset_def one_site_def)

section \<open>The walk reads the tree\<close>

definition region_exact :: "alias_cells \<Rightarrow> region \<Rightarrow> nat \<Rightarrow> nat \<Rightarrow> perms \<Rightarrow> piece list \<Rightarrow> bool" where
  "region_exact c r off n p ps \<longleftrightarrow>
     pieces_ok n ps \<and> (\<forall>y<n. map_option (reading_of c) (answer_at ps y) = decode c r (off + y) p)"

definition cands_exact ::
  "alias_cells \<Rightarrow> nat \<Rightarrow> mapping list \<Rightarrow> nat \<Rightarrow> nat \<Rightarrow> nat \<Rightarrow> perms \<Rightarrow> cand list \<Rightarrow> bool" where
  "cands_exact c seq ms limit off want_end p cands \<longleftrightarrow>
     sorted (map cd_seq cands) \<and>
     (\<forall>cd\<in>set cands. seq \<le> cd_seq cd \<and> 0 < cd_len cd \<and> cd_start cd + cd_len cd \<le> want_end - off) \<and>
     (\<forall>y. off + y < want_end \<longrightarrow>
        map (\<lambda>cd. (cd_priority cd, cand_reading c y cd)) (filter (\<lambda>cd. cand_covers cd y) cands)
          = decode_all c ms limit (off + y) p)"

lemma cands_exact_skip:
  assumes ex: "cands_exact c (Suc seq) ms limit off want_end p cands"
    and none: "min (min (saturating_add64 base (r_len r)) limit) want_end \<le> max base off"
    and le: "want_end \<le> limit" "want_end < two64"
  shows "cands_exact c seq (Mapping r base pr q # ms) limit off want_end p cands"
proof -
  have "decode_all c (Mapping r base pr q # ms) limit (off + y) p = decode_all c ms limit (off + y) p"
    if "off + y < want_end" for y
    using none le that by (auto simp: saturating_add64_def)
  with ex show ?thesis by (fastforce simp: cands_exact_def)
qed

lemma cands_exact_step:
  assumes ex: "cands_exact c (Suc seq) ms limit off want_end p cands"
    and sub: "region_exact c r (a - base) (b - a) (perms_intersect p q) ps"
    and a: "a = max base off" and b: "b = min (min (saturating_add64 base (r_len r)) limit) want_end"
    and ab: "a < b" and le: "want_end \<le> limit" "want_end < two64"
  shows "cands_exact c seq (Mapping r base pr q # ms) limit off want_end p
           (map (cand_of (a - off) pr seq) ps @ cands)"
proof -
  have sok: "pieces_ok (b - a) ps"
    and srd: "\<And>z. z < b - a \<Longrightarrow> map_option (reading_of c) (answer_at ps z) = decode c r (a - base + z) (perms_intersect p q)"
    using sub by (auto simp: region_exact_def)
  have shift: "(a - off) + (b - a) \<le> want_end - off" using ab a b by linarith
  then have lt: "(a - off) + (b - a) < two64" using le by linarith
  have seqs: "sorted (map cd_seq (map (cand_of (a - off) pr seq) ps @ cands))"
  proof -
    have "map cd_seq (map (cand_of (a - off) pr seq) ps) = replicate (length ps) seq"
      by (simp add: cand_of_def comp_def map_replicate_const)
    moreover have "sorted (map cd_seq cands)" "\<forall>cd\<in>set cands. seq \<le> cd_seq cd"
      using ex by (auto simp: cands_exact_def Suc_le_eq intro: less_imp_le)
    ultimately show ?thesis by (simp only: map_append) (auto simp: sorted_append)
  qed
  have bounds: "seq \<le> cd_seq cd \<and> 0 < cd_len cd \<and> cd_start cd + cd_len cd \<le> want_end - off"
    if mem: "cd \<in> set (map (cand_of (a - off) pr seq) ps @ cands)" for cd
  proof (cases "cd \<in> set cands")
    case True
    then show ?thesis using ex by (auto simp: cands_exact_def intro: Suc_leD)
  next
    case False
    then obtain s where "s \<in> set ps" "cd = cand_of (a - off) pr seq s" using mem by auto
    moreover from this have "0 < p_len s" "p_start s + p_len s \<le> b - a"
      using sok by (auto simp: pieces_ok_def)
    ultimately show ?thesis using shift by (simp add: cand_of_def)
  qed
  have "map (\<lambda>cd. (cd_priority cd, cand_reading c y cd))
          (filter (\<lambda>cd. cand_covers cd y) (map (cand_of (a - off) pr seq) ps @ cands))
          = decode_all c (Mapping r base pr q # ms) limit (off + y) p" if y: "off + y < want_end" for y
  proof -
    have rest: "map (\<lambda>cd. (cd_priority cd, cand_reading c y cd)) (filter (\<lambda>cd. cand_covers cd y) cands)
            = decode_all c ms limit (off + y) p"
      using ex y by (simp add: cands_exact_def)
    have inside: "base \<le> off + y \<and> off + y < base + r_len r \<and> off + y < limit \<longleftrightarrow> a \<le> off + y \<and> off + y < b"
      using y le a b by (auto simp: saturating_add64_def)
    show ?thesis
    proof (cases "a \<le> off + y \<and> off + y < b")
      case True
      then have z: "a - off \<le> y" "y - (a - off) < b - a" "a - base + (y - (a - off)) = off + y - base"
        using a by auto
      show ?thesis
        unfolding filter_append map_append filter_cand_of [OF sok lt] rest
        using True inside z srd [OF z(2)] by (simp split: option.split)
    next
      case False
      have "answer_at ps (y - (a - off)) = None" if "a - off \<le> y"
        using False that a by (intro answer_at_beyond [OF sok]) auto
      then show ?thesis
        unfolding filter_append map_append filter_cand_of [OF sok lt] rest
        using False inside by auto
    qed
  qed
  with seqs bounds show ?thesis by (simp add: cands_exact_def)
qed

lemma children_exact:
  assumes ex: "cands_exact c 0 ms limit off (off + n) p cands" and "off + n < two64"
  shows "pieces_ok n (resolve_overlaps cands policy)"
    and "y < n \<Longrightarrow> map_option (reading_of c) (answer_at (resolve_overlaps cands policy) y)
                    = decode_children c ms policy limit (off + y) p"
proof -
  have b: "cd_start cd + cd_len cd \<le> n" if "cd \<in> set cands" for cd
    using ex that by (auto simp: cands_exact_def)
  have hyps: "\<forall>cd\<in>set cands. cd_start cd < two64" "\<forall>cd\<in>set cands. cand_end cd \<le> n"
    "\<forall>cd\<in>set cands. cd_start cd \<le> n"
    using b assms(2) by (fastforce simp: cand_end_def saturating_add64_def)+
  show "pieces_ok n (resolve_overlaps cands policy)"
    by (rule resolve_overlaps_spec(1) [OF hyps])
  assume y: "y < n"
  define act where "act = covering cands y"
  have sorted: "sorted (map cd_seq cands)" using ex by (simp add: cands_exact_def)
  have "map (\<lambda>i. cand_reading c y (cands ! i)) act
          = map (cand_reading c y) (sort_key (\<lambda>cd. - cd_priority cd) (rev (filter (\<lambda>cd. cand_covers cd y) cands)))"
    unfolding covering_cands [OF sorted, of y, symmetric] act_def by simp
  also have "\<dots> = map snd (map (\<lambda>cd. (cd_priority cd, cand_reading c y cd))
      (sort_key (\<lambda>cd. - cd_priority cd) (rev (filter (\<lambda>cd. cand_covers cd y) cands))))"
    by simp
  also have "\<dots> = map snd (sort_key (\<lambda>(pr, _). - pr) (rev (decode_all c ms limit (off + y) p)))"
  proof -
    have "map (\<lambda>cd. (cd_priority cd, cand_reading c y cd)) (filter (\<lambda>cd. cand_covers cd y) cands)
            = decode_all c ms limit (off + y) p"
      using ex y by (simp add: cands_exact_def)
    then show ?thesis
      using map_sort_key [of "\<lambda>cd. (cd_priority cd, cand_reading c y cd)" "\<lambda>(pr, _). - pr"
              "rev (filter (\<lambda>cd. cand_covers cd y) cands)"]
      by (simp add: rev_map [symmetric])
  qed
  finally have rs: "map (\<lambda>i. cand_reading c y (cands ! i)) act
                      = map snd (sort_key (\<lambda>(pr, _). - pr) (rev (decode_all c ms limit (off + y) p)))" .
  have dist: "distinct act"
    unfolding act_def by (rule ranked_distinct [OF covering_ranked])
  have "map_option (reading_of c) (sweep_answer cands policy y)
          = combine_readings policy (map (\<lambda>i. cand_reading c y (cands ! i)) act)"
    using decide_reading [of act policy c y cands] dist
    by (auto simp: sweep_answer_def act_def combine_readings_def)
  then show "map_option (reading_of c) (answer_at (resolve_overlaps cands policy) y)
               = decode_children c ms policy limit (off + y) p"
    unfolding resolve_overlaps_spec(2) [OF hyps] rs by simp
qed

lemma decode_beyond: "r_len r \<le> x \<Longrightarrow> decode c r x p = None"
  by (cases r) simp

lemma region_exact_widen:
  assumes "region_exact c r off (min n (r_len r - off)) p ps"
  shows "region_exact c r off n p ps"
proof -
  have ok: "pieces_ok (min n (r_len r - off)) ps" using assms by (simp add: region_exact_def)
  have "map_option (reading_of c) (answer_at ps y) = decode c r (off + y) p" if "y < n" for y
  proof (cases "y < r_len r - off")
    case True
    then show ?thesis using assms that by (simp add: region_exact_def)
  next
    case False
    then have "answer_at ps y = None" by (intro answer_at_beyond [OF ok]) simp
    moreover have "decode c r (off + y) p = None" using False by (intro decode_beyond) simp
    ultimately show ?thesis by simp
  qed
  with pieces_ok_mono [OF ok] show ?thesis by (simp add: region_exact_def)
qed

lemma region_exact_alias:
  assumes sub: "region_exact c t (ac_offset c i + off) n (perms_intersect p PERM_RWX) ps"
    and fits: "off + n \<le> rlen" and n: "0 < n"
  shows "region_exact c (Region name rlen cons (KAlias (Alias t i rebasable False)) dep) off n p
           (let sub1 = (if cons \<noteq> r_constraints t
                        then map_leaves (\<lambda>l. l\<lparr>ls_constraints := cons\<rparr>) ps else ps)
            in if rebasable then map_leaves (add_term (ac_offset c i) i) sub1 else sub1)"
proof -
  have trm: "map_option (reading_of c) (answer_at (map_leaves (add_term (ac_offset c i) i) qs) y)
                = map_option (reading_of c) (answer_at qs y)" for qs y
    using answer_map_leaves [where f = "add_term (ac_offset c i) i" and g = id and c = c and ps = qs and x = y]
    by (simp add: site_cut_add_term option.map_id0 [unfolded id_def] del: option.map_comp option.map_ident)
  have con: "map_option (reading_of c) (answer_at (map_leaves (\<lambda>l. l\<lparr>ls_constraints := cons\<rparr>) qs) y)
               = map_option (override_constraints cons) (map_option (reading_of c) (answer_at qs y))" for qs y
    using answer_map_leaves [where f = "\<lambda>l. l\<lparr>ls_constraints := cons\<rparr>" and g = "\<lambda>s. s\<lparr>s_constraints := cons\<rparr>"
            and c = c and ps = qs and x = y]
    by (simp add: site_cut_constraints override_constraints_def [abs_def])
  show ?thesis
    using sub fits unfolding region_exact_def Let_def
    by (auto simp: trm con add.assoc option.map_id simp del: option.map_comp)
qed

lemma resolve_exact:
  "(\<forall>ps. resolve_region c r off wanted d = Inr ps \<longrightarrow> region_wf r \<longrightarrow> offsets_ok c r \<longrightarrow>
      off + wanted < two64 \<longrightarrow>
      region_exact c r off (min wanted (r_len r - off)) (ds_perms d) ps)"
  "(\<forall>ps. resolve_children c ms limit off' len policy d' = Inr ps \<longrightarrow> list_all mapping_wf ms \<longrightarrow>
      list_all (mapping_offsets_ok c) ms \<longrightarrow> off' + len < two64 \<longrightarrow> off' + len \<le> limit \<longrightarrow>
      pieces_ok len ps \<and>
      (\<forall>y<len. map_option (reading_of c) (answer_at ps y)
                 = decode_children c ms policy limit (off' + y) (ds_perms d')))"
  "(\<forall>cands. collect_cands c seq ms limit off'' want_end d'' = Inr cands \<longrightarrow> list_all mapping_wf ms \<longrightarrow>
      list_all (mapping_offsets_ok c) ms \<longrightarrow> want_end < two64 \<longrightarrow> want_end \<le> limit \<longrightarrow>
      cands_exact c seq ms limit off'' want_end (ds_perms d'') cands)"
proof (induction c r off wanted d and c ms limit off' len policy d' and c seq ms limit off'' want_end d''
       rule: resolve_region_resolve_children_collect_cands.induct)
  case (1 c name rlen cons k dep off wanted d)
  show ?case
  proof (intro allI impI)
    fix ps
    assume run: "resolve_region c (Region name rlen cons k dep) off wanted d = Inr ps"
      and wf: "region_wf (Region name rlen cons k dep)" and ok: "offsets_ok c (Region name rlen cons k dep)"
      and lt: "off + wanted < two64"
    define n where "n = min wanted (rlen - off)"
    have depth: "\<not> MAX_DEPTH < ds_depth d" using run by (auto split: if_splits)
    show "region_exact c (Region name rlen cons k dep) off (min wanted (r_len (Region name rlen cons k dep) - off)) (ds_perms d) ps"
    proof (cases "n = 0")
      case True
      then show ?thesis using run depth by (auto simp: n_def region_exact_def Let_def)
    next
      case False
      then have n: "0 < n" "off + n \<le> rlen" "n \<le> wanted" by (auto simp: n_def)
      have leaf: "region_exact c (Region name rlen cons k dep) off n (ds_perms d) [leaf_piece n t f q cons (ds_perms d)]"
        if "\<forall>y<n. decode c (Region name rlen cons k dep) (off + y) (ds_perms d)
                   = Some (one_site t (if q = 0 then f + y else (f + y) mod q) cons (ds_perms d))" "f \<le> off" for t f q
        using that n lt answer_leaf_piece [of _ n f c t q cons "ds_perms d"] by (auto simp: region_exact_def)
      have "region_exact c (Region name rlen cons k dep) off n (ds_perms d) ps"
      proof (cases k)
        case (KRam s)
        then show ?thesis using run depth False n leaf [where t = "TRam s" and f = off and q = 0]
          by (auto simp: n_def [symmetric] Let_def)
      next
        case (KRom s w)
        then show ?thesis using run depth False n leaf [where t = "TRom s w" and f = off and q = 0]
          by (auto simp: n_def [symmetric] Let_def)
      next
        case (KIo s)
        then show ?thesis using run depth False n leaf [where t = "TIo s REGION_ID_NONE" and f = off and q = 0]
          by (auto simp: n_def [symmetric] Let_def)
      next
        case (KContainer ms policy)
        have "resolve_children c ms rlen off n policy d = Inr ps"
          using run depth False KContainer by (simp add: n_def [symmetric] Let_def del: resolve_children.simps)
        then have "pieces_ok n ps \<and> (\<forall>y<n. map_option (reading_of c) (answer_at ps y)
                 = decode_children c ms policy rlen (off + y) (ds_perms d))"
          using 1(2) [OF depth n_def False KContainer] wf ok KContainer n lt by auto
        then show ?thesis using n KContainer by (auto simp: region_exact_def)
      next
        case (KAlias a)
        obtain t i rebasable repeat where a: "a = Alias t i rebasable repeat" by (cases a)
        show ?thesis
        proof (cases repeat)
          case True
          then have t: "is_leaf_kind (r_kind t)" "r_len t \<noteq> 0" using wf KAlias a by auto
          obtain target where tg: "leaf_target t = Some target"
            using t(1) by (auto simp: leaf_target_def is_leaf_kind_def split: region_kind.splits)
          have "ps = [leaf_piece n target (off mod r_len t) (r_len t) cons (ds_perms d)]"
            using run depth False KAlias a True tg t(2)
            by (simp add: n_def [symmetric] Let_def alias_period_def region_is_empty_def)
          then show ?thesis
            using leaf [where t = target and f = "off mod r_len t" and q = "r_len t"] n KAlias a True tg t(2) by (simp add: mod_simps)
        next
          case rp: False
          have cur: "ac_offset c i + rlen < two64" using ok KAlias a rp by simp
          then have wrap: "wrapping_add64 (ac_offset c i) off = ac_offset c i + off" using n by simp
          obtain sub where sub: "resolve_region c t (ac_offset c i + off) n (into_child d PERM_RWX) = Inr sub"
            and ps: "ps = (let sub1 = (if cons \<noteq> r_constraints t
                        then map_leaves (\<lambda>l. l\<lparr>ls_constraints := cons\<rparr>) sub else sub)
            in if rebasable then map_leaves (add_term (ac_offset c i) i) sub1 else sub1)"
            using run depth False KAlias a rp
            by (auto simp: n_def [symmetric] Let_def rbind_eq_Inr wrap)
          have "region_exact c t (ac_offset c i + off) (min n (r_len t - (ac_offset c i + off)))
                  (perms_intersect (ds_perms d) PERM_RWX) sub"
            using 1(1) [OF depth n_def False KAlias a rp refl] sub wf ok KAlias a cur n
            by (auto simp: wrap into_child_def rp)
          then have "region_exact c t (ac_offset c i + off) n (perms_intersect (ds_perms d) PERM_RWX) sub"
            by (rule region_exact_widen)
          from region_exact_alias [OF this n(2,1), of name cons rebasable dep] show ?thesis
            unfolding ps KAlias a using rp by simp
        qed
      qed
      then show ?thesis by (simp add: n_def)
    qed
  qed
next
  case (2 c ms limit off len policy d)
  show ?case
  proof (intro allI impI)
    fix ps
    assume run: "resolve_children c ms limit off len policy d = Inr ps"
      and hyps: "list_all mapping_wf ms" "list_all (mapping_offsets_ok c) ms"
        "off + len < two64" "off + len \<le> limit"
    from run obtain cands where col: "collect_cands c 0 ms limit off (off + len) d = Inr cands"
      and ps: "ps = resolve_overlaps cands policy"
      using hyps(3) by (auto simp: rbind_eq_Inr)
    have "cands_exact c 0 ms limit off (off + len) (ds_perms d) cands"
      using 2 col hyps by simp
    from children_exact [OF this hyps(3), where policy = policy]
    show "pieces_ok len ps \<and> (\<forall>y<len. map_option (reading_of c) (answer_at ps y)
                 = decode_children c ms policy limit (off + y) (ds_perms d))"
      unfolding ps by blast
  qed
next
  case (3 c seq limit off want_end d)
  then show ?case by (simp add: cands_exact_def)
next
  case (4 c seq r base priority perms ms limit off want_end d)
  show ?case
  proof (intro allI impI)
    fix cands
    assume run: "collect_cands c seq (Mapping r base priority perms # ms) limit off want_end d = Inr cands"
      and wf: "list_all mapping_wf (Mapping r base priority perms # ms)"
      and ok: "list_all (mapping_offsets_ok c) (Mapping r base priority perms # ms)"
      and le: "want_end < two64" "want_end \<le> limit"
    define a where "a = max base off"
    define b where "b = min (min (mapping_end (Mapping r base priority perms)) limit) want_end"
    have b': "b = min (min (saturating_add64 base (r_len r)) limit) want_end"
      by (simp add: b_def mapping_end_def)
    show "cands_exact c seq (Mapping r base priority perms # ms) limit off want_end (ds_perms d) cands"
    proof (cases "b \<le> a")
      case True
      then have "collect_cands c (Suc seq) ms limit off want_end d = Inr cands"
        using run by (simp add: a_def b_def Let_def)
      then have "cands_exact c (Suc seq) ms limit off want_end (ds_perms d) cands"
        using 4(1) [OF refl a_def b_def True] wf ok le by simp
      then show ?thesis using True le by (intro cands_exact_skip) (simp_all add: a_def b')
    next
      case False
      then obtain sub rest where sub: "resolve_region c r (a - base) (b - a) (into_child d perms) = Inr sub"
        and rest: "collect_cands c (Suc seq) ms limit off want_end d = Inr rest"
        and cands: "cands = map (cand_of (a - off) priority seq) sub @ rest"
        using run by (auto simp: a_def [symmetric] b_def [symmetric] Let_def rbind_eq_Inr)
      have len: "b - a \<le> r_len r - (a - base)" "a - base + (b - a) < two64"
      proof -
        have "b \<le> base + r_len r" "b \<le> want_end" "base \<le> a"
          by (simp_all add: a_def b' saturating_add64_def min_le_iff_disj)
        then show "b - a \<le> r_len r - (a - base)" "a - base + (b - a) < two64"
          using False le by linarith+
      qed
      have "region_exact c r (a - base) (b - a) (perms_intersect (ds_perms d) perms) sub"
        using 4(2) [OF refl a_def b_def False] sub wf ok len by (simp add: into_child_def)
      moreover have "cands_exact c (Suc seq) ms limit off want_end (ds_perms d) rest"
        using 4(3) [OF refl a_def b_def False sub] rest wf ok le by simp
      ultimately show ?thesis
        unfolding cands using False le by (intro cands_exact_step [OF _ _ a_def b']) simp_all
    qed
  qed
qed

end
