(* ===== verification/Space_View.thy ===== *)
theory Space_View
  imports Space_Decode
begin

text \<open>
  The finished view: looking an address up in it is reading the region tree
  (\<open>flatten_exact\<close>), its entries are sorted, disjoint and inside the space
  (\<open>flatten_sorted\<close>), and building it cannot fail for mappings that pass the
  check made when they are added (\<open>flatten_total\<close>).
\<close>

section \<open>Where an entry sends a byte\<close>

definition leaf_offset_of :: "flat_leaf \<Rightarrow> nat \<Rightarrow> nat" where
  "leaf_offset_of l rel =
     (let raw = wrapping_add64 (fl_offset l) rel in
      if fl_period l = 0 then raw else raw mod fl_period l)"

definition leaf_site :: "nat \<Rightarrow> flat_leaf \<Rightarrow> site" where
  "leaf_site rel l = \<lparr>s_target = backing_of (fl_target l), s_offset = leaf_offset_of l rel,
     s_constraints = fl_constraints l, s_perms = fl_perms l\<rparr>"

text \<open>One site for both directions, a reader and a writer, or several that combine.\<close>

datatype route = RouteOne site | RouteDirected site site | RouteWired combine_policy "site list"

fun route_of :: "reading \<Rightarrow> route" where
  "route_of ([r, w], _, True) = RouteDirected r w"
| "route_of ([l], _, _) = RouteOne l"
| "route_of (ls, policy, _) = RouteWired policy ls"

definition entry_route :: "flat_entry \<Rightarrow> nat \<Rightarrow> route" where
  "entry_route e rel =
     (case fe_kind e of
        Combine policy ms \<Rightarrow> RouteWired policy (map (leaf_site rel) ms)
      | Single l \<Rightarrow>
          (case fe_write_to e of
             None \<Rightarrow> RouteOne (leaf_site rel l)
           | Some w \<Rightarrow> RouteDirected (leaf_site rel l) (leaf_site rel w)))"

definition view_route :: "flat_entry list \<Rightarrow> nat \<Rightarrow> route option" where
  "view_route es addr =
     map_option (\<lambda>i. entry_route (es ! i) (addr - fe_start (es ! i))) (flat_find es addr)"

lemma backing_into_leaf [simp]: "backing_of (fl_target (into_leaf ids c l)) = backing_of (ls_target l)"
  by (simp add: into_leaf_def split: flat_target.split)

lemma leaf_site_into_leaf:
  "leaf_site rel (into_leaf ids c l) = site_of c (l\<lparr>ls_fixed := wrapping_add64 (ls_fixed l) rel\<rparr>)"
proof -
  have "wrapping_add64 (spec_offset c l) rel = (sum_terms c (ls_fixed l) (ls_terms l) mod two64 + rel) mod two64"
    by (simp add: wrapping_add64_def spec_offset_def mod_simps)
  also have "\<dots> = spec_offset c (l\<lparr>ls_fixed := wrapping_add64 (ls_fixed l) rel\<rparr>)"
    unfolding sum_terms_mod spec_offset_cut mod_add_left_eq by (simp add: ac_simps)
  finally show ?thesis
    by (simp add: leaf_site_def site_of_def leaf_offset_of_def byte_offset_def)
       (simp add: into_leaf_def)
qed

lemma from_piece_range [simp]:
  "fe_start (from_piece ids c p) = p_start p" "fe_len (from_piece ids c p) = p_len p"
  by (simp_all add: from_piece_def split: prod.splits)

lemma from_piece_route:
  "entry_route (from_piece ids c p) (x - p_start p) = route_of (reading_of c (piece_answer x p))"
proof -
  consider "p_leaves p = []" | l where "p_leaves p = [l]" | r w where "p_leaves p = [r, w]"
    | r w v ls where "p_leaves p = r # w # v # ls"
    by (metis list.exhaust)
  then show ?thesis
    by cases (cases "p_directed p"; simp add: from_piece_def entry_route_def reading_of_def
        piece_answer_def cut_leaves_def leaf_site_into_leaf comp_def)+
qed

section \<open>Looking an address up\<close>

lemma find_none_below:
  assumes "pieces_ok hi ps" "ps = [] \<or> x < p_start (hd ps)"
  shows "find (piece_covers x) ps = None"
proof (cases ps)
  case (Cons p qs)
  then have "p_start p \<le> p_start q" if "q \<in> set ps" for q
    using assms(1) that by (fastforce simp: pieces_ok_def)
  then show ?thesis
    using assms(2) Cons by (fastforce simp: find_None_iff piece_covers_def)
qed simp

lemma flat_find_pieces:
  assumes "pieces_ok hi ps" "hi < two64"
  shows "map_option ((!) ps) (flat_find (map (from_piece ids c) ps) x) = find (piece_covers x) ps"
  using assms(1)
proof (induction ps)
  case Nil
  then show ?case by (simp add: flat_find_def)
next
  case (Cons p ps)
  have ok: "pieces_ok hi ps" and p: "p_start p + p_len p \<le> hi" "0 < p_len p"
    and after: "\<forall>q\<in>set ps. p_start p + p_len p \<le> p_start q"
    using Cons.prems by (auto simp: pieces_ok_def)
  have e: "entry_end (from_piece ids c p) = p_start p + p_len p"
    using p assms(2) by (simp add: entry_end_def)
  define k where "k = length (takeWhile (\<lambda>e. fe_start e \<le> x) (map (from_piece ids c) ps))"
  show ?case
  proof (cases "p_start p \<le> x")
    case False
    then show ?thesis
      using find_none_below [OF Cons.prems] by (simp add: flat_find_def)
  next
    case True
    show ?thesis
    proof (cases "k = 0")
      case k: True
      then have "find (piece_covers x) ps = None"
        using find_none_below [OF ok, of x] by (cases ps) (auto simp: k_def split: if_splits)
      moreover have "piece_covers x p \<longleftrightarrow> x < p_start p + p_len p"
        using True by (simp add: piece_covers_def)
      ultimately show ?thesis
        using True k e by (simp add: flat_find_def k_def [symmetric])
    next
      case k: False
      then have "ps \<noteq> []" "p_start (hd ps) \<le> x" by (cases ps; auto simp: k_def split: if_splits)+
      then have "\<not> piece_covers x p" using after by (cases ps) (auto simp: piece_covers_def)
      moreover have "flat_find (map (from_piece ids c) (p # ps)) x
                       = map_option Suc (flat_find (map (from_piece ids c) ps) x)"
        using True k by (cases k) (auto simp: flat_find_def k_def [symmetric] Let_def)
      ultimately show ?thesis
        using Cons.IH [OF ok] by (simp add: option.map_comp comp_def)
    qed
  qed
qed

lemma flat_find_less: "flat_find es x = Some i \<Longrightarrow> i < length es"
proof -
  assume *: "flat_find es x = Some i"
  define n where "n = length (takeWhile (\<lambda>e. fe_start e \<le> x) es)"
  have "n \<le> length es" by (simp add: n_def length_takeWhile_le)
  moreover have "n \<noteq> 0" "i = n - 1"
    using * by (auto simp: flat_find_def n_def [symmetric] split: if_splits)
  ultimately show ?thesis by linarith
qed

lemma view_route_pieces:
  assumes "pieces_ok hi ps" "hi < two64"
  shows "view_route (map (from_piece ids c) ps) x
           = map_option route_of (map_option (reading_of c) (answer_at ps x))"
proof -
  have lt: "i < length ps" if "flat_find (map (from_piece ids c) ps) x = Some i" for i
    using flat_find_less [OF that] by simp
  have "view_route (map (from_piece ids c) ps) x
          = map_option (\<lambda>i. route_of (reading_of c (piece_answer x (ps ! i)))) (flat_find (map (from_piece ids c) ps) x)"
    using lt from_piece_route by (cases "flat_find (map (from_piece ids c) ps) x") (auto simp: view_route_def)
  also have "\<dots> = map_option (\<lambda>p. route_of (reading_of c (piece_answer x p))) (find (piece_covers x) ps)"
    using flat_find_pieces [OF assms, of ids c x, symmetric] by (simp add: option.map_comp comp_def)
  finally show ?thesis by (simp add: answer_at_def option.map_comp comp_def)
qed

section \<open>The view is exact\<close>

lemma flat_build_pieces:
  assumes "flat_build ids c children limit policy = Inr (es, idx)"
  obtains ps where "resolve_children c children limit 0 limit policy \<lparr>ds_depth = 0, ds_perms = PERM_RWX\<rparr> = Inr ps"
    "es = map (from_piece ids c) ps" "idx = rebase_index_of es"
  using assms by (auto simp: flat_build_def rbind_eq_Inr Let_def simp del: resolve_children.simps)

lemma root_exact:
  assumes "resolve_children c children limit 0 limit policy \<lparr>ds_depth = 0, ds_perms = PERM_RWX\<rparr> = Inr ps"
    and "list_all mapping_wf children" "list_all (mapping_offsets_ok c) children" "limit < two64"
  shows "pieces_ok limit ps"
    and "y < limit \<Longrightarrow> map_option (reading_of c) (answer_at ps y)
                        = decode_children c children policy limit y PERM_RWX"
  using resolve_exact(2) [of c children limit 0 limit policy "\<lparr>ds_depth = 0, ds_perms = PERM_RWX\<rparr>"] assms
  by (simp_all del: resolve_children.simps decode_children.simps)

lemma decode_all_beyond: "limit \<le> x \<Longrightarrow> decode_all c ms limit x p = []"
  by (induction ms) (auto split: mapping.splits, metis decode_all.simps(2) leD mapping.exhaust)

text \<open>
  The flattened view answers every address exactly as the region tree does
  when it is read at that address alone: the store or device reached, the byte
  offset in it, the access rules and the permissions that apply, which one
  answers reads and which one writes, and which ones combine.
\<close>

theorem flatten_exact:
  assumes build: "flat_build ids c children limit policy = Inr (es, idx)"
    and wf: "list_all mapping_wf children" "list_all (mapping_offsets_ok c) children" "limit < two64"
  shows "view_route es addr = map_option route_of (decode_children c children policy limit addr PERM_RWX)"
proof -
  obtain ps where run: "resolve_children c children limit 0 limit policy \<lparr>ds_depth = 0, ds_perms = PERM_RWX\<rparr> = Inr ps"
    and es: "es = map (from_piece ids c) ps"
    using build by (rule flat_build_pieces)
  note ex = root_exact [OF run wf]
  show ?thesis
  proof (cases "addr < limit")
    case True
    show ?thesis unfolding es view_route_pieces [OF ex(1) wf(3)] ex(2) [OF True] ..
  next
    case False
    then have "answer_at ps addr = None" by (intro answer_at_beyond [OF ex(1)]) simp
    moreover have "decode_children c children policy limit addr PERM_RWX = None"
      using False by (simp add: decode_all_beyond combine_readings_def)
    ultimately show ?thesis unfolding es view_route_pieces [OF ex(1) wf(3)] by simp
  qed
qed

text \<open>
  The entries of the view are non-empty, sorted, disjoint and inside the
  space.
\<close>

theorem flatten_sorted:
  assumes build: "flat_build ids c children limit policy = Inr (es, idx)"
    and wf: "list_all mapping_wf children" "list_all (mapping_offsets_ok c) children" "limit < two64"
  shows "sorted_wrt (\<lambda>e f. fe_start e + fe_len e \<le> fe_start f) es"
    and "\<forall>e\<in>set es. 0 < fe_len e \<and> fe_start e + fe_len e \<le> limit"
proof -
  obtain ps where run: "resolve_children c children limit 0 limit policy \<lparr>ds_depth = 0, ds_perms = PERM_RWX\<rparr> = Inr ps"
    and es: "es = map (from_piece ids c) ps"
    using build by (rule flat_build_pieces)
  have "pieces_ok limit ps" by (rule root_exact(1) [OF run wf])
  then show "sorted_wrt (\<lambda>e f. fe_start e + fe_len e \<le> fe_start f) es"
    and "\<forall>e\<in>set es. 0 < fe_len e \<and> fe_start e + fe_len e \<le> limit"
    unfolding es by (auto simp: pieces_ok_def sorted_wrt_map)
qed

section \<open>Building cannot fail\<close>

lemma region_depth_pos: "region_wf r \<Longrightarrow> 0 < r_depth r"
  by (cases r; cases "r_kind r"; cases "case r_kind r of KAlias a \<Rightarrow> a | _ \<Rightarrow> undefined")
     (auto simp: saturating_add32_def split: region_kind.splits)

lemma resolve_total:
  "region_wf r \<Longrightarrow> ds_depth d + r_depth r \<le> MAX_DEPTH + 1 \<Longrightarrow> \<exists>ps. resolve_region c r off wanted d = Inr ps"
  "list_all mapping_wf ms \<Longrightarrow> (\<forall>m\<in>set ms. ds_depth d' + r_depth (m_region m) \<le> MAX_DEPTH) \<Longrightarrow>
     \<exists>ps. resolve_children c ms limit off' len policy d' = Inr ps"
  "list_all mapping_wf ms \<Longrightarrow> (\<forall>m\<in>set ms. ds_depth d'' + r_depth (m_region m) \<le> MAX_DEPTH) \<Longrightarrow>
     \<exists>cands. collect_cands c seq ms limit off'' want_end d'' = Inr cands"
proof (induction c r off wanted d and c ms limit off' len policy d' and c seq ms limit off'' want_end d''
       rule: resolve_region_resolve_children_collect_cands.induct)
  case (1 c name rlen cons k dep off wanted d)
  define n where "n = min wanted (rlen - off)"
  have dep: "0 < dep" using region_depth_pos [OF 1(3)] by simp
  then have depth: "\<not> MAX_DEPTH < ds_depth d" using 1(4) by simp
  have lim: "dep \<le> MAX_DEPTH + 1" "MAX_DEPTH + 1 < 2 ^ 32 - 1" using 1(4) by (simp_all add: MAX_DEPTH_def)
  show ?case
  proof (cases "n = 0")
    case True
    then show ?thesis using depth by (simp add: n_def Let_def)
  next
    case False
    show ?thesis
    proof (cases k)
      case (KContainer ms policy)
      have "ds_depth d + r_depth (m_region m) \<le> MAX_DEPTH" if "m \<in> set ms" for m
      proof -
        have "r_depth (m_region m) < dep"
          using 1(3) KContainer that lim by (intro depth_container [of dep ms policy dep]) auto
        then show ?thesis using 1(4) by simp
      qed
      then have "\<exists>ps. resolve_children c ms rlen off n policy d = Inr ps"
        using 1(2) [OF depth n_def False KContainer] 1(3) KContainer by auto
      then show ?thesis
        using depth False KContainer by (simp add: n_def [symmetric] Let_def del: resolve_children.simps)
    next
      case (KAlias a)
      obtain t i rebasable repeat where a: "a = Alias t i rebasable repeat" by (cases a)
      show ?thesis
      proof (cases repeat)
        case True
        then have "is_leaf_kind (r_kind t)" "r_len t \<noteq> 0" using 1(3) KAlias a by auto
        then show ?thesis
          using depth False KAlias a True
          by (auto simp: n_def [symmetric] Let_def alias_period_def region_is_empty_def leaf_target_def
                is_leaf_kind_def split: region_kind.splits)
      next
        case rp: False
        have "r_depth t < dep"
          using 1(3) KAlias a lim depth_alias [of dep a dep] by auto
        then have "\<exists>ps. resolve_region c t (wrapping_add64 (ac_offset c i) off) n (into_child d PERM_RWX) = Inr ps"
          using 1(1) [OF depth n_def False KAlias a rp refl] 1(3,4) KAlias a by (simp add: into_child_def)
        then show ?thesis
          using depth False KAlias a rp by (auto simp: n_def [symmetric] Let_def)
      qed
    qed (use depth False in \<open>simp_all add: n_def [symmetric] Let_def\<close>)
  qed
next
  case (2 c ms limit off len policy d)
  then show ?case by (fastforce simp: rbind_def split: sum.split)
next
  case (3 c seq limit off want_end d)
  then show ?case by simp
next
  case (4 c seq r base priority perms ms limit off want_end d)
  define a where "a = max base off"
  define b where "b = min (min (mapping_end (Mapping r base priority perms)) limit) want_end"
  show ?case
  proof (cases "b \<le> a")
    case True
    then show ?thesis using 4(1) [OF refl a_def b_def True] 4(4,5) by (simp add: a_def b_def Let_def)
  next
    case False
    obtain sub where sub: "resolve_region c r (a - base) (b - a) (into_child d perms) = Inr sub"
      using 4(2) [OF refl a_def b_def False] 4(4,5) by (auto simp: into_child_def)
    obtain rest where "collect_cands c (Suc seq) ms limit off want_end d = Inr rest"
      using 4(3) [OF refl a_def b_def False sub] 4(4,5) by auto
    then show ?thesis
      using False sub by (simp add: a_def [symmetric] b_def [symmetric] Let_def)
  qed
qed

text \<open>
  Flattening cannot fail once every mapping has passed the check made when
  it is added: no tree of depth at most 64 makes the walk refuse or panic, so
  the flatten a closing guard performs always has a view to install.
\<close>

theorem flatten_total:
  assumes "list_all mapping_wf children" "\<forall>m\<in>set children. r_depth (m_region m) \<le> MAX_DEPTH"
  shows "\<exists>es idx. flat_build ids c children limit policy = Inr (es, idx)"
proof -
  obtain ps where "resolve_children c children limit 0 limit policy \<lparr>ds_depth = 0, ds_perms = PERM_RWX\<rparr> = Inr ps"
    using resolve_total(2) [of children "\<lparr>ds_depth = 0, ds_perms = PERM_RWX\<rparr>"] assms by fastforce
  then show ?thesis by (simp add: flat_build_def Let_def)
qed

end
