(* ===== verification/Space_Rebase.thy ===== *)
theory Space_Rebase
  imports Space_View
begin

text \<open>
  Sliding a window. \<open>SpaceView::rebase\<close> stores the new offset in the alias's
  cell and refreshes the cached offsets of the leaves that read it, under a
  read guard and without touching the entry list. \<open>rebase_is_rebuild\<close>: the
  view it leaves is the view a full flatten would build.
\<close>

section \<open>The operation\<close>

definition set_cell :: "alias_cells \<Rightarrow> alias_id \<Rightarrow> nat \<Rightarrow> alias_cells" where
  "set_cell c i offset = c\<lparr>ac_offset := (ac_offset c)(i := offset)\<rparr>"

definition space_rebase ::
  "alias_cells \<Rightarrow> flat_entry list \<Rightarrow> rebase_index \<Rightarrow> region \<Rightarrow> nat
     \<Rightarrow> space_error + (alias_cells \<times> flat_entry list)" where
  "space_rebase c es idx r offset =
     (case as_alias r of
        None \<Rightarrow> Inl (Config (AtName (r_name r)) MsgNotAnAlias)
      | Some a \<Rightarrow>
          if \<not> al_rebasable a then Inl (Config (AtName (r_name r)) MsgNotRebasable)
          else
            (case checked_u64 (offset + r_len r) of
               None \<Rightarrow> Inl (Config (AtName (r_name r)) MsgRunsOffTarget)
             | Some e \<Rightarrow>
                 if r_len (al_target a) < e then Inl (Config (AtName (r_name r)) MsgRunsOffTarget)
                 else
                   let c' = set_cell c (al_id a) offset
                   in Inr (c', flat_rebase c' idx (al_id a) es)))"

section \<open>Windows inside their targets\<close>

text \<open>Every rebasable window lies inside its target, as its constructor and every rebase check.\<close>

fun windows_fit :: "alias_cells \<Rightarrow> region \<Rightarrow> bool" and kind_fits :: "alias_cells \<Rightarrow> nat \<Rightarrow> region_kind \<Rightarrow> bool"
  and alias_fits :: "alias_cells \<Rightarrow> nat \<Rightarrow> alias_node \<Rightarrow> bool" and mapping_fits :: "alias_cells \<Rightarrow> mapping \<Rightarrow> bool" where
  "windows_fit c (Region _ len _ k _) \<longleftrightarrow> kind_fits c len k"
| "kind_fits c len (KAlias a) \<longleftrightarrow> alias_fits c len a"
| "kind_fits c len (KContainer ms _) \<longleftrightarrow> list_all (mapping_fits c) ms"
| "kind_fits c len _ \<longleftrightarrow> True"
| "alias_fits c len (Alias t i rebasable _) \<longleftrightarrow>
     windows_fit c t \<and> (rebasable \<longrightarrow> ac_offset c i + len \<le> r_len t)"
| "mapping_fits c (Mapping r _ _ _) \<longleftrightarrow> windows_fit c r"

text \<open>The alias regions of a tree. A region is not copyable, so one identity is one region.\<close>

fun alias_regions :: "region \<Rightarrow> region list" and mappings_aliases :: "mapping list \<Rightarrow> region list" where
  "alias_regions (Region n l c k d) =
     (case k of
        KAlias (Alias t i rb rp) \<Rightarrow> Region n l c k d # alias_regions t
      | KContainer ms _ \<Rightarrow> mappings_aliases ms
      | _ \<Rightarrow> [])"
| "mappings_aliases [] = []"
| "mappings_aliases (Mapping r _ _ _ # ms) = alias_regions r @ mappings_aliases ms"

definition one_region_per_id :: "region \<Rightarrow> region list \<Rightarrow> bool" where
  "one_region_per_id r rs \<longleftrightarrow>
     (\<forall>r'\<in>set rs. map_option al_id (as_alias r') = map_option al_id (as_alias r) \<longrightarrow> r' = r)"

lemma one_region_append [simp]:
  "one_region_per_id r (xs @ ys) \<longleftrightarrow> one_region_per_id r xs \<and> one_region_per_id r ys"
  by (auto simp: one_region_per_id_def)

section \<open>A chain of windows onto a leaf\<close>

fun leaf_shape :: "region \<Rightarrow> perms \<Rightarrow> leaf_spec" where
  "leaf_shape (Region _ _ cons k _) p =
     (let leaf = (\<lambda>t. \<lparr>ls_target = t, ls_fixed = 0, ls_terms = [], ls_period = 0,
                       ls_constraints = cons, ls_perms = p\<rparr>)
      in case k of
        KRam s \<Rightarrow> leaf (TRam s)
      | KRom s w \<Rightarrow> leaf (TRom s w)
      | KIo ops \<Rightarrow> leaf (TIo ops REGION_ID_NONE)
      | KAlias (Alias t i rb rp) \<Rightarrow>
          let l = leaf_shape t (perms_intersect p PERM_RWX)
          in l\<lparr>ls_constraints := (if cons \<noteq> r_constraints t then cons else ls_constraints l),
               ls_terms := ls_terms l @ [i]\<rparr>
      | KContainer _ _ \<Rightarrow> leaf (TRam 0))"

definition shape_piece :: "nat \<Rightarrow> leaf_spec \<Rightarrow> nat \<Rightarrow> piece" where
  "shape_piece n l off =
     \<lparr>p_start = 0, p_len = n, p_leaves = [l\<lparr>ls_fixed := off\<rparr>], p_combine = Priority, p_directed = False\<rparr>"

lemma wrapping_sub64_cancel: "cur + off < two64 \<Longrightarrow> wrapping_sub64 (cur + off) cur = off"
proof -
  assume "cur + off < two64"
  then have "(cur + off + (two64 - cur)) = off + two64" "cur < two64" "off < two64" by simp_all
  then show ?thesis by (simp add: wrapping_sub64_def)
qed

lemma leafy_form:
  assumes "resolves_to_leaf r" "region_wf r" "windows_fit c r" "0 < n" "off + n \<le> r_len r"
    and "ds_depth d + r_depth r \<le> MAX_DEPTH + 1"
  shows "resolve_region c r off n d = Inr [shape_piece n (leaf_shape r (ds_perms d)) off]"
  using assms
proof (induction r "ds_perms d" arbitrary: off d rule: leaf_shape.induct)
  case (1 name rlen cons k dep)
  have "0 < dep" using region_depth_pos [OF 1(3)] by simp
  then have depth: "\<not> MAX_DEPTH < ds_depth d" using 1(7) by simp
  have n: "min n (rlen - off) = n" using 1(6) by simp
  show ?case
  proof (cases k)
    case (KAlias a)
    obtain t i rb rp where a: "a = Alias t i rb rp" by (cases a)
    have rb: "rb" "\<not> rp" "resolves_to_leaf t" using 1(2,3) KAlias a by (auto simp: resolves_to_leaf_def)
    have fit: "ac_offset c i + rlen \<le> r_len t" "windows_fit c t" using 1(4) KAlias a rb by auto
    have wft: "region_wf t" "r_len t < two64" using 1(3) KAlias a by (auto, cases t, auto)
    have "dep \<le> MAX_DEPTH + 1" using 1(7) by simp
    then have "r_depth t < dep"
      using depth_alias [of dep a dep] 1(3) KAlias a by (auto simp: MAX_DEPTH_def)
    then have dt: "ds_depth (into_child d PERM_RWX) + r_depth t \<le> MAX_DEPTH + 1"
      using 1(7) by (simp add: into_child_def)
    have lt: "ac_offset c i + off + n \<le> r_len t" using fit 1(6) by simp
    have sub: "resolve_region c t (ac_offset c i + off) n (into_child d PERM_RWX)
                 = Inr [shape_piece n (leaf_shape t (ds_perms (into_child d PERM_RWX))) (ac_offset c i + off)]"
      by (rule 1(1) [OF refl KAlias a _ rb(3) wft(1) fit(2) 1(5) lt dt]) (simp add: into_child_def)
    have w: "wrapping_add64 (ac_offset c i) off = ac_offset c i + off"
      "wrapping_sub64 (ac_offset c i + off) (ac_offset c i) = off"
      using lt wft(2) 1(5) by (auto intro!: wrapping_sub64_cancel)
    show ?thesis
      using depth n 1(5) rb KAlias a sub w
      by (simp add: Let_def map_leaves_def add_term_def shape_piece_def into_child_def)
  qed (use depth n 1(2,5) in \<open>simp_all add: Let_def leaf_piece_def shape_piece_def resolves_to_leaf_def\<close>)
qed

section \<open>The walk does not see a slid window\<close>

text \<open>An alias that is not rebasable is not the one being slid, so its offset stands.\<close>

lemma other_alias_offset:
  assumes "as_alias r0 = Some a0" "al_rebasable a0"
    and "one_region_per_id r0 (alias_regions (Region name rlen cons (KAlias (Alias t i False rp)) dep))"
  shows "ac_offset (set_cell c (al_id a0) offset) i = ac_offset c i"
proof -
  have "i \<noteq> al_id a0"
  proof
    assume "i = al_id a0"
    then have "Region name rlen cons (KAlias (Alias t i False rp)) dep = r0"
      using assms by (auto simp: one_region_per_id_def as_alias_def)
    with assms(1,2) show False by (auto simp: as_alias_def)
  qed
  then show ?thesis by (simp add: set_cell_def)
qed

lemma resolve_rebase:
  assumes r0: "as_alias r0 = Some a0" "al_rebasable a0"
  shows
  "region_wf r \<Longrightarrow> windows_fit c r \<Longrightarrow> windows_fit (set_cell c (al_id a0) offset) r \<Longrightarrow>
     one_region_per_id r0 (alias_regions r) \<Longrightarrow> ds_depth d + r_depth r \<le> MAX_DEPTH + 1 \<Longrightarrow>
     resolve_region (set_cell c (al_id a0) offset) r off wanted d = resolve_region c r off wanted d"
  "list_all mapping_wf ms \<Longrightarrow> list_all (mapping_fits c) ms \<Longrightarrow>
     list_all (mapping_fits (set_cell c (al_id a0) offset)) ms \<Longrightarrow>
     one_region_per_id r0 (mappings_aliases ms) \<Longrightarrow>
     (\<forall>m\<in>set ms. ds_depth d' + r_depth (m_region m) \<le> MAX_DEPTH) \<Longrightarrow>
     resolve_children (set_cell c (al_id a0) offset) ms limit off' len policy d'
       = resolve_children c ms limit off' len policy d'"
  "list_all mapping_wf ms \<Longrightarrow> list_all (mapping_fits c) ms \<Longrightarrow>
     list_all (mapping_fits (set_cell c (al_id a0) offset)) ms \<Longrightarrow>
     one_region_per_id r0 (mappings_aliases ms) \<Longrightarrow>
     (\<forall>m\<in>set ms. ds_depth d'' + r_depth (m_region m) \<le> MAX_DEPTH) \<Longrightarrow>
     collect_cands (set_cell c (al_id a0) offset) seq ms limit off'' want_end d''
       = collect_cands c seq ms limit off'' want_end d''"
proof (induction c r off wanted d and c ms limit off' len policy d' and c seq ms limit off'' want_end d''
       rule: resolve_region_resolve_children_collect_cands.induct)
  case (1 c name rlen cons k dep off wanted d)
  let ?c' = "set_cell c (al_id a0) offset" and ?r = "Region name rlen cons k dep"
  define n where "n = min wanted (rlen - off)"
  have "0 < dep" using region_depth_pos [OF 1(3)] by simp
  then have depth: "\<not> MAX_DEPTH < ds_depth d" using 1(7) by simp
  have lim: "dep \<le> MAX_DEPTH + 1" "MAX_DEPTH + 1 < 2 ^ 32 - 1" using 1(7) by (simp_all add: MAX_DEPTH_def)
  show ?case
  proof (cases "n = 0")
    case True
    then show ?thesis using depth by (simp add: n_def Let_def)
  next
    case False
    then have n: "0 < n" "off + n \<le> r_len ?r" by (auto simp: n_def)
    have clip: "resolve_region x ?r off wanted d = resolve_region x ?r off n d" for x
    proof -
      have eq: "min n (rlen - off) = n" by (simp add: n_def)
      show ?thesis by (simp only: resolve_region.simps n_def [symmetric] eq)
    qed
    show ?thesis
    proof (cases k)
      case (KContainer ms policy)
      have "ds_depth d + r_depth (m_region m) \<le> MAX_DEPTH" if "m \<in> set ms" for m
      proof -
        have "r_depth (m_region m) < dep"
          using 1(3) KContainer that lim by (intro depth_container [of dep ms policy dep]) auto
        then show ?thesis using 1(7) by simp
      qed
      then have "resolve_children ?c' ms rlen off n policy d = resolve_children c ms rlen off n policy d"
        using 1(2) [OF depth n_def False KContainer] 1(3-6) KContainer by auto
      then show ?thesis
        using depth False KContainer by (simp add: n_def [symmetric] Let_def del: resolve_children.simps)
    next
      case (KAlias a)
      obtain t i rb rp where a: "a = Alias t i rb rp" by (cases a)
      show ?thesis
      proof (cases "rb \<and> \<not> rp")
        case True
        then have "resolves_to_leaf ?r" using KAlias a by (simp add: resolves_to_leaf_def)
        then show ?thesis
          unfolding clip
          using leafy_form [of ?r ?c' n off d] leafy_form [of ?r c n off d] 1(3-5,7) n by metis
      next
        case nrb: False
        show ?thesis
        proof (cases rp)
          case True
          then show ?thesis using depth False KAlias a by (simp add: n_def [symmetric] Let_def)
        next
          case rp: False
          then have rb: "\<not> rb" using nrb by simp
          have cur: "ac_offset ?c' i = ac_offset c i"
            using other_alias_offset [OF r0, of name rlen cons t i rp dep c offset] 1(6) KAlias a rb by simp
          have "r_depth t < dep" using 1(3) KAlias a lim depth_alias [of dep a dep] by auto
          then have "ds_depth (into_child d PERM_RWX) + r_depth t \<le> MAX_DEPTH + 1"
            using 1(7) by (simp add: into_child_def)
          then have "resolve_region ?c' t (wrapping_add64 (ac_offset c i) off) n (into_child d PERM_RWX)
                  = resolve_region c t (wrapping_add64 (ac_offset c i) off) n (into_child d PERM_RWX)"
            using 1(1) [OF depth n_def False KAlias a rp refl] 1(3-6) KAlias a
            by (auto simp: one_region_per_id_def)
          then show ?thesis
            using depth False KAlias a rp rb cur by (simp add: n_def [symmetric] Let_def)
        qed
      qed
    qed (use depth False in \<open>simp_all add: n_def [symmetric] Let_def\<close>)
  qed
next
  case (2 c ms limit off len policy d)
  then show ?case by simp
next
  case (3 c seq limit off want_end d)
  then show ?case by simp
next
  case (4 c seq r base priority perms ms limit off want_end d)
  let ?c' = "set_cell c (al_id a0) offset"
  define a where "a = max base off"
  define b where "b = min (min (mapping_end (Mapping r base priority perms)) limit) want_end"
  show ?case
  proof (cases "b \<le> a")
    case True
    then show ?thesis using 4(1) [OF refl a_def b_def True] 4(4-8) by (simp add: a_def b_def Let_def)
  next
    case False
    have sub: "resolve_region ?c' r (a - base) (b - a) (into_child d perms)
             = resolve_region c r (a - base) (b - a) (into_child d perms)"
      using 4(2) [OF refl a_def b_def False] 4(4-8) by (simp add: into_child_def)
    show ?thesis
    proof (cases "resolve_region c r (a - base) (b - a) (into_child d perms)")
      case (Inl e)
      then show ?thesis using False sub by (simp add: a_def [symmetric] b_def [symmetric] Let_def)
    next
      case (Inr ps)
      then have "collect_cands ?c' (Suc seq) ms limit off want_end d = collect_cands c (Suc seq) ms limit off want_end d"
        using 4(3) [OF refl a_def b_def False Inr] 4(4-8) by simp
      then show ?thesis using False sub Inr by (simp add: a_def [symmetric] b_def [symmetric] Let_def)
    qed
  qed
qed

section \<open>The rebase index\<close>

definition targets_of :: "rebase_index \<Rightarrow> alias_id \<Rightarrow> (nat \<times> nat) set" where
  "targets_of idx i = (case bmap_get idx i of Some xs \<Rightarrow> set xs | None \<Rightarrow> {})"

lemma index_push_spec:
  assumes "bmap_wf idx"
  shows "bmap_wf (index_push i x idx)"
    and "targets_of (index_push i x idx) j = targets_of idx j \<union> (if j = i then {x} else {})"
  using assms by (auto simp: index_push_def targets_of_def bmap_get_def map_of_bmap_insert bmap_wf_insert
      split: option.split)

lemma fold_index_push:
  "bmap_wf idx \<Longrightarrow> bmap_wf (fold (\<lambda>i. index_push i x) ts idx) \<and>
     targets_of (fold (\<lambda>i. index_push i x) ts idx) j = targets_of idx j \<union> (if j \<in> set ts then {x} else {})"
  by (induction ts arbitrary: idx) (auto simp: index_push_spec)

lemma fold_index_leaves:
  "bmap_wf idx \<Longrightarrow> bmap_wf (fold (\<lambda>(m, l). fold (\<lambda>i. index_push i (e, u32_or_max m)) (fl_terms l)) ls idx) \<and>
     targets_of (fold (\<lambda>(m, l). fold (\<lambda>i. index_push i (e, u32_or_max m)) (fl_terms l)) ls idx) j
       = targets_of idx j \<union> {(e, u32_or_max m) | m l. (m, l) \<in> set ls \<and> j \<in> set (fl_terms l)}"
proof (induction ls arbitrary: idx)
  case (Cons ml ls)
  obtain m l where ml: "ml = (m, l)" by (cases ml)
  note step = fold_index_push [OF Cons.prems, of "(e, u32_or_max m)" "fl_terms l"]
  show ?case using Cons.IH [of "fold (\<lambda>i. index_push i (e, u32_or_max m)) (fl_terms l) idx"] step
    by (auto simp: ml)
qed simp

lemma rebase_index_of_spec:
  "targets_of (rebase_index_of es) j
     = {(e mod 2 ^ 32, u32_or_max m) | e m l. e < length es \<and> (m, l) \<in> set (entry_leaves (es ! e)) \<and> j \<in> set (fl_terms l)}"
proof -
  have "bmap_wf (fold (\<lambda>(e, entry). index_entry e entry) xs idx) \<and>
        targets_of (fold (\<lambda>(e, entry). index_entry e entry) xs idx) j
          = targets_of idx j \<union> {(e mod 2 ^ 32, u32_or_max m) | e entry m l.
               (e, entry) \<in> set xs \<and> (m, l) \<in> set (entry_leaves entry) \<and> j \<in> set (fl_terms l)}"
    if "bmap_wf idx" for xs idx
    using that
  proof (induction xs arbitrary: idx)
    case (Cons x xs)
    obtain e entry where x: "x = (e, entry)" by (cases x)
    note step = fold_index_leaves [OF Cons.prems, of "e mod 2 ^ 32" "entry_leaves entry" j, folded index_entry_def]
    have IH: "bmap_wf (fold (\<lambda>(e, entry). index_entry e entry) xs (index_entry e entry idx)) \<and>
        targets_of (fold (\<lambda>(e, entry). index_entry e entry) xs (index_entry e entry idx)) j
          = targets_of (index_entry e entry idx) j \<union> {(e mod 2 ^ 32, u32_or_max m) | e entry m l.
               (e, entry) \<in> set xs \<and> (m, l) \<in> set (entry_leaves entry) \<and> j \<in> set (fl_terms l)}"
      by (rule Cons.IH [OF conjunct1 [OF step]])
    have split: "{(e' mod 2 ^ 32, u32_or_max m) | e' entry' m l.
               (e', entry') \<in> set (x # xs) \<and> (m, l) \<in> set (entry_leaves entry') \<and> j \<in> set (fl_terms l)}
         = {(e mod 2 ^ 32, u32_or_max m) | m l. (m, l) \<in> set (entry_leaves entry) \<and> j \<in> set (fl_terms l)}
           \<union> {(e' mod 2 ^ 32, u32_or_max m) | e' entry' m l.
               (e', entry') \<in> set xs \<and> (m, l) \<in> set (entry_leaves entry') \<and> j \<in> set (fl_terms l)}"
      unfolding x by auto
    show ?case unfolding split using IH step by (simp add: x Un_assoc)
  qed simp
  then have "targets_of (rebase_index_of es) j
      = {(e mod 2 ^ 32, u32_or_max m) | e entry m l.
           (e, entry) \<in> set (enumerate 0 es) \<and> (m, l) \<in> set (entry_leaves entry) \<and> j \<in> set (fl_terms l)}"
    unfolding rebase_index_of_def by (simp add: targets_of_def bmap_get_def)
  moreover have "(e, entry) \<in> set (enumerate 0 es) \<longleftrightarrow> e < length es \<and> entry = es ! e" for e entry
    by (auto simp: in_set_enumerate_eq)
  ultimately show ?thesis by simp
qed

section \<open>Refreshing some leaves\<close>

text \<open>The leaves of a piece with the index each is filed under.\<close>

definition spec_leaves :: "piece \<Rightarrow> (nat \<times> leaf_spec) list" where
  "spec_leaves p =
     (case (p_directed p, p_leaves p) of
        (True, [r, w]) \<Rightarrow> [(0, r), (WRITE_SIDE, w)]
      | (_, ls) \<Rightarrow> enumerate 0 ls)"

text \<open>An entry in which the leaves at the indices in \<open>S\<close> have been refreshed already.\<close>

definition mixed_entry :: "io_ids \<Rightarrow> alias_cells \<Rightarrow> alias_cells \<Rightarrow> nat set \<Rightarrow> piece \<Rightarrow> flat_entry" where
  "mixed_entry ids c c' S p =
     (let leaf = (\<lambda>m l. into_leaf ids (if m \<in> S then c' else c) l);
          (kind, write_to) =
        (case (p_directed p, p_leaves p) of
           (True, [r, w]) \<Rightarrow> (Single (leaf 0 r), Some (leaf WRITE_SIDE w))
         | (_, [l]) \<Rightarrow> (Single (leaf 0 l), None)
         | (_, ls) \<Rightarrow> (Combine (p_combine p) (map (\<lambda>(m, l). leaf m l) (enumerate 0 ls)), None))
      in \<lparr>fe_start = p_start p, fe_len = p_len p, fe_kind = kind, fe_write_to = write_to,
          fe_conflicts = 0\<rparr>)"

lemma piece_leaves_cases:
  obtains "p_leaves p = []" | l where "p_leaves p = [l]" | r w where "p_leaves p = [r, w]"
    | r w v ls where "p_leaves p = r # w # v # ls"
  by (metis list.exhaust)

lemma map_enumerate_snd: "map (\<lambda>(m, l). f l) (enumerate n ls) = map f ls"
  by (induction ls arbitrary: n) auto

lemma enumerate_map: "enumerate n (map f ls) = map (\<lambda>(m, l). (m, f l)) (enumerate n ls)"
  by (induction ls arbitrary: n) auto

lemma mixed_entry_empty: "mixed_entry ids c c' {} p = from_piece ids c p"
  by (cases p rule: piece_leaves_cases; cases "p_directed p")
     (simp_all add: mixed_entry_def from_piece_def map_enumerate_snd)

lemma entry_leaves_from_piece:
  "entry_leaves (from_piece ids c p) = map (\<lambda>(m, l). (m, into_leaf ids c l)) (spec_leaves p)"
  by (cases p rule: piece_leaves_cases; cases "p_directed p")
     (simp_all add: entry_leaves_def from_piece_def spec_leaves_def enumerate_map)

lemma leaf_recompute_into_leaf [simp]: "leaf_recompute c' (into_leaf ids c l) = into_leaf ids c' l"
  by (simp add: leaf_recompute_def into_leaf_def spec_offset_def)

lemma mixed_members:
  "(map (\<lambda>(k, l). into_leaf ids (if k \<in> S then c' else c) l) (enumerate 0 ls))
     [m := leaf_recompute c' (map (\<lambda>(k, l). into_leaf ids (if k \<in> S then c' else c) l) (enumerate 0 ls) ! m)]
   = map (\<lambda>(k, l). into_leaf ids (if k = m \<or> k \<in> S then c' else c) l) (enumerate 0 ls)" (is "?xs = ?ys")
proof (rule nth_equalityI)
  fix k assume "k < length ?xs"
  then show "?xs ! k = ?ys ! k"
    by (cases "k = m") (simp_all add: nth_enumerate_eq)
qed simp

definition combined :: "piece \<Rightarrow> bool" where
  "combined p \<longleftrightarrow> \<not> (length (p_leaves p) = 1 \<or> p_directed p \<and> length (p_leaves p) = 2)"

lemma mixed_entry_combined:
  "combined p \<Longrightarrow> mixed_entry ids c c' S p = \<lparr>fe_start = p_start p, fe_len = p_len p,
      fe_kind = Combine (p_combine p)
        (map (\<lambda>(k, l). into_leaf ids (if k \<in> S then c' else c) l) (enumerate 0 (p_leaves p))),
      fe_write_to = None, fe_conflicts = 0\<rparr>"
  by (cases p rule: piece_leaves_cases; cases "p_directed p")
     (simp_all add: mixed_entry_def combined_def del: enumerate_simps)

lemma spec_leaves_combined: "\<not> (p_directed p \<and> length (p_leaves p) = 2) \<Longrightarrow> spec_leaves p = enumerate 0 (p_leaves p)"
  by (cases p rule: piece_leaves_cases; cases "p_directed p")
     (simp_all add: spec_leaves_def del: enumerate_simps)

lemma spec_leaves_index:
  assumes "(m, l) \<in> set (spec_leaves p)" "length (p_leaves p) \<le> WRITE_SIDE"
  shows "m \<le> WRITE_SIDE"
proof (cases "p_directed p \<and> length (p_leaves p) = 2")
  case True
  then show ?thesis using assms(1) by (cases p rule: piece_leaves_cases) (auto simp: spec_leaves_def)
next
  case False
  then show ?thesis using assms by (auto simp: spec_leaves_combined in_set_enumerate_eq)
qed

lemma recompute_mixed:
  assumes "length (p_leaves p) \<le> WRITE_SIDE"
  shows "recompute_at c' m (mixed_entry ids c c' S p) = mixed_entry ids c c' (insert m S) p"
proof (cases "combined p")
  case False
  then show ?thesis
    by (cases p rule: piece_leaves_cases; cases "p_directed p")
       (auto simp: mixed_entry_def recompute_at_def WRITE_SIDE_def combined_def)
next
  case True
  define members where "members T = map (\<lambda>(k, l). into_leaf ids (if k \<in> T then c' else c) l) (enumerate 0 (p_leaves p))" for T
  note mixed = mixed_entry_combined [OF True, of ids c c', folded members_def]
  have upd: "(members S)[m := leaf_recompute c' (members S ! m)] = members (insert m S)"
    using mixed_members [of ids S c' c "p_leaves p" m] by (simp add: members_def)
  have len: "length (members T) = length (p_leaves p)" for T by (simp add: members_def)
  show ?thesis
  proof (cases "m < length (p_leaves p)")
    case True
    then show ?thesis using assms upd len by (simp add: mixed recompute_at_def)
  next
    case False
    then have "members (insert m S) = members S"
      using upd len [of S] by (metis list_update_beyond not_less)
    then show ?thesis using False len by (simp add: mixed recompute_at_def)
  qed
qed

lemma mixed_entry_full:
  assumes "\<forall>i. i \<noteq> x \<longrightarrow> ac_offset c' i = ac_offset c i"
    and "\<forall>(m, l)\<in>set (spec_leaves p). x \<in> set (ls_terms l) \<longrightarrow> m \<in> S"
  shows "mixed_entry ids c c' S p = from_piece ids c' p"
proof -
  have same: "sum_terms c' f ts = sum_terms c f ts" if "x \<notin> set ts" for f ts
    using that assms(1) unfolding sum_terms_def by (induction ts arbitrary: f) auto
  have leaf: "into_leaf ids (if m \<in> S then c' else c) l = into_leaf ids c' l"
    if "(m, l) \<in> set (spec_leaves p)" for m l
    using that assms(2) same [of "ls_terms l" "ls_fixed l"]
    by (auto simp: into_leaf_def spec_offset_def)
  show ?thesis
  proof (cases "combined p")
    case False
    then show ?thesis
      using leaf by (cases p rule: piece_leaves_cases; cases "p_directed p")
        (auto simp: mixed_entry_def from_piece_def spec_leaves_def combined_def)
  next
    case True
    then have "spec_leaves p = enumerate 0 (p_leaves p)" by (intro spec_leaves_combined) (simp add: combined_def)
    then have "map (\<lambda>(k, l). into_leaf ids (if k \<in> S then c' else c) l) (enumerate 0 (p_leaves p))
        = map (\<lambda>(k, l). into_leaf ids (if k \<in> {} then c' else c') l) (enumerate 0 (p_leaves p))"
      using leaf by (auto intro!: map_cong)
    then show ?thesis
      unfolding mixed_entry_empty [of ids c' c' p, symmetric] mixed_entry_combined [OF True] by simp
  qed
qed

text \<open>The whole refresh: every entry ends with the leaves named for it refreshed.\<close>

lemma fold_recompute:
  assumes "\<forall>p\<in>set ps. length (p_leaves p) \<le> WRITE_SIDE"
  shows "fold (\<lambda>(e, m) es. if e < length es then es[e := recompute_at c' m (es ! e)] else es) targets
           (map (\<lambda>(e, p). mixed_entry ids c c' (S e) p) (enumerate 0 ps))
         = map (\<lambda>(e, p). mixed_entry ids c c' (S e \<union> {m. (e, m) \<in> set targets}) p) (enumerate 0 ps)"
proof (induction targets arbitrary: S)
  case (Cons t targets)
  obtain e m where t: "t = (e, m)" by (cases t)
  let ?es = "map (\<lambda>(e, p). mixed_entry ids c c' (S e) p) (enumerate 0 ps)"
  have "(if e < length ?es then ?es[e := recompute_at c' m (?es ! e)] else ?es)
          = map (\<lambda>(k, p). mixed_entry ids c c' ((S(e := insert m (S e))) k) p) (enumerate 0 ps)"
  proof (cases "e < length ps")
    case True
    then show ?thesis
      using assms by (auto simp: nth_enumerate_eq nth_list_update recompute_mixed intro!: nth_equalityI)
  next
    case False
    then show ?thesis by (auto simp: in_set_enumerate_eq)
  qed
  then have "fold (\<lambda>(e, m) es. if e < length es then es[e := recompute_at c' m (es ! e)] else es) (t # targets) ?es
      = map (\<lambda>(k, p). mixed_entry ids c c' ((S(e := insert m (S e))) k \<union> {m. (k, m) \<in> set targets}) p) (enumerate 0 ps)"
    using Cons [of "S(e := insert m (S e))"] by (simp add: t)
  moreover have "(S(e := insert m (S e))) k \<union> {m. (k, m) \<in> set targets} = S k \<union> {m. (k, m) \<in> set (t # targets)}" for k
    by (auto simp: t)
  ultimately show ?case by simp
qed simp

section \<open>A rebase is a rebuild\<close>

lemma rebase_index_cells:
  "rebase_index_of (map (from_piece ids c) ps) = rebase_index_of (map (from_piece ids c') ps)"
proof -
  have "index_entry e (from_piece ids c p) idx = index_entry e (from_piece ids c' p) idx" for e p idx
    unfolding index_entry_def entry_leaves_from_piece fold_map comp_def
    by (simp add: case_prod_unfold into_leaf_def)
  then have "index_entry e (from_piece ids c p) = index_entry e (from_piece ids c' p)" for e p by blast
  then show ?thesis
    by (simp add: rebase_index_of_def enumerate_map fold_map comp_def case_prod_unfold)
qed

lemma flat_rebase_pieces:
  assumes "length ps < 2 ^ 32" "\<forall>p\<in>set ps. length (p_leaves p) \<le> WRITE_SIDE"
    and agree: "\<forall>i. i \<noteq> x \<longrightarrow> ac_offset c' i = ac_offset c i"
  shows "flat_rebase c' (rebase_index_of (map (from_piece ids c) ps)) x (map (from_piece ids c) ps)
           = map (from_piece ids c') ps"
proof -
  let ?es = "map (from_piece ids c) ps" and ?idx = "rebase_index_of (map (from_piece ids c) ps)"
  obtain targets where tg: "set targets = targets_of ?idx x"
    and run: "flat_rebase c' ?idx x ?es
       = fold (\<lambda>(e, m) es. if e < length es then es[e := recompute_at c' m (es ! e)] else es) targets ?es"
  proof (cases "bmap_get ?idx x")
    case None
    then show ?thesis using that [of "[]"] by (simp add: targets_of_def flat_rebase_def)
  next
    case (Some ts)
    then show ?thesis using that [of ts] by (simp add: targets_of_def flat_rebase_def)
  qed
  have es: "?es = map (\<lambda>(e, p). mixed_entry ids c c' {} p) (enumerate 0 ps)"
    by (simp add: mixed_entry_empty map_enumerate_snd)
  have full: "mixed_entry ids c c' ({} \<union> {m. (e, m) \<in> set targets}) p = from_piece ids c' p"
    if "(e, p) \<in> set (enumerate 0 ps)" for e p
  proof (rule mixed_entry_full [OF agree], safe)
    fix m l assume ml: "(m, l) \<in> set (spec_leaves p)" and x: "x \<in> set (ls_terms l)"
    have e: "e < length ps" "p = ps ! e" using that by (auto simp: in_set_enumerate_eq)
    have "m \<le> WRITE_SIDE"
      using ml assms(2) e by (auto intro: spec_leaves_index)
    then have m: "u32_or_max m = m" by (simp add: u32_or_max_def WRITE_SIDE_def)
    have "(m, into_leaf ids c l) \<in> set (entry_leaves (?es ! e))"
      using ml e by (force simp: entry_leaves_from_piece)
    moreover have "x \<in> set (fl_terms (into_leaf ids c l))" using x by (simp add: into_leaf_def)
    ultimately have "(e mod 2 ^ 32, u32_or_max m) \<in> targets_of ?idx x"
      unfolding rebase_index_of_spec using e by (simp only: mem_Collect_eq length_map) blast
    then show "(e, m) \<in> set targets" using m e assms(1) by (simp add: tg)
  qed
  have "map (\<lambda>(e, p). mixed_entry ids c c' ({} \<union> {m. (e, m) \<in> set targets}) p) (enumerate 0 ps)
          = map (\<lambda>(e, p). from_piece ids c' p) (enumerate 0 ps)"
    using full by (intro map_cong) auto
  moreover have "flat_rebase c' ?idx x ?es
      = map (\<lambda>(e, p). mixed_entry ids c c' ({} \<union> {m. (e, m) \<in> set targets}) p) (enumerate 0 ps)"
    unfolding run by (subst es) (rule fold_recompute [OF assms(2), where S = "\<lambda>_. {}"])
  ultimately show ?thesis
    by (simp only: map_enumerate_snd)
qed

lemma windows_fit_set_cell:
  assumes r0: "as_alias r0 = Some a0" "al_rebasable a0" and fit: "offset + r_len r0 \<le> r_len (al_target a0)"
  shows "windows_fit c r \<Longrightarrow> one_region_per_id r0 (alias_regions r) \<Longrightarrow>
           windows_fit (set_cell c (al_id a0) offset) r"
    and "list_all (mapping_fits c) ms \<Longrightarrow> one_region_per_id r0 (mappings_aliases ms) \<Longrightarrow>
           list_all (mapping_fits (set_cell c (al_id a0) offset)) ms"
proof (induction r and ms rule: alias_regions_mappings_aliases.induct)
  case (1 n l cs k d)
  show ?case
  proof (cases k)
    case (KAlias a)
    obtain t i rb rp where a: "a = Alias t i rb rp" by (cases a)
    have one: "one_region_per_id r0 (alias_regions t)"
      "i = al_id a0 \<Longrightarrow> Region n l cs k d = r0"
      using 1(4) KAlias a r0 by (auto simp: one_region_per_id_def as_alias_def)
    have "windows_fit (set_cell c (al_id a0) offset) t"
      using 1(1) [OF KAlias a] 1(3) KAlias a one by simp
    moreover have "ac_offset (set_cell c (al_id a0) offset) i + l \<le> r_len t" if "rb"
    proof (cases "i = al_id a0")
      case True
      then have "r0 = Region n l cs k d" using one by simp
      then have "al_target a0 = t" "r_len r0 = l" using r0 KAlias a by (auto simp: as_alias_def)
      then show ?thesis using fit True by (simp add: set_cell_def)
    next
      case False
      then show ?thesis using 1(3) KAlias a that by (simp add: set_cell_def)
    qed
    ultimately show ?thesis using KAlias a by simp
  next
    case (KContainer ms p)
    then show ?thesis using 1(2) [OF KContainer] 1(3,4) by simp
  qed (use 1 in simp_all)
qed auto

lemma rebase_rebuilds:
  assumes build: "flat_build ids c children limit policy = Inr (es, idx)"
    and wf: "list_all mapping_wf children" "\<forall>m\<in>set children. r_depth (m_region m) \<le> MAX_DEPTH"
    and fit: "list_all (mapping_fits c) children"
    and one: "one_region_per_id r (mappings_aliases children)"
    and size: "length es < 2 ^ 32" "\<forall>e\<in>set es. length (entry_leaves e) \<le> WRITE_SIDE"
    and rebase: "space_rebase c es idx r offset = Inr (c', es')"
  shows "flat_build ids c' children limit policy = Inr (es', idx)"
proof -
  obtain a where a: "as_alias r = Some a" "al_rebasable a" "offset + r_len r \<le> r_len (al_target a)"
    and c': "c' = set_cell c (al_id a) offset" and es': "es' = flat_rebase c' idx (al_id a) es"
    using rebase by (auto simp: space_rebase_def Let_def checked_u64_def split: option.splits if_splits)
  let ?d = "\<lparr>ds_depth = 0, ds_perms = PERM_RWX\<rparr>"
  obtain ps where run: "resolve_children c children limit 0 limit policy ?d = Inr ps"
    and es: "es = map (from_piece ids c) ps" and idx: "idx = rebase_index_of es"
    using build by (rule flat_build_pieces)
  have "resolve_children c' children limit 0 limit policy ?d = Inr ps"
    unfolding c' run [symmetric]
    using wf fit one windows_fit_set_cell(2) [OF a(1,2,3) fit one]
    by (intro resolve_rebase(2) [OF a(1,2)]) auto
  then have "flat_build ids c' children limit policy
               = Inr (map (from_piece ids c') ps, rebase_index_of (map (from_piece ids c') ps))"
    by (simp add: flat_build_def Let_def del: resolve_children.simps)
  moreover have "\<forall>p\<in>set ps. length (p_leaves p) \<le> WRITE_SIDE"
  proof
    fix p assume "p \<in> set ps"
    then have "length (spec_leaves p) \<le> WRITE_SIDE"
      using size(2) unfolding es by (force simp: entry_leaves_from_piece)
    then show "length (p_leaves p) \<le> WRITE_SIDE"
      by (cases p rule: piece_leaves_cases; cases "p_directed p") (auto simp: spec_leaves_def)
  qed
  then have "es' = map (from_piece ids c') ps"
    unfolding es' idx es using size(1) es by (intro flat_rebase_pieces) (auto simp: c' set_cell_def)
  ultimately show ?thesis
    by (simp add: idx es rebase_index_cells [of ids c ps c'])
qed

text \<open>
  C27: Rebasing is rebuilding. When sliding an alias succeeds, the view that the
  in-place refresh leaves is the view a full flatten of the tree would build
  from the new offsets, entry for entry and with the same rebase index; so an
  access after a bank switch is decoded as if the space had been reflattened.
\<close>

theorem rebase_is_rebuild:
  assumes build: "flat_build ids c children limit policy = Inr (es, idx)"
    and wf: "list_all mapping_wf children" "\<forall>m\<in>set children. r_depth (m_region m) \<le> MAX_DEPTH"
    and fit: "list_all (mapping_fits c) children"
    and one: "one_region_per_id r (mappings_aliases children)"
    and size: "length es < 2 ^ 32" "\<forall>e\<in>set es. length (entry_leaves e) \<le> WRITE_SIDE"
    and rebase: "space_rebase c es idx r offset = Inr (c', es')"
  shows "flat_build ids c' children limit policy = Inr (es', idx)"
  using assms by (rule rebase_rebuilds)

end
