(* ===== verification/Space_Dispatch.thy ===== *)
theory Space_Dispatch
  imports Space_View
begin

text \<open>
  \<open>core/space/dispatch.rs\<close>: the dense page table in front of the flattened
  view. A table entry is a tagged 32-bit word, packed and unpacked as the code
  does. \<open>locate_exact\<close>: going through the table finds what the binary search
  finds.
\<close>

section \<open>The table\<close>

datatype dispatch_policy = DispatchFlat | DispatchDense nat nat | DispatchAuto

datatype dispatch_entry = DUnassigned | DSubPage | DMapped nat | DDirect nat

record dispatch =
  dp_page_bits :: nat
  dp_cover :: nat
  dp_table :: "u32 list"

definition TAG_SHIFT :: nat where "TAG_SHIFT = 30"
definition TAG_MAPPED :: u32 where "TAG_MAPPED = 0"
definition TAG_DIRECT :: u32 where "TAG_DIRECT = push_bit TAG_SHIFT 1"
definition TAG_SUBPAGE :: u32 where "TAG_SUBPAGE = push_bit TAG_SHIFT 2"
definition TAG_UNASSIGNED :: u32 where "TAG_UNASSIGNED = push_bit TAG_SHIFT 3"
definition INDEX_MASK :: u32 where "INDEX_MASK = push_bit TAG_SHIFT 1 - 1"
definition MAX_ENTRIES :: nat where "MAX_ENTRIES = 2 ^ 20"

definition is_direct_ram :: "flat_entry \<Rightarrow> bool" where
  "is_direct_ram e \<longleftrightarrow>
     fe_write_to e = None \<and> (case fe_kind e of Single l \<Rightarrow> (case fl_target l of TRam _ \<Rightarrow> True | _ \<Rightarrow> False) | _ \<Rightarrow> False)"

text \<open>The word for one page; \<open>page << page_bits\<close> drops what does not fit.\<close>

definition page_word :: "flat_entry list \<Rightarrow> nat \<Rightarrow> nat \<Rightarrow> u32" where
  "page_word es page_bits page =
     (let start = page * 2 ^ page_bits mod two64;
          page_end = saturating_add64 start (2 ^ page_bits)
      in case flat_find es start of
           Some i \<Rightarrow>
             let e = es ! i in
             if page_end \<le> entry_end e then
               let tag = (if is_direct_ram e then TAG_DIRECT else TAG_MAPPED) in
               if i < 2 ^ 32 \<and> i \<le> unat INDEX_MASK then tag OR of_nat i else TAG_SUBPAGE
             else TAG_SUBPAGE
         | None \<Rightarrow>
             (case map_option fe_start (find (\<lambda>e. start \<le> fe_start e) es) of
                Some s \<Rightarrow> if s < page_end then TAG_SUBPAGE else TAG_UNASSIGNED
              | None \<Rightarrow> TAG_UNASSIGNED))"

definition dispatch_build :: "flat_entry list \<Rightarrow> dispatch_policy \<Rightarrow> dispatch option" where
  "dispatch_build es policy =
     (case (case policy of
              DispatchFlat \<Rightarrow> None
            | DispatchDense page_bits cover \<Rightarrow> Some (page_bits, cover)
            | DispatchAuto \<Rightarrow> if length es < 8 then None else Some (12, flat_extent es)) of
        None \<Rightarrow> None
      | Some (page_bits, cover) \<Rightarrow>
          if page_bits = 0 \<or> 64 \<le> page_bits \<or> cover = 0 then None
          else
            let pages = div_ceil cover (2 ^ page_bits) in
            if MAX_ENTRIES < pages then None
            else Some \<lparr>dp_page_bits = page_bits, dp_cover = cover,
                       dp_table = map (page_word es page_bits) [0..<pages]\<rparr>)"

definition unpack_word :: "u32 \<Rightarrow> dispatch_entry" where
  "unpack_word raw =
     (let tag = raw AND (NOT INDEX_MASK) in
      if tag = TAG_DIRECT then DDirect (unat (raw AND INDEX_MASK))
      else if tag = TAG_SUBPAGE then DSubPage
      else if tag = TAG_UNASSIGNED then DUnassigned
      else DMapped (unat (raw AND INDEX_MASK)))"

definition dispatch_lookup :: "dispatch \<Rightarrow> nat \<Rightarrow> dispatch_entry option" where
  "dispatch_lookup d addr =
     (if dp_cover d \<le> addr then None
      else map_option unpack_word (nth_opt (dp_table d) (addr div 2 ^ dp_page_bits d)))"

text \<open>\<open>SpaceView::locate\<close>\<close>

definition locate :: "flat_entry list \<Rightarrow> dispatch option \<Rightarrow> nat \<Rightarrow> nat option" where
  "locate es d addr =
     (case d of
        None \<Rightarrow> flat_find es addr
      | Some t \<Rightarrow>
          (case dispatch_lookup t addr of
             Some DUnassigned \<Rightarrow> None
           | Some (DMapped i) \<Rightarrow> Some i
           | Some (DDirect i) \<Rightarrow> Some i
           | Some DSubPage \<Rightarrow> flat_find es addr
           | None \<Rightarrow> flat_find es addr))"

section \<open>Words\<close>

lemmas tag_defs = TAG_SHIFT_def TAG_MAPPED_def TAG_DIRECT_def TAG_SUBPAGE_def TAG_UNASSIGNED_def INDEX_MASK_def

lemma index_mask: "INDEX_MASK = mask 30"
  by (simp add: tag_defs mask_eq_decr_exp push_bit_eq_mult)

lemma pack_index:
  assumes "i \<le> unat INDEX_MASK" "tag AND INDEX_MASK = 0"
  shows "(tag OR of_nat i) AND INDEX_MASK = of_nat i" "(tag OR of_nat i) AND (NOT INDEX_MASK) = tag"
    "unat (of_nat i :: u32) = i"
proof -
  have "i < 2 ^ 30"
    using assms(1) by (simp add: tag_defs push_bit_eq_mult)
  then have i: "take_bit 30 (of_nat i :: u32) = of_nat i" and n: "unat (of_nat i :: u32) = i"
    by (simp_all add: take_bit_of_nat take_bit_nat_eq_self unsigned_of_nat)
  show "(tag OR of_nat i) AND INDEX_MASK = of_nat i"
    using assms(2) i by (simp add: index_mask bit.conj_disj_distrib2 take_bit_eq_mask)
  have "(of_nat i :: u32) = of_nat i AND INDEX_MASK"
    using i by (simp add: index_mask take_bit_eq_mask)
  then have "(of_nat i :: u32) AND (NOT INDEX_MASK) = of_nat i AND (INDEX_MASK AND (NOT INDEX_MASK))"
    by (metis and.assoc)
  then have "(of_nat i :: u32) AND (NOT INDEX_MASK) = 0"
    by simp
  moreover have "tag AND (NOT INDEX_MASK) = tag"
  proof -
    have "tag = tag AND (INDEX_MASK OR (NOT INDEX_MASK))" by simp
    also have "\<dots> = (tag AND INDEX_MASK) OR (tag AND (NOT INDEX_MASK))" by (rule bit.conj_disj_distrib)
    finally show ?thesis using assms(2) by simp
  qed
  ultimately show "(tag OR of_nat i) AND (NOT INDEX_MASK) = tag"
    by (simp add: bit.conj_disj_distrib2)
  show "unat (of_nat i :: u32) = i" by (rule n)
qed

lemma unpack_pack:
  assumes "i \<le> unat INDEX_MASK"
  shows "unpack_word (TAG_DIRECT OR of_nat i) = DDirect i"
    "unpack_word (TAG_MAPPED OR of_nat i) = DMapped i"
proof -
  have t: "TAG_DIRECT AND INDEX_MASK = 0" "TAG_MAPPED AND INDEX_MASK = 0"
    by (simp_all add: tag_defs push_bit_eq_mult)
  show "unpack_word (TAG_DIRECT OR of_nat i) = DDirect i"
    using pack_index [OF assms t(1)] by (simp add: unpack_word_def)
  have "TAG_MAPPED \<noteq> TAG_DIRECT" "TAG_MAPPED \<noteq> TAG_SUBPAGE" "TAG_MAPPED \<noteq> TAG_UNASSIGNED"
    by (simp_all add: tag_defs push_bit_eq_mult)
  then show "unpack_word (TAG_MAPPED OR of_nat i) = DMapped i"
    using pack_index [OF assms t(2)] by (simp add: unpack_word_def)
qed

lemma unpack_tags [simp]:
  "unpack_word TAG_SUBPAGE = DSubPage" "unpack_word TAG_UNASSIGNED = DUnassigned"
  by (simp_all add: unpack_word_def tag_defs push_bit_eq_mult)

section \<open>Lookup in sorted entries\<close>

definition entries_ok :: "nat \<Rightarrow> flat_entry list \<Rightarrow> bool" where
  "entries_ok hi es \<longleftrightarrow>
     sorted_wrt (\<lambda>e f. fe_start e + fe_len e \<le> fe_start f) es \<and>
     (\<forall>e\<in>set es. 0 < fe_len e \<and> fe_start e + fe_len e \<le> hi)"

lemma entry_end_exact:
  "entries_ok hi es \<Longrightarrow> hi < two64 \<Longrightarrow> i < length es \<Longrightarrow> entry_end (es ! i) = fe_start (es ! i) + fe_len (es ! i)"
  by (force simp: entries_ok_def entry_end_def dest: nth_mem)

lemma flat_find_iff:
  assumes ok: "entries_ok hi es" "hi < two64"
  shows "flat_find es x = Some i \<longleftrightarrow>
           i < length es \<and> fe_start (es ! i) \<le> x \<and> x < fe_start (es ! i) + fe_len (es ! i)"
proof -
  define k where "k = length (takeWhile (\<lambda>e. fe_start e \<le> x) es)"
  have before: "fe_start (es ! j) \<le> x" if "j < k" for j
    using that nth_mem [of j "takeWhile (\<lambda>e. fe_start e \<le> x) es"]
    by (auto simp: k_def takeWhile_nth dest!: set_takeWhileD)
  have kle: "k \<le> length es" by (simp add: k_def length_takeWhile_le)
  have apart: "fe_start (es ! a) + fe_len (es ! a) \<le> fe_start (es ! b)" if "a < b" "b < length es" for a b
    using sorted_wrt_nth_less [of "\<lambda>e f. fe_start e + fe_len e \<le> fe_start f" es a b] ok(1) that
    by (simp add: entries_ok_def)
  have beyond: "x < fe_start (es ! j)" if "k \<le> j" "j < length es" for j
  proof -
    have "x < fe_start (es ! k)"
      using that nth_length_takeWhile [of "\<lambda>e. fe_start e \<le> x" es] by (simp add: k_def)
    then show ?thesis using apart [of k j] that by (cases "j = k") auto
  qed
  have find: "flat_find es x = Some i \<longleftrightarrow> k \<noteq> 0 \<and> i = k - 1 \<and> x < entry_end (es ! i)"
    by (auto simp: flat_find_def k_def [symmetric] Let_def)
  show ?thesis
  proof
    assume "flat_find es x = Some i"
    then have "k \<noteq> 0" "i = k - 1" "x < entry_end (es ! i)" "i < length es"
      using find kle by auto
    then show "i < length es \<and> fe_start (es ! i) \<le> x \<and> x < fe_start (es ! i) + fe_len (es ! i)"
      using before [of i] entry_end_exact [OF ok, of i] by simp
  next
    assume i: "i < length es \<and> fe_start (es ! i) \<le> x \<and> x < fe_start (es ! i) + fe_len (es ! i)"
    then have "i < k" using beyond [of i] by (meson not_less leD)
    moreover have "\<not> i < k - 1"
      using apart [of i "k - 1"] before [of "k - 1"] i kle by fastforce
    ultimately show "flat_find es x = Some i"
      using i entry_end_exact [OF ok, of i] by (auto simp: find)
  qed
qed

lemma flat_find_None:
  assumes "entries_ok hi es" "hi < two64"
  shows "flat_find es x = None \<longleftrightarrow>
           (\<forall>i<length es. \<not> (fe_start (es ! i) \<le> x \<and> x < fe_start (es ! i) + fe_len (es ! i)))"
  using flat_find_iff [OF assms, of x] by (cases "flat_find es x") auto

section \<open>The table agrees with the search\<close>

lemma page_word_sound:
  assumes ok: "entries_ok hi es" "hi < two64"
    and page: "page * 2 ^ pb \<le> addr" "addr < page * 2 ^ pb + 2 ^ pb" "addr < two64 - 1"
  shows "case unpack_word (page_word es pb page) of
           DUnassigned \<Rightarrow> flat_find es addr = None
         | DMapped i \<Rightarrow> flat_find es addr = Some i
         | DDirect i \<Rightarrow> flat_find es addr = Some i \<and> is_direct_ram (es ! i)
         | DSubPage \<Rightarrow> True"
proof -
  define start where "start = page * 2 ^ pb"
  define stop where "stop = saturating_add64 start (2 ^ pb)"
  have start: "page * 2 ^ pb mod two64 = start" "start \<le> addr" "addr < stop"
    using page by (simp_all add: start_def stop_def saturating_add64_def)
  note word = page_word_def [of es pb page, unfolded start(1) stop_def [symmetric] Let_def]
  show ?thesis
  proof (cases "flat_find es start")
    case (Some i)
    have i: "i < length es" "fe_start (es ! i) \<le> start"
      using Some flat_find_iff [OF ok] by auto
    have covers: "flat_find es addr = Some i" if "stop \<le> entry_end (es ! i)"
      unfolding flat_find_iff [OF ok] using i start that entry_end_exact [OF ok i(1)] by simp
    show ?thesis
      using Some covers by (auto simp: word unpack_pack)
  next
    case None
    have none: "flat_find es addr = None" if far: "\<forall>e\<in>set es. start \<le> fe_start e \<longrightarrow> stop \<le> fe_start e"
      unfolding flat_find_None [OF ok]
    proof (intro allI impI notI)
      fix i assume i: "i < length es" and cov: "fe_start (es ! i) \<le> addr \<and> addr < fe_start (es ! i) + fe_len (es ! i)"
      have "fe_start (es ! i) < start"
        using far i cov start(3) by (metis leD le_less_trans not_less nth_mem)
      then show False
        using None i cov start(2) unfolding flat_find_None [OF ok] by auto
    qed
    show ?thesis
    proof (cases "find (\<lambda>e. start \<le> fe_start e) es")
      case None
      then have "flat_find es addr = None" by (intro none) (auto simp: find_None_iff)
      then show ?thesis using \<open>flat_find es start = None\<close> None by (simp add: word unpack_pack)
    next
      case (Some e)
      obtain j where j: "j < length es" "start \<le> fe_start (es ! j)" "e = es ! j"
        "\<forall>i<j. \<not> start \<le> fe_start (es ! i)"
        using Some by (auto simp: find_Some_iff)
      have "flat_find es addr = None" if "stop \<le> fe_start e"
      proof (intro none ballI impI)
        fix f assume "f \<in> set es" "start \<le> fe_start f"
        then obtain i where i: "i < length es" "f = es ! i" "j \<le> i"
          using j(4) by (metis in_set_conv_nth not_less)
        then have "fe_start (es ! j) \<le> fe_start (es ! i)"
          using ok(1) sorted_wrt_nth_less [of "\<lambda>e f. fe_start e + fe_len e \<le> fe_start f" es j i]
          by (cases "i = j") (auto simp: entries_ok_def)
        then show "stop \<le> fe_start f" using that j i by simp
      qed
      then show ?thesis using \<open>flat_find es start = None\<close> Some by (simp add: word unpack_pack)
    qed
  qed
qed

lemma locate_table:
  assumes ok: "entries_ok hi es" "hi < two64" and cover: "\<forall>pb cover. policy = DispatchDense pb cover \<longrightarrow> cover < two64"
  shows "locate es (dispatch_build es policy) addr = flat_find es addr"
proof (cases "dispatch_build es policy")
  case None
  then show ?thesis by (simp add: locate_def)
next
  case (Some d)
  then obtain pb cv where d: "d = \<lparr>dp_page_bits = pb, dp_cover = cv, dp_table = map (page_word es pb) [0..<div_ceil cv (2 ^ pb)]\<rparr>"
    and src: "policy = DispatchDense pb cv \<or> policy = DispatchAuto \<and> cv = flat_extent es"
    by (auto simp: dispatch_build_def Let_def split: dispatch_policy.splits if_splits)
  have cv: "cv < two64"
    using src cover by (auto simp: flat_extent_def entry_end_def)
  show ?thesis
  proof (cases "cv \<le> addr")
    case True
    then show ?thesis by (simp add: Some locate_def dispatch_lookup_def d)
  next
    case False
    define page where "page = addr div 2 ^ pb"
    have page: "page * 2 ^ pb \<le> addr" "addr < page * 2 ^ pb + 2 ^ pb"
    proof -
      define q where "q = (2 :: nat) ^ pb"
      have "0 < q" by (simp add: q_def)
      then have "addr mod q < q" "addr div q * q + addr mod q = addr" by simp_all
      then show "page * 2 ^ pb \<le> addr" "addr < page * 2 ^ pb + 2 ^ pb"
        unfolding page_def q_def [symmetric] by linarith+
    qed
    have "page < div_ceil cv (2 ^ pb)"
    proof -
      have "page \<le> cv div 2 ^ pb" using False by (simp add: page_def div_le_mono)
      moreover have "page < cv div 2 ^ pb" if "cv mod 2 ^ pb = 0"
        using that False by (metis less_mult_imp_div_less div_mult_mod_eq add.right_neutral not_le page_def)
      ultimately show ?thesis by (auto simp: div_ceil_def)
    qed
    then have "dispatch_lookup d addr = Some (unpack_word (page_word es pb page))"
      using False by (simp add: dispatch_lookup_def d page_def [symmetric])
    then show ?thesis
      using page_word_sound [OF ok page] False cv
      by (auto simp: Some locate_def split: dispatch_entry.splits)
  qed
qed

text \<open>
  The dense page table never changes an answer: whatever policy the space
  has, locating an address through the table finds the entry the binary search
  over the flattened view finds, and none where it finds none.
\<close>

theorem locate_exact:
  assumes "flat_build ids c children limit combine = Inr (es, idx)"
    and "list_all mapping_wf children" "list_all (mapping_offsets_ok c) children" "limit < two64"
    and "\<forall>pb cover. policy = DispatchDense pb cover \<longrightarrow> cover < two64"
  shows "locate es (dispatch_build es policy) addr = flat_find es addr"
  using flatten_sorted [OF assms(1-4)] assms(4,5)
  by (intro locate_table [of limit]) (auto simp: entries_ok_def)

end
