(* ===== verification/Space_Topology.thy ===== *)
theory Space_Topology
  imports Space_Rebase Space_Dispatch
begin

text \<open>
  \<open>core/space.rs\<close>: one address space, the retopology a write guard performs
  and the rebase a read guard performs. The lock is the grouping of steps: a
  guard session is a list of operations ended by the flatten its drop performs,
  and nothing observes the space in between. Accesses are in \<open>Space_Access\<close>.
\<close>

section \<open>State\<close>

type_synonym mapping_id = nat

datatype unassigned_action = UFault | UReadAsOnes | UReadAsZeros | UOpenBus

record unassigned_policy =
  up_action :: unassigned_action
  up_log :: bool

record topology =
  t_root :: "(mapping_id \<times> mapping) list"
  t_next_id :: nat
  t_flat :: "flat_entry list"
  t_dispatch :: "dispatch option"
  t_index :: rebase_index
  t_dirty :: bool

record address_space =
  sp_name :: string
  sp_bits :: nat
  sp_endian :: endian
  sp_unassigned :: unassigned_policy
  sp_combine :: combine_policy
  sp_dispatch_policy :: dispatch_policy
  sp_topo :: topology
  sp_generation :: nat

definition topology_new :: topology where
  "topology_new = \<lparr>t_root = [], t_next_id = 1, t_flat = [], t_dispatch = None, t_index = [],
     t_dirty = False\<rparr>"

text \<open>\<open>AddressSpace::new\<close>; the assertion on the width is the value \<^const>\<open>None\<close>.\<close>

definition space_new :: "string \<Rightarrow> nat \<Rightarrow> address_space option" where
  "space_new name bits =
     (if 0 < bits \<and> bits \<le> 64
      then Some \<lparr>sp_name = name, sp_bits = bits, sp_endian = Little,
                 sp_unassigned = \<lparr>up_action = UFault, up_log = False\<rparr>, sp_combine = Priority,
                 sp_dispatch_policy = DispatchFlat, sp_topo = topology_new, sp_generation = 1\<rparr>
      else None)"

definition space_size :: "address_space \<Rightarrow> nat" where
  "space_size s = (if 64 \<le> sp_bits s then two64 - 1 else 2 ^ sp_bits s)"

section \<open>Checks\<close>

definition check_fits :: "address_space \<Rightarrow> mapping \<Rightarrow> space_error + unit" where
  "check_fits s m =
     (case checked_u64 (m_base m + r_len (m_region m)) of
        Some e \<Rightarrow> if e \<le> space_size s then Inr ()
                  else Inl (Config (AtName (sp_name s)) MsgDoesNotFitSpace)
      | None \<Rightarrow> Inl (Config (AtName (sp_name s)) MsgDoesNotFitSpace))"

definition check_mapping :: "address_space \<Rightarrow> mapping \<Rightarrow> space_error + unit" where
  "check_mapping s m =
     rbind (check_fits s m) (\<lambda>_.
       if MAX_DEPTH < r_depth (m_region m) then Inl (Config (AtName (sp_name s)) MsgTooDeepToMap)
       else Inr ())"

section \<open>The write guard\<close>

definition root_position :: "topology \<Rightarrow> mapping_id \<Rightarrow> nat option" where
  "root_position t i = find (\<lambda>k. fst (t_root t ! k) = i) [0..<length (t_root t)]"

definition no_such_mapping :: "address_space \<Rightarrow> space_error" where
  "no_such_mapping s = Config (AtName (sp_name s)) MsgNoSuchMapping"

definition set_root :: "address_space \<Rightarrow> (mapping_id \<times> mapping) list \<Rightarrow> address_space" where
  "set_root s root = s\<lparr>sp_topo := (sp_topo s)\<lparr>t_root := root, t_dirty := True\<rparr>\<rparr>"

definition map_with :: "address_space \<Rightarrow> mapping \<Rightarrow> space_error + (mapping_id \<times> address_space)" where
  "map_with s m =
     rbind (check_mapping s m) (\<lambda>_.
       let t = sp_topo s; i = t_next_id t in
       Inr (i, s\<lparr>sp_topo := t\<lparr>t_next_id := t_next_id t + 1, t_root := t_root t @ [(i, m)],
                               t_dirty := True\<rparr>\<rparr>))"

definition space_map :: "address_space \<Rightarrow> region \<Rightarrow> nat \<Rightarrow> space_error + (mapping_id \<times> address_space)" where
  "space_map s r base = map_with s (mapping_new r base)"

definition map_with_perms ::
  "address_space \<Rightarrow> region \<Rightarrow> nat \<Rightarrow> perms \<Rightarrow> space_error + (mapping_id \<times> address_space)" where
  "map_with_perms s r base p = map_with s (mapping_with_perms (mapping_new r base) p)"

definition map_with_priority ::
  "address_space \<Rightarrow> region \<Rightarrow> nat \<Rightarrow> int \<Rightarrow> space_error + (mapping_id \<times> address_space)" where
  "map_with_priority s r base p = map_with s (mapping_with_priority (mapping_new r base) p)"

definition unmap :: "address_space \<Rightarrow> mapping_id \<Rightarrow> space_error + address_space" where
  "unmap s i =
     (case root_position (sp_topo s) i of
        None \<Rightarrow> Inl (no_such_mapping s)
      | Some k \<Rightarrow> let root = t_root (sp_topo s) in Inr (set_root s (take k root @ drop (Suc k) root)))"

definition remap :: "address_space \<Rightarrow> mapping_id \<Rightarrow> nat \<Rightarrow> space_error + address_space" where
  "remap s i base =
     (case root_position (sp_topo s) i of
        None \<Rightarrow> Inl (no_such_mapping s)
      | Some k \<Rightarrow>
          let root = t_root (sp_topo s);
              m = snd (root ! k);
              m' = Mapping (m_region m) base (m_priority m) (m_perms m)
          in rbind (check_mapping s m') (\<lambda>_. Inr (set_root s (root[k := (fst (root ! k), m')]))))"

definition reprotect :: "address_space \<Rightarrow> mapping_id \<Rightarrow> perms \<Rightarrow> space_error + address_space" where
  "reprotect s i p =
     (case root_position (sp_topo s) i of
        None \<Rightarrow> Inl (no_such_mapping s)
      | Some k \<Rightarrow>
          let root = t_root (sp_topo s)
          in Inr (set_root s (root[k := (fst (root ! k), mapping_with_perms (snd (root ! k)) p)])))"

definition replace_mapping :: "address_space \<Rightarrow> mapping_id \<Rightarrow> mapping \<Rightarrow> space_error + address_space" where
  "replace_mapping s i m =
     (case root_position (sp_topo s) i of
        None \<Rightarrow> Inl (no_such_mapping s)
      | Some k \<Rightarrow>
          rbind (check_mapping s m) (\<lambda>_.
            let root = t_root (sp_topo s) in Inr (set_root s (root[k := (fst (root ! k), m)]))))"

definition perms_of :: "address_space \<Rightarrow> mapping_id \<Rightarrow> perms option" where
  "perms_of s i = map_option (\<lambda>(_, m). m_perms m) (find (\<lambda>(j, _). j = i) (t_root (sp_topo s)))"

text \<open>\<open>sync\<close>: the deferred flatten; a failure would leave the space answering nothing.\<close>

definition sync :: "io_ids \<Rightarrow> alias_cells \<Rightarrow> address_space \<Rightarrow> address_space" where
  "sync ids c s =
     (let t = sp_topo s in
      if \<not> t_dirty t then s
      else
        let (flat, idx) =
          (case flat_build ids c (map snd (t_root t)) (space_size s) (sp_combine s) of
             Inr built \<Rightarrow> built
           | Inl _ \<Rightarrow> ([], []))
        in s\<lparr>sp_topo := t\<lparr>t_dirty := False, t_dispatch := dispatch_build flat (sp_dispatch_policy s),
                          t_flat := flat, t_index := idx\<rparr>,
             sp_generation := wrapping_add64 (sp_generation s) 1\<rparr>)"

definition rebuild :: "io_ids \<Rightarrow> alias_cells \<Rightarrow> address_space \<Rightarrow> address_space" where
  "rebuild ids c s = sync ids c (s\<lparr>sp_topo := (sp_topo s)\<lparr>t_dirty := True\<rparr>\<rparr>)"

section \<open>A guard session\<close>

datatype guard_op =
    GMap mapping
  | GUnmap mapping_id
  | GRemap mapping_id nat
  | GReprotect mapping_id perms
  | GReplace mapping_id mapping
  | GSync
  | GRebuild

definition kept :: "address_space \<Rightarrow> space_error + address_space \<Rightarrow> address_space" where
  "kept s r = (case r of Inl _ \<Rightarrow> s | Inr s' \<Rightarrow> s')"

fun guard_step :: "io_ids \<Rightarrow> alias_cells \<Rightarrow> guard_op \<Rightarrow> address_space \<Rightarrow> address_space" where
  "guard_step ids c (GMap m) s = (case map_with s m of Inl _ \<Rightarrow> s | Inr (_, s') \<Rightarrow> s')"
| "guard_step ids c (GUnmap i) s = kept s (unmap s i)"
| "guard_step ids c (GRemap i base) s = kept s (remap s i base)"
| "guard_step ids c (GReprotect i p) s = kept s (reprotect s i p)"
| "guard_step ids c (GReplace i m) s = kept s (replace_mapping s i m)"
| "guard_step ids c GSync s = sync ids c s"
| "guard_step ids c GRebuild s = rebuild ids c s"

definition guard_session :: "io_ids \<Rightarrow> alias_cells \<Rightarrow> guard_op list \<Rightarrow> address_space \<Rightarrow> address_space" where
  "guard_session ids c ops s = sync ids c (fold (guard_step ids c) ops s)"

section \<open>The read guard's change\<close>

definition view_rebase ::
  "alias_cells \<Rightarrow> address_space \<Rightarrow> region \<Rightarrow> nat \<Rightarrow> space_error + (alias_cells \<times> address_space)" where
  "view_rebase c s r offset =
     rbind (space_rebase c (t_flat (sp_topo s)) (t_index (sp_topo s)) r offset) (\<lambda>(c', flat).
       Inr (c', s\<lparr>sp_topo := (sp_topo s)\<lparr>t_flat := flat\<rparr>\<rparr>))"

end
