(* ===== verification/Space_Machine.thy ===== *)
theory Space_Machine
  imports Space_Topology
begin

text \<open>
  The life of one address space as a state machine: built, changed under write
  guards, slid under read guards, while new aliases are allocated elsewhere. In
  every state reached the view is current, so every address is decoded as the
  region tree says (\<open>address_decoding_exact\<close>), and the generation counter moves
  with every change of topology (\<open>generation_tracks_topology\<close>).
\<close>

section \<open>Aliases a view depends on\<close>

definition alias_ids :: "region list \<Rightarrow> alias_id set" where
  "alias_ids rs = {i. \<exists>r\<in>set rs. map_option al_id (as_alias r) = Some i}"

definition terms_in :: "alias_id set \<Rightarrow> leaf_spec list \<Rightarrow> bool" where
  "terms_in X ls \<longleftrightarrow> (\<forall>l\<in>set ls. set (ls_terms l) \<subseteq> X)"

lemma alias_ids_simps [simp]:
  "alias_ids (xs @ ys) = alias_ids xs \<union> alias_ids ys"
  "alias_ids (Region n l c (KAlias (Alias t i rb rp)) d # rs) = insert i (alias_ids rs)"
  "alias_ids [] = {}"
  by (auto simp: alias_ids_def as_alias_def)

lemma terms_in_cut [simp]: "terms_in X (cut_leaves n ls) \<longleftrightarrow> terms_in X ls"
  by (auto simp: terms_in_def cut_leaves_def)

lemma decide_terms:
  assumes "active \<noteq> []" "\<forall>i\<in>set active. terms_in X (cd_leaves (cands ! i))"
  shows "terms_in X (fst (decide_interval cands policy active a))"
proof -
  have cut: "terms_in X (cut_cand cands a i)" if "i \<in> set active" for i
    using assms(2) that by (simp add: cut_cand_def)
  have win: "terms_in X (cut_cand cands a i)" if "winner cands active want = Some i" for want i
    using find_mem that cut unfolding winner_def by metis
  have "terms_in X (concat (map (cut_cand cands a) active))"
    using cut by (auto simp: terms_in_def)
  moreover have "terms_in X (xs @ ys)" if "terms_in X xs" "terms_in X ys" for xs ys
    using that by (auto simp: terms_in_def)
  ultimately show ?thesis
    using win cut [of "hd active"] assms(1)
    by (auto simp: decide_interval_def Let_def split: option.splits)
qed

lemma set_admit: "admit cands a arr active = (arr', active') \<Longrightarrow>
    set arr' \<subseteq> set arr \<and> set active' \<subseteq> set arr \<union> set active"
proof (induction cands a arr active rule: admit.induct)
  case (2 cands a i arr active)
  have "set (insert_ranked cands i active) = insert i (set active)"
    by (rule set_insert_ranked)
  then show ?case using 2 by (auto split: if_splits)
qed simp

lemma push_terms:
  "\<forall>q\<in>set ps. terms_in X (p_leaves q) \<Longrightarrow> terms_in X (p_leaves p) \<Longrightarrow>
     \<forall>q\<in>set (push_piece ps p). terms_in X (p_leaves q)"
  by (auto simp: push_piece_def dest: in_set_butlastD)

lemma sweep_terms:
  assumes "\<forall>i\<in>set arr \<union> set active. terms_in X (cd_leaves (cands ! i))" "\<forall>q\<in>set ps. terms_in X (p_leaves q)"
  shows "\<forall>q\<in>set (sweep_intervals cands policy bounds arr active ps). terms_in X (p_leaves q)"
  using assms
proof (induction cands policy bounds arr active ps rule: sweep_intervals.induct)
  case (1 cands policy a b bs arr active ps)
  obtain arr' adm where ad: "admit cands a arr active = (arr', adm)" by fastforce
  define act where "act = filter (\<lambda>i. b \<le> cand_end (cands ! i)) adm"
  have sub: "set arr' \<union> set act \<subseteq> set arr \<union> set active"
    using set_admit [OF ad] by (auto simp: act_def)
  then have terms: "\<forall>i\<in>set arr' \<union> set act. terms_in X (cd_leaves (cands ! i))" using 1(3) by blast
  show ?case
  proof (cases "act = []")
    case True
    then show ?thesis
      using 1(1) [OF ad [symmetric] refl act_def True] 1(4) terms by (simp add: ad act_def [symmetric] Let_def)
  next
    case False
    obtain ls pol dir where dec: "decide_interval cands policy act a = (ls, pol, dir)" by (metis prod_cases3)
    define p where "p = \<lparr>p_start = a, p_len = b - a, p_leaves = ls, p_combine = pol, p_directed = dir\<rparr>"
    have "terms_in X (p_leaves p)"
      using decide_terms [OF False, of X cands policy a] terms dec by (simp add: p_def)
    then have "\<forall>q\<in>set (push_piece ps p). terms_in X (p_leaves q)" by (intro push_terms [OF 1(4)])
    from 1(2) [OF ad [symmetric] refl act_def False dec [symmetric] refl refl p_def terms this]
    show ?thesis using False by (simp add: ad act_def [symmetric] dec p_def [symmetric] Let_def)
  qed
qed simp_all

lemma overlaps_terms:
  assumes "\<forall>cd\<in>set cands. terms_in X (cd_leaves cd)"
  shows "\<forall>q\<in>set (resolve_overlaps cands policy). terms_in X (p_leaves q)"
proof -
  have "\<forall>i\<in>set (arrivals cands) \<union> set []. terms_in X (cd_leaves (cands ! i))"
    using assms by (auto simp: arrivals_def)
  then show ?thesis
    using sweep_terms [of "arrivals cands" "[]" X cands "[]" policy "sweep_bounds cands"]
    by (simp add: resolve_overlaps_def)
qed


lemma resolve_terms:
  "resolve_region c r off wanted d = Inr ps \<Longrightarrow> \<forall>q\<in>set ps. terms_in (alias_ids (alias_regions r)) (p_leaves q)"
  "resolve_children c ms limit off' len policy d' = Inr ps' \<Longrightarrow>
     \<forall>q\<in>set ps'. terms_in (alias_ids (mappings_aliases ms)) (p_leaves q)"
  "collect_cands c seq ms limit off'' want_end d'' = Inr cands \<Longrightarrow>
     \<forall>cd\<in>set cands. terms_in (alias_ids (mappings_aliases ms)) (cd_leaves cd)"
proof (induction c r off wanted d and c ms limit off' len policy d' and c seq ms limit off'' want_end d''
       arbitrary: ps and ps' and cands rule: resolve_region_resolve_children_collect_cands.induct)
  case (1 c name rlen cons k dep off wanted d)
  define n where "n = min wanted (rlen - off)"
  have depth: "\<not> MAX_DEPTH < ds_depth d" using 1(3) by auto
  show ?case
  proof (cases "n = 0")
    case True
    then show ?thesis using 1(3) depth by (simp add: n_def Let_def)
  next
    case False
    show ?thesis
    proof (cases k)
      case (KContainer ms policy)
      then have "resolve_children c ms rlen off n policy d = Inr ps"
        using 1(3) depth False by (simp add: n_def [symmetric] Let_def del: resolve_children.simps)
      then show ?thesis using 1(2) [OF depth n_def False KContainer] KContainer by simp
    next
      case (KAlias a)
      obtain t i rb rp where a: "a = Alias t i rb rp" by (cases a)
      show ?thesis
      proof (cases rp)
        case True
        then show ?thesis
          using 1(3) depth False KAlias a
          by (auto simp: n_def [symmetric] Let_def leaf_piece_def terms_in_def split: option.splits)
      next
        case rp: False
        obtain sub where sub: "resolve_region c t (wrapping_add64 (ac_offset c i) off) n (into_child d PERM_RWX) = Inr sub"
          and ps: "ps = (let sub1 = (if cons \<noteq> r_constraints t then map_leaves (\<lambda>l. l\<lparr>ls_constraints := cons\<rparr>) sub else sub)
                         in if rb then map_leaves (add_term (ac_offset c i) i) sub1 else sub1)"
          using 1(3) depth False KAlias a rp by (auto simp: n_def [symmetric] Let_def rbind_eq_Inr)
        have "\<forall>q\<in>set sub. terms_in (alias_ids (alias_regions t)) (p_leaves q)"
          by (rule 1(1) [OF depth n_def False KAlias a rp refl sub])
        then show ?thesis
          unfolding ps using KAlias a by (auto simp: terms_in_def map_leaves_def add_term_def Let_def)
      qed
    qed (use 1(3) depth False in \<open>auto simp: n_def [symmetric] Let_def leaf_piece_def terms_in_def\<close>)
  qed
next
  case (2 c ms limit off len policy d)
  then show ?case by (auto simp: rbind_eq_Inr dest!: overlaps_terms [rotated])
next
  case (3 c seq limit off want_end d)
  then show ?case by simp
next
  case (4 c seq r base priority perms ms limit off want_end d)
  define a where "a = max base off"
  define b where "b = min (min (mapping_end (Mapping r base priority perms)) limit) want_end"
  show ?case
  proof (cases "b \<le> a")
    case True
    then show ?thesis
      using 4(1) [OF refl a_def b_def True] 4(4) by (fastforce simp: a_def b_def Let_def terms_in_def)
  next
    case False
    obtain sub rest where sub: "resolve_region c r (a - base) (b - a) (into_child d perms) = Inr sub"
      and rest: "collect_cands c (Suc seq) ms limit off want_end d = Inr rest"
      and cands: "cands = map (cand_of (a - off) priority seq) sub @ rest"
      using 4(4) False by (auto simp: a_def [symmetric] b_def [symmetric] Let_def rbind_eq_Inr)
    show ?thesis
      using 4(2) [OF refl a_def b_def False sub] 4(3) [OF refl a_def b_def False sub rest]
      by (fastforce simp: cands cand_of_def terms_in_def)
  qed
qed

text \<open>A walk reads only the cells of the aliases in the tree.\<close>

lemma resolve_cells:
  "(\<forall>i\<in>alias_ids (alias_regions r). ac_offset c' i = ac_offset c i) \<Longrightarrow>
     resolve_region c' r off wanted d = resolve_region c r off wanted d"
  "(\<forall>i\<in>alias_ids (mappings_aliases ms). ac_offset c' i = ac_offset c i) \<Longrightarrow>
     resolve_children c' ms limit off' len policy d' = resolve_children c ms limit off' len policy d'"
  "(\<forall>i\<in>alias_ids (mappings_aliases ms). ac_offset c' i = ac_offset c i) \<Longrightarrow>
     collect_cands c' seq ms limit off'' want_end d'' = collect_cands c seq ms limit off'' want_end d''"
proof (induction c r off wanted d and c ms limit off' len policy d' and c seq ms limit off'' want_end d''
       rule: resolve_region_resolve_children_collect_cands.induct)
  case (1 c name rlen cons k dep off wanted d)
  define n where "n = min wanted (rlen - off)"
  show ?case
  proof (cases "MAX_DEPTH < ds_depth d \<or> n = 0")
    case True
    then show ?thesis by (auto simp: n_def Let_def)
  next
    case False
    then have depth: "\<not> MAX_DEPTH < ds_depth d" and n: "n \<noteq> 0" by auto
    show ?thesis
    proof (cases k)
      case (KContainer ms policy)
      then show ?thesis
        using 1(2) [OF depth n_def n KContainer] 1(3) depth n
        by (simp add: n_def [symmetric] Let_def del: resolve_children.simps)
    next
      case (KAlias a)
      obtain t i rb rp where a: "a = Alias t i rb rp" by (cases a)
      show ?thesis
      proof (cases rp)
        case True
        then show ?thesis using depth n KAlias a by (simp add: n_def [symmetric] Let_def)
      next
        case rp: False
        have "ac_offset c' i = ac_offset c i" using 1(3) KAlias a by simp
        then show ?thesis
          using 1(1) [OF depth n_def n KAlias a rp refl] 1(3) depth n KAlias a rp
          by (simp add: n_def [symmetric] Let_def)
      qed
    qed (use depth n in \<open>simp_all add: n_def [symmetric] Let_def\<close>)
  qed
next
  case (2 c ms limit off len policy d)
  then show ?case by simp
next
  case (3 c seq limit off want_end d)
  then show ?case by simp
next
  case (4 c seq r base priority perms ms limit off want_end d)
  define a where "a = max base off"
  define b where "b = min (min (mapping_end (Mapping r base priority perms)) limit) want_end"
  show ?case
  proof (cases "b \<le> a")
    case True
    then show ?thesis using 4(1) [OF refl a_def b_def True] 4(4) by (simp add: a_def b_def Let_def)
  next
    case False
    have sub: "resolve_region c' r (a - base) (b - a) (into_child d perms) = resolve_region c r (a - base) (b - a) (into_child d perms)"
      using 4(2) [OF refl a_def b_def False] 4(4) by simp
    show ?thesis
      using 4(3) [OF refl a_def b_def False] 4(4) False sub
      by (cases "resolve_region c r (a - base) (b - a) (into_child d perms)")
         (simp_all add: a_def [symmetric] b_def [symmetric] Let_def)
  qed
qed

lemma flat_build_cells:
  assumes agree: "\<forall>i\<in>alias_ids (mappings_aliases children). ac_offset c' i = ac_offset c i"
  shows "flat_build ids c' children limit policy = flat_build ids c children limit policy"
proof -
  let ?d = "\<lparr>ds_depth = 0, ds_perms = PERM_RWX\<rparr>"
  have run: "resolve_children c' children limit 0 limit policy ?d = resolve_children c children limit 0 limit policy ?d"
    by (rule resolve_cells(2) [OF agree])
  have "from_piece ids c' p = from_piece ids c p"
    if "resolve_children c children limit 0 limit policy ?d = Inr ps" "p \<in> set ps" for ps p
  proof -
    have "\<forall>l\<in>set (p_leaves p). set (ls_terms l) \<subseteq> alias_ids (mappings_aliases children)"
      using resolve_terms(2) [OF that(1)] that(2) by (simp add: terms_in_def)
    then have "sum_terms c' (ls_fixed l) (ls_terms l) = sum_terms c (ls_fixed l) (ls_terms l)"
      if "l \<in> set (p_leaves p)" for l
      unfolding sum_terms_def using agree that by (intro foldl_cong refl arg_cong2 [where f = wrapping_add64]) blast
    then have "\<forall>l\<in>set (p_leaves p). into_leaf ids c' l = into_leaf ids c l"
      by (simp add: into_leaf_def spec_offset_def)
    then show ?thesis
      by (cases p rule: piece_leaves_cases; cases "p_directed p") (simp_all add: from_piece_def)
  qed
  then have eq: "map (from_piece ids c') ps = map (from_piece ids c) ps"
    if "resolve_children c children limit 0 limit policy ?d = Inr ps" for ps
    using that by simp
  show ?thesis
  proof (cases "resolve_children c children limit 0 limit policy ?d")
    case (Inr ps)
    show ?thesis by (simp only: flat_build_def run Inr rbind_def sum.case eq [OF Inr])
  qed (simp only: flat_build_def run, simp)
qed

section \<open>Reachable spaces\<close>

definition mapping_ready :: "alias_cells \<Rightarrow> mapping \<Rightarrow> bool" where
  "mapping_ready c m \<longleftrightarrow> mapping_wf m \<and> mapping_fits c m \<and> mapping_offsets_ok c m"

fun op_ready :: "alias_cells \<Rightarrow> guard_op \<Rightarrow> bool" where
  "op_ready c (GMap m) \<longleftrightarrow> mapping_ready c m"
| "op_ready c (GReplace _ m) \<longleftrightarrow> mapping_ready c m"
| "op_ready c _ \<longleftrightarrow> True"

definition policy_ok :: "dispatch_policy \<Rightarrow> bool" where
  "policy_ok policy \<longleftrightarrow> (case policy of DispatchDense _ cover \<Rightarrow> cover < two64 | _ \<Rightarrow> True)"

definition view_small :: "flat_entry list \<Rightarrow> bool" where
  "view_small es \<longleftrightarrow> length es < 2 ^ 32 \<and> (\<forall>e\<in>set es. length (entry_leaves e) \<le> WRITE_SIDE)"

definition mapped :: "address_space \<Rightarrow> mapping list" where
  "mapped s = map snd (t_root (sp_topo s))"

text \<open>
  A space is built with any policies; a write guard runs any operations on
  regions their constructors made and closes; a read guard slides a window;
  and an alias may be allocated at any time. The numbers a flatten gives
  devices for tracing may differ from one flatten to the next.
\<close>

inductive space_reach :: "alias_cells \<Rightarrow> address_space \<Rightarrow> bool" where
  built: "space_new name bits = Some s \<Longrightarrow> policy_ok policy \<Longrightarrow>
    space_reach c (s\<lparr>sp_endian := e, sp_unassigned := u, sp_combine := k, sp_dispatch_policy := policy\<rparr>)"
| session: "space_reach c s \<Longrightarrow> list_all (op_ready c) ops \<Longrightarrow> space_reach c (guard_session ids c ops s)"
| slide: "space_reach c s \<Longrightarrow> one_region_per_id r (mappings_aliases (mapped s)) \<Longrightarrow>
    view_small (t_flat (sp_topo s)) \<Longrightarrow> view_rebase c s r offset = Inr (c', s') \<Longrightarrow> space_reach c' s'"
| alloc: "space_reach c s \<Longrightarrow> ac_next c \<notin> alias_ids (mappings_aliases (mapped s)) \<Longrightarrow>
    space_reach (fst (alloc_alias c offset)) s"

definition root_ok :: "alias_cells \<Rightarrow> address_space \<Rightarrow> bool" where
  "root_ok c s \<longleftrightarrow>
     list_all (\<lambda>m. mapping_ready c m \<and> r_depth (m_region m) \<le> MAX_DEPTH) (mapped s) \<and>
     distinct (map fst (t_root (sp_topo s))) \<and> (\<forall>(i, _)\<in>set (t_root (sp_topo s)). i < t_next_id (sp_topo s)) \<and>
     0 < sp_bits s \<and> sp_bits s \<le> 64 \<and> sp_generation s < two64 \<and> policy_ok (sp_dispatch_policy s)"

definition view_current :: "alias_cells \<Rightarrow> address_space \<Rightarrow> bool" where
  "view_current c s \<longleftrightarrow>
     (\<exists>ids. flat_build ids c (mapped s) (space_size s) (sp_combine s)
              = Inr (t_flat (sp_topo s), t_index (sp_topo s))) \<and>
     (\<forall>d. t_dispatch (sp_topo s) = Some d \<longrightarrow> dispatch_build (t_flat (sp_topo s)) (sp_dispatch_policy s) = Some d)"

definition guarded :: "alias_cells \<Rightarrow> address_space \<Rightarrow> bool" where
  "guarded c s \<longleftrightarrow> root_ok c s \<and> (\<not> t_dirty (sp_topo s) \<longrightarrow> view_current c s)"

subsection \<open>The write guard\<close>

lemma space_size_less: "sp_bits s \<le> 64 \<Longrightarrow> space_size s < two64"
proof (cases "64 \<le> sp_bits s")
  case False
  then have "(2::nat) ^ sp_bits s < 2 ^ 64" by (intro power_strict_increasing) auto
  then show ?thesis using False by (simp add: space_size_def)
qed (simp add: space_size_def)

lemma check_mapping_Inr: "check_mapping s m = Inr x \<Longrightarrow> r_depth (m_region m) \<le> MAX_DEPTH \<and> m_base m < two64"
  by (auto simp: check_mapping_def check_fits_def rbind_eq_Inr checked_u64_def split: option.splits if_splits)

lemma root_position_Some:
  "root_position t i = Some k \<Longrightarrow> k < length (t_root t) \<and> fst (t_root t ! k) = i"
  by (auto simp: root_position_def find_Some_iff)

lemma root_ok_mapping:
  "root_ok c s \<Longrightarrow> k < length (t_root (sp_topo s)) \<Longrightarrow>
     mapping_ready c (snd (t_root (sp_topo s) ! k)) \<and> r_depth (m_region (snd (t_root (sp_topo s) ! k))) \<le> MAX_DEPTH"
  by (simp add: root_ok_def mapped_def list_all_length)

lemma guarded_set_root:
  assumes "root_ok c s"
    and "list_all (\<lambda>m. mapping_ready c m \<and> r_depth (m_region m) \<le> MAX_DEPTH) (map snd root)"
    and "distinct (map fst root)" "fst ` set root \<subseteq> fst ` set (t_root (sp_topo s))"
  shows "guarded c (set_root s root)"
  using assms by (fastforce simp: guarded_def root_ok_def set_root_def mapped_def)

lemma guarded_update:
  assumes "root_ok c s" "k < length (t_root (sp_topo s))" "mapping_ready c m" "r_depth (m_region m) \<le> MAX_DEPTH"
  shows "guarded c (set_root s ((t_root (sp_topo s))[k := (fst (t_root (sp_topo s) ! k), m)]))"
proof (rule guarded_set_root [OF assms(1)])
  let ?root = "t_root (sp_topo s)"
  have ids: "map fst (?root[k := (fst (?root ! k), m)]) = map fst ?root"
    using assms(2) by (metis fst_conv list_update_id map_update nth_map)
  then show "distinct (map fst (?root[k := (fst (?root ! k), m)]))"
    using assms(1) by (simp add: root_ok_def)
  show "fst ` set (?root[k := (fst (?root ! k), m)]) \<subseteq> fst ` set ?root"
    by (metis ids image_set order_refl)
  show "list_all (\<lambda>m. mapping_ready c m \<and> r_depth (m_region m) \<le> MAX_DEPTH) (map snd (?root[k := (fst (?root ! k), m)]))"
    using assms by (auto simp: root_ok_def mapped_def map_update list_all_iff dest!: set_update_subset_insert [THEN subsetD])
qed

lemma guarded_kept: "guarded c s \<Longrightarrow> (\<And>s'. r = Inr s' \<Longrightarrow> guarded c s') \<Longrightarrow> guarded c (kept s r)"
  by (cases r) (auto simp: kept_def)

lemma sync_guarded:
  assumes "guarded c s"
  shows "guarded c (sync ids c s)" "\<not> t_dirty (sp_topo (sync ids c s))"
proof -
  have ok: "root_ok c s" using assms by (simp add: guarded_def)
  then obtain es idx where "flat_build ids c (mapped s) (space_size s) (sp_combine s) = Inr (es, idx)"
    using flatten_total [of "mapped s" ids c] by (fastforce simp: root_ok_def mapping_ready_def list_all_iff)
  then have run: "t_dirty (sp_topo s) \<Longrightarrow> sync ids c s = s\<lparr>sp_topo := (sp_topo s)\<lparr>t_dirty := False,
      t_dispatch := dispatch_build es (sp_dispatch_policy s), t_flat := es, t_index := idx\<rparr>,
      sp_generation := wrapping_add64 (sp_generation s) 1\<rparr>"
    and b: "flat_build ids c (mapped s) (space_size s) (sp_combine s) = Inr (es, idx)"
    by (simp_all add: sync_def mapped_def Let_def)
  show "\<not> t_dirty (sp_topo (sync ids c s))"
    using run by (cases "t_dirty (sp_topo s)") (simp_all add: sync_def)
  show "guarded c (sync ids c s)"
  proof (cases "t_dirty (sp_topo s)")
    case True
    show ?thesis
      unfolding run [OF True]
      using ok b by (auto simp: guarded_def root_ok_def view_current_def mapped_def space_size_def)
  next
    case False
    then show ?thesis using assms by (simp add: sync_def)
  qed
qed

lemma guard_step_guarded:
  assumes "guarded c s" "op_ready c op"
  shows "guarded c (guard_step ids c op s)"
proof -
  have ok: "root_ok c s" using assms(1) by (simp add: guarded_def)
  show ?thesis
  proof (cases op)
    case (GMap m)
    show ?thesis
    proof (cases "check_mapping s m")
      case (Inr u)
      then have "r_depth (m_region m) \<le> MAX_DEPTH" using check_mapping_Inr by blast
      moreover have "t_next_id (sp_topo s) \<notin> fst ` set (t_root (sp_topo s))" using ok by (fastforce simp: root_ok_def)
      moreover have "mapping_ready c m" using assms(2) GMap by simp
      ultimately show ?thesis
        using GMap Inr ok by (fastforce simp: map_with_def guarded_def root_ok_def mapped_def Let_def)
    qed (use assms(1) GMap in \<open>simp add: map_with_def\<close>)
  next
    case (GUnmap i)
    have "guarded c s'" if "unmap s i = Inr s'" for s'
    proof -
      obtain k where k: "s' = set_root s (take k (t_root (sp_topo s)) @ drop (Suc k) (t_root (sp_topo s)))"
        using \<open>unmap s i = Inr s'\<close> by (auto simp: unmap_def Let_def split: option.splits)
      let ?root = "t_root (sp_topo s)"
      have sub: "set (take k ?root @ drop (Suc k) ?root) \<subseteq> set ?root"
        by (auto dest: in_set_takeD in_set_dropD)
      have "distinct (map fst ?root)" using ok by (simp add: root_ok_def)
      then have "distinct (map fst (take k ?root @ drop (Suc k) ?root))"
        using set_take_disj_set_drop_if_distinct [of "map fst ?root" k "Suc k"]
        by (simp add: take_map [symmetric] drop_map [symmetric])
      moreover have "list_all (\<lambda>m. mapping_ready c m \<and> r_depth (m_region m) \<le> MAX_DEPTH)
          (map snd (take k ?root @ drop (Suc k) ?root))"
        using ok sub unfolding root_ok_def mapped_def list_all_iff set_map by blast
      ultimately show ?thesis
        unfolding k using sub by (intro guarded_set_root [OF ok] image_mono)
    qed
    then show ?thesis using GUnmap assms(1) by (simp add: guarded_kept)
  next
    case (GRemap i base)
    have "guarded c s'" if run: "remap s i base = Inr s'" for s'
    proof -
      obtain k m' where k: "root_position (sp_topo s) i = Some k"
        and m': "m' = Mapping (m_region (snd (t_root (sp_topo s) ! k))) base
                   (m_priority (snd (t_root (sp_topo s) ! k))) (m_perms (snd (t_root (sp_topo s) ! k)))"
        and chk: "check_mapping s m' = Inr ()"
        and s': "s' = set_root s ((t_root (sp_topo s))[k := (fst (t_root (sp_topo s) ! k), m')])"
        using run by (auto simp: remap_def Let_def rbind_eq_Inr split: option.splits)
      have "k < length (t_root (sp_topo s))" using root_position_Some [OF k] by simp
      then show ?thesis
        unfolding s' using root_ok_mapping [OF ok, of k] check_mapping_Inr [OF chk]
        by (intro guarded_update [OF ok]) (cases "snd (t_root (sp_topo s) ! k)"; simp add: m' mapping_ready_def)+
    qed
    then show ?thesis using GRemap assms(1) by (simp add: guarded_kept)
  next
    case (GReprotect i p)
    have "guarded c s'" if run: "reprotect s i p = Inr s'" for s'
    proof -
      obtain k where k: "root_position (sp_topo s) i = Some k"
        and s': "s' = set_root s ((t_root (sp_topo s))[k := (fst (t_root (sp_topo s) ! k),
                   mapping_with_perms (snd (t_root (sp_topo s) ! k)) p)])"
        using run by (auto simp: reprotect_def Let_def split: option.splits)
      have "k < length (t_root (sp_topo s))" using root_position_Some [OF k] by simp
      then show ?thesis
        unfolding s' using root_ok_mapping [OF ok, of k]
        by (intro guarded_update [OF ok])
           (cases "snd (t_root (sp_topo s) ! k)"; simp add: mapping_ready_def mapping_with_perms_def)+
    qed
    then show ?thesis using GReprotect assms(1) by (simp add: guarded_kept)
  next
    case (GReplace i m)
    have "guarded c s'" if run: "replace_mapping s i m = Inr s'" for s'
    proof -
      obtain k where k: "root_position (sp_topo s) i = Some k" and chk: "check_mapping s m = Inr ()"
        and s': "s' = set_root s ((t_root (sp_topo s))[k := (fst (t_root (sp_topo s) ! k), m)])"
        using run by (auto simp: replace_mapping_def Let_def rbind_eq_Inr split: option.splits)
      then show ?thesis
        unfolding s' using root_position_Some [OF k] check_mapping_Inr [OF chk] assms(2) GReplace
        by (intro guarded_update [OF ok]) simp_all
    qed
    then show ?thesis using GReplace assms(1) by (simp add: guarded_kept)
  next
    case GSync
    then show ?thesis using sync_guarded(1) [OF assms(1)] by simp
  next
    case GRebuild
    have "guarded c (s\<lparr>sp_topo := (sp_topo s)\<lparr>t_dirty := True\<rparr>\<rparr>)"
      using ok by (simp add: guarded_def root_ok_def mapped_def)
    then show ?thesis using GRebuild sync_guarded(1) by (simp add: rebuild_def)
  qed
qed

lemma session_guarded:
  assumes "guarded c s" "list_all (op_ready c) ops"
  shows "guarded c (guard_session ids c ops s)" "\<not> t_dirty (sp_topo (guard_session ids c ops s))"
proof -
  have "guarded c (fold (guard_step ids c) ops s)"
    using assms by (induction ops arbitrary: s) (auto intro: guard_step_guarded)
  then show "guarded c (guard_session ids c ops s)" "\<not> t_dirty (sp_topo (guard_session ids c ops s))"
    unfolding guard_session_def by (rule sync_guarded)+
qed

subsection \<open>The read guard\<close>

lemma offsets_ok_set_cell:
  assumes r0: "as_alias r0 = Some a0" and fit: "offset + r_len r0 \<le> r_len (al_target a0)"
  shows "region_wf r \<Longrightarrow> offsets_ok c r \<Longrightarrow> one_region_per_id r0 (alias_regions r) \<Longrightarrow>
           offsets_ok (set_cell c (al_id a0) offset) r"
    and "list_all mapping_wf ms \<Longrightarrow> list_all (mapping_offsets_ok c) ms \<Longrightarrow> one_region_per_id r0 (mappings_aliases ms) \<Longrightarrow>
           list_all (mapping_offsets_ok (set_cell c (al_id a0) offset)) ms"
proof (induction r and ms rule: alias_regions_mappings_aliases.induct)
  case (1 n l cs k d)
  show ?case
  proof (cases k)
    case (KAlias a)
    obtain t i rb rp where a: "a = Alias t i rb rp" by (cases a)
    have one: "one_region_per_id r0 (alias_regions t)" "i = al_id a0 \<Longrightarrow> Region n l cs k d = r0"
      using 1(5) KAlias a r0 by (auto simp: one_region_per_id_def as_alias_def)
    have t: "region_wf t" "r_len t < two64" using 1(3) KAlias a by (auto, cases t, auto)
    have "offsets_ok (set_cell c (al_id a0) offset) t"
      using 1(1) [OF KAlias a t(1)] 1(4) KAlias a one by simp
    moreover have "ac_offset (set_cell c (al_id a0) offset) i + l < two64" if "\<not> rp"
    proof (cases "i = al_id a0")
      case True
      then have "r0 = Region n l cs k d" using one by simp
      then have "al_target a0 = t" "r_len r0 = l" using r0 KAlias a by (auto simp: as_alias_def)
      then show ?thesis using fit True t by (simp add: set_cell_def)
    next
      case False
      then show ?thesis using 1(4) KAlias a that by (simp add: set_cell_def)
    qed
    ultimately show ?thesis using KAlias a by auto
  next
    case (KContainer ms p)
    then show ?thesis using 1(2) [OF KContainer] 1(3-5) by simp
  qed (use 1 in simp_all)
qed auto

definition entry_shape :: "flat_entry \<Rightarrow> nat \<times> nat \<times> bool" where
  "entry_shape e = (fe_start e, fe_len e, is_direct_ram e)"

lemma recompute_shape [simp]: "entry_shape (recompute_at c m e) = entry_shape e"
  by (auto simp: entry_shape_def recompute_at_def is_direct_ram_def leaf_recompute_def split: entry_kind.splits)

lemma flat_rebase_shape: "map entry_shape (flat_rebase c idx i es) = map entry_shape es"
proof -
  have "map entry_shape (fold (\<lambda>(e, m) es. if e < length es then es[e := recompute_at c m (es ! e)] else es) targets es)
          = map entry_shape es" for targets
  proof (induction targets arbitrary: es)
    case (Cons t targets)
    have "map entry_shape (es[e := recompute_at c m (es ! e)]) = map entry_shape es" if "e < length es" for e m
      using that by (metis list_update_id map_update nth_map recompute_shape)
    then show ?case using Cons by (simp add: case_prod_beta)
  qed simp
  then show ?thesis by (simp add: flat_rebase_def split: option.split)
qed

lemma flat_find_shape:
  assumes "map entry_shape es = map entry_shape es'"
  shows "flat_find es x = flat_find es' x"
proof -
  have len: "length es = length es'" using assms by (metis length_map)
  have nth: "entry_shape (es ! i) = entry_shape (es' ! i)" if "i < length es" for i
    using assms len that by (metis nth_map)
  have take: "length (takeWhile (\<lambda>e. fe_start e \<le> x) zs) = length (takeWhile (\<lambda>s. fst s \<le> x) (map entry_shape zs))" for zs
    by (simp add: takeWhile_map comp_def entry_shape_def)
  define n where "n = length (takeWhile (\<lambda>e. fe_start e \<le> x) es)"
  have n: "n = length (takeWhile (\<lambda>e. fe_start e \<le> x) es')" unfolding n_def take assms ..
  have "n \<le> length es" by (simp add: n_def length_takeWhile_le)
  then have "entry_end (es ! (n - 1)) = entry_end (es' ! (n - 1))" if "n \<noteq> 0"
    using nth [of "n - 1"] that by (simp add: entry_shape_def entry_end_def)
  then show ?thesis
    unfolding flat_find_def n_def [symmetric] n [symmetric] by (simp add: Let_def)
qed

lemma page_word_shape:
  assumes "map entry_shape es = map entry_shape es'"
  shows "page_word es pb page = page_word es' pb page"
proof -
  define start where "start = page * 2 ^ pb mod two64"
  have len: "length es = length es'" using assms by (metis length_map)
  have nth: "fe_start (es ! i) = fe_start (es' ! i)" "entry_end (es ! i) = entry_end (es' ! i)"
    "is_direct_ram (es ! i) = is_direct_ram (es' ! i)" if "i < length es" for i
    using assms len that nth_map [of i es entry_shape] nth_map [of i es' entry_shape]
    by (simp_all add: entry_shape_def entry_end_def)
  have gap: "map_option fe_start (find (\<lambda>e. start \<le> fe_start e) zs)
      = map_option fst (find (\<lambda>s. start \<le> fst s) (map entry_shape zs))" for zs
    by (induction zs) (simp_all add: entry_shape_def)
  have "map_option fe_start (find (\<lambda>e. start \<le> fe_start e) es) = map_option fe_start (find (\<lambda>e. start \<le> fe_start e) es')"
    unfolding gap assms ..
  then show ?thesis
    using nth flat_find_less [of es' start] flat_find_shape [OF assms, of start] len
    by (auto simp: page_word_def Let_def start_def [symmetric] split: option.split)
qed

lemma dispatch_build_shape:
  assumes "map entry_shape es = map entry_shape es'"
  shows "dispatch_build es policy = dispatch_build es' policy"
proof -
  have word: "page_word es = page_word es'" using page_word_shape [OF assms] by blast
  have len: "length es = length es'" using assms by (metis length_map)
  have extent: "flat_extent es = flat_extent es'"
  proof (cases "es = []")
    case False
    then have "entry_shape (last es) = entry_shape (last es')" using assms by (metis last_map map_is_Nil_conv)
    then show ?thesis using False assms by (auto simp: flat_extent_def entry_shape_def entry_end_def)
  qed (use assms in simp)
  show ?thesis unfolding dispatch_build_def word len extent ..
qed

lemma view_rebase_cases:
  assumes "view_rebase c s r offset = Inr (c', s')"
  obtains a where "as_alias r = Some a" "al_rebasable a" "offset + r_len r \<le> r_len (al_target a)"
    "c' = set_cell c (al_id a) offset" "space_rebase c (t_flat (sp_topo s)) (t_index (sp_topo s)) r offset = Inr (c', t_flat (sp_topo s'))"
    "s' = s\<lparr>sp_topo := (sp_topo s)\<lparr>t_flat := flat_rebase c' (t_index (sp_topo s)) (al_id a) (t_flat (sp_topo s))\<rparr>\<rparr>"
  using assms
  by (auto simp: view_rebase_def space_rebase_def rbind_eq_Inr Let_def checked_u64_def split: option.splits if_splits)

lemma slide_guarded:
  assumes g: "guarded c s" "\<not> t_dirty (sp_topo s)"
    and one: "one_region_per_id r (mappings_aliases (mapped s))" and small: "view_small (t_flat (sp_topo s))"
    and run: "view_rebase c s r offset = Inr (c', s')"
  shows "guarded c' s'" "\<not> t_dirty (sp_topo s')"
proof -
  obtain a where a: "as_alias r = Some a" "al_rebasable a" "offset + r_len r \<le> r_len (al_target a)"
    and c': "c' = set_cell c (al_id a) offset"
    and reb: "space_rebase c (t_flat (sp_topo s)) (t_index (sp_topo s)) r offset = Inr (c', t_flat (sp_topo s'))"
    and s': "s' = s\<lparr>sp_topo := (sp_topo s)\<lparr>t_flat := flat_rebase c' (t_index (sp_topo s)) (al_id a) (t_flat (sp_topo s))\<rparr>\<rparr>"
    using run by (rule view_rebase_cases)
  show "\<not> t_dirty (sp_topo s')" using g by (simp add: s')
  have same: "mapped s' = mapped s" "space_size s' = space_size s" "sp_combine s' = sp_combine s"
    "t_index (sp_topo s') = t_index (sp_topo s)" "t_dispatch (sp_topo s') = t_dispatch (sp_topo s)"
    "sp_dispatch_policy s' = sp_dispatch_policy s"
    by (simp_all add: s' mapped_def space_size_def)
  have ok: "root_ok c s" using g by (simp add: guarded_def)
  then have parts: "list_all mapping_wf (mapped s)" "list_all (mapping_fits c) (mapped s)"
    "list_all (mapping_offsets_ok c) (mapped s)" "\<forall>m\<in>set (mapped s). r_depth (m_region m) \<le> MAX_DEPTH"
    by (auto simp: root_ok_def mapping_ready_def list_all_iff)
  have "list_all (mapping_fits c') (mapped s)" "list_all (mapping_offsets_ok c') (mapped s)"
    unfolding c' using windows_fit_set_cell(2) [OF a parts(2) one] offsets_ok_set_cell(2) [OF a(1,3) parts(1,3) one] by auto
  then have root: "root_ok c' s'"
    using ok parts unfolding s' by (simp add: root_ok_def mapped_def mapping_ready_def list_all_iff)
  obtain ids where b: "flat_build ids c (mapped s) (space_size s) (sp_combine s) = Inr (t_flat (sp_topo s), t_index (sp_topo s))"
    using g by (auto simp: guarded_def view_current_def)
  have "flat_build ids c' (mapped s) (space_size s) (sp_combine s) = Inr (t_flat (sp_topo s'), t_index (sp_topo s))"
    using small by (intro rebase_rebuilds [OF b parts(1,4,2) one _ _ reb]) (simp_all add: view_small_def)
  moreover have "dispatch_build (t_flat (sp_topo s')) pol = dispatch_build (t_flat (sp_topo s)) pol" for pol
    by (rule dispatch_build_shape) (simp add: s' flat_rebase_shape)
  ultimately have "view_current c' s'"
    using g by (auto simp: guarded_def view_current_def same)
  then show "guarded c' s'" using root by (simp add: guarded_def)
qed

subsection \<open>Allocating an alias elsewhere\<close>

lemma fits_cells:
  "(\<forall>i\<in>alias_ids (alias_regions r). ac_offset c' i = ac_offset c i) \<Longrightarrow>
     windows_fit c' r = windows_fit c r \<and> offsets_ok c' r = offsets_ok c r"
  "(\<forall>i\<in>alias_ids (mappings_aliases ms). ac_offset c' i = ac_offset c i) \<Longrightarrow>
     (\<forall>m\<in>set ms. mapping_fits c' m = mapping_fits c m \<and> mapping_offsets_ok c' m = mapping_offsets_ok c m)"
proof (induction r and ms rule: alias_regions_mappings_aliases.induct)
  case (1 n l cs k d)
  show ?case
  proof (cases k)
    case (KAlias a)
    obtain t i rb rp where a: "a = Alias t i rb rp" by (cases a)
    then show ?thesis using 1(1) [OF KAlias a] 1(3) KAlias by simp
  next
    case (KContainer ms p)
    then show ?thesis using 1(2) [OF KContainer] 1(3) by (simp add: list_all_iff)
  qed simp_all
qed auto

lemma alloc_guarded:
  assumes "guarded c s" "ac_next c \<notin> alias_ids (mappings_aliases (mapped s))"
  shows "guarded (fst (alloc_alias c offset)) s"
proof -
  let ?c' = "fst (alloc_alias c offset)"
  have agree: "\<forall>i\<in>alias_ids (mappings_aliases (mapped s)). ac_offset ?c' i = ac_offset c i"
    using assms(2) by (auto simp: alloc_alias_def)
  have "mapping_ready ?c' m = mapping_ready c m" if "m \<in> set (mapped s)" for m
    using fits_cells(2) [OF agree] that by (simp add: mapping_ready_def)
  then have "root_ok ?c' s = root_ok c s" by (auto simp: root_ok_def list_all_iff)
  moreover have "view_current ?c' s = view_current c s"
    by (simp add: view_current_def flat_build_cells [OF agree])
  ultimately show ?thesis using assms(1) by (simp add: guarded_def)
qed

subsection \<open>Every reachable space\<close>

lemma reach_guarded: "space_reach c s \<Longrightarrow> guarded c s \<and> \<not> t_dirty (sp_topo s)"
proof (induction rule: space_reach.induct)
  case (built name bits s policy c e u k)
  then show ?case
    by (auto simp: space_new_def guarded_def root_ok_def view_current_def mapped_def topology_new_def
          flat_build_def resolve_overlaps_def rebase_index_of_def Let_def split: if_splits)
next
  case (session c s ops ids)
  then show ?case using session_guarded by blast
next
  case (slide c s r offset c' s')
  then show ?case using slide_guarded by blast
next
  case (alloc c s offset)
  then show ?case using alloc_guarded by blast
qed

section \<open>What a reachable space answers\<close>

definition space_route :: "address_space \<Rightarrow> nat \<Rightarrow> route option" where
  "space_route s addr =
     (let es = t_flat (sp_topo s)
      in map_option (\<lambda>i. entry_route (es ! i) (addr - fe_start (es ! i))) (locate es (t_dispatch (sp_topo s)) addr))"

lemma current_entries:
  assumes "guarded c s" "\<not> t_dirty (sp_topo s)"
  shows "entries_ok (space_size s) (t_flat (sp_topo s))" "space_size s < two64"
    "locate (t_flat (sp_topo s)) (t_dispatch (sp_topo s)) addr = flat_find (t_flat (sp_topo s)) addr"
proof -
  have ok: "root_ok c s" and cur: "view_current c s" using assms by (auto simp: guarded_def)
  show size: "space_size s < two64" using ok by (simp add: root_ok_def space_size_less)
  obtain ids where b: "flat_build ids c (mapped s) (space_size s) (sp_combine s) = Inr (t_flat (sp_topo s), t_index (sp_topo s))"
    and d: "\<forall>d. t_dispatch (sp_topo s) = Some d \<longrightarrow> dispatch_build (t_flat (sp_topo s)) (sp_dispatch_policy s) = Some d"
    using cur by (auto simp: view_current_def)
  have "list_all mapping_wf (mapped s)" "list_all (mapping_offsets_ok c) (mapped s)"
    using ok by (simp_all add: root_ok_def mapping_ready_def list_all_iff)
  then show ent: "entries_ok (space_size s) (t_flat (sp_topo s))"
    using flatten_sorted [OF b _ _ size] by (simp add: entries_ok_def)
  have pol: "\<forall>pb cover. sp_dispatch_policy s = DispatchDense pb cover \<longrightarrow> cover < two64"
    using ok by (auto simp: root_ok_def policy_ok_def)
  show "locate (t_flat (sp_topo s)) (t_dispatch (sp_topo s)) addr = flat_find (t_flat (sp_topo s)) addr"
  proof (cases "t_dispatch (sp_topo s)")
    case (Some t)
    then show ?thesis using d locate_table [OF ent size pol, of addr] by simp
  qed (simp add: locate_def)
qed

lemma space_route_decode:
  assumes "space_reach c s"
  shows "space_route s addr
           = map_option route_of (decode_children c (mapped s) (sp_combine s) (space_size s) addr PERM_RWX)"
proof -
  have g: "guarded c s" "\<not> t_dirty (sp_topo s)" using reach_guarded [OF assms] by auto
  then obtain ids where b: "flat_build ids c (mapped s) (space_size s) (sp_combine s) = Inr (t_flat (sp_topo s), t_index (sp_topo s))"
    by (auto simp: guarded_def view_current_def)
  have "list_all mapping_wf (mapped s)" "list_all (mapping_offsets_ok c) (mapped s)"
    using g by (auto simp: guarded_def root_ok_def mapping_ready_def list_all_iff)
  then have "view_route (t_flat (sp_topo s)) addr
      = map_option route_of (decode_children c (mapped s) (sp_combine s) (space_size s) addr PERM_RWX)"
    by (intro flatten_exact [OF b] current_entries(2) [OF g])
  then show ?thesis
    by (simp add: space_route_def view_route_def Let_def current_entries(3) [OF g])
qed


section \<open>The generation\<close>

definition bumped :: "nat \<Rightarrow> address_space \<Rightarrow> address_space \<Rightarrow> nat \<Rightarrow> bool" where
  "bumped n s0 s k \<longleftrightarrow> k \<le> n \<and> sp_generation s = (sp_generation s0 + k) mod two64 \<and>
     (k = 0 \<longrightarrow> \<not> t_dirty (sp_topo s) \<longrightarrow> s = s0)"

lemma bumped_kept:
  assumes "bumped n s0 s k" "\<And>s'. r = Inr s' \<Longrightarrow> sp_generation s' = sp_generation s \<and> t_dirty (sp_topo s')"
  shows "bumped (Suc n) s0 (kept s r) k"
  using assms by (cases r) (auto simp: bumped_def kept_def)

lemma sync_generation:
  "sync ids c s = s \<and> \<not> t_dirty (sp_topo s) \<or>
   sp_generation (sync ids c s) = wrapping_add64 (sp_generation s) 1 \<and> t_dirty (sp_topo s)"
  by (simp add: sync_def Let_def case_prod_unfold)

lemma bumped_sync: "bumped n s0 s k \<Longrightarrow> \<exists>k'. bumped (Suc n) s0 (sync ids c s) k'"
  using sync_generation [of ids c s]
proof (elim disjE conjE)
  assume b: "bumped n s0 s k" and g: "sp_generation (sync ids c s) = wrapping_add64 (sp_generation s) 1"
  have "bumped (Suc n) s0 (sync ids c s) (Suc k)"
    using b g by (simp add: bumped_def wrapping_add64_def mod_simps)
  then show ?thesis ..
next
  assume "bumped n s0 s k" "sync ids c s = s"
  then have "bumped (Suc n) s0 (sync ids c s) k" by (simp add: bumped_def)
  then show ?thesis ..
qed

lemma bumped_step:
  assumes "bumped n s0 s k"
  shows "\<exists>k'. bumped (Suc n) s0 (guard_step ids c op s) k'"
proof (cases op)
  case (GMap m)
  have "bumped (Suc n) s0 (guard_step ids c op s) k"
    using assms by (cases "check_mapping s m") (simp_all add: GMap map_with_def bumped_def Let_def)
  then show ?thesis ..
next
  case (GUnmap i)
  have "bumped (Suc n) s0 (kept s (unmap s i)) k"
    by (rule bumped_kept [OF assms]) (auto simp: unmap_def set_root_def Let_def split: option.splits)
  then show ?thesis using GUnmap by auto
next
  case (GRemap i base)
  have "bumped (Suc n) s0 (kept s (remap s i base)) k"
    by (rule bumped_kept [OF assms]) (auto simp: remap_def set_root_def Let_def rbind_eq_Inr split: option.splits)
  then show ?thesis using GRemap by auto
next
  case (GReprotect i p)
  have "bumped (Suc n) s0 (kept s (reprotect s i p)) k"
    by (rule bumped_kept [OF assms]) (auto simp: reprotect_def set_root_def Let_def split: option.splits)
  then show ?thesis using GReprotect by auto
next
  case (GReplace i m)
  have "bumped (Suc n) s0 (kept s (replace_mapping s i m)) k"
    by (rule bumped_kept [OF assms]) (auto simp: replace_mapping_def set_root_def Let_def rbind_eq_Inr split: option.splits)
  then show ?thesis using GReplace by auto
next
  case GSync
  then show ?thesis using bumped_sync [OF assms] by simp
next
  case GRebuild
  let ?d = "s\<lparr>sp_topo := (sp_topo s)\<lparr>t_dirty := True\<rparr>\<rparr>"
  have "bumped n s0 ?d k" using assms by (simp add: bumped_def)
  then show ?thesis using bumped_sync [of n s0 ?d k ids c] GRebuild by (simp add: rebuild_def)
qed

lemma bumped_session:
  assumes "\<not> t_dirty (sp_topo s)" "sp_generation s < two64"
  obtains k where "bumped (Suc (length ops)) s (guard_session ids c ops s) k"
proof -
  have "\<exists>k. bumped (length ops) s (fold (guard_step ids c) ops s) k"
  proof (induction ops rule: rev_induct)
    case Nil
    show ?case using assms by (auto simp: bumped_def)
  next
    case (snoc op ops)
    then show ?case using bumped_step by auto
  qed
  then show ?thesis
    using bumped_sync that by (metis guard_session_def)
qed

text \<open>
  C28: The generation is a sound key for derived caches. A guard session (of
  fewer than \<open>2^64 - 1\<close> operations) leaves the generation as it was exactly
  when it leaves the whole space as it was; and sliding a window, which keeps
  the generation, keeps the mappings, the entry boundaries, the page table and
  which entries are plain memory.
\<close>

theorem generation_tracks_topology:
  assumes "space_reach c s" "length ops + 1 < two64"
  shows "(sp_generation (guard_session ids c ops s) = sp_generation s \<longleftrightarrow> guard_session ids c ops s = s)
     \<and> (\<forall>r offset c' s'. view_rebase c s r offset = Inr (c', s') \<longrightarrow>
           sp_generation s' = sp_generation s \<and> t_root (sp_topo s') = t_root (sp_topo s) \<and>
           t_dispatch (sp_topo s') = t_dispatch (sp_topo s) \<and>
           map entry_shape (t_flat (sp_topo s')) = map entry_shape (t_flat (sp_topo s)))"
proof (intro conjI allI impI)
  have g: "\<not> t_dirty (sp_topo s)" "sp_generation s < two64"
    using reach_guarded [OF assms(1)] by (auto simp: guarded_def root_ok_def)
  obtain k where k: "bumped (Suc (length ops)) s (guard_session ids c ops s) k"
    using bumped_session [OF g] .
  have "\<not> t_dirty (sp_topo (guard_session ids c ops s))"
    unfolding guard_session_def by (auto simp: sync_def Let_def case_prod_unfold)
  moreover have "k = 0" if "(sp_generation s + k) mod two64 = sp_generation s"
  proof (rule ccontr)
    assume "k \<noteq> 0"
    moreover have "k < two64" using k assms(2) by (simp add: bumped_def)
    ultimately show False
      using that g(2) le_mod_geq [of two64 "sp_generation s + k"]
      by (cases "sp_generation s + k < two64") auto
  qed
  ultimately show "sp_generation (guard_session ids c ops s) = sp_generation s \<longleftrightarrow> guard_session ids c ops s = s"
    using k by (auto simp: bumped_def)
next
  fix r offset c' s' assume "view_rebase c s r offset = Inr (c', s')"
  then obtain a where "s' = s\<lparr>sp_topo := (sp_topo s)\<lparr>t_flat := flat_rebase c' (t_index (sp_topo s)) (al_id a) (t_flat (sp_topo s))\<rparr>\<rparr>"
    by (rule view_rebase_cases)
  then show "sp_generation s' = sp_generation s" "t_root (sp_topo s') = t_root (sp_topo s)"
    "t_dispatch (sp_topo s') = t_dispatch (sp_topo s)"
    "map entry_shape (t_flat (sp_topo s')) = map entry_shape (t_flat (sp_topo s))"
    by (simp_all add: flat_rebase_shape)
qed

end
