(* ===== verification/Space_Store.thy ===== *)
theory Space_Store
  imports Core_Value Bit_Walk "HOL-Library.Code_Target_Nat"
begin

text \<open>
  \<open>core/space/store.rs\<close>: the backing stores of memory regions. A RAM store is
  its bytes and a bitmap of the pages written since it was last cleared; a ROM
  store is its bytes. Atomic byte cells are bytes here: what two threads may
  see of one wide access is not modelled, nor is the alignment of the host
  allocation. Offsets and lengths are \<open>u64\<close> values.
\<close>

section \<open>State\<close>

definition DEFAULT_PAGE_BITS :: nat where "DEFAULT_PAGE_BITS = 12"

record ram_store =
  rs_cells :: "u8 list"
  rs_dirty :: "u64 list"
  rs_page_bits :: nat
  rs_len :: nat
  rs_pages :: nat

text \<open>The panic on an implausible page size is \<^const>\<open>None\<close>.\<close>

definition ram_with_page_bits :: "nat \<Rightarrow> nat \<Rightarrow> ram_store option" where
  "ram_with_page_bits len page_bits =
     (if 0 < page_bits \<and> page_bits < 64
      then let pages = div_ceil len (2 ^ page_bits)
           in Some \<lparr>rs_cells = replicate len 0, rs_dirty = replicate (div_ceil pages 64) 0,
                    rs_page_bits = page_bits, rs_len = len, rs_pages = pages\<rparr>
      else None)"

definition ram_new :: "nat \<Rightarrow> ram_store option" where
  "ram_new len = ram_with_page_bits len DEFAULT_PAGE_BITS"

definition ram_page_size :: "ram_store \<Rightarrow> nat" where
  "ram_page_size s = 2 ^ rs_page_bits s"

definition ram_range :: "ram_store \<Rightarrow> nat \<Rightarrow> nat \<Rightarrow> bus_error + nat" where
  "ram_range s offset len =
     rbind (ok_or (checked_u64 (offset + len)) BadAccess) (\<lambda>e.
       if rs_len s < e then Inl BadAccess else Inr offset)"

section \<open>Dirty pages\<close>

definition mark_page :: "ram_store \<Rightarrow> nat \<Rightarrow> ram_store" where
  "mark_page s page =
     (if rs_pages s \<le> page then s
      else
        let word = page div 64; mask = push_bit (page mod 64) 1 in
        if length (rs_dirty s) \<le> word then s
        else if rs_dirty s ! word AND mask = 0
             then s\<lparr>rs_dirty := (rs_dirty s)[word := rs_dirty s ! word OR mask]\<rparr> else s)"

definition mark_dirty :: "ram_store \<Rightarrow> nat \<Rightarrow> nat \<Rightarrow> ram_store" where
  "mark_dirty s offset len =
     (if len = 0 then s
      else
        let first = offset div 2 ^ rs_page_bits s;
            last = saturating_add64 offset (len - 1) div 2 ^ rs_page_bits s
        in if first = last then mark_page s first
           else foldl mark_page s [first..<Suc last])"

definition is_page_dirty :: "ram_store \<Rightarrow> nat \<Rightarrow> bool" where
  "is_page_dirty s page =
     (case nth_opt (rs_dirty s) (page div 64) of
        None \<Rightarrow> False
      | Some w \<Rightarrow> w AND push_bit (page mod 64) 1 \<noteq> 0)"

definition take_page_dirty :: "ram_store \<Rightarrow> nat \<Rightarrow> bool \<times> ram_store" where
  "take_page_dirty s page =
     (case nth_opt (rs_dirty s) (page div 64) of
        None \<Rightarrow> (False, s)
      | Some w \<Rightarrow>
          let mask = push_bit (page mod 64) 1
          in (w AND mask \<noteq> 0, s\<lparr>rs_dirty := (rs_dirty s)[page div 64 := w AND (NOT mask)]\<rparr>))"

definition clear_dirty :: "ram_store \<Rightarrow> ram_store" where
  "clear_dirty s = s\<lparr>rs_dirty := map (\<lambda>_. 0) (rs_dirty s)\<rparr>"

text \<open>\<open>for_each_dirty_page\<close>: the pages the closure is called with, in order.\<close>

definition for_each_dirty_page :: "ram_store \<Rightarrow> nat list" where
  "for_each_dirty_page s =
     concat (map (\<lambda>(i, w). filter (\<lambda>page. page < rs_pages s) (map (\<lambda>b. i * 64 + b) (set_bits_of w)))
              (enumerate 0 (rs_dirty s)))"

definition dirty_page_count :: "ram_store \<Rightarrow> nat" where
  "dirty_page_count s = length (for_each_dirty_page s)"

section \<open>Reads and writes\<close>

definition ram_read_at :: "ram_store \<Rightarrow> nat \<Rightarrow> nat \<Rightarrow> bus_error + u8 list" where
  "ram_read_at s offset n =
     rbind (ram_range s offset n) (\<lambda>base. Inr (take n (drop base (rs_cells s))))"

definition put_bytes :: "u8 list \<Rightarrow> nat \<Rightarrow> u8 list \<Rightarrow> u8 list" where
  "put_bytes cells base src = take base cells @ src @ drop (base + length src) cells"

definition ram_write_at :: "ram_store \<Rightarrow> nat \<Rightarrow> u8 list \<Rightarrow> bus_error + ram_store" where
  "ram_write_at s offset src =
     rbind (ram_range s offset (length src)) (\<lambda>base.
       Inr (mark_dirty (s\<lparr>rs_cells := put_bytes (rs_cells s) base src\<rparr>) offset (length src)))"

definition ram_read_u8 :: "ram_store \<Rightarrow> nat \<Rightarrow> bus_error + u8" where
  "ram_read_u8 s offset = rbind (ram_range s offset 1) (\<lambda>base. Inr (rs_cells s ! base))"

definition ram_write_u8 :: "ram_store \<Rightarrow> nat \<Rightarrow> u8 \<Rightarrow> bus_error + ram_store" where
  "ram_write_u8 s offset v =
     rbind (ram_range s offset 1) (\<lambda>base.
       Inr (mark_dirty (s\<lparr>rs_cells := (rs_cells s)[base := v]\<rparr>) offset 1))"

definition le_cells :: "nat \<Rightarrow> u8 list \<Rightarrow> u64 option" where
  "le_cells n cells = (if length cells < n then None else Some (load_little 0 0 (take n cells)))"

text \<open>\<open>u64::swap_bytes\<close>\<close>

definition swap_bytes :: "u64 \<Rightarrow> u64" where
  "swap_bytes v = load_big 0 (store_bytes Little 8 v)"

definition order_value :: "u64 \<Rightarrow> width \<Rightarrow> endian \<Rightarrow> u64" where
  "order_value raw w e =
     (case e of Little \<Rightarrow> raw | Big \<Rightarrow> drop_bit (64 - width_bits w) (swap_bytes raw))"

definition ram_read_value :: "ram_store \<Rightarrow> nat \<Rightarrow> width \<Rightarrow> endian \<Rightarrow> bus_error + u64" where
  "ram_read_value s offset w e =
     rbind (ram_range s offset (width_bytes w)) (\<lambda>base.
     rbind (ok_or (le_cells (width_bytes w) (drop base (rs_cells s))) BadAccess) (\<lambda>raw.
       Inr (order_value raw w e)))"

definition ram_write_value :: "ram_store \<Rightarrow> nat \<Rightarrow> width \<Rightarrow> u64 \<Rightarrow> endian \<Rightarrow> bus_error + ram_store" where
  "ram_write_value s offset w v e =
     (let n = width_bytes w in
      rbind (ram_range s offset n) (\<lambda>base.
        let byte = (\<lambda>i. ucast (drop_bit (8 * (if e = Little then i else n - 1 - i)) v))
        in Inr (mark_dirty (s\<lparr>rs_cells := put_bytes (rs_cells s) base (map byte [0..<n])\<rparr>) offset n)))"

definition ram_fill :: "ram_store \<Rightarrow> nat \<Rightarrow> nat \<Rightarrow> u8 \<Rightarrow> bus_error + ram_store" where
  "ram_fill s offset len v =
     rbind (ram_range s offset len) (\<lambda>base.
       Inr (mark_dirty (s\<lparr>rs_cells := put_bytes (rs_cells s) base (replicate len v)\<rparr>) offset len))"

section \<open>Read-only stores\<close>

type_synonym rom_store = "u8 list"

definition rom_read_at :: "rom_store \<Rightarrow> nat \<Rightarrow> nat \<Rightarrow> bus_error + u8 list" where
  "rom_read_at s offset n =
     rbind (ok_or (checked_u64 (offset + n)) BadAccess) (\<lambda>e.
       if length s < e then Inl BadAccess else Inr (take n (drop offset s)))"

definition rom_read_value :: "rom_store \<Rightarrow> nat \<Rightarrow> width \<Rightarrow> endian \<Rightarrow> bus_error + u64" where
  "rom_read_value s offset w e =
     rbind (ok_or (checked_u64 (offset + width_bytes w)) BadAccess) (\<lambda>stop.
       if length s < stop then Inl BadAccess
       else rbind (ok_or (le_cells (width_bytes w) (drop offset s)) BadAccess) (\<lambda>raw.
              Inr (order_value raw w e)))"

section \<open>A value access is a byte access\<close>

lemma load_big_app: "load_big v (bs @ cs) = load_big (load_big v bs) cs"
  by (induction bs arbitrary: v) auto

lemma load_big_zeros: "load_big v (replicate k 0) = push_bit (8 * k) v"
  by (induction k arbitrary: v) (simp_all add: push_bit_push_bit add.commute)

lemma take_bit_load_little: "8 * length bs \<le> 64 \<Longrightarrow> take_bit (8 * length bs) (load_little 0 0 bs) = load_little 0 0 bs"
  using load_little_store [of "length bs" "load_little 0 0 bs"] store_little_load [of bs] by simp

lemma store_wider:
  assumes "8 * length bs \<le> 64"
  shows "store_bytes Little 8 (load_little 0 0 bs) = bs @ replicate (8 - length bs) 0"
proof (rule nth_equalityI)
  show "length (store_bytes Little 8 (load_little 0 0 bs)) = length (bs @ replicate (8 - length bs) 0)"
    using assms by simp
  fix i assume "i < length (store_bytes Little 8 (load_little 0 0 bs))"
  then have i: "i < 8" by simp
  have v: "load_little 0 0 bs = take_bit (8 * length bs) (load_little 0 0 bs)" using take_bit_load_little [OF assms] by simp
  show "store_bytes Little 8 (load_little 0 0 bs) ! i = (bs @ replicate (8 - length bs) 0) ! i"
  proof (cases "i < length bs")
    case True
    have "store_bytes Little 8 (load_little 0 0 bs) ! i = store_bytes Little (length bs) (load_little 0 0 bs) ! i"
      using i True by (simp add: store_bytes_def)
    then show ?thesis using store_little_load [OF assms] True by (simp add: nth_append)
  next
    case False
    have "drop_bit (8 * i) (load_little 0 0 bs) = 0"
      using False by (subst v) (simp add: drop_bit_take_bit)
    then show ?thesis using i False by (simp add: store_bytes_def nth_append)
  qed
qed

lemma order_value_load:
  assumes "length bs = width_bytes w"
  shows "Inr (order_value (load_little 0 0 bs) w e) = endian_load e bs w"
proof (cases e)
  case Big
  have len: "8 * length bs \<le> 64" using assms by (cases w) auto
  have "swap_bytes (load_little 0 0 bs) = push_bit (8 * (8 - length bs)) (load_big 0 bs)"
    by (simp add: swap_bytes_def store_wider [OF len] load_big_app load_big_zeros)
  moreover have "64 - width_bits w = 8 * (8 - length bs)" using assms len by (simp add: width_bits_bytes)
  moreover have "take_bit (8 * length bs) (load_big 0 bs) = load_big 0 bs"
    using take_bit_load_little [of "rev bs"] len by (simp add: load_big_rev)
  moreover have "drop_bit (64 - 8 * length bs) (push_bit (64 - 8 * length bs) x) = take_bit (8 * length bs) x" for x :: u64
    using len by (intro bit_word_eqI) (auto simp: bit_drop_bit_eq bit_push_bit_iff bit_take_bit_iff)
  ultimately show ?thesis using assms Big len by (simp add: order_value_def endian_load_def Let_def right_diff_distrib')
qed (simp add: assms order_value_def endian_load_def)

lemma ram_range_Inr: "ram_range s offset n = Inr base \<longleftrightarrow> base = offset \<and> offset + n \<le> rs_len s \<and> offset + n < two64"
  by (auto simp: ram_range_def ok_or_def checked_u64_def rbind_eq_Inr split: option.splits if_splits)

lemma ram_range_Inl: "ram_range s offset n = Inl e \<longleftrightarrow> e = BadAccess \<and> \<not> (offset + n \<le> rs_len s \<and> offset + n < two64)"
  by (auto simp: ram_range_def ok_or_def checked_u64_def rbind_def split: option.splits if_splits)

definition ram_wf :: "ram_store \<Rightarrow> bool" where
  "ram_wf s \<longleftrightarrow> length (rs_cells s) = rs_len s \<and> rs_len s < two64 \<and> 0 < rs_page_bits s \<and> rs_page_bits s < 64 \<and>
     rs_pages s = div_ceil (rs_len s) (2 ^ rs_page_bits s) \<and> length (rs_dirty s) = div_ceil (rs_pages s) 64"

lemma ram_read_value_bytes:
  assumes "ram_wf s"
  shows "ram_read_value s offset w e = rbind (ram_read_at s offset (width_bytes w)) (\<lambda>bs. endian_load e bs w)"
proof (cases "ram_range s offset (width_bytes w)")
  case (Inr base)
  have len: "width_bytes w \<le> length (drop base (rs_cells s))"
    using Inr assms by (auto simp: ram_range_Inr ram_wf_def)
  then have "length (take (width_bytes w) (drop base (rs_cells s))) = width_bytes w" by simp
  then show ?thesis
    using Inr len order_value_load [of "take (width_bytes w) (drop base (rs_cells s))" w e]
    by (simp add: ram_read_value_def ram_read_at_def le_cells_def ok_or_def)
qed (simp add: ram_read_value_def ram_read_at_def)

lemma rom_read_value_bytes:
  "rom_read_value s offset w e = rbind (rom_read_at s offset (width_bytes w)) (\<lambda>bs. endian_load e bs w)"
proof (cases "checked_u64 (offset + width_bytes w)")
  case (Some stop)
  then have stop: "stop = offset + width_bytes w" by (simp add: checked_u64_def split: if_splits)
  show ?thesis
  proof (cases "length s < stop")
    case False
    then have len: "\<not> length s - offset < width_bytes w" using stop by auto
    then have "length (take (width_bytes w) (drop offset s)) = width_bytes w" by simp
    then show ?thesis
      using Some False stop len order_value_load [of "take (width_bytes w) (drop offset s)" w e]
      by (simp add: rom_read_value_def rom_read_at_def le_cells_def ok_or_def checked_u64_def split: if_splits)
  qed (simp add: rom_read_value_def rom_read_at_def ok_or_def Some)
qed (simp add: rom_read_value_def rom_read_at_def ok_or_def)

lemma ram_write_value_bytes:
  "ram_write_value s offset w v e = ram_write_at s offset (store_bytes e (width_bytes w) v)"
  by (cases e) (simp_all add: ram_write_value_def ram_write_at_def store_bytes_def Let_def)

section \<open>Bytes\<close>

lemma nth_put_bytes:
  assumes "base + length src \<le> length cells" "i < length cells"
  shows "put_bytes cells base src ! i = (if base \<le> i \<and> i < base + length src then src ! (i - base) else cells ! i)"
proof -
  consider "i < base" | "base \<le> i" "i < base + length src" | "base + length src \<le> i" by linarith
  then show ?thesis
    by cases (use assms in \<open>auto simp: put_bytes_def nth_append min_def\<close>)
qed

lemma length_put_bytes [simp]: "base + length src \<le> length cells \<Longrightarrow> length (put_bytes cells base src) = length cells"
  by (simp add: put_bytes_def)

lemma mark_page_fields [simp]:
  "rs_cells (mark_page s p) = rs_cells s" "rs_len (mark_page s p) = rs_len s" "rs_pages (mark_page s p) = rs_pages s"
  "rs_page_bits (mark_page s p) = rs_page_bits s" "length (rs_dirty (mark_page s p)) = length (rs_dirty s)"
  by (simp_all add: mark_page_def Let_def)

lemma mark_pages_fields [simp]:
  "rs_cells (foldl mark_page s ps) = rs_cells s" "rs_len (foldl mark_page s ps) = rs_len s"
  "rs_pages (foldl mark_page s ps) = rs_pages s" "rs_page_bits (foldl mark_page s ps) = rs_page_bits s"
  "length (rs_dirty (foldl mark_page s ps)) = length (rs_dirty s)"
  by (induction ps arbitrary: s) simp_all

lemma mark_dirty_fields [simp]:
  "rs_cells (mark_dirty s n m) = rs_cells s" "rs_len (mark_dirty s n m) = rs_len s" "rs_pages (mark_dirty s n m) = rs_pages s"
  "rs_page_bits (mark_dirty s n m) = rs_page_bits s" "length (rs_dirty (mark_dirty s n m)) = length (rs_dirty s)"
  by (simp_all add: mark_dirty_def Let_def del: upt_Suc)

section \<open>The bitmap\<close>

lemma dirty_bit: "is_page_dirty s p \<longleftrightarrow> p div 64 < length (rs_dirty s) \<and> bit (rs_dirty s ! (p div 64)) (p mod 64)"
  by (auto simp: is_page_dirty_def nth_opt_def bit_test)

lemma page_word_bound: "p < pages \<Longrightarrow> p div 64 < div_ceil pages 64"
proof -
  assume "p < pages"
  then have "p div 64 \<le> pages div 64" by (simp add: div_le_mono)
  moreover have "p div 64 < pages div 64" if "pages mod 64 = 0"
    using that \<open>p < pages\<close> by (metis less_mult_imp_div_less div_mult_mod_eq add.right_neutral)
  ultimately show ?thesis by (auto simp: div_ceil_def)
qed

lemma dirty_mark_page:
  assumes "length (rs_dirty s) = div_ceil (rs_pages s) 64"
  shows "is_page_dirty (mark_page s p) q \<longleftrightarrow> is_page_dirty s q \<or> q = p \<and> p < rs_pages s"
proof (cases "p < rs_pages s")
  case True
  then have w: "p div 64 < length (rs_dirty s)" using page_word_bound assms by simp
  have same: "q div 64 = p div 64 \<and> q mod 64 = p mod 64 \<longleftrightarrow> q = p" by (metis div_mult_mod_eq)
  have "is_page_dirty (mark_page s p) q \<longleftrightarrow> q div 64 < length (rs_dirty s) \<and>
      bit ((rs_dirty s)[p div 64 := rs_dirty s ! (p div 64) OR 2 ^ (p mod 64)] ! (q div 64)) (q mod 64)"
  proof (cases "bit (rs_dirty s ! (p div 64)) (p mod 64)")
    case True
    have "rs_dirty s ! (p div 64) OR 2 ^ (p mod 64) = rs_dirty s ! (p div 64)"
      using True by (intro bit_word_eqI) (auto simp: bit_or_iff bit_one_at)
    then show ?thesis
      using True w by (simp add: dirty_bit mark_page_def bit_test Let_def)
  next
    case False
    then show ?thesis
      using w \<open>p < rs_pages s\<close> by (simp add: dirty_bit mark_page_def bit_test Let_def)
  qed
  also have "\<dots> \<longleftrightarrow> is_page_dirty s q \<or> q = p"
    using w same by (cases "q div 64 = p div 64") (auto simp: dirty_bit bit_or_iff bit_one_at)
  finally show ?thesis using True by simp
qed (simp add: mark_page_def)

lemma dirty_mark_pages:
  assumes "length (rs_dirty s) = div_ceil (rs_pages s) 64"
  shows "is_page_dirty (foldl mark_page s ps) q \<longleftrightarrow> is_page_dirty s q \<or> q \<in> set ps \<and> q < rs_pages s"
  using assms by (induction ps arbitrary: s) (auto simp: dirty_mark_page)

lemma dirty_mark_dirty:
  assumes "ram_wf s" "offset + len \<le> rs_len s"
  shows "is_page_dirty (mark_dirty s offset len) q \<longleftrightarrow>
           is_page_dirty s q \<or> (\<exists>i. offset \<le> i \<and> i < offset + len \<and> i div 2 ^ rs_page_bits s = q)"
proof (cases "len = 0")
  case False
  let ?p = "2 ^ rs_page_bits s :: nat"
  define first last where "first = offset div ?p" and "last = (offset + (len - 1)) div ?p"
  have sat: "saturating_add64 offset (len - 1) = offset + (len - 1)"
  proof -
    have "offset + (len - 1) < two64" using assms by (auto simp: ram_wf_def)
    then show ?thesis by (simp add: saturating_add64_def)
  qed
  have le: "first \<le> last" unfolding first_def last_def by (intro div_le_mono) simp
  have dirty: "length (rs_dirty s) = div_ceil (rs_pages s) 64" using assms(1) by (simp add: ram_wf_def)
  have "mark_dirty s offset len = foldl mark_page s [first..<Suc last]"
  proof (cases "first = last")
    case True
    then show ?thesis unfolding mark_dirty_def Let_def sat first_def [symmetric] last_def [symmetric] using False by simp
  next
    case neq: False
    then show ?thesis
      unfolding mark_dirty_def Let_def sat first_def [symmetric] last_def [symmetric] using False by (simp only: if_False simp_thms)
  qed
  then have "is_page_dirty (mark_dirty s offset len) q \<longleftrightarrow> is_page_dirty s q \<or> (first \<le> q \<and> q \<le> last) \<and> q < rs_pages s"
    using dirty_mark_pages [OF dirty, of "[first..<Suc last]" q] le by (auto simp: less_Suc_eq_le simp del: upt_Suc)
  also have "\<dots> \<longleftrightarrow> is_page_dirty s q \<or> (\<exists>i. offset \<le> i \<and> i < offset + len \<and> i div ?p = q)"
  proof -
    have "(first \<le> q \<and> q \<le> last) \<and> q < rs_pages s" if i: "offset \<le> i" "i < offset + len" "i div ?p = q" for i
    proof -
      have "first \<le> q" "q \<le> last" using i by (auto simp: first_def last_def div_le_mono)
      moreover have "q < rs_pages s"
      proof -
        have "i < rs_len s" using i assms(2) by simp
        then have "q \<le> rs_len s div ?p" using i(3) by (auto simp: div_le_mono)
        moreover have "q < rs_len s div ?p" if "rs_len s mod ?p = 0"
        proof -
          have "rs_len s = rs_len s div ?p * ?p" using that by (metis div_mult_mod_eq add.right_neutral)
          then show ?thesis using \<open>i < rs_len s\<close> i(3) by (metis less_mult_imp_div_less)
        qed
        ultimately show ?thesis using assms(1) by (auto simp: ram_wf_def div_ceil_def)
      qed
      ultimately show ?thesis by simp
    qed
    moreover have "\<exists>i. offset \<le> i \<and> i < offset + len \<and> i div ?p = q" if q: "first \<le> q" "q \<le> last"
    proof (cases "q = first")
      case True
      then show ?thesis using False by (intro exI [of _ offset]) (simp add: first_def)
    next
      case neq: False
      have "first * ?p + ?p \<le> q * ?p"
        using neq q(1) by (metis add.commute le_antisym less_eq_Suc_le mult_Suc mult_le_mono1 not_less)
      moreover have "offset < first * ?p + ?p"
      proof -
        have "offset mod ?p < ?p" by (intro mod_less_divisor zero_less_power) simp
        then show ?thesis unfolding first_def using div_mult_mod_eq [of offset ?p] by linarith
      qed
      ultimately have "offset \<le> q * ?p" by linarith
      moreover have "q * ?p \<le> offset + (len - 1)"
        using q(2) unfolding last_def by (metis div_times_less_eq_dividend le_trans mult_le_mono1)
      ultimately show ?thesis using False by (intro exI [of _ "q * ?p"]) auto
    qed
    ultimately show ?thesis by blast
  qed
  finally show ?thesis .
qed (auto simp: mark_dirty_def)

section \<open>A run of writes\<close>

lemma ram_write_at_Inr:
  assumes "ram_wf s" "ram_write_at s offset src = Inr s'"
  shows "ram_wf s'" "rs_len s' = rs_len s" "rs_page_bits s' = rs_page_bits s" "offset + length src \<le> rs_len s"
    "i < rs_len s \<Longrightarrow> rs_cells s' ! i = (if offset \<le> i \<and> i < offset + length src then src ! (i - offset) else rs_cells s ! i)"
    "is_page_dirty s' q \<longleftrightarrow> is_page_dirty s q \<or> (\<exists>i. offset \<le> i \<and> i < offset + length src \<and> i div 2 ^ rs_page_bits s = q)"
proof -
  let ?t = "s\<lparr>rs_cells := put_bytes (rs_cells s) offset src\<rparr>"
  have s': "s' = mark_dirty ?t offset (length src)" and fit: "offset + length src \<le> rs_len s"
    using assms(2) by (auto simp: ram_write_at_def rbind_eq_Inr ram_range_Inr)
  have wf: "ram_wf ?t" using assms(1) fit by (simp add: ram_wf_def)
  show "ram_wf s'" using wf by (simp add: s' ram_wf_def)
  show "rs_len s' = rs_len s" "rs_page_bits s' = rs_page_bits s" "offset + length src \<le> rs_len s" using fit by (simp_all add: s')
  show "i < rs_len s \<Longrightarrow> rs_cells s' ! i = (if offset \<le> i \<and> i < offset + length src then src ! (i - offset) else rs_cells s ! i)"
    using fit assms(1) by (simp add: s' nth_put_bytes ram_wf_def)
  show "is_page_dirty s' q \<longleftrightarrow> is_page_dirty s q \<or> (\<exists>i. offset \<le> i \<and> i < offset + length src \<and> i div 2 ^ rs_page_bits s = q)"
    using dirty_mark_dirty [OF wf, of offset "length src" q] fit by (simp add: s' is_page_dirty_def)
qed

lemma ram_write_read_value:
  assumes "ram_wf s" "ram_write_value s offset w v e = Inr s'"
  shows "ram_read_value s' offset w e = Inr (take_bit (width_bits w) v)"
proof -
  have run: "ram_write_at s offset (store_bytes e (width_bytes w) v) = Inr s'"
    using assms(2) by (simp add: ram_write_value_bytes)
  note r = ram_write_at_Inr [OF assms(1) run]
  have fit: "offset + width_bytes w \<le> length (rs_cells s')" "length (rs_cells s') = rs_len s" "rs_len s < two64"
    using r(1,2,4) assms(1) by (simp_all add: ram_wf_def)
  have "take (width_bytes w) (drop offset (rs_cells s')) = store_bytes e (width_bytes w) v"
  proof (rule nth_equalityI)
    fix i assume "i < length (take (width_bytes w) (drop offset (rs_cells s')))"
    then show "take (width_bytes w) (drop offset (rs_cells s')) ! i = store_bytes e (width_bytes w) v ! i"
      using r(5) [of "offset + i"] fit by simp
  qed (use fit in simp)
  moreover have "8 * width_bytes w \<le> 64" by (cases w) auto
  ultimately show ?thesis
    using fit r(2) endian_load_store_bytes [of "width_bytes w" e v]
    by (simp add: ram_read_value_bytes [OF r(1)] ram_read_at_def ram_range_def checked_u64_def ok_or_def
          endian_load_def width_bits_bytes mult.commute split: endian.splits)
qed

datatype store_op =
    SWriteAt nat "u8 list"
  | SWriteU8 nat u8
  | SWriteValue nat width u64 endian
  | SFill nat nat u8

fun store_result :: "store_op \<Rightarrow> ram_store \<Rightarrow> bus_error + ram_store" where
  "store_result (SWriteAt offset src) s = ram_write_at s offset src"
| "store_result (SWriteU8 offset v) s = ram_write_u8 s offset v"
| "store_result (SWriteValue offset w v e) s = ram_write_value s offset w v e"
| "store_result (SFill offset len v) s = ram_fill s offset len v"

definition store_apply :: "ram_store \<Rightarrow> store_op \<Rightarrow> ram_store" where
  "store_apply s op = (case store_result op s of Inl _ \<Rightarrow> s | Inr s' \<Rightarrow> s')"

fun op_start :: "store_op \<Rightarrow> nat" where
  "op_start (SWriteAt offset _) = offset"
| "op_start (SWriteU8 offset _) = offset"
| "op_start (SWriteValue offset _ _ _) = offset"
| "op_start (SFill offset _ _) = offset"

fun op_bytes :: "store_op \<Rightarrow> u8 list" where
  "op_bytes (SWriteAt _ src) = src"
| "op_bytes (SWriteU8 _ v) = [v]"
| "op_bytes (SWriteValue _ w v e) = store_bytes e (width_bytes w) v"
| "op_bytes (SFill _ len v) = replicate len v"

text \<open>An operation touches a byte when its whole range is inside the store and covers it.\<close>

definition op_touches :: "ram_store \<Rightarrow> store_op \<Rightarrow> nat \<Rightarrow> bool" where
  "op_touches s op i \<longleftrightarrow> op_start op + length (op_bytes op) \<le> rs_len s \<and>
     op_start op \<le> i \<and> i < op_start op + length (op_bytes op)"

lemma put_one: "base < length cells \<Longrightarrow> cells[base := v] = put_bytes cells base [v]"
  by (simp add: put_bytes_def upd_conv_take_nth_drop)

lemma store_result_write:
  assumes "ram_wf s"
  shows "store_result op s = ram_write_at s (op_start op) (op_bytes op)"
proof (cases op)
  case (SWriteU8 offset v)
  show ?thesis
  proof (cases "ram_range s offset (Suc 0)")
    case (Inr base)
    then have "base < length (rs_cells s)" using assms by (auto simp: ram_range_Inr ram_wf_def)
    then have "(rs_cells s)[base := v] = put_bytes (rs_cells s) base [v]" by (rule put_one)
    then show ?thesis using Inr SWriteU8 by (simp add: ram_write_u8_def ram_write_at_def)
  qed (simp add: SWriteU8 ram_write_u8_def ram_write_at_def)
qed (simp_all add: ram_write_value_bytes ram_write_at_def ram_fill_def)

lemma set_bits_of_sorted: "sorted_wrt (<) (set_bits_of v)"
proof (induction v rule: set_bits_of.induct)
  case (1 v)
  show ?case
  proof (cases "v = 0")
    case False
    have "low_bit v < n" if "n \<in> set (set_bits_of (v AND (v - 1)))" for n
      using that bit_clear_lowest [OF False, of n] low_bit_spec(3) [OF False, of n]
      by (auto simp: set_bits_of_spec) (meson linorder_neqE_nat)
    then show ?thesis using 1 [OF False] False by (subst set_bits_of.simps) auto
  qed (simp add: set_bits_of.simps)
qed

lemma dirty_pages_walk:
  "concat (map (\<lambda>(i, w). filter P (map (\<lambda>b. i * 64 + b) (set_bits_of w))) (enumerate n ws))
     = filter (\<lambda>p. P p \<and> n \<le> p div 64 \<and> p div 64 < n + length ws \<and> bit (ws ! (p div 64 - n)) (p mod 64))
         [n * 64..<(n + length ws) * 64]" for ws :: "u64 list"
proof (induction ws arbitrary: n)
  case (Cons w ws)
  let ?Q = "\<lambda>n ws p. P p \<and> n \<le> p div 64 \<and> p div 64 < n + length ws \<and> bit (ws ! (p div 64 - n)) (p mod 64)"
  have split: "[n * 64..<(n + length (w # ws)) * 64] = map (\<lambda>b. n * 64 + b) [0..<64] @ [Suc n * 64..<(Suc n + length ws) * 64]"
  proof -
    have "[n * 64..<(n + length (w # ws)) * 64] = [n * 64..<Suc n * 64] @ [Suc n * 64..<(Suc n + length ws) * 64]"
      using upt_add_eq_append [of "n * 64" "Suc n * 64" "length ws * 64"] by (simp add: algebra_simps)
    moreover have "[n * 64..<Suc n * 64] = map (\<lambda>b. n * 64 + b) [0..<64]"
      by (rule nth_equalityI) simp_all
    ultimately show ?thesis by simp
  qed
  have bits: "set_bits_of w = filter (bit w) [0..<64]"
  proof (rule sorted_distinct_set_unique)
    show "sorted (set_bits_of w)" "distinct (set_bits_of w)"
      using set_bits_of_sorted [of w] by (auto simp: strict_sorted_iff)
    show "set (set_bits_of w) = set (filter (bit w) [0..<64])"
      using bit_imp_le_length [of w] by (auto simp: set_bits_of_spec)
    show "sorted (filter (bit w) [0..<64])" by (intro sorted_wrt_filter) simp
  qed simp
  have "filter P (map (\<lambda>b. n * 64 + b) (set_bits_of w)) = filter (?Q n (w # ws)) (map (\<lambda>b. n * 64 + b) [0..<64])"
    unfolding bits filter_map filter_filter by (intro arg_cong2 [where f = map] refl filter_cong) auto
  moreover have "filter (?Q (Suc n) ws) [Suc n * 64..<(Suc n + length ws) * 64] = filter (?Q n (w # ws)) [Suc n * 64..<(Suc n + length ws) * 64]"
  proof (rule filter_cong [OF refl])
    fix p assume "p \<in> set [Suc n * 64..<(Suc n + length ws) * 64]"
    then have "Suc n \<le> p div 64" by (simp add: less_eq_div_iff_mult_less_eq)
    then show "?Q (Suc n) ws p = ?Q n (w # ws) p" by (auto simp: nth_Cons' Suc_le_eq)
  qed
  ultimately show ?case
    unfolding split filter_append by (simp add: Cons)
qed simp

lemma for_each_dirty_page_spec:
  "sorted_wrt (<) (for_each_dirty_page s)" "p \<in> set (for_each_dirty_page s) \<longleftrightarrow> p < rs_pages s \<and> is_page_dirty s p"
proof -
  note walk = dirty_pages_walk [of "\<lambda>page. page < rs_pages s" 0 "rs_dirty s", folded for_each_dirty_page_def]
  show "sorted_wrt (<) (for_each_dirty_page s)" unfolding walk by (intro sorted_wrt_filter) simp
  show "p \<in> set (for_each_dirty_page s) \<longleftrightarrow> p < rs_pages s \<and> is_page_dirty s p"
    unfolding walk by (auto simp: dirty_bit)
qed

lemma dirty_in_pages:
  assumes "ram_wf s" "i < rs_len s"
  shows "i div 2 ^ rs_page_bits s < rs_pages s"
proof -
  let ?p = "2 ^ rs_page_bits s :: nat"
  have "i div ?p \<le> rs_len s div ?p" using assms(2) by (intro div_le_mono) simp
  moreover have "i div ?p < rs_len s div ?p" if "rs_len s mod ?p = 0"
    using that assms(2) by (metis add.right_neutral div_mult_mod_eq less_mult_imp_div_less)
  ultimately show ?thesis using assms(1) by (auto simp: ram_wf_def div_ceil_def)
qed

lemma store_apply_effect:
  assumes "ram_wf s"
  shows "ram_wf (store_apply s op)" "rs_len (store_apply s op) = rs_len s" "rs_page_bits (store_apply s op) = rs_page_bits s"
    "i < rs_len s \<Longrightarrow> \<not> op_touches s op i \<Longrightarrow> rs_cells (store_apply s op) ! i = rs_cells s ! i"
    "is_page_dirty (store_apply s op) q \<longleftrightarrow> is_page_dirty s q \<or> (\<exists>i. op_touches s op i \<and> i div 2 ^ rs_page_bits s = q)"
proof -
  define a src where "a = op_start op" and "src = op_bytes op"
  have run: "store_apply s op = (case ram_write_at s a src of Inl _ \<Rightarrow> s | Inr s' \<Rightarrow> s')"
    by (simp add: store_apply_def store_result_write [OF assms] a_def src_def)
  have touch: "op_touches s op i \<longleftrightarrow> a + length src \<le> rs_len s \<and> a \<le> i \<and> i < a + length src" for i
    by (simp add: op_touches_def a_def src_def)
  have "ram_wf (store_apply s op) \<and> rs_len (store_apply s op) = rs_len s \<and> rs_page_bits (store_apply s op) = rs_page_bits s \<and>
      (i < rs_len s \<longrightarrow> \<not> op_touches s op i \<longrightarrow> rs_cells (store_apply s op) ! i = rs_cells s ! i) \<and>
      (is_page_dirty (store_apply s op) q \<longleftrightarrow> is_page_dirty s q \<or> (\<exists>i. op_touches s op i \<and> i div 2 ^ rs_page_bits s = q))"
  proof (cases "ram_write_at s a src")
    case (Inl e)
    then have "\<not> a + length src \<le> rs_len s"
      using assms by (auto simp: ram_write_at_def rbind_eq_Inl ram_range_Inl ram_wf_def)
    then show ?thesis using Inl assms by (simp add: run touch)
  next
    case (Inr s')
    note r = ram_write_at_Inr [OF assms Inr]
    show ?thesis using Inr r(1-4) r(5) [of i] r(6) [of q] by (simp add: run touch)
  qed
  then show "ram_wf (store_apply s op)" "rs_len (store_apply s op) = rs_len s" "rs_page_bits (store_apply s op) = rs_page_bits s"
    "i < rs_len s \<Longrightarrow> \<not> op_touches s op i \<Longrightarrow> rs_cells (store_apply s op) ! i = rs_cells s ! i"
    "is_page_dirty (store_apply s op) q \<longleftrightarrow> is_page_dirty s q \<or> (\<exists>i. op_touches s op i \<and> i div 2 ^ rs_page_bits s = q)"
    by blast+
qed

lemma store_run_effect:
  assumes "ram_wf s"
  shows "ram_wf (foldl store_apply s ops) \<and> rs_len (foldl store_apply s ops) = rs_len s
     \<and> rs_page_bits (foldl store_apply s ops) = rs_page_bits s
     \<and> (\<forall>i<rs_len s. (\<forall>op\<in>set ops. \<not> op_touches s op i) \<longrightarrow> rs_cells (foldl store_apply s ops) ! i = rs_cells s ! i)
     \<and> (\<forall>q. is_page_dirty (foldl store_apply s ops) q \<longleftrightarrow>
           is_page_dirty s q \<or> (\<exists>op\<in>set ops. \<exists>i. op_touches s op i \<and> i div 2 ^ rs_page_bits s = q))"
  using assms
proof (induction ops arbitrary: s)
  case (Cons op ops)
  note r = store_apply_effect [OF Cons.prems, where op = op]
  have same: "op_touches (store_apply s op) = op_touches s" using r(2) by (simp add: op_touches_def fun_eq_iff)
  show ?case using Cons.IH [OF r(1)] r(2,3) r(4) r(5) by (simp add: same)
qed simp

lemma clear_dirty_simps [simp]:
  "rs_cells (clear_dirty s) = rs_cells s" "rs_len (clear_dirty s) = rs_len s" "rs_page_bits (clear_dirty s) = rs_page_bits s"
  "rs_pages (clear_dirty s) = rs_pages s" "ram_wf (clear_dirty s) = ram_wf s" "\<not> is_page_dirty (clear_dirty s) p"
  by (simp_all add: clear_dirty_def ram_wf_def dirty_bit)

text \<open>
  C23: Dirty tracking is exact. After the bitmap is cleared and any writes are
  made, refused ones among them, the pages reported are in ascending order and
  are exactly those some accepted write touched; so a byte that differs from
  what it was lies in a reported page.
\<close>

theorem dirty_pages_exact:
  assumes "ram_wf s"
  shows "sorted_wrt (<) (for_each_dirty_page (foldl store_apply (clear_dirty s) ops))
     \<and> set (for_each_dirty_page (foldl store_apply (clear_dirty s) ops))
         = {i div 2 ^ rs_page_bits s | i. \<exists>op\<in>set ops. op_touches s op i}
     \<and> (\<forall>i<rs_len s. rs_cells (foldl store_apply (clear_dirty s) ops) ! i \<noteq> rs_cells s ! i \<longrightarrow>
           i div 2 ^ rs_page_bits s \<in> set (for_each_dirty_page (foldl store_apply (clear_dirty s) ops)))"
proof -
  let ?s' = "foldl store_apply (clear_dirty s) ops"
  have r: "ram_wf ?s'" "rs_len ?s' = rs_len s" "rs_page_bits ?s' = rs_page_bits s"
    "\<And>i. i < rs_len s \<Longrightarrow> \<forall>op\<in>set ops. \<not> op_touches s op i \<Longrightarrow> rs_cells ?s' ! i = rs_cells s ! i"
    "\<And>q. is_page_dirty ?s' q \<longleftrightarrow> (\<exists>op\<in>set ops. \<exists>i. op_touches s op i \<and> i div 2 ^ rs_page_bits s = q)"
    using store_run_effect [of "clear_dirty s" ops] assms by (auto simp: op_touches_def)
  have "op_touches s op i \<Longrightarrow> i < rs_len s" for op i by (simp add: op_touches_def)
  then have set: "set (for_each_dirty_page ?s') = {i div 2 ^ rs_page_bits s | i. \<exists>op\<in>set ops. op_touches s op i}"
    using dirty_in_pages [OF r(1)] r(2,3) by (auto simp: for_each_dirty_page_spec(2) r(5)) blast+
  moreover have "i div 2 ^ rs_page_bits s \<in> set (for_each_dirty_page ?s')"
    if "i < rs_len s" "rs_cells ?s' ! i \<noteq> rs_cells s ! i" for i
    unfolding set using r(4) [of i] that by blast
  ultimately show ?thesis using for_each_dirty_page_spec(1) [of ?s'] by blast
qed

definition small_ram :: ram_store where
  "small_ram = \<lparr>rs_cells = replicate 40 0, rs_dirty = [1], rs_page_bits = 4, rs_len = 40, rs_pages = 3\<rparr>"

definition small_writes :: "store_op list" where
  "small_writes = [SWriteValue 30 U32 0x11223344 Big, SFill 38 8 1]"

theorem dirty_pages_exact_witness:
  "ram_wf small_ram \<and> for_each_dirty_page (foldl store_apply (clear_dirty small_ram) small_writes) = [1, 2]
     \<and> {i div 16 | i. \<exists>op\<in>set small_writes. op_touches small_ram op i} = {1, 2}"
proof -
  have wf: "ram_wf small_ram" by code_simp
  have pages: "for_each_dirty_page (foldl store_apply (clear_dirty small_ram) small_writes) = [1, 2]" by code_simp
  have "rs_page_bits small_ram = 4" by (simp add: small_ram_def)
  then have "set [1, 2] = {i div 16 | i. \<exists>op\<in>set small_writes. op_touches small_ram op i}"
    using dirty_pages_exact [OF wf, of small_writes] unfolding pages by simp
  then show ?thesis using wf pages by auto
qed

end
