(* ===== verification/Space_Access.thy ===== *)
theory Space_Access
  imports Space_Machine Space_Store Space_Monitor
begin

text \<open>
  The access half of \<open>core/space/flat.rs\<close> and \<open>core/space.rs\<close>: reads and writes
  of a leaf, of an entry and of a view, in bytes and in values. A read fills a
  buffer it is given, so it takes the buffer and returns it; a device may
  change anything an access can reach, so it takes and returns the whole bus.
  Under the read lock an entry is borrowed and only its atomics may change: the
  offset of a leaf, which a rebase stores, and the conflict counter. The tracing
  hook on the device arm has no guest-visible effect and is left out.
\<close>

section \<open>State\<close>

record unassigned_log =
  ul_count :: nat
  ul_last :: nat
  ul_last_write :: bool
  ul_pages :: "(nat, nat) bmap"

record 'd bus =
  bu_space :: address_space
  bu_cells :: alias_cells
  bu_ram :: "arc \<Rightarrow> ram_store"
  bu_rom :: "arc \<Rightarrow> rom_store"
  bu_monitor :: exclusive_monitor
  bu_log :: unassigned_log
  bu_dev :: 'd

text \<open>The trait \<open>MemOps\<close>; what a device does is an argument of every access.\<close>

record 'd mem_ops =
  op_read :: "nat \<Rightarrow> u8 list \<Rightarrow> mem_attrs \<Rightarrow> 'd bus \<Rightarrow> 'd bus \<times> u8 list \<times> (bus_error + unit)"
  op_write :: "nat \<Rightarrow> u8 list \<Rightarrow> mem_attrs \<Rightarrow> 'd bus \<Rightarrow> 'd bus \<times> (bus_error + unit)"

type_synonym 'd devices = "arc \<Rightarrow> 'd mem_ops"

definition bus_entries :: "'d bus \<Rightarrow> flat_entry list" where
  "bus_entries b = t_flat (sp_topo (bu_space b))"

definition bus_locate :: "'d bus \<Rightarrow> nat \<Rightarrow> nat option" where
  "bus_locate b addr = locate (bus_entries b) (t_dispatch (sp_topo (bu_space b))) addr"

section \<open>A leaf\<close>

definition leaf_run_len :: "flat_leaf \<Rightarrow> nat \<Rightarrow> nat" where
  "leaf_run_len l rel =
     (if fl_period l = 0 then two64 - 1 else fl_period l - leaf_offset_of l rel mod fl_period l)"

definition leaf_check :: "flat_leaf \<Rightarrow> nat \<Rightarrow> nat \<Rightarrow> width option \<Rightarrow> mem_attrs \<Rightarrow> bus_error + unit" where
  "leaf_check l off len w attrs =
     (case w of
        Some w \<Rightarrow> check_access (fl_constraints l) off w attrs
      | None \<Rightarrow> check_bulk (fl_constraints l) off len attrs)"

definition filled :: "'d bus \<Rightarrow> u8 list \<Rightarrow> bus_error + u8 list \<Rightarrow> 'd bus \<times> u8 list \<times> (bus_error + unit)" where
  "filled b dst r = (case r of Inl e \<Rightarrow> (b, dst, Inl e) | Inr bs \<Rightarrow> (b, bs, Inr ()))"

definition leaf_read ::
  "'d devices \<Rightarrow> flat_leaf \<Rightarrow> nat \<Rightarrow> u8 list \<Rightarrow> mem_attrs \<Rightarrow> width option \<Rightarrow> 'd bus \<Rightarrow> 'd bus \<times> u8 list \<times> (bus_error + unit)" where
  "leaf_read devs l rel dst attrs w b =
     (if \<not> perms_contains (fl_perms l) (read_perm attrs) then (b, dst, Inl Protected)
      else
        let off = leaf_offset_of l rel in
        case leaf_check l off (length dst) w attrs of
          Inl e \<Rightarrow> (b, dst, Inl e)
        | Inr _ \<Rightarrow>
            (case fl_target l of
               TRam s \<Rightarrow> filled b dst (ram_read_at (bu_ram b s) off (length dst))
             | TRom s _ \<Rightarrow> filled b dst (rom_read_at (bu_rom b s) off (length dst))
             | TIo ops _ \<Rightarrow> op_read (devs ops) off dst attrs b))"

definition leaf_read_value ::
  "'d devices \<Rightarrow> flat_leaf \<Rightarrow> nat \<Rightarrow> width \<Rightarrow> mem_attrs \<Rightarrow> 'd bus \<Rightarrow> 'd bus \<times> (bus_error + u64)" where
  "leaf_read_value devs l rel w attrs b =
     (if \<not> perms_contains (fl_perms l) (read_perm attrs) then (b, Inl Protected)
      else
        let off = leaf_offset_of l rel; order = ac_endian (fl_constraints l) in
        case check_access (fl_constraints l) off w attrs of
          Inl e \<Rightarrow> (b, Inl e)
        | Inr _ \<Rightarrow>
            (case fl_target l of
               TRam s \<Rightarrow> (b, ram_read_value (bu_ram b s) off w order)
             | TRom s _ \<Rightarrow> (b, rom_read_value (bu_rom b s) off w order)
             | TIo ops _ \<Rightarrow>
                 (case op_read (devs ops) off (replicate (width_bytes w) 0) attrs b of
                    (b', buf, r) \<Rightarrow> (b', rbind r (\<lambda>_. endian_load order buf w)))))"

definition stored :: "'d bus \<Rightarrow> arc \<Rightarrow> bus_error + ram_store \<Rightarrow> 'd bus \<times> (bus_error + unit)" where
  "stored b s r =
     (case r of Inl e \<Rightarrow> (b, Inl e) | Inr st \<Rightarrow> (b\<lparr>bu_ram := (bu_ram b)(s := st)\<rparr>, Inr ()))"

definition rom_written :: "rom_write \<Rightarrow> bus_error + unit" where
  "rom_written w = (case w of RomIgnore \<Rightarrow> Inr () | RomFault \<Rightarrow> Inl BadAccess)"

definition leaf_write ::
  "'d devices \<Rightarrow> flat_leaf \<Rightarrow> nat \<Rightarrow> u8 list \<Rightarrow> mem_attrs \<Rightarrow> width option \<Rightarrow> 'd bus \<Rightarrow> 'd bus \<times> (bus_error + unit)" where
  "leaf_write devs l rel src attrs w b =
     (if \<not> perms_contains (fl_perms l) PERM_WRITE then (b, Inl Protected)
      else
        let off = leaf_offset_of l rel in
        case leaf_check l off (length src) w attrs of
          Inl e \<Rightarrow> (b, Inl e)
        | Inr _ \<Rightarrow>
            (case fl_target l of
               TRam s \<Rightarrow> stored b s (ram_write_at (bu_ram b s) off src)
             | TRom _ on_write \<Rightarrow> (b, rom_written on_write)
             | TIo ops _ \<Rightarrow> op_write (devs ops) off src attrs b))"

definition leaf_write_value ::
  "'d devices \<Rightarrow> flat_leaf \<Rightarrow> nat \<Rightarrow> width \<Rightarrow> u64 \<Rightarrow> mem_attrs \<Rightarrow> 'd bus \<Rightarrow> 'd bus \<times> (bus_error + unit)" where
  "leaf_write_value devs l rel w v attrs b =
     (if \<not> perms_contains (fl_perms l) PERM_WRITE then (b, Inl Protected)
      else
        let off = leaf_offset_of l rel; order = ac_endian (fl_constraints l) in
        case check_access (fl_constraints l) off w attrs of
          Inl e \<Rightarrow> (b, Inl e)
        | Inr _ \<Rightarrow>
            (case fl_target l of
               TRam s \<Rightarrow> stored b s (ram_write_value (bu_ram b s) off w v order)
             | TRom _ on_write \<Rightarrow> (b, rom_written on_write)
             | TIo ops _ \<Rightarrow>
                 (case endian_store order (replicate (width_bytes w) 0) w v of
                    Inl e \<Rightarrow> (b, Inl e)
                  | Inr buf \<Rightarrow> op_write (devs ops) off buf attrs b)))"

section \<open>An entry\<close>

definition entry_endian :: "flat_entry \<Rightarrow> endian" where
  "entry_endian e =
     (case fe_kind e of
        Single l \<Rightarrow> ac_endian (fl_constraints l)
      | Combine _ [] \<Rightarrow> Little
      | Combine _ (m # _) \<Rightarrow> ac_endian (fl_constraints m))"

definition entry_write_endian :: "flat_entry \<Rightarrow> endian" where
  "entry_write_endian e =
     (case fe_write_to e of Some l \<Rightarrow> ac_endian (fl_constraints l) | None \<Rightarrow> entry_endian e)"

definition entry_drives_data_bus :: "flat_entry \<Rightarrow> bool" where
  "entry_drives_data_bus e =
     (case fe_kind e of
        Single l \<Rightarrow> ac_drives_data_bus (fl_constraints l)
      | Combine _ [] \<Rightarrow> True
      | Combine _ (m # _) \<Rightarrow> ac_drives_data_bus (fl_constraints m))"

definition entry_read_run_len :: "flat_entry \<Rightarrow> nat \<Rightarrow> nat" where
  "entry_read_run_len e rel =
     min (fe_len e - rel)
       (case fe_kind e of
          Single l \<Rightarrow> leaf_run_len l rel
        | Combine _ [] \<Rightarrow> two64 - 1
        | Combine _ (m # ms) \<Rightarrow> fold (\<lambda>m n. min n (leaf_run_len m rel)) ms (leaf_run_len m rel))"

definition entry_write_run_len :: "flat_entry \<Rightarrow> nat \<Rightarrow> nat" where
  "entry_write_run_len e rel =
     (case fe_write_to e of
        Some l \<Rightarrow> min (fe_len e - rel) (leaf_run_len l rel)
      | None \<Rightarrow> entry_read_run_len e rel)"

definition entry_run_len :: "flat_entry \<Rightarrow> nat \<Rightarrow> nat" where
  "entry_run_len e rel = min (entry_read_run_len e rel) (entry_write_run_len e rel)"

text \<open>A borrowed member with the offset its atomic holds now.\<close>

definition member_now :: "'d bus \<Rightarrow> nat \<Rightarrow> nat \<Rightarrow> flat_leaf \<Rightarrow> flat_leaf" where
  "member_now b i k m =
     (case fe_kind (bus_entries b ! i) of
        Combine _ ms \<Rightarrow> m\<lparr>fl_offset := fl_offset (ms ! k)\<rparr>
      | Single _ \<Rightarrow> m)"

definition merge_byte :: "combine_policy \<Rightarrow> u8 \<Rightarrow> u8 \<Rightarrow> u8" where
  "merge_byte policy d s = (case policy of WiredAnd \<Rightarrow> d AND s | _ \<Rightarrow> d OR s)"

definition first_error :: "bus_error option \<Rightarrow> bus_error \<Rightarrow> bus_error option" where
  "first_error first e = (case first of Some _ \<Rightarrow> first | None \<Rightarrow> Some e)"

text \<open>The members not read yet, the bytes merged so far, the scratch buffer and the two counters of the loop.\<close>

fun combine_read ::
  "'d devices \<Rightarrow> nat \<Rightarrow> nat \<Rightarrow> mem_attrs \<Rightarrow> width option \<Rightarrow> combine_policy \<Rightarrow> (nat \<times> flat_leaf) list \<Rightarrow>
    u8 list \<Rightarrow> u8 list \<Rightarrow> nat \<Rightarrow> bus_error option \<Rightarrow> 'd bus \<Rightarrow>
    'd bus \<times> u8 list \<times> (bus_error + (nat \<times> bus_error option))" where
  "combine_read devs i rel attrs w policy [] dst scratch responders first b = (b, dst, Inr (responders, first))"
| "combine_read devs i rel attrs w policy ((k, m) # ms) dst scratch responders first b =
     (case leaf_read devs (member_now b i k m) rel scratch attrs w b of
        (b', scratch', Inr _) \<Rightarrow>
          combine_read devs i rel attrs w policy ms (map2 (merge_byte policy) dst scratch') scratch' (Suc responders) first b'
      | (b', scratch', Inl e) \<Rightarrow>
          if e = Retry \<and> 0 < responders then (b', dst, Inl BadAccess)
          else combine_read devs i rel attrs w policy ms dst scratch' responders (first_error first e) b')"

definition count_conflict :: "'d bus \<Rightarrow> nat \<Rightarrow> 'd bus" where
  "count_conflict b i =
     (let s = bu_space b; t = sp_topo s; e = t_flat t ! i in
      b\<lparr>bu_space := s\<lparr>sp_topo := t\<lparr>t_flat := (t_flat t)[i := e\<lparr>fe_conflicts := wrapping_add64 (fe_conflicts e) 1\<rparr>]\<rparr>\<rparr>\<rparr>)"

definition entry_read ::
  "'d devices \<Rightarrow> nat \<Rightarrow> nat \<Rightarrow> u8 list \<Rightarrow> mem_attrs \<Rightarrow> width option \<Rightarrow> 'd bus \<Rightarrow> 'd bus \<times> u8 list \<times> (bus_error + unit)" where
  "entry_read devs i rel dst attrs w b =
     (case fe_kind (bus_entries b ! i) of
        Single l \<Rightarrow> leaf_read devs l rel dst attrs w b
      | Combine policy ms \<Rightarrow>
          let fill = (case policy of WiredAnd \<Rightarrow> 0xff | _ \<Rightarrow> 0); n = length dst in
          case combine_read devs i rel attrs w policy (enumerate 0 ms) (replicate n fill) (replicate n 0) 0 None b of
            (b', dst', Inl e) \<Rightarrow> (b', dst', Inl e)
          | (b', dst', Inr (responders, first)) \<Rightarrow>
              if responders = 0 then (b', dst', Inl (case first of Some e \<Rightarrow> e | None \<Rightarrow> Unassigned))
              else if 1 < responders \<and> policy = Conflict then (count_conflict b' i, dst', Inr ())
              else (b', dst', Inr ()))"

definition entry_read_value ::
  "'d devices \<Rightarrow> nat \<Rightarrow> nat \<Rightarrow> width \<Rightarrow> mem_attrs \<Rightarrow> 'd bus \<Rightarrow> 'd bus \<times> (bus_error + u64)" where
  "entry_read_value devs i rel w attrs b =
     (case fe_kind (bus_entries b ! i) of
        Single l \<Rightarrow> leaf_read_value devs l rel w attrs b
      | Combine _ _ \<Rightarrow>
          (case entry_read devs i rel (replicate (width_bytes w) 0) attrs (Some w) b of
             (b', buf, r) \<Rightarrow> (b', rbind r (\<lambda>_. endian_load (entry_endian (bus_entries b ! i)) buf w))))"

fun combine_write ::
  "'d devices \<Rightarrow> nat \<Rightarrow> nat \<Rightarrow> mem_attrs \<Rightarrow> width option \<Rightarrow> u8 list \<Rightarrow> (nat \<times> flat_leaf) list \<Rightarrow>
    nat \<Rightarrow> bus_error option \<Rightarrow> 'd bus \<Rightarrow> 'd bus \<times> (bus_error + unit)" where
  "combine_write devs i rel attrs w src [] accepted first b =
     (b, if accepted = 0 then Inl (case first of Some e \<Rightarrow> e | None \<Rightarrow> Unassigned) else Inr ())"
| "combine_write devs i rel attrs w src ((k, m) # ms) accepted first b =
     (case leaf_write devs (member_now b i k m) rel src attrs w b of
        (b', Inr _) \<Rightarrow> combine_write devs i rel attrs w src ms (Suc accepted) first b'
      | (b', Inl e) \<Rightarrow>
          if e = Retry \<and> 0 < accepted then (b', Inl BadAccess)
          else combine_write devs i rel attrs w src ms accepted (first_error first e) b')"

definition entry_write ::
  "'d devices \<Rightarrow> nat \<Rightarrow> nat \<Rightarrow> u8 list \<Rightarrow> mem_attrs \<Rightarrow> width option \<Rightarrow> 'd bus \<Rightarrow> 'd bus \<times> (bus_error + unit)" where
  "entry_write devs i rel src attrs w b =
     (let e = bus_entries b ! i in
      case fe_write_to e of
        Some l \<Rightarrow> leaf_write devs l rel src attrs w b
      | None \<Rightarrow>
          (case fe_kind e of
             Single l \<Rightarrow> leaf_write devs l rel src attrs w b
           | Combine _ ms \<Rightarrow> combine_write devs i rel attrs w src (enumerate 0 ms) 0 None b))"

definition entry_write_value ::
  "'d devices \<Rightarrow> nat \<Rightarrow> nat \<Rightarrow> width \<Rightarrow> u64 \<Rightarrow> mem_attrs \<Rightarrow> 'd bus \<Rightarrow> 'd bus \<times> (bus_error + unit)" where
  "entry_write_value devs i rel w v attrs b =
     (let e = bus_entries b ! i;
          single = (case fe_write_to e of
                      Some l \<Rightarrow> Some l
                    | None \<Rightarrow> (case fe_kind e of Single l \<Rightarrow> Some l | Combine _ _ \<Rightarrow> None))
      in case single of
           Some l \<Rightarrow> leaf_write_value devs l rel w v attrs b
         | None \<Rightarrow>
             (case endian_store (entry_endian e) (replicate (width_bytes w) 0) w v of
                Inl err \<Rightarrow> (b, Inl err)
              | Inr buf \<Rightarrow> entry_write devs i rel buf attrs (Some w) b))"

section \<open>Where nothing answers\<close>

definition UNASSIGNED_PAGES_KEPT :: nat where
  "UNASSIGNED_PAGES_KEPT = 1024"

text \<open>\<open>note_unassigned\<close>; the tally of one page is a natural number.\<close>

definition note_unassigned :: "nat \<Rightarrow> bool \<Rightarrow> mem_attrs \<Rightarrow> 'd bus \<Rightarrow> 'd bus" where
  "note_unassigned addr is_write attrs b =
     (if \<not> up_log (sp_unassigned (bu_space b)) \<or> ma_debug attrs then b
      else
        let l = bu_log b;
            page = addr - addr mod 0x1000;
            pages = (case bmap_get (ul_pages l) page of
                       Some n \<Rightarrow> bmap_insert page (n + 1) (ul_pages l)
                     | None \<Rightarrow>
                         if length (ul_pages l) < UNASSIGNED_PAGES_KEPT then bmap_insert page 1 (ul_pages l)
                         else ul_pages l)
        in b\<lparr>bu_log := \<lparr>ul_count = wrapping_add64 (ul_count l) 1, ul_last = addr, ul_last_write = is_write,
                         ul_pages = pages\<rparr>\<rparr>)"

definition unassigned_read ::
  "nat \<Rightarrow> u8 list \<Rightarrow> mem_attrs \<Rightarrow> 'd bus \<Rightarrow> 'd bus \<times> u8 list \<times> (bus_error + unit)" where
  "unassigned_read addr dst attrs b =
     (let b' = note_unassigned addr False attrs b in
      case up_action (sp_unassigned (bu_space b)) of
        UFault \<Rightarrow> (b', dst, Inl Unassigned)
      | UReadAsOnes \<Rightarrow> (b', replicate (length dst) 0xff, Inr ())
      | UReadAsZeros \<Rightarrow> (b', replicate (length dst) 0, Inr ())
      | UOpenBus \<Rightarrow> (b', replicate (length dst) (ma_bus attrs), Inr ()))"

definition unassigned_write :: "nat \<Rightarrow> mem_attrs \<Rightarrow> 'd bus \<Rightarrow> 'd bus \<times> (bus_error + unit)" where
  "unassigned_write addr attrs b =
     (let b' = note_unassigned addr True attrs b in
      case up_action (sp_unassigned (bu_space b)) of
        UFault \<Rightarrow> (b', Inl Unassigned)
      | _ \<Rightarrow> (b', Inr ()))"

definition gap_len :: "flat_entry list \<Rightarrow> nat \<Rightarrow> nat \<Rightarrow> nat" where
  "gap_len es addr most =
     (case nth_opt es (length (takeWhile (\<lambda>e. fe_start e \<le> addr) es)) of
        Some e \<Rightarrow> min (fe_start e - addr) most
      | None \<Rightarrow> most)"

section \<open>A view\<close>

definition endian_at :: "'d bus \<Rightarrow> nat \<Rightarrow> endian" where
  "endian_at b addr =
     (case bus_locate b addr of
        Some i \<Rightarrow> entry_endian (bus_entries b ! i)
      | None \<Rightarrow> sp_endian (bu_space b))"

text \<open>
  One turn of the loop of \<open>read_span_driven\<close>: how many bytes, the byte order and
  the driven flag after it, and what the run returned. The loop itself ends in
  every well-formed view (\<open>read_loop_total\<close>); otherwise it has no value.
\<close>

definition read_run ::
  "'d devices \<Rightarrow> nat \<Rightarrow> mem_attrs \<Rightarrow> width option \<Rightarrow> nat \<Rightarrow> endian option \<Rightarrow> bool \<Rightarrow> u8 list \<Rightarrow> 'd bus \<Rightarrow>
    nat \<times> endian option \<times> bool \<times> 'd bus \<times> u8 list \<times> (bus_error + unit)" where
  "read_run devs addr attrs w don order driven dst b =
     (let a = addr + don; total = length dst; remaining = total - don in
      case bus_locate b a of
        Some i \<Rightarrow>
          let e = bus_entries b ! i; rel = a - fe_start e; n = min (entry_read_run_len e rel) remaining in
          (n, Some (case order of Some x \<Rightarrow> x | None \<Rightarrow> entry_endian e), driven \<and> entry_drives_data_bus e,
           entry_read devs i rel (take n (drop don dst)) attrs (if n = total then w else None) b)
      | None \<Rightarrow>
          let n = gap_len (bus_entries b) a remaining in
          (n, order, False, unassigned_read a (take n (drop don dst)) attrs b))"

definition late_error :: "bool \<Rightarrow> bus_error \<Rightarrow> bus_error" where
  "late_error committed e = (if e = Retry \<and> committed then BadAccess else e)"

partial_function (option) read_loop ::
  "'d devices \<Rightarrow> nat \<Rightarrow> mem_attrs \<Rightarrow> width option \<Rightarrow> nat \<Rightarrow> bool \<Rightarrow> endian option \<Rightarrow> bool \<Rightarrow> u8 list \<Rightarrow> 'd bus \<Rightarrow>
    ('d bus \<times> u8 list \<times> bool \<times> (bus_error + endian)) option" where
  "read_loop devs addr attrs w don committed order driven dst b =
     (if length dst \<le> don
      then Some (b, dst, driven, Inr (case order of Some x \<Rightarrow> x | None \<Rightarrow> sp_endian (bu_space b)))
      else
        (case read_run devs addr attrs w don order driven dst b of
           (n, order', driven', b', piece, Inl e) \<Rightarrow>
             Some (b', put_bytes dst don piece, driven', Inl (late_error committed e))
         | (n, order', driven', b', piece, Inr _) \<Rightarrow>
             read_loop devs addr attrs w (don + n) True order' driven' (put_bytes dst don piece) b'))"

definition read_span_driven ::
  "'d devices \<Rightarrow> nat \<Rightarrow> u8 list \<Rightarrow> mem_attrs \<Rightarrow> width option \<Rightarrow> bool \<Rightarrow> 'd bus \<Rightarrow>
    ('d bus \<times> u8 list \<times> bool \<times> (bus_error + endian)) option" where
  "read_span_driven devs addr dst attrs w driven b =
     (if length dst = 0 then Some (b, dst, driven, Inr (sp_endian (bu_space b)))
      else if checked_u64 (addr + (length dst - 1)) = None then Some (b, dst, driven, Inl BadAccess)
      else read_loop devs addr attrs w 0 False None driven dst b)"

definition read_span ::
  "'d devices \<Rightarrow> nat \<Rightarrow> u8 list \<Rightarrow> mem_attrs \<Rightarrow> width option \<Rightarrow> 'd bus \<Rightarrow>
    ('d bus \<times> u8 list \<times> (bus_error + endian)) option" where
  "read_span devs addr dst attrs w b =
     map_option (\<lambda>(b', dst', _, r). (b', dst', r)) (read_span_driven devs addr dst attrs w True b)"

definition view_read :: "'d devices \<Rightarrow> nat \<Rightarrow> width \<Rightarrow> mem_attrs \<Rightarrow> 'd bus \<Rightarrow> ('d bus \<times> (bus_error + u64)) option" where
  "view_read devs addr w attrs b =
     (let general = map_option (\<lambda>(b', buf, r). (b', rbind r (\<lambda>order. endian_load order buf w)))
                      (read_span devs addr (replicate (width_bytes w) 0) attrs (Some w) b)
      in case bus_locate b addr of
           Some i \<Rightarrow>
             let e = bus_entries b ! i; rel = addr - fe_start e in
             if width_bytes w \<le> entry_read_run_len e rel then Some (entry_read_value devs i rel w attrs b)
             else general
         | None \<Rightarrow> general)"

definition view_read_driven ::
  "'d devices \<Rightarrow> nat \<Rightarrow> width \<Rightarrow> mem_attrs \<Rightarrow> 'd bus \<Rightarrow> ('d bus \<times> (bus_error + (u64 \<times> bool))) option" where
  "view_read_driven devs addr w attrs b =
     map_option (\<lambda>(b', buf, driven, r). (b', rbind r (\<lambda>order. rbind (endian_load order buf w) (\<lambda>v. Inr (v, driven)))))
       (read_span_driven devs addr (replicate (width_bytes w) 0) attrs (Some w) True b)"

definition view_read_bytes ::
  "'d devices \<Rightarrow> nat \<Rightarrow> u8 list \<Rightarrow> mem_attrs \<Rightarrow> 'd bus \<Rightarrow> ('d bus \<times> u8 list \<times> (bus_error + unit)) option" where
  "view_read_bytes devs addr dst attrs b =
     map_option (\<lambda>(b', dst', r). (b', dst', rbind r (\<lambda>_. Inr ()))) (read_span devs addr dst attrs None b)"

definition write_run ::
  "'d devices \<Rightarrow> nat \<Rightarrow> mem_attrs \<Rightarrow> width option \<Rightarrow> nat \<Rightarrow> u8 list \<Rightarrow> 'd bus \<Rightarrow> nat \<times> 'd bus \<times> (bus_error + unit)" where
  "write_run devs addr attrs w don src b =
     (let a = addr + don; total = length src; remaining = total - don in
      case bus_locate b a of
        Some i \<Rightarrow>
          let e = bus_entries b ! i; rel = a - fe_start e; n = min (entry_write_run_len e rel) remaining in
          (n, entry_write devs i rel (take n (drop don src)) attrs (if n = total then w else None) b)
      | None \<Rightarrow> (gap_len (bus_entries b) a remaining, unassigned_write a attrs b))"

partial_function (option) transfer ::
  "'d devices \<Rightarrow> nat \<Rightarrow> mem_attrs \<Rightarrow> width option \<Rightarrow> nat \<Rightarrow> bool \<Rightarrow> u8 list \<Rightarrow> 'd bus \<Rightarrow>
    ('d bus \<times> (bus_error + unit)) option" where
  "transfer devs addr attrs w don committed src b =
     (if length src \<le> don then Some (b, Inr ())
      else
        (case write_run devs addr attrs w don src b of
           (n, b', Inl e) \<Rightarrow> Some (b', Inl (late_error committed e))
         | (n, b', Inr _) \<Rightarrow> transfer devs addr attrs w (don + n) True src b'))"

definition monitor_told :: "nat \<Rightarrow> nat \<Rightarrow> 'd bus \<Rightarrow> 'd bus" where
  "monitor_told addr bytes b =
     b\<lparr>bu_monitor := snd (run_prog (note_store (of_nat addr) (of_nat bytes) (Ret True)) (bu_monitor b))\<rparr>"

definition write_span ::
  "'d devices \<Rightarrow> nat \<Rightarrow> u8 list \<Rightarrow> mem_attrs \<Rightarrow> width option \<Rightarrow> 'd bus \<Rightarrow> ('d bus \<times> (bus_error + unit)) option" where
  "write_span devs addr src attrs w b =
     (let total = length src in
      if total = 0 then Some (b, Inr ())
      else if checked_u64 (addr + (total - 1)) = None then Some (b, Inl BadAccess)
      else if ma_debug attrs then transfer devs addr attrs w 0 False src b
      else map_option (\<lambda>(b', r). (monitor_told addr total b', r))
             (transfer devs addr attrs w 0 False src (monitor_told addr total b)))"

definition write_order :: "'d bus \<Rightarrow> nat \<Rightarrow> endian" where
  "write_order b addr =
     (case bus_locate b addr of
        Some i \<Rightarrow> entry_write_endian (bus_entries b ! i)
      | None \<Rightarrow> sp_endian (bu_space b))"

definition view_write ::
  "'d devices \<Rightarrow> nat \<Rightarrow> width \<Rightarrow> u64 \<Rightarrow> mem_attrs \<Rightarrow> 'd bus \<Rightarrow> ('d bus \<times> (bus_error + unit)) option" where
  "view_write devs addr w v attrs b =
     (let total = width_bytes w;
          general = (case endian_store (write_order b addr) (replicate total 0) w v of
                       Inl e \<Rightarrow> Some (b, Inl e)
                     | Inr buf \<Rightarrow> write_span devs addr buf attrs (Some w) b)
      in case bus_locate b addr of
           Some i \<Rightarrow>
             let e = bus_entries b ! i; rel = addr - fe_start e in
             if total \<le> entry_write_run_len e rel
             then if ma_debug attrs then Some (entry_write_value devs i rel w v attrs b)
                  else (case entry_write_value devs i rel w v attrs (monitor_told addr total b) of
                          (b', r) \<Rightarrow> Some (monitor_told addr total b', r))
             else general
         | None \<Rightarrow> general)"

definition view_write_bytes ::
  "'d devices \<Rightarrow> nat \<Rightarrow> u8 list \<Rightarrow> mem_attrs \<Rightarrow> 'd bus \<Rightarrow> ('d bus \<times> (bus_error + unit)) option" where
  "view_write_bytes devs addr src attrs b = write_span devs addr src attrs None b"

text \<open>
  The same through \<open>AddressSpace\<close>, which takes the read lock for the call: while
  a retopology holds it (\<open>held\<close>) nothing has happened and the answer is \<open>Retry\<close>.
\<close>

definition space_read ::
  "bool \<Rightarrow> 'd devices \<Rightarrow> nat \<Rightarrow> width \<Rightarrow> mem_attrs \<Rightarrow> 'd bus \<Rightarrow> ('d bus \<times> (bus_error + u64)) option" where
  "space_read held devs addr w attrs b = (if held then Some (b, Inl Retry) else view_read devs addr w attrs b)"

definition space_read_driven ::
  "bool \<Rightarrow> 'd devices \<Rightarrow> nat \<Rightarrow> width \<Rightarrow> mem_attrs \<Rightarrow> 'd bus \<Rightarrow> ('d bus \<times> (bus_error + (u64 \<times> bool))) option" where
  "space_read_driven held devs addr w attrs b =
     (if held then Some (b, Inl Retry) else view_read_driven devs addr w attrs b)"

definition space_write ::
  "bool \<Rightarrow> 'd devices \<Rightarrow> nat \<Rightarrow> width \<Rightarrow> u64 \<Rightarrow> mem_attrs \<Rightarrow> 'd bus \<Rightarrow> ('d bus \<times> (bus_error + unit)) option" where
  "space_write held devs addr w v attrs b =
     (if held then Some (b, Inl Retry) else view_write devs addr w v attrs b)"

definition space_read_bytes ::
  "bool \<Rightarrow> 'd devices \<Rightarrow> nat \<Rightarrow> u8 list \<Rightarrow> mem_attrs \<Rightarrow> 'd bus \<Rightarrow> ('d bus \<times> u8 list \<times> (bus_error + unit)) option" where
  "space_read_bytes held devs addr dst attrs b =
     (if held then Some (b, dst, Inl Retry) else view_read_bytes devs addr dst attrs b)"

definition space_write_bytes ::
  "bool \<Rightarrow> 'd devices \<Rightarrow> nat \<Rightarrow> u8 list \<Rightarrow> mem_attrs \<Rightarrow> 'd bus \<Rightarrow> ('d bus \<times> (bus_error + unit)) option" where
  "space_write_bytes held devs addr src attrs b =
     (if held then Some (b, Inl Retry) else view_write_bytes devs addr src attrs b)"

end
