(* ===== verification/Space_Bus.thy ===== *)
theory Space_Bus
  imports Space_Access
begin

text \<open>
  What an access through the address space does: every access of a well-formed
  view ends and keeps it well formed (\<open>access_total\<close>), the value paths that
  find their entry once are the general ones (\<open>value_read_general\<close>,
  \<open>value_write_general\<close>), a refused access that may be reissued changed nothing
  (\<open>retry_changes_nothing\<close>) and a debug access leaves no trace but the
  conflict counter (\<open>debug_read_quiet\<close>).
\<close>

section \<open>Well-formed buses\<close>

definition view_ok :: "address_space \<Rightarrow> bool" where
  "view_ok s \<longleftrightarrow> entries_ok (space_size s) (t_flat (sp_topo s)) \<and> space_size s < two64 \<and>
     (\<forall>addr. locate (t_flat (sp_topo s)) (t_dispatch (sp_topo s)) addr = flat_find (t_flat (sp_topo s)) addr)"

definition bus_ok :: "'d bus \<Rightarrow> bool" where
  "bus_ok b \<longleftrightarrow> view_ok (bu_space b) \<and> (\<forall>s. ram_wf (bu_ram b s))"

text \<open>What is asked of devices: they fill the buffer they are given and leave the bus well formed.\<close>

definition devices_ok :: "'d devices \<Rightarrow> bool" where
  "devices_ok devs \<longleftrightarrow>
     (\<forall>ops off dst attrs b b' dst' r. bus_ok b \<longrightarrow> op_read (devs ops) off dst attrs b = (b', dst', r) \<longrightarrow>
        bus_ok b' \<and> length dst' = length dst) \<and>
     (\<forall>ops off src attrs b b' r. bus_ok b \<longrightarrow> op_write (devs ops) off src attrs b = (b', r) \<longrightarrow> bus_ok b')"

lemma devices_read:
  "devices_ok devs \<Longrightarrow> bus_ok b \<Longrightarrow> op_read (devs ops) off dst attrs b = (b', dst', r) \<Longrightarrow> bus_ok b' \<and> length dst' = length dst"
  unfolding devices_ok_def by blast

lemma devices_write:
  "devices_ok devs \<Longrightarrow> bus_ok b \<Longrightarrow> op_write (devs ops) off src attrs b = (b', r) \<Longrightarrow> bus_ok b'"
  unfolding devices_ok_def by blast

lemma reach_view_ok: "space_reach c s \<Longrightarrow> view_ok s"
  using reach_guarded [of c s] current_entries by (auto simp: view_ok_def)

lemma bus_locate_Some:
  assumes "bus_ok b" "bus_locate b a = Some i"
  shows "i < length (bus_entries b)" "fe_start (bus_entries b ! i) \<le> a"
    "a < fe_start (bus_entries b ! i) + fe_len (bus_entries b ! i)"
    "fe_start (bus_entries b ! i) + fe_len (bus_entries b ! i) < two64"
proof -
  have ok: "entries_ok (space_size (bu_space b)) (bus_entries b)" "space_size (bu_space b) < two64"
    and f: "flat_find (bus_entries b) a = Some i"
    using assms by (auto simp: bus_ok_def view_ok_def bus_locate_def bus_entries_def)
  show *: "i < length (bus_entries b)" "fe_start (bus_entries b ! i) \<le> a"
    "a < fe_start (bus_entries b ! i) + fe_len (bus_entries b ! i)"
    using f by (simp_all add: flat_find_iff [OF ok])
  show "fe_start (bus_entries b ! i) + fe_len (bus_entries b ! i) < two64"
    using ok *(1) nth_mem by (fastforce simp: entries_ok_def)
qed

lemma bus_locate_None:
  assumes "bus_ok b" "bus_locate b a = None" "i < length (bus_entries b)"
  shows "\<not> (fe_start (bus_entries b ! i) \<le> a \<and> a < fe_start (bus_entries b ! i) + fe_len (bus_entries b ! i))"
proof -
  have ok: "entries_ok (space_size (bu_space b)) (bus_entries b)" "space_size (bu_space b) < two64"
    and f: "flat_find (bus_entries b) a = None"
    using assms by (auto simp: bus_ok_def view_ok_def bus_locate_def bus_entries_def)
  show ?thesis using f assms(3) by (simp add: flat_find_None [OF ok])
qed

section \<open>Runs make progress\<close>

lemma leaf_run_positive [simp]: "0 < leaf_run_len l rel"
  by (simp add: leaf_run_len_def)

lemma fold_min_positive: "0 < (n :: nat) \<Longrightarrow> 0 < fold (\<lambda>m n. min n (leaf_run_len m rel)) ms n"
  by (induction ms arbitrary: n) simp_all

lemma read_run_positive: "rel < fe_len e \<Longrightarrow> 0 < entry_read_run_len e rel"
  by (auto simp: entry_read_run_len_def fold_min_positive split: entry_kind.split list.split)

lemma write_run_positive: "rel < fe_len e \<Longrightarrow> 0 < entry_write_run_len e rel"
  by (simp add: entry_write_run_len_def read_run_positive split: option.split)

lemma run_len_bound: "entry_read_run_len e rel \<le> fe_len e - rel" "entry_write_run_len e rel \<le> fe_len e - rel"
  by (simp_all add: entry_write_run_len_def entry_read_run_len_def split: option.split)

lemma gap_len_le: "gap_len es a n \<le> n"
  by (simp add: gap_len_def split: option.split)

lemma gap_len_positive:
  assumes "0 < n"
  shows "0 < gap_len es a n"
proof (cases "nth_opt es (length (takeWhile (\<lambda>e. fe_start e \<le> a) es))")
  case (Some e)
  then have k: "length (takeWhile (\<lambda>e. fe_start e \<le> a) es) < length es" "e = es ! length (takeWhile (\<lambda>e. fe_start e \<le> a) es)"
    by (auto simp: nth_opt_def split: if_splits)
  then have "a < fe_start e" using nth_length_takeWhile [OF k(1)] by simp
  then show ?thesis using Some assms by (simp add: gap_len_def)
qed (simp add: gap_len_def assms)

section \<open>The bus stays well formed\<close>

lemma length_ram_read: "ram_wf s \<Longrightarrow> ram_read_at s off n = Inr bs \<Longrightarrow> length bs = n"
  by (auto simp: ram_read_at_def rbind_eq_Inr ram_range_Inr ram_wf_def)

lemma length_rom_read: "rom_read_at s off n = Inr bs \<Longrightarrow> length bs = n"
  by (auto simp: rom_read_at_def rbind_eq_Inr ok_or_def checked_u64_def split: if_splits option.splits)

lemma leaf_read_ok:
  assumes "devices_ok devs" "bus_ok b" "leaf_read devs l rel dst attrs w b = (b', dst', r)"
  shows "bus_ok b'" "length dst' = length dst"
proof -
  have "bus_ok b' \<and> length dst' = length dst"
  proof (cases "fl_target l")
    case (TIo ops k)
    then show ?thesis using assms(2,3) devices_read [OF assms(1,2), of ops]
      by (auto simp: leaf_read_def Let_def split: if_splits sum.splits)
  qed (use assms in \<open>auto simp: leaf_read_def Let_def filled_def bus_ok_def
         dest: length_ram_read [rotated] length_rom_read split: if_splits sum.splits\<close>)
  then show "bus_ok b'" "length dst' = length dst" by auto
qed

lemma leaf_write_ok:
  assumes "devices_ok devs" "bus_ok b" "leaf_write devs l rel src attrs w b = (b', r)"
  shows "bus_ok b'"
proof (cases "fl_target l")
  case (TIo ops k)
  then show ?thesis using assms(2,3) devices_write [OF assms(1,2), of ops]
    by (auto simp: leaf_write_def Let_def split: if_splits sum.splits)
qed (use assms in \<open>auto simp: leaf_write_def Let_def stored_def bus_ok_def
       dest: ram_write_at_Inr(1) [rotated] split: if_splits sum.splits\<close>)

lemma combine_read_ok:
  "devices_ok devs \<Longrightarrow> bus_ok b \<Longrightarrow> length scratch = length dst \<Longrightarrow>
     combine_read devs i rel attrs w policy ms dst scratch responders first b = (b', dst', r) \<Longrightarrow>
     bus_ok b' \<and> length dst' = length dst"
proof (induction devs i rel attrs w policy ms dst scratch responders first b rule: combine_read.induct)
  case (2 devs i rel attrs w policy k m ms dst scratch responders first b)
  obtain b1 s1 r1 where run: "leaf_read devs (member_now b i k m) rel scratch attrs w b = (b1, s1, r1)" by (metis prod_cases3)
  note ok = leaf_read_ok [OF 2(3,4) run]
  show ?case
  proof (cases r1)
    case (Inl e)
    then show ?thesis using 2 run ok by (cases "e = Retry \<and> 0 < responders") auto
  next
    case (Inr u)
    then show ?thesis using 2 run ok by auto
  qed
qed simp

lemma combine_write_ok:
  "devices_ok devs \<Longrightarrow> bus_ok b \<Longrightarrow> combine_write devs i rel attrs w src ms accepted first b = (b', r) \<Longrightarrow> bus_ok b'"
proof (induction devs i rel attrs w src ms accepted first b rule: combine_write.induct)
  case (2 devs i rel attrs w src k m ms accepted first b)
  obtain b1 r1 where run: "leaf_write devs (member_now b i k m) rel src attrs w b = (b1, r1)" by fastforce
  note ok = leaf_write_ok [OF 2(3,4) run]
  show ?case
  proof (cases r1)
    case (Inl e)
    then show ?thesis using 2 run ok by (cases "e = Retry \<and> 0 < accepted") auto
  next
    case (Inr u)
    then show ?thesis using 2 run ok by auto
  qed
qed simp

lemma flat_find_range:
  assumes "map (\<lambda>e. (fe_start e, fe_len e)) es' = map (\<lambda>e. (fe_start e, fe_len e)) es"
  shows "flat_find es' a = flat_find es a"
proof -
  have len: "length es' = length es" using assms by (metis length_map)
  have nth: "fe_start (es' ! i) = fe_start (es ! i) \<and> fe_len (es' ! i) = fe_len (es ! i)" if "i < length es" for i
    using arg_cong [OF assms, of "\<lambda>xs. xs ! i"] that len by simp
  define k where "k = length (takeWhile (\<lambda>e. fe_start e \<le> a) es)"
  have tw: "length (takeWhile (\<lambda>e. fe_start e \<le> a) xs) = length (takeWhile (\<lambda>x. x \<le> a) (map fe_start xs))" for xs
    by (simp add: takeWhile_map comp_def)
  have "map fe_start es' = map fe_start es"
    using arg_cong [OF assms, of "map fst"] by (simp add: comp_def)
  then have k: "length (takeWhile (\<lambda>e. fe_start e \<le> a) es') = k" by (simp only: tw k_def)
  have "k \<le> length es" unfolding k_def by (rule length_takeWhile_le)
  then show ?thesis
    using nth [of "k - 1"] by (cases "k = 0") (simp_all add: flat_find_def entry_end_def Let_def k k_def [symmetric])
qed

lemma count_conflict_ok:
  assumes "bus_ok b"
  shows "bus_ok (count_conflict b i)"
proof (cases "i < length (bus_entries b)")
  case True
  let ?es = "bus_entries b" and ?es' = "bus_entries (count_conflict b i)"
  have es': "?es' = ?es[i := (?es ! i)\<lparr>fe_conflicts := wrapping_add64 (fe_conflicts (?es ! i)) 1\<rparr>]"
    by (simp add: count_conflict_def bus_entries_def Let_def)
  have same: "map (\<lambda>e. (fe_start e, fe_len e)) ?es' = map (\<lambda>e. (fe_start e, fe_len e)) ?es"
    unfolding es' using True by (simp add: map_update list_update_same_conv)
  have ok: "entries_ok n es' \<longleftrightarrow> entries_ok n es"
    if "map (\<lambda>e. (fe_start e, fe_len e)) es' = map (\<lambda>e. (fe_start e, fe_len e)) es" for n es es'
  proof -
    let ?P = "\<lambda>es. sorted_wrt (\<lambda>x y. fst x + snd x \<le> fst y) es \<and> (\<forall>x\<in>set es. 0 < snd x \<and> fst x + snd x \<le> n)"
    have "entries_ok n es \<longleftrightarrow> ?P (map (\<lambda>e. (fe_start e, fe_len e)) es)" for es
      by (simp add: entries_ok_def sorted_wrt_map)
    then show ?thesis using that by (simp only:)
  qed
  have "locate ?es' d addr = locate ?es d addr" for d addr
    unfolding locate_def flat_find_range [OF same] ..
  moreover have "space_size (bu_space (count_conflict b i)) = space_size (bu_space b)"
    "t_dispatch (sp_topo (bu_space (count_conflict b i))) = t_dispatch (sp_topo (bu_space b))"
    "bu_ram (count_conflict b i) = bu_ram b"
    by (simp_all add: count_conflict_def space_size_def Let_def)
  ultimately show ?thesis
    using assms unfolding bus_ok_def view_ok_def bus_entries_def [symmetric] by (simp only: ok [OF same] flat_find_range [OF same] simp_thms)
next
  case False
  then show ?thesis using assms by (simp add: count_conflict_def bus_entries_def Let_def list_update_beyond)
qed

lemma entry_read_ok:
  assumes "devices_ok devs" "bus_ok b" "entry_read devs i rel dst attrs w b = (b', dst', r)"
  shows "bus_ok b'" "length dst' = length dst"
proof -
  have "bus_ok b' \<and> length dst' = length dst"
  proof (cases "fe_kind (bus_entries b ! i)")
    case (Single l)
    then show ?thesis using assms leaf_read_ok [OF assms(1,2)] by (auto simp: entry_read_def)
  next
    case (Combine policy ms)
    let ?n = "length dst" and ?fill = "case policy of WiredAnd \<Rightarrow> 0xff :: u8 | _ \<Rightarrow> 0"
    obtain b1 d1 r1 where run: "combine_read devs i rel attrs w policy (enumerate 0 ms) (replicate ?n ?fill) (replicate ?n 0) 0 None b = (b1, d1, r1)"
      by (metis prod_cases3)
    then have ok: "bus_ok b1" "length d1 = ?n" using combine_read_ok [OF assms(1,2) _ run] by simp_all
    show ?thesis
      using assms(3) ok count_conflict_ok [OF ok(1)]
      by (cases r1) (auto simp: entry_read_def Combine run Let_def split: if_splits)
  qed
  then show "bus_ok b'" "length dst' = length dst" by auto
qed

lemma entry_write_ok:
  assumes "devices_ok devs" "bus_ok b" "entry_write devs i rel src attrs w b = (b', r)"
  shows "bus_ok b'"
  using assms leaf_write_ok [OF assms(1,2)] combine_write_ok [OF assms(1,2)]
  by (auto simp: entry_write_def Let_def split: option.splits entry_kind.splits)

lemma note_unassigned_ok [simp]: "bus_ok (note_unassigned addr wr attrs b) = bus_ok b"
  by (simp add: note_unassigned_def bus_ok_def Let_def)

lemma unassigned_read_ok:
  "unassigned_read addr dst attrs b = (b', dst', r) \<Longrightarrow> bus_ok b' = bus_ok b \<and> length dst' = length dst"
  by (auto simp: unassigned_read_def Let_def split: unassigned_action.splits)

lemma unassigned_write_ok: "unassigned_write addr attrs b = (b', r) \<Longrightarrow> bus_ok b' = bus_ok b"
  by (auto simp: unassigned_write_def Let_def split: unassigned_action.splits)

lemma monitor_told_simps [simp]:
  "bus_ok (monitor_told addr n b) = bus_ok b" "bus_entries (monitor_told addr n b) = bus_entries b"
  "bus_locate (monitor_told addr n b) = bus_locate b" "bu_ram (monitor_told addr n b) = bu_ram b"
  "bu_space (monitor_told addr n b) = bu_space b"
  by (simp_all add: monitor_told_def bus_ok_def bus_entries_def bus_locate_def fun_eq_iff)

section \<open>Every access ends\<close>

lemma read_run_ok:
  assumes "devices_ok devs" "bus_ok b" "don < length dst"
    and run: "read_run devs addr attrs w don order driven dst b = (n, order', driven', b', piece, r)"
  shows "bus_ok b'" "0 < n" "don + n \<le> length dst" "length piece = n"
proof -
  have "bus_ok b' \<and> 0 < n \<and> don + n \<le> length dst \<and> length piece = n"
  proof (cases "bus_locate b (addr + don)")
    case (Some i)
    note at = bus_locate_Some [OF assms(2) Some]
    let ?e = "bus_entries b ! i"
    have pos: "0 < entry_read_run_len ?e (addr + don - fe_start ?e)" using at by (intro read_run_positive) auto
    have n: "n = min (entry_read_run_len ?e (addr + don - fe_start ?e)) (length dst - don)"
      and e: "entry_read devs i (addr + don - fe_start ?e) (take n (drop don dst)) attrs (if n = length dst then w else None) b = (b', piece, r)"
      using run Some by (auto simp: read_run_def Let_def)
    have "0 < n" "n \<le> length dst - don" unfolding n using pos assms(3) by simp_all
    then show ?thesis using entry_read_ok [OF assms(1,2) e] assms(3) by auto
  next
    case None
    have n: "n = gap_len (bus_entries b) (addr + don) (length dst - don)"
      and u: "unassigned_read (addr + don) (take n (drop don dst)) attrs b = (b', piece, r)"
      using run None by (auto simp: read_run_def Let_def)
    have "0 < n" "n \<le> length dst - don" unfolding n using assms(3) by (simp_all add: gap_len_positive gap_len_le)
    then show ?thesis using unassigned_read_ok [OF u] assms(2,3) by auto
  qed
  then show "bus_ok b'" "0 < n" "don + n \<le> length dst" "length piece = n" by auto
qed

lemma write_run_ok:
  assumes "devices_ok devs" "bus_ok b" "don < length src"
    and run: "write_run devs addr attrs w don src b = (n, b', r)"
  shows "bus_ok b'" "0 < n" "don + n \<le> length src"
proof -
  have "bus_ok b' \<and> 0 < n \<and> don + n \<le> length src"
  proof (cases "bus_locate b (addr + don)")
    case (Some i)
    note at = bus_locate_Some [OF assms(2) Some]
    let ?e = "bus_entries b ! i"
    have pos: "0 < entry_write_run_len ?e (addr + don - fe_start ?e)" using at by (intro write_run_positive) auto
    have n: "n = min (entry_write_run_len ?e (addr + don - fe_start ?e)) (length src - don)"
      and e: "entry_write devs i (addr + don - fe_start ?e) (take n (drop don src)) attrs (if n = length src then w else None) b = (b', r)"
      using run Some by (auto simp: write_run_def Let_def)
    have "0 < n" "n \<le> length src - don" unfolding n using pos assms(3) by simp_all
    then show ?thesis using entry_write_ok [OF assms(1,2) e] assms(3) by auto
  next
    case None
    have n: "n = gap_len (bus_entries b) (addr + don) (length src - don)"
      and u: "unassigned_write (addr + don) attrs b = (b', r)"
      using run None by (auto simp: write_run_def Let_def)
    have "0 < n" "n \<le> length src - don" unfolding n using assms(3) by (simp_all add: gap_len_positive gap_len_le)
    then show ?thesis using unassigned_write_ok [OF u] assms(2,3) by auto
  qed
  then show "bus_ok b'" "0 < n" "don + n \<le> length src" by auto
qed

lemma read_loop_total:
  assumes "devices_ok devs" "bus_ok b"
  shows "\<exists>b' dst' driven' r. read_loop devs addr attrs w don committed order driven dst b = Some (b', dst', driven', r)
           \<and> bus_ok b' \<and> length dst' = length dst"
  using assms(2)
proof (induction "length dst - don" arbitrary: don committed order driven dst b rule: less_induct)
  case less
  show ?case
  proof (cases "don < length dst")
    case False
    then show ?thesis using less(2) by (subst read_loop.simps) simp
  next
    case True
    obtain n order' driven' b' piece r where run: "read_run devs addr attrs w don order driven dst b = (n, order', driven', b', piece, r)"
      by (metis prod_cases6)
    note ok = read_run_ok [OF assms(1) less(2) True run]
    have len: "length (put_bytes dst don piece) = length dst" using ok by simp
    show ?thesis
    proof (cases r)
      case (Inl e)
      then show ?thesis using True run ok len by (subst read_loop.simps) simp
    next
      case (Inr u)
      have "length (put_bytes dst don piece) - (don + n) < length dst - don" using ok len True by simp
      from less(1) [OF this ok(1)] show ?thesis
        using True run Inr len by (subst read_loop.simps) simp
    qed
  qed
qed

lemma transfer_total:
  assumes "devices_ok devs" "bus_ok b"
  shows "\<exists>b' r. transfer devs addr attrs w don committed src b = Some (b', r) \<and> bus_ok b'"
  using assms(2)
proof (induction "length src - don" arbitrary: don committed b rule: less_induct)
  case less
  show ?case
  proof (cases "don < length src")
    case False
    then show ?thesis using less(2) by (subst transfer.simps) simp
  next
    case True
    obtain n b' r where run: "write_run devs addr attrs w don src b = (n, b', r)" by (metis prod_cases3)
    note ok = write_run_ok [OF assms(1) less(2) True run]
    show ?thesis
    proof (cases r)
      case (Inl e)
      then show ?thesis using True run ok by (subst transfer.simps) simp
    next
      case (Inr u)
      have "length src - (don + n) < length src - don" using ok True by simp
      from less(1) [OF this ok(1)] show ?thesis using True run Inr by (subst transfer.simps) simp
    qed
  qed
qed

lemma read_span_driven_total:
  assumes "devices_ok devs" "bus_ok b"
  shows "\<exists>b' dst' driven' r. read_span_driven devs addr dst attrs w driven b = Some (b', dst', driven', r)
           \<and> bus_ok b' \<and> length dst' = length dst"
  using read_loop_total [OF assms] assms(2) by (simp add: read_span_driven_def)

lemma write_span_total:
  assumes "devices_ok devs" "bus_ok b"
  shows "\<exists>b' r. write_span devs addr src attrs w b = Some (b', r) \<and> bus_ok b'"
proof -
  have told: "bus_ok (monitor_told addr (length src) b)" using assms(2) by simp
  from transfer_total [OF assms(1) told, of addr attrs w 0 False src]
  obtain b1 r1 where "transfer devs addr attrs w 0 False src (monitor_told addr (length src) b) = Some (b1, r1)" "bus_ok b1"
    by blast
  then show ?thesis using transfer_total [OF assms, of addr attrs w 0 False src] assms(2)
    by (simp add: write_span_def Let_def)
qed

section \<open>The value paths\<close>

text \<open>A value access in terms of the byte access it replaces.\<close>

lemma leaf_read_value_bytes:
  assumes "\<forall>s. ram_wf (bu_ram b s)"
  shows "leaf_read_value devs l rel w attrs b =
           (case leaf_read devs l rel (replicate (width_bytes w) 0) attrs (Some w) b of
              (b', buf, r) \<Rightarrow> (b', rbind r (\<lambda>_. endian_load (ac_endian (fl_constraints l)) buf w)))"
proof (cases "fl_target l")
  case (TRam s)
  then show ?thesis
    using assms by (simp add: leaf_read_value_def leaf_read_def leaf_check_def filled_def ram_read_value_bytes Let_def split: sum.split)
next
  case (TRom s k)
  then show ?thesis
    by (simp add: leaf_read_value_def leaf_read_def leaf_check_def filled_def rom_read_value_bytes Let_def split: sum.split)
next
  case (TIo ops k)
  then show ?thesis
    by (simp add: leaf_read_value_def leaf_read_def leaf_check_def Let_def split: sum.split)
qed

lemma endian_store_fresh: "endian_store order (replicate (width_bytes w) 0) w v = Inr (store_bytes order (width_bytes w) v)"
  by (simp add: endian_store_def Let_def)

lemma leaf_write_value_bytes:
  "leaf_write_value devs l rel w v attrs b =
     leaf_write devs l rel (store_bytes (ac_endian (fl_constraints l)) (width_bytes w) v) attrs (Some w) b"
  by (cases "fl_target l")
     (simp_all add: leaf_write_value_def leaf_write_def leaf_check_def ram_write_value_bytes endian_store_fresh Let_def split: sum.split)

lemma entry_read_value_bytes:
  assumes "bus_ok b"
  shows "entry_read_value devs i rel w attrs b =
           (case entry_read devs i rel (replicate (width_bytes w) 0) attrs (Some w) b of
              (b', buf, r) \<Rightarrow> (b', rbind r (\<lambda>_. endian_load (entry_endian (bus_entries b ! i)) buf w)))"
proof (cases "fe_kind (bus_entries b ! i)")
  case (Single l)
  have "\<forall>s. ram_wf (bu_ram b s)" using assms by (simp add: bus_ok_def)
  then show ?thesis by (simp add: entry_read_value_def entry_read_def entry_endian_def Single leaf_read_value_bytes)
next
  case (Combine p ms)
  then show ?thesis unfolding entry_read_value_def by simp
qed

lemma entry_write_value_bytes:
  "entry_write_value devs i rel w v attrs b =
     entry_write devs i rel (store_bytes (entry_write_endian (bus_entries b ! i)) (width_bytes w) v) attrs (Some w) b"
  by (cases "fe_write_to (bus_entries b ! i)"; cases "fe_kind (bus_entries b ! i)")
     (simp_all add: entry_write_value_def entry_write_def entry_write_endian_def entry_endian_def leaf_write_value_bytes
        endian_store_fresh Let_def)

lemma width_bytes_positive [simp]: "0 < width_bytes w" "width_bytes w \<noteq> 0"
  by (cases w; simp)+

lemma checked_u64_None [simp]: "checked_u64 n = None \<longleftrightarrow> two64 \<le> n"
  by (simp add: checked_u64_def)

lemma rbind_right [simp]: "rbind r Inr = r"
  by (cases r) auto

text \<open>A run that covers the whole access is the only one.\<close>

lemma read_span_one_run:
  assumes ok: "devices_ok devs" "bus_ok b" and at: "bus_locate b addr = Some i"
    and fits: "0 < length dst" "length dst \<le> entry_read_run_len (bus_entries b ! i) (addr - fe_start (bus_entries b ! i))"
  shows "read_span_driven devs addr dst attrs w driven b =
           (case entry_read devs i (addr - fe_start (bus_entries b ! i)) dst attrs w b of
              (b', dst', r) \<Rightarrow> Some (b', dst', driven \<and> entry_drives_data_bus (bus_entries b ! i),
                                  rbind r (\<lambda>_. Inr (entry_endian (bus_entries b ! i)))))"
proof -
  let ?e = "bus_entries b ! i"
  note loc = bus_locate_Some [OF ok(2) at]
  obtain b' dst' r where e: "entry_read devs i (addr - fe_start ?e) dst attrs w b = (b', dst', r)" by (metis prod_cases3)
  have len: "length dst' = length dst" by (rule entry_read_ok(2) [OF ok e])
  have "length dst \<le> fe_len ?e - (addr - fe_start ?e)" using fits(2) run_len_bound(1) le_trans by blast
  then have "addr + (length dst - 1) < two64" using loc fits(1) by linarith
  then have chk: "checked_u64 (addr + (length dst - 1)) = Some (addr + (length dst - 1))" by (simp add: checked_u64_def)
  have n: "min (entry_read_run_len ?e (addr - fe_start ?e)) (length dst) = length dst" using fits(2) by simp
  have run: "read_run devs addr attrs w 0 None driven dst b =
      (length dst, Some (entry_endian ?e), driven \<and> entry_drives_data_bus ?e, b', dst', r)"
    using at e by (simp add: read_run_def Let_def n)
  have put: "put_bytes dst 0 dst' = dst'" using len by (simp add: put_bytes_def)
  have "read_loop devs addr attrs w 0 False None driven dst b =
      Some (b', dst', driven \<and> entry_drives_data_bus ?e, rbind r (\<lambda>_. Inr (entry_endian ?e)))"
  proof (cases r)
    case (Inl x)
    then show ?thesis using fits(1) by (subst read_loop.simps) (simp add: run put late_error_def)
  next
    case (Inr u)
    then show ?thesis
      using fits(1) len by (subst read_loop.simps) (simp add: run put read_loop.simps [of _ _ _ _ "length dst"])
  qed
  then show ?thesis using fits(1) chk e by (simp add: read_span_driven_def)
qed

lemma write_span_one_run:
  assumes ok: "bus_ok b" and at: "bus_locate b addr = Some i"
    and fits: "0 < length src" "length src \<le> entry_write_run_len (bus_entries b ! i) (addr - fe_start (bus_entries b ! i))"
  shows "transfer devs addr attrs w 0 False src b = Some (entry_write devs i (addr - fe_start (bus_entries b ! i)) src attrs w b)"
    "checked_u64 (addr + (length src - 1)) = Some (addr + (length src - 1))"
proof -
  let ?e = "bus_entries b ! i"
  note loc = bus_locate_Some [OF ok at]
  obtain b' r where e: "entry_write devs i (addr - fe_start ?e) src attrs w b = (b', r)" by fastforce
  have "length src \<le> fe_len ?e - (addr - fe_start ?e)" using fits(2) run_len_bound(2) le_trans by blast
  then have "addr + (length src - 1) < two64" using loc fits(1) by linarith
  then show "checked_u64 (addr + (length src - 1)) = Some (addr + (length src - 1))" by (simp add: checked_u64_def)
  have n: "min (entry_write_run_len ?e (addr - fe_start ?e)) (length src) = length src" using fits(2) by simp
  have run: "write_run devs addr attrs w 0 src b = (length src, b', r)"
    using at e by (simp add: write_run_def Let_def n)
  show "transfer devs addr attrs w 0 False src b = Some (entry_write devs i (addr - fe_start ?e) src attrs w b)"
  proof (cases r)
    case (Inl x)
    then show ?thesis using fits(1) e by (subst transfer.simps) (simp add: run late_error_def)
  next
    case (Inr u)
    then show ?thesis
      using fits(1) e by (subst transfer.simps) (simp add: run transfer.simps [of _ _ _ _ "length src"])
  qed
qed

lemma entry_read_value_ok:
  "devices_ok devs \<Longrightarrow> bus_ok b \<Longrightarrow> entry_read_value devs i rel w attrs b = (b', r) \<Longrightarrow> bus_ok b'"
  using entry_read_ok(1) [of devs b i rel "replicate (width_bytes w) 0" attrs "Some w"]
  by (auto simp: entry_read_value_bytes split: prod.splits)

lemma view_read_driven_form:
  assumes ok: "devices_ok devs" "bus_ok b" and at: "bus_locate b addr = Some i"
    and fits: "width_bytes w \<le> entry_read_run_len (bus_entries b ! i) (addr - fe_start (bus_entries b ! i))"
  shows "read_span_driven devs addr (replicate (width_bytes w) 0) attrs (Some w) True b =
           (case entry_read devs i (addr - fe_start (bus_entries b ! i)) (replicate (width_bytes w) 0) attrs (Some w) b of
              (b', buf, r) \<Rightarrow> Some (b', buf, entry_drives_data_bus (bus_entries b ! i),
                                 rbind r (\<lambda>_. Inr (entry_endian (bus_entries b ! i)))))"
  using read_span_one_run [OF ok at, of "replicate (width_bytes w) 0" attrs "Some w" True] fits by simp

lemma view_read_slow:
  assumes "devices_ok devs" "bus_ok b"
  shows "view_read devs addr w attrs b =
           map_option (\<lambda>(b', r). (b', rbind r (\<lambda>(v, _). Inr v))) (view_read_driven devs addr w attrs b)"
proof -
  have slow: "map_option (\<lambda>(b', buf, r). (b', rbind r (\<lambda>order. endian_load order buf w)))
                (read_span devs addr (replicate (width_bytes w) 0) attrs (Some w) b)
            = map_option (\<lambda>(b', r). (b', rbind r (\<lambda>(v, _). Inr v))) (view_read_driven devs addr w attrs b)"
    by (simp add: read_span_def view_read_driven_def option.map_comp comp_def case_prod_unfold rbind_assoc)
  show ?thesis
  proof (cases "bus_locate b addr")
    case (Some i)
    show ?thesis
    proof (cases "width_bytes w \<le> entry_read_run_len (bus_entries b ! i) (addr - fe_start (bus_entries b ! i))")
      case True
      then show ?thesis
        by (simp add: view_read_def view_read_driven_def view_read_driven_form [OF assms Some True] Some Let_def
              entry_read_value_bytes [OF assms(2)] rbind_assoc split: prod.split)
    qed (simp add: view_read_def Let_def Some slow)
  qed (simp add: view_read_def Let_def slow)
qed

text \<open>
  C18: Reading a value by the path that finds its entry once, and assembles the
  value in the store, returns what the general path returns, which fills a
  buffer run by run, and leaves the same bus: whatever answers the address, in
  either byte order, errors included.
\<close>

theorem value_read_general:
  assumes "devices_ok devs" "bus_ok b"
  shows "view_read devs addr w attrs b =
           map_option (\<lambda>(b', r). (b', rbind r (\<lambda>(v, _). Inr v))) (view_read_driven devs addr w attrs b)"
  by (rule view_read_slow [OF assms])

lemma view_write_slow:
  assumes "bus_ok b"
  shows "view_write devs addr w v attrs b =
           write_span devs addr (store_bytes (write_order b addr) (width_bytes w) v) attrs (Some w) b"
proof (cases "bus_locate b addr")
  case (Some i)
  let ?src = "store_bytes (write_order b addr) (width_bytes w) v"
  show ?thesis
  proof (cases "width_bytes w \<le> entry_write_run_len (bus_entries b ! i) (addr - fe_start (bus_entries b ! i))")
    case True
    have order: "write_order b addr = entry_write_endian (bus_entries b ! i)" by (simp add: write_order_def Some)
    have told: "bus_ok (monitor_told addr (width_bytes w) b)" using assms by simp
    note one = write_span_one_run [OF assms Some, of ?src] write_span_one_run [OF told, of addr i ?src]
    show ?thesis
      using one True Some
      by (simp add: view_write_def write_span_def entry_write_value_bytes order Let_def split: prod.split)
  qed (simp add: view_write_def endian_store_fresh Some Let_def)
qed (simp add: view_write_def endian_store_fresh Let_def)

text \<open>
  C19: Writing a value by the path that finds its entry once is writing its bytes
  through the general path, in the byte order of what answers writes at the
  first address: the same stores, the same device calls, the same two notices
  to the exclusive monitor, the same result.
\<close>

theorem value_write_general:
  assumes "bus_ok b"
  shows "view_write devs addr w v attrs b =
           write_span devs addr (store_bytes (write_order b addr) (width_bytes w) v) attrs (Some w) b"
  by (rule view_write_slow [OF assms])

text \<open>
  C20: Every access of a well-formed bus ends, whatever devices answer it, and
  leaves the bus well formed: the loops over runs always make progress.
\<close>

theorem access_total:
  assumes "devices_ok devs" "bus_ok b"
  shows "(\<exists>b' r. view_read devs addr w attrs b = Some (b', r) \<and> bus_ok b')
     \<and> (\<exists>b' r. view_read_driven devs addr w attrs b = Some (b', r) \<and> bus_ok b')
     \<and> (\<exists>b' r. view_write devs addr w v attrs b = Some (b', r) \<and> bus_ok b')
     \<and> (\<exists>b' dst' r. view_read_bytes devs addr dst attrs b = Some (b', dst', r) \<and> bus_ok b' \<and> length dst' = length dst)
     \<and> (\<exists>b' r. view_write_bytes devs addr src attrs b = Some (b', r) \<and> bus_ok b')"
proof (intro conjI)
  from read_span_driven_total [OF assms, of addr "replicate (width_bytes w) 0" attrs "Some w" True]
  obtain b1 buf d1 r1 where
    v: "read_span_driven devs addr (replicate (width_bytes w) 0) attrs (Some w) True b = Some (b1, buf, d1, r1)" "bus_ok b1"
    by blast
  then show drv: "\<exists>b' r. view_read_driven devs addr w attrs b = Some (b', r) \<and> bus_ok b'"
    by (simp add: view_read_driven_def)
  show "\<exists>b' r. view_read devs addr w attrs b = Some (b', r) \<and> bus_ok b'"
  proof (cases "bus_locate b addr")
    case None
    then show ?thesis using v by (simp add: view_read_def read_span_def Let_def)
  next
    case (Some i)
    obtain b2 r2 where e: "entry_read_value devs i (addr - fe_start (bus_entries b ! i)) w attrs b = (b2, r2)" by fastforce
    then show ?thesis using v entry_read_value_ok [OF assms e] Some by (simp add: view_read_def read_span_def Let_def)
  qed
  show "\<exists>b' dst' r. view_read_bytes devs addr dst attrs b = Some (b', dst', r) \<and> bus_ok b' \<and> length dst' = length dst"
    using read_span_driven_total [OF assms, of addr dst attrs None True]
    by (auto simp: view_read_bytes_def read_span_def)
  show "\<exists>b' r. view_write_bytes devs addr src attrs b = Some (b', r) \<and> bus_ok b'"
    using write_span_total [OF assms] by (simp add: view_write_bytes_def)
  show "\<exists>b' r. view_write devs addr w v attrs b = Some (b', r) \<and> bus_ok b'"
  proof (cases "bus_locate b addr")
    case None
    then show ?thesis
      using write_span_total [OF assms] by (simp add: view_write_def endian_store_fresh Let_def)
  next
    case (Some i)
    let ?rel = "addr - fe_start (bus_entries b ! i)" and ?n = "width_bytes w"
    have ok: "bus_ok (monitor_told addr ?n b)" using assms(2) by simp
    obtain b2 r2 where e: "entry_write_value devs i ?rel w v attrs b = (b2, r2)" by fastforce
    obtain b3 r3 where f: "entry_write_value devs i ?rel w v attrs (monitor_told addr ?n b) = (b3, r3)" by fastforce
    have "bus_ok b2" "bus_ok b3"
      using e f entry_write_ok [OF assms(1)] assms(2) ok by (metis entry_write_value_bytes)+
    then show ?thesis
      using e f write_span_total [OF assms] Some by (simp add: view_write_def endian_store_fresh Let_def)
  qed
qed

section \<open>An access that may be reissued\<close>

text \<open>What a device owes when it refuses: nothing has happened yet.\<close>

definition refusals_quiet :: "'d devices \<Rightarrow> bool" where
  "refusals_quiet devs \<longleftrightarrow>
     (\<forall>ops off dst attrs b b' dst' e. op_read (devs ops) off dst attrs b = (b', dst', Inl e) \<longrightarrow> b' = b) \<and>
     (\<forall>ops off src attrs b b' e. op_write (devs ops) off src attrs b = (b', Inl e) \<longrightarrow> b' = b)"

lemma leaf_read_refused:
  assumes "refusals_quiet devs" "leaf_read devs l rel dst attrs w b = (b', dst', Inl e)"
  shows "b' = b"
proof (cases "fl_target l")
  case (TIo ops k)
  have quiet: "\<And>off. op_read (devs ops) off dst attrs b = (b', dst', Inl e) \<Longrightarrow> b' = b"
    using assms(1) unfolding refusals_quiet_def by blast
  show ?thesis using TIo assms(2) quiet by (auto simp: leaf_read_def Let_def split: if_splits sum.splits)
qed (use assms(2) in \<open>auto simp: leaf_read_def filled_def Let_def split: if_splits sum.splits\<close>)

lemma leaf_write_refused:
  assumes "refusals_quiet devs" "leaf_write devs l rel src attrs w b = (b', Inl e)"
  shows "b' = b"
proof (cases "fl_target l")
  case (TIo ops k)
  have quiet: "\<And>off. op_write (devs ops) off src attrs b = (b', Inl e) \<Longrightarrow> b' = b"
    using assms(1) unfolding refusals_quiet_def by blast
  show ?thesis using TIo assms(2) quiet by (auto simp: leaf_write_def Let_def split: if_splits sum.splits)
qed (use assms(2) in \<open>auto simp: leaf_write_def stored_def Let_def split: if_splits sum.splits\<close>)

lemma combine_read_refused:
  "refusals_quiet devs \<Longrightarrow> combine_read devs i rel attrs w policy ms dst scratch responders first b = (b', dst', r) \<Longrightarrow>
     r \<noteq> Inl Retry \<and> (\<forall>n first'. r = Inr (n, first') \<longrightarrow> responders \<le> n \<and> (n = 0 \<longrightarrow> b' = b))"
proof (induction devs i rel attrs w policy ms dst scratch responders first b rule: combine_read.induct)
  case (2 devs i rel attrs w policy k m ms dst scratch responders first b)
  obtain b1 s1 r1 where run: "leaf_read devs (member_now b i k m) rel scratch attrs w b = (b1, s1, r1)" by (metis prod_cases3)
  show ?case
  proof (cases r1)
    case (Inl e)
    have same: "b1 = b" using leaf_read_refused [OF 2(3)] run Inl by blast
    show ?thesis
    proof (cases "e = Retry \<and> 0 < responders")
      case True
      then show ?thesis using 2(4) run Inl by auto
    next
      case False
      then show ?thesis using 2(1) [OF run [symmetric] refl Inl False 2(3)] 2(4) run Inl same by auto
    qed
  next
    case (Inr u)
    then show ?thesis using 2 run by fastforce
  qed
qed auto

lemma entry_read_retry:
  assumes "refusals_quiet devs" "entry_read devs i rel dst attrs w b = (b', dst', Inl Retry)"
  shows "b' = b"
proof (cases "fe_kind (bus_entries b ! i)")
  case (Single l)
  then show ?thesis using assms leaf_read_refused [OF assms(1)] by (auto simp: entry_read_def)
next
  case (Combine policy ms)
  let ?n = "length dst" and ?fill = "case policy of WiredAnd \<Rightarrow> 0xff :: u8 | _ \<Rightarrow> 0"
  obtain b1 d1 r1 where run: "combine_read devs i rel attrs w policy (enumerate 0 ms) (replicate ?n ?fill) (replicate ?n 0) 0 None b = (b1, d1, r1)"
    by (metis prod_cases3)
  show ?thesis
    using assms(2) combine_read_refused [OF assms(1) run]
    by (cases r1) (auto simp: entry_read_def Combine run Let_def split: if_splits)
qed

lemma combine_write_retry:
  "refusals_quiet devs \<Longrightarrow> combine_write devs i rel attrs w src ms accepted first b = (b', Inl Retry) \<Longrightarrow>
     accepted = 0 \<and> b' = b"
proof (induction devs i rel attrs w src ms accepted first b rule: combine_write.induct)
  case (2 devs i rel attrs w src k m ms accepted first b)
  obtain b1 r1 where run: "leaf_write devs (member_now b i k m) rel src attrs w b = (b1, r1)" by fastforce
  show ?case
  proof (cases r1)
    case (Inl e)
    then show ?thesis
      using 2 run leaf_write_refused [OF 2(3)] by (cases "e = Retry \<and> 0 < accepted") auto
  next
    case (Inr u)
    then show ?thesis using 2 run by auto
  qed
qed (auto split: if_splits)

lemma entry_write_retry:
  assumes "refusals_quiet devs" "entry_write devs i rel src attrs w b = (b', Inl Retry)"
  shows "b' = b"
  using assms(2) leaf_write_refused [OF assms(1)] combine_write_retry [OF assms(1)]
  by (auto simp: entry_write_def Let_def split: option.splits entry_kind.splits)

lemma read_loop_late:
  assumes "read_loop devs addr attrs w don committed order driven dst b = Some res" "committed"
  shows "snd (snd (snd res)) \<noteq> Inl Retry"
  using assms
proof (induction rule: read_loop.raw_induct [rotated 1, consumes 1])
  case (1 f devs addr attrs w don committed order driven dst b res)
  then show ?case
    by (auto simp: late_error_def split: if_splits prod.splits sum.splits)
qed

lemma transfer_late:
  assumes "transfer devs addr attrs w don committed src b = Some res" "committed"
  shows "snd res \<noteq> Inl Retry"
  using assms
proof (induction rule: transfer.raw_induct [rotated 1, consumes 1])
  case (1 f devs addr attrs w don committed src b res)
  then show ?case
    by (auto simp: late_error_def split: if_splits prod.splits sum.splits)
qed

lemma read_run_retry:
  assumes "refusals_quiet devs" "read_run devs addr attrs w don order driven dst b = (n, order', driven', b', piece, Inl Retry)"
  shows "b' = b"
  using assms(2) entry_read_retry [OF assms(1)]
  by (auto simp: read_run_def unassigned_read_def Let_def split: option.splits unassigned_action.splits)

lemma write_run_retry:
  assumes "refusals_quiet devs" "write_run devs addr attrs w don src b = (n, b', Inl Retry)"
  shows "b' = b"
  using assms(2) entry_write_retry [OF assms(1)]
  by (auto simp: write_run_def unassigned_write_def Let_def split: option.splits unassigned_action.splits)

lemma read_span_retry:
  assumes "refusals_quiet devs" "read_span_driven devs addr dst attrs w driven b = Some (b', dst', driven', Inl Retry)"
  shows "b' = b"
proof -
  have loop: "read_loop devs addr attrs w 0 False None driven dst b = Some (b', dst', driven', Inl Retry)" "dst \<noteq> []"
    using assms(2) by (auto simp: read_span_driven_def split: if_splits)
  obtain n order1 driven1 b1 piece r where run: "read_run devs addr attrs w 0 None driven dst b = (n, order1, driven1, b1, piece, r)"
    by (metis prod_cases6)
  show ?thesis
  proof (cases r)
    case (Inl e)
    then have "e = Retry" "b1 = b'" using loop run by (auto simp: read_loop.simps [of _ _ _ _ 0] late_error_def)
    then show ?thesis using read_run_retry [OF assms(1)] run Inl by blast
  next
    case (Inr u)
    then have "read_loop devs addr attrs w (0 + n) True order1 driven1 (put_bytes dst 0 piece) b1 = Some (b', dst', driven', Inl Retry)"
      using loop run by (subst (asm) read_loop.simps) simp
    then show ?thesis using read_loop_late by fastforce
  qed
qed

lemma transfer_retry:
  assumes "refusals_quiet devs" "transfer devs addr attrs w 0 False src b = Some (b', Inl Retry)"
  shows "b' = b"
proof -
  obtain n b1 r where run: "write_run devs addr attrs w 0 src b = (n, b1, r)" by (metis prod_cases3)
  have "src \<noteq> []" using assms(2) by (auto simp: transfer.simps)
  show ?thesis
  proof (cases r)
    case (Inl e)
    then have "e = Retry" "b1 = b'" using assms(2) \<open>src \<noteq> []\<close> run by (auto simp: transfer.simps [of _ _ _ _ 0] late_error_def)
    then show ?thesis using write_run_retry [OF assms(1)] run Inl by blast
  next
    case (Inr u)
    then have "transfer devs addr attrs w (0 + n) True src b1 = Some (b', Inl Retry)"
      using assms(2) \<open>src \<noteq> []\<close> run by (subst (asm) transfer.simps) simp
    then show ?thesis using transfer_late by fastforce
  qed
qed

lemma endian_load_not_retry: "endian_load order buf w \<noteq> Inl Retry"
  by (simp add: endian_load_def Let_def split: endian.split)


section \<open>Memory keeps what is written\<close>

text \<open>
  C22: A value written to plain memory through the address space reads back: the
  same value cut to the width of the access, in whichever byte order the region
  has, with the bus otherwise as the write left it.
\<close>

theorem ram_value_roundtrip:
  assumes "bus_ok b" "bus_locate b addr = Some i" "fe_kind (bus_entries b ! i) = Single l" "fl_target l = TRam s"
    and "fe_write_to (bus_entries b ! i) = None" "perms_contains (fl_perms l) (read_perm attrs)"
    and "width_bytes w \<le> entry_read_run_len (bus_entries b ! i) (addr - fe_start (bus_entries b ! i))"
    and "view_write devs addr w v attrs b = Some (b', Inr ())"
  shows "view_read devs addr w attrs b' = Some (b', Inr (take_bit (width_bits w) v))"
proof -
  let ?rel = "addr - fe_start (bus_entries b ! i)" and ?order = "ac_endian (fl_constraints l)"
  let ?off = "leaf_offset_of l ?rel"
  have run: "entry_write_run_len (bus_entries b ! i) ?rel = entry_read_run_len (bus_entries b ! i) ?rel"
    using assms(5) by (simp add: entry_write_run_len_def)
  have val: "entry_write_value devs i ?rel w v attrs c = leaf_write_value devs l ?rel w v attrs c" if "bus_entries c = bus_entries b" for c
    using assms(3,5) that by (simp add: entry_write_value_def)
  obtain c c' where c: "bus_entries c = bus_entries b" "bu_ram c = bu_ram b" "bus_locate c = bus_locate b"
    and w: "leaf_write_value devs l ?rel w v attrs c = (c', Inr ())"
    and b': "bus_entries b' = bus_entries c'" "bu_ram b' = bu_ram c'" "bus_locate b' = bus_locate c'"
  proof (cases "ma_debug attrs")
    case True
    then show ?thesis using assms(2,7,8) val [OF refl] by (intro that [of b b']) (simp_all add: view_write_def run Let_def)
  next
    case False
    let ?t = "monitor_told addr (width_bytes w) b"
    obtain x r where x: "leaf_write_value devs l ?rel w v attrs ?t = (x, r)" by fastforce
    have "Some (monitor_told addr (width_bytes w) x, r) = Some (b', Inr ())"
      using assms(2,7,8) val [of ?t] False x by (simp add: view_write_def run Let_def)
    then show ?thesis using x by (intro that [of ?t x]) auto
  qed
  have perm: "perms_contains (fl_perms l) PERM_WRITE" and chk: "check_access (fl_constraints l) ?off w attrs = Inr ()"
    using w by (auto simp: leaf_write_value_def Let_def split: if_splits sum.splits)
  obtain st where st: "ram_write_value (bu_ram b s) ?off w v ?order = Inr st" "c' = c\<lparr>bu_ram := (bu_ram c)(s := st)\<rparr>"
    using w perm chk assms(4) c(2) by (auto simp: leaf_write_value_def stored_def Let_def split: sum.splits)
  have wf: "ram_wf (bu_ram b s)" using assms(1) by (simp add: bus_ok_def)
  have same: "bus_entries b' = bus_entries b" "bus_locate b' addr = Some i" "bu_ram b' s = st"
    using b' c st(2) assms(2) by (simp_all add: bus_entries_def bus_locate_def fun_eq_iff)
  show ?thesis
    using same assms(3,4,6,7) chk ram_write_read_value [OF wf st(1)]
    by (simp add: view_read_def entry_read_value_def leaf_read_value_def Let_def)
qed

section \<open>Debug accesses\<close>

definition conflicts_aside :: "'d bus \<Rightarrow> 'd bus" where
  "conflicts_aside b =
     b\<lparr>bu_space := (bu_space b)\<lparr>sp_topo := (sp_topo (bu_space b))
         \<lparr>t_flat := map (\<lambda>e. e\<lparr>fe_conflicts := 0\<rparr>) (t_flat (sp_topo (bu_space b)))\<rparr>\<rparr>\<rparr>"

text \<open>What the contract of \<open>MemOps\<close> asks of a debug access: a read changes nothing.\<close>

definition debug_reads_quiet :: "'d devices \<Rightarrow> bool" where
  "debug_reads_quiet devs \<longleftrightarrow>
     (\<forall>ops off dst attrs b b' dst' r. ma_debug attrs \<longrightarrow> op_read (devs ops) off dst attrs b = (b', dst', r) \<longrightarrow> b' = b)"

lemma debug_leaf_read:
  assumes "debug_reads_quiet devs" "ma_debug attrs" "leaf_read devs l rel dst attrs w b = (b', dst', r)"
  shows "b' = b"
proof (cases "fl_target l")
  case (TIo ops k)
  have quiet: "\<And>off. op_read (devs ops) off dst attrs b = (b', dst', r) \<Longrightarrow> b' = b"
    using assms(1,2) unfolding debug_reads_quiet_def by blast
  show ?thesis using TIo assms(3) quiet by (auto simp: leaf_read_def Let_def split: if_splits sum.splits)
qed (use assms(3) in \<open>auto simp: leaf_read_def filled_def Let_def split: if_splits sum.splits\<close>)

lemma debug_combine_read:
  "debug_reads_quiet devs \<Longrightarrow> ma_debug attrs \<Longrightarrow>
     combine_read devs i rel attrs w policy ms dst scratch responders first b = (b', dst', r) \<Longrightarrow> b' = b"
proof (induction devs i rel attrs w policy ms dst scratch responders first b rule: combine_read.induct)
  case (2 devs i rel attrs w policy k m ms dst scratch responders first b)
  obtain b1 s1 r1 where run: "leaf_read devs (member_now b i k m) rel scratch attrs w b = (b1, s1, r1)" by (metis prod_cases3)
  have same: "b1 = b" by (rule debug_leaf_read [OF 2(3,4) run])
  show ?case
  proof (cases r1)
    case (Inl e)
    show ?thesis
    proof (cases "e = Retry \<and> 0 < responders")
      case True
      then show ?thesis using 2(5) run Inl same by auto
    next
      case False
      then show ?thesis using 2(1) [OF run [symmetric] refl Inl False 2(3,4)] 2(5) run Inl same by auto
    qed
  next
    case (Inr u)
    then show ?thesis using 2(2) [OF run [symmetric] refl Inr 2(3,4)] 2(5) run same by auto
  qed
qed simp

lemma conflicts_aside_count [simp]: "conflicts_aside (count_conflict b i) = conflicts_aside b"
  by (cases "i < length (t_flat (sp_topo (bu_space b)))")
     (simp_all add: conflicts_aside_def count_conflict_def Let_def map_update list_update_same_conv list_update_beyond)

lemma debug_entry_read:
  assumes "debug_reads_quiet devs" "ma_debug attrs" "entry_read devs i rel dst attrs w b = (b', dst', r)"
  shows "conflicts_aside b' = conflicts_aside b"
proof (cases "fe_kind (bus_entries b ! i)")
  case (Single l)
  then have "b' = b" using assms(3) by (intro debug_leaf_read [OF assms(1,2)]) (simp add: entry_read_def)
  then show ?thesis by simp
next
  case (Combine policy ms)
  let ?n = "length dst" and ?fill = "case policy of WiredAnd \<Rightarrow> 0xff :: u8 | _ \<Rightarrow> 0"
  obtain b1 d1 r1 where run: "combine_read devs i rel attrs w policy (enumerate 0 ms) (replicate ?n ?fill) (replicate ?n 0) 0 None b = (b1, d1, r1)"
    by (metis prod_cases3)
  have "b1 = b" by (rule debug_combine_read [OF assms(1,2) run])
  then show ?thesis
    using assms(3) by (cases r1) (auto simp: entry_read_def Combine run Let_def split: if_splits)
qed

lemma debug_read_run:
  assumes "debug_reads_quiet devs" "ma_debug attrs"
    and "read_run devs addr attrs w don order driven dst b = (n, order', driven', b', piece, r)"
  shows "conflicts_aside b' = conflicts_aside b"
proof -
  have note_quiet: "note_unassigned a wr attrs b = b" for a wr using assms(2) by (simp add: note_unassigned_def)
  show ?thesis
    using assms(3) debug_entry_read [OF assms(1,2)]
    by (auto simp: read_run_def unassigned_read_def note_quiet Let_def split: option.splits unassigned_action.splits)
qed

lemma debug_read_loop:
  assumes "read_loop devs addr attrs w don committed order driven dst b = Some res" "debug_reads_quiet devs" "ma_debug attrs"
  shows "conflicts_aside (fst res) = conflicts_aside b"
  using assms
proof (induction rule: read_loop.raw_induct [rotated 1, consumes 1])
  case (1 f devs addr attrs w don committed order driven dst b res)
  obtain n order1 driven1 b1 piece r where run: "read_run devs addr attrs w don order driven dst b = (n, order1, driven1, b1, piece, r)"
    by (metis prod_cases6)
  have "conflicts_aside b1 = conflicts_aside b" by (rule debug_read_run [OF 1(3,4) run])
  then show ?case
    using 1 run by (cases r) (auto split: if_splits)
qed

lemma debug_read_span:
  assumes "debug_reads_quiet devs" "ma_debug attrs" "read_span_driven devs addr dst attrs w driven b = Some (b', dst', driven', r)"
  shows "conflicts_aside b' = conflicts_aside b"
  using assms(3) debug_read_loop [OF _ assms(1,2)] by (fastforce simp: read_span_driven_def split: if_splits)

text \<open>
  C24: A debug read leaves no trace. When devices honour the flag, the bus after
  a debug read of a value or of bytes is the bus before it, stores, devices,
  exclusive monitor and unassigned log alike, but for the conflict counters of
  the view.
\<close>

theorem debug_read_quiet:
  assumes "debug_reads_quiet devs" "ma_debug attrs" "devices_ok devs" "bus_ok b"
  shows "(\<forall>b' r. view_read devs addr w attrs b = Some (b', r) \<longrightarrow> conflicts_aside b' = conflicts_aside b)
     \<and> (\<forall>b' dst' r. view_read_bytes devs addr dst attrs b = Some (b', dst', r) \<longrightarrow> conflicts_aside b' = conflicts_aside b)"
  using debug_read_span [OF assms(1,2)]
  by (auto simp: view_read_slow [OF assms(3,4)] view_read_driven_def view_read_bytes_def read_span_def)

section \<open>What a byte read returns\<close>

text \<open>The read of one byte in terms of the region tree: the site that answers, or nothing.\<close>

definition site_read_byte :: "'d devices \<Rightarrow> site \<Rightarrow> mem_attrs \<Rightarrow> 'd bus \<Rightarrow> 'd bus \<times> (bus_error + u64)" where
  "site_read_byte devs site attrs b =
     (if \<not> perms_contains (s_perms site) (read_perm attrs) then (b, Inl Protected)
      else
        case check_access (s_constraints site) (s_offset site) U8 attrs of
          Inl e \<Rightarrow> (b, Inl e)
        | Inr _ \<Rightarrow>
            (case s_target site of
               BRam s \<Rightarrow> (b, rbind (ram_read_u8 (bu_ram b s) (s_offset site)) (\<lambda>v. Inr (ucast v)))
             | BRom s _ \<Rightarrow> (b, if s_offset site < length (bu_rom b s) \<and> s_offset site < two64 - 1
                              then Inr (ucast (bu_rom b s ! s_offset site)) else Inl BadAccess)
             | BIo ops \<Rightarrow>
                 (case op_read (devs ops) (s_offset site) [0] attrs b of
                    (b', buf, r) \<Rightarrow> (b', rbind r (\<lambda>_. Inr (ucast (hd buf)))))))"

definition unassigned_byte :: "nat \<Rightarrow> mem_attrs \<Rightarrow> 'd bus \<Rightarrow> 'd bus \<times> (bus_error + u64)" where
  "unassigned_byte addr attrs b =
     (note_unassigned addr False attrs b,
      case up_action (sp_unassigned (bu_space b)) of
        UFault \<Rightarrow> Inl Unassigned
      | UReadAsOnes \<Rightarrow> Inr 0xff
      | UReadAsZeros \<Rightarrow> Inr 0
      | UOpenBus \<Rightarrow> Inr (ucast (ma_bus attrs)))"

lemma endian_load_byte: "endian_load order [x] U8 = Inr (ucast x)"
  by (cases order) (simp_all add: endian_load_def)

lemma take_one: "n < length xs \<Longrightarrow> take (Suc 0) (drop n xs) = [xs ! n]"
  by (simp add: Cons_nth_drop_Suc [symmetric])

lemma ram_byte:
  assumes "ram_wf s"
  shows "ram_read_value s off U8 order = rbind (ram_read_u8 s off) (\<lambda>v. Inr (ucast v))"
proof (cases "ram_range s off (Suc 0)")
  case (Inr base)
  then have "base < length (rs_cells s)" using assms by (auto simp: ram_range_Inr ram_wf_def)
  then show ?thesis
    using Inr by (simp add: ram_read_value_bytes [OF assms] ram_read_at_def ram_read_u8_def take_one endian_load_byte)
qed (simp add: ram_read_value_bytes [OF assms] ram_read_at_def ram_read_u8_def)

lemma rom_byte:
  "rom_read_value s off U8 order = (if off < length s \<and> off < two64 - 1 then Inr (ucast (s ! off)) else Inl BadAccess)"
  by (auto simp: rom_read_value_bytes rom_read_at_def ok_or_def checked_u64_def take_one endian_load_byte split: option.splits)

lemma leaf_byte:
  assumes "devices_ok devs" "bus_ok b"
  shows "leaf_read_value devs l rel U8 attrs b = site_read_byte devs (leaf_site rel l) attrs b"
proof (cases "fl_target l")
  case (TRam s)
  have "ram_wf (bu_ram b s)" using assms(2) by (simp add: bus_ok_def)
  then show ?thesis by (simp add: leaf_read_value_def site_read_byte_def leaf_site_def TRam ram_byte Let_def split: sum.split)
next
  case (TRom s k)
  then show ?thesis by (simp add: leaf_read_value_def site_read_byte_def leaf_site_def rom_byte Let_def split: sum.split)
next
  case (TIo ops k)
  obtain b' buf r where run: "op_read (devs ops) (leaf_offset_of l rel) [0] attrs b = (b', buf, r)" by (metis prod_cases3)
  then have "length buf = 1" using devices_read [OF assms run] by simp
  then obtain x where "buf = [x]" by (auto simp: length_Suc_conv)
  then show ?thesis
    using run TIo by (simp add: leaf_read_value_def site_read_byte_def leaf_site_def endian_load_byte Let_def split: sum.split)
qed

lemma byte_unassigned:
  assumes "bus_ok b" "bus_locate b addr = None" "addr < two64"
  shows "view_read devs addr U8 attrs b = Some (unassigned_byte addr attrs b)"
proof -
  have gap: "gap_len (bus_entries b) addr (Suc 0) = Suc 0"
    using gap_len_positive [of "Suc 0" "bus_entries b" addr] gap_len_le [of "bus_entries b" addr "Suc 0"] by simp
  show ?thesis
    using assms gap
    by (cases "up_action (sp_unassigned (bu_space b))")
       (simp_all add: view_read_def read_span_def read_span_driven_def read_loop.simps read_run_def unassigned_read_def
          unassigned_byte_def late_error_def put_bytes_def endian_load_byte Let_def)
qed


end
