(* ===== verification/Space_Console.thy ===== *)
theory Space_Console
  imports Space_Machine "HOL-Library.Code_Target_Nat"
begin

text \<open>
  A small console's memory map, built with the constructors: work memory
  mirrored four times, the eight picture registers mirrored over their page, a
  switchable bank of a cartridge and its fixed last bank. The witnesses of the
  address-space theorems are taken on it.
\<close>

definition work_ram :: region where
  "work_ram = region_ram ''ram'' 1 0x800"

definition picture_regs :: region where
  "picture_regs = region_io ''ppu'' 8 3 CONSTRAINTS_IO"

definition cartridge :: region where
  "cartridge = region_rom ''prg'' 2 0x10000 RomIgnore"

definition ram_mirror :: region where
  "ram_mirror = Region ''ram mirror'' 0x2000 CONSTRAINTS_ANY (KAlias (Alias work_ram 1 False True)) 2"

definition ppu_mirror :: region where
  "ppu_mirror = Region ''ppu mirror'' 0x2000 CONSTRAINTS_IO (KAlias (Alias picture_regs 2 False True)) 2"

definition console_bank :: region where
  "console_bank = Region ''bank'' 0x4000 CONSTRAINTS_ANY (KAlias (Alias cartridge 3 True False)) 2"

definition last_bank :: region where
  "last_bank = Region ''last'' 0x4000 CONSTRAINTS_ANY (KAlias (Alias cartridge 4 True False)) 2"

definition console_cells :: alias_cells where
  "console_cells = \<lparr>ac_next = 5, ac_offset = (\<lambda>i. if i = 4 then 0xC000 else 0)\<rparr>"

lemma console_parts:
  "rbind (region_mirror \<lparr>ac_next = 1, ac_offset = (\<lambda>_. 0)\<rparr> ''ram mirror'' work_ram 0x2000) (\<lambda>(c1, ram).
   rbind (region_mirror c1 ''ppu mirror'' picture_regs 0x2000) (\<lambda>(c2, ppu).
   rbind (region_alias c2 ''bank'' cartridge 0 0x4000) (\<lambda>(c3, bank).
   rbind (region_alias c3 ''last'' cartridge 0xC000 0x4000) (\<lambda>(c4, fixed).
     Inr (c4, ram, ppu, bank, fixed)))))
   = Inr (console_cells, ram_mirror, ppu_mirror, console_bank, last_bank)"
  by (simp add: region_mirror_def region_alias_def alloc_alias_def region_is_empty_def is_leaf_kind_def
        resolves_to_leaf_def saturating_add32_def checked_u64_def ok_or_def wrapping_add64_def
        work_ram_def picture_regs_def cartridge_def region_ram_def region_io_def region_rom_def
        ram_mirror_def ppu_mirror_def console_bank_def last_bank_def console_cells_def fun_eq_iff)

definition console_ops :: "guard_op list" where
  "console_ops = [GMap (mapping_new ram_mirror 0), GMap (mapping_new ppu_mirror 0x2000),
     GMap (mapping_new console_bank 0x8000), GMap (mapping_new last_bank 0xC000)]"

definition console_empty :: address_space where
  "console_empty = the (space_new ''cpu'' 16)
     \<lparr>sp_endian := Little, sp_unassigned := \<lparr>up_action = UOpenBus, up_log = False\<rparr>,
      sp_combine := Priority, sp_dispatch_policy := DispatchDense 13 0x10000\<rparr>"

definition console :: address_space where
  "console = guard_session (\<lambda>_. None) console_cells console_ops console_empty"

definition switched :: "alias_cells \<times> address_space" where
  "switched = projr (view_rebase console_cells console console_bank 0x4000)"

section \<open>The flattened map\<close>

definition plain_entry :: "nat \<Rightarrow> nat \<Rightarrow> flat_target \<Rightarrow> nat \<Rightarrow> alias_id list \<Rightarrow> nat \<Rightarrow> access_constraints \<Rightarrow> flat_entry" where
  "plain_entry start len target offset terms period cons =
     \<lparr>fe_start = start, fe_len = len,
      fe_kind = Single \<lparr>fl_target = target, fl_offset = offset, fl_fixed = 0, fl_terms = terms, fl_period = period,
                        fl_constraints = cons, fl_perms = PERM_RWX\<rparr>,
      fe_write_to = None, fe_conflicts = 0\<rparr>"

definition console_entries :: "nat \<Rightarrow> flat_entry list" where
  "console_entries offset =
     [plain_entry 0 0x2000 (TRam 1) 0 [] 0x800 CONSTRAINTS_ANY,
      plain_entry 0x2000 0x2000 (TIo 3 REGION_ID_NONE) 0 [] 8 CONSTRAINTS_IO,
      plain_entry 0x8000 0x4000 (TRom 2 RomIgnore) offset [3] 0 CONSTRAINTS_ANY,
      plain_entry 0xC000 0x4000 (TRom 2 RomIgnore) 0xC000 [4] 0 CONSTRAINTS_ANY]"

definition console_at :: "nat \<Rightarrow> address_space" where
  "console_at offset =
     \<lparr>sp_name = ''cpu'', sp_bits = 16, sp_endian = Little, sp_unassigned = \<lparr>up_action = UOpenBus, up_log = False\<rparr>,
      sp_combine = Priority, sp_dispatch_policy = DispatchDense 13 0x10000,
      sp_topo = \<lparr>t_root = [(1, mapping_new ram_mirror 0), (2, mapping_new ppu_mirror 0x2000),
                            (3, mapping_new console_bank 0x8000), (4, mapping_new last_bank 0xC000)],
                 t_next_id = 5, t_flat = console_entries offset,
                 t_dispatch = Some \<lparr>dp_page_bits = 13, dp_cover = 65536,
                   dp_table = [1073741824, 1, 3221225472, 3221225472, 2, 2, 3, 3]\<rparr>,
                 t_index = [(3, [(2, 0)]), (4, [(3, 0)])], t_dirty = False\<rparr>,
      sp_generation = 2\<rparr>"

definition mapped_console :: address_space where
  "mapped_console = fold (guard_step (\<lambda>_. None) console_cells) console_ops console_empty"

lemma mapped_console_eq:
  "mapped_console = (console_at 0)\<lparr>sp_generation := 1, sp_topo := (sp_topo (console_at 0))
     \<lparr>t_flat := [], t_dispatch := None, t_index := [], t_dirty := True\<rparr>\<rparr>"
  by code_simp

lemma console_flat:
  "flat_build (\<lambda>_. None) console_cells (mapped (console_at 0)) 0x10000 Priority
     = Inr (console_entries 0, t_index (sp_topo (console_at 0)))"
  by code_simp

lemma tag_words [code]:
  "TAG_DIRECT = 0x40000000" "TAG_SUBPAGE = 0x80000000" "TAG_UNASSIGNED = 0xC0000000" "INDEX_MASK = 0x3FFFFFFF"
  by (simp_all add: tag_defs push_bit_eq_mult)

lemma console_table:
  "dispatch_build (console_entries 0) (DispatchDense 13 0x10000) = t_dispatch (sp_topo (console_at 0))"
  by code_simp

lemma console_eq: "console = console_at 0"
proof -
  have "console = sync (\<lambda>_. None) console_cells mapped_console"
    by (simp add: console_def guard_session_def mapped_console_def)
  moreover have two: "Suc (Suc 0) = 2" by simp
  ultimately show ?thesis
    using console_flat console_table
    by (simp add: sync_def mapped_console_eq console_at_def mapped_def space_size_def wrapping_add64_def Let_def two)
qed

declare console_eq [code]

lemma switched_eq: "switched = (set_cell console_cells 3 0x4000, console_at 0x4000)"
proof -
  have "fst switched = set_cell console_cells 3 0x4000"
    by (simp add: switched_def view_rebase_def space_rebase_def console_bank_def as_alias_def cartridge_def region_rom_def
          checked_u64_def Let_def)
  moreover have "snd switched = console_at 0x4000" by code_simp
  ultimately show ?thesis by (simp add: prod_eq_iff)
qed

declare switched_eq [code]

section \<open>The map is reachable\<close>

lemma console_ready: "list_all (op_ready console_cells) console_ops"
  by code_simp

lemma console_reach: "space_reach console_cells console"
  unfolding console_def
proof (rule space_reach.session [OF _ console_ready])
  have "space_new ''cpu'' 16 = Some (the (space_new ''cpu'' 16))" by (simp add: space_new_def)
  then show "space_reach console_cells console_empty"
    unfolding console_empty_def by (rule space_reach.built) (simp add: policy_ok_def)
qed

lemma switched_run: "view_rebase console_cells console console_bank 0x4000 = Inr switched"
proof -
  have "\<not> isl (view_rebase console_cells console console_bank 0x4000)" by code_simp
  then show ?thesis by (simp add: switched_def)
qed

lemma console_view: "one_region_per_id console_bank (mappings_aliases (mapped console))"
  "view_small (t_flat (sp_topo console))"
  by code_simp+

lemma switched_reach: "space_reach (fst switched) (snd switched)"
  by (rule space_reach.slide [OF console_reach console_view, where offset = "0x4000"]) (simp add: switched_run)

section \<open>Witnesses\<close>


theorem generation_tracks_topology_witness:
  "sp_generation (guard_session (\<lambda>_. None) console_cells [GUnmap 3, GUnmap 3] console) = 3
   \<and> sp_generation console = 2 \<and> guard_session (\<lambda>_. None) console_cells [GUnmap 3, GUnmap 3] console \<noteq> console
   \<and> guard_session (\<lambda>_. None) console_cells [GUnmap 9] console = console
   \<and> sp_generation (snd switched) = 2"
proof -
  have "guard_step (\<lambda>_. None) console_cells (GUnmap 3) (guard_step (\<lambda>_. None) console_cells (GUnmap 3) console)
      = set_root console (map (\<lambda>i. t_root (sp_topo console) ! i) [0, 1, 3])"
    "guard_step (\<lambda>_. None) console_cells (GUnmap 9) console = console" "sp_generation console = 2"
    by code_simp+
  then have g: "sp_generation (guard_session (\<lambda>_. None) console_cells [GUnmap 3, GUnmap 3] console) = 3"
    "sp_generation console = 2" "sp_generation (guard_session (\<lambda>_. None) console_cells [GUnmap 9] console) = 2"
    using sync_generation [of "\<lambda>_. None" console_cells console]
      sync_generation [of "\<lambda>_. None" console_cells "set_root console (map (\<lambda>i. t_root (sp_topo console) ! i) [0, 1, 3])"]
    by (auto simp: guard_session_def set_root_def wrapping_add64_def console_eq console_at_def simp del: guard_step.simps)
  then have "guard_session (\<lambda>_. None) console_cells [GUnmap 3, GUnmap 3] console \<noteq> console"
    using generation_tracks_topology [OF console_reach, of "[GUnmap 3, GUnmap 3]" "\<lambda>_. None"] by auto
  moreover have "view_rebase console_cells console console_bank 0x4000 = Inr (set_cell console_cells 3 0x4000, snd switched)"
    by (simp add: switched_run switched_eq)
  then have "guard_session (\<lambda>_. None) console_cells [GUnmap 9] console = console \<and> sp_generation (snd switched) = 2"
    using generation_tracks_topology [OF console_reach, of "[GUnmap 9]" "\<lambda>_. None"] g by simp
  ultimately show ?thesis using g by blast
qed

lemma console_build:
  "flat_build (\<lambda>_. None) console_cells (mapped console) 0x10000 Priority
     = Inr (t_flat (sp_topo console), t_index (sp_topo console))"
  using console_flat by (simp add: console_eq console_at_def)

lemma console_wf:
  "list_all mapping_wf (mapped console)" "\<forall>m\<in>set (mapped console). r_depth (m_region m) \<le> MAX_DEPTH"
  "list_all (mapping_fits console_cells) (mapped console)" "list_all (mapping_offsets_ok console_cells) (mapped console)"
  by code_simp+

theorem rebase_is_rebuild_witness:
  "flat_build (\<lambda>_. None) (fst switched) (mapped console) 0x10000 Priority
     = Inr (t_flat (sp_topo (snd switched)), t_index (sp_topo console))
   \<and> t_flat (sp_topo (snd switched)) \<noteq> t_flat (sp_topo console)"
proof -
  have "view_rebase console_cells console console_bank 0x4000 = Inr (fst switched, snd switched)"
    by (simp add: switched_run)
  then have run: "space_rebase console_cells (t_flat (sp_topo console)) (t_index (sp_topo console)) console_bank 0x4000
      = Inr (fst switched, t_flat (sp_topo (snd switched)))"
    by (rule view_rebase_cases)
  have "flat_build (\<lambda>_. None) (fst switched) (mapped console) 0x10000 Priority
      = Inr (t_flat (sp_topo (snd switched)), t_index (sp_topo console))"
    using console_view by (intro rebase_is_rebuild [OF console_build console_wf(1,2,3) console_view(1) _ _ run]) (simp_all add: view_small_def)
  moreover have "t_flat (sp_topo (snd switched)) \<noteq> t_flat (sp_topo console)" by code_simp
  ultimately show ?thesis by blast
qed

theorem locate_exact_witness:
  "locate (t_flat (sp_topo console)) (dispatch_build (t_flat (sp_topo console)) (DispatchDense 13 0x10000)) 0x2005
     = flat_find (t_flat (sp_topo console)) 0x2005
   \<and> flat_find (t_flat (sp_topo console)) 0x2005 = Some 1"
proof -
  have "flat_find (t_flat (sp_topo console)) 0x2005 = Some 1" by code_simp
  then show ?thesis
    using locate_exact [OF console_build console_wf(1,4), of "DispatchDense 13 0x10000" "0x2005"] by simp
qed

section \<open>A nested combining container\<close>

text \<open>Two memories on one wired bus that reads as the conjunction of what they drive.\<close>

definition anded :: region where
  "anded = container_with ''and'' 0x10
     [mapping_new (region_ram ''a'' 1 0x10) 0, mapping_new (region_ram ''b'' 2 0x10) 0] WiredAnd"

definition ram_site :: "arc \<Rightarrow> nat \<Rightarrow> site" where
  "ram_site a n = \<lparr>s_target = BRam a, s_offset = n, s_constraints = CONSTRAINTS_ANY, s_perms = PERM_RWX\<rparr>"


end
