(* ===== verification/Space_Traffic.thy ===== *)
theory Space_Traffic
  imports Space_Bus Space_Console
begin

text \<open>
  Accesses on concrete buses: the console map with a register port that may be
  busy, and two chips wired onto one aperture.
\<close>

section \<open>The console bus\<close>

definition work_store :: ram_store where
  "work_store = \<lparr>rs_cells = replicate 0x800 0, rs_dirty = [0], rs_page_bits = 12, rs_len = 0x800, rs_pages = 1\<rparr>"

definition no_log :: unassigned_log where
  "no_log = \<lparr>ul_count = 0, ul_last = 0, ul_last_write = False, ul_pages = []\<rparr>"

text \<open>A port that counts its accesses and whose last register is busy.\<close>

definition port :: "nat devices" where
  "port = (\<lambda>_. \<lparr>op_read = (\<lambda>off dst attrs b.
       if off = 7 then (b, dst, Inl Retry)
       else (if ma_debug attrs then b else b\<lparr>bu_dev := Suc (bu_dev b)\<rparr>, replicate (length dst) (of_nat (bu_dev b)), Inr ())),
     op_write = (\<lambda>off src attrs b.
       if off = 7 then (b, Inl Retry) else (b\<lparr>bu_dev := Suc (bu_dev b)\<rparr>, Inr ()))\<rparr>)"

definition console_bus :: "nat bus" where
  "console_bus = \<lparr>bu_space = console, bu_cells = console_cells, bu_ram = (\<lambda>_. work_store),
     bu_rom = (\<lambda>_. replicate 0x10000 0xEA), bu_monitor = monitor_new, bu_log = no_log, bu_dev = 0\<rparr>"

lemma bus_ok_dev [simp]: "bus_ok (b\<lparr>bu_dev := d\<rparr>) = bus_ok b"
  by (simp add: bus_ok_def)

lemma port_ok: "devices_ok port"
  by (auto simp: devices_ok_def port_def split: if_splits)

lemma port_refuses: "refusals_quiet port"
  by (auto simp: refusals_quiet_def port_def split: if_splits)

lemma port_debug: "debug_reads_quiet port"
  by (auto simp: debug_reads_quiet_def port_def split: if_splits)

lemma work_store_wf: "ram_wf work_store"
  by (simp add: ram_wf_def work_store_def div_ceil_def)

lemma console_bus_ok: "bus_ok console_bus"
  using reach_view_ok [OF console_reach] work_store_wf by (simp add: bus_ok_def console_bus_def)

lemma console_bus_entries: "bus_entries console_bus = console_entries 0"
  by (simp add: bus_entries_def console_bus_def console_eq console_at_def)

lemma console_bus_locate: "bus_locate console_bus a = locate (console_entries 0) (t_dispatch (sp_topo (console_at 0))) a"
  by (simp add: bus_locate_def console_bus_entries) (simp add: console_bus_def console_eq)

lemma console_locates:
  "bus_locate console_bus 0x0FF0 = Some 0" "bus_locate console_bus 0x2000 = Some 1" "bus_locate console_bus 0x2007 = Some 1"
  unfolding console_bus_locate by code_simp+

lemmas access_evals = console_bus_entries console_entries_def plain_entry_def read_perm_def attrs_is_fetch_def
  entry_read_run_len_def entry_write_run_len_def leaf_run_len_def leaf_offset_of_def wrapping_add64_def
  check_access_def check_attrs_def width_less_def CONSTRAINTS_IO_def CONSTRAINTS_ANY_def ATTRS_DEFAULT_def ATTRS_DEBUG_def

section \<open>Witnesses\<close>

theorem value_read_general_witness:
  "devices_ok port \<and> bus_ok console_bus \<and>
   view_read port 0x2002 U16 ATTRS_DEFAULT console_bus =
     map_option (\<lambda>(b', r). (b', rbind r (\<lambda>(v, _). Inr v))) (view_read_driven port 0x2002 U16 ATTRS_DEFAULT console_bus)"
  using value_read_general [OF port_ok console_bus_ok, of "0x2002" U16 ATTRS_DEFAULT] port_ok console_bus_ok by simp

theorem value_write_general_witness:
  "bus_ok console_bus \<and>
   view_write port 0x0FFE U32 0x11223344 ATTRS_DEFAULT console_bus =
     write_span port 0x0FFE (store_bytes (write_order console_bus 0x0FFE) 4 0x11223344) ATTRS_DEFAULT (Some U32) console_bus"
  using value_write_general [OF console_bus_ok, of port "0x0FFE" U32 "0x11223344" ATTRS_DEFAULT] console_bus_ok by simp

theorem access_total_witness:
  "devices_ok port \<and> bus_ok console_bus \<and>
   (\<exists>b' r. view_write port 0xFFFF U64 1 ATTRS_DEFAULT console_bus = Some (b', r) \<and> bus_ok b') \<and>
   (\<exists>b' dst' r. view_read_bytes port 0x1FF0 (replicate 0x7000 0) ATTRS_DEFAULT console_bus = Some (b', dst', r)
      \<and> bus_ok b' \<and> length dst' = 0x7000)"
  using access_total [OF port_ok console_bus_ok, of "0xFFFF" U64 ATTRS_DEFAULT 1 "[]" "[]"]
    access_total [OF port_ok console_bus_ok, of "0x1FF0" U8 ATTRS_DEFAULT 1 "replicate 0x7000 0" "[]"]
    port_ok console_bus_ok
  unfolding length_replicate by blast

lemma busy_port: "map_option snd (view_read port 0x2007 U8 ATTRS_DEFAULT console_bus) = Some (Inl Retry)"
  by (simp add: view_read_def entry_read_value_def leaf_read_value_def console_locates access_evals port_def Let_def)


lemma written_memory: "map_option snd (view_write port 0x0FF0 U32 0x11223344 ATTRS_DEFAULT console_bus) = Some (Inr ())"
  by (simp add: view_write_def entry_write_value_def leaf_write_value_def stored_def ram_write_value_def ram_range_def
        checked_u64_def ok_or_def console_locates access_evals Let_def)
     (simp add: monitor_told_def console_bus_def work_store_def)

definition memory_leaf :: flat_leaf where
  "memory_leaf = \<lparr>fl_target = TRam 1, fl_offset = 0, fl_fixed = 0, fl_terms = [], fl_period = 0x800,
     fl_constraints = CONSTRAINTS_ANY, fl_perms = PERM_RWX\<rparr>"

theorem ram_value_roundtrip_witness:
  "\<exists>b'. view_write port 0x0FF0 U32 0x11223344 ATTRS_DEFAULT console_bus = Some (b', Inr ())
     \<and> view_read port 0x0FF0 U32 ATTRS_DEFAULT b' = Some (b', Inr 0x11223344)"
proof -
  obtain b' where b': "view_write port 0x0FF0 U32 0x11223344 ATTRS_DEFAULT console_bus = Some (b', Inr ())"
    using written_memory by auto
  have "view_read port 0x0FF0 U32 ATTRS_DEFAULT b' = Some (b', Inr (take_bit (width_bits U32) 0x11223344))"
    by (rule ram_value_roundtrip [OF console_bus_ok console_locates(1) _ _ _ _ _ b', where l = memory_leaf and s = 1])
       (simp_all add: access_evals memory_leaf_def)
  then show ?thesis using b' by (auto simp: width_bits_bytes)
qed

theorem debug_read_quiet_witness:
  "debug_reads_quiet port \<and> ma_debug ATTRS_DEBUG \<and> devices_ok port \<and> bus_ok console_bus \<and>
   (\<exists>b' r. view_read port 0x2000 U8 ATTRS_DEBUG console_bus = Some (b', r) \<and> conflicts_aside b' = conflicts_aside console_bus)"
proof -
  have dbg: "ma_debug ATTRS_DEBUG" by (simp add: ATTRS_DEBUG_def)
  have "map_option snd (view_read port 0x2000 U8 ATTRS_DEBUG console_bus) = Some (Inr 0)"
    by (simp add: view_read_def entry_read_value_def leaf_read_value_def console_locates access_evals port_def Let_def)
       (simp add: console_bus_def endian_load_def)
  then obtain b' where b': "view_read port 0x2000 U8 ATTRS_DEBUG console_bus = Some (b', Inr 0)" by auto
  then have "conflicts_aside b' = conflicts_aside console_bus"
    using debug_read_quiet [OF port_debug dbg port_ok console_bus_ok, of "0x2000" U8 "[]"] by blast
  then show ?thesis using b' dbg port_debug port_ok console_bus_ok by auto
qed


section \<open>Two chips on one aperture\<close>

text \<open>Memory and a ROM that faults writes, both at address 0 of a bus that reports conflicts.\<close>

definition aperture_ops :: "guard_op list" where
  "aperture_ops = [GMap (mapping_new (region_ram ''ram'' 1 16) 0), GMap (mapping_new (region_rom ''rom'' 2 16 RomFault) 0)]"

definition aperture_empty :: address_space where
  "aperture_empty = the (space_new ''bus'' 16)
     \<lparr>sp_endian := Little, sp_unassigned := \<lparr>up_action = UFault, up_log = False\<rparr>,
      sp_combine := Conflict, sp_dispatch_policy := DispatchFlat\<rparr>"

definition aperture :: address_space where
  "aperture = guard_session (\<lambda>_. None) console_cells aperture_ops aperture_empty"

definition chip_leaf :: "flat_target \<Rightarrow> flat_leaf" where
  "chip_leaf t = \<lparr>fl_target = t, fl_offset = 0, fl_fixed = 0, fl_terms = [], fl_period = 0,
     fl_constraints = CONSTRAINTS_ANY, fl_perms = PERM_RWX\<rparr>"

definition aperture_entry :: "nat \<Rightarrow> flat_entry" where
  "aperture_entry n = \<lparr>fe_start = 0, fe_len = 16, fe_kind = Combine Conflict [chip_leaf (TRom 2 RomFault), chip_leaf (TRam 1)],
     fe_write_to = None, fe_conflicts = n\<rparr>"

lemma aperture_eq: "t_flat (sp_topo aperture) = [aperture_entry 0] \<and> t_dispatch (sp_topo aperture) = None"
  by code_simp

definition aperture_bus :: "nat bus" where
  "aperture_bus = \<lparr>bu_space = aperture, bu_cells = console_cells,
     bu_ram = (\<lambda>_. \<lparr>rs_cells = replicate 16 0, rs_dirty = [0], rs_page_bits = 12, rs_len = 16, rs_pages = 1\<rparr>),
     bu_rom = (\<lambda>_. replicate 16 0x55), bu_monitor = monitor_new, bu_log = no_log, bu_dev = 0\<rparr>"

lemma aperture_bus_entries: "bus_entries aperture_bus = [aperture_entry 0]" "bus_locate aperture_bus 0 = Some 0"
  using aperture_eq
  by (simp_all add: bus_entries_def bus_locate_def aperture_bus_def locate_def flat_find_def entry_end_def aperture_entry_def
        wrapping_add64_def)

lemma aperture_reach: "space_reach console_cells aperture"
  unfolding aperture_def
proof (rule space_reach.session)
  have "space_new ''bus'' 16 = Some (the (space_new ''bus'' 16))" by (simp add: space_new_def)
  then show "space_reach console_cells aperture_empty"
    unfolding aperture_empty_def by (rule space_reach.built) (simp add: policy_ok_def)
  show "list_all (op_ready console_cells) aperture_ops" by code_simp
qed

lemma aperture_bus_ok: "bus_ok aperture_bus"
  using reach_view_ok [OF aperture_reach] by (simp add: bus_ok_def aperture_bus_def ram_wf_def div_ceil_def)

lemmas aperture_evals = aperture_bus_entries aperture_entry_def chip_leaf_def member_now_def

text \<open>
  C25: A debug read moves the conflict counter. On a reachable bus where two
  chips answer one aperture and conflicts are reported, reading a byte with the
  debug flag set, which is to have no side effects, counts a conflict.
\<close>

theorem debug_read_counts_conflict:
  "bus_ok aperture_bus \<and> debug_reads_quiet port \<and> ma_debug ATTRS_DEBUG \<and>
   map fe_conflicts (bus_entries aperture_bus) = [0] \<and>
   map_option (\<lambda>(b', r). (map fe_conflicts (bus_entries b'), r)) (view_read port 0 U8 ATTRS_DEBUG aperture_bus)
     = Some ([1], Inr 0x55)"
proof -
  have run: "combine_read port 0 0 ATTRS_DEBUG (Some U8) Conflict [(0, chip_leaf (TRom 2 RomFault)), (1, chip_leaf (TRam 1))] [0] [0] 0 None aperture_bus
      = (aperture_bus, [0x55], Inr (2, None))"
    by (simp add: leaf_read_def leaf_check_def filled_def rom_read_at_def ram_read_at_def ram_range_def ok_or_def checked_u64_def
          merge_byte_def access_evals aperture_evals Let_def)
       (simp add: aperture_bus_def merge_byte_def)
  have "entry_read port 0 0 [0] ATTRS_DEBUG (Some U8) aperture_bus = (count_conflict aperture_bus 0, [0x55], Inr ())"
    using run by (simp add: entry_read_def aperture_evals Let_def)
  then have "view_read port 0 U8 ATTRS_DEBUG aperture_bus = Some (count_conflict aperture_bus 0, Inr 0x55)"
    by (simp add: view_read_def entry_read_value_def aperture_evals entry_read_run_len_def leaf_run_len_def entry_endian_def
          endian_load_def CONSTRAINTS_ANY_def Let_def)
  moreover have "map fe_conflicts (bus_entries (count_conflict aperture_bus 0)) = [1]"
    using aperture_bus_entries(1) by (simp add: bus_entries_def count_conflict_def aperture_entry_def wrapping_add64_def Let_def)
  ultimately show ?thesis
    using aperture_bus_ok port_debug by (simp add: aperture_evals ATTRS_DEBUG_def)
qed

text \<open>
  C26: A combined write drops the error of a member that refuses. On the same
  bus the ROM faults a write and the memory accepts it; the access reports
  success, though the first error is to be reported once every member has seen
  the write.
\<close>

theorem combined_write_error_dropped:
  "bus_ok aperture_bus \<and>
   map (\<lambda>m. snd (leaf_write port m 0 [1] ATTRS_DEFAULT (Some U8) aperture_bus)) [chip_leaf (TRom 2 RomFault), chip_leaf (TRam 1)]
     = [Inl BadAccess, Inr ()] \<and>
   map_option snd (view_write port 0 U8 1 ATTRS_DEFAULT aperture_bus) = Some (Inr ())"
proof -
  let ?b = "monitor_told 0 1 aperture_bus" and ?rom = "chip_leaf (TRom 2 RomFault)" and ?ram = "chip_leaf (TRam 1)"
  have rom: "leaf_write port ?rom 0 [1] ATTRS_DEFAULT (Some U8) b = (b, Inl BadAccess)" for b
    by (simp add: leaf_write_def leaf_check_def rom_written_def chip_leaf_def access_evals Let_def)
  have ram: "snd (leaf_write port ?ram 0 [1] ATTRS_DEFAULT (Some U8) b) = Inr ()" if "bu_ram b = bu_ram aperture_bus" for b
    using that by (simp add: leaf_write_def leaf_check_def stored_def ram_write_at_def ram_range_def ok_or_def checked_u64_def
          chip_leaf_def access_evals aperture_bus_def Let_def)
  have now: "member_now ?b 0 0 ?rom = ?rom" "member_now ?b 0 1 ?ram = ?ram"
    by (simp_all add: aperture_evals)
  obtain b2 where b2: "leaf_write port ?ram 0 [1] ATTRS_DEFAULT (Some U8) ?b = (b2, Inr ())"
    using ram [of ?b] by (metis monitor_told_simps(4) prod.collapse)
  have "entry_write port 0 0 [1] ATTRS_DEFAULT (Some U8) ?b = (b2, Inr ())"
    using rom [of ?b] now b2 by (simp add: entry_write_def aperture_bus_entries aperture_entry_def)
  moreover have "store_bytes Little 1 1 = [1]" by code_simp
  ultimately have "map_option snd (view_write port 0 U8 1 ATTRS_DEFAULT aperture_bus) = Some (Inr ())"
    unfolding view_write_def entry_write_value_bytes
    by (simp add: aperture_evals entry_write_endian_def entry_endian_def entry_write_run_len_def entry_read_run_len_def leaf_run_len_def
          CONSTRAINTS_ANY_def ATTRS_DEFAULT_def Let_def)
  then show ?thesis using rom ram [of aperture_bus] aperture_bus_ok by simp
qed

end
