(* ===== verification/Spec2Isabelle.thy ===== *)
theory Spec2Isabelle
  imports Core_State Core_Rand Machine_Rational Ir_Alu Ir_Dce_Sim Ir_Regalloc Clock_Control Machine_Clocks Machine_Sched Space_Race Space_Traffic
begin

text \<open>
  A verification of the core of rsemu, a multi-architecture machine emulator written in
  Rust. The emulator executes guest code through a small intermediate representation,
  reaches memory and devices through address spaces that flatten a tree of regions,
  advances every clock of a board on an exact rational time model, fires device events
  from a queue in virtual time and saves and restores whole machines as byte-exact
  snapshots. Those five mechanisms carry every guest and every device, and they are what
  this development models and verifies. Paths are below \<open>src/src/\<close>.

  \<^bold>\<open>How the parts interact.\<close> A lifter turns guest instructions into a \<open>Block\<close>; the verifier
  accepts it; the optimiser rewrites it; the interpreter runs it against an \<open>IrHost\<close>, or
  the register allocator prepares it for a code generator. The host's loads and stores go
  to an address space: the page table or the flattened view finds the entry, the entry
  the leaf, the leaf a store or a device, and a store tells the exclusive monitor on both
  sides of the transfer. The scheduler hands out time
  that the clock forest keeps, pops due events from its queue and applies the re-rating
  requests devices queue at the clock-control seam. A snapshot is a list of chunks in the
  state format; the clock forest and the scheduler are two of them.

  \<^bold>\<open>Prelude.\<close> \<open>Rsemu_Prelude\<close>: the result monad, machine-integer names, the rewrite
  collections every component proof uses. \<open>Ordered_Map\<close>: ordered maps and sets as sorted
  association lists.

  \<^bold>\<open>Snapshots\<close> (\<open>core/state.rs\<close>, \<open>core/value.rs\<close>, \<open>core/error.rs\<close>).
  \<^item> \<open>Core_Value\<close>: errors, widths and byte order.
  \<^item> \<open>State_Codec\<close>: \<open>Sink\<close> and \<open>Source\<close>, every \<open>read_*\<close> and \<open>write_*\<close>; the locale \<open>codec\<close> is the
    contract of an encoder and its decoder, interpreted for each of them.
  \<^item> \<open>State_Shape\<close>: \<open>MachineShape\<close>, its diff and its strict encoding.
  \<^item> \<open>Core_State\<close>: \<open>StateWriter\<close>, \<open>StateReader\<close>, \<open>Migrations\<close>. Shown: parsing inverts writing, whatever
    is accepted re-saves byte for byte, the image does not depend on insertion order, a
    restore is allowed exactly for the same shape, upgrades compose.

  \<^bold>\<open>Intermediate representation\<close> (\<open>ir/*.rs\<close>).
  \<^item> \<open>Ir_Op\<close>, \<open>Ir_Block\<close>: types, opcodes, blocks, the builder, \<open>retain\<close> and \<open>reorder\<close>.
  \<^item> \<open>Ir_Verify\<close>: \<open>verify\<close> check by check; it decides well-formedness.
  \<^item> \<open>Ir_Eval\<close>, \<open>Ir_Interp\<close>: \<open>Interp::step\<close> arm by arm, \<open>run\<close>, lazy publication, faults. \<open>Ir_Run\<close>, \<open>Ir_Safety\<close>,
    \<open>Ir_Contract\<close>, \<open>Ir_Host\<close>: reachable states, what a verified run can and cannot do, the contract of
    a host as a locale and the reference host of the interpreter's own tests.
  \<^item> \<open>Ir_Alu\<close>: every arithmetic operation gives the mathematical answer at its width.
  \<^item> \<open>Ir_Pass\<close>, \<open>Ir_Dce\<close>, \<open>Ir_Dce_Sim\<close>: liveness, dead-code elimination and slot hoisting; elimination
    preserves runs and verification.
  \<^item> \<open>Ir_Regalloc\<close>: linear scan; registers are never shared by overlapping values, survive calls
    and are always defined.

  \<^bold>\<open>Address space\<close> (\<open>core/space.rs\<close>, \<open>core/space/*.rs\<close>).
  \<^item> \<open>Space_Attrs\<close>, \<open>Space_Region\<close>: permissions, attributes, access rules; regions, aliases and
    mappings with every constructor. The offset of an alias is a cell of an explicit store.
  \<^item> \<open>Space_Flat\<close>: the walk of the tree, the sweep over overlapping candidates, the entries, lookup
    and the refresh after a rebase. \<open>Space_Sweep\<close>, \<open>Space_Decode\<close>, \<open>Space_View\<close>: the tree read one address at
    a time, and that the flattened view answers the same everywhere. \<open>Space_Rebase\<close>: sliding a
    window in place is rebuilding the view.
  \<^item> \<open>Space_Dispatch\<close>: the dense page table; \<open>Space_Topology\<close>: one space, its write guard and its read guard;
    \<open>Space_Machine\<close>: its life as a step relation, in every state of which addresses decode as the
    tree says and the generation moves with the topology. \<open>Space_Console\<close>: a console's map, and a
    nested combining container whose policy is lost.
  \<^item> \<open>Space_Store\<close>: RAM with its dirty bitmap, and ROM; the pages reported are those written.
  \<^item> \<open>Space_Access\<close>: reads and writes of a leaf, an entry and a view, in bytes and in values, the
    unassigned policies and their log. Devices are an argument, \<open>devices\<close>, and act on the whole
    bus; what is asked of them is named: \<open>devices_ok\<close> (fill the buffer, keep the bus well
    formed), \<open>refusals_quiet\<close> (a refusal changes nothing), \<open>debug_reads_quiet\<close> (a debug read changes
    nothing). \<open>Space_Bus\<close>: accesses end, the fast value paths are the general ones, a retried access
    changed nothing, memory keeps what is written, a byte read returns what the tree says.
    \<open>Space_Traffic\<close>: concrete buses, and two cases where the combining path breaks its documentation.
  \<^item> \<open>Bit_Walk\<close>, \<open>Space_Monitor\<close>: the exclusive monitor as programs of atomic actions, run alone and
    interleaved under sequential consistency; a store breaks the reservations it covers unless
    a core stands between publishing a reservation and counting it. \<open>Space_Race\<close>: the schedule on
    which that proviso fails.

  \<^bold>\<open>Clocks\<close> (\<open>core/clock.rs\<close>).
  \<^item> \<open>Clock_Time\<close>: exact rates, the 192-bit product, the global timeline, one oscillator.
  \<^item> \<open>Clock_Forest\<close>: \<open>ClockForest\<close> with every operation, its refusals, its roll-back and its one panic.
  \<^item> \<open>Clock_Tree\<close>, \<open>Clock_Retune\<close>, \<open>Clock_Wf\<close>, \<open>Clock_Ops\<close>, \<open>Clock_Change\<close>, \<open>Clock_Reparent\<close>: the shape of the forest,
    what a recomputation does, the invariant and its preservation by each operation.
  \<^item> \<open>Clock_Run\<close>: the operations as a state machine; the locales \<open>clock_operation\<close> and \<open>clock_change\<close> are
    the contract of an operation, interpreted for each; counters are continuous, ratios
    exact, the timeline never drifts. \<open>Clock_Console\<close>: concrete boards.
  \<^item> \<open>Clock_Control\<close>: the clock-control seam and \<open>Scheduler::apply_clock_requests\<close>; the interleavings of
    pushing devices with the taking owner as a step relation.

  \<^bold>\<open>Events\<close> (\<open>core/sched.rs\<close>).
  \<^item> \<open>Sched_Queue\<close>: \<open>EventQueue\<close>, the timing wheel with its heaps and tombstones.
  \<^item> \<open>Sched_Wheel\<close>, \<open>Sched_Fire\<close>: the invariant of the wheel, sweeping, popping.
  \<^item> \<open>Sched_Events\<close>: the locale \<open>due_queue\<close> is what a client relies on, interpreted for the wheel; the
    queue implements a sorted list. \<open>Sched_Deadline\<close>: the reported deadline, and the queue where
    it is too late.

  \<^bold>\<open>Machine snapshots\<close> (\<open>machine/machine.rs\<close>). \<open>Machine_Clocks\<close>, \<open>Machine_Sched\<close>: the clock chunk and the
  scheduler chunk written through \<open>State_Codec\<close> and restored.

  \<^bold>\<open>Small parts.\<close> \<open>Core_Rand\<close> (\<open>core/rand.rs\<close>): derived random streams. \<open>Machine_Rational\<close>
  (\<open>machine/rational.rs\<close>): exact rationals of machine files.

  \<^bold>\<open>Conventions.\<close> A Rust struct is a record, an enum a datatype, \<open>&mut self\<close> state passing, a
  \<open>Result\<close> a sum with the error on the left. Words of the interpreter and of the codec are
  \<open>word\<close> types; counters of the clock and the queue are naturals with the checked, wrapping
  or saturating range written out (\<open>checked_u64\<close>, \<open>wrapping_add64\<close>). Handles are indices. A panic the code
  can reach is a value. Vectors are lists, ordered maps and sets sorted lists, a heap read
  through its least element an ascending list.

  \<^bold>\<open>Bounds and fuel.\<close> The interpreter's loop carries the code's own step limit of \<open>2^24\<close>; a
  verified block that fits it never meets it. The walks over a clock tree carry as much
  fuel as there are domains, and more changes nothing on a reachable forest. Handles are
  32 bits wide, so forests, oscillators and chunks are bounded by \<open>2^32\<close> where a count is written as
  64 bits. Sequence numbers are 64 bits wide; posting is described below \<open>2^64\<close> events.
  The loops over the runs of a span are partial functions; on a well-formed bus they end.

  \<^bold>\<open>Not modelled.\<close> The rounds of the scheduler (threads, host clocks, trait objects), the bus lock,
  the host pointers into RAM and the counters of the tracer, the wires, record and replay, the machine-file front end, the
  guest processors, the devices, the buses, software floating point, code generation,
  hypervisors, firmware and the host front ends. \<open>Display\<close> texts are not modelled: an error
  carries what its message names.
\<close>

end
